(* ===== verification/Prelude.thy ===== *)
theory Prelude
  imports Main "HOL-Library.Word" "HOL-Library.Monad_Syntax"
begin

text \<open>
  Shared vocabulary of the development: the machine integer types of
  \<^verbatim>\<open>core/base_type_declarations.h\<close>, checked access to byte buffers (an access outside
  a buffer is the value \<open>None\<close>, never an unspecified byte), the little-endian byte image of
  an integer in memory, and the lemmas on words, lists and options that every component uses.

  Throughout, a computation that may trap (a failed \<^verbatim>\<open>assert\<close>, a read or a write outside a
  buffer) has type \<open>'a option\<close> and is written with the \<open>do\<close> notation of
  \<open>Monad_Syntax\<close>; \<open>None\<close> is the trap.
\<close>

unbundle bit_operations_syntax

type_synonym byte = "8 word"
type_synonym uint16 = "16 word"
type_synonym uint32 = "32 word"
type_synonym uint64 = "64 word"
type_synonym nonce = uint64
type_synonym time = int

named_theorems stream_simps "computation rules of the stream operations under their guards"
named_theorems wf_intros "introduction rules of the well-formedness invariants"

subsection \<open>Checked memory access\<close>

definition assert :: "bool \<Rightarrow> unit option" where
  "assert b = (if b then Some () else None)"

definition load :: "'a list \<Rightarrow> nat \<Rightarrow> 'a option" where
  "load xs i = (if i < length xs then Some (xs ! i) else None)"

definition store :: "'a list \<Rightarrow> nat \<Rightarrow> 'a \<Rightarrow> 'a list option" where
  "store xs i v = (if i < length xs then Some (xs[i := v]) else None)"

text \<open>\<^verbatim>\<open>memcpy(dest + at, source, n)\<close> with both ranges checked.\<close>

definition mem_copy :: "'a list \<Rightarrow> nat \<Rightarrow> 'a list \<Rightarrow> nat \<Rightarrow> 'a list option" where
  "mem_copy dest at source n =
     (if n \<le> length source \<and> at + n \<le> length dest
      then Some (take at dest @ take n source @ drop (at + n) dest) else None)"

lemma assert_True [simp]: "assert True = Some ()"
  by (simp add: assert_def)

lemma assert_False [simp]: "assert False = None"
  by (simp add: assert_def)

lemma load_Some [simp]: "i < length xs \<Longrightarrow> load xs i = Some (xs ! i)"
  by (simp add: load_def)

lemma store_Some [simp]: "i < length xs \<Longrightarrow> store xs i v = Some (xs[i := v])"
  by (simp add: store_def)

lemma assert_eq_Some [simp]: "assert b = Some u \<longleftrightarrow> b"
  by (cases b) auto

lemma load_eq_Some: "load xs i = Some x \<longleftrightarrow> i < length xs \<and> xs ! i = x"
  by (auto simp: load_def)

lemma store_eq_Some: "store xs i v = Some ys \<longleftrightarrow> i < length xs \<and> ys = xs[i := v]"
  by (auto simp: store_def)

lemma mem_copy_length: "mem_copy dest at source n = Some r \<Longrightarrow> length r = length dest"
  by (auto simp: mem_copy_def split: if_splits)

subsection \<open>Bits of a byte buffer\<close>

text \<open>Bit \<open>i\<close> of a buffer is bit \<open>i mod 8\<close> of byte \<open>i div 8\<close>: the numbering of
  \<^verbatim>\<open>core/bit_stream.h\<close>.\<close>

definition gbit :: "byte list \<Rightarrow> nat \<Rightarrow> bool" where
  "gbit bs i = bit (bs ! (i div 8)) (i mod 8)"

lemma gbit_byte: "t < 8 \<Longrightarrow> gbit bs (8 * j + t) = bit (bs ! j) t"
  by (simp add: gbit_def)

lemma byte_eqI: "(\<And>t. t < 8 \<Longrightarrow> bit (a :: byte) t = bit b t) \<Longrightarrow> a = b"
  by (rule bit_word_eqI) simp

lemma buffer_eqI:
  assumes "length xs = length ys"
    and "\<And>i. i < 8 * length xs \<Longrightarrow> gbit xs i = gbit ys i"
  shows "xs = ys"
proof (rule nth_equalityI)
  show "length xs = length ys" by (rule assms(1))
  fix j assume j: "j < length xs"
  show "xs ! j = ys ! j"
  proof (rule byte_eqI)
    fix t :: nat assume "t < 8"
    with j have "8 * j + t < 8 * length xs" by simp
    from assms(2)[OF this] \<open>t < 8\<close> show "bit (xs ! j) t = bit (ys ! j) t"
      by (simp add: gbit_byte)
  qed
qed

lemma bit_byte_high [simp]: "8 \<le> t \<Longrightarrow> \<not> bit (a :: byte) t"
  using bit_imp_le_length[of a t] by auto

subsection \<open>Little-endian images of integers\<close>

text \<open>\<^verbatim>\<open>host_to_little_endian\<close> followed by reading the object's bytes gives the little-endian
  image of the value on every host, so that is what the model stores.\<close>

definition bytes_of_u16 :: "uint16 \<Rightarrow> byte list" where
  "bytes_of_u16 v = map (\<lambda>i. ucast (drop_bit (8 * i) v)) [0..<2]"

definition bytes_of_u32 :: "uint32 \<Rightarrow> byte list" where
  "bytes_of_u32 v = map (\<lambda>i. ucast (drop_bit (8 * i) v)) [0..<4]"

definition bytes_of_u64 :: "uint64 \<Rightarrow> byte list" where
  "bytes_of_u64 v = map (\<lambda>i. ucast (drop_bit (8 * i) v)) [0..<8]"

definition u16_of_bytes :: "byte list \<Rightarrow> uint16" where
  "u16_of_bytes bs = foldr (\<lambda>b acc. ucast b OR push_bit 8 acc) bs 0"

definition u32_of_bytes :: "byte list \<Rightarrow> uint32" where
  "u32_of_bytes bs = foldr (\<lambda>b acc. ucast b OR push_bit 8 acc) bs 0"

definition u64_of_bytes :: "byte list \<Rightarrow> uint64" where
  "u64_of_bytes bs = foldr (\<lambda>b acc. ucast b OR push_bit 8 acc) bs 0"

lemma length_bytes_of [simp]:
  "length (bytes_of_u16 a) = 2" "length (bytes_of_u32 b) = 4" "length (bytes_of_u64 c) = 8"
  by (simp_all add: bytes_of_u16_def bytes_of_u32_def bytes_of_u64_def)

lemma bit_le_fold:
  "bit (foldr (\<lambda>b acc. ucast (b :: byte) OR push_bit 8 acc) bs (0 :: 'a :: len word)) t \<longleftrightarrow>
     t < LENGTH('a) \<and> t < 8 * length bs \<and> gbit bs t"
proof (induction bs arbitrary: t)
  case Nil
  then show ?case by simp
next
  case (Cons b bs)
  show ?case
  proof (cases "t < 8")
    case True
    then show ?thesis by (auto simp: bit_simps gbit_def)
  next
    case False
    then have d: "t div 8 = Suc ((t - 8) div 8)" "t mod 8 = (t - 8) mod 8"
      by (simp_all add: le_div_geq le_mod_geq)
    have "gbit (b # bs) t = gbit bs (t - 8)" by (simp only: gbit_def d nth_Cons_Suc)
    with False Cons.IH[of "t - 8"] show ?thesis by (auto simp: bit_simps)
  qed
qed

lemma gbit_le_map:
  assumes "t < 8 * n"
  shows "gbit (map (\<lambda>i. ucast (drop_bit (8 * i) (v :: 'a :: len word)) :: byte) [0..<n]) t = bit v t"
proof -
  have "t div 8 < n" using assms by (simp add: div_less_iff_less_mult mult.commute)
  then show ?thesis
    by (simp add: gbit_def bit_simps)
qed

lemma bit_u32_of_bytes: "length bs = 4 \<Longrightarrow> bit (u32_of_bytes bs) t \<longleftrightarrow> t < 32 \<and> gbit bs t"
  by (auto simp: u32_of_bytes_def bit_le_fold)

lemma gbit_bytes_of_u32: "t < 32 \<Longrightarrow> gbit (bytes_of_u32 v) t = bit v t"
  by (simp add: bytes_of_u32_def gbit_le_map)

lemma u16_of_bytes_of_u16 [simp]: "u16_of_bytes (bytes_of_u16 v) = v"
  by (rule bit_word_eqI) (auto simp: u16_of_bytes_def bytes_of_u16_def bit_le_fold gbit_le_map)

lemma u32_of_bytes_of_u32 [simp]: "u32_of_bytes (bytes_of_u32 v) = v"
  by (rule bit_word_eqI) (auto simp: u32_of_bytes_def bytes_of_u32_def bit_le_fold gbit_le_map)

lemma u64_of_bytes_of_u64 [simp]: "u64_of_bytes (bytes_of_u64 v) = v"
  by (rule bit_word_eqI) (auto simp: u64_of_bytes_def bytes_of_u64_def bit_le_fold gbit_le_map)

subsection \<open>Words as natural numbers\<close>

lemma list_update_numeral: "(x # xs)[numeral n := y] = x # xs[pred_numeral n := y]"
  by (simp add: numeral_eq_Suc)

lemma unat_of_nat_small: "n < 2 ^ LENGTH('a) \<Longrightarrow> unat (word_of_nat n :: 'a :: len word) = n"
  by (simp add: unsigned_of_nat take_bit_nat_eq_self)

lemma word_eq_of_nat: "unat (w :: 'a :: len word) = n \<Longrightarrow> w = word_of_nat n"
  by (metis of_nat_unat ucast_id)

lemma unat_less_32: "unat (w :: uint32) < 4294967296"
  using unsigned_less[of w, where 'a = nat] by simp

lemma word_sub_decreases:
  "r \<noteq> 0 \<Longrightarrow> \<not> n \<le> r \<Longrightarrow> unat (n - r) < unat (n :: 'a :: len word)"
  by (metis diff_less nle_le unat_gt_0 unat_sub word_gt_0 order_less_le_trans word_less_nat_alt not_le)

lemma unat_next: "i < n \<Longrightarrow> unat (i + 1 :: 'a :: len word) = unat i + 1"
proof -
  assume "i < n"
  then have "unat i + unat (1 :: 'a word) < 2 ^ LENGTH('a)"
    using le_less_trans[OF Suc_leI unsigned_less[of n]] by (simp add: word_less_nat_alt)
  then show ?thesis by (simp only: unat_add_lem[THEN iffD1] unsigned_1)
qed

lemma unat_diff_32: "unat a \<le> unat (n :: uint32) \<Longrightarrow> unat (n - a) = unat n - unat a"
  by (simp add: unat_sub word_le_nat_alt)

subsection \<open>Runs of a labelled step relation\<close>

inductive run :: "('s \<Rightarrow> 'l \<Rightarrow> 's \<Rightarrow> bool) \<Rightarrow> 's \<Rightarrow> 'l list \<Rightarrow> 's \<Rightarrow> bool" for step s where
  run_Nil: "run step s [] s"
| run_snoc: "run step s ls s' \<Longrightarrow> step s' l s'' \<Longrightarrow> run step s (ls @ [l]) s''"

inductive_simps run_Nil_iff [simp]: "run step s [] s'"

lemma run_single: "step s l s' \<Longrightarrow> run step s [l] s'"
  using run_snoc[of step s "[]" s l s'] by simp

lemma run_invariant:
  assumes "run step s ls s'" "I s []"
    and "\<And>ls s' l s''. run step s ls s' \<Longrightarrow> I s' ls \<Longrightarrow> step s' l s'' \<Longrightarrow> I s'' (ls @ [l])"
  shows "I s' ls"
  using assms(1,2) by (induction rule: run.induct) (auto intro: assms(3))

subsection \<open>Clearing low bits\<close>

lemma and_not_mask: "w AND NOT (mask k) = w - take_bit k (w :: 'a::len word)"
proof -
  have "w = (w AND NOT (mask k)) + take_bit k w"
    by (subst disjunctive_add_eq_or) (auto intro!: bit_word_eqI simp: bit_simps)
  then show ?thesis by (metis add_diff_cancel_right')
qed

lemma unat_and_not_mask: "unat (w AND NOT (mask k)) = unat (w :: 'a::len word) div 2 ^ k * 2 ^ k"
proof -
  have t: "unat (take_bit k w) = unat w mod 2 ^ k" by (rule trans[OF unsigned_take_bit_eq take_bit_eq_mod])
  then have "take_bit k w \<le> w" by (simp add: word_le_nat_alt)
  then show ?thesis by (simp add: and_not_mask unat_sub t minus_mod_eq_div_mult)
qed

end
