(* ===== verification/Copy_Bits.thy ===== *)
theory Copy_Bits
  imports Prelude
begin

text \<open>
  The bit-granular copy \<^verbatim>\<open>bit_stream::_copy_bits\<close> of \<^verbatim>\<open>core/bit_stream.h\<close>, which every read
  and write of the wire format goes through.  The routine moves whole bytes: a byte-aligned
  loop when source and destination start at the same bit of a byte, and otherwise a loop
  over a 32-bit \<open>slider\<close>.  The model keeps those loops and checks every pointer access.
  The theory shows that the routine never leaves its buffers and copies exactly the bits a
  bit-by-bit copy would.
\<close>

subsection \<open>The routine\<close>

text \<open>\<^verbatim>\<open>byte mask = (1 << n) - 1\<close>.\<close>

definition low_mask :: "nat \<Rightarrow> byte" where
  "low_mask n = push_bit n 1 - 1"

text \<open>The loop of the aligned branch; \<open>k\<close> is \<^verbatim>\<open>last_write_byte - dest_ptr\<close>.\<close>

primrec aligned_loop ::
    "nat \<Rightarrow> byte list \<Rightarrow> nat \<Rightarrow> byte list \<Rightarrow> nat \<Rightarrow> byte \<Rightarrow> (byte list \<times> nat \<times> byte) option" where
  "aligned_loop 0 dest dp source sp buffer = Some (dest, dp, buffer)"
| "aligned_loop (Suc k) dest dp source sp buffer = do {
     dest' \<leftarrow> store dest dp buffer;
     buffer' \<leftarrow> load source sp;
     aligned_loop k dest' (dp + 1) source (sp + 1) buffer' }"

definition copy_bits_aligned ::
    "byte list \<Rightarrow> nat \<Rightarrow> byte list \<Rightarrow> nat \<Rightarrow> nat \<Rightarrow> nat \<Rightarrow> nat \<Rightarrow> byte list option" where
  "copy_bits_aligned dest dp source sp bit0 last_write_byte last_bit = do {
     d0 \<leftarrow> load dest dp;
     s0 \<leftarrow> load source sp;
     let m = low_mask bit0;
     (dest', dp', buffer) \<leftarrow>
       aligned_loop (last_write_byte - dp) dest dp source (sp + 1) ((d0 AND m) OR (s0 AND NOT m));
     let m' = low_mask (last_bit + 1);
     dl \<leftarrow> load dest' dp';
     store dest' dp' ((buffer AND m') OR (dl AND NOT m')) }"

text \<open>The loop of the unaligned branch and what follows it.\<close>

primrec slider_loop ::
    "nat \<Rightarrow> byte list \<Rightarrow> nat \<Rightarrow> byte list \<Rightarrow> nat \<Rightarrow> uint32 \<Rightarrow> nat
     \<Rightarrow> (byte list \<times> nat \<times> nat \<times> uint32) option" where
  "slider_loop 0 dest dp source sp slider up_shift = Some (dest, dp, sp, slider)"
| "slider_loop (Suc k) dest dp source sp slider up_shift = do {
     s \<leftarrow> load source sp;
     let slider' = slider OR push_bit up_shift (ucast s);
     dest' \<leftarrow> store dest dp (ucast slider');
     slider_loop k dest' (dp + 1) source (sp + 1) (drop_bit 8 slider') up_shift }"

definition copy_bits_tail ::
    "byte list \<Rightarrow> nat \<Rightarrow> byte list \<Rightarrow> nat \<Rightarrow> uint32 \<Rightarrow> nat \<Rightarrow> nat \<Rightarrow> nat \<Rightarrow> byte list option" where
  "copy_bits_tail dest dp source sp slider up_shift last_write_byte last_bit = do {
     (dest', dp', sp', slider') \<leftarrow>
       slider_loop (last_write_byte - dp) dest dp source sp slider up_shift;
     slider'' \<leftarrow> (if up_shift \<le> last_bit
                then do { s \<leftarrow> load source sp'; Some (slider' OR push_bit up_shift (ucast s)) }
                else Some slider');
     let m = low_mask (last_bit + 1);
     dl \<leftarrow> load dest' dp';
     store dest' dp' ((ucast slider'' AND m) OR (dl AND NOT m)) }"

definition copy_bits_unaligned ::
    "byte list \<Rightarrow> nat \<Rightarrow> nat \<Rightarrow> byte list \<Rightarrow> nat \<Rightarrow> nat \<Rightarrow> nat \<Rightarrow> bool \<Rightarrow> nat \<Rightarrow> nat \<Rightarrow> byte list option" where
  "copy_bits_unaligned dest dp dest_bit source sp source_bit bit_count fits last_write_byte last_bit =
   do {
     s0 \<leftarrow> load source sp;
     d0 \<leftarrow> load dest dp;
     let slider = (ucast s0 :: uint32);
     if source_bit < dest_bit then
       (let up_shift = dest_bit - source_bit in
        if fits then
          (let m = push_bit dest_bit (low_mask bit_count) in
           store dest dp ((d0 AND NOT m) OR (ucast (push_bit up_shift slider) AND m)))
        else
          (let m = low_mask dest_bit in do {
             dest' \<leftarrow> store dest dp ((d0 AND m) OR (ucast (push_bit up_shift slider) AND NOT m));
             copy_bits_tail dest' (dp + 1) source (sp + 1) (drop_bit (8 - up_shift) slider)
               up_shift last_write_byte last_bit }))
     else
       (let down_shift = source_bit - dest_bit;
            m = (ucast (low_mask dest_bit) :: uint32) in
        copy_bits_tail dest dp source (sp + 1)
          ((ucast d0 AND m) OR (drop_bit down_shift slider AND NOT m))
          (8 - down_shift) last_write_byte last_bit) }"

definition copy_bits ::
    "byte list \<Rightarrow> uint32 \<Rightarrow> byte list \<Rightarrow> uint32 \<Rightarrow> uint32 \<Rightarrow> byte list option" where
  "copy_bits dest dest_bit source source_bit bit_count = do {
     assert (bit_count \<noteq> 0);
     let dp = unat (drop_bit 3 dest_bit);
     let sp = unat (drop_bit 3 source_bit);
     let db = dest_bit AND 7;
     let sb = source_bit AND 7;
     let last_write_bit = db + bit_count - 1;
     let last_write_byte = dp + unat (drop_bit 3 last_write_bit);
     let last_bit = unat (last_write_bit AND 7);
     if sb = db
     then copy_bits_aligned dest dp source sp (unat sb) last_write_byte last_bit
     else copy_bits_unaligned dest dp (unat db) source sp (unat sb) (unat bit_count)
            (db + bit_count \<le> 8) last_write_byte last_bit }"

text \<open>The reference: the buffer a bit-by-bit copy produces.\<close>

definition bits_copied :: "byte list \<Rightarrow> nat \<Rightarrow> byte list \<Rightarrow> nat \<Rightarrow> nat \<Rightarrow> byte list \<Rightarrow> bool" where
  "bits_copied dest db source sb n r \<longleftrightarrow> length r = length dest \<and>
     (\<forall>i < 8 * length dest.
        gbit r i = (if db \<le> i \<and> i < db + n then gbit source (sb + (i - db)) else gbit dest i))"

text \<open>The same as a function: every byte of the result assembled from its eight bits.\<close>

definition byte_of_bits :: "(nat \<Rightarrow> bool) \<Rightarrow> byte" where
  "byte_of_bits f = horner_sum of_bool 2 (map f [0..<8])"

definition copy_ref :: "byte list \<Rightarrow> nat \<Rightarrow> byte list \<Rightarrow> nat \<Rightarrow> nat \<Rightarrow> byte list" where
  "copy_ref dest db source sb n =
     map (\<lambda>j. byte_of_bits (\<lambda>t. if db \<le> 8 * j + t \<and> 8 * j + t < db + n
                               then gbit source (sb + (8 * j + t - db)) else gbit dest (8 * j + t)))
       [0..<length dest]"

lemma bit_byte_of_bits: "t < 8 \<Longrightarrow> bit (byte_of_bits f) t = f t"
  by (simp add: byte_of_bits_def bit_horner_sum_bit_word_iff)

lemma length_copy_ref [simp]: "length (copy_ref dest db source sb n) = length dest"
  by (simp add: copy_ref_def)

lemma gbit_copy_ref:
  assumes "i < 8 * length dest"
  shows "gbit (copy_ref dest db source sb n) i =
    (if db \<le> i \<and> i < db + n then gbit source (sb + (i - db)) else gbit dest i)"
proof -
  have "i div 8 < length dest" using assms by (simp add: div_less_iff_less_mult mult.commute)
  then have "copy_ref dest db source sb n ! (i div 8) =
      byte_of_bits (\<lambda>t. if db \<le> 8 * (i div 8) + t \<and> 8 * (i div 8) + t < db + n
         then gbit source (sb + (8 * (i div 8) + t - db)) else gbit dest (8 * (i div 8) + t))"
    by (simp add: copy_ref_def)
  then show ?thesis by (simp add: gbit_def[of "copy_ref dest db source sb n"] bit_byte_of_bits)
qed

lemma bits_copied_iff: "bits_copied dest db source sb n r \<longleftrightarrow> r = copy_ref dest db source sb n"
proof
  assume "bits_copied dest db source sb n r"
  then show "r = copy_ref dest db source sb n"
    by (intro buffer_eqI) (simp_all add: bits_copied_def gbit_copy_ref)
next
  assume "r = copy_ref dest db source sb n"
  then show "bits_copied dest db source sb n r" by (simp add: bits_copied_def gbit_copy_ref)
qed

lemma copy_ref_0 [simp]: "copy_ref dest db source sb 0 = dest"
  by (rule buffer_eqI) (auto simp: gbit_copy_ref)

subsection \<open>Bit lemmas\<close>

lemma low_mask_eq: "low_mask n = mask n"
  by (simp add: low_mask_def mask_eq_exp_minus_1 push_bit_eq_mult)

lemma bit_low_mask: "t < 8 \<Longrightarrow> bit (low_mask n) t \<longleftrightarrow> t < n"
  by (simp add: low_mask_eq bit_simps)

lemma bit_ucast_byte: "bit (ucast (b :: byte) :: uint32) t \<longleftrightarrow> t < 8 \<and> bit b t"
  by (auto simp: bit_simps) (metis bit_byte_high not_le)

lemma bit_ucast_u32: "bit (ucast (w :: uint32) :: byte) t \<longleftrightarrow> t < 8 \<and> bit w t"
  by (simp add: bit_simps)

lemmas copy_bit_simps = bit_low_mask bit_ucast_byte bit_ucast_u32 bit_and_iff bit_or_iff
  bit_not_iff bit_push_bit_iff bit_drop_bit_eq

lemma aligned_loop_spec:
  assumes "dp + k < length dest" and "sp + k \<le> length source"
  shows "\<exists>dest'. aligned_loop k dest dp source sp buffer =
           Some (dest', dp + k, if k = 0 then buffer else source ! (sp + k - 1))
         \<and> length dest' = length dest
         \<and> (\<forall>j < length dest. dest' ! j =
              (if j < dp \<or> dp + k \<le> j then dest ! j
               else if j = dp then buffer else source ! (sp + (j - dp) - 1)))"
  using assms
proof (induction k arbitrary: dest dp sp buffer)
  case 0
  then show ?case by auto
next
  case (Suc k)
  from Suc.IH[of "dp + 1" "dest[dp := buffer]" "sp + 1" "source ! sp"] Suc.prems
  obtain dest' where ih: "aligned_loop k (dest[dp := buffer]) (dp + 1) source (sp + 1) (source ! sp) =
       Some (dest', dp + 1 + k, if k = 0 then source ! sp else source ! (sp + 1 + k - 1))"
    "length dest' = length dest"
    "\<forall>j < length dest. dest' ! j =
        (if j < dp + 1 \<or> dp + 1 + k \<le> j then dest[dp := buffer] ! j
         else if j = dp + 1 then source ! sp else source ! (sp + 1 + (j - (dp + 1)) - 1))"
    by auto
  show ?case
    using ih Suc.prems by (intro exI[of _ dest']) (auto simp: nth_list_update)
qed

text \<open>The bits the slider will deliver next: those it still holds, then the source's.\<close>

definition slid :: "byte list \<Rightarrow> nat \<Rightarrow> uint32 \<Rightarrow> nat \<Rightarrow> nat \<Rightarrow> bool" where
  "slid source sp slider up x =
     (if x < up then bit slider x else gbit source (8 * sp + (x - up)))"

lemma bit_slider_or:
  assumes "up \<le> 8" and "\<forall>t \<ge> up. \<not> bit slider t"
  shows "bit (slider OR push_bit up (ucast (s :: byte)) :: uint32) t \<longleftrightarrow>
           (if t < up then bit slider t else t < up + 8 \<and> bit s (t - up))"
  using assms by (auto simp: copy_bit_simps bit_simps)

lemma slid_low:
  assumes "up \<le> 8" and "\<forall>t \<ge> up. \<not> bit slider t" and "t < 8"
  shows "bit (ucast (slider OR push_bit up (ucast (source ! sp))) :: byte) t
         = slid source sp slider up t"
proof (cases "t < up")
  case True
  with assms show ?thesis
    by (simp add: bit_ucast_u32 bit_slider_or slid_def)
next
  case False
  with assms have "gbit source (8 * sp + (t - up)) = bit (source ! sp) (t - up)"
    by (intro gbit_byte) simp
  with False assms show ?thesis
    by (simp add: bit_ucast_u32 bit_slider_or slid_def)
qed

lemma slid_next:
  fixes source :: "byte list" and sp up :: nat and slider :: uint32
  assumes "0 < up" "up \<le> 8" and "\<forall>t \<ge> up. \<not> bit slider t"
  defines "slider' \<equiv> drop_bit 8 (slider OR push_bit up (ucast (source ! sp)))"
  shows "slid source (Suc sp) slider' up x = slid source sp slider up (x + 8)"
    and "\<forall>t \<ge> up. \<not> bit slider' t"
proof -
  have b: "bit slider' t \<longleftrightarrow> t < up \<and> bit (source ! sp) (t + 8 - up)" for t
    unfolding slider'_def bit_drop_bit_eq o_def bit_slider_or[OF assms(2,3)]
    using assms(1,2) by (auto simp: add.commute)
  show "\<forall>t \<ge> up. \<not> bit slider' t" by (simp add: b)
  show "slid source (Suc sp) slider' up x = slid source sp slider up (x + 8)"
  proof (cases "x < up")
    case True
    then have "gbit source (8 * sp + (x + 8 - up)) = bit (source ! sp) (x + 8 - up)"
      using assms(2) by (intro gbit_byte) simp
    with True assms(1,2) show ?thesis by (simp add: slid_def b)
  next
    case False
    then have "8 * Suc sp + (x - up) = 8 * sp + (x + 8 - up)" using assms(2) by simp
    with False assms(2) show ?thesis by (simp add: slid_def)
  qed
qed

lemma slider_loop_spec:
  assumes "dp + k \<le> length dest" and "sp + k \<le> length source"
    and "0 < up" "up \<le> 8" and "\<forall>t \<ge> up. \<not> bit slider t"
  shows "\<exists>dest' slider'. slider_loop k dest dp source sp slider up = Some (dest', dp + k, sp + k, slider')
         \<and> length dest' = length dest
         \<and> (\<forall>t \<ge> up. \<not> bit slider' t)
         \<and> (\<forall>t < up. bit slider' t = slid source sp slider up (8 * k + t))
         \<and> (\<forall>j < length dest. j < dp \<or> dp + k \<le> j \<longrightarrow> dest' ! j = dest ! j)
         \<and> (\<forall>m < k. \<forall>t < 8. bit (dest' ! (dp + m)) t = slid source sp slider up (8 * m + t))"
  using assms
proof (induction k arbitrary: dest dp sp slider)
  case 0
  then show ?case by (auto simp: slid_def)
next
  case (Suc k)
  define s2 where "s2 = slider OR push_bit up (ucast (source ! sp))"
  define dest2 where "dest2 = dest[dp := ucast s2]"
  note nx = slid_next[OF Suc.prems(3-5), of source sp, folded s2_def]
  obtain dest' slider' where ih:
    "slider_loop k dest2 (dp + 1) source (sp + 1) (drop_bit 8 s2) up
       = Some (dest', dp + 1 + k, sp + 1 + k, slider')"
    "length dest' = length dest2" "\<forall>t \<ge> up. \<not> bit slider' t"
    "\<forall>t < up. bit slider' t = slid source sp slider up (8 * k + t + 8)"
    "\<forall>j < length dest2. j < dp + 1 \<or> dp + 1 + k \<le> j \<longrightarrow> dest' ! j = dest2 ! j"
    "\<forall>m < k. \<forall>t < 8. bit (dest' ! (dp + 1 + m)) t = slid source sp slider up (8 * m + t + 8)"
    using Suc.IH[of "dp + 1" dest2 "sp + 1" "drop_bit 8 s2"] Suc.prems nx(2)
    by (auto simp: nx(1) dest2_def)
  have run: "slider_loop (Suc k) dest dp source sp slider up
      = Some (dest', dp + Suc k, sp + Suc k, slider')"
    using Suc.prems ih(1) by (simp add: s2_def dest2_def Let_def)
  have bytes: "bit (dest' ! (dp + m)) t = slid source sp slider up (8 * m + t)"
    if "m < Suc k" "t < 8" for m t
  proof (cases m)
    case 0
    with ih(5) Suc.prems have "dest' ! dp = ucast s2"
      by (simp add: dest2_def)
    with 0 that Suc.prems show ?thesis by (simp add: s2_def slid_low)
  next
    case (Suc m')
    with ih(6) that show ?thesis by (auto simp: algebra_simps)
  qed
  show ?case
    using run ih bytes Suc.prems
    by (intro exI[of _ dest'] exI[of _ slider']) (auto simp: dest2_def algebra_simps nth_list_update)
qed

lemma copy_bits_tail_spec:
  assumes "dp \<le> lw" "lw < length dest" "last_bit < 8"
    and "0 < up" "up \<le> 8" and zero: "\<forall>t \<ge> up. \<not> bit slider t"
    and src: "sp + (lw - dp) \<le> length source"
    and src': "up \<le> last_bit \<Longrightarrow> sp + (lw - dp) < length source"
  shows "\<exists>r. copy_bits_tail dest dp source sp slider up lw last_bit = Some r
         \<and> length r = length dest
         \<and> (\<forall>j < length dest. \<forall>t < 8. bit (r ! j) t =
              (if dp \<le> j \<and> (j < lw \<or> j = lw \<and> t \<le> last_bit)
               then slid source sp slider up (8 * (j - dp) + t) else bit (dest ! j) t))"
proof -
  define k where "k = lw - dp"
  have lw: "lw = dp + k" using assms(1) by (simp add: k_def)
  obtain dest' slider' where lp:
    "slider_loop k dest dp source sp slider up = Some (dest', dp + k, sp + k, slider')"
    "length dest' = length dest" "\<forall>t \<ge> up. \<not> bit slider' t"
    "\<forall>t < up. bit slider' t = slid source sp slider up (8 * k + t)"
    "\<forall>j < length dest. j < dp \<or> dp + k \<le> j \<longrightarrow> dest' ! j = dest ! j"
    "\<forall>m < k. \<forall>t < 8. bit (dest' ! (dp + m)) t = slid source sp slider up (8 * m + t)"
    using slider_loop_spec[OF _ _ assms(4,5) zero, of dp k dest sp source] assms(2) src
    by (auto simp: lw)
  define sl where "sl = (if up \<le> last_bit then slider' OR push_bit up (ucast (source ! (sp + k))) else slider')"
  have sl_bit: "bit sl t = slid source sp slider up (8 * k + t)" if "t \<le> last_bit" for t
  proof (cases "t < up")
    case True
    with lp(3,4) show ?thesis
      by (simp add: sl_def bit_slider_or assms(5))
  next
    case False
    with that have up: "up \<le> last_bit" by simp
    have "gbit source (8 * (sp + k) + (t - up)) = bit (source ! (sp + k)) (t - up)"
      using that assms(3) by (intro gbit_byte) simp
    with False up that assms(3) lp(3) show ?thesis
      by (simp add: sl_def bit_slider_or assms(5) slid_def algebra_simps)
  qed
  define b where "b = (ucast sl AND low_mask (last_bit + 1)) OR (dest' ! lw AND NOT (low_mask (last_bit + 1)))"
  have run: "copy_bits_tail dest dp source sp slider up lw last_bit = Some (dest'[lw := b])"
    using lp(1,2) src' assms(2) by (auto simp: copy_bits_tail_def lw sl_def b_def Let_def)
  have b: "bit b t = (if t \<le> last_bit then slid source sp slider up (8 * k + t) else bit (dest ! lw) t)"
    if "t < 8" for t
    using that lp(5) assms(2) by (auto simp: b_def copy_bit_simps sl_bit lw)
  have out: "bit (dest'[lw := b] ! j) t =
       (if dp \<le> j \<and> (j < lw \<or> j = lw \<and> t \<le> last_bit)
        then slid source sp slider up (8 * (j - dp) + t) else bit (dest ! j) t)"
    if j: "j < length dest" and t: "t < 8" for j t
  proof -
    consider "j = lw" | "j < dp \<or> lw < j" | "dp \<le> j" "j < lw" by linarith
    then show ?thesis
    proof cases
      case 1
      with b[OF t] assms(1,2) lp(2) show ?thesis by (simp add: lw)
    next
      case 2
      with lp(5) j assms(1) show ?thesis by (auto simp: lw)
    next
      case 3
      then have "j - dp < k" by (simp add: lw)
      from lp(6)[rule_format, OF this t] 3 show ?thesis by (simp add: lw)
    qed
  qed
  show ?thesis
    using run out lp(2) by (intro exI[of _ "dest'[lw := b]"]) simp
qed

lemma bits_copiedI:
  assumes "length r = length dest"
    and "\<And>j t. j < length dest \<Longrightarrow> t < 8 \<Longrightarrow> bit (r ! j) t =
       (if D \<le> 8 * j + t \<and> 8 * j + t < D + n then gbit source (S + (8 * j + t - D)) else bit (dest ! j) t)"
  shows "bits_copied dest D source S n r"
  unfolding bits_copied_def
proof (intro conjI allI impI)
  fix i assume "i < 8 * length dest"
  then show "gbit r i = (if D \<le> i \<and> i < D + n then gbit source (S + (i - D)) else gbit dest i)"
    using assms(2)[of "i div 8" "i mod 8"] by (simp add: gbit_def)
qed (rule assms(1))

lemma copy_bits_aligned_spec:
  assumes "bit0 < 8" "last_bit < 8" "dp \<le> lw" "lw < length dest"
    and n: "8 * lw + last_bit + 1 = 8 * dp + bit0 + n" "0 < n"
    and src: "8 * sp + bit0 + n \<le> 8 * length source"
  shows "\<exists>r. copy_bits_aligned dest dp source sp bit0 lw last_bit = Some r
           \<and> bits_copied dest (8 * dp + bit0) source (8 * sp + bit0) n r"
proof -
  define k where "k = lw - dp"
  have lw: "lw = dp + k" using assms(3) by (simp add: k_def)
  have sk: "sp + k < length source" using n src lw assms(1) by linarith
  define buf where "buf = (dest ! dp AND low_mask bit0) OR (source ! sp AND NOT (low_mask bit0))"
  obtain dest' where lp:
    "aligned_loop k dest dp source (sp + 1) buf =
       Some (dest', dp + k, if k = 0 then buf else source ! (sp + 1 + k - 1))"
    "length dest' = length dest"
    "\<forall>j < length dest. dest' ! j = (if j < dp \<or> dp + k \<le> j then dest ! j
        else if j = dp then buf else source ! (sp + 1 + (j - dp) - 1))"
    using aligned_loop_spec[of dp k dest "sp + 1" source buf] assms(4) sk lw by auto
  define lastb where "lastb = (if k = 0 then buf else source ! (sp + k))"
  define b where "b = (lastb AND low_mask (last_bit + 1)) OR (dest ! lw AND NOT (low_mask (last_bit + 1)))"
  have run: "copy_bits_aligned dest dp source sp bit0 lw last_bit = Some (dest'[lw := b])"
    using lp assms(3,4) sk
    by (auto simp: copy_bits_aligned_def lw b_def lastb_def buf_def Let_def)
  have src_bit: "gbit source (8 * sp + bit0 + (8 * j + t - (8 * dp + bit0))) = bit (source ! (sp + (j - dp))) t"
    if "8 * dp + bit0 \<le> 8 * j + t" "dp \<le> j" "t < 8" for j t
  proof -
    have "8 * sp + bit0 + (8 * j + t - (8 * dp + bit0)) = 8 * (sp + (j - dp)) + t"
      using that by simp
    then show ?thesis using that(3) by (simp only: gbit_byte)
  qed
  have "bits_copied dest (8 * dp + bit0) source (8 * sp + bit0) n (dest'[lw := b])"
  proof (rule bits_copiedI)
    show "length (dest'[lw := b]) = length dest" using lp(2) by simp
    fix j t :: nat assume j: "j < length dest" and t: "t < 8"
    have buf: "bit buf t = (if t < bit0 then bit (dest ! dp) t else bit (source ! sp) t)"
      using t by (simp add: buf_def copy_bit_simps)
    have bb: "bit b t = (if t \<le> last_bit then bit lastb t else bit (dest ! lw) t)"
      using t by (simp add: b_def copy_bit_simps less_Suc_eq_le)
    show "bit (dest'[lw := b] ! j) t =
      (if 8 * dp + bit0 \<le> 8 * j + t \<and> 8 * j + t < 8 * dp + bit0 + n
       then gbit source (8 * sp + bit0 + (8 * j + t - (8 * dp + bit0))) else bit (dest ! j) t)"
    proof (cases "j < dp \<or> lw < j")
      case True
      have "\<not> (8 * dp + bit0 \<le> 8 * j + t \<and> 8 * j + t < 8 * dp + bit0 + n)"
        using True t n(1) assms(2) by linarith
      with True lp(2,3) j show ?thesis by (auto simp: lw)
    next
      case False
      then have dj: "dp \<le> j" "j \<le> lw" by auto
      have cond: "(8 * dp + bit0 \<le> 8 * j + t \<and> 8 * j + t < 8 * dp + bit0 + n) \<longleftrightarrow>
         (j = dp \<longrightarrow> bit0 \<le> t) \<and> (j = lw \<longrightarrow> t \<le> last_bit)"
        using dj t n(1) assms(1) by linarith
      have byte: "bit (dest'[lw := b] ! j) t = bit (if j = lw then b else if j = dp then buf else source ! (sp + (j - dp))) t"
        using lp(2,3) j dj by (auto simp: lw)
      define g where "g = gbit source (8 * sp + bit0 + (8 * j + t - (8 * dp + bit0)))"
      have src: "g = bit (source ! (sp + (j - dp))) t"
        if "j = dp \<longrightarrow> bit0 \<le> t"
        unfolding g_def using that dj t assms(1) by (intro src_bit) linarith+
      consider "j = dp" "k = 0" | "j = dp" "k \<noteq> 0" | "j \<noteq> dp" "j = dp + k" "k \<noteq> 0"
        | "j \<noteq> dp" "j \<noteq> dp + k" by (cases "k = 0") auto
      then show ?thesis
        unfolding byte cond g_def[symmetric] unfolding lw
        using src bb[unfolded lw] buf by cases (simp_all add: lastb_def)
    qed
  qed
  with run show ?thesis by blast
qed

lemma slid_source:
  assumes "up \<le> 8" and "x < up \<Longrightarrow> bit slider x = bit (source ! sp) (8 - up + x)"
  shows "slid source (Suc sp) slider up x = gbit source (8 * sp + 8 + x - up)"
proof (cases "x < up")
  case True
  have "gbit source (8 * sp + (8 - up + x)) = bit (source ! sp) (8 - up + x)"
    using True assms(1) by (intro gbit_byte) simp
  moreover have "8 * sp + (8 - up + x) = 8 * sp + 8 + x - up" using assms(1) by simp
  ultimately show ?thesis using True assms by (simp only: slid_def if_True)
next
  case False
  with assms(1) have "8 * Suc sp + (x - up) = 8 * sp + 8 + x - up" by simp
  with False show ?thesis by (simp add: slid_def del: mult_Suc_right)
qed

lemma copy_bits_within_byte:
  assumes "sb < db" "db + n \<le> 8" "dp < length dest" "sp < length source"
  shows "\<exists>r. copy_bits_unaligned dest dp db source sp sb n True lw last_bit = Some r
           \<and> bits_copied dest (8 * dp + db) source (8 * sp + sb) n r"
proof -
  define m where "m = push_bit db (low_mask n)"
  define b where "b = (dest ! dp AND NOT m) OR (ucast (push_bit (db - sb) (ucast (source ! sp) :: uint32)) AND m)"
  have run: "copy_bits_unaligned dest dp db source sp sb n True lw last_bit = Some (dest[dp := b])"
    using assms by (simp add: copy_bits_unaligned_def b_def m_def Let_def)
  have "bits_copied dest (8 * dp + db) source (8 * sp + sb) n (dest[dp := b])"
  proof (rule bits_copiedI)
    fix j t :: nat assume j: "j < length dest" and t: "t < 8"
    have m: "bit m t \<longleftrightarrow> db \<le> t \<and> t < db + n"
      using t assms by (auto simp: m_def bit_push_bit_iff bit_low_mask)
    have b: "bit b t = (if db \<le> t \<and> t < db + n then bit (source ! sp) (t - (db - sb)) else bit (dest ! dp) t)"
      using t assms m by (auto simp: b_def copy_bit_simps bit_simps)
    have src: "gbit source (8 * sp + sb + (8 * dp + t - (8 * dp + db))) = bit (source ! sp) (t - (db - sb))"
      if "db \<le> t"
    proof -
      have "8 * sp + sb + (8 * dp + t - (8 * dp + db)) = 8 * sp + (t - (db - sb))"
        using that assms(1) by simp
      then show ?thesis using t by (simp only: gbit_byte less_imp_diff_less)
    qed
    show "bit (dest[dp := b] ! j) t = (if 8 * dp + db \<le> 8 * j + t \<and> 8 * j + t < 8 * dp + db + n
        then gbit source (8 * sp + sb + (8 * j + t - (8 * dp + db))) else bit (dest ! j) t)"
    proof (cases "j = dp")
      case True
      with b src j show ?thesis by simp
    next
      case False
      have "\<not> (8 * dp + db \<le> 8 * j + t \<and> 8 * j + t < 8 * dp + db + n)"
        using False t assms(2) by linarith
      with False show ?thesis by auto
    qed
  qed simp
  with run show ?thesis by blast
qed

lemma copy_bits_upward:
  assumes "sb < db" "db < 8" "last_bit < 8" "8 < db + n" "lw < length dest"
    and n: "8 * lw + last_bit + 1 = 8 * dp + db + n"
    and src: "8 * sp + sb + n \<le> 8 * length source"
  shows "\<exists>r. copy_bits_unaligned dest dp db source sp sb n False lw last_bit = Some r
           \<and> bits_copied dest (8 * dp + db) source (8 * sp + sb) n r"
proof -
  define up where "up = db - sb"
  have up: "0 < up" "up < 8" "db = sb + up" using assms(1,2) by (auto simp: up_def)
  have dp: "dp < lw" using n assms(3,4) by linarith
  have sp: "sp < length source" using src assms(4) up by linarith
  define slider where "slider = drop_bit (8 - up) (ucast (source ! sp) :: uint32)"
  define b where "b = (dest ! dp AND low_mask db) OR (ucast (push_bit up (ucast (source ! sp) :: uint32)) AND NOT (low_mask db))"
  have sl: "bit slider t \<longleftrightarrow> t < up \<and> bit (source ! sp) (8 - up + t)" for t
    using up by (auto simp: slider_def bit_drop_bit_eq bit_ucast_byte)
  have s1: "Suc sp + (lw - Suc dp) \<le> length source"
    using dp n src up(2,3) by linarith
  have s2: "Suc sp + (lw - Suc dp) < length source" if "up \<le> last_bit"
    using that dp n src up(2,3) by linarith
  obtain r where r: "copy_bits_tail (dest[dp := b]) (Suc dp) source (Suc sp) slider up lw last_bit = Some r"
    "length r = length dest"
    "\<And>j t. j < length dest \<Longrightarrow> t < 8 \<Longrightarrow> bit (r ! j) t =
       (if Suc dp \<le> j \<and> (j < lw \<or> j = lw \<and> t \<le> last_bit)
        then slid source (Suc sp) slider up (8 * (j - Suc dp) + t) else bit (dest[dp := b] ! j) t)"
    using copy_bits_tail_spec[of "Suc dp" lw "dest[dp := b]" last_bit up slider "Suc sp" source]
      dp assms(3,5) up s1 s2 by (auto simp: sl)
  have run: "copy_bits_unaligned dest dp db source sp sb n False lw last_bit = Some r"
    using r(1) assms(1,5) dp sp by (simp add: copy_bits_unaligned_def up_def b_def slider_def Let_def)
  have "bits_copied dest (8 * dp + db) source (8 * sp + sb) n r"
  proof (rule bits_copiedI)
    fix j t :: nat assume j: "j < length dest" and t: "t < 8"
    show "bit (r ! j) t = (if 8 * dp + db \<le> 8 * j + t \<and> 8 * j + t < 8 * dp + db + n
        then gbit source (8 * sp + sb + (8 * j + t - (8 * dp + db))) else bit (dest ! j) t)"
    proof (cases "j = dp")
      case True
      have b: "bit b t = (if t < db then bit (dest ! dp) t else bit (source ! sp) (t - up))"
        using t up by (auto simp: b_def copy_bit_simps bit_simps)
      have "gbit source (8 * sp + (t - up)) = bit (source ! sp) (t - up)" if "db \<le> t"
        using t by (intro gbit_byte) simp
      with True r(3)[OF j t] j b assms(4) t up(3) show ?thesis by (simp add: algebra_simps)
    next
      case False
      have cond: "(8 * dp + db \<le> 8 * j + t \<and> 8 * j + t < 8 * dp + db + n) \<longleftrightarrow>
          Suc dp \<le> j \<and> (j < lw \<or> j = lw \<and> t \<le> last_bit)"
        using False t n assms(2,3) by linarith
      have "slid source (Suc sp) slider up (8 * (j - Suc dp) + t)
          = gbit source (8 * sp + sb + (8 * j + t - (8 * dp + db)))" if "Suc dp \<le> j"
      proof -
        have "8 * sp + 8 + (8 * (j - Suc dp) + t) - up = 8 * sp + sb + (8 * j + t - (8 * dp + db))"
          using that up assms(2) by auto
        then show ?thesis
          using slid_source[of up "8 * (j - Suc dp) + t" slider source sp] up sl by simp
      qed
      with False r(3)[OF j t] cond show ?thesis by auto
    qed
  qed (rule r(2))
  with run show ?thesis by blast
qed

lemma copy_bits_downward:
  assumes "db < sb" "sb < 8" "last_bit < 8" "lw < length dest" "0 < n"
    and n: "8 * lw + last_bit + 1 = 8 * dp + db + n"
    and src: "8 * sp + sb + n \<le> 8 * length source"
  shows "\<exists>r. copy_bits_unaligned dest dp db source sp sb n fits lw last_bit = Some r
           \<and> bits_copied dest (8 * dp + db) source (8 * sp + sb) n r"
proof -
  define up where "up = 8 - (sb - db)"
  have up: "0 < up" "up < 8" "sb + up = db + 8" using assms(1,2) by (auto simp: up_def)
  have dp: "dp \<le> lw" using n assms(3,5) by linarith
  have sp: "sp < length source" using src assms(5) by linarith
  define slider where "slider = (ucast (dest ! dp) AND ucast (low_mask db)) OR
     (drop_bit (sb - db) (ucast (source ! sp) :: uint32) AND NOT (ucast (low_mask db)))"
  have sl: "bit slider t \<longleftrightarrow> t < up \<and>
      (if t < db then bit (dest ! dp) t else bit (source ! sp) (8 - up + t))" for t
    using up assms(1,2) by (auto simp: slider_def copy_bit_simps bit_simps up_def bit_low_mask)
  have s1: "Suc sp + (lw - dp) \<le> length source"
    using dp n src assms(1) by linarith
  have s2: "Suc sp + (lw - dp) < length source" if "up \<le> last_bit"
    using that dp n src up(3) by linarith
  obtain r where r: "copy_bits_tail dest dp source (Suc sp) slider up lw last_bit = Some r"
    "length r = length dest"
    "\<And>j t. j < length dest \<Longrightarrow> t < 8 \<Longrightarrow> bit (r ! j) t =
       (if dp \<le> j \<and> (j < lw \<or> j = lw \<and> t \<le> last_bit)
        then slid source (Suc sp) slider up (8 * (j - dp) + t) else bit (dest ! j) t)"
    using copy_bits_tail_spec[of dp lw dest last_bit up slider "Suc sp" source]
      dp assms(3,4) up s1 s2 by (auto simp: sl)
  have run: "copy_bits_unaligned dest dp db source sp sb n fits lw last_bit = Some r"
    using r(1) assms(1,4) dp sp by (simp add: copy_bits_unaligned_def up_def slider_def Let_def)
  have "bits_copied dest (8 * dp + db) source (8 * sp + sb) n r"
  proof (rule bits_copiedI)
    fix j t :: nat assume j: "j < length dest" and t: "t < 8"
    have cond: "(8 * dp + db \<le> 8 * j + t \<and> 8 * j + t < 8 * dp + db + n) \<longleftrightarrow>
        dp \<le> j \<and> (j < lw \<or> j = lw \<and> t \<le> last_bit) \<and> \<not> (j = dp \<and> t < db)"
      using t n assms(1,2,3) by linarith
    have eq: "slid source (Suc sp) slider up (8 * (j - dp) + t)
        = gbit source (8 * sp + sb + (8 * j + t - (8 * dp + db)))" if "dp \<le> j" "\<not> (j = dp \<and> t < db)"
    proof -
      have *: "8 * sp + 8 + (8 * (j - dp) + t) - up = 8 * sp + sb + (8 * j + t - (8 * dp + db))"
        using that up t assms(1,2) by linarith
      have "slid source (Suc sp) slider up (8 * (j - dp) + t) = gbit source (8 * sp + 8 + (8 * (j - dp) + t) - up)"
      proof (rule slid_source)
        assume "8 * (j - dp) + t < up"
        moreover from this have "j = dp" using that(1) up(2) by linarith
        ultimately show "bit slider (8 * (j - dp) + t) = bit (source ! sp) (8 - up + (8 * (j - dp) + t))"
          using that(2) by (simp add: sl)
      qed (use up in simp)
      then show ?thesis by (simp only: *)
    qed
    have low: "slid source (Suc sp) slider up (8 * (j - dp) + t) = bit (dest ! j) t"
      if "j = dp" "t < db" using that up assms(1,2) by (simp add: slid_def sl)
    define G where "G = gbit source (8 * sp + sb + (8 * j + t - (8 * dp + db)))"
    show "bit (r ! j) t = (if 8 * dp + db \<le> 8 * j + t \<and> 8 * j + t < 8 * dp + db + n
        then gbit source (8 * sp + sb + (8 * j + t - (8 * dp + db))) else bit (dest ! j) t)"
      unfolding r(3)[OF j t] cond G_def[symmetric] using eq[folded G_def] low by auto
  qed (rule r(2))
  with run show ?thesis by blast
qed

lemma unat_low3: "unat (w AND 7 :: uint32) = unat w mod 8"
proof -
  have "w AND 7 = take_bit 3 w"
    by (simp add: take_bit_eq_mask mask_eq_exp_minus_1)
  then show ?thesis
    by (simp only: unsigned_take_bit_eq) (simp add: take_bit_eq_mod)
qed

lemma unat_drop3: "unat (drop_bit 3 (w :: uint32)) = unat w div 8"
  unfolding unat_drop_bit_eq by (simp add: drop_bit_eq_div)

lemma copy_bits_eq [stream_simps]:
  assumes "bit_count \<noteq> 0"
    and dest: "unat dest_bit + unat bit_count \<le> 8 * length dest" "unat dest_bit + unat bit_count < 2 ^ 32"
    and source: "unat source_bit + unat bit_count \<le> 8 * length source"
  shows "copy_bits dest dest_bit source source_bit bit_count =
           Some (copy_ref dest (unat dest_bit) source (unat source_bit) (unat bit_count))"
proof -
  define dp db sp sb n where defs: "dp = unat dest_bit div 8" "db = unat dest_bit mod 8"
    "sp = unat source_bit div 8" "sb = unat source_bit mod 8" "n = unat bit_count"
  have D: "unat dest_bit = 8 * dp + db" and S: "unat source_bit = 8 * sp + sb"
    by (simp_all add: defs)
  have n: "0 < n" using assms(1) by (simp add: defs unat_gt_0)
  have lt: "db < 8" "sb < 8" by (simp_all add: defs)
  have sum: "unat ((dest_bit AND 7) + bit_count) = db + n"
    using dest by (subst unat_add_lem[THEN iffD1]) (auto simp: unat_low3 defs)
  have last: "unat ((dest_bit AND 7) + bit_count - 1) = db + n - 1"
  proof -
    have "(dest_bit AND 7) + bit_count \<noteq> 0" using sum n by (metis add_is_0 less_not_refl unat_0)
    then show ?thesis using sum by (simp add: unat_minus_one)
  qed
  define lw lb where l: "lw = dp + (db + n - 1) div 8" "lb = (db + n - 1) mod 8"
  have lb8: "lb < 8" by (simp add: l)
  have "8 * ((db + n - 1) div 8) + (db + n - 1) mod 8 = db + n - 1" by simp
  then have lbn: "8 * lw + lb + 1 = 8 * dp + db + n" using n by (simp add: l)
  have dn: "8 * dp + db + n \<le> 8 * length dest" using dest(1) unfolding D by (simp only: defs(5))
  have lw: "lw < length dest" using lbn dn by linarith
  note lb = lb8 lbn
  have fits: "(dest_bit AND 7) + bit_count \<le> 8 \<longleftrightarrow> db + n \<le> 8"
    using sum by (simp add: word_le_nat_alt)
  have same: "(source_bit AND 7) = (dest_bit AND 7) \<longleftrightarrow> sb = db"
    unfolding defs unat_low3[symmetric] by (rule word_unat_eq_iff)
  have src: "8 * sp + sb + n \<le> 8 * length source" using source unfolding S by (simp only: defs(5))
  have eq: "copy_bits dest dest_bit source source_bit bit_count =
      (if sb = db then copy_bits_aligned dest dp source sp sb lw lb
       else copy_bits_unaligned dest dp db source sp sb n (db + n \<le> 8) lw lb)"
    using assms(1) by (simp add: copy_bits_def Let_def same fits last unat_low3 unat_drop3 defs l)
  consider "sb = db" | "sb < db" "db + n \<le> 8" | "sb < db" "8 < db + n" | "db < sb" by linarith
  then have "\<exists>r. copy_bits dest dest_bit source source_bit bit_count = Some r
      \<and> bits_copied dest (8 * dp + db) source (8 * sp + sb) n r"
  proof cases
    case 1
    then show ?thesis
      using copy_bits_aligned_spec[of db lb dp lw dest n sp source] lt lb lw src n eq by simp
  next
    case 2
    then show ?thesis
      using copy_bits_within_byte[of sb db n dp dest sp source lw lb] eq dn src n by simp
  next
    case 3
    then show ?thesis
      using copy_bits_upward[of sb db lb n lw dest dp sp source] eq lt lb lw src by simp
  next
    case 4
    then show ?thesis
      using copy_bits_downward[of db sb lb lw dest n dp sp source] eq lt lb lw src n by simp
  qed
  then show ?thesis unfolding D S bits_copied_iff defs(5) by blast
qed

subsection \<open>Properties\<close>

text \<open>C12. \<^verbatim>\<open>_copy_bits\<close> at any pair of bit offsets: it never leaves either buffer, it replaces
  exactly the \<open>bit_count\<close> destination bits from \<open>dest_bit\<close> on by the source bits from
  \<open>source_bit\<close> on, and every other destination bit keeps its value.\<close>

theorem copy_bits_correct:
  assumes "bit_count \<noteq> 0"
    and "unat dest_bit + unat bit_count \<le> 8 * length dest" "unat dest_bit + unat bit_count < 2 ^ 32"
    and "unat source_bit + unat bit_count \<le> 8 * length source"
  shows "\<exists>r. copy_bits dest dest_bit source source_bit bit_count = Some r \<and> length r = length dest
     \<and> (\<forall>i < 8 * length dest. gbit r i =
          (if unat dest_bit \<le> i \<and> i < unat dest_bit + unat bit_count
           then gbit source (unat source_bit + (i - unat dest_bit)) else gbit dest i))"
  using assms by (simp add: copy_bits_eq gbit_copy_ref)

theorem copy_bits_correct_witness:
  "\<exists>r. copy_bits [0x55, 0x55, 0x55] 3 [0xF0, 0xFF] 5 9 = Some r \<and> length r = length [0x55 :: byte, 0x55, 0x55]
     \<and> (\<forall>i < 24. gbit r i = (if 3 \<le> i \<and> i < 12 then gbit [0xF0, 0xFF] (unat (5 :: uint32) + (i - unat (3 :: uint32)))
                              else gbit [0x55, 0x55, 0x55] i))"
  using copy_bits_correct[of 9 3 "[0x55, 0x55, 0x55]" 5 "[0xF0, 0xFF]"] by simp

end
