(* ===== verification/Power_Two.thy ===== *)
theory Power_Two
  imports Prelude
begin

text \<open>
  \<^verbatim>\<open>core/power_two_functions.h\<close>.  \<open>get_binary_log\<close> reads the exponent field of the value
  converted to a 32-bit float, so the model includes that conversion (IEEE 754 single
  precision, round to nearest, ties to even).  The field is the binary logarithm exactly below
  \<open>2 ^ 24\<close>; beyond that rounding may carry into the exponent.
\<close>

fun ilog2 :: "nat \<Rightarrow> nat" where
  "ilog2 n = (if n < 2 then 0 else Suc (ilog2 (n div 2)))"

declare ilog2.simps [simp del]

definition is_power_of_2 :: "uint32 \<Rightarrow> bool" where
  "is_power_of_2 number \<longleftrightarrow> number AND (number - 1) = 0"

text \<open>The bit pattern of \<^verbatim>\<open>float32(value)\<close>: the 24 leading bits of the value, rounded, below
  the biased exponent; a carry out of the rounded significand increments the exponent.\<close>

definition float32_bits :: "uint32 \<Rightarrow> uint32" where
  "float32_bits value =
    (let v = unat value; e = ilog2 v in
     if v = 0 then 0
     else if e \<le> 23 then word_of_nat ((127 + e) * 2 ^ 23 + (v * 2 ^ (23 - e) - 2 ^ 23))
     else
       (let s = e - 23; q = v div 2 ^ s; r = v mod 2 ^ s;
            up = (if 2 ^ (s - 1) < r \<or> (r = 2 ^ (s - 1) \<and> odd q) then 1 else 0)
        in word_of_nat ((127 + e) * 2 ^ 23 + (q + up - 2 ^ 23))))"

definition get_binary_log :: "uint32 \<Rightarrow> uint32" where
  "get_binary_log value = drop_bit 23 (float32_bits value) - 127"

definition get_next_binary_log :: "uint32 \<Rightarrow> uint32" where
  "get_next_binary_log number = get_binary_log number + (if is_power_of_2 number then 0 else 1)"

definition get_next_power_of_2 :: "uint32 \<Rightarrow> uint32" where
  "get_next_power_of_2 value =
     (if is_power_of_2 value then value else push_bit (unat (get_binary_log value + 1)) 1)"

lemma ilog2_bounds: "0 < n \<Longrightarrow> 2 ^ ilog2 n \<le> n \<and> n < 2 ^ Suc (ilog2 n)"
proof (induction n rule: ilog2.induct)
  case (1 n)
  show ?case
  proof (cases "n < 2")
    case True
    with "1.prems" show ?thesis by (simp add: ilog2.simps[of n])
  next
    case False
    then have "2 ^ ilog2 (n div 2) \<le> n div 2 \<and> n div 2 < 2 ^ Suc (ilog2 (n div 2))"
      using "1.IH" by simp
    with False show ?thesis by (simp add: ilog2.simps[of n]) linarith
  qed
qed

lemma ilog2_unique: "2 ^ k \<le> n \<Longrightarrow> n < 2 ^ Suc k \<Longrightarrow> ilog2 n = k"
proof -
  assume a: "2 ^ k \<le> n" "n < 2 ^ Suc k"
  then have "0 < n" by (metis gr0I not_numeral_le_zero power_eq_0_iff le_zero_eq zero_neq_numeral)
  then have b: "2 ^ ilog2 n \<le> n" "n < 2 ^ Suc (ilog2 n)" using ilog2_bounds by blast+
  have "(2::nat) ^ k < 2 ^ Suc (ilog2 n)" "(2::nat) ^ ilog2 n < 2 ^ Suc k"
    using a b by linarith+
  then show ?thesis by (simp add: power_strict_increasing_iff del: power_Suc)
qed

text \<open>Below \<open>2 ^ 24\<close> the conversion is exact.\<close>

lemma get_binary_log_exact:
  assumes "0 < unat v" "unat v < 2 ^ 24"
  shows "get_binary_log v = word_of_nat (ilog2 (unat v))"
proof -
  define e where "e = ilog2 (unat v)"
  have e: "2 ^ e \<le> unat v" "unat v < 2 ^ Suc e" using ilog2_bounds[OF assms(1)] by (simp_all add: e_def)
  have "(2::nat) ^ e < 2 ^ 24" using e(1) assms(2) by linarith
  then have e23: "e \<le> 23" using power_less_imp_less_exp[of "2 :: nat" e 24] by simp
  define m where "m = unat v * 2 ^ (23 - e) - 2 ^ 23"
  have "2 ^ e * 2 ^ (23 - e) \<le> unat v * 2 ^ (23 - e)" using e(1) by simp
  moreover have "unat v * 2 ^ (23 - e) < 2 ^ Suc e * 2 ^ (23 - e)"
    using e(2) by (intro mult_strict_right_mono) simp_all
  moreover have "(2::nat) ^ e * 2 ^ (23 - e) = 2 ^ 23" using e23 by (simp flip: power_add)
  ultimately have m: "m < 2 ^ 23" unfolding m_def by (simp only: power_Suc mult.assoc)
  have bits: "float32_bits v = word_of_nat ((127 + e) * 2 ^ 23 + m)"
    using assms(1) e23 by (simp add: float32_bits_def e_def[symmetric] m_def Let_def)
  have "(127 + e) * 2 ^ 23 + m < 2 ^ 32" using e23 m by simp
  then have "unat (float32_bits v) = (127 + e) * 2 ^ 23 + m"
    unfolding bits by (intro unat_of_nat_small) simp
  then have "unat (drop_bit 23 (float32_bits v)) = 127 + e"
    using m unfolding unat_drop_bit_eq by (simp add: drop_bit_eq_div)
  then have "drop_bit 23 (float32_bits v) = word_of_nat (127 + e)"
    by (rule word_eq_of_nat)
  then show ?thesis by (simp add: get_binary_log_def e_def)
qed

lemma bit_top:
  assumes "2 ^ e \<le> unat w" "unat w < 2 ^ Suc e"
  shows "bit (w :: uint32) e"
proof -
  have "unat w div 2 ^ e = 1"
    using assms by (intro div_nat_eqI) simp_all
  then have "bit (unat w) e" by (simp add: bit_iff_odd)
  then show ?thesis by (simp add: bit_unsigned_iff)
qed

lemma is_power_of_2_iff:
  assumes "0 < unat v"
  shows "is_power_of_2 v \<longleftrightarrow> unat v = 2 ^ ilog2 (unat v)"
proof -
  define e where "e = ilog2 (unat v)"
  have e: "2 ^ e \<le> unat v" "unat v < 2 ^ Suc e" using ilog2_bounds[OF assms] by (simp_all add: e_def)
  have pred: "unat (v - 1) = unat v - 1" using assms by (simp add: unat_minus_one unat_gt_0)
  show ?thesis
  proof (cases "unat v = 2 ^ e")
    case True
    then have "v = 2 ^ e" using word_eq_of_nat[of v "2 ^ e"] by simp
    then have v: "v = 2 ^ e" "v - 1 = mask e" by (simp_all add: mask_eq_exp_minus_1)
    have "v AND (v - 1) = 0"
      unfolding v(2) by (rule bit_word_eqI) (simp add: v(1) bit_and_iff bit_mask_iff bit_exp_iff)
    with True show ?thesis by (simp add: is_power_of_2_def e_def)
  next
    case False
    with e pred have "2 ^ e \<le> unat (v - 1)" "unat (v - 1) < 2 ^ Suc e" by simp_all
    then have "bit (v AND (v - 1)) e" using bit_top e by (simp add: bit_and_iff)
    then have "v AND (v - 1) \<noteq> 0" by auto
    with False show ?thesis by (simp add: is_power_of_2_def e_def)
  qed
qed

text \<open>The bit width computed for a range of \<open>v\<close> values is the least sufficient one.\<close>

lemma get_next_binary_log_least:
  assumes "0 < unat v" "unat v < 2 ^ 24"
  shows "unat v \<le> 2 ^ unat (get_next_binary_log v)"
    and "2 ^ k < unat v \<Longrightarrow> k < unat (get_next_binary_log v)"
    and "unat (get_next_binary_log v) \<le> 24"
proof -
  define e where "e = ilog2 (unat v)"
  have e: "2 ^ e \<le> unat v" "unat v < 2 ^ Suc e"
    using ilog2_bounds[OF assms(1)] by (simp_all add: e_def)
  have "(2::nat) ^ e < 2 ^ 24" using e(1) assms(2) by linarith
  then have e23: "e \<le> 23" using power_less_imp_less_exp[of "2 :: nat" e 24] by simp
  have val: "unat (get_next_binary_log v) = (if unat v = 2 ^ e then e else Suc e)"
  proof -
    have "get_next_binary_log v = word_of_nat (if unat v = 2 ^ e then e else Suc e)"
      by (simp add: get_next_binary_log_def get_binary_log_exact[OF assms] is_power_of_2_iff[OF assms(1)] e_def)
    then show ?thesis using e23 by (simp add: unat_of_nat_small)
  qed
  show "unat v \<le> 2 ^ unat (get_next_binary_log v)" using e val by auto
  show "unat (get_next_binary_log v) \<le> 24" using val e23 by simp
  assume "2 ^ k < unat v"
  moreover have "(2::nat) ^ k < 2 ^ Suc e" using calculation e(2) by linarith
  then have "k < Suc e" by (rule power_less_imp_less_exp[rotated]) simp
  ultimately show "k < unat (get_next_binary_log v)" using val by (cases "k = e") auto
qed

end
