(* ===== verification/Bit_Stream.thy ===== *)
theory Bit_Stream
  imports Copy_Bits Power_Two
begin

text \<open>
  The class \<^verbatim>\<open>bit_stream\<close> of \<^verbatim>\<open>core/bit_stream.h\<close>: a cursor over a byte buffer from which
  integers of any bit width are read and to which they are written.  Bit positions are
  32-bit and wrap as in the source; the virtual \<^verbatim>\<open>more\<close> of the base class, which no class of the
  repository overrides, always answers \<open>False\<close>.  A result \<open>None\<close> is an access
  outside a buffer or a failed assertion.
\<close>

record bit_stream =
  base_ptr :: "byte list"
  bit_num :: uint32
  bit_end :: uint32
  is_dirty :: bool
  error_detected :: bool

definition init_stream :: "byte list \<Rightarrow> uint32 \<Rightarrow> uint32 \<Rightarrow> bit_stream" where
  "init_stream buffer bit_start bit_end0 =
     \<lparr>base_ptr = buffer, bit_num = bit_start, bit_end = bit_end0, is_dirty = False, error_detected = False\<rparr>"

text \<open>The constructor \<^verbatim>\<open>bit_stream(buffer, buffer_size)\<close>.\<close>

definition make_stream :: "byte list \<Rightarrow> uint32 \<Rightarrow> bit_stream" where
  "make_stream buffer buffer_size = init_stream buffer 0 (buffer_size * 8)"

definition get_bit_space_available :: "bit_stream \<Rightarrow> uint64" where
  "get_bit_space_available st = ucast (bit_end st) - ucast (bit_num st)"

definition is_full :: "bit_stream \<Rightarrow> bool" where
  "is_full st \<longleftrightarrow> bit_num st = bit_end st"

definition advance_to_next_byte :: "bit_stream \<Rightarrow> bit_stream" where
  "advance_to_next_byte st = st\<lparr>bit_num := push_bit 3 (drop_bit 3 (bit_num st + 7))\<rparr>"

definition get_next_byte_position :: "bit_stream \<Rightarrow> uint32" where
  "get_next_byte_position st = drop_bit 3 (bit_num st + 7)"

definition get_byte_position :: "bit_stream \<Rightarrow> uint32" where
  "get_byte_position st = drop_bit 3 (bit_num st)"

definition set_byte_position :: "uint32 \<Rightarrow> bit_stream \<Rightarrow> bit_stream" where
  "set_byte_position byte_pos st = st\<lparr>bit_num := push_bit 3 byte_pos\<rparr>"

definition get_stream_byte_size :: "bit_stream \<Rightarrow> uint32" where
  "get_stream_byte_size st = drop_bit 3 (bit_end st + 7)"

definition set_stream_byte_size :: "uint32 \<Rightarrow> bit_stream \<Rightarrow> bit_stream" where
  "set_stream_byte_size byte_size st = st\<lparr>bit_end := byte_size * 8\<rparr>"

text \<open>The loop of \<^verbatim>\<open>_write_bits\<close>: write what fits, then ask for more, which fails.\<close>

function write_bits_loop ::
    "bit_stream \<Rightarrow> byte list \<Rightarrow> uint32 \<Rightarrow> uint32 \<Rightarrow> uint32 \<Rightarrow> (uint32 \<times> bit_stream) option" where
  "write_bits_loop st source source_bit_num write_bit_count bits_written =
     (let bits_remaining = bit_end st - bit_num st in
      if bits_remaining = 0 then Some (bits_written, st\<lparr>error_detected := True\<rparr>)
      else if write_bit_count \<le> bits_remaining then
        do { b \<leftarrow> copy_bits (base_ptr st) (bit_num st) source source_bit_num write_bit_count;
             Some (bits_written + write_bit_count,
                   st\<lparr>base_ptr := b, bit_num := bit_num st + write_bit_count\<rparr>) }
      else
        do { b \<leftarrow> copy_bits (base_ptr st) (bit_num st) source source_bit_num bits_remaining;
             write_bits_loop (st\<lparr>base_ptr := b, bit_num := bit_num st + bits_remaining\<rparr>) source
               (source_bit_num + bits_remaining) (write_bit_count - bits_remaining)
               (bits_written + bits_remaining) })"
  by pat_completeness auto
termination
  by (relation "measure (\<lambda>(st, source, sb, n, w). unat n)")
    (simp_all add: word_sub_decreases)

declare write_bits_loop.simps [simp del]

definition write_bits :: "bit_stream \<Rightarrow> byte list \<Rightarrow> uint32 \<Rightarrow> uint32 \<Rightarrow> (uint32 \<times> bit_stream) option" where
  "write_bits st source source_bit_num write_bit_count =
     (if write_bit_count = 0 then Some (0, st)
      else write_bits_loop (st\<lparr>is_dirty := True\<rparr>) source source_bit_num write_bit_count 0)"

function read_bits_loop ::
    "bit_stream \<Rightarrow> byte list \<Rightarrow> uint32 \<Rightarrow> uint32 \<Rightarrow> uint32 \<Rightarrow> (uint32 \<times> byte list \<times> bit_stream) option" where
  "read_bits_loop st dest dest_bit_num read_bit_count bits_read =
     (let bits_remaining = bit_end st - bit_num st in
      if bits_remaining = 0 then Some (bits_read, dest, st\<lparr>error_detected := True\<rparr>)
      else if read_bit_count \<le> bits_remaining then
        do { d \<leftarrow> copy_bits dest dest_bit_num (base_ptr st) (bit_num st) read_bit_count;
             Some (bits_read + read_bit_count, d, st\<lparr>bit_num := bit_num st + read_bit_count\<rparr>) }
      else
        do { d \<leftarrow> copy_bits dest dest_bit_num (base_ptr st) (bit_num st) bits_remaining;
             read_bits_loop (st\<lparr>bit_num := bit_num st + bits_remaining\<rparr>) d
               (dest_bit_num + bits_remaining) (read_bit_count - bits_remaining)
               (bits_read + bits_remaining) })"
  by pat_completeness auto
termination
  by (relation "measure (\<lambda>(st, dest, db, n, r). unat n)")
    (simp_all add: word_sub_decreases)

declare read_bits_loop.simps [simp del]

definition read_bits :: "bit_stream \<Rightarrow> byte list \<Rightarrow> uint32 \<Rightarrow> uint32 \<Rightarrow> (uint32 \<times> byte list \<times> bit_stream) option" where
  "read_bits st dest dest_bit_num read_bit_count =
     (if read_bit_count = 0 then Some (0, dest, st)
      else read_bits_loop st dest dest_bit_num read_bit_count 0)"

definition write_bytes :: "bit_stream \<Rightarrow> byte list \<Rightarrow> uint32 \<Rightarrow> (uint32 \<times> bit_stream) option" where
  "write_bytes st source write_byte_count =
     map_option (\<lambda>(n, st'). (drop_bit 3 n, st')) (write_bits st source 0 (push_bit 3 write_byte_count))"

definition read_bytes :: "bit_stream \<Rightarrow> byte list \<Rightarrow> uint32 \<Rightarrow> (uint32 \<times> byte list \<times> bit_stream) option" where
  "read_bytes st dest read_byte_count =
     map_option (\<lambda>(n, d, st'). (drop_bit 3 n, d, st')) (read_bits st dest 0 (push_bit 3 read_byte_count))"

definition write_bool :: "bool \<Rightarrow> bit_stream \<Rightarrow> bit_stream option" where
  "write_bool value st = map_option snd (write_bits st [if value then 1 else 0] 0 1)"

definition read_bool :: "bit_stream \<Rightarrow> (bool \<times> bit_stream) option" where
  "read_bool st = map_option (\<lambda>(n, d, st'). (d ! 0 \<noteq> 0, st')) (read_bits st [0] 0 1)"

definition read_integer :: "uint32 \<Rightarrow> bit_stream \<Rightarrow> (uint32 \<times> bit_stream) option" where
  "read_integer bit_width st =
     map_option (\<lambda>(n, d, st'). (u32_of_bytes d, st')) (read_bits st [0, 0, 0, 0] 0 bit_width)"

definition write_integer :: "uint32 \<Rightarrow> uint32 \<Rightarrow> bit_stream \<Rightarrow> bit_stream option" where
  "write_integer value bit_width st =
     map_option snd (write_bits st (bytes_of_u32 value) 0 bit_width)"

definition write_ranged_uint32 :: "uint32 \<Rightarrow> uint32 \<Rightarrow> uint32 \<Rightarrow> bit_stream \<Rightarrow> bit_stream option" where
  "write_ranged_uint32 value range_start range_end st = do {
     assert (range_start \<le> value \<and> value \<le> range_end);
     assert (range_start \<le> range_end);
     let range_size = range_end - range_start + 1;
     write_integer (value - range_start) (get_next_binary_log range_size) st }"

definition read_ranged_uint32 :: "uint32 \<Rightarrow> uint32 \<Rightarrow> bit_stream \<Rightarrow> (uint32 \<times> bit_stream) option" where
  "read_ranged_uint32 range_start range_end st = do {
     assert (range_start \<le> range_end);
     let range_size = range_end - range_start + 1;
     (val, st') \<leftarrow> read_integer (get_next_binary_log range_size) st;
     Some (val + range_start, st') }"

subsection \<open>Invariant and the bit-queue view\<close>

text \<open>A stream is well formed when the cursor is within the limit and the limit within the
  buffer.  As a queue of bits, \<open>wbits\<close> are the bits before the cursor and \<open>rbits\<close> those
  from the cursor to the limit: writing appends to the first, reading takes from the second.\<close>

definition stream_wf :: "bit_stream \<Rightarrow> bool" where
  "stream_wf st \<longleftrightarrow> bit_num st \<le> bit_end st \<and> unat (bit_end st) \<le> 8 * length (base_ptr st)"

definition room :: "bit_stream \<Rightarrow> nat" where
  "room st = unat (bit_end st) - unat (bit_num st)"

definition wbits :: "bit_stream \<Rightarrow> bool list" where
  "wbits st = map (gbit (base_ptr st)) [0..<unat (bit_num st)]"

definition rbits :: "bit_stream \<Rightarrow> bool list" where
  "rbits st = map (gbit (base_ptr st)) [unat (bit_num st)..<unat (bit_end st)]"

definition bslice :: "byte list \<Rightarrow> nat \<Rightarrow> nat \<Rightarrow> bool list" where
  "bslice bs i n = map (gbit bs) [i..<i + n]"

definition int_bits :: "nat \<Rightarrow> uint32 \<Rightarrow> bool list" where
  "int_bits w v = map (bit v) [0..<w]"

lemma length_views [simp]:
  "length (wbits st) = unat (bit_num st)" "length (rbits st) = room st"
  "length (bslice bs i n) = n" "length (int_bits w v) = w"
  by (simp_all add: wbits_def rbits_def room_def bslice_def int_bits_def)

lemma stream_wfD:
  assumes "stream_wf st"
  shows "unat (bit_num st) \<le> unat (bit_end st)" "unat (bit_end st) \<le> 8 * length (base_ptr st)"
    "unat (bit_end st) < 2 ^ 32" "unat (bit_end st - bit_num st) = room st"
  using assms unat_less_32[of "bit_end st"] by (auto simp: stream_wf_def word_le_nat_alt room_def unat_sub)

lemma bits_remaining_0: "stream_wf st \<Longrightarrow> bit_end st - bit_num st = 0 \<longleftrightarrow> room st = 0"
  using stream_wfD(4) by (metis unat_eq_0)

lemma unat_advance:
  "stream_wf st \<Longrightarrow> unat n \<le> room st \<Longrightarrow> unat (bit_num st + n) = unat (bit_num st) + unat n"
  using stream_wfD[of st] by (subst unat_add_lem[THEN iffD1]) (auto simp: room_def)

lemma wf_advance [wf_intros]:
  assumes "stream_wf st" "unat n \<le> room st" "length b = length (base_ptr st)"
  shows "stream_wf (st\<lparr>base_ptr := b, bit_num := bit_num st + n, is_dirty := d, error_detected := e\<rparr>)"
  using assms stream_wfD[OF assms(1)]
  by (simp add: stream_wf_def word_le_nat_alt unat_advance room_def)

subsection \<open>Raw reads and writes\<close>

lemma write_bits_fits:
  assumes wf: "stream_wf st" and n: "n \<noteq> 0" "unat n \<le> room st"
    and src: "unat sb + unat n \<le> 8 * length source"
  shows "write_bits st source sb n = Some (n, st\<lparr>
     base_ptr := copy_ref (base_ptr st) (unat (bit_num st)) source (unat sb) (unat n),
     bit_num := bit_num st + n, is_dirty := True\<rparr>)"
proof -
  note w = stream_wfD[OF wf]
  have "bit_end st - bit_num st \<noteq> 0" using n w(4) by (metis le_zero_eq unat_0 unat_eq_zero)
  moreover have "n \<le> bit_end st - bit_num st" using n w(4) by (simp add: word_le_nat_alt)
  moreover have "copy_bits (base_ptr st) (bit_num st) source sb n =
      Some (copy_ref (base_ptr st) (unat (bit_num st)) source (unat sb) (unat n))"
    using w n src by (intro copy_bits_eq) (auto simp: room_def)
  ultimately show ?thesis
    using n by (simp add: write_bits_def write_bits_loop.simps Let_def)
qed

lemma read_bits_fits:
  assumes wf: "stream_wf st" and n: "n \<noteq> 0" "unat n \<le> room st"
    and dest: "unat db + unat n \<le> 8 * length dest" "unat db + unat n < 2 ^ 32"
  shows "read_bits st dest db n =
     Some (n, copy_ref dest (unat db) (base_ptr st) (unat (bit_num st)) (unat n), st\<lparr>bit_num := bit_num st + n\<rparr>)"
proof -
  note w = stream_wfD[OF wf]
  have "bit_end st - bit_num st \<noteq> 0" using n w(4) by (metis le_zero_eq unat_0 unat_eq_zero)
  moreover have "n \<le> bit_end st - bit_num st" using n w(4) by (simp add: word_le_nat_alt)
  moreover have "copy_bits dest db (base_ptr st) (bit_num st) n =
      Some (copy_ref dest (unat db) (base_ptr st) (unat (bit_num st)) (unat n))"
    using w n dest by (intro copy_bits_eq) (auto simp: room_def)
  ultimately show ?thesis
    using n by (simp add: read_bits_def read_bits_loop.simps Let_def)
qed

text \<open>Past the limit: the bits that fit are transferred, the count says how many, and the
  error flag is raised.\<close>

lemma write_bits_short:
  assumes wf: "stream_wf st" and n: "room st < unat n"
    and src: "unat sb + room st \<le> 8 * length source"
  shows "write_bits st source sb n = Some (bit_end st - bit_num st, st\<lparr>
     base_ptr := copy_ref (base_ptr st) (unat (bit_num st)) source (unat sb) (room st),
     bit_num := bit_end st, is_dirty := True, error_detected := True\<rparr>)"
proof (cases "room st = 0")
  case True
  then have "bit_end st = bit_num st" using bits_remaining_0[OF wf] by simp
  then show ?thesis
    using n True by (auto simp: write_bits_def write_bits_loop.simps Let_def unat_gt_0)
next
  case False
  note w = stream_wfD[OF wf]
  have r: "bit_end st - bit_num st \<noteq> 0" using False w(4) by (metis unat_0)
  have "\<not> n \<le> bit_end st - bit_num st" using n w(4) by (simp add: word_le_nat_alt)
  moreover have "copy_bits (base_ptr st) (bit_num st) source sb (bit_end st - bit_num st) =
      Some (copy_ref (base_ptr st) (unat (bit_num st)) source (unat sb) (room st))"
    using copy_bits_eq[OF r, of "bit_num st" "base_ptr st" sb source] w src by (simp add: room_def)
  ultimately show ?thesis
    using n r by (auto simp: write_bits_def write_bits_loop.simps Let_def)
qed

lemma read_bits_short:
  assumes wf: "stream_wf st" and n: "room st < unat n"
    and dest: "unat db + room st \<le> 8 * length dest" "unat db + room st < 2 ^ 32"
  shows "read_bits st dest db n = Some (bit_end st - bit_num st,
     copy_ref dest (unat db) (base_ptr st) (unat (bit_num st)) (room st),
     st\<lparr>bit_num := bit_end st, error_detected := True\<rparr>)"
proof (cases "room st = 0")
  case True
  then have "bit_end st = bit_num st" using bits_remaining_0[OF wf] by simp
  then show ?thesis
    using n True by (auto simp: read_bits_def read_bits_loop.simps Let_def unat_gt_0)
next
  case False
  note w = stream_wfD[OF wf]
  have r: "bit_end st - bit_num st \<noteq> 0" using False w(4) by (metis unat_0)
  have "\<not> n \<le> bit_end st - bit_num st" using n w(4) by (simp add: word_le_nat_alt)
  moreover have "copy_bits dest db (base_ptr st) (bit_num st) (bit_end st - bit_num st) =
      Some (copy_ref dest (unat db) (base_ptr st) (unat (bit_num st)) (room st))"
    using copy_bits_eq[OF r, of db dest "bit_num st" "base_ptr st"] w dest by (simp add: room_def)
  ultimately show ?thesis
    using n r by (auto simp: read_bits_def read_bits_loop.simps Let_def)
qed

subsection \<open>The bit-queue refinement\<close>

lemma slice_copy_ref_outside:
  assumes "i + k \<le> db \<or> db + n \<le> i" "i + k \<le> 8 * length dest"
  shows "bslice (copy_ref dest db source sb n) i k = bslice dest i k"
  using assms by (auto simp: bslice_def gbit_copy_ref)

lemma slice_copy_ref_inside:
  assumes "db + n \<le> 8 * length dest"
  shows "bslice (copy_ref dest db source sb n) db n = bslice source sb n"
  using assms by (intro nth_equalityI) (simp_all add: bslice_def gbit_copy_ref)

lemma wbits_slice: "wbits st = bslice (base_ptr st) 0 (unat (bit_num st))"
  by (simp add: wbits_def bslice_def)

lemma rbits_slice: "stream_wf st \<Longrightarrow> rbits st = bslice (base_ptr st) (unat (bit_num st)) (room st)"
  using stream_wfD(1)[of st] by (simp add: rbits_def bslice_def room_def)

lemma slice_append: "bslice bs i (m + n) = bslice bs i m @ bslice bs (i + m) n"
  using upt_add_eq_append[of i "i + m" n] by (simp add: bslice_def add.assoc)

lemma write_bits_wbits:
  assumes wf: "stream_wf st" and n: "unat n \<le> room st"
    and src: "unat sb + unat n \<le> 8 * length source"
  shows "\<exists>st'. write_bits st source sb n = Some (n, st') \<and> stream_wf st'
     \<and> wbits st' = wbits st @ bslice source (unat sb) (unat n)
     \<and> bit_num st' = bit_num st + n \<and> bit_end st' = bit_end st \<and> error_detected st' = error_detected st
     \<and> length (base_ptr st') = length (base_ptr st)"
proof (cases "n = 0")
  case True
  with wf show ?thesis by (simp add: write_bits_def bslice_def)
next
  case False
  note w = stream_wfD[OF wf]
  let ?b = "copy_ref (base_ptr st) (unat (bit_num st)) source (unat sb) (unat n)"
  have le: "unat (bit_num st) + unat n \<le> 8 * length (base_ptr st)"
    using w n by (simp add: room_def)
  have "bslice ?b 0 (unat (bit_num st) + unat n) = wbits st @ bslice source (unat sb) (unat n)"
    unfolding slice_append wbits_slice using le
    by (simp add: slice_copy_ref_outside slice_copy_ref_inside)
  moreover have "stream_wf (st\<lparr>base_ptr := ?b, bit_num := bit_num st + n, is_dirty := True,
      error_detected := error_detected st\<rparr>)"
    by (rule wf_advance[OF wf n]) simp
  ultimately show ?thesis
    using write_bits_fits[OF wf False n src] unat_advance[OF wf n] by (simp add: wbits_slice)
qed

lemma read_bits_rbits:
  assumes wf: "stream_wf st" and r: "rbits st = xs @ ys" "length xs = unat n"
    and dest: "unat db + unat n \<le> 8 * length dest" "unat db + unat n < 2 ^ 32"
  shows "\<exists>d st'. read_bits st dest db n = Some (n, d, st') \<and> stream_wf st'
     \<and> length d = length dest \<and> bslice d (unat db) (unat n) = xs
     \<and> (\<forall>i < 8 * length dest. i < unat db \<or> unat db + unat n \<le> i \<longrightarrow> gbit d i = gbit dest i)
     \<and> rbits st' = ys \<and> bit_num st' = bit_num st + n \<and> bit_end st' = bit_end st
     \<and> base_ptr st' = base_ptr st \<and> error_detected st' = error_detected st"
proof -
  have rm: "room st = unat n + length ys" using r length_views(2)[of st] by simp
  then have n: "unat n \<le> room st" by simp
  have adv: "stream_wf (st\<lparr>bit_num := bit_num st + n\<rparr>)"
    using wf_advance[OF wf n, of "base_ptr st" "error_detected st" "is_dirty st"] by simp
  have "xs @ ys = bslice (base_ptr st) (unat (bit_num st)) (unat n)
      @ bslice (base_ptr st) (unat (bit_num st) + unat n) (length ys)"
    using r(1) rbits_slice[OF wf] by (simp add: rm slice_append)
  then have xs: "xs = bslice (base_ptr st) (unat (bit_num st)) (unat n)"
    and ys: "ys = bslice (base_ptr st) (unat (bit_num st) + unat n) (length ys)"
    using r(2) by (simp_all add: append_eq_append_conv)
  have rest: "rbits (st\<lparr>bit_num := bit_num st + n\<rparr>) = ys"
  proof -
    have "room (st\<lparr>bit_num := bit_num st + n\<rparr>) = length ys"
      using unat_advance[OF wf n] rm by (simp add: room_def)
    then show ?thesis using rbits_slice[OF adv] ys unat_advance[OF wf n] by simp
  qed
  show ?thesis
  proof (cases "n = 0")
    case True
    with wf xs rest show ?thesis by (auto simp: read_bits_def bslice_def)
  next
    case False
    with read_bits_fits[OF wf False n dest] adv rest xs dest show ?thesis
      by (auto simp: slice_copy_ref_inside gbit_copy_ref)
  qed
qed

subsection \<open>Typed reads and writes\<close>

text \<open>What the writes of one value leave alone: the limit, the error flag and the size of the
  buffer.\<close>

definition same_frame :: "bit_stream \<Rightarrow> bit_stream \<Rightarrow> bool" where
  "same_frame st st' \<longleftrightarrow> bit_end st' = bit_end st \<and> error_detected st' = error_detected st
     \<and> length (base_ptr st') = length (base_ptr st)"

definition byte_bits :: "byte list \<Rightarrow> bool list" where
  "byte_bits bs = bslice bs 0 (8 * length bs)"

lemma same_frame_refl [simp]: "same_frame st st"
  by (simp add: same_frame_def)

lemma same_frame_trans: "same_frame a b \<Longrightarrow> same_frame b c \<Longrightarrow> same_frame a c"
  by (simp add: same_frame_def)

lemma room_after: "same_frame st st' \<Longrightarrow> wbits st' = wbits st @ xs \<Longrightarrow> room st' = room st - length xs"
  by (drule arg_cong[where f = length]) (simp add: same_frame_def room_def)

lemma length_byte_bits [simp]: "length (byte_bits bs) = 8 * length bs"
  by (simp add: byte_bits_def)

lemma byte_bits_append [simp]: "byte_bits (xs @ ys) = byte_bits xs @ byte_bits ys"
proof -
  have "gbit (xs @ ys) i = (if i < 8 * length xs then gbit xs i else gbit ys (i - 8 * length xs))" for i
  proof (cases "i < 8 * length xs")
    case True
    then show ?thesis by (simp add: gbit_def nth_append div_less_iff_less_mult mult.commute)
  next
    case False
    then obtain k where k: "i = 8 * length xs + k" by (metis le_Suc_ex not_le)
    then show ?thesis by (simp add: gbit_def nth_append)
  qed
  then show ?thesis
    by (intro nth_equalityI) (auto simp: byte_bits_def bslice_def nth_append)
qed

lemma byte_bits_Nil [simp]: "byte_bits [] = []"
  by (simp add: byte_bits_def bslice_def)

lemma slice_byte_bits: "k \<le> length bs \<Longrightarrow> bslice bs 0 (8 * k) = byte_bits (take k bs)"
  by (intro nth_equalityI)
    (auto simp: byte_bits_def bslice_def gbit_def min_def div_less_iff_less_mult mult.commute)

lemma byte_bits_inj: "byte_bits xs = byte_bits ys \<Longrightarrow> xs = ys"
proof (rule buffer_eqI)
  assume eq: "byte_bits xs = byte_bits ys"
  then have "8 * length xs = 8 * length ys" by (metis length_byte_bits)
  then show "length xs = length ys" by simp
  fix i assume "i < 8 * length xs"
  moreover have "byte_bits xs ! i = byte_bits ys ! i" using eq by simp
  ultimately show "gbit xs i = gbit ys i" using \<open>8 * length xs = 8 * length ys\<close>
    by (simp add: byte_bits_def bslice_def)
qed

lemma slice_bytes_of_u32: "w \<le> 32 \<Longrightarrow> bslice (bytes_of_u32 v) 0 w = int_bits w v"
  by (intro nth_equalityI) (simp_all add: bslice_def int_bits_def gbit_bytes_of_u32)

lemma byte_bits_u32: "byte_bits (bytes_of_u32 v) = int_bits 32 v"
  by (simp add: byte_bits_def slice_bytes_of_u32)

lemma write_integer_wbits:
  assumes "stream_wf st" "unat w \<le> room st" "unat w \<le> 32"
  shows "\<exists>st'. write_integer v w st = Some st' \<and> stream_wf st' \<and> same_frame st st'
     \<and> bit_num st' = bit_num st + w \<and> wbits st' = wbits st @ int_bits (unat w) v"
  using write_bits_wbits[of st w 0 "bytes_of_u32 v"] assms
  by (auto simp: write_integer_def slice_bytes_of_u32 same_frame_def)

lemma read_integer_rbits:
  assumes wf: "stream_wf st" and r: "rbits st = int_bits (unat w) v @ ys" and w: "unat w \<le> 32"
  shows "\<exists>st'. read_integer w st = Some (take_bit (unat w) v, st') \<and> stream_wf st'
     \<and> rbits st' = ys \<and> bit_num st' = bit_num st + w \<and> base_ptr st' = base_ptr st \<and> same_frame st st'"
proof -
  let ?z = "[0, 0, 0, 0] :: byte list"
  obtain d st' where d: "read_bits st ?z 0 w = Some (w, d, st')" "stream_wf st'" "length d = length ?z"
    "bslice d 0 (unat w) = int_bits (unat w) v"
    "\<forall>i < 8 * length ?z. i < unat (0::uint32) \<or> unat (0::uint32) + unat w \<le> i \<longrightarrow> gbit d i = gbit ?z i"
    "rbits st' = ys" "bit_num st' = bit_num st + w" "bit_end st' = bit_end st"
    "base_ptr st' = base_ptr st" "error_detected st' = error_detected st"
    using read_bits_rbits[OF wf r, of w 0 ?z] w by auto
  have z: "gbit ?z i = False" if "i < 32" for i
  proof -
    have z4: "?z = replicate 4 0" by (simp add: numeral_eq_Suc)
    have "i div 8 < 4" using that by simp
    then show ?thesis unfolding z4 gbit_def by (simp only: nth_replicate) simp
  qed
  have low: "gbit d i = bit v i" if "i < unat w" for i
  proof -
    have "bslice d 0 (unat w) ! i = int_bits (unat w) v ! i" using d(4) by simp
    with that show ?thesis by (simp add: bslice_def int_bits_def)
  qed
  have "u32_of_bytes d = take_bit (unat w) v"
  proof (rule bit_word_eqI)
    fix t assume "t < LENGTH(32)"
    then have "gbit d t = (t < unat w \<and> bit v t)" using low z d(5) by (cases "t < unat w") auto
    with d(3) \<open>t < LENGTH(32)\<close> show "bit (u32_of_bytes d) t = bit (take_bit (unat w) v) t"
      by (simp add: bit_u32_of_bytes bit_take_bit_iff)
  qed
  with d show ?thesis by (auto simp: read_integer_def same_frame_def)
qed

lemma unat_push3: "8 * unat (k :: uint32) < 2 ^ 32 \<Longrightarrow> unat (push_bit 3 k) = 8 * unat k"
  by (simp add: push_bit_eq_mult unat_word_ariths mult.commute)

lemma drop3_push3: "8 * unat (k :: uint32) < 2 ^ 32 \<Longrightarrow> drop_bit 3 (push_bit 3 k) = k"
  by (simp add: word_unat_eq_iff unat_drop3 unat_push3)

lemma write_bytes_wbits:
  assumes wf: "stream_wf st" and k: "8 * unat k \<le> room st" "unat k \<le> length source"
  shows "\<exists>st'. write_bytes st source k = Some (k, st') \<and> stream_wf st' \<and> same_frame st st'
     \<and> bit_num st' = bit_num st + push_bit 3 k \<and> wbits st' = wbits st @ byte_bits (take (unat k) source)"
proof -
  have lt: "8 * unat k < 2 ^ 32" using k(1) stream_wfD[OF wf] by (simp add: room_def)
  from write_bits_wbits[OF wf, of "push_bit 3 k" 0 source] k lt show ?thesis
    by (auto simp: write_bytes_def unat_push3 drop3_push3 slice_byte_bits same_frame_def)
qed

text \<open>More bytes than there is room for: those that fit are written.\<close>

lemma write_bytes_cut:
  assumes wf: "stream_wf st" and room: "room st = 8 * r" and k: "r < unat k" "8 * unat k < 2 ^ 32" "unat k \<le> length source"
  shows "\<exists>n st'. write_bytes st source k = Some (n, st') \<and> stream_wf st' \<and> bit_end st' = bit_end st
     \<and> length (base_ptr st') = length (base_ptr st) \<and> error_detected st' \<and> wbits st' = wbits st @ byte_bits (take r source)"
proof -
  let ?n = "bit_end st - bit_num st"
  note w = stream_wfD[OF wf]
  let ?st = "st\<lparr>base_ptr := copy_ref (base_ptr st) (unat (bit_num st)) source 0 (room st), bit_num := bit_end st, is_dirty := True, error_detected := True\<rparr>"
  have short: "write_bytes st source k = Some (drop_bit 3 ?n, ?st)"
    using write_bits_short[OF wf, of "push_bit 3 k" 0 source] room k by (simp add: write_bytes_def unat_push3)
  have "wbits ?st = wbits st @ bslice source 0 (8 * r)"
  proof (cases "?n = 0")
    case True
    then have "room st = 0" using w(4) by simp
    then have "r = 0" "bit_end st = bit_num st" using room True by simp_all
    then show ?thesis using \<open>room st = 0\<close> by (simp add: wbits_def bslice_def)
  next
    case False
    have "unat ?n \<le> 8 * length source" using w(4) room k by simp
    then show ?thesis
      using write_bits_fits[OF wf False, of 0 source] write_bits_wbits[OF wf, of ?n 0 source] w(4) room by (auto simp: wbits_def)
  qed
  moreover have "stream_wf ?st" using w by (simp add: stream_wf_def)
  ultimately show ?thesis using short k by (simp add: slice_byte_bits)
qed

lemma read_bytes_rbits:
  assumes wf: "stream_wf st" and r: "rbits st = byte_bits bs @ ys" and k: "unat k = length bs"
    and dest: "length bs \<le> length dest"
  shows "\<exists>st'. read_bytes st dest k = Some (k, bs @ drop (length bs) dest, st') \<and> stream_wf st'
     \<and> rbits st' = ys \<and> bit_num st' = bit_num st + push_bit 3 k \<and> base_ptr st' = base_ptr st
     \<and> same_frame st st'"
proof -
  have "8 * length bs \<le> room st" using r length_views(2)[of st] by simp
  then have lt: "8 * unat k < 2 ^ 32" using k stream_wfD[OF wf] by (simp add: room_def)
  have u: "unat (push_bit 3 k) = 8 * length bs" using lt k by (simp add: unat_push3)
  have len: "length (byte_bits bs) = unat (push_bit 3 k)" by (simp add: u)
  have c: "unat (0 :: uint32) + unat (push_bit 3 k) \<le> 8 * length dest" using dest by (simp add: u)
  obtain d st' where d: "read_bits st dest 0 (push_bit 3 k) = Some (push_bit 3 k, d, st')" "stream_wf st'"
    "length d = length dest" "bslice d 0 (8 * length bs) = byte_bits bs"
    "\<forall>i < 8 * length dest. i < 0 \<or> 0 + 8 * length bs \<le> i \<longrightarrow> gbit d i = gbit dest i"
    "rbits st' = ys" "bit_num st' = bit_num st + push_bit 3 k" "bit_end st' = bit_end st"
    "base_ptr st' = base_ptr st" "error_detected st' = error_detected st"
    using read_bits_rbits[OF wf r len c] lt k unfolding u unat_0 by auto
  have "take (length bs) d = bs"
  proof (rule byte_bits_inj)
    have "byte_bits (take (length bs) d) = bslice d 0 (8 * length bs)"
      by (rule slice_byte_bits[symmetric]) (simp add: d(3) dest)
    then show "byte_bits (take (length bs) d) = byte_bits bs" by (simp only: d(4))
  qed
  moreover have "drop (length bs) d = drop (length bs) dest"
  proof (rule nth_equalityI)
    fix j assume "j < length (drop (length bs) d)"
    then have j: "length bs + j < length dest" using d(3) by simp
    have "d ! (length bs + j) = dest ! (length bs + j)"
    proof (rule byte_eqI)
      fix t :: nat assume "t < 8"
      with d(5) j have "gbit d (8 * (length bs + j) + t) = gbit dest (8 * (length bs + j) + t)" by simp
      with \<open>t < 8\<close> show "bit (d ! (length bs + j)) t = bit (dest ! (length bs + j)) t"
        by (simp only: gbit_byte)
    qed
    with d(3) dest show "drop (length bs) d ! j = drop (length bs) dest ! j" by simp
  qed (simp add: d(3))
  ultimately have "d = bs @ drop (length bs) dest" by (metis append_take_drop_id)
  with d lt show ?thesis by (auto simp: read_bytes_def drop3_push3 same_frame_def)
qed

lemma rewind:
  assumes "stream_wf st'" "same_frame st st'" "wbits st' = wbits st @ xs"
  shows "stream_wf (st'\<lparr>bit_num := bit_num st\<rparr>)" "rbits (st'\<lparr>bit_num := bit_num st\<rparr>) = xs @ rbits st'"
proof -
  have pos: "unat (bit_num st') = unat (bit_num st) + length xs"
    using arg_cong[OF assms(3), of length] by simp
  note w = stream_wfD[OF assms(1)]
  show wf: "stream_wf (st'\<lparr>bit_num := bit_num st\<rparr>)"
    using w pos by (simp add: stream_wf_def word_le_nat_alt)
  have "bslice (base_ptr st') (unat (bit_num st)) (length xs) = xs"
  proof -
    have "wbits st' = bslice (base_ptr st') 0 (unat (bit_num st)) @ bslice (base_ptr st') (unat (bit_num st)) (length xs)"
      using slice_append[of "base_ptr st'" 0 "unat (bit_num st)" "length xs"] by (simp add: wbits_slice pos)
    with assms(3) show ?thesis by (simp add: append_eq_append_conv)
  qed
  moreover have "room (st'\<lparr>bit_num := bit_num st\<rparr>) = length xs + room st'"
    using w pos by (simp add: room_def)
  ultimately show "rbits (st'\<lparr>bit_num := bit_num st\<rparr>) = xs @ rbits st'"
    using rbits_slice[OF wf] rbits_slice[OF assms(1)] by (simp add: slice_append pos)
qed


text \<open>Written with \<open>w\<close> bits at any position and read back from there, an integer comes back
  modulo \<open>2 ^ w\<close>.\<close>

lemma integer_there_and_back:
  assumes "stream_wf st" "unat w \<le> room st" "unat w \<le> 32"
  shows "\<exists>st' st''. write_integer v w st = Some st'
     \<and> read_integer w (st'\<lparr>bit_num := bit_num st\<rparr>) = Some (take_bit (unat w) v, st'')
     \<and> wbits st' = wbits st @ int_bits (unat w) v \<and> stream_wf st' \<and> bit_num st'' = bit_num st'"
proof -
  obtain st' where w: "write_integer v w st = Some st'" "stream_wf st'" "same_frame st st'"
    "bit_num st' = bit_num st + w" "wbits st' = wbits st @ int_bits (unat w) v"
    using write_integer_wbits[OF assms] by blast
  from read_integer_rbits[OF rewind[OF w(2,3,5)] assms(3)] w show ?thesis by auto
qed

subsection \<open>Properties\<close>

text \<open>C13. \<^verbatim>\<open>write_integer\<close> then \<^verbatim>\<open>read_integer\<close> with the same width of at most 32 bits, at any
  bit position of a stream with room for it: the value comes back modulo \<open>2 ^ width\<close>, the
  bits written before are kept, and the reader ends where the writer did.\<close>

theorem integer_round_trip:
  assumes "stream_wf st" "unat w \<le> room st" "unat w \<le> 32"
  shows "\<exists>st' st''. write_integer v w st = Some st'
     \<and> read_integer w (st'\<lparr>bit_num := bit_num st\<rparr>) = Some (take_bit (unat w) v, st'')
     \<and> take (unat (bit_num st)) (wbits st') = wbits st \<and> bit_num st'' = bit_num st'"
  using integer_there_and_back[OF assms, of v] by fastforce

theorem integer_round_trip_witness:
  "\<exists>st' st''. write_integer 1234 11 (init_stream [1, 2, 3] 5 24) = Some st'
     \<and> read_integer 11 (st'\<lparr>bit_num := 5\<rparr>) = Some (1234, st'')
     \<and> take 5 (wbits st') = wbits (init_stream [1, 2, 3] 5 24) \<and> bit_num st'' = bit_num st'"
  using integer_round_trip[of "init_stream [1, 2, 3] 5 24" 11 1234]
  by (simp add: init_stream_def stream_wf_def room_def take_bit_eq_mod)

text \<open>\<^verbatim>\<open>write_ranged_uint32\<close> then \<^verbatim>\<open>read_ranged_uint32\<close> over a range of fewer than \<open>2 ^ 24\<close>
  values (above that \<^verbatim>\<open>get_binary_log\<close> rounds): the value comes back, in the least number of
  bits that can hold the range.\<close>

theorem ranged_round_trip:
  assumes "stream_wf st" "24 \<le> room st" "lo \<le> v" "v \<le> hi" "unat hi - unat lo + 1 < 2 ^ 24"
  shows "\<exists>st' st''. write_ranged_uint32 v lo hi st = Some st'
     \<and> read_ranged_uint32 lo hi (st'\<lparr>bit_num := bit_num st\<rparr>) = Some (v, st'')
     \<and> bit_num st'' = bit_num st'
     \<and> (\<forall>k. 2 ^ k < unat hi - unat lo + 1 \<longrightarrow> k < unat (bit_num st' - bit_num st))"
proof -
  let ?n = "hi - lo + 1" and ?w = "get_next_binary_log (hi - lo + 1)"
  have le: "lo \<le> hi" using assms(3,4) by simp
  have d: "unat (hi - lo) = unat hi - unat lo" using le by (simp add: unat_sub word_le_nat_alt)
  have n: "unat ?n = unat hi - unat lo + 1"
    using assms(5) d by (subst unat_add_lem[THEN iffD1]) auto
  note w = get_next_binary_log_least[of ?n, unfolded n, OF _ assms(5)]
  have v: "unat (v - lo) \<le> unat hi - unat lo"
    using assms(3,4) by (simp add: unat_sub word_le_nat_alt)
  have low: "take_bit (unat ?w) (v - lo) = v - lo"
    using w(1) v by (auto simp: word_unat_eq_iff unsigned_take_bit_eq take_bit_nat_eq_self_iff)
  have fits: "unat ?w \<le> room st" "unat ?w \<le> 32" using w(3) assms(2) by auto
  obtain st' st'' where r: "write_integer (v - lo) ?w st = Some st'"
    "read_integer ?w (st'\<lparr>bit_num := bit_num st\<rparr>) = Some (v - lo, st'')" "bit_num st'' = bit_num st'"
    "wbits st' = wbits st @ int_bits (unat ?w) (v - lo)"
    using integer_there_and_back[OF assms(1) fits, of "v - lo"] low by auto
  have "unat (bit_num st') = unat (bit_num st) + unat ?w" using arg_cong[OF r(4), of length] by simp
  then have "unat (bit_num st' - bit_num st) = unat ?w" by (simp add: unat_sub word_le_nat_alt)
  then show ?thesis using r w(2) le assms(3,4)
    by (auto simp: write_ranged_uint32_def read_ranged_uint32_def Let_def)
qed

theorem ranged_round_trip_witness:
  "\<exists>st' st''. write_ranged_uint32 17 10 30 (make_stream [0, 0, 0, 0] 4) = Some st'
     \<and> read_ranged_uint32 10 30 (st'\<lparr>bit_num := 0\<rparr>) = Some (17, st'') \<and> bit_num st'' = bit_num st'
     \<and> (\<forall>k. 2 ^ k < 30 - 10 + (1 :: nat) \<longrightarrow> k < unat (bit_num st'))"
  using ranged_round_trip[of "make_stream [0, 0, 0, 0] 4" 10 17 30]
  by (simp add: make_stream_def init_stream_def stream_wf_def room_def)

text \<open>A read that asks for more than the stream holds: the bits that are left arrive in the
  destination, which is otherwise unchanged, the count says how many they were, the cursor
  stops at the limit and the error flag is raised.\<close>

theorem read_past_end:
  assumes "stream_wf st" "room st < unat n"
    and "unat db + room st \<le> 8 * length dest" "unat db + room st < 2 ^ 32"
  shows "\<exists>d st'. read_bits st dest db n = Some (word_of_nat (room st), d, st')
     \<and> bslice d (unat db) (room st) = rbits st
     \<and> (\<forall>i < 8 * length dest. i < unat db \<or> unat db + room st \<le> i \<longrightarrow> gbit d i = gbit dest i)
     \<and> is_full st' \<and> error_detected st' \<and> base_ptr st' = base_ptr st"
proof -
  have "bit_end st - bit_num st = word_of_nat (room st)"
    using stream_wfD(4)[OF assms(1)] by (rule word_eq_of_nat)
  then show ?thesis
    using read_bits_short[OF assms] assms
    by (auto simp: is_full_def rbits_slice slice_copy_ref_inside gbit_copy_ref)
qed

theorem read_past_end_witness:
  "\<exists>d st'. read_bits (init_stream [7, 255] 6 16) [0, 0, 0, 0] 0 32 = Some (10, d, st')
     \<and> bslice d 0 10 = rbits (init_stream [7, 255] 6 16) \<and> is_full st' \<and> error_detected st'"
  using read_past_end[of "init_stream [7, 255] 6 16" 32 0 "[0, 0, 0, 0]"]
  by (auto simp: init_stream_def stream_wf_def room_def)

end
