(* ===== verification/Base_Type_IO.thy ===== *)
theory Base_Type_IO
  imports Bit_Stream
begin

text \<open>
  Typed reads and writes on a stream: \<^verbatim>\<open>core::write\<close> and \<^verbatim>\<open>core::read\<close> of
  \<^verbatim>\<open>core/base_type_io.h\<close> for the integer types, and those of \<^verbatim>\<open>core/byte_buffer.h\<close> for
  \<^verbatim>\<open>byte_buffer\<close>, with the class itself.  A read takes the value the variable held before the
  call: when the stream runs out, \<^verbatim>\<open>read\<close> returns \<open>False\<close> and has overwritten only the bytes it
  got.  The interface \<open>wire_codec\<close> states what a pair of such functions promises; the
  round trips are proved in it once.
\<close>

subsection \<open>Integers\<close>

definition write_u8 :: "byte \<Rightarrow> bit_stream \<Rightarrow> (bool \<times> bit_stream) option" where
  "write_u8 v st = do { (n, st') \<leftarrow> write_bytes st [v] 1; Some (n = 1, st') }"

definition write_u16 :: "uint16 \<Rightarrow> bit_stream \<Rightarrow> (bool \<times> bit_stream) option" where
  "write_u16 v st = do { (n, st') \<leftarrow> write_bytes st (bytes_of_u16 v) 2; Some (n = 2, st') }"

definition write_u32 :: "uint32 \<Rightarrow> bit_stream \<Rightarrow> (bool \<times> bit_stream) option" where
  "write_u32 v st = do { (n, st') \<leftarrow> write_bytes st (bytes_of_u32 v) 4; Some (n = 4, st') }"

definition write_u64 :: "uint64 \<Rightarrow> bit_stream \<Rightarrow> (bool \<times> bit_stream) option" where
  "write_u64 v st = do { (n, st') \<leftarrow> write_bytes st (bytes_of_u64 v) 8; Some (n = 8, st') }"

definition read_u8 :: "byte \<Rightarrow> bit_stream \<Rightarrow> (bool \<times> byte \<times> bit_stream) option" where
  "read_u8 old st = do { (n, d, st') \<leftarrow> read_bytes st [old] 1; Some (n = 1, d ! 0, st') }"

definition read_u16 :: "uint16 \<Rightarrow> bit_stream \<Rightarrow> (bool \<times> uint16 \<times> bit_stream) option" where
  "read_u16 old st = do { (n, d, st') \<leftarrow> read_bytes st (bytes_of_u16 old) 2; Some (n = 2, u16_of_bytes d, st') }"

definition read_u32 :: "uint32 \<Rightarrow> bit_stream \<Rightarrow> (bool \<times> uint32 \<times> bit_stream) option" where
  "read_u32 old st = do { (n, d, st') \<leftarrow> read_bytes st (bytes_of_u32 old) 4; Some (n = 4, u32_of_bytes d, st') }"

definition read_u64 :: "uint64 \<Rightarrow> bit_stream \<Rightarrow> (bool \<times> uint64 \<times> bit_stream) option" where
  "read_u64 old st = do { (n, d, st') \<leftarrow> read_bytes st (bytes_of_u64 old) 8; Some (n = 8, u64_of_bytes d, st') }"

subsection \<open>Byte buffers\<close>

text \<open>\<open>data_ptr\<close> is the allocated block; shrinking keeps the block and lowers \<open>buf_size\<close>.
  Fresh memory holds whatever \<open>uninit\<close> says.\<close>

record byte_buffer =
  data_ptr :: "byte list"
  buf_size :: uint32

definition contents :: "byte_buffer \<Rightarrow> byte list" where
  "contents b = take (unat (buf_size b)) (data_ptr b)"

definition buffer_wf :: "byte_buffer \<Rightarrow> bool" where
  "buffer_wf b \<longleftrightarrow> unat (buf_size b) \<le> length (data_ptr b)"

definition buffer_from_chunk :: "byte list \<Rightarrow> uint32 \<Rightarrow> byte_buffer option" where
  "buffer_from_chunk source buffer_size =
     (if unat buffer_size \<le> length source
      then Some \<lparr>data_ptr = take (unat buffer_size) source, buf_size = buffer_size\<rparr> else None)"

definition buffer_of_size :: "(nat \<Rightarrow> byte) \<Rightarrow> uint32 \<Rightarrow> byte_buffer" where
  "buffer_of_size uninit buffer_size =
     \<lparr>data_ptr = map uninit [0..<unat buffer_size], buf_size = buffer_size\<rparr>"

definition default_buffer_size :: uint32 where
  "default_buffer_size = 1500"

text \<open>\<^verbatim>\<open>realloc\<close> keeps the bytes both sizes share.\<close>

definition realloc :: "(nat \<Rightarrow> byte) \<Rightarrow> byte list \<Rightarrow> nat \<Rightarrow> byte list" where
  "realloc uninit block n = take n block @ map uninit [length block..<n]"

definition buffer_resize :: "(nat \<Rightarrow> byte) \<Rightarrow> uint32 \<Rightarrow> byte_buffer \<Rightarrow> byte_buffer" where
  "buffer_resize uninit new_size b =
     (if new_size \<le> buf_size b then b\<lparr>buf_size := new_size\<rparr>
      else \<lparr>data_ptr = realloc uninit (data_ptr b) (unat new_size), buf_size = new_size\<rparr>)"

definition append_buffer :: "(nat \<Rightarrow> byte) \<Rightarrow> byte list \<Rightarrow> uint32 \<Rightarrow> byte_buffer \<Rightarrow> byte_buffer option" where
  "append_buffer uninit source buffer_size b =
     (let start = buf_size b;
          b' = buffer_resize uninit (buf_size b + buffer_size) b
      in map_option (\<lambda>d. b'\<lparr>data_ptr := d\<rparr>)
           (mem_copy (data_ptr b') (unat start) source (unat buffer_size)))"

definition append_byte_buffer :: "(nat \<Rightarrow> byte) \<Rightarrow> byte_buffer \<Rightarrow> byte_buffer \<Rightarrow> byte_buffer option" where
  "append_byte_buffer uninit other b = append_buffer uninit (data_ptr other) (buf_size other) b"

definition buffer_is_equal :: "byte_buffer \<Rightarrow> byte_buffer \<Rightarrow> bool" where
  "buffer_is_equal other b \<longleftrightarrow> buf_size other = buf_size b \<and> contents other = contents b"

definition buffer_clear :: "byte_buffer \<Rightarrow> byte_buffer" where
  "buffer_clear b = b\<lparr>data_ptr := replicate (unat (buf_size b)) 0 @ drop (unat (buf_size b)) (data_ptr b)\<rparr>"

definition write_byte_buffer :: "byte_buffer \<Rightarrow> bit_stream \<Rightarrow> (bool \<times> bit_stream) option" where
  "write_byte_buffer b st = do {
     (_, st1) \<leftarrow> write_u32 (buf_size b) st;
     (n, st2) \<leftarrow> write_bytes st1 (data_ptr b) (buf_size b);
     Some (n \<noteq> 0, st2) }"

text \<open>\<open>len0\<close> is what the uninitialised local \<^verbatim>\<open>len\<close> held.\<close>

definition read_byte_buffer ::
    "(nat \<Rightarrow> byte) \<Rightarrow> uint32 \<Rightarrow> bit_stream \<Rightarrow> (bool \<times> byte_buffer \<times> bit_stream) option" where
  "read_byte_buffer uninit len0 st = do {
     (_, len, st1) \<leftarrow> read_u32 len0 st;
     let b = buffer_of_size uninit len;
     (n, d, st2) \<leftarrow> read_bytes st1 (data_ptr b) len;
     Some (n \<noteq> 0, b\<lparr>data_ptr := d\<rparr>, st2) }"

subsection \<open>The interface of a wire codec\<close>

text \<open>After a write, a reader placed where the writer stood sees what was written.\<close>

locale wire_codec =
  fixes wr :: "'a \<Rightarrow> bit_stream \<Rightarrow> (bool \<times> bit_stream) option"
    and rd :: "'a \<Rightarrow> bit_stream \<Rightarrow> (bool \<times> 'a \<times> bit_stream) option"
    and enc :: "'a \<Rightarrow> bool list"
    and valid :: "'a \<Rightarrow> bool"
  assumes write_law: "stream_wf st \<Longrightarrow> valid v \<Longrightarrow> length (enc v) \<le> room st \<Longrightarrow>
      \<exists>r st'. wr v st = Some (r, st') \<and> stream_wf st' \<and> same_frame st st' \<and> wbits st' = wbits st @ enc v"
    and read_law: "stream_wf st \<Longrightarrow> valid v \<Longrightarrow> rbits st = enc v @ ys \<Longrightarrow>
      \<exists>r st'. rd old st = Some (r, v, st') \<and> stream_wf st' \<and> same_frame st st'
        \<and> base_ptr st' = base_ptr st \<and> rbits st' = ys"
begin

text \<open>Write, go back, read: the same value, and the cursor where the writer left it.\<close>

lemma round_trip:
  assumes "stream_wf st" "valid v" "length (enc v) \<le> room st"
  shows "\<exists>r st' r' st''. wr v st = Some (r, st') \<and> rd old (st'\<lparr>bit_num := bit_num st\<rparr>) = Some (r', v, st'')
      \<and> rbits st'' = rbits st'"
proof -
  obtain r st' where w: "wr v st = Some (r, st')" "stream_wf st'" "same_frame st st'"
    "wbits st' = wbits st @ enc v"
    using write_law[OF assms] by blast
  obtain r' st'' where "rd old (st'\<lparr>bit_num := bit_num st\<rparr>) = Some (r', v, st'')" "rbits st'' = rbits st'"
    using read_law[OF rewind(1)[OF w(2-4)] assms(2) rewind(2)[OF w(2-4)], of old] by blast
  with w(1) show ?thesis by blast
qed

end

subsection \<open>The codecs\<close>

lemma write_bytes_codec:
  assumes "stream_wf st" "8 * length bs \<le> room st" "unat k = length bs"
  shows "\<exists>st'. write_bytes st bs k = Some (k, st') \<and> stream_wf st' \<and> same_frame st st'
    \<and> wbits st' = wbits st @ byte_bits bs"
  using write_bytes_wbits[of st k bs] assms by auto

lemma read_bytes_codec:
  assumes "stream_wf st" "rbits st = byte_bits bs @ ys" "unat k = length bs" "length dest = length bs"
  shows "\<exists>st'. read_bytes st dest k = Some (k, bs, st') \<and> stream_wf st' \<and> same_frame st st'
    \<and> base_ptr st' = base_ptr st \<and> rbits st' = ys"
  using read_bytes_rbits[OF assms(1-3), of dest] assms(4) by auto

interpretation u8: wire_codec write_u8 read_u8 "\<lambda>v. byte_bits [v]" "\<lambda>_. True"
proof
  fix st :: bit_stream and v :: byte
  assume "stream_wf st" "length (byte_bits [v]) \<le> room st"
  then show "\<exists>r st'. write_u8 v st = Some (r, st') \<and> stream_wf st' \<and> same_frame st st'
      \<and> wbits st' = wbits st @ byte_bits [v]"
    using write_bytes_codec[of st "[v]" 1] by (auto simp: write_u8_def)
next
  fix st :: bit_stream and v old :: byte and ys
  assume "stream_wf st" "rbits st = byte_bits [v] @ ys"
  then show "\<exists>r st'. read_u8 old st = Some (r, v, st') \<and> stream_wf st' \<and> same_frame st st'
      \<and> base_ptr st' = base_ptr st \<and> rbits st' = ys"
    using read_bytes_codec[of st "[v]" ys 1 "[old]"] by (auto simp: read_u8_def)
qed

interpretation u16: wire_codec write_u16 read_u16 "\<lambda>v. byte_bits (bytes_of_u16 v)" "\<lambda>_. True"
proof
  fix st :: bit_stream and v :: uint16
  assume "stream_wf st" "length (byte_bits (bytes_of_u16 v)) \<le> room st"
  then show "\<exists>r st'. write_u16 v st = Some (r, st') \<and> stream_wf st' \<and> same_frame st st'
      \<and> wbits st' = wbits st @ byte_bits (bytes_of_u16 v)"
    using write_bytes_codec[of st "bytes_of_u16 v" 2] by (auto simp: write_u16_def)
next
  fix st :: bit_stream and v old :: uint16 and ys
  assume "stream_wf st" "rbits st = byte_bits (bytes_of_u16 v) @ ys"
  then show "\<exists>r st'. read_u16 old st = Some (r, v, st') \<and> stream_wf st' \<and> same_frame st st'
      \<and> base_ptr st' = base_ptr st \<and> rbits st' = ys"
    using read_bytes_codec[of st "bytes_of_u16 v" ys 2 "bytes_of_u16 old"] by (auto simp: read_u16_def)
qed

interpretation u32: wire_codec write_u32 read_u32 "\<lambda>v. byte_bits (bytes_of_u32 v)" "\<lambda>_. True"
proof
  fix st :: bit_stream and v :: uint32
  assume "stream_wf st" "length (byte_bits (bytes_of_u32 v)) \<le> room st"
  then show "\<exists>r st'. write_u32 v st = Some (r, st') \<and> stream_wf st' \<and> same_frame st st'
      \<and> wbits st' = wbits st @ byte_bits (bytes_of_u32 v)"
    using write_bytes_codec[of st "bytes_of_u32 v" 4] by (auto simp: write_u32_def)
next
  fix st :: bit_stream and v old :: uint32 and ys
  assume "stream_wf st" "rbits st = byte_bits (bytes_of_u32 v) @ ys"
  then show "\<exists>r st'. read_u32 old st = Some (r, v, st') \<and> stream_wf st' \<and> same_frame st st'
      \<and> base_ptr st' = base_ptr st \<and> rbits st' = ys"
    using read_bytes_codec[of st "bytes_of_u32 v" ys 4 "bytes_of_u32 old"] by (auto simp: read_u32_def)
qed

interpretation u64: wire_codec write_u64 read_u64 "\<lambda>v. byte_bits (bytes_of_u64 v)" "\<lambda>_. True"
proof
  fix st :: bit_stream and v :: uint64
  assume "stream_wf st" "length (byte_bits (bytes_of_u64 v)) \<le> room st"
  then show "\<exists>r st'. write_u64 v st = Some (r, st') \<and> stream_wf st' \<and> same_frame st st'
      \<and> wbits st' = wbits st @ byte_bits (bytes_of_u64 v)"
    using write_bytes_codec[of st "bytes_of_u64 v" 8] by (auto simp: write_u64_def)
next
  fix st :: bit_stream and v old :: uint64 and ys
  assume "stream_wf st" "rbits st = byte_bits (bytes_of_u64 v) @ ys"
  then show "\<exists>r st'. read_u64 old st = Some (r, v, st') \<and> stream_wf st' \<and> same_frame st st'
      \<and> base_ptr st' = base_ptr st \<and> rbits st' = ys"
    using read_bytes_codec[of st "bytes_of_u64 v" ys 8 "bytes_of_u64 old"] by (auto simp: read_u64_def)
qed

text \<open>The integer codecs report success.\<close>

lemma write_u32_ok:
  assumes "stream_wf st" "32 \<le> room st"
  shows "\<exists>st'. write_u32 v st = Some (True, st') \<and> stream_wf st' \<and> same_frame st st'
    \<and> wbits st' = wbits st @ byte_bits (bytes_of_u32 v)"
  using write_bytes_codec[of st "bytes_of_u32 v" 4] assms by (auto simp: write_u32_def)

lemma write_u16_ok:
  assumes "stream_wf st" "16 \<le> room st"
  shows "\<exists>st'. write_u16 v st = Some (True, st') \<and> stream_wf st' \<and> same_frame st st'
    \<and> wbits st' = wbits st @ byte_bits (bytes_of_u16 v)"
  using write_bytes_codec[of st "bytes_of_u16 v" 2] assms by (auto simp: write_u16_def)

lemma read_u32_ok:
  assumes "stream_wf st" "rbits st = byte_bits (bytes_of_u32 v) @ ys"
  shows "\<exists>st'. read_u32 old st = Some (True, v, st') \<and> stream_wf st' \<and> same_frame st st'
    \<and> base_ptr st' = base_ptr st \<and> rbits st' = ys"
  using read_bytes_codec[of st "bytes_of_u32 v" ys 4 "bytes_of_u32 old"] assms by (auto simp: read_u32_def)

lemma read_u16_ok:
  assumes "stream_wf st" "rbits st = byte_bits (bytes_of_u16 v) @ ys"
  shows "\<exists>st'. read_u16 old st = Some (True, v, st') \<and> stream_wf st' \<and> same_frame st st'
    \<and> base_ptr st' = base_ptr st \<and> rbits st' = ys"
  using read_bytes_codec[of st "bytes_of_u16 v" ys 2 "bytes_of_u16 old"] assms by (auto simp: read_u16_def)

definition buffer_exact :: "byte_buffer \<Rightarrow> bool" where
  "buffer_exact b \<longleftrightarrow> unat (buf_size b) = length (data_ptr b)"

interpretation bb: wire_codec write_byte_buffer "\<lambda>_. read_byte_buffer uninit len0"
  "\<lambda>b. byte_bits (bytes_of_u32 (buf_size b) @ data_ptr b)" buffer_exact for uninit len0
proof
  fix st :: bit_stream and v :: byte_buffer
  assume wf: "stream_wf st" and v: "buffer_exact v"
    and room: "length (byte_bits (bytes_of_u32 (buf_size v) @ data_ptr v)) \<le> room st"
  obtain r1 st1 where w1: "write_u32 (buf_size v) st = Some (r1, st1)" "stream_wf st1" "same_frame st st1"
    "wbits st1 = wbits st @ byte_bits (bytes_of_u32 (buf_size v))"
    using u32.write_law[OF wf, of "buf_size v"] room by auto
  have "unat (bit_num st1) = unat (bit_num st) + 32"
    using arg_cong[OF w1(4), of length] by simp
  then have "8 * length (data_ptr v) \<le> room st1"
    using room w1(3) by (simp add: room_def same_frame_def)
  then obtain st2 where "write_bytes st1 (data_ptr v) (buf_size v) = Some (buf_size v, st2)" "stream_wf st2"
    "same_frame st1 st2" "wbits st2 = wbits st1 @ byte_bits (data_ptr v)"
    using write_bytes_codec[OF w1(2), of "data_ptr v" "buf_size v"] v by (auto simp: buffer_exact_def)
  with w1 show "\<exists>r st'. write_byte_buffer v st = Some (r, st') \<and> stream_wf st' \<and> same_frame st st'
      \<and> wbits st' = wbits st @ byte_bits (bytes_of_u32 (buf_size v) @ data_ptr v)"
    by (auto simp: write_byte_buffer_def intro: same_frame_trans)
next
  fix st :: bit_stream and v :: byte_buffer and ys
  assume wf: "stream_wf st" and v: "buffer_exact v"
    and r: "rbits st = byte_bits (bytes_of_u32 (buf_size v) @ data_ptr v) @ ys"
  obtain r1 st1 where r1: "read_u32 len0 st = Some (r1, buf_size v, st1)" "stream_wf st1" "same_frame st st1"
    "base_ptr st1 = base_ptr st" "rbits st1 = byte_bits (data_ptr v) @ ys"
    using u32.read_law[OF wf, of "buf_size v" "byte_bits (data_ptr v) @ ys" len0] r by auto
  obtain st2 where "read_bytes st1 (data_ptr (buffer_of_size uninit (buf_size v))) (buf_size v) =
      Some (buf_size v, data_ptr v, st2)" "stream_wf st2" "same_frame st1 st2" "base_ptr st2 = base_ptr st1" "rbits st2 = ys"
    using read_bytes_codec[OF r1(2,5), of "buf_size v" "data_ptr (buffer_of_size uninit (buf_size v))"] v
    by (auto simp: buffer_exact_def buffer_of_size_def)
  with r1 show "\<exists>r st'. read_byte_buffer uninit len0 st = Some (r, v, st') \<and> stream_wf st'
      \<and> same_frame st st' \<and> base_ptr st' = base_ptr st \<and> rbits st' = ys"
    by (auto simp: read_byte_buffer_def buffer_of_size_def Let_def intro: same_frame_trans)
qed

subsection \<open>Reading never leaves the buffers\<close>

text \<open>What every read keeps, whatever the stream holds.\<close>

definition reads_from :: "bit_stream \<Rightarrow> bit_stream \<Rightarrow> bool" where
  "reads_from st st' \<longleftrightarrow> stream_wf st' \<and> base_ptr st' = base_ptr st \<and> bit_end st' = bit_end st
     \<and> bit_num st \<le> bit_num st'"

lemma reads_from_refl [wf_intros]: "stream_wf st \<Longrightarrow> reads_from st st"
  by (simp add: reads_from_def)

lemma reads_from_trans [wf_intros]: "reads_from a b \<Longrightarrow> reads_from b c \<Longrightarrow> reads_from a c"
  by (auto simp: reads_from_def)

lemma read_bits_total:
  assumes wf: "stream_wf st" and n: "unat n \<le> 8 * length dest"
  shows "\<exists>m d st'. read_bits st dest 0 n = Some (m, d, st') \<and> length d = length dest \<and> reads_from st st'
     \<and> (m \<noteq> n \<longrightarrow> error_detected st')"
proof (cases "unat n \<le> room st")
  case True
  note w = stream_wfD[OF wf]
  have "reads_from st (st\<lparr>bit_num := bit_num st + n\<rparr>)"
    using True w unat_advance[OF wf True] by (simp add: reads_from_def stream_wf_def word_le_nat_alt room_def)
  moreover have "n = 0 \<or> read_bits st dest 0 n = Some (n, copy_ref dest 0 (base_ptr st) (unat (bit_num st)) (unat n),
      st\<lparr>bit_num := bit_num st + n\<rparr>)"
    using read_bits_fits[OF wf _ True, of 0 dest] n unat_less_32[of n] by auto
  moreover have "read_bits st dest 0 0 = Some (0, dest, st)" by (simp add: read_bits_def)
  ultimately show ?thesis using wf by (auto simp: reads_from_refl)
next
  case False
  note w = stream_wfD[OF wf]
  have "reads_from st (st\<lparr>bit_num := bit_end st, error_detected := True\<rparr>)"
    using w by (simp add: reads_from_def stream_wf_def word_le_nat_alt)
  then show ?thesis
    using read_bits_short[OF wf, of n 0 dest] False n w(1,3) by (auto simp: room_def)
qed

lemma read_bytes_total:
  assumes "stream_wf st" "unat k \<le> length dest"
  shows "\<exists>m d st'. read_bytes st dest k = Some (m, d, st') \<and> length d = length dest \<and> reads_from st st'"
proof -
  have "unat (push_bit 3 k) \<le> 8 * unat k"
    by (simp add: push_bit_eq_mult unat_word_ariths mult.commute)
  then have "unat (push_bit 3 k) \<le> 8 * length dest" using assms(2) by linarith
  from read_bits_total[OF assms(1) this] show ?thesis by (auto simp: read_bytes_def)
qed

lemma read_u8_total: "stream_wf st \<Longrightarrow> \<exists>r v st'. read_u8 old st = Some (r, v, st') \<and> reads_from st st'"
  using read_bytes_total[of st 1 "[old]"] by (auto simp: read_u8_def)

lemma read_u16_total: "stream_wf st \<Longrightarrow> \<exists>r v st'. read_u16 old st = Some (r, v, st') \<and> reads_from st st'"
  using read_bytes_total[of st 2 "bytes_of_u16 old"] by (auto simp: read_u16_def)

lemma read_u32_total: "stream_wf st \<Longrightarrow> \<exists>r v st'. read_u32 old st = Some (r, v, st') \<and> reads_from st st'"
  using read_bytes_total[of st 4 "bytes_of_u32 old"] by (auto simp: read_u32_def)

lemma read_u64_total: "stream_wf st \<Longrightarrow> \<exists>r v st'. read_u64 old st = Some (r, v, st') \<and> reads_from st st'"
  using read_bytes_total[of st 8 "bytes_of_u64 old"] by (auto simp: read_u64_def)

lemma read_byte_buffer_total:
  assumes "stream_wf st"
  shows "\<exists>r b st'. read_byte_buffer uninit len0 st = Some (r, b, st') \<and> buffer_exact b \<and> reads_from st st'"
proof -
  obtain r len st1 where 1: "read_u32 len0 st = Some (r, len, st1)" "reads_from st st1"
    using read_u32_total[OF assms] by blast
  then have "stream_wf st1" by (simp add: reads_from_def)
  from read_bytes_total[OF this, of len "data_ptr (buffer_of_size uninit len)"] 1 show ?thesis
    by (auto simp: read_byte_buffer_def buffer_of_size_def buffer_exact_def Let_def intro: wf_intros)
qed

subsection \<open>Sequences of writes\<close>

definition writes :: "bit_stream \<Rightarrow> bit_stream \<Rightarrow> bool list \<Rightarrow> bool" where
  "writes st st' xs \<longleftrightarrow> stream_wf st' \<and> same_frame st st' \<and> wbits st' = wbits st @ xs"

lemma writes_wf: "writes st st' xs \<Longrightarrow> stream_wf st'"
  by (simp add: writes_def)

lemma writes_room: "writes st st' xs \<Longrightarrow> room st' = room st - length xs"
  by (auto simp: writes_def intro: room_after)

lemma writes_refl: "stream_wf st \<Longrightarrow> writes st st []"
  by (simp add: writes_def)

lemma writes_trans: "writes st st1 xs \<Longrightarrow> writes st1 st2 ys \<Longrightarrow> writes st st2 (xs @ ys)"
  by (auto simp: writes_def intro: same_frame_trans)

lemma write_integer_writes:
  "stream_wf st \<Longrightarrow> unat w \<le> room st \<Longrightarrow> unat w \<le> 32 \<Longrightarrow>
     \<exists>st'. write_integer v w st = Some st' \<and> writes st st' (int_bits (unat w) v)"
  using write_integer_wbits[of st w v] by (auto simp: writes_def)

lemma byte_bit0: "bslice [if b then 1 else 0] 0 1 = [b]"
  by (auto simp: bslice_def gbit_def)

lemma write_bool_writes:
  assumes "stream_wf st" "1 \<le> room st"
  shows "\<exists>st'. write_bool b st = Some st' \<and> writes st st' [b]"
  using write_bits_wbits[OF assms(1), of 1 0 "[if b then 1 else 0]"] assms(2) byte_bit0[of b]
  by (auto simp: write_bool_def writes_def same_frame_def)

lemma read_bool_rbits:
  assumes wf: "stream_wf st" and r: "rbits st = b # ys"
  shows "\<exists>st'. read_bool st = Some (b, st') \<and> stream_wf st' \<and> rbits st' = ys
     \<and> bit_num st' = bit_num st + 1 \<and> base_ptr st' = base_ptr st \<and> same_frame st st'"
proof -
  obtain d st' where d: "read_bits st [0] 0 1 = Some (1, d, st')" "stream_wf st'" "length d = 1"
    "bslice d 0 1 = [b]" "\<forall>i < 8. i < 0 \<or> 0 + 1 \<le> i \<longrightarrow> gbit d i = gbit [0] i"
    "rbits st' = ys" "bit_num st' = bit_num st + 1" "bit_end st' = bit_end st"
    "base_ptr st' = base_ptr st" "error_detected st' = error_detected st"
    using read_bits_rbits[OF wf, of "[b]" ys 1 0 "[0]"] r by auto
  obtain x where x: "d = [x]" using d(3) by (auto simp: length_Suc_conv)
  have "bit x 0 = b" using d(4) by (simp add: x bslice_def gbit_def)
  moreover have "\<not> bit x t" if "t \<noteq> 0" "t < 8" for t
    using d(5)[rule_format, of t] that by (simp add: x gbit_def)
  ultimately have "bit x t = bit (if b then 1 else 0 :: byte) t" if "t < 8" for t
    using that by (cases "t = 0") (auto simp: bit_1_iff)
  then have "x = (if b then 1 else 0)" by (rule byte_eqI)
  then show ?thesis using d by (auto simp: read_bool_def x same_frame_def)
qed

lemma write_integer_next:
  assumes "writes st0 st xs" "length xs + unat w \<le> room st0" "unat w \<le> 32"
  shows "\<exists>st'. write_integer v w st = Some st' \<and> writes st0 st' (xs @ int_bits (unat w) v)"
  using write_integer_writes[OF writes_wf[OF assms(1)], of w v] writes_room[OF assms(1)] assms(2,3) writes_trans[OF assms(1)]
  by fastforce

lemma write_bool_next:
  assumes "writes st0 st xs" "length xs + 1 \<le> room st0"
  shows "\<exists>st'. write_bool b st = Some st' \<and> writes st0 st' (xs @ [b])"
  using write_bool_writes[OF writes_wf[OF assms(1)], of b] writes_room[OF assms(1)] assms(2) writes_trans[OF assms(1)]
  by fastforce

lemma write_bits_total:
  assumes wf: "stream_wf st" and n: "unat n \<le> 8 * length source"
  shows "\<exists>m st'. write_bits st source 0 n = Some (m, st') \<and> stream_wf st' \<and> bit_end st' = bit_end st
     \<and> length (base_ptr st') = length (base_ptr st)"
proof (cases "unat n \<le> room st")
  case True
  then show ?thesis using write_bits_wbits[OF wf True, of 0 source] n by auto
next
  case False
  note w = stream_wfD[OF wf]
  have "stream_wf (st\<lparr>base_ptr := copy_ref (base_ptr st) (unat (bit_num st)) source 0 (room st),
      bit_num := bit_end st, is_dirty := True, error_detected := True\<rparr>)"
    using w by (simp add: stream_wf_def)
  then show ?thesis using write_bits_short[OF wf, of n 0 source] False n by auto
qed

lemma write_bytes_total:
  assumes "stream_wf st" "unat k \<le> length source"
  shows "\<exists>m st'. write_bytes st source k = Some (m, st') \<and> stream_wf st' \<and> bit_end st' = bit_end st
     \<and> length (base_ptr st') = length (base_ptr st)"
proof -
  have "unat (push_bit 3 k) \<le> 8 * unat k"
    by (simp add: push_bit_eq_mult unat_word_ariths mult.commute)
  then have "unat (push_bit 3 k) \<le> 8 * length source" using assms(2) by linarith
  from write_bits_total[OF assms(1) this] show ?thesis by (auto simp: write_bytes_def)
qed

lemma read_integer_total:
  assumes "stream_wf st" "unat w \<le> 32"
  shows "\<exists>v st'. read_integer w st = Some (v, st') \<and> reads_from st st'"
  using read_bits_total[OF assms(1), of w "[0, 0, 0, 0]"] assms(2) by (auto simp: read_integer_def)

lemma read_bool_total:
  assumes "stream_wf st"
  shows "\<exists>v st'. read_bool st = Some (v, st') \<and> reads_from st st'"
  using read_bits_total[OF assms, of 1 "[0]"] by (auto simp: read_bool_def)

lemma read_ranged_total:
  assumes "stream_wf st" "lo \<le> hi" "unat (get_next_binary_log (hi - lo + 1)) \<le> 32"
  shows "\<exists>v st'. read_ranged_uint32 lo hi st = Some (v, st') \<and> reads_from st st'"
  using read_integer_total[OF assms(1,3)] assms(2) by (auto simp: read_ranged_uint32_def Let_def)

text \<open>On a stream whose limit is a whole number of bytes the cursor can be rounded up.\<close>

definition whole_bytes :: "bit_stream \<Rightarrow> bool" where
  "whole_bytes st \<longleftrightarrow> unat (bit_end st) mod 8 = 0"

lemma advance_to_next_byte_wf:
  assumes wf: "stream_wf st" and al: "whole_bytes st"
  shows "stream_wf (advance_to_next_byte st)"
    and "unat (bit_num (advance_to_next_byte st)) = 8 * ((unat (bit_num st) + 7) div 8)"
    and "base_ptr (advance_to_next_byte st) = base_ptr st" "bit_end (advance_to_next_byte st) = bit_end st"
    and "reads_from st (advance_to_next_byte st)"
proof -
  note w = stream_wfD[OF wf]
  obtain e where e: "unat (bit_end st) = 8 * e" using al by (auto simp: whole_bytes_def)
  have lt: "unat (bit_num st) + 7 < 2 ^ 32" using w(1,3) e by simp
  then have s: "unat (bit_num st + 7) = unat (bit_num st) + 7" by (subst unat_add_lem[THEN iffD1]) auto
  have d: "(unat (bit_num st) + 7) div 8 \<le> e" using w(1) e by linarith
  show pos: "unat (bit_num (advance_to_next_byte st)) = 8 * ((unat (bit_num st) + 7) div 8)"
    using d e w(3) by (simp add: advance_to_next_byte_def unat_push3 unat_drop3 s)
  show b: "base_ptr (advance_to_next_byte st) = base_ptr st" "bit_end (advance_to_next_byte st) = bit_end st"
    by (simp_all add: advance_to_next_byte_def)
  have "8 * ((unat (bit_num st) + 7) div 8) \<le> unat (bit_end st)" using d e by simp
  then show wf': "stream_wf (advance_to_next_byte st)" using b w(2) pos by (simp add: stream_wf_def word_le_nat_alt)
  show "reads_from st (advance_to_next_byte st)"
    using wf' b pos by (simp add: reads_from_def word_le_nat_alt)
qed

subsection \<open>Byte buffer operations\<close>

lemma contents_resize:
  assumes "buffer_wf b"
  shows "buffer_wf (buffer_resize uninit n b)"
    and "n \<le> buf_size b \<Longrightarrow> contents (buffer_resize uninit n b) = take (unat n) (contents b)"
    and "buf_size b \<le> n \<Longrightarrow> take (unat (buf_size b)) (contents (buffer_resize uninit n b)) = contents b"
  using assms
  by (auto simp: buffer_resize_def buffer_wf_def contents_def realloc_def word_le_nat_alt min_def not_le)

lemma append_buffer_contents:
  assumes "buffer_wf b" "unat k \<le> length source" "unat (buf_size b) + unat k < 2 ^ 32"
  shows "\<exists>b'. append_buffer uninit source k b = Some b' \<and> buffer_wf b'
     \<and> contents b' = contents b @ take (unat k) source"
proof -
  let ?n = "buf_size b + k"
  have n: "unat ?n = unat (buf_size b) + unat k"
    using assms(3) by (subst unat_add_lem[THEN iffD1]) auto
  let ?r = "buffer_resize uninit ?n b"
  have wf: "buffer_wf ?r" and sz: "buf_size ?r = ?n"
    using contents_resize(1)[OF assms(1)] by (auto simp: buffer_resize_def)
  have keep: "take (unat (buf_size b)) (data_ptr ?r) = contents b"
    using contents_resize(3)[OF assms(1), of ?n uninit] n sz
    by (simp add: word_le_nat_alt contents_def[of ?r] min_def)
  let ?d = "take (unat (buf_size b)) (data_ptr ?r) @ take (unat k) source @ drop (unat (buf_size b) + unat k) (data_ptr ?r)"
  have fits: "unat (buf_size b) + unat k \<le> length (data_ptr ?r)" using wf sz n by (simp add: buffer_wf_def)
  then have run: "append_buffer uninit source k b = Some (?r\<lparr>data_ptr := ?d\<rparr>)"
    using assms(2) by (simp add: append_buffer_def Let_def mem_copy_def)
  have "length (contents b) = unat (buf_size b)" using assms(1) by (simp add: contents_def buffer_wf_def min_def)
  then have "contents (?r\<lparr>data_ptr := ?d\<rparr>) = contents b @ take (unat k) source"
    unfolding contents_def[of "?r\<lparr>data_ptr := ?d\<rparr>"] using sz n assms(2) by (simp add: keep)
  moreover have "buffer_wf (?r\<lparr>data_ptr := ?d\<rparr>)"
    using fits sz n assms(2) by (auto simp: buffer_wf_def)
  ultimately show ?thesis using run by blast
qed

subsection \<open>Properties\<close>

text \<open>A byte buffer written to a stream (a 32-bit length and then its bytes) and read back from
  the same position is restored, at any bit alignment.\<close>

theorem byte_buffer_round_trip:
  assumes "stream_wf st" "buffer_exact b" "32 + 8 * length (data_ptr b) \<le> room st"
  shows "\<exists>r st' r' st''. write_byte_buffer b st = Some (r, st')
     \<and> read_byte_buffer uninit len0 (st'\<lparr>bit_num := bit_num st\<rparr>) = Some (r', b, st'')
     \<and> rbits st'' = rbits st'"
  using bb.round_trip[OF assms(1,2), where uninit = uninit and ?len0.0 = len0] assms(3) by simp

theorem byte_buffer_round_trip_witness:
  "\<exists>r st' r' st''. write_byte_buffer \<lparr>data_ptr = [7, 8], buf_size = 2\<rparr> (init_stream (replicate 8 0) 3 64) = Some (r, st')
     \<and> read_byte_buffer (\<lambda>_. 0) 99 (st'\<lparr>bit_num := 3\<rparr>) = Some (r', \<lparr>data_ptr = [7, 8], buf_size = 2\<rparr>, st'')
     \<and> rbits st'' = rbits st'"
  using byte_buffer_round_trip[of "init_stream (replicate 8 0) 3 64" "\<lparr>data_ptr = [7, 8], buf_size = 2\<rparr>" "\<lambda>_. 0" 99]
  by (simp add: init_stream_def stream_wf_def room_def buffer_exact_def)



text \<open>\<^verbatim>\<open>byte_buffer::append_buffer\<close>: as long as the sum of the sizes is below \<open>2 ^ 32\<close>, the
  contents become the old contents followed by the appended bytes.\<close>

theorem append_buffer_appends:
  assumes "buffer_wf b" "unat k \<le> length source" "unat (buf_size b) + unat k < 2 ^ 32"
  shows "\<exists>b'. append_buffer uninit source k b = Some b' \<and> buffer_wf b'
     \<and> contents b' = contents b @ take (unat k) source"
  by (rule append_buffer_contents[OF assms])

theorem append_buffer_appends_witness:
  "\<exists>b'. append_buffer (\<lambda>_. 9) [4, 5, 6] 2 \<lparr>data_ptr = [1, 2, 3], buf_size = 2\<rparr> = Some b' \<and> buffer_wf b'
     \<and> contents b' = [1, 2, 4, 5]"
  using append_buffer_appends[of "\<lparr>data_ptr = [1, 2, 3], buf_size = 2\<rparr>" 2 "[4, 5, 6]" "\<lambda>_. 9"]
  by (simp add: buffer_wf_def contents_def)

text \<open>A stream over the front of a buffer, the rest of which is left over from before.\<close>

lemma make_stream_tail:
  assumes "unat n = length bs" "8 * length bs < 2 ^ 32"
  shows "stream_wf (make_stream (bs @ tail) n)" "rbits (make_stream (bs @ tail) n) = byte_bits bs" "whole_bytes (make_stream (bs @ tail) n)"
    "room (make_stream (bs @ tail) n) = 8 * length bs" "unat (bit_end (make_stream (bs @ tail) n)) = 8 * length bs" "bit_num (make_stream (bs @ tail) n) = 0"
    "base_ptr (make_stream (bs @ tail) n) = bs @ tail"
proof -
  have e: "unat (n * 8) = 8 * length bs" using assms unat_mult_lem[THEN iffD1, of n 8] by simp
  show wf: "stream_wf (make_stream (bs @ tail) n)" "whole_bytes (make_stream (bs @ tail) n)"
    "room (make_stream (bs @ tail) n) = 8 * length bs" "unat (bit_end (make_stream (bs @ tail) n)) = 8 * length bs" "bit_num (make_stream (bs @ tail) n) = 0"
    "base_ptr (make_stream (bs @ tail) n) = bs @ tail"
    using e by (simp_all add: make_stream_def init_stream_def stream_wf_def whole_bytes_def room_def)
  have "rbits (make_stream (bs @ tail) n) = bslice (bs @ tail) 0 (8 * length bs)"
    unfolding rbits_slice[OF wf(1)] using wf by simp
  then show "rbits (make_stream (bs @ tail) n) = byte_bits bs" using slice_byte_bits[of "length bs" "bs @ tail"] by simp
qed

lemmas make_stream_rbits = make_stream_tail[where tail = "[]", simplified]

text \<open>A stream written to its end holds exactly what was written.\<close>

lemma written_whole:
  assumes "wbits st = byte_bits bs" "length (base_ptr st) = length bs"
  shows "base_ptr st = bs"
proof -
  have "unat (bit_num st) = 8 * length bs" using arg_cong[OF assms(1), of length] by simp
  then have "byte_bits (base_ptr st) = byte_bits bs"
    using assms by (simp add: byte_bits_def wbits_def bslice_def)
  then show ?thesis by (rule byte_bits_inj)
qed

end
