(* ===== verification/Buffer_Utils.thy ===== *)
theory Buffer_Utils
  imports Base_Type_IO
begin

text \<open>
  The stateless helpers of \<^verbatim>\<open>core/cpu_endian.h\<close> and \<^verbatim>\<open>torque_sockets/buffer_utils.h\<close>: byte
  swaps, big-endian integers in buffers, hexadecimal text and the table-driven CRC.  The
  theory shows the round trips, that the CRC equals the bitwise definition, and the
  hexadecimal digits the decoder does not accept.
\<close>

subsection \<open>Endianness\<close>

definition endian_swap16 :: "uint16 \<Rightarrow> uint16" where
  "endian_swap16 value = push_bit 8 value OR drop_bit 8 value"

definition endian_swap32 :: "uint32 \<Rightarrow> uint32" where
  "endian_swap32 value =
     (push_bit 24 value AND 0xFF000000) OR (push_bit 8 value AND 0xFF0000)
     OR (drop_bit 8 value AND 0xFF00) OR (drop_bit 24 value AND 0xFF)"

text \<open>The 64-bit swap swaps both 32-bit halves and exchanges them.\<close>

definition endian_swap64 :: "uint64 \<Rightarrow> uint64" where
  "endian_swap64 value =
     (let lo = endian_swap32 (ucast value); hi = endian_swap32 (ucast (drop_bit 32 value))
      in push_bit 32 (ucast lo) OR ucast hi)"

definition buffer_to_uint32 :: "byte list \<Rightarrow> uint32" where
  "buffer_to_uint32 b = push_bit 24 (ucast (b ! 0)) OR push_bit 16 (ucast (b ! 1))
     OR push_bit 8 (ucast (b ! 2)) OR ucast (b ! 3)"

definition write_uint32_to_buffer :: "uint32 \<Rightarrow> byte list" where
  "write_uint32_to_buffer value =
     [ucast (drop_bit 24 value), ucast (drop_bit 16 value), ucast (drop_bit 8 value), ucast value]"

definition write_uint64_to_buffer :: "uint64 \<Rightarrow> byte list" where
  "write_uint64_to_buffer value =
     write_uint32_to_buffer (ucast (drop_bit 32 value)) @ write_uint32_to_buffer (ucast value)"

definition write_uint16_to_buffer :: "uint16 \<Rightarrow> byte list" where
  "write_uint16_to_buffer value = [ucast (drop_bit 8 value), ucast value]"

definition read_uint32_from_buffer :: "byte list \<Rightarrow> uint32" where
  "read_uint32_from_buffer b = push_bit 24 (ucast (b ! 0)) OR push_bit 16 (ucast (b ! 1))
     OR push_bit 8 (ucast (b ! 2)) OR ucast (b ! 3)"

definition read_uint64_from_buffer :: "byte list \<Rightarrow> uint64" where
  "read_uint64_from_buffer b =
     push_bit 32 (ucast (read_uint32_from_buffer b)) OR ucast (read_uint32_from_buffer (drop 4 b))"

definition read_uint16_from_buffer :: "byte list \<Rightarrow> uint16" where
  "read_uint16_from_buffer b = push_bit 8 (ucast (b ! 0)) OR ucast (b ! 1)"

lemma byte_lane_cases:
  assumes "t < (32 :: nat)"
  obtains "t < 8" | "8 \<le> t" "t < 16" | "16 \<le> t" "t < 24" | "24 \<le> t"
  using assms by arith

lemma read_write_uint32: "read_uint32_from_buffer (write_uint32_to_buffer v) = v"
proof (rule bit_word_eqI)
  fix t assume "t < LENGTH(32)"
  then have "t < 32" by simp
  show "bit (read_uint32_from_buffer (write_uint32_to_buffer v)) t = bit v t"
    by (rule byte_lane_cases[OF \<open>t < 32\<close>]; use \<open>t < 32\<close> in
        \<open>auto simp: read_uint32_from_buffer_def write_uint32_to_buffer_def bit_simps\<close>)
qed

lemma read_write_uint16: "read_uint16_from_buffer (write_uint16_to_buffer v) = v"
  by (rule bit_word_eqI) (auto simp: read_uint16_from_buffer_def write_uint16_to_buffer_def bit_simps)

lemma read_uint32_append: "read_uint32_from_buffer (write_uint32_to_buffer v @ bs) = v"
  using read_write_uint32[of v] by (simp add: read_uint32_from_buffer_def write_uint32_to_buffer_def)

lemma read_write_uint64: "read_uint64_from_buffer (write_uint64_to_buffer v) = v"
proof -
  have "drop 4 (write_uint64_to_buffer v) = write_uint32_to_buffer (ucast v)"
    by (simp add: write_uint64_to_buffer_def write_uint32_to_buffer_def)
  then have "read_uint64_from_buffer (write_uint64_to_buffer v)
     = push_bit 32 (ucast (ucast (drop_bit 32 v) :: uint32)) OR ucast (ucast v :: uint32)"
    by (simp add: read_uint64_from_buffer_def read_write_uint32)
      (simp add: write_uint64_to_buffer_def read_uint32_append)
  also have "\<dots> = v" by (rule bit_word_eqI) (auto simp: bit_simps)
  finally show ?thesis .
qed

lemma endian_swap16_involution: "endian_swap16 (endian_swap16 v) = v"
  by (rule bit_word_eqI) (auto simp: endian_swap16_def bit_simps)

lemma lane_masks:
  "(0xFF000000 :: uint32) = push_bit 24 (mask 8)" "(0xFF0000 :: uint32) = push_bit 16 (mask 8)"
  "(0xFF00 :: uint32) = push_bit 8 (mask 8)" "(0xFF :: uint32) = mask 8"
  by (simp_all add: mask_eq_exp_minus_1)

text \<open>The swap reverses the bytes of the integer's image.\<close>

lemma bytes_of_u32_lanes:
  "bytes_of_u32 v = [ucast v, ucast (drop_bit 8 v), ucast (drop_bit 16 v), ucast (drop_bit 24 v)]"
  by (simp add: bytes_of_u32_def upt_conv_Cons)

lemma endian_swap32_bytes: "bytes_of_u32 (endian_swap32 v) = rev (bytes_of_u32 v)"
  unfolding bytes_of_u32_lanes endian_swap32_def lane_masks rev.simps append.simps list.inject
  by (intro conjI refl; rule byte_eqI; simp add: bit_simps)

subsection \<open>Hexadecimal text\<close>

definition hex_digit :: "byte \<Rightarrow> byte" where
  "hex_digit nib = (if nib > 9 then 97 + nib - 10 else 48 + nib)"

text \<open>\<^verbatim>\<open>buffer_encode_base_16\<close>: two digits per byte and a terminating zero byte.\<close>

definition buffer_encode_base_16 :: "byte list \<Rightarrow> byte list" where
  "buffer_encode_base_16 buffer =
     concat (map (\<lambda>b. [hex_digit (drop_bit 4 b), hex_digit (b AND 15)]) buffer) @ [0]"

text \<open>The two branches of \<^verbatim>\<open>buffer_decode_base_16\<close> for one digit.  The range of capital letters in
  the source is from \<^verbatim>\<open>'A'\<close> to \<^verbatim>\<open>'A'\<close>.\<close>

definition nibble_value :: "byte \<Rightarrow> byte" where
  "nibble_value nib =
     (if 48 \<le> nib \<and> nib \<le> 57 then nib - 48
      else if 97 \<le> nib \<and> nib \<le> 102 then nib - 97 + 10
      else if 65 \<le> nib \<and> nib \<le> 65 then nib - 65 + 10
      else 0)"

fun buffer_decode_base_16 :: "byte list \<Rightarrow> byte list" where
  "buffer_decode_base_16 (nib1 # nib2 # rest) =
     (push_bit 4 (nibble_value nib1) OR nibble_value nib2) # buffer_decode_base_16 rest"
| "buffer_decode_base_16 _ = []"

lemma hex_digits: "list_all (\<lambda>n. nibble_value (hex_digit (word_of_nat n)) = word_of_nat n) [0..<16]"
  by (simp add: upt_conv_Cons hex_digit_def nibble_value_def)

lemma nibble_value_hex_digit: "unat nib < 16 \<Longrightarrow> nibble_value (hex_digit nib) = nib"
  using hex_digits word_eq_of_nat[OF refl, of nib] by (force simp: list_all_iff)

lemma nibbles:
  "unat (drop_bit 4 (b :: byte)) < 16" "unat (b AND 15 :: byte) < 16"
  "push_bit 4 (drop_bit 4 b) OR (b AND 15) = b"
proof -
  have m: "(15 :: byte) = mask 4" by (simp add: mask_eq_exp_minus_1)
  show "unat (drop_bit 4 b) < 16"
    using unsigned_less[of b, where 'a = nat] unfolding unat_drop_bit_eq by (simp add: drop_bit_eq_div less_mult_imp_div_less)
  show "unat (b AND 15) < 16"
    unfolding m take_bit_eq_mask[symmetric] unsigned_take_bit_eq by (simp add: take_bit_eq_mod)
  show "push_bit 4 (drop_bit 4 b) OR (b AND 15) = b"
    unfolding m by (rule bit_word_eqI) (auto simp: bit_simps)
qed

lemma decode_encode_base_16: "buffer_decode_base_16 (buffer_encode_base_16 buffer) = buffer"
proof -
  have "buffer_decode_base_16 (concat (map (\<lambda>b. [hex_digit (drop_bit 4 b), hex_digit (b AND 15)]) buffer) @ [0]) = buffer"
    by (induction buffer) (simp_all add: nibble_value_hex_digit nibbles)
  then show ?thesis by (simp add: buffer_encode_base_16_def)
qed

subsection \<open>CRC-32\<close>

definition crc_step :: "uint32 \<Rightarrow> uint32" where
  "crc_step val = (if bit val 0 then 0xedb88320 XOR drop_bit 1 val else drop_bit 1 val)"

definition crc_table :: "uint32 list" where
  "crc_table = map (\<lambda>i. (crc_step ^^ 8) (word_of_nat i)) [0..<256]"

fun buffer_calculate_crc :: "byte list \<Rightarrow> uint32 \<Rightarrow> uint32" where
  "buffer_calculate_crc [] crcVal = crcVal"
| "buffer_calculate_crc (b # bs) crcVal =
     buffer_calculate_crc bs
       (crc_table ! unat ((crcVal XOR ucast b) AND 0xff) XOR drop_bit 8 crcVal)"

text \<open>The reference: one polynomial division step per bit.\<close>

fun crc_bitwise :: "byte list \<Rightarrow> uint32 \<Rightarrow> uint32" where
  "crc_bitwise [] c = c"
| "crc_bitwise (b # bs) c = crc_bitwise bs ((crc_step ^^ 8) (c XOR ucast b))"

lemma crc_step_xor: "crc_step (a XOR b) = crc_step a XOR crc_step b"
  by (cases "bit a 0"; cases "bit b 0") (simp_all add: crc_step_def bit_xor_iff ac_simps)

lemma crc_steps_xor: "(crc_step ^^ n) (a XOR b) = (crc_step ^^ n) a XOR (crc_step ^^ n) b"
  by (induction n) (simp_all add: crc_step_xor)

lemma crc_steps_high: "(\<And>t. t < n \<Longrightarrow> \<not> bit a t) \<Longrightarrow> (crc_step ^^ n) a = drop_bit n a"
proof (induction n arbitrary: a)
  case 0
  then show ?case by simp
next
  case (Suc n)
  have "(crc_step ^^ n) a = drop_bit n a" using Suc by simp
  moreover have "\<not> bit (drop_bit n a) 0" using Suc.prems[of n] by (simp add: bit_drop_bit_eq)
  ultimately show ?case by (simp add: crc_step_def[of "drop_bit n a"])
qed

lemma crc_byte:
  "crc_table ! unat ((c XOR ucast b) AND 0xff) XOR drop_bit 8 c = (crc_step ^^ 8) (c XOR ucast (b :: byte))"
proof -
  define x where "x = c XOR ucast b"
  define lo hi where "lo = x AND mask 8" and "hi = x AND NOT (mask 8)"
  have m: "(0xff :: uint32) = mask 8" by (simp add: mask_eq_exp_minus_1)
  have x: "x = lo XOR hi" by (rule bit_word_eqI) (auto simp: lo_def hi_def bit_simps)
  have lt: "unat lo < 256"
    unfolding lo_def take_bit_eq_mask[symmetric] unsigned_take_bit_eq by (simp add: take_bit_eq_mod)
  have tab: "crc_table ! unat lo = (crc_step ^^ 8) lo"
    using lt by (simp add: crc_table_def)
  have "(crc_step ^^ 8) hi = drop_bit 8 hi" by (rule crc_steps_high) (simp add: hi_def bit_simps)
  also have "drop_bit 8 hi = drop_bit 8 c"
    by (rule bit_word_eqI) (auto simp: hi_def x_def bit_simps dest: bit_imp_le_length)
  finally have "(crc_step ^^ 8) x = (crc_step ^^ 8) lo XOR drop_bit 8 c" by (simp add: x crc_steps_xor)
  then show ?thesis unfolding m using tab by (simp add: x_def lo_def)
qed

lemma buffer_calculate_crc_eq: "buffer_calculate_crc bs c = crc_bitwise bs c"
  by (induction bs arbitrary: c) (simp_all only: buffer_calculate_crc.simps crc_bitwise.simps crc_byte)

lemma crc_append: "buffer_calculate_crc (xs @ ys) c = buffer_calculate_crc ys (buffer_calculate_crc xs c)"
  by (induction xs arbitrary: c) simp_all

subsection \<open>Properties\<close>

text \<open>C15. The table-driven \<^verbatim>\<open>buffer_calculate_crc\<close> computes the bit-serial CRC with the reflected
  polynomial \<^verbatim>\<open>0xedb88320\<close>, for every buffer and every starting value.\<close>

theorem crc_table_driven: "buffer_calculate_crc buffer crcVal = crc_bitwise buffer crcVal"
  by (rule buffer_calculate_crc_eq)

text \<open>Hexadecimal text decodes to the bytes it encodes.\<close>

theorem base_16_round_trip: "buffer_decode_base_16 (buffer_encode_base_16 buffer) = buffer"
  by (rule decode_encode_base_16)

end
