(* ===== verification/Symmetric_Cipher.thy ===== *)
theory Symmetric_Cipher
  imports Buffer_Utils
begin

text \<open>
  \<^verbatim>\<open>torque_sockets/symmetric_cipher.h\<close> and the two functions of \<^verbatim>\<open>buffer_utils.h\<close> that protect
  a packet: append a digest and encrypt, decrypt and check the digest.  The block cipher
  (\<^verbatim>\<open>rijndael_setup\<close> and \<^verbatim>\<open>rijndael_ecb_encrypt\<close>) and SHA-256 belong to the vendored libtomcrypt;
  here they are the parameters \<open>ecb key block\<close> and \<open>sha256\<close>.
  Shown: decryption inverts encryption from the same state, the pad invariant, encryption of a
  message in pieces, and that a protected packet is accepted and restored by its receiver.
\<close>

type_synonym block_fun = "byte list \<Rightarrow> byte list \<Rightarrow> byte list"

record symmetric_cipher =
  sc_counter :: "byte list"
  sc_init_vector :: "byte list"
  sc_pad :: "byte list"
  sc_key :: "byte list"
  sc_pad_len :: nat

definition block_size :: nat where "block_size = 16"
definition key_size :: nat where "key_size = 16"

definition cipher_of_key :: "block_fun \<Rightarrow> byte list \<Rightarrow> byte list \<Rightarrow> symmetric_cipher" where
  "cipher_of_key ecb key init_vector =
     \<lparr>sc_counter = init_vector, sc_init_vector = init_vector, sc_pad = ecb key init_vector,
      sc_key = key, sc_pad_len = 0\<rparr>"

text \<open>The constructor from a shared secret: any secret that is not 32 bytes gives the all-zero
  key and vector; a null pointer is dereferenced, which is the trap \<open>None\<close>.\<close>

definition cipher_of_secret :: "block_fun \<Rightarrow> byte_buffer option \<Rightarrow> symmetric_cipher option" where
  "cipher_of_secret ecb secret = do {
     b \<leftarrow> secret;
     Some (if unat (buf_size b) \<noteq> key_size * 2
           then cipher_of_key ecb (replicate key_size 0) (replicate block_size 0)
           else cipher_of_key ecb (take key_size (data_ptr b))
                  (take block_size (drop key_size (data_ptr b)))) }"

definition get_init_vector :: "symmetric_cipher \<Rightarrow> byte list" where
  "get_init_vector c = sc_init_vector c"

definition setup_counter ::
    "block_fun \<Rightarrow> uint32 \<Rightarrow> uint32 \<Rightarrow> uint32 \<Rightarrow> uint32 \<Rightarrow> symmetric_cipher \<Rightarrow> symmetric_cipher" where
  "setup_counter ecb v1 v2 v3 v4 c =
     (let iv = sc_init_vector c;
          counter = bytes_of_u32 (buffer_to_uint32 iv + v1)
                  @ bytes_of_u32 (buffer_to_uint32 (drop 4 iv) + v2)
                  @ bytes_of_u32 (buffer_to_uint32 (drop 8 iv) + v3)
                  @ bytes_of_u32 (buffer_to_uint32 (drop 12 iv) + v4)
      in c\<lparr>sc_counter := counter, sc_pad := ecb (sc_key c) counter, sc_pad_len := 0\<rparr>)"

text \<open>The test at the head of both loops: a used-up pad is encrypted into the next one.\<close>

definition refill :: "block_fun \<Rightarrow> symmetric_cipher \<Rightarrow> symmetric_cipher" where
  "refill ecb c =
     (if sc_pad_len c = block_size
      then c\<lparr>sc_pad := ecb (sc_key c) (sc_pad c), sc_pad_len := 0\<rparr> else c)"

definition feed :: "byte \<Rightarrow> symmetric_cipher \<Rightarrow> symmetric_cipher" where
  "feed encrypted_char c =
     c\<lparr>sc_pad := (sc_pad c)[sc_pad_len c := encrypted_char], sc_pad_len := sc_pad_len c + 1\<rparr>"

fun encrypt :: "block_fun \<Rightarrow> byte list \<Rightarrow> symmetric_cipher \<Rightarrow> byte list \<times> symmetric_cipher" where
  "encrypt ecb [] c = ([], c)"
| "encrypt ecb (p # ps) c =
     (let c1 = refill ecb c;
          encrypted_char = p XOR sc_pad c1 ! sc_pad_len c1;
          (es, c2) = encrypt ecb ps (feed encrypted_char c1)
      in (encrypted_char # es, c2))"

fun decrypt :: "block_fun \<Rightarrow> byte list \<Rightarrow> symmetric_cipher \<Rightarrow> byte list \<times> symmetric_cipher" where
  "decrypt ecb [] c = ([], c)"
| "decrypt ecb (e # es) c =
     (let c1 = refill ecb c;
          plain = e XOR sc_pad c1 ! sc_pad_len c1;
          (ps, c2) = decrypt ecb es (feed e c1)
      in (plain # ps, c2))"

subsection \<open>Cipher properties\<close>

definition cipher_wf :: "symmetric_cipher \<Rightarrow> bool" where
  "cipher_wf c \<longleftrightarrow> length (sc_pad c) = block_size \<and> length (sc_init_vector c) = block_size
     \<and> sc_pad_len c \<le> block_size"

definition block_law :: "block_fun \<Rightarrow> bool" where
  "block_law ecb \<longleftrightarrow> (\<forall>k b. length (ecb k b) = block_size)"

lemma decrypt_encrypt: "encrypt ecb ps c = (es, c') \<Longrightarrow> decrypt ecb es c = (ps, c')"
proof (induction ps arbitrary: c es)
  case Nil
  then show ?case by auto
next
  case (Cons p ps)
  define c1 where "c1 = refill ecb c"
  define e where "e = p XOR sc_pad c1 ! sc_pad_len c1"
  obtain es' where "encrypt ecb ps (feed e c1) = (es', c')" "es = e # es'"
    using Cons.prems by (auto simp: Let_def c1_def e_def split: prod.splits)
  with Cons.IH show ?case by (simp add: c1_def[symmetric] Let_def e_def xor.assoc)
qed

lemma encrypt_length: "length (fst (encrypt ecb ps c)) = length ps"
  by (induction ps arbitrary: c) (auto simp: Let_def split: prod.splits, metis fst_conv)

lemma decrypt_length: "length (fst (decrypt ecb ps c)) = length ps"
  by (induction ps arbitrary: c) (auto simp: Let_def split: prod.splits, metis fst_conv)

lemma encrypt_append:
  "encrypt ecb (xs @ ys) c =
     (let (es, c1) = encrypt ecb xs c; (fs, c2) = encrypt ecb ys c1 in (es @ fs, c2))"
  by (induction xs arbitrary: c) (simp_all add: Let_def split: prod.splits)

lemma refill_wf: "block_law ecb \<Longrightarrow> cipher_wf c \<Longrightarrow> cipher_wf (refill ecb c) \<and> sc_pad_len (refill ecb c) < block_size"
  by (auto simp: refill_def cipher_wf_def block_law_def block_size_def)

lemma feed_wf: "cipher_wf c \<Longrightarrow> sc_pad_len c < block_size \<Longrightarrow> cipher_wf (feed e c)"
  by (auto simp: feed_def cipher_wf_def)

lemma encrypt_wf:
  assumes "block_law ecb" "cipher_wf c"
  shows "cipher_wf (snd (encrypt ecb ps c))"
  using assms(2)
  by (induction ps arbitrary: c)
    (auto simp: Let_def split: prod.splits, metis assms(1) feed_wf refill_wf snd_conv)

lemma setup_counter_wf: "block_law ecb \<Longrightarrow> cipher_wf c \<Longrightarrow> cipher_wf (setup_counter ecb a b d e c)"
  by (auto simp: setup_counter_def cipher_wf_def block_law_def Let_def)

text \<open>What a cipher does depends on its key and vector only once the counter is set: two ends
  that share both and set the same counter encrypt alike.\<close>

lemma setup_counter_agree:
  assumes "sc_key c = sc_key d" "sc_init_vector c = sc_init_vector d"
  shows "setup_counter ecb v1 v2 v3 v4 c = setup_counter ecb v1 v2 v3 v4 d"
  using assms by (simp add: setup_counter_def Let_def)

subsection \<open>Protecting a packet\<close>

definition bit_stream_hash_and_encrypt ::
    "(byte list \<Rightarrow> byte list) \<Rightarrow> block_fun \<Rightarrow> bit_stream \<Rightarrow> uint32 \<Rightarrow> uint32 \<Rightarrow> symmetric_cipher
     \<Rightarrow> (bit_stream \<times> symmetric_cipher) option" where
  "bit_stream_hash_and_encrypt sha256 ecb st digest_size encrypt_start c = do {
     let digest_start = get_next_byte_position st;
     let st1 = set_byte_position digest_start st;
     assert (unat digest_start \<le> length (base_ptr st1));
     let hash = sha256 (take (unat digest_start) (base_ptr st1));
     (_, st2) \<leftarrow> write_bytes st1 hash digest_size;
     let start = unat encrypt_start;
     let n = unat (get_next_byte_position st2 - encrypt_start);
     assert (start + n \<le> length (base_ptr st2));
     let (es, c') = encrypt ecb (take n (drop start (base_ptr st2))) c;
     Some (st2\<lparr>base_ptr := take start (base_ptr st2) @ es @ drop (start + n) (base_ptr st2)\<rparr>, c') }"

definition bit_stream_decrypt_and_check_hash ::
    "(byte list \<Rightarrow> byte list) \<Rightarrow> block_fun \<Rightarrow> bit_stream \<Rightarrow> uint32 \<Rightarrow> uint32 \<Rightarrow> symmetric_cipher
     \<Rightarrow> (bool \<times> bit_stream \<times> symmetric_cipher) option" where
  "bit_stream_decrypt_and_check_hash sha256 ecb st digest_size decrypt_start c =
     (let buffer_size = get_stream_byte_size st in
      if buffer_size < decrypt_start + digest_size then Some (False, st, c)
      else do {
        let start = unat decrypt_start;
        let n = unat (buffer_size - decrypt_start);
        assert (start + n \<le> length (base_ptr st));
        let (ps, c') = decrypt ecb (take n (drop start (base_ptr st))) c;
        let buffer = take start (base_ptr st) @ ps @ drop (start + n) (base_ptr st);
        let signed = unat (buffer_size - digest_size);
        let hash = sha256 (take signed buffer);
        let ret = (take (unat digest_size) (drop signed buffer) = take (unat digest_size) hash);
        let st' = st\<lparr>base_ptr := buffer\<rparr>;
        Some (ret, if ret then set_stream_byte_size (buffer_size - digest_size) st' else st', c') })"

lemma round_up_aligned: "unat (w :: uint32) = 8 * k \<Longrightarrow> unat (drop_bit 3 (w + 7)) = k"
proof -
  assume w: "unat w = 8 * k"
  have "k < 536870912" using unat_less_32[of w] unfolding w by simp
  then have "unat (w + 7) = 8 * k + 7" using w by (subst unat_add_lem[THEN iffD1]) auto
  then show ?thesis by (simp add: unat_drop3)
qed

text \<open>The digest goes to the next byte boundary, after the bytes written so far.\<close>

lemma write_digest:
  assumes wf: "stream_wf st" and ds: "ds = get_next_byte_position st"
    and fits: "8 * (unat ds + unat d) \<le> unat (bit_end st)" and d: "unat d \<le> length hash"
  shows "\<exists>st2. write_bytes (set_byte_position ds st) hash d = Some (d, st2)
     \<and> take (unat ds + unat d) (base_ptr st2) = take (unat ds) (base_ptr st) @ take (unat d) hash
     \<and> get_next_byte_position st2 = ds + d \<and> unat (ds + d) = unat ds + unat d
     \<and> length (base_ptr st2) = length (base_ptr st) \<and> bit_end st2 = bit_end st"
proof -
  note w = stream_wfD[OF wf]
  let ?st = "set_byte_position ds st"
  have lt: "8 * unat ds < 2 ^ 32" and lt': "8 * (unat ds + unat d) < 2 ^ 32" using fits w by auto
  have pos: "unat (bit_num ?st) = 8 * unat ds" using lt by (simp add: set_byte_position_def unat_push3)
  have frame: "base_ptr ?st = base_ptr st" "bit_end ?st = bit_end st" by (simp_all add: set_byte_position_def)
  have wf1: "stream_wf ?st" using fits w pos frame by (simp add: stream_wf_def word_le_nat_alt)
  have "8 * unat d \<le> room ?st" using fits pos frame by (simp add: room_def)
  from write_bytes_wbits[OF wf1 this d] obtain st2 where
    w2: "write_bytes ?st hash d = Some (d, st2)" "stream_wf st2" "same_frame ?st st2"
      "wbits st2 = wbits ?st @ byte_bits (take (unat d) hash)" by blast
  have len: "length (base_ptr st2) = length (base_ptr st)" "bit_end st2 = bit_end st"
    using w2(3) frame by (simp_all add: same_frame_def)
  have sum: "unat (ds + d) = unat ds + unat d" using lt' by (subst unat_add_lem[THEN iffD1]) auto
  have pos2: "unat (bit_num st2) = 8 * (unat ds + unat d)"
    using arg_cong[OF w2(4), of length] pos d by simp
  have in_b: "unat ds + unat d \<le> length (base_ptr st)" using order_trans[OF fits w(2)] by simp
  have "byte_bits (take (unat ds + unat d) (base_ptr st2)) =
      byte_bits (take (unat ds) (base_ptr st) @ take (unat d) hash)"
    using w2(4) in_b len pos pos2 frame
    by (simp add: wbits_slice slice_byte_bits[symmetric] del: mult_Suc_right)
  then have "take (unat ds + unat d) (base_ptr st2) = take (unat ds) (base_ptr st) @ take (unat d) hash"
    by (rule byte_bits_inj)
  moreover have "get_next_byte_position st2 = ds + d"
    using round_up_aligned[OF pos2] by (simp add: get_next_byte_position_def word_unat_eq_iff sum)
  ultimately show ?thesis using w2(1) sum len by blast
qed

text \<open>The receiver's stream is the datagram: the bytes up to the end of the digest.\<close>

lemma decrypt_accepts:
  assumes enc: "encrypt ecb (drop s body) c = (es, c')" and s: "s \<le> length body"
    and body: "body = msg @ take d (sha256 msg)" and d: "d \<le> length (sha256 msg)" "unat dw = d"
    and sw: "unat sw = s" "s \<le> length msg" and n: "unat n = length body" "8 * length body < 2 ^ 32"
  shows "\<exists>r. bit_stream_decrypt_and_check_hash sha256 ecb (make_stream (take s body @ es) n) dw sw c = Some (True, r, c')
     \<and> base_ptr r = body \<and> unat (get_stream_byte_size r) = length msg \<and> bit_num r = 0"
proof -
  let ?st = "make_stream (take s body @ es) n"
  have les: "length es = length body - s" using encrypt_length[of ecb "drop s body" c] enc by simp
  have lb: "length body = length msg + d" using body d by simp
  have un: "unat (n * 8) = 8 * length body" using n by (simp add: unat_word_ariths)
  have size: "get_stream_byte_size ?st = n"
    using round_up_aligned[OF un] by (simp add: get_stream_byte_size_def make_stream_def init_stream_def word_unat_eq_iff n)
  have sum: "unat (sw + dw) = s + d" using sw d lb n by (subst unat_add_lem[THEN iffD1]) auto
  have ge: "\<not> n < sw + dw" using sum sw lb n by (simp add: word_less_nat_alt)
  have un1: "unat (n - sw) = length body - s" using sw n s by (simp add: unat_sub word_le_nat_alt)
  have un2: "unat (n - dw) = length msg" using d n lb by (simp add: unat_sub word_le_nat_alt)
  have dec: "decrypt ecb es c = (drop s body, c')" by (rule decrypt_encrypt[OF enc])
  have "unat ((n - dw) * 8) = 8 * length msg" using un2 lb n unat_mult_lem[THEN iffD1, of "n - dw" 8] by simp
  then have un3: "unat (drop_bit 3 ((n - dw) * 8 + 7)) = length msg" by (rule round_up_aligned)
  have "base_ptr ?st = take s body @ es" "bit_num ?st = 0"
    by (simp_all add: make_stream_def init_stream_def)
  moreover have "take (length msg) body = msg" "take d (drop (length msg) body) = take d (sha256 msg)"
    using body d by simp_all
  moreover have "take s body @ take (length msg - s) (drop s body) = msg"
    using sw(2) by (simp add: body)
  moreover have "take s body @ drop s body = body" by simp
  ultimately have "bit_stream_decrypt_and_check_hash sha256 ecb ?st dw sw c =
      Some (True, set_stream_byte_size (n - dw) (?st\<lparr>base_ptr := body\<rparr>), c')"
    unfolding bit_stream_decrypt_and_check_hash_def size Let_def if_not_P[OF ge] sw(1) d(2) un1 un2
    using s sw(2) les by (simp add: dec)
  then show ?thesis
    using un3 by (simp add: set_stream_byte_size_def get_stream_byte_size_def make_stream_def init_stream_def)
qed

lemma protected_packet:
  assumes wf: "stream_wf st" and ds: "ds = get_next_byte_position st"
    and fits: "8 * (unat ds + unat d) \<le> unat (bit_end st)"
    and d: "unat d \<le> length (sha256 (take (unat ds) (base_ptr st)))" and s: "start \<le> ds"
  shows "\<exists>st' c' n r. bit_stream_hash_and_encrypt sha256 ecb st d start c = Some (st', c')
     \<and> n = get_next_byte_position st' \<and> unat n = unat ds + unat d
     \<and> take (unat start) (base_ptr st') = take (unat start) (base_ptr st)
     \<and> bit_stream_decrypt_and_check_hash sha256 ecb (make_stream (take (unat n) (base_ptr st')) n) d start c
         = Some (True, r, c')
     \<and> take (unat ds) (base_ptr r) = take (unat ds) (base_ptr st)
     \<and> unat (get_stream_byte_size r) = unat ds \<and> bit_num r = 0"
proof -
  note w = stream_wfD[OF wf]
  let ?msg = "take (unat ds) (base_ptr st)" and ?s = "unat start"
  obtain st2 where w2: "write_bytes (set_byte_position ds st) (sha256 ?msg) d = Some (d, st2)"
    "take (unat ds + unat d) (base_ptr st2) = ?msg @ take (unat d) (sha256 ?msg)"
    "get_next_byte_position st2 = ds + d" "unat (ds + d) = unat ds + unat d"
    "length (base_ptr st2) = length (base_ptr st)"
    using write_digest[OF wf ds fits d] by blast
  let ?body = "take (unat ds + unat d) (base_ptr st2)"
  have in_b: "unat ds + unat d \<le> length (base_ptr st)" using order_trans[OF fits w(2)] by simp
  have lm: "length ?msg = unat ds" using in_b by simp
  have lb: "length ?body = unat ds + unat d" using in_b w2(5) by simp
  have s': "?s \<le> unat ds" using s by (simp add: word_le_nat_alt)
  obtain es c' where enc: "encrypt ecb (drop ?s ?body) c = (es, c')" by fastforce
  have les: "length es = unat ds + unat d - ?s" using encrypt_length[of ecb "drop ?s ?body" c] enc lb by simp
  have un: "unat (ds + d - start) = unat ds + unat d - ?s"
    using s' w2(4) by (simp add: unat_sub word_le_nat_alt)
  let ?st' = "st2\<lparr>base_ptr := take ?s (base_ptr st2) @ es @ drop (unat ds + unat d) (base_ptr st2)\<rparr>"
  have "drop ?s ?body = take (unat ds + unat d - ?s) (drop ?s (base_ptr st2))" by (simp add: drop_take)
  then have run: "bit_stream_hash_and_encrypt sha256 ecb st d start c = Some (?st', c')"
    using w2 enc s' in_b lm un ds[symmetric]
    by (simp add: bit_stream_hash_and_encrypt_def Let_def set_byte_position_def)
  have pos: "get_next_byte_position ?st' = ds + d" using w2(3) by (simp add: get_next_byte_position_def)
  have pkt: "take (unat (ds + d)) (base_ptr ?st') = take ?s ?body @ es"
    using les s' in_b w2(4,5) by (simp add: min_absorb1)
  obtain r where r: "bit_stream_decrypt_and_check_hash sha256 ecb (make_stream (take ?s ?body @ es) (ds + d)) d start c
      = Some (True, r, c')" "base_ptr r = ?body" "unat (get_stream_byte_size r) = length ?msg" "bit_num r = 0"
    using decrypt_accepts[where n = "ds + d" and ?sha256.0 = sha256, OF enc _ w2(2) d refl refl] s' lm lb w2(4,5) fits w(3) in_b by auto
  have "take ?s (base_ptr ?st') = take ?s (base_ptr st)"
  proof -
    have "take ?s (base_ptr ?st') = take ?s ?body" using s' in_b w2(5) by (simp add: min_def)
    then show ?thesis using w2(2) s' lm by (simp add: min_def)
  qed
  moreover have "take (unat ds) (base_ptr r) = ?msg" using r(2) w2(2) lm by simp
  moreover note r(1)[folded pkt] r(3)[unfolded lm]
  ultimately show ?thesis using run pos[symmetric] r(4) w2(4) by blast
qed

subsection \<open>Properties\<close>

text \<open>C17. A protected packet: \<^verbatim>\<open>bit_stream_hash_and_encrypt\<close> succeeds when the digest fits, leaves the
  bytes before \<open>start\<close> in the clear, and the datagram it leaves is accepted by
  \<^verbatim>\<open>bit_stream_decrypt_and_check_hash\<close> with a cipher in the same state, which restores the
  signed bytes, cuts the digest off and ends with the sender's cipher state.\<close>

theorem protected_packet_accepted:
  assumes "stream_wf st" "ds = get_next_byte_position st"
    and "8 * (unat ds + unat d) \<le> unat (bit_end st)"
    and "unat d \<le> length (sha256 (take (unat ds) (base_ptr st)))" "start \<le> ds"
  shows "\<exists>st' c' n r. bit_stream_hash_and_encrypt sha256 ecb st d start c = Some (st', c')
     \<and> n = get_next_byte_position st' \<and> unat n = unat ds + unat d
     \<and> take (unat start) (base_ptr st') = take (unat start) (base_ptr st)
     \<and> bit_stream_decrypt_and_check_hash sha256 ecb (make_stream (take (unat n) (base_ptr st')) n) d start c
         = Some (True, r, c')
     \<and> take (unat ds) (base_ptr r) = take (unat ds) (base_ptr st)
     \<and> unat (get_stream_byte_size r) = unat ds \<and> bit_num r = 0"
  using assms by (rule protected_packet)

theorem protected_packet_accepted_witness:
  "\<exists>st' c' n r. bit_stream_hash_and_encrypt (\<lambda>m. [sum_list m, 1]) (\<lambda>k b. map (\<lambda>x. x + 3) b)
        (init_stream [10, 20, 30, 0, 0, 0] 21 48) 2 1 (cipher_of_key (\<lambda>k b. map (\<lambda>x. x + 3) b) [] (replicate 16 5)) = Some (st', c')
     \<and> n = get_next_byte_position st' \<and> unat n = 5 \<and> take 1 (base_ptr st') = [10]
     \<and> bit_stream_decrypt_and_check_hash (\<lambda>m. [sum_list m, 1]) (\<lambda>k b. map (\<lambda>x. x + 3) b)
         (make_stream (take (unat n) (base_ptr st')) n) 2 1
         (cipher_of_key (\<lambda>k b. map (\<lambda>x. x + 3) b) [] (replicate 16 5)) = Some (True, r, c')
     \<and> take 3 (base_ptr r) = [10, 20, 30] \<and> unat (get_stream_byte_size r) = 3 \<and> bit_num r = 0"
  using protected_packet_accepted[of "init_stream [10, 20, 30, 0, 0, 0] 21 48" 3 2 "\<lambda>m. [sum_list m, 1]" 1
      "\<lambda>k b. map (\<lambda>x. x + 3) b" "cipher_of_key (\<lambda>k b. map (\<lambda>x. x + 3) b) [] (replicate 16 5)"]
  by (simp add: init_stream_def stream_wf_def get_next_byte_position_def drop_bit_eq_div)

text \<open>\<^verbatim>\<open>decrypt\<close> inverts \<^verbatim>\<open>encrypt\<close> byte by byte from the same cipher state, for messages of
  any length and any position in the pad, and both ends stay in the same state.\<close>

theorem decrypt_inverts_encrypt:
  "decrypt ecb (fst (encrypt ecb plain_text c)) c = (plain_text, snd (encrypt ecb plain_text c))"
  by (rule decrypt_encrypt) simp

end
