(* ===== verification/Linked_List.thy ===== *)
theory Linked_List
  imports Prelude
begin

text \<open>
  Singly linked lists in a store of nodes: a node is reached by its address, \<open>nxt\<close> reads its link.
  The event queue, the list of pending connections and the list of delayed packets of the program
  are such lists.  A walk that reaches a freed node or goes round a cycle has no result
  (\<open>None\<close>); \<open>chain\<close> is the shape in which it has one.
\<close>

type_synonym ptr = nat

fun chain :: "('n \<Rightarrow> ptr option) \<Rightarrow> (ptr \<rightharpoonup> 'n) \<Rightarrow> ptr option \<Rightarrow> ptr list \<Rightarrow> bool" where
  "chain nxt h None ps \<longleftrightarrow> ps = []"
| "chain nxt h (Some p) [] \<longleftrightarrow> False"
| "chain nxt h (Some p) (q # qs) \<longleftrightarrow> p = q \<and> (\<exists>n. h p = Some n \<and> chain nxt h (nxt n) qs)"

text \<open>\<^verbatim>\<open>for(walk = start; walk; walk = walk->next) if(P(walk)) return walk;\<close>\<close>

partial_function (option) find_node ::
    "('n \<Rightarrow> ptr option) \<Rightarrow> (ptr \<rightharpoonup> 'n) \<Rightarrow> ('n \<Rightarrow> bool) \<Rightarrow> ptr option \<Rightarrow> ptr option option" where
  "find_node nxt h P start = (case start of None \<Rightarrow> Some None
     | Some p \<Rightarrow> (case h p of None \<Rightarrow> None
         | Some n \<Rightarrow> if P n then Some (Some p) else find_node nxt h P (nxt n)))"

lemma chain_Nil [simp]: "chain nxt h start [] \<longleftrightarrow> start = None"
  by (cases start) auto

lemma chain_Cons: "chain nxt h start (p # ps) \<longleftrightarrow> start = Some p \<and> (\<exists>n. h p = Some n \<and> chain nxt h (nxt n) ps)"
  by (cases start) auto

lemma chain_unique: "chain nxt h start ps \<Longrightarrow> chain nxt h start qs \<Longrightarrow> ps = qs"
  by (induction ps arbitrary: start qs; rename_tac qs; case_tac qs) (auto simp: chain_Cons)

lemma chain_dom: "chain nxt h start ps \<Longrightarrow> set ps \<subseteq> dom h"
  by (induction ps arbitrary: start) (auto simp: chain_Cons)

lemma chain_cong:
  assumes "chain nxt h start ps" "\<And>p. p \<in> set ps \<Longrightarrow> map_option nxt (h' p) = map_option nxt (h p)"
  shows "chain nxt h' start ps"
  using assms
proof (induction ps arbitrary: start)
  case Nil
  then show ?case by simp
next
  case (Cons p ps)
  from Cons.prems obtain n where n: "start = Some p" "h p = Some n" "chain nxt h (nxt n) ps"
    by (auto simp: chain_Cons)
  moreover from Cons.prems(2)[of p] n(2) obtain n' where "h' p = Some n'" "nxt n' = nxt n" by auto
  ultimately show ?case using Cons.IH[of "nxt n"] Cons.prems(2) by (auto simp: chain_Cons)
qed

lemma chain_other [simp]:
  "chain nxt h start ps \<Longrightarrow> q \<notin> set ps \<Longrightarrow> chain nxt (h(q := v)) start ps"
  by (erule chain_cong) auto

text \<open>The walk over a chain finds the first node that satisfies \<open>P\<close>, and always ends.\<close>

lemma find_node_chain:
  assumes "chain nxt h start ps"
  shows "find_node nxt h P start = Some (find (\<lambda>p. P (the (h p))) ps)"
  using assms by (induction ps arbitrary: start) (auto simp: chain_Cons find_node.simps)

text \<open>Linking a new last node.\<close>

lemma chain_snoc:
  assumes "chain nxt h start ps" "ps \<noteq> []" "distinct (ps @ [q])" "h (last ps) = Some l"
    and "nxt l' = Some q" "nxt n = None"
  shows "chain nxt (h(last ps \<mapsto> l', q \<mapsto> n)) start (ps @ [q])"
  using assms
proof (induction ps arbitrary: start)
  case Nil
  then show ?case by simp
next
  case (Cons p ps)
  then show ?case by (cases "ps = []") (auto simp: chain_Cons)
qed

lemma chain_last:
  "chain nxt h start ps \<Longrightarrow> ps \<noteq> [] \<Longrightarrow> \<exists>l. h (last ps) = Some l \<and> nxt l = None"
  by (induction ps arbitrary: start) (auto simp: chain_Cons)

text \<open>A chain has no repeated node: a walk that meets a node twice would never end.\<close>

lemma chain_split:
  "chain nxt h start (ps @ q # qs) \<Longrightarrow> \<exists>n. h q = Some n \<and> chain nxt h (Some q) (q # qs)"
  by (induction ps arbitrary: start) (auto simp: chain_Cons)

lemma chain_distinct: "chain nxt h start ps \<Longrightarrow> distinct ps"
proof (induction ps arbitrary: start)
  case Nil
  then show ?case by simp
next
  case (Cons p ps)
  have "p \<notin> set ps"
  proof
    assume "p \<in> set ps"
    then obtain as bs where "ps = as @ p # bs" by (meson split_list)
    moreover have "chain nxt h (Some p) (p # bs)"
      using Cons.prems chain_split[of nxt h start "p # as" p bs] by (simp add: \<open>ps = as @ p # bs\<close>)
    moreover have "chain nxt h (Some p) (p # ps)" using Cons.prems by (auto simp: chain_Cons)
    ultimately have "p # bs = p # as @ p # bs" using chain_unique by metis
    then show False by simp
  qed
  with Cons show ?case by (auto simp: chain_Cons)
qed

text \<open>Unlinking a node: its predecessor takes over its link.\<close>

lemma chain_remove_head:
  "chain nxt h start (p # ps) \<Longrightarrow> \<exists>n. h p = Some n \<and> start = Some p \<and> chain nxt (h(p := None)) (nxt n) ps"
  using chain_distinct[of nxt h start "p # ps"] by (auto simp: chain_Cons)

end
