(* ===== verification/Event_Queue.thy ===== *)
theory Event_Queue
  imports Linked_List
begin

text \<open>
  \<^verbatim>\<open>torque_sockets/socket_event_queue.h\<close>: the queue through which the library hands events to its
  client.  Events and queue entries are objects of a page allocator, addressed by pointers: an event
  is posted first and its remaining fields are written through the returned pointer afterwards.
  Fields that \<^verbatim>\<open>post_event\<close> leaves uninitialised are \<open>None\<close> until they are written.
  The interface \<open>event_fifo\<close> is what the socket relies on: a first-in first-out queue.
\<close>

datatype event_type =
    torque_connection_challenge_response_event_type
  | torque_connection_requested_event_type
  | torque_connection_arranged_connection_request_event_type
  | torque_connection_accepted_event_type
  | torque_connection_timed_out_event_type
  | torque_connection_disconnected_event_type
  | torque_connection_established_event_type
  | torque_connection_packet_event_type
  | torque_connection_packet_notify_event_type
  | torque_socket_packet_event_type

text \<open>The source address of an event is the host and port that \<^verbatim>\<open>to_sockaddr\<close> stores.\<close>

record torque_socket_event =
  ev_event_type :: event_type
  ev_connection :: uint32
  ev_arranger_connection :: "uint32 option"
  ev_client_identity :: "uint32 option"
  ev_connection_token :: "uint32 option"
  ev_key_size :: uint32
  ev_key :: "byte list option"
  ev_data_size :: uint32
  ev_data :: "byte list option"
  ev_packet_sequence :: "uint32 option"
  ev_delivered :: "bool option"
  ev_source_address :: "(uint32 \<times> uint16) option"

record queue_entry =
  qe_event :: ptr
  qe_next :: "ptr option"

record socket_event_queue =
  eq_events :: "ptr \<rightharpoonup> torque_socket_event"
  eq_entries :: "ptr \<rightharpoonup> queue_entry"
  eq_tail :: "ptr option"
  eq_head :: "ptr option"
  eq_fresh :: ptr

definition empty_queue :: socket_event_queue where
  "empty_queue = \<lparr>eq_events = Map.empty, eq_entries = Map.empty, eq_tail = None, eq_head = None, eq_fresh = 0\<rparr>"

definition has_event :: "socket_event_queue \<Rightarrow> bool" where
  "has_event q \<longleftrightarrow> eq_head q \<noteq> None"

text \<open>\<^verbatim>\<open>clear\<close> frees the allocator's pages and leaves the two pointers alone.\<close>

definition queue_clear :: "socket_event_queue \<Rightarrow> socket_event_queue" where
  "queue_clear q = q\<lparr>eq_events := Map.empty, eq_entries := Map.empty\<rparr>"

definition dequeue :: "socket_event_queue \<Rightarrow> (ptr \<times> socket_event_queue) option" where
  "dequeue q = do {
     h \<leftarrow> eq_head q;
     e \<leftarrow> eq_entries q h;
     let q1 = q\<lparr>eq_head := qe_next e\<rparr>;
     Some (qe_event e, if qe_next e = None then q1\<lparr>eq_tail := None\<rparr> else q1) }"

definition new_event :: "event_type \<Rightarrow> uint32 \<Rightarrow> torque_socket_event" where
  "new_event ty connection_id =
     \<lparr>ev_event_type = ty, ev_connection = connection_id, ev_arranger_connection = None, ev_client_identity = None,
      ev_connection_token = None, ev_key_size = 0, ev_key = None, ev_data_size = 0, ev_data = None,
      ev_packet_sequence = None, ev_delivered = None, ev_source_address = None\<rparr>"

definition post_event :: "event_type \<Rightarrow> uint32 \<Rightarrow> socket_event_queue \<Rightarrow> (ptr \<times> socket_event_queue) option" where
  "post_event ty connection_id q = do {
     let ret = eq_fresh q;
     let entry = eq_fresh q + 1;
     let q1 = q\<lparr>eq_events := (eq_events q)(ret \<mapsto> new_event ty connection_id),
                eq_entries := (eq_entries q)(entry \<mapsto> \<lparr>qe_event = ret, qe_next = None\<rparr>),
                eq_fresh := eq_fresh q + 2\<rparr>;
     (case eq_tail q of
        Some t \<Rightarrow> do {
          te \<leftarrow> eq_entries q1 t;
          Some (ret, q1\<lparr>eq_entries := (eq_entries q1)(t \<mapsto> te\<lparr>qe_next := Some entry\<rparr>), eq_tail := Some entry\<rparr>) }
      | None \<Rightarrow> Some (ret, q1\<lparr>eq_head := Some entry, eq_tail := Some entry\<rparr>)) }"

text \<open>A write through an event pointer.\<close>

definition write_event :: "ptr \<Rightarrow> (torque_socket_event \<Rightarrow> torque_socket_event) \<Rightarrow> socket_event_queue \<Rightarrow> socket_event_queue option" where
  "write_event p f q = do { e \<leftarrow> eq_events q p; Some (q\<lparr>eq_events := (eq_events q)(p \<mapsto> f e)\<rparr>) }"

definition set_event_data :: "ptr \<Rightarrow> byte list \<Rightarrow> uint32 \<Rightarrow> socket_event_queue \<Rightarrow> socket_event_queue option" where
  "set_event_data p bytes n q = do {
     assert (unat n \<le> length bytes);
     write_event p (\<lambda>e. e\<lparr>ev_data_size := n, ev_data := Some (take (unat n) bytes)\<rparr>) q }"

definition set_event_key :: "ptr \<Rightarrow> byte list \<Rightarrow> uint32 \<Rightarrow> socket_event_queue \<Rightarrow> socket_event_queue option" where
  "set_event_key p bytes n q = do {
     assert (unat n \<le> length bytes);
     write_event p (\<lambda>e. e\<lparr>ev_key_size := n, ev_key := Some (take (unat n) bytes)\<rparr>) q }"

subsection \<open>The queue holds a list of events\<close>

definition event_at :: "socket_event_queue \<Rightarrow> ptr \<Rightarrow> torque_socket_event option" where
  "event_at q p = Option.bind (eq_entries q p) (\<lambda>e. eq_events q (qe_event e))"

definition queue_holds :: "socket_event_queue \<Rightarrow> torque_socket_event list \<Rightarrow> bool" where
  "queue_holds q evs \<longleftrightarrow> (\<exists>ps. chain qe_next (eq_entries q) (eq_head q) ps
     \<and> map (event_at q) ps = map Some evs
     \<and> inj_on (\<lambda>p. map_option qe_event (eq_entries q p)) (set ps)
     \<and> eq_tail q = (if ps = [] then None else Some (last ps))
     \<and> dom (eq_entries q) \<subseteq> {..<eq_fresh q} \<and> dom (eq_events q) \<subseteq> {..<eq_fresh q})"

text \<open>Posting an event and writing its remaining fields.\<close>

definition post_with :: "event_type \<Rightarrow> uint32 \<Rightarrow> (torque_socket_event \<Rightarrow> torque_socket_event)
    \<Rightarrow> socket_event_queue \<Rightarrow> socket_event_queue option" where
  "post_with ty connection_id f q = do { (p, q') \<leftarrow> post_event ty connection_id q; write_event p f q' }"


lemma queue_holds_empty [simp]: "queue_holds empty_queue []"
  by (auto simp: queue_holds_def empty_queue_def)

lemma has_event_iff: "queue_holds q evs \<Longrightarrow> has_event q \<longleftrightarrow> evs \<noteq> []"
  by (auto simp: queue_holds_def has_event_def)

lemma queue_clear_holds: "queue_holds q [] \<Longrightarrow> queue_holds (queue_clear q) []"
  by (auto simp: queue_holds_def queue_clear_def)

lemma dequeue_holds:
  assumes "queue_holds q (e # es)"
  shows "\<exists>p q'. dequeue q = Some (p, q') \<and> eq_events q' p = Some e \<and> queue_holds q' es"
proof -
  obtain ps0 where ps0: "chain qe_next (eq_entries q) (eq_head q) ps0" "map (event_at q) ps0 = map Some (e # es)"
    "inj_on (\<lambda>p. map_option qe_event (eq_entries q p)) (set ps0)" "eq_tail q = (if ps0 = [] then None else Some (last ps0))"
    "dom (eq_entries q) \<subseteq> {..<eq_fresh q}" "dom (eq_events q) \<subseteq> {..<eq_fresh q}"
    using assms unfolding queue_holds_def by blast
  then obtain p ps where ps: "ps0 = p # ps" by (cases ps0) auto
  obtain n where n: "eq_head q = Some p" "eq_entries q p = Some n" "chain qe_next (eq_entries q) (qe_next n) ps"
    using ps0(1) by (auto simp: ps chain_Cons)
  let ?q = "if qe_next n = None then q\<lparr>eq_head := qe_next n, eq_tail := None\<rparr> else q\<lparr>eq_head := qe_next n\<rparr>"
  have at: "event_at ?q = event_at q" by (auto simp: event_at_def)
  have "ps = [] \<longleftrightarrow> qe_next n = None" using n(3) by (cases ps) (auto simp: chain_Cons)
  then have "queue_holds ?q es"
    using n(3) ps0 by (auto simp: queue_holds_def ps at intro!: exI[of _ ps])
  moreover have "eq_events ?q (qe_event n) = Some e" using ps0(2) n(2) by (auto simp: ps event_at_def)
  moreover have "dequeue q = Some (qe_event n, ?q)" using n by (simp add: dequeue_def Let_def)
  ultimately show ?thesis by blast
qed

lemma write_event_twice: "Option.bind (write_event p f q) (write_event p g) = write_event p (g \<circ> f) q"
  by (cases "eq_events q p") (auto simp: write_event_def)

lemma write_event_data:
  "unat n \<le> length bytes \<Longrightarrow> set_event_data p bytes n =
     write_event p (\<lambda>e. e\<lparr>ev_data_size := n, ev_data := Some (take (unat n) bytes)\<rparr>)"
  by (simp add: set_event_data_def fun_eq_iff)

lemma write_event_key:
  "unat n \<le> length bytes \<Longrightarrow> set_event_key p bytes n =
     write_event p (\<lambda>e. e\<lparr>ev_key_size := n, ev_key := Some (take (unat n) bytes)\<rparr>)"
  by (simp add: set_event_key_def fun_eq_iff)

text \<open>The pointers of the queue after a post: the old chain, and the new entry at its end.\<close>

lemma post_event_links:
  assumes ps: "chain qe_next (eq_entries q) (eq_head q) ps" "eq_tail q = (if ps = [] then None else Some (last ps))"
    and new: "Suc (eq_fresh q) \<notin> set ps"
  shows "\<exists>es. post_event ty c q = Some (eq_fresh q, q\<lparr>eq_events := (eq_events q)(eq_fresh q \<mapsto> new_event ty c),
        eq_entries := es, eq_fresh := eq_fresh q + 2, eq_head := (if ps = [] then Some (Suc (eq_fresh q)) else eq_head q),
        eq_tail := Some (Suc (eq_fresh q))\<rparr>)
     \<and> chain qe_next es (if ps = [] then Some (Suc (eq_fresh q)) else eq_head q) (ps @ [Suc (eq_fresh q)])
     \<and> es (Suc (eq_fresh q)) = Some \<lparr>qe_event = eq_fresh q, qe_next = None\<rparr>
     \<and> dom es = insert (Suc (eq_fresh q)) (dom (eq_entries q))
     \<and> (\<forall>p \<in> set ps. map_option qe_event (es p) = map_option qe_event (eq_entries q p))"
proof (cases "ps = []")
  case True
  then show ?thesis using ps(2)
    by (intro exI[of _ "(eq_entries q)(Suc (eq_fresh q) \<mapsto> \<lparr>qe_event = eq_fresh q, qe_next = None\<rparr>)"])
      (auto simp: post_event_def Let_def)
next
  case False
  let ?n = "Suc (eq_fresh q)"
  obtain l where l: "eq_entries q (last ps) = Some l" "qe_next l = None" using chain_last[OF ps(1) False] by blast
  have "last ps \<noteq> ?n" using False new last_in_set by metis
  let ?es = "(eq_entries q)(last ps \<mapsto> l\<lparr>qe_next := Some ?n\<rparr>, ?n \<mapsto> \<lparr>qe_event = eq_fresh q, qe_next = None\<rparr>)"
  have "post_event ty c q = Some (eq_fresh q, q\<lparr>eq_events := (eq_events q)(eq_fresh q \<mapsto> new_event ty c),
      eq_entries := ?es, eq_fresh := eq_fresh q + 2, eq_tail := Some ?n\<rparr>)"
    using ps(2) False l \<open>last ps \<noteq> ?n\<close> by (simp add: post_event_def Let_def fun_upd_twist)
  moreover have "chain qe_next ?es (eq_head q) (ps @ [?n])"
    using chain_distinct[OF ps(1)] new by (intro chain_snoc[OF ps(1) False _ l(1)]) auto
  moreover have "dom ?es = insert ?n (dom (eq_entries q))" using l by auto
  moreover have "\<forall>p \<in> set ps. map_option qe_event (?es p) = map_option qe_event (eq_entries q p)"
    using new l by auto
  ultimately show ?thesis using False by (intro exI[of _ ?es]) simp
qed

text \<open>Entries whose event is older than the new one see the same event as before.\<close>

lemma event_at_old:
  assumes "event_at q p = Some e" "dom (eq_events q) \<subseteq> {..<eq_fresh q}"
    and "map_option qe_event (es p) = map_option qe_event (eq_entries q p)"
  shows "Option.bind (es p) (\<lambda>n. ((eq_events q)(eq_fresh q \<mapsto> x)) (qe_event n)) = Some e"
    and "map_option qe_event (es p) \<noteq> Some (eq_fresh q)"
proof -
  obtain n where n: "eq_entries q p = Some n" "eq_events q (qe_event n) = Some e"
    using assms(1) by (auto simp: event_at_def split: Option.bind_splits)
  then have "qe_event n < eq_fresh q" using assms(2) by blast
  with n assms(3) show "map_option qe_event (es p) \<noteq> Some (eq_fresh q)"
    and "Option.bind (es p) (\<lambda>n. ((eq_events q)(eq_fresh q \<mapsto> x)) (qe_event n)) = Some e" by auto
qed

lemma post_event_chain:
  assumes "queue_holds q evs"
  shows "\<exists>q'. post_event ty c q = Some (eq_fresh q, q') \<and> eq_events q' (eq_fresh q) = Some (new_event ty c)
     \<and> (\<forall>x. queue_holds (q'\<lparr>eq_events := (eq_events q')(eq_fresh q \<mapsto> x)\<rparr>) (evs @ [x]))"
proof -
  let ?n = "Suc (eq_fresh q)"
  obtain ps where ps: "chain qe_next (eq_entries q) (eq_head q) ps" "map (event_at q) ps = map Some evs"
    "inj_on (\<lambda>p. map_option qe_event (eq_entries q p)) (set ps)" "eq_tail q = (if ps = [] then None else Some (last ps))"
    "dom (eq_entries q) \<subseteq> {..<eq_fresh q}" and dom: "dom (eq_events q) \<subseteq> {..<eq_fresh q}"
    using assms unfolding queue_holds_def by blast
  have sub: "set ps \<subseteq> {..<eq_fresh q}" using chain_dom[OF ps(1)] ps(5) by blast
  then have "?n \<notin> set ps" by auto
  from post_event_links[OF ps(1,4) this, of ty c] obtain es where
    run: "post_event ty c q = Some (eq_fresh q, q\<lparr>eq_events := (eq_events q)(eq_fresh q \<mapsto> new_event ty c),
        eq_entries := es, eq_fresh := eq_fresh q + 2, eq_head := (if ps = [] then Some ?n else eq_head q), eq_tail := Some ?n\<rparr>)"
      (is "_ = Some (_, ?q')")
    and links: "chain qe_next es (if ps = [] then Some ?n else eq_head q) (ps @ [?n])"
      "es ?n = Some \<lparr>qe_event = eq_fresh q, qe_next = None\<rparr>" "dom es = insert ?n (dom (eq_entries q))"
    and same: "\<forall>p \<in> set ps. map_option qe_event (es p) = map_option qe_event (eq_entries q p)"
    by blast
  note ev = same[rule_format]
  have some: "\<exists>e. event_at q p = Some e" if "p \<in> set ps" for p
    using ps(2) that by (metis in_set_conv_nth length_map nth_map)
  have "inj_on (\<lambda>p. map_option qe_event (es p)) (set ps)" using ps(3) by (simp add: inj_on_def ev)
  moreover have "map_option qe_event (es p) \<noteq> Some (eq_fresh q)" if "p \<in> set ps" for p
    using some[OF that] event_at_old(2)[where es = es, OF _ dom ev[OF that]] by auto
  ultimately have inj: "inj_on (\<lambda>p. map_option qe_event (es p)) (set (ps @ [?n]))"
    using links(2) by (auto simp: inj_on_insert dest!: sym[of "Some (eq_fresh q)"])
  have "queue_holds (?q'\<lparr>eq_events := (eq_events ?q')(eq_fresh q \<mapsto> x)\<rparr>) (evs @ [x])" (is "queue_holds ?q _") for x
  proof -
    have at: "event_at ?q p = Option.bind (es p) (\<lambda>n. ((eq_events q)(eq_fresh q \<mapsto> x)) (qe_event n))" for p
      by (simp add: event_at_def)
    have "event_at ?q p = event_at q p" if "p \<in> set ps" for p
      using some[OF that] event_at_old(1)[where es = es and x = x, OF _ dom ev[OF that]] unfolding at by auto
    then have "map (event_at ?q) (ps @ [?n]) = map Some (evs @ [x])"
      using ps(2) at[of ?n] links(2) by (simp cong: map_cong)
    moreover have "dom (eq_entries ?q) \<subseteq> {..<eq_fresh ?q}" using links(3) ps(5) by auto
    moreover have "dom (eq_events ?q) \<subseteq> {..<eq_fresh ?q}" using dom by auto
    ultimately show ?thesis
      unfolding queue_holds_def using links(1) inj by (intro exI[of _ "ps @ [?n]"]) simp
  qed
  with run show ?thesis by (intro exI[of _ ?q'] conjI) simp_all
qed

lemma post_with_holds:
  assumes "queue_holds q evs"
  shows "\<exists>q'. post_with ty c f q = Some q' \<and> queue_holds q' (evs @ [f (new_event ty c)])"
  using post_event_chain[OF assms, of ty c] by (auto simp: post_with_def write_event_def)

lemma post_event_holds:
  assumes "queue_holds q evs"
  shows "\<exists>p q'. post_event ty c q = Some (p, q') \<and> queue_holds q' (evs @ [new_event ty c])"
proof -
  from post_event_chain[OF assms] obtain q' where q': "post_event ty c q = Some (eq_fresh q, q')"
    "eq_events q' (eq_fresh q) = Some (new_event ty c)"
    "queue_holds (q'\<lparr>eq_events := (eq_events q')(eq_fresh q \<mapsto> new_event ty c)\<rparr>) (evs @ [new_event ty c])" by blast
  moreover have "q'\<lparr>eq_events := (eq_events q')(eq_fresh q \<mapsto> new_event ty c)\<rparr> = q'"
    using q'(2) by (simp add: map_upd_triv)
  ultimately show ?thesis by auto
qed

subsection \<open>The interface: a first-in first-out queue\<close>

text \<open>A client posts events and takes one when there is one, in any order.\<close>

datatype 'a queue_op = Post 'a | Take

fun run_ops :: "('a \<Rightarrow> 'q \<Rightarrow> 'q option) \<Rightarrow> ('q \<Rightarrow> ('e \<times> 'q) option) \<Rightarrow> ('q \<Rightarrow> bool)
    \<Rightarrow> 'a queue_op list \<Rightarrow> 'q \<Rightarrow> ('e list \<times> 'q) option" where
  "run_ops post deq has [] q = Some ([], q)"
| "run_ops post deq has (Post a # ops) q = do { q' \<leftarrow> post a q; run_ops post deq has ops q' }"
| "run_ops post deq has (Take # ops) q =
     (if has q then do { (e, q') \<leftarrow> deq q; (es, q'') \<leftarrow> run_ops post deq has ops q'; Some (e # es, q'') }
      else run_ops post deq has ops q)"

text \<open>The same client on a list.\<close>

fun run_list :: "('a \<Rightarrow> 'e) \<Rightarrow> 'a queue_op list \<Rightarrow> 'e list \<Rightarrow> 'e list \<times> 'e list" where
  "run_list mk [] xs = ([], xs)"
| "run_list mk (Post a # ops) xs = run_list mk ops (xs @ [mk a])"
| "run_list mk (Take # ops) [] = run_list mk ops []"
| "run_list mk (Take # ops) (x # xs) = apfst ((#) x) (run_list mk ops xs)"

locale event_fifo =
  fixes holds :: "'q \<Rightarrow> 'e list \<Rightarrow> bool"
    and post :: "'a \<Rightarrow> 'q \<Rightarrow> 'q option"
    and mk :: "'a \<Rightarrow> 'e"
    and deq :: "'q \<Rightarrow> ('e \<times> 'q) option"
    and has :: "'q \<Rightarrow> bool"
  assumes post_law: "holds q xs \<Longrightarrow> \<exists>q'. post a q = Some q' \<and> holds q' (xs @ [mk a])"
    and deq_law: "holds q (x # xs) \<Longrightarrow> \<exists>q'. deq q = Some (x, q') \<and> holds q' xs"
    and has_law: "holds q xs \<Longrightarrow> has q \<longleftrightarrow> xs \<noteq> []"
begin

lemma run_refines:
  "holds q xs \<Longrightarrow> \<exists>q'. run_ops post deq has ops q = Some (fst (run_list mk ops xs), q')
     \<and> holds q' (snd (run_list mk ops xs))"
proof (induction ops arbitrary: q xs)
  case Nil
  then show ?case by auto
next
  case (Cons op ops)
  show ?case
  proof (cases op)
    case (Post a)
    obtain q' where "post a q = Some q'" "holds q' (xs @ [mk a])" using post_law[OF Cons.prems] by blast
    with Cons.IH Post show ?thesis by simp
  next
    case Take
    show ?thesis
    proof (cases xs)
      case Nil
      with Cons.IH[OF Cons.prems] has_law[OF Cons.prems] Take show ?thesis by simp
    next
      case ys: (Cons x ys)
      then obtain q' where q': "deq q = Some (x, q')" "holds q' ys" using deq_law Cons.prems ys by blast
      then show ?thesis
        using Cons.IH[OF q'(2)] has_law[OF Cons.prems] Take ys by auto
    qed
  qed
qed

end

definition take_event :: "socket_event_queue \<Rightarrow> (torque_socket_event \<times> socket_event_queue) option" where
  "take_event q = do { (p, q') \<leftarrow> dequeue q; e \<leftarrow> eq_events q' p; Some (e, q') }"

type_synonym event_post = "event_type \<times> uint32 \<times> (torque_socket_event \<Rightarrow> torque_socket_event)"

interpretation eventq: event_fifo queue_holds
  "\<lambda>(ty, c, f). post_with ty c f" "\<lambda>(ty, c, f). f (new_event ty c)" take_event has_event
proof
  show "\<exists>q'. (case a of (ty, c, f) \<Rightarrow> post_with ty c f) q = Some q'
      \<and> queue_holds q' (xs @ [case a of (ty, c, f) \<Rightarrow> f (new_event ty c)])"
    if "queue_holds q xs" for q xs and a :: event_post
    using post_with_holds[OF that] by (cases a) auto
  show "\<exists>q'. take_event q = Some (x, q') \<and> queue_holds q' xs" if "queue_holds q (x # xs)" for q x xs
    using dequeue_holds[OF that] by (auto simp: take_event_def)
qed (rule has_event_iff)

subsection \<open>Properties\<close>

text \<open>C18. The pointer-linked event queue is a first-in first-out queue: whatever sequence of posts
  (each followed by writes to the fields of its event) and removals a client performs, every
  operation succeeds and the events come out in the order, and with the contents, they have
  on a plain list.\<close>

theorem event_queue_fifo:
  "\<exists>q. run_ops (\<lambda>(ty, c, f). post_with ty c f) take_event has_event ops empty_queue
        = Some (fst (run_list (\<lambda>(ty, c, f). f (new_event ty c)) ops []), q)
     \<and> queue_holds q (snd (run_list (\<lambda>(ty, c, f). f (new_event ty c)) ops []))"
  by (rule eventq.run_refines) simp

end
