(* ===== verification/Address.thy ===== *)
theory Address
  imports Buffer_Utils
begin

text \<open>
  \<^verbatim>\<open>torque_sockets/address.h\<close>: IPv4 addresses, their text form, their \<^verbatim>\<open>SOCKADDR\<close> form and their
  wire form.  The network library calls \<^verbatim>\<open>inet_addr\<close>, \<^verbatim>\<open>gethostbyname\<close> and \<^verbatim>\<open>getifaddrs\<close> are
  parameters; hosts are little-endian, so \<^verbatim>\<open>htonl\<close> and \<^verbatim>\<open>htons\<close> are the byte swaps of
  \<^verbatim>\<open>core/cpu_endian.h\<close>.
\<close>

record address =
  host :: uint32
  port :: uint16

datatype named_address = addr_null | addr_localhost | addr_broadcast | addr_any

definition INADDR_ANY :: uint32 where "INADDR_ANY = 0"
definition INADDR_BROADCAST :: uint32 where "INADDR_BROADCAST = 0xFFFFFFFF"
definition INADDR_NONE :: uint32 where "INADDR_NONE = 0xFFFFFFFF"

fun named_host :: "named_address \<Rightarrow> uint32" where
  "named_host addr_null = 0"
| "named_host addr_localhost = 0x7f000001"
| "named_host addr_broadcast = INADDR_BROADCAST"
| "named_host addr_any = INADDR_ANY"

definition address_of_name :: "named_address \<Rightarrow> uint16 \<Rightarrow> address" where
  "address_of_name name p = \<lparr>host = named_host name, port = p\<rparr>"

subsection \<open>Text\<close>

definition digit_char :: "nat \<Rightarrow> char" where
  "digit_char d = char_of (48 + d)"

text \<open>\<^verbatim>\<open>%d\<close> of a value that is not negative.\<close>

fun dec :: "nat \<Rightarrow> string" where
  "dec n = (if n < 10 then [digit_char n] else dec (n div 10) @ [digit_char (n mod 10)])"

declare dec.simps [simp del]

definition is_digit :: "char \<Rightarrow> bool" where
  "is_digit c \<longleftrightarrow> 48 \<le> (of_char c :: nat) \<and> (of_char c :: nat) \<le> 57"

fun read_digits :: "int \<Rightarrow> string \<Rightarrow> int" where
  "read_digits acc [] = acc"
| "read_digits acc (c # cs) = (if is_digit c then read_digits (acc * 10 + (int (of_char c) - 48)) cs else acc)"

text \<open>\<^verbatim>\<open>atoi\<close>: leading white space, an optional sign, then decimal digits up to the first
  character that is not one.\<close>

definition is_space :: "char \<Rightarrow> bool" where
  "is_space c \<longleftrightarrow> (of_char c :: nat) \<in> {9, 10, 11, 12, 13, 32}"

definition atoi :: "string \<Rightarrow> int" where
  "atoi s = (case dropWhile is_space s of
      [] \<Rightarrow> 0
    | c # cs \<Rightarrow> if c = CHR ''-'' then - read_digits 0 cs
                else if c = CHR ''+'' then read_digits 0 cs else read_digits 0 (c # cs))"

definition to_string :: "address \<Rightarrow> string" where
  "to_string a =
     (if host a = INADDR_BROADCAST then ''broadcast:'' @ dec (unat (port a))
      else if host a = INADDR_ANY then ''any:'' @ dec (unat (port a))
      else if host a = 0x7f000001 then ''localhost:'' @ dec (unat (port a))
      else dec (unat (ucast (drop_bit 24 (host a)) :: byte)) @ ''.'' @ dec (unat (ucast (drop_bit 16 (host a)) :: byte))
         @ ''.'' @ dec (unat (ucast (drop_bit 8 (host a)) :: byte)) @ ''.'' @ dec (unat (ucast (host a) :: byte))
         @ '':'' @ dec (unat (port a)))"

text \<open>\<^verbatim>\<open>gethostbyname\<close> gives the addresses of a name in network order, or nothing.\<close>

definition dns_resolve :: "(string \<Rightarrow> uint32 list option) \<Rightarrow> string \<Rightarrow> bool \<times> address list" where
  "dns_resolve gethostbyname public_name =
     (case gethostbyname public_name of
        None \<Rightarrow> (False, [])
      | Some hs \<Rightarrow> (hs \<noteq> [], map (\<lambda>h. (address_of_name addr_any 0)\<lparr>host := endian_swap32 h\<rparr>) hs))"

definition max_address_string_len :: nat where "max_address_string_len = 255"

definition strip_ip :: "string \<Rightarrow> string" where
  "strip_ip s = (if take 3 s = ''ip:'' then drop 3 s else s)"

text \<open>\<^verbatim>\<open>address::set\<close> on a C string; the result says whether the text was valid, and the object is
  changed in either case.\<close>

definition address_set :: "(string \<Rightarrow> uint32) \<Rightarrow> (string \<Rightarrow> uint32 list option) \<Rightarrow> bool
    \<Rightarrow> string \<Rightarrow> bool \<Rightarrow> uint16 \<Rightarrow> bool \<times> address" where
  "address_set inet_addr gethostbyname sockets_init s dns_lookup p0 =
     (let a0 = \<lparr>host = INADDR_NONE, port = p0\<rparr>; s = strip_ip s in
      if \<not> sockets_init then (False, a0)
      else if max_address_string_len < length s then (False, a0)
      else
        let name = takeWhile (\<lambda>c. c \<noteq> CHR '':'') s;
            rest = dropWhile (\<lambda>c. c \<noteq> CHR '':'') s;
            a = (if rest \<noteq> [] \<and> p0 = 0 then a0\<lparr>port := word_of_int (atoi (tl rest))\<rparr> else a0)
        in if name = ''broadcast'' then (True, a\<lparr>host := INADDR_BROADCAST\<rparr>)
           else if name = ''localhost'' then (True, a\<lparr>host := 0x7F000001\<rparr>)
           else if name = ''any'' then (True, a\<lparr>host := INADDR_ANY\<rparr>)
           else
             let h = endian_swap32 (inet_addr name) in
             if h = INADDR_NONE \<and> dns_lookup then
               (case dns_resolve gethostbyname name of
                  (False, _) \<Rightarrow> (False, a\<lparr>host := h\<rparr>)
                | (True, addrs) \<Rightarrow> (True, a\<lparr>host := host (hd addrs)\<rparr>))
             else (True, a\<lparr>host := h\<rparr>))"

subsection \<open>Comparison and hashing\<close>

definition address_eq :: "address \<Rightarrow> address \<Rightarrow> bool" where
  "address_eq a b \<longleftrightarrow> host a = host b \<and> port a = port b"

definition is_same_host :: "address \<Rightarrow> address \<Rightarrow> bool" where
  "is_same_host a b \<longleftrightarrow> host a = host b"

definition address_neq :: "address \<Rightarrow> address \<Rightarrow> bool" where
  "address_neq a b \<longleftrightarrow> host a \<noteq> host b \<and> port a \<noteq> port b"

definition address_hash :: "address \<Rightarrow> uint32" where
  "address_hash a = host a XOR push_bit 8 (ucast (port a))"

subsection \<open>Socket addresses\<close>

record sockaddr_in =
  sin_family :: nat
  sin_port :: uint16
  sin_addr :: uint32

definition AF_INET :: nat where "AF_INET = 2"

definition from_sockaddr :: "sockaddr_in \<Rightarrow> address \<Rightarrow> address" where
  "from_sockaddr s a =
     (if sin_family s = AF_INET then \<lparr>host = endian_swap32 (sin_addr s), port = endian_swap16 (sin_port s)\<rparr> else a)"

definition to_sockaddr :: "address \<Rightarrow> sockaddr_in" where
  "to_sockaddr a = \<lparr>sin_family = AF_INET, sin_port = endian_swap16 (port a), sin_addr = endian_swap32 (host a)\<rparr>"

text \<open>\<^verbatim>\<open>get_interface_addresses\<close>, the branch on \<^verbatim>\<open>getifaddrs\<close>: the interfaces other than the
  loopback and the unspecified address.\<close>

definition get_interface_addresses :: "sockaddr_in list \<Rightarrow> address list" where
  "get_interface_addresses ifaddrs =
     filter (\<lambda>a. host a \<noteq> INADDR_ANY \<and> host a \<noteq> 0x7F000001)
       (map (\<lambda>s. from_sockaddr s (address_of_name addr_any 0)) ifaddrs)"

subsection \<open>Wire form\<close>

text \<open>The second half is skipped when the first fails.\<close>

definition write_address :: "address \<Rightarrow> bit_stream \<Rightarrow> (bool \<times> bit_stream) option" where
  "write_address a st = do {
     (ok, st1) \<leftarrow> write_u32 (host a) st;
     if ok then write_u16 (port a) st1 else Some (False, st1) }"

definition read_address :: "address \<Rightarrow> bit_stream \<Rightarrow> (bool \<times> address \<times> bit_stream) option" where
  "read_address old st = do {
     (ok, h, st1) \<leftarrow> read_u32 (host old) st;
     if ok then do {
       (ok', p, st2) \<leftarrow> read_u16 (port old) st1;
       Some (ok', \<lparr>host = h, port = p\<rparr>, st2) }
     else Some (False, old\<lparr>host := h\<rparr>, st1) }"

interpretation addr: wire_codec write_address read_address
  "\<lambda>a. byte_bits (bytes_of_u32 (host a) @ bytes_of_u16 (port a))" "\<lambda>_. True"
proof
  fix st and v :: address
  assume wf: "stream_wf st" and room: "length (byte_bits (bytes_of_u32 (host v) @ bytes_of_u16 (port v))) \<le> room st"
  obtain st1 where w1: "write_u32 (host v) st = Some (True, st1)" "stream_wf st1" "same_frame st st1"
    "wbits st1 = wbits st @ byte_bits (bytes_of_u32 (host v))"
    using write_u32_ok[OF wf] room by auto
  obtain st2 where "write_u16 (port v) st1 = Some (True, st2)" "stream_wf st2" "same_frame st1 st2"
    "wbits st2 = wbits st1 @ byte_bits (bytes_of_u16 (port v))"
    using write_u16_ok[OF w1(2), of "port v"] room_after[OF w1(3,4)] room by fastforce
  with w1 show "\<exists>r st'. write_address v st = Some (r, st') \<and> stream_wf st' \<and> same_frame st st'
      \<and> wbits st' = wbits st @ byte_bits (bytes_of_u32 (host v) @ bytes_of_u16 (port v))"
    by (auto simp: write_address_def intro: same_frame_trans)
next
  fix st and v old :: address and ys
  assume wf: "stream_wf st" and r: "rbits st = byte_bits (bytes_of_u32 (host v) @ bytes_of_u16 (port v)) @ ys"
  obtain st1 where r1: "read_u32 (host old) st = Some (True, host v, st1)" "stream_wf st1" "same_frame st st1"
    "base_ptr st1 = base_ptr st" "rbits st1 = byte_bits (bytes_of_u16 (port v)) @ ys"
    using read_u32_ok[OF wf, of "host v" "byte_bits (bytes_of_u16 (port v)) @ ys"] r by auto
  from read_u16_ok[OF r1(2,5), of "port old"] r1 show "\<exists>r st'. read_address old st = Some (r, v, st') \<and> stream_wf st'
      \<and> same_frame st st' \<and> base_ptr st' = base_ptr st \<and> rbits st' = ys"
    by (auto simp: read_address_def intro: same_frame_trans)
qed

lemma read_address_total:
  assumes "stream_wf st"
  shows "\<exists>r v st'. read_address old st = Some (r, v, st') \<and> reads_from st st'"
proof -
  obtain ok h st1 where 1: "read_u32 (host old) st = Some (ok, h, st1)" "reads_from st st1"
    using read_u32_total[OF assms] by blast
  then have "stream_wf st1" by (simp add: reads_from_def)
  from read_u16_total[OF this, of "port old"] 1 show ?thesis
    by (cases ok) (auto simp: read_address_def intro: reads_from_trans)
qed

subsection \<open>Text round trip\<close>

lemma of_char_digit [simp]: "d < 10 \<Longrightarrow> (of_char (digit_char d) :: nat) = 48 + d"
  by (simp add: digit_char_def)

lemma is_digit_digit [simp]: "d < 10 \<Longrightarrow> is_digit (digit_char d)"
  by (simp add: digit_char_def is_digit_def)

lemma dec_digits: "c \<in> set (dec n) \<Longrightarrow> is_digit c"
proof (induction n rule: dec.induct)
  case (1 n)
  then show ?case unfolding dec.simps[of n] by (auto split: if_splits)
qed

lemma read_digits_append:
  "(\<And>c. c \<in> set xs \<Longrightarrow> is_digit c) \<Longrightarrow> read_digits acc (xs @ ys) = read_digits (read_digits acc xs) ys"
  by (induction xs arbitrary: acc) auto

lemma read_digits_dec: "read_digits 0 (dec n) = int n"
proof (induction n rule: dec.induct)
  case (1 n)
  show ?case
  proof (cases "n < 10")
    case True
    then show ?thesis by (simp add: dec.simps[of n])
  next
    case False
    have "read_digits 0 (dec n) = int (n div 10) * 10 + int (n mod 10)"
      using False 1[OF False] dec_digits[of _ "n div 10"]
      by (subst dec.simps) (simp add: read_digits_append)
    then show ?thesis by (simp add: zdiv_int zmod_int)
  qed
qed

lemma dec_nonempty: "dec n \<noteq> []"
  by (subst dec.simps) simp

lemma digit_not: "is_digit c \<Longrightarrow> \<not> is_space c \<and> c \<noteq> CHR ''-'' \<and> c \<noteq> CHR ''+'' \<and> c \<noteq> CHR '':'' \<and> c \<noteq> CHR ''i''"
  by (auto simp: is_digit_def is_space_def)

lemma atoi_dec: "atoi (dec n) = int n"
proof -
  obtain c cs where c: "dec n = c # cs" using dec_nonempty by (metis list.exhaust)
  then have "is_digit c" using dec_digits[of c n] by simp
  with digit_not[of c] show ?thesis
    using read_digits_dec[of n] unfolding c atoi_def by simp
qed

lemma bytes_of_u32_of_bytes: "length bs = 4 \<Longrightarrow> bytes_of_u32 (u32_of_bytes bs) = bs"
  by (rule buffer_eqI) (auto simp: gbit_bytes_of_u32 bit_u32_of_bytes)

lemma bytes_of_u32_inj: "bytes_of_u32 a = bytes_of_u32 b \<Longrightarrow> a = b"
  by (metis u32_of_bytes_of_u32)

lemma endian_swap32_involution: "endian_swap32 (endian_swap32 v) = v"
  by (rule bytes_of_u32_inj) (simp add: endian_swap32_bytes)

lemma swap_network_order:
  "endian_swap32 (u32_of_bytes [ucast (drop_bit 24 h), ucast (drop_bit 16 h), ucast (drop_bit 8 h), ucast h]) = h"
  by (rule bytes_of_u32_inj)
    (simp add: endian_swap32_bytes bytes_of_u32_of_bytes bytes_of_u32_lanes[of h])

definition dotted :: "byte \<Rightarrow> byte \<Rightarrow> byte \<Rightarrow> byte \<Rightarrow> string" where
  "dotted a b c d = dec (unat a) @ ''.'' @ dec (unat b) @ ''.'' @ dec (unat c) @ ''.'' @ dec (unat d)"

definition host_name :: "uint32 \<Rightarrow> string" where
  "host_name h = (if h = INADDR_BROADCAST then ''broadcast'' else if h = INADDR_ANY then ''any''
     else if h = 0x7f000001 then ''localhost''
     else dotted (ucast (drop_bit 24 h)) (ucast (drop_bit 16 h)) (ucast (drop_bit 8 h)) (ucast h))"

lemma to_string_split: "to_string a = host_name (host a) @ CHR '':'' # dec (unat (port a))"
  by (simp add: to_string_def host_name_def dotted_def)

lemma length_dec: "n < 10 ^ k \<Longrightarrow> 0 < k \<Longrightarrow> length (dec n) \<le> k"
proof (induction n arbitrary: k rule: dec.induct)
  case (1 n)
  show ?case
  proof (cases "n < 10")
    case False
    obtain j where k: "k = Suc j" using "1.prems"(2) by (cases k) auto
    moreover have "j \<noteq> 0"
    proof
      assume "j = 0"
      with False k "1.prems"(1) show False by simp
    qed
    ultimately have k: "k = Suc j" "0 < j" by simp_all
    have "n div 10 < 10 ^ j" using k(1) "1.prems"(1) by (simp add: div_less_iff_less_mult mult.commute)
    from "1.IH"[OF False this k(2)] False k show ?thesis by (simp add: dec.simps[of n])
  qed (use "1.prems" in \<open>simp add: dec.simps[of n]\<close>)
qed

lemma dotted_shape:
  "set (dotted a b c d) \<subseteq> insert (CHR ''.'') {x. is_digit x}"
  "\<exists>x xs. dotted a b c d = x # xs \<and> is_digit x" "length (dotted a b c d) \<le> 15"
proof -
  have byte: "length (dec (unat (x :: byte))) \<le> 3" for x
    using unsigned_less[of x, where 'a = nat] by (intro length_dec) auto
  show "set (dotted a b c d) \<subseteq> insert (CHR ''.'') {x. is_digit x}"
    by (auto simp: dotted_def dest: dec_digits)
  obtain x xs where "dec (unat a) = x # xs" using dec_nonempty by (metis list.exhaust)
  then show "\<exists>x xs. dotted a b c d = x # xs \<and> is_digit x"
    using dec_digits[of x "unat a"] by (simp add: dotted_def)
  show "length (dotted a b c d) \<le> 15"
    using byte[of a] byte[of b] byte[of c] byte[of d] by (simp add: dotted_def)
qed

lemma host_name_shape:
  "CHR '':'' \<notin> set (host_name h)" "strip_ip (host_name h @ xs) = host_name h @ xs" "length (host_name h) \<le> 15"
  using dotted_shape[of "ucast (drop_bit 24 h)" "ucast (drop_bit 16 h)" "ucast (drop_bit 8 h)" "ucast h"] digit_not
  by (auto simp: host_name_def strip_ip_def)

lemma address_set_to_string:
  assumes inet: "\<And>a b c d. inet_addr (dotted a b c d) = u32_of_bytes [a, b, c, d]"
  shows "address_set inet_addr gethostbyname True (to_string a) dns_lookup 0 = (True, a)"
proof -
  let ?n = "host_name (host a)" and ?p = "dec (unat (port a))"
  have "unat (port a) < 10 ^ 5" using unsigned_less[of "port a", where 'a = nat] by simp
  then have "length ?p \<le> 5" by (intro length_dec) auto
  then have len: "\<not> max_address_string_len < length (?n @ CHR '':'' # ?p)"
    using host_name_shape(3)[of "host a"] by (simp add: max_address_string_len_def)
  have name: "takeWhile (\<lambda>c. c \<noteq> CHR '':'') (?n @ CHR '':'' # ?p) = ?n"
    "dropWhile (\<lambda>c. c \<noteq> CHR '':'') (?n @ CHR '':'' # ?p) = CHR '':'' # ?p"
    using host_name_shape(1)[of "host a"] by (auto simp: takeWhile_append dropWhile_append)
  show ?thesis
  proof (cases "host a = INADDR_BROADCAST \<or> host a = INADDR_ANY \<or> host a = 0x7f000001")
    case True
    then show ?thesis
      unfolding address_set_def to_string_split host_name_shape(2) Let_def name if_not_P[OF len]
      by (cases a) (auto simp: host_name_def atoi_dec INADDR_BROADCAST_def INADDR_ANY_def)
  next
    case False
    let ?d = "dotted (ucast (drop_bit 24 (host a))) (ucast (drop_bit 16 (host a))) (ucast (drop_bit 8 (host a))) (ucast (host a))"
    have n: "?n = ?d" using False by (simp add: host_name_def)
    have "?d \<noteq> ''broadcast''" "?d \<noteq> ''localhost''" "?d \<noteq> ''any''"
      using dotted_shape(2)[of "ucast (drop_bit 24 (host a))" "ucast (drop_bit 16 (host a))" "ucast (drop_bit 8 (host a))" "ucast (host a)"]
      by (auto simp: is_digit_def)
    moreover have "endian_swap32 (inet_addr ?d) = host a" by (simp only: inet swap_network_order)
    ultimately show ?thesis using False
      unfolding address_set_def to_string_split host_name_shape(2) Let_def name if_not_P[OF len] unfolding n
      by (cases a) (simp add: INADDR_NONE_def INADDR_BROADCAST_def atoi_dec)
  qed
qed

text \<open>A reader of dotted quads with the documented behaviour of \<^verbatim>\<open>inet_addr\<close>.\<close>

fun split_dots :: "string \<Rightarrow> string list" where
  "split_dots [] = [[]]"
| "split_dots (c # cs) = (if c = CHR ''.'' then [] # split_dots cs
     else (case split_dots cs of [] \<Rightarrow> [[c]] | x # xs \<Rightarrow> (c # x) # xs))"

definition quad_inet_addr :: "string \<Rightarrow> uint32" where
  "quad_inet_addr s = u32_of_bytes (map (\<lambda>t. word_of_int (atoi t)) (split_dots s))"

lemma split_dots_word: "CHR ''.'' \<notin> set xs \<Longrightarrow> split_dots xs = [xs]"
  by (induction xs) auto

lemma split_dots_dot: "CHR ''.'' \<notin> set xs \<Longrightarrow> split_dots (xs @ CHR ''.'' # ys) = xs # split_dots ys"
  by (induction xs) auto

lemma quad_inet_addr_dotted: "quad_inet_addr (dotted a b c d) = u32_of_bytes [a, b, c, d]"
proof -
  have "CHR ''.'' \<notin> set (dec n)" for n using dec_digits[of "CHR ''.''" n] by (auto simp: is_digit_def)
  then show ?thesis by (simp add: quad_inet_addr_def dotted_def split_dots_dot split_dots_word atoi_dec)
qed

subsection \<open>Properties\<close>

text \<open>The text of an address parses back to the address, for every host and port, with
  \<^verbatim>\<open>inet_addr\<close> reading dotted quads into network order.\<close>

theorem address_text_round_trip:
  assumes "\<And>a b c d. inet_addr (dotted a b c d) = u32_of_bytes [a, b, c, d]"
  shows "address_set inet_addr gethostbyname True (to_string a) dns_lookup 0 = (True, a)"
  using assms by (rule address_set_to_string)

theorem address_text_round_trip_witness:
  "address_set quad_inet_addr (\<lambda>_. None) True (to_string \<lparr>host = 0xC0A80117, port = 28000\<rparr>) True 0
     = (True, \<lparr>host = 0xC0A80117, port = 28000\<rparr>)"
  by (rule address_text_round_trip) (rule quad_inet_addr_dotted)

text \<open>An address survives the trip through a \<^verbatim>\<open>SOCKADDR\<close> and the trip over the wire.\<close>

theorem address_sockaddr_wire_round_trip:
  assumes "stream_wf st" "48 \<le> room st"
  shows "from_sockaddr (to_sockaddr a) b = a \<and>
    (\<exists>r st' r' st''. write_address a st = Some (r, st')
      \<and> read_address b (st'\<lparr>bit_num := bit_num st\<rparr>) = Some (r', a, st'') \<and> rbits st'' = rbits st')"
  using addr.round_trip[OF assms(1), of a b] assms(2)
  by (simp add: from_sockaddr_def to_sockaddr_def endian_swap32_involution endian_swap16_involution)

theorem address_sockaddr_wire_round_trip_witness:
  "from_sockaddr (to_sockaddr \<lparr>host = 0x0A000001, port = 80\<rparr>) \<lparr>host = 0, port = 0\<rparr> = \<lparr>host = 0x0A000001, port = 80\<rparr> \<and>
    (\<exists>r st' r' st''. write_address \<lparr>host = 0x0A000001, port = 80\<rparr> (make_stream (replicate 8 0) 8) = Some (r, st')
      \<and> read_address \<lparr>host = 0, port = 0\<rparr> (st'\<lparr>bit_num := 0\<rparr>) = Some (r', \<lparr>host = 0x0A000001, port = 80\<rparr>, st'')
      \<and> rbits st'' = rbits st')"
  using address_sockaddr_wire_round_trip[of "make_stream (replicate 8 0) 8" "\<lparr>host = 0x0A000001, port = 80\<rparr>" "\<lparr>host = 0, port = 0\<rparr>"]
  by (simp add: make_stream_def init_stream_def stream_wf_def room_def)

end
