(* ===== verification/Torque_Connection.thy ===== *)
theory Torque_Connection
  imports Complex_Main Symmetric_Cipher Event_Queue Address
begin

text \<open>
  \<^verbatim>\<open>torque_sockets/torque_connection.h\<close>: one established connection.  It runs the notify protocol over
  UDP: every data packet carries a sequence number, every packet carries acknowledgements for the
  last packets received, and the sender learns for each data packet whether it arrived.  Sequence
  numbers are 32-bit counters of which a packet carries the low bits only.

  A connection writes to its socket: it posts events, hands datagrams to the UDP socket and
  queues delayed datagrams.  That part of the socket is the record \<open>socket_io\<close>.  The bytes of an
  uninitialised stack buffer are a parameter \<open>junk\<close>, an uninitialised local word \<open>mask0\<close>, the result
  of \<^verbatim>\<open>random_unit_float\<close> a parameter \<open>rnd\<close>; times are milliseconds.
\<close>

subsection \<open>Constants\<close>

definition max_packet_window_size :: uint32 where "max_packet_window_size = push_bit 5 1"
definition packet_window_mask :: uint32 where "packet_window_mask = max_packet_window_size - 1"
definition max_ack_mask_size :: nat where "max_ack_mask_size = 1"
definition max_ack_byte_count :: uint32 where "max_ack_byte_count = push_bit 2 (word_of_nat max_ack_mask_size)"
definition sequence_number_bit_size :: uint32 where "sequence_number_bit_size = 11"
definition ack_sequence_number_bit_size :: uint32 where "ack_sequence_number_bit_size = 10"
definition packet_header_bit_size :: uint32 where
  "packet_header_bit_size = 3 + ack_sequence_number_bit_size + sequence_number_bit_size"
definition packet_header_byte_size :: uint32 where
  "packet_header_byte_size = drop_bit 3 (packet_header_bit_size + 7)"
definition packet_header_pad_bits :: uint32 where
  "packet_header_pad_bits = push_bit 3 packet_header_byte_size - packet_header_bit_size"

datatype net_packet_type = data_packet | ping_packet | ack_packet | invalid_packet_type

fun packet_type_code :: "net_packet_type \<Rightarrow> uint32" where
  "packet_type_code data_packet = 0"
| "packet_type_code ping_packet = 1"
| "packet_type_code ack_packet = 2"
| "packet_type_code invalid_packet_type = 3"

subsection \<open>State\<close>

record torque_connection =
  tc_address :: address
  connection_index :: uint32
  is_initiator :: bool
  initiator_nonce :: nonce
  host_nonce :: nonce
  shared_secret :: "byte_buffer option"
  tc_cipher :: "symmetric_cipher option"
  last_seq_recvd_at_send :: "uint32 list"
  last_seq_recvd :: uint32
  highest_acked_seq :: uint32
  last_send_seq :: uint32
  ack_mask :: "uint32 list"
  last_recv_ack_ack :: uint32
  initial_send_seq :: uint32
  initial_recv_seq :: uint32
  ping_timeout :: time
  ping_retry_count :: uint32
  ping_send_count :: uint32
  last_ping_send_time :: time
  simulated_latency :: uint32
  simulated_packet_loss :: rat

record packet_record =
  remote_address :: address
  send_time :: time
  packet_data :: "byte list"

record socket_io =
  event_queue :: socket_event_queue
  sent :: "(address \<times> byte list) list"
  send_packet_list :: "packet_record list"
  process_start_time :: time

subsection \<open>Packet streams\<close>

definition udp_max_datagram_size :: uint32 where "udp_max_datagram_size = 1536"

definition packet_stream :: "(nat \<Rightarrow> byte) \<Rightarrow> bit_stream" where
  "packet_stream junk = make_stream (map junk [0..<unat udp_max_datagram_size]) udp_max_datagram_size"

text \<open>The bytes a stream hands to the network: those before the next byte boundary.\<close>

definition datagram :: "bit_stream \<Rightarrow> byte list option" where
  "datagram st = do {
     let n = unat (get_next_byte_position st);
     assert (n \<le> length (base_ptr st));
     Some (take n (base_ptr st)) }"

text \<open>\<^verbatim>\<open>torque_socket::send_to\<close> and \<^verbatim>\<open>send_to_delayed\<close>: the list of delayed packets stays sorted by time.\<close>

definition send_to :: "address \<Rightarrow> byte list \<Rightarrow> socket_io \<Rightarrow> socket_io" where
  "send_to a bytes io = io\<lparr>sent := sent io @ [(a, bytes)]\<rparr>"

fun insert_delayed :: "packet_record \<Rightarrow> packet_record list \<Rightarrow> packet_record list" where
  "insert_delayed p [] = [p]"
| "insert_delayed p (r # rs) = (if send_time r \<le> send_time p then r # insert_delayed p rs else p # r # rs)"

definition send_to_delayed :: "address \<Rightarrow> byte list \<Rightarrow> uint32 \<Rightarrow> socket_io \<Rightarrow> socket_io" where
  "send_to_delayed a bytes millisecond_delay io =
     io\<lparr>send_packet_list := insert_delayed
          \<lparr>remote_address = a, send_time = process_start_time io + uint millisecond_delay, packet_data = bytes\<rparr>
          (send_packet_list io)\<rparr>"

subsection \<open>Sending\<close>

definition window_full :: "torque_connection \<Rightarrow> bool" where
  "window_full c \<longleftrightarrow> max_packet_window_size - 2 \<le> last_send_seq c - highest_acked_seq c"

definition has_unacked_sent_packets :: "torque_connection \<Rightarrow> bool" where
  "has_unacked_sent_packets c \<longleftrightarrow> last_send_seq c \<noteq> highest_acked_seq c"

definition get_next_send_sequence :: "torque_connection \<Rightarrow> uint32" where
  "get_next_send_sequence c = last_send_seq c + 1"

primrec write_ack_words :: "uint32 list \<Rightarrow> uint32 \<Rightarrow> uint32 \<Rightarrow> nat list \<Rightarrow> bit_stream \<Rightarrow> bit_stream option" where
  "write_ack_words words byte_count word_count [] st = Some st"
| "write_ack_words words byte_count word_count (i # is) st = do {
     w \<leftarrow> load words i;
     st' \<leftarrow> write_integer w (if word_of_nat i = word_count - 1 then (byte_count - word_of_nat i * 4) * 8 else 32) st;
     write_ack_words words byte_count word_count is st' }"

definition write_packet_header ::
    "net_packet_type \<Rightarrow> torque_connection \<Rightarrow> bit_stream \<Rightarrow> (torque_connection \<times> bit_stream) option" where
  "write_packet_header packet_type c st = do {
     assert (\<not> window_full c \<or> packet_type \<noteq> data_packet);
     let ack_byte_count = drop_bit 3 (last_seq_recvd c - last_recv_ack_ack c + 7);
     assert (ack_byte_count \<le> max_ack_byte_count);
     let c1 = (if packet_type = data_packet then c\<lparr>last_send_seq := last_send_seq c + 1\<rparr> else c);
     st1 \<leftarrow> write_integer (packet_type_code packet_type) 2 st;
     st2 \<leftarrow> write_integer (last_send_seq c1) 5 st1;
     st3 \<leftarrow> write_bool True st2;
     st4 \<leftarrow> write_integer (drop_bit 5 (last_send_seq c1)) (sequence_number_bit_size - 5) st3;
     st5 \<leftarrow> write_integer (last_seq_recvd c1) ack_sequence_number_bit_size st4;
     st6 \<leftarrow> write_integer 0 packet_header_pad_bits st5;
     st7 \<leftarrow> write_ranged_uint32 ack_byte_count 0 max_ack_byte_count st6;
     let word_count = drop_bit 2 (ack_byte_count + 3);
     st8 \<leftarrow> write_ack_words (ack_mask c1) ack_byte_count word_count [0..<unat word_count] st7;
     let st9 = advance_to_next_byte st8;
     if packet_type = data_packet then do {
       at_send \<leftarrow> store (last_seq_recvd_at_send c1) (unat (last_send_seq c1 AND packet_window_mask)) (last_seq_recvd c1);
       Some (c1\<lparr>last_seq_recvd_at_send := at_send\<rparr>, st9) }
     else Some (c1, st9) }"

text \<open>\<^verbatim>\<open>send_packet\<close>.  The simulated loss is only logged, and the call that would encrypt the packet is
  commented out in the source, so the random draw does not matter and the cipher only has its counter set.\<close>

definition send_packet :: "block_fun \<Rightarrow> (nat \<Rightarrow> byte) \<Rightarrow> net_packet_type \<Rightarrow> byte list \<Rightarrow> uint32
    \<Rightarrow> torque_connection \<Rightarrow> socket_io \<Rightarrow> (uint32 \<times> torque_connection \<times> socket_io) option" where
  "send_packet ecb junk packet_type bytes byte_count c io = do {
     (c1, ps1) \<leftarrow> write_packet_header packet_type c (packet_stream junk);
     ps2 \<leftarrow> (if packet_type = data_packet then map_option snd (write_bytes ps1 bytes byte_count) else Some ps1);
     let c2 = c1\<lparr>tc_cipher := map_option (setup_counter ecb (last_send_seq c1) (last_seq_recvd c1)
                   (packet_type_code packet_type) 0) (tc_cipher c1)\<rparr>;
     pkt \<leftarrow> datagram ps2;
     let io1 = (if simulated_latency c2 \<noteq> 0 then send_to_delayed (tc_address c2) pkt (simulated_latency c2) io
                else send_to (tc_address c2) pkt io);
     Some (last_send_seq c2, c2, io1) }"

definition send_ping_packet :: "block_fun \<Rightarrow> (nat \<Rightarrow> byte) \<Rightarrow> torque_connection \<Rightarrow> socket_io
    \<Rightarrow> (torque_connection \<times> socket_io) option" where
  "send_ping_packet ecb junk c io = map_option snd (send_packet ecb junk ping_packet [] 0 c io)"

definition send_ack_packet :: "block_fun \<Rightarrow> (nat \<Rightarrow> byte) \<Rightarrow> torque_connection \<Rightarrow> socket_io
    \<Rightarrow> (torque_connection \<times> socket_io) option" where
  "send_ack_packet ecb junk c io = map_option snd (send_packet ecb junk ack_packet [] 0 c io)"

subsection \<open>Receiving\<close>

definition keep_alive :: "torque_connection \<Rightarrow> torque_connection" where
  "keep_alive c = c\<lparr>last_ping_send_time := 0, ping_send_count := 0\<rparr>"

text \<open>The full sequence number nearest above \<open>base\<close> whose low bits are \<open>partial\<close>.\<close>

definition extend_sequence :: "uint32 \<Rightarrow> uint32 \<Rightarrow> uint32 \<Rightarrow> uint32" where
  "extend_sequence bit_size base partial =
     (let window_size = push_bit (unat bit_size) 1;
          n = partial OR (base AND (- window_size))
      in if n < base then n + window_size else n)"

primrec read_ack_words :: "uint32 \<Rightarrow> uint32 \<Rightarrow> nat list \<Rightarrow> uint32 list \<Rightarrow> bit_stream \<Rightarrow> (uint32 list \<times> bit_stream) option" where
  "read_ack_words byte_count word_count [] words st = Some (words, st)"
| "read_ack_words byte_count word_count (i # is) words st = do {
     (w, st') \<leftarrow> read_integer (if word_of_nat i = word_count - 1 then (byte_count - word_of_nat i * 4) * 8 else 32) st;
     words' \<leftarrow> store words i w;
     read_ack_words byte_count word_count is words' st' }"

text \<open>The shift of the acknowledgement words, first by whole words, then by bits.\<close>

function shift_ack_words :: "uint32 \<Rightarrow> uint32 list \<Rightarrow> uint32 \<times> uint32 list" where
  "shift_ack_words ack_mask_shift words =
     (if 32 < ack_mask_shift then shift_ack_words (ack_mask_shift - 32) (0 # butlast words)
      else (ack_mask_shift, words))"
  by pat_completeness auto
termination
  by (relation "measure (\<lambda>(s, m). unat s)") (auto simp: word_sub_decreases)

declare shift_ack_words.simps [simp del]

primrec up_shift :: "uint32 \<Rightarrow> uint32 list \<Rightarrow> uint32 \<Rightarrow> uint32 list" where
  "up_shift ack_mask_shift [] up_shifted = []"
| "up_shift ack_mask_shift (w # ws) up_shifted =
     (push_bit (unat ack_mask_shift) w OR up_shifted)
       # up_shift ack_mask_shift ws (drop_bit (unat (32 - ack_mask_shift)) w)"

text \<open>One notification per sequence number from the highest acknowledged one to the packet's.\<close>

primrec notify_loop :: "nat \<Rightarrow> uint32 \<Rightarrow> uint32 \<Rightarrow> uint32 list \<Rightarrow> torque_connection \<Rightarrow> socket_event_queue
    \<Rightarrow> (torque_connection \<times> socket_event_queue) option" where
  "notify_loop 0 i pk_highest_ack pk_ack_mask c q = Some (c, q)"
| "notify_loop (Suc n) i pk_highest_ack pk_ack_mask c q = do {
     let notify_index = highest_acked_seq c + i + 1;
     let ack_mask_bit = (pk_highest_ack - notify_index) AND 0x1F;
     let ack_mask_word = drop_bit 5 (pk_highest_ack - notify_index);
     w \<leftarrow> load pk_ack_mask (unat ack_mask_word);
     let packet_transmit_success = (w AND push_bit (unat ack_mask_bit) 1 \<noteq> 0);
     q' \<leftarrow> post_with torque_connection_packet_notify_event_type (connection_index c)
             (\<lambda>e. e\<lparr>ev_delivered := Some packet_transmit_success, ev_packet_sequence := Some notify_index\<rparr>) q;
     c' \<leftarrow> (if packet_transmit_success then do {
              r \<leftarrow> load (last_seq_recvd_at_send c) (unat (notify_index AND packet_window_mask));
              Some (c\<lparr>last_recv_ack_ack := r\<rparr>) }
            else Some c);
     notify_loop n (i + 1) pk_highest_ack pk_ack_mask c' q' }"

text \<open>The second half of \<^verbatim>\<open>read_packet_header\<close>: what a packet with these sequence numbers and
  acknowledgements does to the connection.\<close>

definition process_header :: "block_fun \<Rightarrow> (nat \<Rightarrow> byte) \<Rightarrow> uint32 \<Rightarrow> uint32 \<Rightarrow> uint32 \<Rightarrow> uint32 list
    \<Rightarrow> torque_connection \<Rightarrow> socket_io \<Rightarrow> (bool \<times> torque_connection \<times> socket_io) option" where
  "process_header ecb junk pk_packet_type pk_sequence_number pk_highest_ack pk_ack_mask c io = do {
     let (ack_mask_shift, mask1) = shift_ack_words (pk_sequence_number - last_seq_recvd c) (ack_mask c);
     let c1 = c\<lparr>ack_mask := up_shift ack_mask_shift mask1 (if pk_packet_type = packet_type_code data_packet then 1 else 0)\<rparr>;
     let notify_count = pk_highest_ack - highest_acked_seq c1;
     (c2, q) \<leftarrow> notify_loop (unat notify_count) 0 pk_highest_ack pk_ack_mask c1 (event_queue io);
     let io2 = io\<lparr>event_queue := q\<rparr>;
     let c3 = (if max_packet_window_size < pk_sequence_number - last_recv_ack_ack c2
               then c2\<lparr>last_recv_ack_ack := pk_sequence_number - max_packet_window_size\<rparr> else c2);
     let c4 = keep_alive (c3\<lparr>highest_acked_seq := pk_highest_ack\<rparr>);
     let prev_last_sequence = last_seq_recvd c4;
     let c5 = c4\<lparr>last_seq_recvd := pk_sequence_number\<rparr>;
     (c6, io6) \<leftarrow> (if pk_packet_type = packet_type_code ping_packet
                       \<or> drop_bit 1 max_packet_window_size < pk_sequence_number - last_recv_ack_ack c5
                     then send_ack_packet ecb junk c5 io2 else Some (c5, io2));
     Some (prev_last_sequence \<noteq> pk_sequence_number \<and> pk_packet_type = packet_type_code data_packet, c6, io6) }"

definition read_packet_header :: "block_fun \<Rightarrow> (nat \<Rightarrow> byte) \<Rightarrow> uint32 \<Rightarrow> bit_stream \<Rightarrow> torque_connection
    \<Rightarrow> socket_io \<Rightarrow> (bool \<times> bit_stream \<times> torque_connection \<times> socket_io) option" where
  "read_packet_header ecb junk mask0 st c io = do {
     (pk_packet_type, st1) \<leftarrow> read_integer 2 st;
     (seq_low, st2) \<leftarrow> read_integer 5 st1;
     (pk_data_packet_flag, st3) \<leftarrow> read_bool st2;
     (seq_high, st4) \<leftarrow> read_integer (sequence_number_bit_size - 5) st3;
     (ack_low, st5) \<leftarrow> read_integer ack_sequence_number_bit_size st4;
     (pk_pad_bits, st6) \<leftarrow> read_integer packet_header_pad_bits st5;
     if pk_pad_bits \<noteq> 0 then Some (False, st6, c, io)
     else do {
       assert pk_data_packet_flag;
       let pk_sequence_number = extend_sequence sequence_number_bit_size (last_seq_recvd c) (seq_low OR push_bit 5 seq_high);
       if max_packet_window_size - 1 < pk_sequence_number - last_seq_recvd c then Some (False, st6, c, io)
       else
         let pk_highest_ack = extend_sequence ack_sequence_number_bit_size (highest_acked_seq c) ack_low in
         if last_send_seq c < pk_highest_ack then Some (False, st6, c, io)
         else do {
           let c1 = c\<lparr>tc_cipher := map_option (setup_counter ecb pk_sequence_number pk_highest_ack pk_packet_type 0) (tc_cipher c)\<rparr>;
           (pk_ack_byte_count, st7) \<leftarrow> read_ranged_uint32 0 max_ack_byte_count st6;
           if max_ack_byte_count < pk_ack_byte_count \<or> packet_type_code invalid_packet_type \<le> pk_packet_type
           then Some (False, st7, c1, io)
           else do {
             let pk_ack_word_count = drop_bit 2 (pk_ack_byte_count + 3);
             (pk_ack_mask, st8) \<leftarrow> read_ack_words pk_ack_byte_count pk_ack_word_count [0..<unat pk_ack_word_count]
                                     (replicate max_ack_mask_size mask0) st7;
             let st9 = advance_to_next_byte st8;
             (r, c', io') \<leftarrow> process_header ecb junk pk_packet_type pk_sequence_number pk_highest_ack pk_ack_mask c1 io;
             Some (r, st9, c', io') } } } }"

text \<open>\<^verbatim>\<open>read_raw_packet\<close>: a data packet that is accepted becomes an event with the rest of the datagram.\<close>

definition read_raw_packet :: "block_fun \<Rightarrow> (nat \<Rightarrow> byte) \<Rightarrow> uint32 \<Rightarrow> rat \<Rightarrow> bit_stream \<Rightarrow> torque_connection
    \<Rightarrow> socket_io \<Rightarrow> (bool \<times> torque_connection \<times> socket_io) option" where
  "read_raw_packet ecb junk mask0 rnd st c io =
     (if simulated_packet_loss c \<noteq> 0 \<and> rnd < simulated_packet_loss c then Some (False, c, io)
      else do {
        (ok, st', c', io') \<leftarrow> read_packet_header ecb junk mask0 st c io;
        if ok then do {
          let n = get_stream_byte_size st' - get_byte_position st';
          let rest = drop (unat (get_byte_position st')) (base_ptr st');
          assert (unat n \<le> length rest);
          q \<leftarrow> post_with torque_connection_packet_event_type 0
                 (\<lambda>e. e\<lparr>ev_packet_sequence := Some (last_seq_recvd c'), ev_connection := connection_index c', ev_data_size := n,
                        ev_data := Some (take (unat n) rest)\<rparr>) (event_queue io');
          Some (True, c', io'\<lparr>event_queue := q\<rparr>) }
        else Some (False, c', io') })"

subsection \<open>Timeouts and construction\<close>

definition check_timeout :: "block_fun \<Rightarrow> (nat \<Rightarrow> byte) \<Rightarrow> time \<Rightarrow> torque_connection \<Rightarrow> socket_io
    \<Rightarrow> (bool \<times> torque_connection \<times> socket_io) option" where
  "check_timeout ecb junk current_time c io =
     (let c1 = (if last_ping_send_time c = 0 then c\<lparr>last_ping_send_time := current_time\<rparr> else c) in
      if ping_timeout c1 < current_time - last_ping_send_time c1 then
        if ping_retry_count c1 \<le> ping_send_count c1 then Some (True, c1, io)
        else do {
          let c2 = c1\<lparr>last_ping_send_time := current_time, ping_send_count := ping_send_count c1 + 1\<rparr>;
          (c3, io3) \<leftarrow> send_ping_packet ecb junk c2 io;
          Some (False, c3, io3) }
      else Some (False, c1, io))"

definition set_initial_recv_sequence :: "uint32 \<Rightarrow> torque_connection \<Rightarrow> torque_connection" where
  "set_initial_recv_sequence s c = c\<lparr>initial_recv_seq := s, last_seq_recvd := s, last_recv_ack_ack := s\<rparr>"

definition set_ping_timeouts :: "time \<Rightarrow> uint32 \<Rightarrow> torque_connection \<Rightarrow> torque_connection" where
  "set_ping_timeouts time_per_ping retries c = c\<lparr>ping_retry_count := retries, ping_timeout := time_per_ping\<rparr>"

definition set_simulated_net_params :: "rat \<Rightarrow> uint32 \<Rightarrow> torque_connection \<Rightarrow> torque_connection" where
  "set_simulated_net_params packet_loss latency c =
     c\<lparr>simulated_packet_loss := packet_loss, simulated_latency := latency\<rparr>"

text \<open>The constructor leaves the host nonce, the window array and the initial receive sequence
  uninitialised: they are what the memory \<open>mem\<close> held.\<close>

definition new_connection :: "torque_connection \<Rightarrow> nonce \<Rightarrow> uint32 \<Rightarrow> uint32 \<Rightarrow> bool \<Rightarrow> torque_connection" where
  "new_connection mem init_nonce initial_send_sequence index initiator =
     mem\<lparr>tc_address := address_of_name addr_any 0, shared_secret := None, tc_cipher := None,
         is_initiator := initiator, connection_index := index, initial_send_seq := initial_send_sequence,
         initiator_nonce := init_nonce, simulated_latency := 0, simulated_packet_loss := 0,
         last_ping_send_time := 0, ping_send_count := 0, last_seq_recvd := 0,
         highest_acked_seq := initial_send_sequence, last_send_seq := initial_send_sequence,
         ack_mask := [0], last_recv_ack_ack := 0, ping_timeout := 5000, ping_retry_count := 5\<rparr>"

subsection \<open>Sequence numbers\<close>

lemma or_high_low:
  "take_bit k s OR (base AND NOT (mask k)) = (base - take_bit k base) + take_bit k (s :: uint32)"
proof -
  have "base AND NOT (mask k) = base - take_bit k base" by (rule and_not_mask)
  moreover have "(base AND NOT (mask k)) OR take_bit k s = (base AND NOT (mask k)) + take_bit k s"
    by (subst disjunctive_add_eq_or) (auto intro!: bit_word_eqI simp: bit_simps)
  ultimately show ?thesis by (simp add: or.commute)
qed

text \<open>A partial sequence number determines the full one within a window above the base, also across
  the wrap of the counter.\<close>

lemma extend_sequence_exact:
  assumes k: "unat bs = k" "k < 32" and d: "unat (s - base) < 2 ^ k"
  shows "extend_sequence bs base (take_bit k s) = s"
proof -
  define B d low where defs: "B = unat base" "d = unat (s - base)" "low = B mod 2 ^ k"
  have low_le: "low \<le> B" by (simp add: defs)
  have lt: "low < 2 ^ k" by (simp add: defs)
  have neg: "- push_bit k 1 = (NOT (mask k) :: uint32)"
    by (simp add: push_bit_eq_mult minus_exp_eq_not_mask)
  have ulow: "unat (take_bit k base) = low"
    unfolding unsigned_take_bit_eq by (simp add: defs take_bit_eq_mod)
  have dvd: "(2::nat) ^ k dvd 4294967296" using le_imp_power_dvd[of k 32 "2::nat"] k(2) by simp
  have "unat s = (B + d) mod 2 ^ 32"
    using unat_word_ariths(1)[of base "s - base"] by (simp add: defs)
  then have "unat s mod 2 ^ k = (low + d) mod 2 ^ k"
    by (simp add: mod_mod_cancel[OF dvd] defs(3) mod_add_left_eq)
  then have uts: "unat (take_bit k s) = (low + d) mod 2 ^ k"
    unfolding unsigned_take_bit_eq by (simp add: take_bit_eq_mod)
  have "B - low = 2 ^ k * (B div 2 ^ k)" by (simp add: defs minus_mod_eq_mult_div)
  moreover obtain m where m: "4294967296 = (2::nat) ^ k * m" using dvd by (elim dvdE)
  moreover have "B div 2 ^ k < m"
    using unat_less_32[of base] unfolding m by (simp add: div_less_iff_less_mult defs(1) mult.commute)
  then have "2 ^ k * (B div 2 ^ k) + 2 ^ k \<le> (2::nat) ^ k * m"
    by (metis Suc_leI add.commute mult_Suc_right mult_le_mono2)
  ultimately have room: "B - low + 2 ^ k \<le> 2 ^ 32" by simp
  let ?n = "(base - take_bit k base) + take_bit k s"
  have exp: "extend_sequence bs base (take_bit k s) = (if ?n < base then ?n + push_bit k 1 else ?n)"
    by (simp only: extend_sequence_def Let_def k(1) neg or_high_low)
  show ?thesis
  proof (cases "low + d < 2 ^ k")
    case True
    have "take_bit k s = take_bit k base + (s - base)"
      using True room by (simp add: word_unat_eq_iff uts unat_word_ariths ulow defs(2)[symmetric])
    then have n: "?n = s" by simp
    have "B + d < 2 ^ 32" using True room low_le by linarith
    with \<open>unat s = (B + d) mod 2 ^ 32\<close> have "\<not> s < base" by (simp add: word_less_nat_alt defs(1))
    with n show ?thesis unfolding exp by simp
  next
    case False
    have "(low + d) mod 2 ^ k = low + d - 2 ^ k" using False lt d by (simp add: le_mod_geq defs(2))
    moreover have "(2::nat) ^ Suc k \<le> 2 ^ 32" using k(2) by (intro power_increasing) auto
    moreover have "unat (2 ^ k :: uint32) = 2 ^ k"
      using unat_of_nat_small[of "2 ^ k", where 'a = 32] power_strict_increasing[OF k(2), of "2::nat"] by simp
    ultimately have "take_bit k s + 2 ^ k = take_bit k base + (s - base)"
      using False lt d uts ulow by (simp add: word_unat_eq_iff unat_word_ariths defs(2))
    then have n: "?n + push_bit k 1 = s" by (simp add: push_bit_eq_mult algebra_simps)
    have "unat ?n = B - low + (low + d - 2 ^ k)"
      using room \<open>(low + d) mod 2 ^ k = low + d - 2 ^ k\<close> lt d False uts low_le ulow
      by (subst unat_add_lem[THEN iffD1]) (auto simp: unat_sub word_le_nat_alt defs(1)[symmetric] defs(2))
    then have "unat ?n = B + d - 2 ^ k" using False low_le by simp
    moreover have "B + d - 2 ^ k < B" using False low_le lt d unfolding defs(2)[symmetric] by linarith
    ultimately have "?n < base" by (simp add: word_less_nat_alt defs(1))
    with n show ?thesis unfolding exp by simp
  qed
qed
subsection \<open>The header on the wire\<close>

lemmas header_constants = max_packet_window_size_def packet_window_mask_def max_ack_mask_size_def max_ack_byte_count_def
  sequence_number_bit_size_def ack_sequence_number_bit_size_def packet_header_bit_size_def
  packet_header_byte_size_def packet_header_pad_bits_def

lemma pad_bits_0: "packet_header_pad_bits = 0"
  by (simp add: header_constants push_bit_eq_mult drop_bit_eq_div)

lemma ack_range_bits: "get_next_binary_log (max_ack_byte_count - 0 + 1) = 3"
proof -
  have "max_ack_byte_count - 0 + 1 = 5" by (simp add: header_constants push_bit_eq_mult)
  moreover have "get_next_binary_log 5 = 3"
    by (simp add: get_next_binary_log_def get_binary_log_exact ilog2_unique[of 2 5] is_power_of_2_def)
  ultimately show ?thesis by (simp only:)
qed

definition ack_byte_count :: "torque_connection \<Rightarrow> uint32" where
  "ack_byte_count c = drop_bit 3 (last_seq_recvd c - last_recv_ack_ack c + 7)"

definition header_bits :: "uint32 \<Rightarrow> uint32 \<Rightarrow> uint32 \<Rightarrow> uint32 \<Rightarrow> uint32 \<Rightarrow> bool list" where
  "header_bits ptype seq ack abc w =
     int_bits 2 ptype @ int_bits 5 seq @ [True] @ int_bits 6 (drop_bit 5 seq) @ int_bits 10 ack
     @ int_bits 3 abc @ int_bits (8 * unat abc) w"

lemma length_header_bits [simp]: "length (header_bits ptype seq ack abc w) = 27 + 8 * unat abc"
  by (simp add: header_bits_def)

definition conn_wf :: "torque_connection \<Rightarrow> bool" where
  "conn_wf c \<longleftrightarrow> length (ack_mask c) = max_ack_mask_size
     \<and> length (last_seq_recvd_at_send c) = unat max_packet_window_size
     \<and> last_seq_recvd c - last_recv_ack_ack c \<le> max_packet_window_size"

lemma ack_byte_count_le: "last_seq_recvd c - last_recv_ack_ack c \<le> max_packet_window_size \<Longrightarrow> unat (ack_byte_count c) \<le> 4"
proof -
  assume "last_seq_recvd c - last_recv_ack_ack c \<le> max_packet_window_size"
  then have d: "unat (last_seq_recvd c - last_recv_ack_ack c) \<le> 32"
    by (simp add: word_le_nat_alt header_constants push_bit_eq_mult)
  then have "unat (last_seq_recvd c - last_recv_ack_ack c + 7) = unat (last_seq_recvd c - last_recv_ack_ack c) + 7"
    by (subst unat_add_lem[THEN iffD1]) auto
  with d show ?thesis by (simp add: ack_byte_count_def unat_drop3)
qed

lemma small_count_cases:
  assumes "unat (n :: uint32) \<le> 4"
  shows "n = 0 \<or> n = 1 \<or> n = 2 \<or> n = 3 \<or> n = 4"
proof -
  have "unat n = 0 \<or> unat n = 1 \<or> unat n = 2 \<or> unat n = 3 \<or> unat n = 4" using assms by linarith
  then show ?thesis by (simp add: word_unat_eq_iff)
qed

text \<open>With at most four bytes of acknowledgements there is at most one word of them.\<close>

lemma ack_word_count:
  assumes "unat abc \<le> 4"
  shows "[0..<unat (drop_bit 2 (abc + 3 :: uint32))] = (if abc = 0 then [] else [0])"
    and "abc \<noteq> 0 \<Longrightarrow> drop_bit 2 (abc + 3) - 1 = 0"
    and "unat (abc * 8) = 8 * unat abc"
  using small_count_cases[OF assms] by (auto simp: drop_bit_eq_div)

lemma write_ack_words_next:
  assumes "writes st0 st xs" "unat abc \<le> 4" "length xs + 8 * unat abc \<le> room st0"
  shows "\<exists>st'. write_ack_words [w] abc (drop_bit 2 (abc + 3)) [0..<unat (drop_bit 2 (abc + 3))] st = Some st'
     \<and> writes st0 st' (xs @ int_bits (8 * unat abc) w)"
proof (cases "abc = 0")
  case True
  then show ?thesis using assms(1) by (simp add: ack_word_count int_bits_def)
next
  case False
  then show ?thesis
    using write_integer_next[OF assms(1), of "abc * 8" w] assms(2,3)
    by (simp add: ack_word_count[OF assms(2)])
qed

text \<open>What \<^verbatim>\<open>write_packet_header\<close> does to the connection.\<close>

definition after_header :: "net_packet_type \<Rightarrow> torque_connection \<Rightarrow> torque_connection" where
  "after_header ptype c = (if ptype = data_packet then c\<lparr>last_send_seq := last_send_seq c + 1,
     last_seq_recvd_at_send := (last_seq_recvd_at_send c)
       [unat ((last_send_seq c + 1) AND packet_window_mask) := last_seq_recvd c]\<rparr> else c)"

lemma window_index: "unat (s AND packet_window_mask) < 32"
proof -
  have "s AND packet_window_mask = take_bit 5 s"
    by (simp add: header_constants push_bit_eq_mult take_bit_eq_mask mask_eq_exp_minus_1)
  then show ?thesis by (simp add: unsigned_take_bit_eq take_bit_nat_less_exp[of 5, simplified])
qed

lemma write_packet_header_writes:
  assumes wf: "conn_wf c" "stream_wf st" and room: "64 \<le> room st"
    and win: "ptype = data_packet \<Longrightarrow> \<not> window_full c"
  shows "\<exists>st'. write_packet_header ptype c st = Some (after_header ptype c, advance_to_next_byte st')
     \<and> writes st st' (header_bits (packet_type_code ptype) (last_send_seq (after_header ptype c))
         (last_seq_recvd c) (ack_byte_count c) (hd (ack_mask c)))"
proof -
  define seq abc where "seq = last_send_seq (after_header ptype c)" and "abc = ack_byte_count c"
  obtain w where w: "ack_mask c = [w]" using wf(1) by (auto simp: conn_wf_def max_ack_mask_size_def length_Suc_conv)
  have abc: "unat abc \<le> 4" using wf(1) ack_byte_count_le[of c] by (simp add: conn_wf_def abc_def)
  then have "abc \<le> max_ack_byte_count" by (simp add: word_le_nat_alt header_constants push_bit_eq_mult)
  obtain s1 where s1: "write_integer (packet_type_code ptype) 2 st = Some s1" "writes st s1 (int_bits 2 (packet_type_code ptype))"
    using write_integer_next[OF writes_refl[OF wf(2)], of 2 "packet_type_code ptype"] room by auto
  obtain s2 where s2: "write_integer seq 5 s1 = Some s2" "writes st s2 (int_bits 2 (packet_type_code ptype) @ int_bits 5 seq)"
    using write_integer_next[OF s1(2), of 5 seq] room by auto
  obtain s3 where s3: "write_bool True s2 = Some s3"
    "writes st s3 ((int_bits 2 (packet_type_code ptype) @ int_bits 5 seq) @ [True])"
    using write_bool_next[OF s2(2), of True] room by auto
  obtain s4 where s4: "write_integer (drop_bit 5 seq) (sequence_number_bit_size - 5) s3 = Some s4"
    "writes st s4 (((int_bits 2 (packet_type_code ptype) @ int_bits 5 seq) @ [True]) @ int_bits 6 (drop_bit 5 seq))"
    using write_integer_next[OF s3(2), of 6 "drop_bit 5 seq"] room by (auto simp: sequence_number_bit_size_def)
  obtain s5 where s5: "write_integer (last_seq_recvd c) ack_sequence_number_bit_size s4 = Some s5"
    "writes st s5 ((((int_bits 2 (packet_type_code ptype) @ int_bits 5 seq) @ [True]) @ int_bits 6 (drop_bit 5 seq))
       @ int_bits 10 (last_seq_recvd c))"
    using write_integer_next[OF s4(2), of 10 "last_seq_recvd c"] room by (auto simp: ack_sequence_number_bit_size_def)
  have s6: "write_integer 0 packet_header_pad_bits s5 = Some s5"
    by (simp add: write_integer_def pad_bits_0 write_bits_def)
  obtain s7 where s7: "write_ranged_uint32 abc 0 max_ack_byte_count s5 = Some s7"
    "writes st s7 (((((int_bits 2 (packet_type_code ptype) @ int_bits 5 seq) @ [True]) @ int_bits 6 (drop_bit 5 seq))
       @ int_bits 10 (last_seq_recvd c)) @ int_bits 3 abc)"
    using write_integer_next[OF s5(2), of 3 abc] room \<open>abc \<le> _\<close> ack_range_bits
    by (auto simp: write_ranged_uint32_def Let_def)
  obtain s8 where s8: "write_ack_words [w] abc (drop_bit 2 (abc + 3)) [0..<unat (drop_bit 2 (abc + 3))] s7 = Some s8"
    "writes st s8 (header_bits (packet_type_code ptype) seq (last_seq_recvd c) abc w)"
    using write_ack_words_next[OF s7(2) abc, of w] room abc by (auto simp: header_bits_def)
  have "write_packet_header ptype c st = Some (after_header ptype c, advance_to_next_byte s8)"
    using s1 s2 s3 s4 s5 s6 s7 s8 w win wf(1) window_index \<open>abc \<le> _\<close>
    by (cases "ptype = data_packet")
      (simp_all add: write_packet_header_def Let_def after_header_def seq_def abc_def ack_byte_count_def[symmetric] conn_wf_def
        header_constants(1) push_bit_eq_mult)
  with s8(2) show ?thesis by (auto simp: seq_def abc_def w)
qed

end
