(* ===== verification/Random_Generator.thy ===== *)
theory Random_Generator
  imports Buffer_Utils
begin

text \<open>
  \<^verbatim>\<open>torque_sockets/random_generator.h\<close>: the wrapper around the Yarrow generator of libtomcrypt.  The
  generator is a parameter: a record of its four operations on a state of any type.
  \<open>yarrow_read y n s\<close> is the content of a buffer of \<open>n\<close> bytes after the call.  The conversion of a
  random integer to a \<^verbatim>\<open>float32\<close> is left out; its result is a parameter where it is used.
\<close>

record 's yarrow =
  yarrow_start :: 's
  yarrow_ready :: "'s \<Rightarrow> 's"
  yarrow_add_entropy :: "byte list \<Rightarrow> 's \<Rightarrow> 's"
  yarrow_read :: "nat \<Rightarrow> 's \<Rightarrow> byte list \<times> 's"

record 's random_generator =
  random_state :: 's
  entropy_added :: uint32

definition new_random_generator :: "'s yarrow \<Rightarrow> 's random_generator" where
  "new_random_generator y = \<lparr>random_state = yarrow_ready y (yarrow_start y), entropy_added = 0\<rparr>"

definition add_entropy :: "'s yarrow \<Rightarrow> byte list \<Rightarrow> uint32 \<Rightarrow> 's random_generator \<Rightarrow> 's random_generator" where
  "add_entropy y random_data data_len g =
     (let g1 = g\<lparr>random_state := yarrow_add_entropy y (take (unat data_len) random_data) (random_state g),
                entropy_added := entropy_added g + data_len\<rparr>
      in if 16 \<le> entropy_added g1
         then g1\<lparr>random_state := yarrow_ready y (random_state g1), entropy_added := 0\<rparr> else g1)"

definition random_buffer :: "'s yarrow \<Rightarrow> nat \<Rightarrow> 's random_generator \<Rightarrow> byte list \<times> 's random_generator" where
  "random_buffer y buffer_size g =
     (let (out, s) = yarrow_read y buffer_size (random_state g) in (out, g\<lparr>random_state := s\<rparr>))"

definition random_integer :: "'s yarrow \<Rightarrow> 's random_generator \<Rightarrow> uint32 \<times> 's random_generator" where
  "random_integer y g = (let (b, g') = random_buffer y 4 g in
     (push_bit 24 (ucast (b ! 0)) OR push_bit 16 (ucast (b ! 1)) OR push_bit 8 (ucast (b ! 2)) OR ucast (b ! 3), g'))"

text \<open>The bytes are written over the object: on a little-endian host they are its little-endian image.\<close>

definition random_nonce :: "'s yarrow \<Rightarrow> 's random_generator \<Rightarrow> nonce \<times> 's random_generator" where
  "random_nonce y g = (let (b, g') = random_buffer y 8 g in (u64_of_bytes b, g'))"

text \<open>A range of all \<open>2 ^ 32\<close> values has size 0 in 32 bits, and the division by it traps.\<close>

definition random_in_range :: "'s yarrow \<Rightarrow> uint32 \<Rightarrow> uint32 \<Rightarrow> 's random_generator
    \<Rightarrow> (uint32 \<times> 's random_generator) option" where
  "random_in_range y range_start range_end g = do {
     assert (range_start \<le> range_end);
     let (r, g') = random_integer y g;
     assert (range_end - range_start + 1 \<noteq> 0);
     Some (r mod (range_end - range_start + 1) + range_start, g') }"

definition random_bool :: "'s yarrow \<Rightarrow> 's random_generator \<Rightarrow> bool \<times> 's random_generator" where
  "random_bool y g = (let (b, g') = random_buffer y 1 g in (b ! 0 AND 1 \<noteq> 0, g'))"

definition yarrow_law :: "'s yarrow \<Rightarrow> bool" where
  "yarrow_law y \<longleftrightarrow> (\<forall>n s. length (fst (yarrow_read y n s)) = n)"

lemma random_integer_reads:
  "random_integer y g = (read_uint32_from_buffer (fst (random_buffer y 4 g)), snd (random_buffer y 4 g))"
  by (simp add: random_integer_def read_uint32_from_buffer_def split_beta)

lemma random_in_range_bounds:
  assumes "lo \<le> hi" "hi - lo \<noteq> -1"
  shows "\<exists>r g'. random_in_range y lo hi g = Some (r, g') \<and> lo \<le> r \<and> r \<le> hi"
proof -
  obtain r g' where r: "random_integer y g = (r, g')" by (cases "random_integer y g")
  let ?n = "hi - lo + 1"
  have n: "?n \<noteq> 0" using assms(2) by (metis add_eq_0_iff minus_equation_iff)
  then have "unat ?n = unat hi - unat lo + 1"
    using assms(1) by (simp add: unat_sub unatSuc add.commute word_le_nat_alt)
  moreover have "unat (r mod ?n) < unat ?n" using n by (metis unat_mod mod_less_divisor unat_gt_0 word_neq_0_conv)
  ultimately have le: "unat (r mod ?n) \<le> unat hi - unat lo" by simp
  then have "unat (r mod ?n + lo) = unat (r mod ?n) + unat lo"
    using assms(1) unat_less_32[of hi] by (subst unat_add_lem[THEN iffD1]) (auto simp: word_le_nat_alt)
  with le assms(1) have "lo \<le> r mod ?n + lo \<and> r mod ?n + lo \<le> hi" by (auto simp: word_le_nat_alt)
  with assms(1) n r show ?thesis by (simp add: random_in_range_def)
qed

end
