(* ===== verification/Asymmetric_Key.thy ===== *)
theory Asymmetric_Key
  imports Random_Generator
begin

text \<open>
  \<^verbatim>\<open>torque_sockets/asymmetric_key.h\<close>: key pairs for the key exchange.  The elliptic-curve operations of
  libtomcrypt are parameters, a record of functions on an opaque key type; an operation that fails is
  \<open>None\<close>.  The key pointer of an object that was not (or not successfully) loaded is null or
  uninitialised: both are \<open>None\<close>, and following it traps.
\<close>

record ('s, 'k) ecc =
  ecc_make_key :: "uint32 \<Rightarrow> 's \<Rightarrow> 'k option \<times> 's"
  ecc_import :: "byte list \<Rightarrow> 'k option"
  ecc_export_public :: "'k \<Rightarrow> byte list option"
  ecc_export_private :: "'k \<Rightarrow> byte list option"
  ecc_shared_secret :: "'k \<Rightarrow> 'k \<Rightarrow> byte list option"
  ecc_sign_hash :: "byte list \<Rightarrow> 's \<Rightarrow> 'k \<Rightarrow> byte list \<times> 's"
  ecc_verify_hash :: "byte list \<Rightarrow> byte list \<Rightarrow> 'k \<Rightarrow> bool"

definition static_crypto_buffer_size :: nat where "static_crypto_buffer_size = 2048"
definition key_type_private :: byte where "key_type_private = 0"
definition key_type_public :: byte where "key_type_public = 1"

record 'k asymmetric_key =
  key_data :: "'k option"
  ak_key_size :: uint32
  has_private_key :: bool
  public_key :: "byte_buffer option"
  private_key :: "byte_buffer option"
  key_is_valid :: bool

text \<open>A new buffer with these bytes.\<close>

definition buffer_of :: "byte list \<Rightarrow> byte_buffer" where
  "buffer_of bs = \<lparr>data_ptr = bs, buf_size = word_of_nat (length bs)\<rparr>"

text \<open>The bytes of the static buffer from the sixth on that go into the key buffer after an export: the exported
  key or, as the result is not looked at, all the old bytes \<open>old\<close> when the export fails.\<close>

definition exported :: "byte list \<Rightarrow> byte list option \<Rightarrow> byte list" where
  "exported old e = (case e of Some bs \<Rightarrow> bs | None \<Rightarrow> old)"

text \<open>\<^verbatim>\<open>load\<close>.  For a private key the size is written over the type byte of the public encoding, so that the
  fifth byte of it stays uninitialised.\<close>

definition load_key :: "('s, 'k) ecc \<Rightarrow> (nat \<Rightarrow> byte) \<Rightarrow> byte list \<Rightarrow> uint32 \<Rightarrow> 'k asymmetric_key \<Rightarrow> 'k asymmetric_key option" where
  "load_key E junk buffer_ptr buffer_size k0 = do {
     b0 \<leftarrow> load buffer_ptr 0;
     let k1 = k0\<lparr>key_is_valid := False, has_private_key := (b0 = key_type_private)\<rparr>;
     if buffer_size < 5 then Some k1
     else do {
       assert (unat buffer_size \<le> length buffer_ptr);
       let k2 = k1\<lparr>ak_key_size := read_uint32_from_buffer (drop 1 buffer_ptr)\<rparr>;
       (case ecc_import E (take (unat (buffer_size - 5)) (drop 5 buffer_ptr)) of
          None \<Rightarrow> Some k2
        | Some the_key \<Rightarrow>
            let k3 = k2\<lparr>key_data := Some the_key\<rparr> in
            if has_private_key k3 then
              (case ecc_export_public E the_key of
                 None \<Rightarrow> Some k3
               | Some e \<Rightarrow> Some (k3\<lparr>public_key := Some (buffer_of (write_uint32_to_buffer (ak_key_size k3) @ [junk 4] @ e)),
                     private_key := Some (buffer_of (take (unat buffer_size) buffer_ptr)), key_is_valid := True\<rparr>))
            else Some (k3\<lparr>public_key := Some (buffer_of (take (unat buffer_size) buffer_ptr)), key_is_valid := True\<rparr>)) } }"

definition key_of_buffer :: "('s, 'k) ecc \<Rightarrow> (nat \<Rightarrow> byte) \<Rightarrow> 'k asymmetric_key \<Rightarrow> byte_buffer \<Rightarrow> 'k asymmetric_key option" where
  "key_of_buffer E junk mem the_buffer =
     load_key E junk (data_ptr the_buffer) (buf_size the_buffer)
       (mem\<lparr>key_data := None, public_key := None, private_key := None\<rparr>)"

definition key_of_stream :: "('s, 'k) ecc \<Rightarrow> (nat \<Rightarrow> byte) \<Rightarrow> uint32 \<Rightarrow> 'k asymmetric_key \<Rightarrow> bit_stream
    \<Rightarrow> ('k asymmetric_key \<times> bit_stream) option" where
  "key_of_stream E junk len0 mem the_stream = do {
     (_, the_buffer, st) \<leftarrow> read_byte_buffer junk len0 the_stream;
     k \<leftarrow> key_of_buffer E junk mem the_buffer;
     Some (k, st) }"

definition generate_key :: "('s, 'k) ecc \<Rightarrow> (nat \<Rightarrow> byte) \<Rightarrow> 'k asymmetric_key \<Rightarrow> uint32 \<Rightarrow> 's random_generator
    \<Rightarrow> 'k asymmetric_key \<times> 's random_generator" where
  "generate_key E junk mem n g =
     (let (made, s) = ecc_make_key E n (random_state g);
          g' = g\<lparr>random_state := s\<rparr>;
          k0 = mem\<lparr>key_data := None, public_key := None, private_key := None, key_is_valid := False\<rparr>;
          old = map junk [5..<static_crypto_buffer_size]
      in case made of
           None \<Rightarrow> (k0, g')
         | Some the_key \<Rightarrow>
             let private_bytes = exported old (ecc_export_private E the_key);
                 public_bytes = exported (private_bytes @ drop (length private_bytes) old) (ecc_export_public E the_key)
             in
             (k0\<lparr>key_data := Some the_key, ak_key_size := n,
                 private_key := Some (buffer_of (key_type_private # write_uint32_to_buffer n @ private_bytes)),
                 public_key := Some (buffer_of (key_type_public # write_uint32_to_buffer n @ public_bytes)),
                 has_private_key := True, key_is_valid := True\<rparr>, g'))"

text \<open>The null pointer is the inner \<open>None\<close>.\<close>

definition compute_shared_secret_key :: "(byte list \<Rightarrow> byte list) \<Rightarrow> ('s, 'k) ecc \<Rightarrow> (nat \<Rightarrow> byte) \<Rightarrow> 'k asymmetric_key
    \<Rightarrow> 'k asymmetric_key \<Rightarrow> byte_buffer option option" where
  "compute_shared_secret_key sha256 E junk publicKey k =
     (if ak_key_size publicKey \<noteq> ak_key_size k \<or> \<not> has_private_key k then Some None
      else do {
        mine \<leftarrow> key_data k;
        theirs \<leftarrow> key_data publicKey;
        let secret = (case ecc_shared_secret E mine theirs of Some s \<Rightarrow> s | None \<Rightarrow> map junk [0..<static_crypto_buffer_size]);
        buffer_from_chunk (sha256 secret) 32 \<bind> (\<lambda>b. Some (Some b)) })"

definition hash_and_sign :: "(byte list \<Rightarrow> byte list) \<Rightarrow> ('s, 'k) ecc \<Rightarrow> byte list \<Rightarrow> uint32 \<Rightarrow> 'k asymmetric_key
    \<Rightarrow> 's random_generator \<Rightarrow> (byte_buffer \<times> 's random_generator) option" where
  "hash_and_sign sha256 E buffer buffer_size k g = do {
     assert (unat buffer_size \<le> length buffer);
     key \<leftarrow> key_data k;
     let (sig, s) = ecc_sign_hash E (sha256 (take (unat buffer_size) buffer)) (random_state g) key;
     Some (buffer_of sig, g\<lparr>random_state := s\<rparr>) }"

definition verify_signature :: "(byte list \<Rightarrow> byte list) \<Rightarrow> ('s, 'k) ecc \<Rightarrow> byte list \<Rightarrow> uint32 \<Rightarrow> byte_buffer \<Rightarrow> 'k asymmetric_key \<Rightarrow> bool option" where
  "verify_signature sha256 E signed_bytes signed_bytes_size the_signature k = do {
     assert (unat signed_bytes_size \<le> length signed_bytes);
     key \<leftarrow> key_data k;
     Some (ecc_verify_hash E (contents the_signature) (sha256 (take (unat signed_bytes_size) signed_bytes)) key) }"

subsection \<open>Key agreement\<close>

text \<open>A private key of size \<open>n\<close>: one that was made with this size, or one that was made, exported with its private half
  and imported again.\<close>

definition own_key :: "('s, 'k) ecc \<Rightarrow> uint32 \<Rightarrow> 'k \<Rightarrow> bool" where
  "own_key E n k \<longleftrightarrow> (\<exists>s k'. fst (ecc_make_key E n s) = Some k'
     \<and> (k = k' \<or> (\<exists>e. ecc_export_private E k' = Some e \<and> ecc_import E e = Some k)))"

text \<open>What the exchange relies on of the elliptic-curve code: the public half of a private key can be exported to at most
  2043 bytes and imported, and two private keys of one size, that is of one curve, share a secret that does not depend on
  which side computes it.  Nothing is asked of public keys as the own key, nor of keys of different sizes.\<close>

definition ecc_law :: "('s, 'k) ecc \<Rightarrow> ('k \<Rightarrow> 'k) \<Rightarrow> bool" where
  "ecc_law E pub \<longleftrightarrow> (\<forall>n k. own_key E n k \<longrightarrow> (\<exists>e. ecc_export_public E k = Some e \<and> length e \<le> 2043 \<and> ecc_import E e = Some (pub k)))
     \<and> (\<forall>n a b. own_key E n a \<longrightarrow> own_key E n b \<longrightarrow>
          ecc_shared_secret E a (pub b) = ecc_shared_secret E b (pub a) \<and> ecc_shared_secret E a (pub b) \<noteq> None)"

lemma own_keyI: "fst (ecc_make_key E n s) = Some k \<Longrightarrow> own_key E n k"
  by (auto simp: own_key_def)

lemma own_key_exports:
  assumes "ecc_law E pub" "own_key E n k"
  obtains e where "ecc_export_public E k = Some e" "length e \<le> 2043" "ecc_import E e = Some (pub k)"
  using assms unfolding ecc_law_def by blast

lemma own_keys_share:
  assumes "ecc_law E pub" "own_key E n a" "own_key E n b"
  shows "ecc_shared_secret E a (pub b) = ecc_shared_secret E b (pub a)" "\<exists>s. ecc_shared_secret E a (pub b) = Some s"
  using assms unfolding ecc_law_def by blast+

lemma generate_key_public:
  assumes "ecc_law E pub" "generate_key E junk mem n g = (k, g')" "fst (ecc_make_key E n (random_state g)) = Some key"
  obtains e where "public_key k = Some (buffer_of (key_type_public # write_uint32_to_buffer n @ e))" "length e \<le> 2043"
    "ecc_import E e = Some (pub key)" "key_data k = Some key" "ak_key_size k = n" "has_private_key k"
proof -
  obtain e where "ecc_export_public E key = Some e" "length e \<le> 2043" "ecc_import E e = Some (pub key)"
    using own_key_exports[OF assms(1) own_keyI[OF assms(3)]] by blast
  then show ?thesis using that assms(2,3) by (auto simp: generate_key_def exported_def Let_def split: prod.splits option.splits)
qed

lemma load_public_key:
  assumes "ecc_import E e = Some key" "length e \<le> 2043"
  shows "\<exists>k. key_of_buffer E junk mem (buffer_of (key_type_public # write_uint32_to_buffer n @ e)) = Some k
     \<and> key_data k = Some key \<and> ak_key_size k = n \<and> key_is_valid k \<and> \<not> has_private_key k
     \<and> public_key k = Some (buffer_of (key_type_public # write_uint32_to_buffer n @ e))"
proof -
  let ?bs = "key_type_public # write_uint32_to_buffer n @ e"
  have l: "length (write_uint32_to_buffer n) = 4" by (simp add: write_uint32_to_buffer_def)
  have u: "unat (word_of_nat (length ?bs) :: uint32) = length ?bs"
    using assms(2) l by (intro unat_of_nat_small) simp
  have u5: "unat (word_of_nat (length ?bs) - 5 :: uint32) = length e"
    using u l by (subst unat_diff_32) simp_all
  have "\<not> (word_of_nat (length ?bs) :: uint32) < 5" using u l by (simp add: word_less_nat_alt)
  moreover have "drop 5 ?bs = e" "read_uint32_from_buffer (drop 1 ?bs) = n"
    using l read_uint32_append[of n e] by simp_all
  ultimately show ?thesis
    using assms(1) u u5 by (simp add: key_of_buffer_def load_key_def buffer_of_def key_type_public_def key_type_private_def Let_def)
qed

text \<open>One side of the exchange: a key generated here, and the other side's public key as it arrives in a buffer.\<close>

definition exchanged :: "(byte list \<Rightarrow> byte list) \<Rightarrow> ('s, 'k) ecc \<Rightarrow> (nat \<Rightarrow> byte) \<Rightarrow> 'k asymmetric_key \<Rightarrow> byte_buffer
    \<Rightarrow> 'k asymmetric_key \<Rightarrow> byte_buffer option option" where
  "exchanged sha256 E junk mem their_public k = do {
     theirs \<leftarrow> key_of_buffer E junk mem their_public;
     compute_shared_secret_key sha256 E junk theirs k }"

lemma exchanged_secret:
  assumes "ecc_law E pub" "\<forall>x. length (sha256 x) = 32"
    and k: "key_data k = Some a" "ak_key_size k = n" "has_private_key k" and own: "own_key E n a" "own_key E n b"
    and e: "ecc_import E e = Some (pub b)" "length e \<le> 2043"
  shows "exchanged sha256 E junk mem (buffer_of (key_type_public # write_uint32_to_buffer n @ e)) k
     = Some (Some (buffer_of (sha256 (the (ecc_shared_secret E a (pub b))))))"
proof -
  obtain theirs where t: "key_of_buffer E junk mem (buffer_of (key_type_public # write_uint32_to_buffer n @ e)) = Some theirs"
      "key_data theirs = Some (pub b)" "ak_key_size theirs = n"
    using load_public_key[OF e, of junk mem n] by blast
  obtain s where "ecc_shared_secret E a (pub b) = Some s" using own_keys_share(2)[OF assms(1) own] by blast
  with t k assms(2) show ?thesis
    by (simp add: exchanged_def compute_shared_secret_key_def buffer_from_chunk_def buffer_of_def Let_def)
qed

text \<open>C36. Key agreement: when two sides generate keys of the same size (whatever their generators and
  uninitialised memory) and each loads the public key buffer of the other, both compute the same 32-byte shared
  secret and neither gets the null pointer.  The elliptic-curve operations satisfy \<open>ecc_law\<close>, a law about private
  keys of one size, and the digest has 32 bytes.\<close>

theorem key_agreement:
  assumes "ecc_law E pub" "\<forall>x. length (sha256 x) = 32"
    and "fst (ecc_make_key E n (random_state g)) = Some a" "fst (ecc_make_key E n (random_state h)) = Some b"
  shows "\<exists>pa pb secret. public_key (fst (generate_key E junk mem n g)) = Some pa
     \<and> public_key (fst (generate_key E junk' mem' n h)) = Some pb
     \<and> exchanged sha256 E u m pb (fst (generate_key E junk mem n g)) = Some (Some secret)
     \<and> exchanged sha256 E u' m' pa (fst (generate_key E junk' mem' n h)) = Some (Some secret)
     \<and> buf_size secret = 32"
proof -
  obtain ea where a: "public_key (fst (generate_key E junk mem n g)) = Some (buffer_of (key_type_public # write_uint32_to_buffer n @ ea))"
      "length ea \<le> 2043" "ecc_import E ea = Some (pub a)" "key_data (fst (generate_key E junk mem n g)) = Some a"
      "ak_key_size (fst (generate_key E junk mem n g)) = n" "has_private_key (fst (generate_key E junk mem n g))"
    using generate_key_public[OF assms(1) prod.collapse[symmetric] assms(3)] by metis
  obtain eb where b: "public_key (fst (generate_key E junk' mem' n h)) = Some (buffer_of (key_type_public # write_uint32_to_buffer n @ eb))"
      "length eb \<le> 2043" "ecc_import E eb = Some (pub b)" "key_data (fst (generate_key E junk' mem' n h)) = Some b"
      "ak_key_size (fst (generate_key E junk' mem' n h)) = n" "has_private_key (fst (generate_key E junk' mem' n h))"
    using generate_key_public[OF assms(1) prod.collapse[symmetric] assms(4)] by metis
  have own: "own_key E n a" "own_key E n b" using assms(3,4) by (auto intro: own_keyI)
  have "ecc_shared_secret E a (pub b) = ecc_shared_secret E b (pub a)" by (rule own_keys_share(1)[OF assms(1) own])
  then show ?thesis
    using exchanged_secret[OF assms(1,2) a(4-6) own b(3,2)] exchanged_secret[OF assms(1,2) b(4-6) own(2,1) a(3,2)] a(1) b(1) assms(2)
    by (simp add: buffer_of_def)
qed

text \<open>Multiplication of bytes by the generator 7, whose inverse is 183: not a secure group, but one that satisfies
  the law.\<close>

definition toy_ecc :: "(byte, byte) ecc" where
  "toy_ecc = \<lparr>ecc_make_key = \<lambda>n s. (Some s, s + 1),
     ecc_import = \<lambda>bs. (case bs of [p] \<Rightarrow> Some (183 * p) | _ \<Rightarrow> None),
     ecc_export_public = \<lambda>k. Some [7 * k], ecc_export_private = \<lambda>k. Some [k, 7 * k],
     ecc_shared_secret = \<lambda>a b. Some [7 * a * b],
     ecc_sign_hash = \<lambda>h s k. ([], s), ecc_verify_hash = \<lambda>s h k. False\<rparr>"

lemma toy_ecc_law: "ecc_law toy_ecc (\<lambda>k. k)"
proof -
  have "183 * (7 * k) = k" for k :: byte
  proof -
    have "183 * (7 * k) = (183 * 7) * k" by (simp only: mult.assoc)
    also have "(183 * 7 :: byte) = 1" by simp
    finally show ?thesis by simp
  qed
  then show ?thesis by (simp add: ecc_law_def toy_ecc_def mult.commute mult.left_commute)
qed

definition toy_key :: "byte asymmetric_key" where
  "toy_key = \<lparr>key_data = None, ak_key_size = 0, has_private_key = False, public_key = None, private_key = None, key_is_valid = False\<rparr>"

theorem key_agreement_witness:
  "\<exists>pa pb secret. public_key (fst (generate_key toy_ecc (\<lambda>_. 0) toy_key 20 \<lparr>random_state = 3, entropy_added = 0\<rparr>)) = Some pa
     \<and> public_key (fst (generate_key toy_ecc (\<lambda>_. 1) toy_key 20 \<lparr>random_state = 5, entropy_added = 0\<rparr>)) = Some pb
     \<and> exchanged (\<lambda>x. take 32 (x @ replicate 32 0)) toy_ecc (\<lambda>_. 0) toy_key pb
         (fst (generate_key toy_ecc (\<lambda>_. 0) toy_key 20 \<lparr>random_state = 3, entropy_added = 0\<rparr>)) = Some (Some secret)
     \<and> exchanged (\<lambda>x. take 32 (x @ replicate 32 0)) toy_ecc (\<lambda>_. 0) toy_key pa
         (fst (generate_key toy_ecc (\<lambda>_. 1) toy_key 20 \<lparr>random_state = 5, entropy_added = 0\<rparr>)) = Some (Some secret)
     \<and> buf_size secret = 32"
  by (rule key_agreement[OF toy_ecc_law, where a = 3 and b = 5]) (auto simp: toy_ecc_def)

end
