(* ===== verification/Client_Puzzle.thy ===== *)
theory Client_Puzzle
  imports Linked_List Random_Generator
begin

text \<open>
  \<^verbatim>\<open>torque_sockets/client_puzzle.h\<close>: before a host spends work on a connection request, the client must
  find a number whose hash, together with both nonces, starts with a given number of zero bits.  The
  host keeps the client nonces already used with its current and its previous server nonce in two hash
  tables, so that a solution counts once.  SHA-256 of libtomcrypt is the parameter \<open>sha256\<close>.
\<close>

subsection \<open>The nonce table\<close>

record nonce_entry =
  ne_nonce :: nonce
  hash_next :: "ptr option"

record nonce_table =
  nt_hash_table :: "ptr option list"
  nt_entries :: "ptr \<rightharpoonup> nonce_entry"
  nt_fresh :: ptr

definition hash_table_size :: nat where "hash_table_size = 387"

definition reset :: "nonce_table \<Rightarrow> nonce_table" where
  "reset t = t\<lparr>nt_entries := Map.empty, nt_hash_table := replicate hash_table_size None\<rparr>"

definition new_nonce_table :: nonce_table where
  "new_nonce_table = reset \<lparr>nt_hash_table = [], nt_entries = Map.empty, nt_fresh = 0\<rparr>"

definition check_add :: "nonce \<Rightarrow> nonce_table \<Rightarrow> (bool \<times> nonce_table) option" where
  "check_add the_nonce t = do {
     let hash_index = unat (the_nonce mod word_of_nat hash_table_size);
     start \<leftarrow> load (nt_hash_table t) hash_index;
     walk \<leftarrow> find_node hash_next (nt_entries t) (\<lambda>e. ne_nonce e = the_nonce) start;
     if walk \<noteq> None then Some (False, t)
     else do {
       let new_entry = nt_fresh t;
       table \<leftarrow> store (nt_hash_table t) hash_index (Some new_entry);
       Some (True, t\<lparr>nt_hash_table := table, nt_fresh := new_entry + 1,
         nt_entries := (nt_entries t)(new_entry \<mapsto> \<lparr>ne_nonce = the_nonce, hash_next = start\<rparr>)\<rparr>) } }"

subsection \<open>The manager\<close>

record client_puzzle_manager =
  current_difficulty :: uint32
  last_update_time :: time
  last_tick_time :: time
  current_nonce :: nonce
  last_nonce :: nonce
  current_nonce_table :: nonce_table
  last_nonce_table :: nonce_table

datatype result_code = success | invalid_solution | invalid_server_nonce | invalid_client_nonce
  | invalid_puzzle_difficulty

definition puzzle_refresh_time :: time where "puzzle_refresh_time = 30000"
definition initial_puzzle_difficulty :: uint32 where "initial_puzzle_difficulty = 17"
definition max_puzzle_difficulty :: uint32 where "max_puzzle_difficulty = 26"

text \<open>The constructor leaves the time of the last update as the memory held it: \<open>update0\<close>.\<close>

definition new_puzzle_manager :: "'s yarrow \<Rightarrow> time \<Rightarrow> time \<Rightarrow> 's random_generator
    \<Rightarrow> client_puzzle_manager \<times> 's random_generator" where
  "new_puzzle_manager y update0 now g =
     (let (n1, g1) = random_nonce y g; (n2, g2) = random_nonce y g1 in
      (\<lparr>current_difficulty = initial_puzzle_difficulty, last_update_time = update0, last_tick_time = now,
        current_nonce = n1, last_nonce = n2, current_nonce_table = new_nonce_table, last_nonce_table = new_nonce_table\<rparr>, g2))"

definition tick :: "'s yarrow \<Rightarrow> time \<Rightarrow> client_puzzle_manager \<Rightarrow> 's random_generator
    \<Rightarrow> client_puzzle_manager \<times> 's random_generator" where
  "tick y currentTime m g =
     (if puzzle_refresh_time < currentTime - last_update_time m then
        let (n, g') = random_nonce y g in
        (m\<lparr>last_update_time := currentTime, last_nonce := current_nonce m,
           last_nonce_table := current_nonce_table m, current_nonce_table := reset (last_nonce_table m),
           current_nonce := n\<rparr>, g')
      else (m, g))"

text \<open>The loop over the whole bytes that must be zero, and the mask for the rest.\<close>

function leading_zeros :: "byte list \<Rightarrow> nat \<Rightarrow> uint32 \<Rightarrow> bool option" where
  "leading_zeros hash index puzzle_difficulty =
     (if 8 < puzzle_difficulty then do {
        h \<leftarrow> load hash index;
        if h \<noteq> 0 then Some False else leading_zeros hash (index + 1) (puzzle_difficulty - 8) }
      else do {
        h \<leftarrow> load hash index;
        let m = (ucast (push_bit (unat (8 - puzzle_difficulty)) (0xFF :: uint32)) :: byte);
        Some (m AND h = 0) })"
  by pat_completeness auto
termination
  by (relation "measure (\<lambda>(h, i, d). unat d)") (auto simp: word_sub_decreases)

declare leading_zeros.simps [simp del]

definition puzzle_message :: "uint32 \<Rightarrow> nonce \<Rightarrow> nonce \<Rightarrow> uint32 \<Rightarrow> byte list" where
  "puzzle_message solution client_nonce server_nonce client_identity =
     write_uint32_to_buffer solution @ write_uint32_to_buffer client_identity
     @ write_uint64_to_buffer client_nonce @ write_uint64_to_buffer server_nonce"

definition check_one_solution :: "(byte list \<Rightarrow> byte list) \<Rightarrow> uint32 \<Rightarrow> nonce \<Rightarrow> nonce \<Rightarrow> uint32 \<Rightarrow> uint32 \<Rightarrow> bool option" where
  "check_one_solution sha256 solution client_nonce server_nonce puzzle_difficulty client_identity =
     leading_zeros (sha256 (puzzle_message solution client_nonce server_nonce client_identity)) 0 puzzle_difficulty"

definition check_solution :: "(byte list \<Rightarrow> byte list) \<Rightarrow> uint32 \<Rightarrow> nonce \<Rightarrow> nonce \<Rightarrow> uint32 \<Rightarrow> uint32
    \<Rightarrow> client_puzzle_manager \<Rightarrow> (result_code \<times> client_puzzle_manager) option" where
  "check_solution sha256 solution client_nonce server_nonce puzzle_difficulty client_identity m =
     (if puzzle_difficulty \<noteq> current_difficulty m then Some (invalid_puzzle_difficulty, m)
      else if server_nonce = current_nonce m then do {
        ok \<leftarrow> check_one_solution sha256 solution client_nonce server_nonce puzzle_difficulty client_identity;
        if \<not> ok then Some (invalid_solution, m)
        else do {
          (added, t) \<leftarrow> check_add client_nonce (current_nonce_table m);
          Some (if added then success else invalid_client_nonce, m\<lparr>current_nonce_table := t\<rparr>) } }
      else if server_nonce = last_nonce m then do {
        ok \<leftarrow> check_one_solution sha256 solution client_nonce server_nonce puzzle_difficulty client_identity;
        if \<not> ok then Some (invalid_solution, m)
        else do {
          (added, t) \<leftarrow> check_add client_nonce (last_nonce_table m);
          Some (if added then success else invalid_client_nonce, m\<lparr>last_nonce_table := t\<rparr>) } }
      else Some (invalid_server_nonce, m))"

subsection \<open>The solver\<close>

text \<open>The search of \<^verbatim>\<open>puzzle_solver::process_request\<close>.  Another thread may set the cancelled flag at any
  time: \<open>cancelled k\<close> is what the \<open>k\<close>-th read of the flag sees.  The result is the number of reads and
  the solution at which the loop stopped.\<close>

partial_function (option) solve_loop :: "(byte list \<Rightarrow> byte list) \<Rightarrow> (nat \<Rightarrow> bool) \<Rightarrow> nonce \<Rightarrow> nonce \<Rightarrow> uint32 \<Rightarrow> uint32
    \<Rightarrow> nat \<Rightarrow> uint32 \<Rightarrow> (nat \<times> uint32) option" where
  "solve_loop sha256 cancelled the_nonce remote_nonce puzzle_difficulty client_identity k solution =
     (if cancelled k then Some (Suc k, solution)
      else do {
        ok \<leftarrow> check_one_solution sha256 solution the_nonce remote_nonce puzzle_difficulty client_identity;
        if ok then Some (Suc k, solution)
        else solve_loop sha256 cancelled the_nonce remote_nonce puzzle_difficulty client_identity (Suc k) (solution + 1) })"

text \<open>The four locals read from the request keep \<open>n0\<close>, \<open>r0\<close>, \<open>d0\<close>, \<open>i0\<close> where it is too short; the
  buffer of the response is fresh memory \<open>mem\<close>.\<close>

definition process_request :: "(byte list \<Rightarrow> byte list) \<Rightarrow> (nat \<Rightarrow> bool) \<Rightarrow> (nat \<Rightarrow> byte) \<Rightarrow> nonce \<Rightarrow> nonce \<Rightarrow> uint32 \<Rightarrow> uint32
    \<Rightarrow> byte_buffer \<Rightarrow> byte_buffer option option" where
  "process_request sha256 cancelled mem n0 r0 d0 i0 the_request = do {
     let s = make_stream (data_ptr the_request) (buf_size the_request);
     (_, the_nonce, s1) \<leftarrow> read_u64 n0 s;
     (_, remote_nonce, s2) \<leftarrow> read_u64 r0 s1;
     (_, puzzle_difficulty, s3) \<leftarrow> read_u32 d0 s2;
     (_, client_identity, s4) \<leftarrow> read_u32 i0 s3;
     (k, solution) \<leftarrow> solve_loop sha256 cancelled the_nonce remote_nonce puzzle_difficulty client_identity 0 0;
     if \<not> cancelled k then do {
       let response = buffer_of_size mem 4;
       (_, r) \<leftarrow> write_u32 solution (make_stream (data_ptr response) (buf_size response));
       Some (Some (response\<lparr>data_ptr := base_ptr r\<rparr>)) }
     else Some None }"

subsection \<open>The nonce table is a set\<close>

definition slot :: "nonce \<Rightarrow> nat" where
  "slot n = unat (n mod word_of_nat hash_table_size)"

definition table_nonces :: "nonce_table \<Rightarrow> nonce set" where
  "table_nonces t = ne_nonce ` ran (nt_entries t)"

definition nonce_table_wf :: "nonce_table \<Rightarrow> bool" where
  "nonce_table_wf t \<longleftrightarrow> length (nt_hash_table t) = hash_table_size \<and> dom (nt_entries t) \<subseteq> {..<nt_fresh t}
     \<and> (\<forall>i < hash_table_size. \<exists>ps. chain hash_next (nt_entries t) (nt_hash_table t ! i) ps
          \<and> set ps = {p. \<exists>e. nt_entries t p = Some e \<and> slot (ne_nonce e) = i})"

lemma slot_less: "slot n < hash_table_size"
proof -
  have "unat (word_of_nat hash_table_size :: nonce) = hash_table_size"
    by (rule unat_of_nat_small) (simp add: hash_table_size_def)
  then show ?thesis by (simp add: slot_def unat_mod hash_table_size_def)
qed

lemma table_nonces_walk:
  assumes "set ps = {p. \<exists>e. nt_entries t p = Some e \<and> slot (ne_nonce e) = slot n}"
  shows "find (\<lambda>p. ne_nonce (the (nt_entries t p)) = n) ps = None \<longleftrightarrow> n \<notin> table_nonces t"
proof -
  have "(\<exists>p\<in>set ps. ne_nonce (the (nt_entries t p)) = n) \<longleftrightarrow> (\<exists>p e. nt_entries t p = Some e \<and> ne_nonce e = n)"
    unfolding assms by auto blast
  also have "\<dots> \<longleftrightarrow> n \<in> table_nonces t" by (auto simp: table_nonces_def ran_def image_iff)
  finally show ?thesis by (auto simp: find_None_iff)
qed

lemma check_add_set:
  assumes "nonce_table_wf t"
  shows "\<exists>t'. check_add n t = Some (n \<notin> table_nonces t, t') \<and> nonce_table_wf t'
     \<and> table_nonces t' = insert n (table_nonces t)"
proof -
  from assms slot_less[of n] obtain ps where ps: "chain hash_next (nt_entries t) (nt_hash_table t ! slot n) ps"
    "set ps = {p. \<exists>e. nt_entries t p = Some e \<and> slot (ne_nonce e) = slot n}"
    by (auto simp: nonce_table_wf_def)
  have len: "length (nt_hash_table t) = hash_table_size" using assms by (simp add: nonce_table_wf_def)
  note walk = find_node_chain[OF ps(1), of "\<lambda>e. ne_nonce e = n"] table_nonces_walk[OF ps(2)]
  note run = check_add_def slot_def[symmetric] load_Some[of "slot n" "nt_hash_table t"] len slot_less walk(1)
  show ?thesis
  proof (cases "n \<in> table_nonces t")
    case True
    then have "check_add n t = Some (False, t)" using walk(2) by (simp add: run)
    with True assms show ?thesis by (auto simp: insert_absorb)
  next
    case False
    let ?p = "nt_fresh t" and ?e = "\<lparr>ne_nonce = n, hash_next = nt_hash_table t ! slot n\<rparr>"
    define t' where "t' = t\<lparr>nt_hash_table := (nt_hash_table t)[slot n := Some ?p], nt_fresh := ?p + 1,
      nt_entries := (nt_entries t)(?p \<mapsto> ?e)\<rparr>"
    have new: "nt_entries t ?p = None" using assms by (auto simp: nonce_table_wf_def)
    have "check_add n t = Some (True, t')" using False walk(2) by (simp add: run t'_def Let_def)
    moreover have "table_nonces t' = insert n (table_nonces t)"
      using new by (auto simp: table_nonces_def t'_def ran_map_upd)
    moreover have "\<exists>qs. chain hash_next (nt_entries t') (nt_hash_table t' ! i) qs
          \<and> set qs = {p. \<exists>e. nt_entries t' p = Some e \<and> slot (ne_nonce e) = i}" if i: "i < hash_table_size" for i
    proof -
      obtain qs where qs: "chain hash_next (nt_entries t) (nt_hash_table t ! i) qs"
        "set qs = {p. \<exists>e. nt_entries t p = Some e \<and> slot (ne_nonce e) = i}"
        using assms i by (auto simp: nonce_table_wf_def)
      then have "?p \<notin> set qs" using new by auto
      then have ch: "chain hash_next (nt_entries t') (nt_hash_table t ! i) qs" using qs(1) by (simp add: t'_def)
      show ?thesis
      proof (cases "i = slot n")
        case True
        with ch qs(2) new len i show ?thesis
          by (intro exI[of _ "?p # qs"]) (auto simp: t'_def chain_Cons)
      next
        case False
        with ch qs(2) new show ?thesis by (intro exI[of _ qs]) (auto simp: t'_def)
      qed
    qed
    moreover have "dom (nt_entries t') \<subseteq> {..<nt_fresh t'}" "length (nt_hash_table t') = hash_table_size"
      using assms by (auto simp: nonce_table_wf_def t'_def)
    ultimately show ?thesis using False by (auto simp: nonce_table_wf_def)
  qed
qed

lemma reset_set: "nonce_table_wf (reset t)" "table_nonces (reset t) = {}"
  by (auto simp: nonce_table_wf_def table_nonces_def reset_def intro!: exI[of _ "[]"])

subsection \<open>The interface: a register that counts a key once\<close>

fun add_all :: "('k \<Rightarrow> 't \<Rightarrow> (bool \<times> 't) option) \<Rightarrow> 'k list \<Rightarrow> 't \<Rightarrow> (bool list \<times> 't) option" where
  "add_all add [] t = Some ([], t)"
| "add_all add (k # ks) t = do { (b, t1) \<leftarrow> add k t; (bs, t2) \<leftarrow> add_all add ks t1; Some (b # bs, t2) }"

fun first_seen :: "'k set \<Rightarrow> 'k list \<Rightarrow> bool list" where
  "first_seen A [] = []"
| "first_seen A (k # ks) = (k \<notin> A) # first_seen (insert k A) ks"

locale seen_register =
  fixes ok :: "'t \<Rightarrow> bool" and seen :: "'t \<Rightarrow> 'k set"
    and add :: "'k \<Rightarrow> 't \<Rightarrow> (bool \<times> 't) option" and clear :: "'t \<Rightarrow> 't"
  assumes add_law: "ok t \<Longrightarrow> \<exists>t'. add k t = Some (k \<notin> seen t, t') \<and> ok t' \<and> seen t' = insert k (seen t)"
    and clear_law: "ok (clear t)" "seen (clear t) = {}"
begin

lemma add_all_first_seen:
  "ok t \<Longrightarrow> \<exists>t'. add_all add ks t = Some (first_seen (seen t) ks, t') \<and> ok t' \<and> seen t' = seen t \<union> set ks"
proof (induction ks arbitrary: t)
  case Nil
  then show ?case by simp
next
  case (Cons k ks)
  from add_law[OF Cons.prems] obtain t1 where t1: "add k t = Some (k \<notin> seen t, t1)" "ok t1" "seen t1 = insert k (seen t)"
    by blast
  from Cons.IH[OF t1(2)] t1 show ?case by auto
qed

lemma cleared_run: "\<exists>t'. add_all add ks (clear t) = Some (first_seen {} ks, t') \<and> seen t' = set ks"
  using add_all_first_seen[OF clear_law(1), of ks t] by (auto simp: clear_law)

end

interpretation nonces: seen_register nonce_table_wf table_nonces check_add reset
  using check_add_set reset_set by unfold_locales auto

text \<open>The nonce table: after a reset, a sequence of \<^verbatim>\<open>check_add\<close> calls answers true exactly for the first
  occurrence of each nonce, whatever the collisions in its 387 buckets, and no call traps or runs forever.\<close>

theorem nonce_table_first_use:
  "\<exists>t'. add_all check_add ns (reset t) = Some (first_seen {} ns, t') \<and> table_nonces t' = set ns"
  by (rule nonces.cleared_run)

subsection \<open>What a solution is\<close>

lemma bit_mask_255: "bit (0xFF :: uint32) t \<longleftrightarrow> t < 8"
proof -
  have "(0xFF :: uint32) = mask 8" by (simp add: mask_eq_exp_minus_1)
  then show ?thesis by (simp only: bit_mask_iff) auto
qed

lemma high_bits_zero:
  assumes "unat d \<le> 8"
  shows "(ucast (push_bit (unat (8 - d)) (0xFF :: uint32)) :: byte) AND h = 0
    \<longleftrightarrow> (\<forall>i < unat (d :: uint32). \<not> bit h (7 - i))" (is "?m AND h = 0 \<longleftrightarrow> ?R")
proof -
  have n: "unat (8 - d) = 8 - unat d" using assms by (simp add: unat_sub word_le_nat_alt)
  have b: "bit ?m t \<longleftrightarrow> t < 8 \<and> 8 - unat d \<le> t" for t
  proof -
    obtain F :: uint32 where F: "0xFF = F" by simp
    show ?thesis unfolding n F by (auto simp: bit_simps bit_mask_255[unfolded F])
  qed
  have "?m AND h = 0 \<longleftrightarrow> (\<forall>t < 8. 8 - unat d \<le> t \<longrightarrow> \<not> bit h t)"
    by (auto simp: bit_eq_iff bit_and_iff b)
  also have "\<dots> \<longleftrightarrow> ?R"
  proof
    assume *: "\<forall>t<8. 8 - unat d \<le> t \<longrightarrow> \<not> bit h t"
    show ?R using * assms by (auto simp: le_diff_conv2)
  next
    assume R: ?R
    show "\<forall>t<8. 8 - unat d \<le> t \<longrightarrow> \<not> bit h t"
    proof (intro allI impI)
      fix t :: nat assume "t < 8" "8 - unat d \<le> t"
      then show "\<not> bit h t" using R[rule_format, of "7 - t"] assms by simp
    qed
  qed
  finally show ?thesis .
qed

lemma leading_zeros_bits:
  assumes "unat d \<le> 8 * (length h - k)" "k < length h"
  shows "leading_zeros h k d = Some (\<forall>i < unat d. \<not> bit (h ! (k + i div 8)) (7 - i mod 8))"
  using assms
proof (induction h k d rule: leading_zeros.induct)
  case (1 h k d)
  show ?case
  proof (cases "8 < d")
    case False
    then have d: "unat d \<le> 8" by (simp add: not_less word_le_nat_alt)
    then have "(\<forall>i < unat d. \<not> bit (h ! k) (7 - i)) \<longleftrightarrow> (\<forall>i < unat d. \<not> bit (h ! (k + i div 8)) (7 - i mod 8))" by auto
    with False 1(3) high_bits_zero[OF d, of "h ! k"] show ?thesis
      by (subst leading_zeros.simps) (simp add: Let_def)
  next
    case True
    then have d: "8 < unat d" by (simp add: word_less_nat_alt)
    have d8: "unat (d - 8) = unat d - 8" using d by (simp add: unat_diff_32)
    have first: "h ! k = 0 \<longleftrightarrow> (\<forall>i < 8. \<not> bit (h ! k) (7 - i))"
    proof
      assume *: "\<forall>i < 8. \<not> bit (h ! k) (7 - i)"
      show "h ! k = 0"
      proof (rule byte_eqI)
        fix t :: nat assume "t < 8"
        then show "bit (h ! k) t = bit 0 t" using *[rule_format, of "7 - t"] by simp
      qed
    qed simp
    have split: "(\<forall>i < unat d. \<not> bit (h ! (k + i div 8)) (7 - i mod 8)) \<longleftrightarrow>
       h ! k = 0 \<and> (\<forall>i < unat (d - 8). \<not> bit (h ! (k + 1 + i div 8)) (7 - i mod 8))" (is "?A \<longleftrightarrow> _ \<and> ?B")
    proof
      assume A: ?A
      have "\<not> bit (h ! k) (7 - i)" if "i < 8" for i using A[rule_format, of i] that d by simp
      moreover have "\<not> bit (h ! (k + 1 + i div 8)) (7 - i mod 8)" if "i < unat (d - 8)" for i
        using A[rule_format, of "8 + i"] that d8 le_div_geq[of 8 "8 + i"] by simp
      ultimately show "h ! k = 0 \<and> ?B" unfolding first by simp
    next
      assume *: "h ! k = 0 \<and> ?B"
      show ?A
      proof (intro allI impI)
        fix i assume i: "i < unat d"
        show "\<not> bit (h ! (k + i div 8)) (7 - i mod 8)"
        proof (cases "i < 8")
          case False
          then have "i div 8 = Suc ((i - 8) div 8)" "i mod 8 = (i - 8) mod 8" by (simp_all add: le_div_geq le_mod_geq)
          with *[THEN conjunct2, rule_format, of "i - 8"] i d8 False show ?thesis by simp
        qed (use * in simp)
      qed
    qed
    have "k + 1 < length h" using 1(2) d by simp
    with 1(1)[OF True, of "h ! k"] 1(2,3) d8 have
      "h ! k = 0 \<Longrightarrow> leading_zeros h (k + 1) (d - 8) = Some (\<forall>i < unat (d - 8). \<not> bit (h ! (k + 1 + i div 8)) (7 - i mod 8))"
      by auto
    with True 1(3) show ?thesis
      unfolding split by (subst leading_zeros.simps) auto
  qed
qed

text \<open>What the code relies on of SHA-256: digests have 32 bytes.\<close>

definition digest_law :: "(byte list \<Rightarrow> byte list) \<Rightarrow> bool" where
  "digest_law sha256 \<longleftrightarrow> (\<forall>x. length (sha256 x) = 32)"

definition solves :: "(byte list \<Rightarrow> byte list) \<Rightarrow> uint32 \<Rightarrow> nonce \<Rightarrow> nonce \<Rightarrow> nat \<Rightarrow> uint32 \<Rightarrow> bool" where
  "solves sha256 solution cn sn d ident \<longleftrightarrow>
     (\<forall>i < d. \<not> bit (sha256 (puzzle_message solution cn sn ident) ! (i div 8)) (7 - i mod 8))"

lemma check_one_solution_solves:
  assumes "digest_law sha256" "unat d \<le> 256"
  shows "check_one_solution sha256 solution cn sn d ident = Some (solves sha256 solution cn sn (unat d) ident)"
proof -
  have "length (sha256 (puzzle_message solution cn sn ident)) = 32" using assms(1) by (simp add: digest_law_def)
  then show ?thesis
    using leading_zeros_bits[of d "sha256 (puzzle_message solution cn sn ident)" 0] assms(2)
    by (fastforce simp: check_one_solution_def solves_def)
qed

subsection \<open>The manager accepts a solution once\<close>

definition manager_wf :: "client_puzzle_manager \<Rightarrow> bool" where
  "manager_wf m \<longleftrightarrow> nonce_table_wf (current_nonce_table m) \<and> nonce_table_wf (last_nonce_table m)
     \<and> current_difficulty m = initial_puzzle_difficulty"

definition seen_for :: "client_puzzle_manager \<Rightarrow> nonce \<Rightarrow> nonce set" where
  "seen_for m sn = (if sn = current_nonce m then table_nonces (current_nonce_table m)
     else if sn = last_nonce m then table_nonces (last_nonce_table m) else {})"

text \<open>The answer of \<^verbatim>\<open>check_solution\<close> as a function of what has been seen.\<close>

definition verdict :: "(byte list \<Rightarrow> byte list) \<Rightarrow> uint32 \<Rightarrow> nonce \<Rightarrow> nonce \<Rightarrow> uint32 \<Rightarrow> uint32 \<Rightarrow> client_puzzle_manager \<Rightarrow> result_code" where
  "verdict sha256 solution cn sn d ident m =
     (if d \<noteq> initial_puzzle_difficulty then invalid_puzzle_difficulty
      else if sn \<noteq> current_nonce m \<and> sn \<noteq> last_nonce m then invalid_server_nonce
      else if \<not> solves sha256 solution cn sn 17 ident then invalid_solution
      else if cn \<in> seen_for m sn then invalid_client_nonce else success)"

lemma check_solution_verdict:
  assumes sha: "digest_law sha256" and wf: "manager_wf m"
  shows "\<exists>m'. check_solution sha256 solution cn sn d ident m = Some (verdict sha256 solution cn sn d ident m, m')
     \<and> manager_wf m' \<and> current_nonce m' = current_nonce m \<and> last_nonce m' = last_nonce m
     \<and> (\<forall>k. seen_for m' k = (if k = sn \<and> verdict sha256 solution cn sn d ident m = success
            then insert cn (seen_for m k) else seen_for m k))"
proof -
  have one: "check_one_solution sha256 solution cn k 17 ident = Some (solves sha256 solution cn k 17 ident)" for k
    using check_one_solution_solves[OF sha, of 17 solution cn k ident] by simp
  note defs = check_solution_def verdict_def initial_puzzle_difficulty_def manager_wf_def seen_for_def one
  obtain t where t: "check_add cn (current_nonce_table m) = Some (cn \<notin> table_nonces (current_nonce_table m), t)"
    "nonce_table_wf t" "table_nonces t = insert cn (table_nonces (current_nonce_table m))"
    using nonces.add_law[of "current_nonce_table m" cn] wf by (auto simp: manager_wf_def)
  obtain u where u: "check_add cn (last_nonce_table m) = Some (cn \<notin> table_nonces (last_nonce_table m), u)"
    "nonce_table_wf u" "table_nonces u = insert cn (table_nonces (last_nonce_table m))"
    using nonces.add_law[of "last_nonce_table m" cn] wf by (auto simp: manager_wf_def)
  consider "d \<noteq> 17 \<or> sn \<noteq> current_nonce m \<and> sn \<noteq> last_nonce m \<or> \<not> solves sha256 solution cn sn 17 ident"
    | "d = 17" "sn = current_nonce m" "solves sha256 solution cn sn 17 ident"
    | "d = 17" "sn \<noteq> current_nonce m" "sn = last_nonce m" "solves sha256 solution cn sn 17 ident" by blast
  then show ?thesis
  proof cases
    case 1
    then have "check_solution sha256 solution cn sn d ident m = Some (verdict sha256 solution cn sn d ident m, m)"
      "verdict sha256 solution cn sn d ident m \<noteq> success" using wf by (auto simp: defs)
    with wf show ?thesis by simp
  next
    case 2
    then have "check_solution sha256 solution cn sn d ident m = Some (verdict sha256 solution cn sn d ident m, m\<lparr>current_nonce_table := t\<rparr>)"
      "verdict sha256 solution cn sn d ident m = (if cn \<in> seen_for m sn then invalid_client_nonce else success)"
      using wf t(1) by (auto simp: defs)
    with 2 wf t(2,3) show ?thesis by (auto simp: seen_for_def manager_wf_def)
  next
    case 3
    then have "check_solution sha256 solution cn sn d ident m = Some (verdict sha256 solution cn sn d ident m, m\<lparr>last_nonce_table := u\<rparr>)"
      "verdict sha256 solution cn sn d ident m = (if cn \<in> seen_for m sn then invalid_client_nonce else success)"
      using wf u(1) by (auto simp: defs)
    with 3 wf u(2,3) show ?thesis by (auto simp: seen_for_def manager_wf_def)
  qed
qed

datatype puzzle_label = Refreshed nonce | Waited | Checked nonce nonce result_code

inductive puzzle_step :: "(byte list \<Rightarrow> byte list) \<Rightarrow> 's yarrow \<Rightarrow> client_puzzle_manager \<times> 's random_generator \<Rightarrow> puzzle_label
    \<Rightarrow> client_puzzle_manager \<times> 's random_generator \<Rightarrow> bool" for sha256 y where
  refresh: "puzzle_refresh_time < now - last_update_time m \<Longrightarrow> tick y now m g = (m', g')
    \<Longrightarrow> puzzle_step sha256 y (m, g) (Refreshed (current_nonce m')) (m', g')"
| wait: "\<not> puzzle_refresh_time < now - last_update_time m \<Longrightarrow> tick y now m g = (m', g')
    \<Longrightarrow> puzzle_step sha256 y (m, g) Waited (m', g')"
| check: "check_solution sha256 solution cn sn d ident m = Some (r, m')
    \<Longrightarrow> puzzle_step sha256 y (m, g) (Checked sn cn r) (m', g)"

fun refreshes :: "puzzle_label list \<Rightarrow> nonce list" where
  "refreshes [] = []"
| "refreshes (Refreshed n # ls) = n # refreshes ls"
| "refreshes (_ # ls) = refreshes ls"

fun accepted :: "puzzle_label list \<Rightarrow> (nonce \<times> nonce) list" where
  "accepted [] = []"
| "accepted (Checked sn cn success # ls) = (sn, cn) # accepted ls"
| "accepted (_ # ls) = accepted ls"

lemma refreshes_append [simp]: "refreshes (xs @ ys) = refreshes xs @ refreshes ys"
  by (induction xs rule: refreshes.induct) auto

lemma accepted_append [simp]: "accepted (xs @ ys) = accepted xs @ accepted ys"
  by (induction xs rule: accepted.induct) auto

text \<open>The invariant of a run: the server nonces in use are the last two, and what was accepted for them is in
  their tables.\<close>

definition replay_inv :: "nonce list \<Rightarrow> client_puzzle_manager \<Rightarrow> puzzle_label list \<Rightarrow> bool" where
  "replay_inv ns0 m log \<longleftrightarrow> manager_wf m \<and> (\<exists>old. ns0 @ refreshes log = old @ [last_nonce m, current_nonce m])
     \<and> (distinct (ns0 @ refreshes log) \<longrightarrow> distinct (accepted log)
         \<and> (\<forall>(sn, cn) \<in> set (accepted log). sn \<in> set (ns0 @ refreshes log)
             \<and> (sn = current_nonce m \<or> sn = last_nonce m \<longrightarrow> cn \<in> seen_for m sn)))"

lemma replay_inv_refresh:
  assumes I: "replay_inv ns0 m log" and T: "puzzle_refresh_time < now - last_update_time m" "tick y now m g = (m', g')"
  shows "replay_inv ns0 m' (log @ [Refreshed (current_nonce m')])"
proof -
  have m': "last_nonce m' = current_nonce m" "last_nonce_table m' = current_nonce_table m"
    "current_nonce_table m' = reset (last_nonce_table m)" "current_difficulty m' = current_difficulty m"
    using T by (auto simp: tick_def split: prod.splits)
  obtain old where old: "ns0 @ refreshes log = old @ [last_nonce m, current_nonce m]" using I by (auto simp: replay_inv_def)
  have "manager_wf m'" using I m' nonces.clear_law by (simp add: replay_inv_def manager_wf_def)
  moreover have "cn \<in> seen_for m' sn"
    if "distinct (ns0 @ refreshes log @ [current_nonce m'])" "(sn, cn) \<in> set (accepted log)"
      and "sn = current_nonce m' \<or> sn = current_nonce m" for sn cn
  proof -
    have A: "sn \<in> set (ns0 @ refreshes log)" "sn = current_nonce m \<Longrightarrow> cn \<in> seen_for m sn"
      using I that(1,2) by (auto simp: replay_inv_def)
    with that have "sn = current_nonce m" "current_nonce m' \<noteq> current_nonce m" by auto
    with A(2) m' show ?thesis by (auto simp: seen_for_def)
  qed
  moreover have "distinct (accepted log)" "\<forall>(sn, cn) \<in> set (accepted log). sn \<in> set (ns0 @ refreshes log)"
    if "distinct (ns0 @ refreshes log @ [current_nonce m'])" using I that by (auto simp: replay_inv_def)
  moreover have "ns0 @ refreshes (log @ [Refreshed (current_nonce m')]) = (old @ [last_nonce m]) @ [last_nonce m', current_nonce m']"
    using old m'(1) by simp
  ultimately show ?thesis unfolding replay_inv_def m'(1)
    by (intro conjI exI[of _ "old @ [last_nonce m]"] impI ballI) auto
qed

lemma replay_inv_step:
  assumes sha: "digest_law sha256" and I: "replay_inv ns0 (fst s) log" and S: "puzzle_step sha256 y s l s'"
  shows "replay_inv ns0 (fst s') (log @ [l])"
  using S
proof (cases rule: puzzle_step.cases)
  case (refresh now m m' g g')
  then show ?thesis using replay_inv_refresh I by auto
next
  case (wait now m m' g g')
  then show ?thesis using I by (auto simp: tick_def replay_inv_def)
next
  case (check solution cn sn d ident m r m' g)
  then have I': "replay_inv ns0 m log" using I by simp
  then have wf: "manager_wf m" and "\<exists>old. ns0 @ refreshes log = old @ [last_nonce m, current_nonce m]"
    by (simp_all add: replay_inv_def)
  then have used: "current_nonce m \<in> set (ns0 @ refreshes log)" "last_nonce m \<in> set (ns0 @ refreshes log)"
    by (elim exE; simp only: set_append; simp)+
  from check_solution_verdict[OF sha wf, of solution cn sn d ident] check
  have m': "manager_wf m'" "current_nonce m' = current_nonce m" "last_nonce m' = last_nonce m"
    "r = verdict sha256 solution cn sn d ident m"
    "\<And>k. seen_for m' k = (if k = sn \<and> r = success then insert cn (seen_for m k) else seen_for m k)" by auto
  show ?thesis
  proof (cases "r = success")
    case True
    then have new: "sn = current_nonce m \<or> sn = last_nonce m" "cn \<notin> seen_for m sn"
      using m'(4) by (auto simp: verdict_def split: if_splits)
    then have "sn \<in> set (ns0 @ refreshes log)" using used by auto
    moreover have "(sn, cn) \<notin> set (accepted log)" if "distinct (ns0 @ refreshes log)"
      using I' that new by (auto simp: replay_inv_def)
    ultimately show ?thesis using I' check m' True by (auto simp: replay_inv_def)
  next
    case False
    then have "accepted [l] = []" using check by (cases r) auto
    with I' check m' False show ?thesis by (auto simp: replay_inv_def)
  qed
qed

text \<open>C21. No solution counts twice: in any interleaving of ticks and submitted solutions on a new manager, as long
  as the server nonces drawn from the generator are distinct, no pair of a server nonce and a client nonce
  is ever accepted a second time.\<close>

theorem puzzle_no_replay:
  assumes "digest_law sha256" and "new_puzzle_manager y u now g = (m0, g0)"
    and "run (puzzle_step sha256 y) (m0, g0) log (m, g')"
    and "distinct (last_nonce m0 # current_nonce m0 # refreshes log)"
  shows "distinct (accepted log)"
proof -
  have "replay_inv [last_nonce m0, current_nonce m0] (fst (m0, g0)) []"
    using assms(2) nonces.clear_law(1)
    by (auto simp: replay_inv_def manager_wf_def new_puzzle_manager_def new_nonce_table_def split: prod.splits)
  then have "replay_inv [last_nonce m0, current_nonce m0] (fst (m, g')) log"
    by (rule run_invariant[OF assms(3), where I = "\<lambda>s log. replay_inv [last_nonce m0, current_nonce m0] (fst s) log"])
      (rule replay_inv_step[OF assms(1)])
  with assms(4) show ?thesis by (simp add: replay_inv_def)
qed

theorem puzzle_no_replay_witness:
  "\<exists>y m0 g0 m. new_puzzle_manager y 0 0 (new_random_generator y) = (m0, g0 :: nat random_generator)
     \<and> run (puzzle_step (\<lambda>x. replicate 32 0) y) (m0, g0) [Checked 0 7 success] (m, g0)
     \<and> distinct (accepted [Checked 0 7 success])"
proof -
  let ?y = "\<lparr>yarrow_start = 0, yarrow_ready = id, yarrow_add_entropy = \<lambda>_. id,
    yarrow_read = \<lambda>n s. (replicate n (word_of_nat s), Suc s)\<rparr> :: nat yarrow"
  let ?sha = "\<lambda>x :: byte list. replicate 32 (0 :: byte)"
  obtain m0 g0 where m0: "new_puzzle_manager ?y 0 0 (new_random_generator ?y) = (m0, g0)" by fastforce
  have sha: "digest_law ?sha" by (simp add: digest_law_def)
  have b: "u64_of_bytes (replicate 8 0) = 0" "u64_of_bytes (replicate 8 1) \<noteq> 0" by code_simp+
  have n: "current_nonce m0 = 0" "last_nonce m0 \<noteq> 0" "manager_wf m0" "seen_for m0 0 = {}"
    using m0 reset_set by (auto simp: new_puzzle_manager_def new_random_generator_def random_nonce_def random_buffer_def
        manager_wf_def new_nonce_table_def seen_for_def b)
  have "verdict ?sha 0 7 0 17 1 m0 = success"
    using n by (simp add: verdict_def initial_puzzle_difficulty_def solves_def)
  with check_solution_verdict[OF sha n(3), of 0 7 0 17 1] obtain m
    where "check_solution ?sha 0 7 0 17 1 m0 = Some (success, m)" by auto
  then have "puzzle_step ?sha ?y (m0, g0) (Checked 0 7 success) (m, g0)" by (rule puzzle_step.check)
  then have R: "run (puzzle_step ?sha ?y) (m0, g0) [Checked 0 7 success] (m, g0)" by (rule run_single)
  moreover have "distinct (accepted [Checked 0 7 success])"
    by (rule puzzle_no_replay[OF sha m0 R]) (use n in auto)
  ultimately show ?thesis using m0 by blast
qed

subsection \<open>The solver finds a solution the host accepts\<close>

lemma solve_loop_least:
  assumes sha: "digest_law sha256" "unat d \<le> 256" and go: "\<And>j. \<not> cancelled j"
    and least: "\<And>j. j < n \<Longrightarrow> \<not> solves sha256 (word_of_nat j) cn sn (unat d) ident"
    and sol: "solves sha256 (word_of_nat n) cn sn (unat d) ident"
  shows "k \<le> n \<Longrightarrow> solve_loop sha256 cancelled cn sn d ident k (word_of_nat k) = Some (Suc n, word_of_nat n)"
proof (induction "n - k" arbitrary: k)
  case 0
  then show ?case using go sol by (subst solve_loop.simps) (simp add: check_one_solution_solves[OF sha])
next
  case (Suc m)
  then have "\<not> solves sha256 (word_of_nat k) cn sn (unat d) ident" using least by auto
  with Suc.hyps(1)[of "Suc k"] Suc.hyps(2) go show ?case
    by (subst solve_loop.simps) (simp add: check_one_solution_solves[OF sha] add.commute)
qed

definition puzzle_request :: "nonce \<Rightarrow> nonce \<Rightarrow> uint32 \<Rightarrow> uint32 \<Rightarrow> byte list" where
  "puzzle_request cn sn d ident = bytes_of_u64 cn @ bytes_of_u64 sn @ bytes_of_u32 d @ bytes_of_u32 ident"

lemma process_request_least:
  assumes sha: "digest_law sha256" "unat d \<le> 256" and go: "\<And>j. \<not> cancelled j"
    and sol: "solves sha256 s cn sn (unat d) ident"
  shows "\<exists>b. process_request sha256 cancelled mem n0 r0 d0 i0 \<lparr>data_ptr = puzzle_request cn sn d ident, buf_size = 24\<rparr> = Some (Some b)
     \<and> buffer_exact b \<and> (\<exists>s'. contents b = bytes_of_u32 s' \<and> s' \<le> s \<and> solves sha256 s' cn sn (unat d) ident)"
proof -
  define n where "n = (LEAST j. solves sha256 (word_of_nat j) cn sn (unat d) ident)"
  have s: "solves sha256 (word_of_nat (unat s)) cn sn (unat d) ident" using sol by simp
  have n: "solves sha256 (word_of_nat n) cn sn (unat d) ident" "n \<le> unat s"
    unfolding n_def using s by (rule LeastI) (rule Least_le, rule s)
  have least: "\<not> solves sha256 (word_of_nat j) cn sn (unat d) ident" if "j < n" for j
    using that not_less_Least unfolding n_def by blast
  have loop: "solve_loop sha256 cancelled cn sn d ident 0 0 = Some (Suc n, word_of_nat n)"
    using solve_loop_least[where n = n and k = 0 and cancelled = cancelled, OF sha go least n(1)] by simp
  let ?st = "make_stream (puzzle_request cn sn d ident) 24"
  have st: "stream_wf ?st" "rbits ?st = byte_bits (bytes_of_u64 cn) @ byte_bits (bytes_of_u64 sn) @ byte_bits (bytes_of_u32 d) @ byte_bits (bytes_of_u32 ident)"
    using make_stream_rbits[of 24 "puzzle_request cn sn d ident"] by (simp_all add: puzzle_request_def)
  obtain r1 s1 where s1: "read_u64 n0 ?st = Some (r1, cn, s1)" "stream_wf s1"
    "rbits s1 = byte_bits (bytes_of_u64 sn) @ byte_bits (bytes_of_u32 d) @ byte_bits (bytes_of_u32 ident)"
    using u64.read_law[OF st(1) _ st(2), of n0] by auto
  obtain r2 s2 where s2: "read_u64 r0 s1 = Some (r2, sn, s2)" "stream_wf s2"
    "rbits s2 = byte_bits (bytes_of_u32 d) @ byte_bits (bytes_of_u32 ident)"
    using u64.read_law[OF s1(2) _ s1(3), of r0] by auto
  obtain s3 where s3: "read_u32 d0 s2 = Some (True, d, s3)" "stream_wf s3" "rbits s3 = byte_bits (bytes_of_u32 ident) @ []"
    using read_u32_ok[OF s2(2,3), of d0] by auto
  obtain s4 where s4: "read_u32 i0 s3 = Some (True, ident, s4)" using read_u32_ok[OF s3(2,3), of i0] by auto
  let ?r = "make_stream (map mem [0..<4]) 4"
  have r: "stream_wf ?r" "32 \<le> room ?r" "wbits ?r = []" "length (base_ptr ?r) = 4"
    using make_stream_rbits[of 4 "map mem [0..<4]"] by (simp_all add: wbits_def)
  obtain r' where r': "write_u32 (word_of_nat n) ?r = Some (True, r')" "same_frame ?r r'"
    "wbits r' = byte_bits (bytes_of_u32 (word_of_nat n))" using write_u32_ok[OF r(1,2)] r(3) by auto
  have "base_ptr r' = bytes_of_u32 (word_of_nat n)"
    using written_whole[OF r'(3)] r'(2) r(4) by (simp add: same_frame_def)
  then have "process_request sha256 cancelled mem n0 r0 d0 i0 \<lparr>data_ptr = puzzle_request cn sn d ident, buf_size = 24\<rparr>
     = Some (Some \<lparr>data_ptr = bytes_of_u32 (word_of_nat n), buf_size = 4\<rparr>)"
    using s1(1) s2(1) s3(1) s4 loop go r'(1) by (simp add: process_request_def buffer_of_size_def)
  moreover have "word_of_nat n \<le> s" using n(2) unat_less_32[of s]
    by (simp add: word_le_nat_alt unat_of_nat_small)
  ultimately show ?thesis using n(1) by (auto simp: contents_def buffer_exact_def)
qed

text \<open>C22. The solver and the host agree: if any solution exists, the solver thread ends, unless it is cancelled,
  with the least one, and the host accepts what the solver wrote into its response, for a client nonce
  not yet used with one of its two server nonces.\<close>

theorem puzzle_solved_and_accepted:
  assumes "digest_law sha256" "manager_wf m" "\<And>j. \<not> cancelled j"
    and "solves sha256 s cn sn 17 ident" "sn = current_nonce m \<or> sn = last_nonce m" "cn \<notin> seen_for m sn"
  shows "\<exists>b s' m'. process_request sha256 cancelled mem n0 r0 d0 i0
         \<lparr>data_ptr = puzzle_request cn sn (current_difficulty m) ident, buf_size = 24\<rparr> = Some (Some b)
     \<and> contents b = bytes_of_u32 s' \<and> s' \<le> s
     \<and> check_solution sha256 s' cn sn (current_difficulty m) ident m = Some (success, m')"
proof -
  have d: "current_difficulty m = 17" using assms(2) by (simp add: manager_wf_def initial_puzzle_difficulty_def)
  obtain b s' where b: "process_request sha256 cancelled mem n0 r0 d0 i0 \<lparr>data_ptr = puzzle_request cn sn 17 ident, buf_size = 24\<rparr> = Some (Some b)"
    "contents b = bytes_of_u32 s'" "s' \<le> s" "solves sha256 s' cn sn 17 ident"
    using process_request_least[where d = 17 and cancelled = cancelled, OF assms(1) _ assms(3), of s cn sn ident mem n0 r0 d0 i0] assms(4) by auto
  then have "verdict sha256 s' cn sn 17 ident m = success"
    using assms(5,6) by (auto simp: verdict_def initial_puzzle_difficulty_def)
  with check_solution_verdict[OF assms(1,2), of s' cn sn 17 ident] b show ?thesis unfolding d by auto
qed

theorem puzzle_solved_and_accepted_witness:
  "\<exists>b s' m'. process_request (\<lambda>x. replicate 32 0) (\<lambda>_. False) (\<lambda>_. 0) 0 0 0 0
         \<lparr>data_ptr = puzzle_request 5 6 17 1, buf_size = 24\<rparr> = Some (Some b)
     \<and> contents b = bytes_of_u32 s' \<and> s' \<le> 9
     \<and> check_solution (\<lambda>x. replicate 32 0) s' 5 6 17 1 \<lparr>current_difficulty = 17, last_update_time = 0, last_tick_time = 0,
         current_nonce = 6, last_nonce = 4, current_nonce_table = new_nonce_table, last_nonce_table = new_nonce_table\<rparr> = Some (success, m')"
proof -
  let ?m = "\<lparr>current_difficulty = 17, last_update_time = 0, last_tick_time = 0,
         current_nonce = 6, last_nonce = 4, current_nonce_table = new_nonce_table, last_nonce_table = new_nonce_table\<rparr>"
  have "manager_wf ?m" "5 \<notin> seen_for ?m 6"
    using reset_set by (simp_all add: manager_wf_def initial_puzzle_difficulty_def new_nonce_table_def seen_for_def)
  then show ?thesis
    using puzzle_solved_and_accepted[where ?sha256.0 = "\<lambda>x. replicate 32 0" and m = ?m and cancelled = "\<lambda>_. False" and s = 9 and cn = 5 and sn = 6
        and ident = 1 and mem = "\<lambda>_. 0" and ?n0.0 = 0 and ?r0.0 = 0 and ?d0.0 = 0 and ?i0.0 = 0]
    by (simp add: digest_law_def solves_def)
qed

text \<open>After its nonce is replaced a host still honours the previous one: solutions for the nonce current before
  a refresh are judged against the same set of used client nonces as before, and the new nonce starts with
  an empty set.\<close>

lemma puzzle_refresh_keeps_last:
  assumes "puzzle_refresh_time < now - last_update_time m" "tick y now m g = (m', g')" "current_nonce m' \<noteq> current_nonce m"
  shows "seen_for m' (current_nonce m) = seen_for m (current_nonce m) \<and> seen_for m' (current_nonce m') = {}
     \<and> last_nonce m' = current_nonce m \<and> last_update_time m' = now"
  using assms nonces.clear_law by (auto simp: tick_def seen_for_def split: prod.splits)

end
