(* ===== verification/Hash_Table_Flat.thy ===== *)
theory Hash_Table_Flat
  imports Prelude "HOL-Library.Multiset"
begin

text \<open>
  \<^verbatim>\<open>core/hash_table_flat.h\<close> and the parts of \<^verbatim>\<open>core/hash.h\<close> it uses: an open-addressing hash table
  with linear probing.  A bucket is \<open>None\<close> (not valid) or holds a key and a value; the hash function is
  an argument of the operations.  The probing loops are \<open>partial_function\<close>s: on a table without a free
  bucket they would not end.  The socket keeps its connections in two such tables.
\<close>

subsection \<open>Sizes and counters\<close>

definition hash_primes :: "uint32 list" where
  "hash_primes = [5, 11, 23, 53, 97, 193, 389, 769, 1543, 3079, 6151, 12289, 24593, 49157, 98317, 196613, 393241,
     786433, 1572869, 3145739, 6291469, 12582917, 25165843, 50331653, 100663319, 201326611, 402653189, 805306457,
     1610612741, 3221225473, 4294967291]"

definition next_larger_hash_prime :: "uint32 \<Rightarrow> uint32 option" where
  "next_larger_hash_prime number = do {
     assert (number < 4294967291);
     find (\<lambda>p. number < p) hash_primes }"

text \<open>The constructor of \<^verbatim>\<open>looping_counter\<close>: an initial value below the cnt starts at 0.\<close>

definition looping_counter :: "uint32 \<Rightarrow> uint32 \<Rightarrow> uint32 option" where
  "looping_counter initial_value cnt = do {
     assert (0 < cnt);
     Some (if initial_value < cnt then 0 else initial_value mod cnt) }"

definition loop_next :: "uint32 \<Rightarrow> uint32 \<Rightarrow> uint32" where
  "loop_next cnt index = (if cnt \<le> index + 1 then 0 else index + 1)"

definition hash_buffer :: "byte list \<Rightarrow> uint32" where
  "hash_buffer buf = foldl (\<lambda>result b. (push_bit 8 result OR drop_bit 24 result) XOR ucast b) 0 buf"

subsection \<open>The table\<close>

type_synonym ('k, 'v) buckets = "('k \<times> 'v) option list"

record ('k, 'v) hash_table_flat =
  ht_table :: "('k, 'v) buckets"
  entry_count :: uint32
  table_size :: uint32
  resize_threshold :: uint32

definition alloc_table :: "uint32 \<Rightarrow> ('k, 'v) buckets" where
  "alloc_table n = replicate (unat n) None"

definition ht_init :: "uint32 \<Rightarrow> ('k, 'v) hash_table_flat" where
  "ht_init initial_size = \<lparr>ht_table = alloc_table initial_size, entry_count = 0, table_size = initial_size, resize_threshold = 0\<rparr>"

definition ht_clear :: "('k, 'v) hash_table_flat \<Rightarrow> ('k, 'v) hash_table_flat" where
  "ht_clear t = \<lparr>ht_table = [], entry_count = 0, table_size = 0, resize_threshold = 0\<rparr>"

text \<open>\<^verbatim>\<open>while(!stop) ++bucket;\<close>\<close>

partial_function (option) probe ::
    "(uint32 \<Rightarrow> ('k \<times> 'v) option \<Rightarrow> bool) \<Rightarrow> ('k, 'v) buckets \<Rightarrow> uint32 \<Rightarrow> uint32 \<Rightarrow> uint32 option" where
  "probe stop table cnt bucket = do {
     e \<leftarrow> load table (unat bucket);
     if stop bucket e then Some bucket else probe stop table cnt (loop_next cnt bucket) }"

definition insert_in_table :: "('k \<Rightarrow> uint32) \<Rightarrow> 'k \<Rightarrow> 'v \<Rightarrow> ('k, 'v) buckets \<Rightarrow> uint32 \<Rightarrow> (uint32 \<times> ('k, 'v) buckets) option" where
  "insert_in_table hash key value table cnt = do {
     start \<leftarrow> looping_counter (hash key) cnt;
     bucket \<leftarrow> probe (\<lambda>_ e. e = None) table cnt start;
     table' \<leftarrow> store table (unat bucket) (Some (key, value));
     Some (bucket, table') }"

primrec reinsert_all :: "('k \<Rightarrow> uint32) \<Rightarrow> ('k, 'v) buckets \<Rightarrow> ('k, 'v) buckets \<Rightarrow> uint32 \<Rightarrow> ('k, 'v) buckets option" where
  "reinsert_all hash [] new_table new_size = Some new_table"
| "reinsert_all hash (e # es) new_table new_size = (case e of
      None \<Rightarrow> reinsert_all hash es new_table new_size
    | Some (k, v) \<Rightarrow> do {
        (_, new_table') \<leftarrow> insert_in_table hash k v new_table new_size;
        reinsert_all hash es new_table' new_size })"

definition grow :: "('k \<Rightarrow> uint32) \<Rightarrow> ('k, 'v) hash_table_flat \<Rightarrow> ('k, 'v) hash_table_flat option" where
  "grow hash t = do {
     new_size \<leftarrow> next_larger_hash_prime (table_size t);
     let new_threshold = drop_bit 1 new_size;
     assert (entry_count t < new_threshold);
     new_table \<leftarrow> reinsert_all hash (ht_table t) (alloc_table new_size) new_size;
     Some ((ht_clear t)\<lparr>entry_count := entry_count t, table_size := new_size, resize_threshold := new_threshold,
             ht_table := new_table\<rparr>) }"

text \<open>\<^verbatim>\<open>insert\<close>: no bucket is searched for the key first, so a second insert of a key makes a second entry.\<close>

definition ht_insert :: "('k \<Rightarrow> uint32) \<Rightarrow> 'k \<Rightarrow> 'v \<Rightarrow> ('k, 'v) hash_table_flat \<Rightarrow> (uint32 \<times> ('k, 'v) hash_table_flat) option" where
  "ht_insert hash key value t = do {
     t1 \<leftarrow> (if resize_threshold t \<le> entry_count t then grow hash t else Some t);
     (insert_index, table) \<leftarrow> insert_in_table hash key value (ht_table t1) (table_size t1);
     Some (insert_index, t1\<lparr>ht_table := table, entry_count := entry_count t1 + 1\<rparr>) }"

definition ht_find :: "('k \<Rightarrow> uint32) \<Rightarrow> 'k \<Rightarrow> ('k, 'v) hash_table_flat \<Rightarrow> uint32 option" where
  "ht_find hash key t =
     (if table_size t = 0 then Some 0
      else do {
        start \<leftarrow> looping_counter (hash key) (table_size t);
        bucket \<leftarrow> probe (\<lambda>_ e. e = None \<or> map_option fst e = Some key) (ht_table t) (table_size t) start;
        e \<leftarrow> load (ht_table t) (unat bucket);
        Some (if e = None then table_size t else bucket) })"

text \<open>The access functions of \<^verbatim>\<open>pointer\<close>; the null pointer is \<open>None\<close>.\<close>

definition is_valid :: "('k, 'v) hash_table_flat \<Rightarrow> uint32 \<Rightarrow> bool" where
  "is_valid t index \<longleftrightarrow> index < table_size t \<and> ht_table t ! unat index \<noteq> None"

definition ht_key :: "('k, 'v) hash_table_flat \<Rightarrow> uint32 \<Rightarrow> 'k option" where
  "ht_key t index = (if is_valid t index then map_option fst (ht_table t ! unat index) else None)"

definition ht_value :: "('k, 'v) hash_table_flat \<Rightarrow> uint32 \<Rightarrow> 'v option" where
  "ht_value t index = (if is_valid t index then map_option snd (ht_table t ! unat index) else None)"

definition ht_lookup :: "('k \<Rightarrow> uint32) \<Rightarrow> 'k \<Rightarrow> ('k, 'v) hash_table_flat \<Rightarrow> 'v option option" where
  "ht_lookup hash key t = map_option (ht_value t) (ht_find hash key t)"

text \<open>The loop of \<^verbatim>\<open>_remove\<close> that moves overflowed entries back.\<close>

partial_function (option) fix_overflow ::
    "('k \<Rightarrow> uint32) \<Rightarrow> uint32 \<Rightarrow> ('k, 'v) buckets \<Rightarrow> uint32 \<Rightarrow> ('k, 'v) buckets option" where
  "fix_overflow hash cnt table bucket0 = do {
     let bucket = loop_next cnt bucket0;
     e \<leftarrow> load table (unat bucket);
     (case e of None \<Rightarrow> Some table
      | Some (k, v) \<Rightarrow> do {
          start \<leftarrow> looping_counter (hash k) cnt;
          if start = bucket then fix_overflow hash cnt table bucket
          else do {
            correct_bucket \<leftarrow> probe (\<lambda>i e. e = None \<or> i = bucket) table cnt start;
            if correct_bucket = bucket then fix_overflow hash cnt table bucket
            else do {
              table1 \<leftarrow> store table (unat correct_bucket) (Some (k, v));
              table2 \<leftarrow> store table1 (unat bucket) None;
              fix_overflow hash cnt table2 bucket } } }) }"

definition ht_remove_at :: "('k \<Rightarrow> uint32) \<Rightarrow> uint32 \<Rightarrow> ('k, 'v) hash_table_flat \<Rightarrow> (bool \<times> ('k, 'v) hash_table_flat) option" where
  "ht_remove_at hash remove_index t =
     (if \<not> is_valid t remove_index then Some (False, t)
      else do {
        table1 \<leftarrow> store (ht_table t) (unat remove_index) None;
        bucket \<leftarrow> looping_counter remove_index (table_size t);
        table2 \<leftarrow> fix_overflow hash (table_size t) table1 bucket;
        Some (True, t\<lparr>ht_table := table2, entry_count := entry_count t - 1\<rparr>) })"

definition ht_remove :: "('k \<Rightarrow> uint32) \<Rightarrow> 'k \<Rightarrow> ('k, 'v) hash_table_flat \<Rightarrow> (bool \<times> ('k, 'v) hash_table_flat) option" where
  "ht_remove hash key t = do {
     p \<leftarrow> ht_find hash key t;
     if is_valid t p then map_option (\<lambda>(_, t'). (True, t')) (ht_remove_at hash p t) else Some (False, t) }"

text \<open>Iteration: \<^verbatim>\<open>first\<close> and \<^verbatim>\<open>++\<close>.\<close>

function skip_invalid :: "('k, 'v) hash_table_flat \<Rightarrow> uint32 \<Rightarrow> uint32" where
  "skip_invalid t index =
     (if index < table_size t \<and> ht_table t ! unat index = None then skip_invalid t (index + 1) else index)"
  by pat_completeness auto
termination
  by (relation "measure (\<lambda>(t, i). unat (table_size t) - unat i)")
    (auto simp: unat_next word_less_nat_alt)

declare skip_invalid.simps [simp del]

definition get_first :: "('k, 'v) hash_table_flat \<Rightarrow> uint32" where
  "get_first t = skip_invalid t 0"

definition increment :: "('k, 'v) hash_table_flat \<Rightarrow> uint32 \<Rightarrow> uint32" where
  "increment t index = skip_invalid t (index + 1)"

text \<open>Code equations in which the recursive calls stand under a case distinction only.\<close>

lemma probe_code [code]:
  "probe stop table n bucket = (case load table (unat bucket) of None \<Rightarrow> None
     | Some e \<Rightarrow> if stop bucket e then Some bucket else probe stop table n (loop_next n bucket))"
  by (subst probe.simps) (auto split: option.split)

lemma fix_overflow_code [code]:
  "fix_overflow hash n table bucket0 = (let bucket = loop_next n bucket0 in
     case load table (unat bucket) of None \<Rightarrow> None | Some None \<Rightarrow> Some table
     | Some (Some (k, v)) \<Rightarrow> (case looping_counter (hash k) n of None \<Rightarrow> None
         | Some start \<Rightarrow> if start = bucket then fix_overflow hash n table bucket
             else (case probe (\<lambda>i e. e = None \<or> i = bucket) table n start of None \<Rightarrow> None
               | Some c \<Rightarrow> if c = bucket then fix_overflow hash n table bucket
                   else (case store table (unat c) (Some (k, v)) of None \<Rightarrow> None
                     | Some table1 \<Rightarrow> (case store table1 (unat bucket) None of None \<Rightarrow> None
                         | Some table2 \<Rightarrow> fix_overflow hash n table2 bucket)))))"
  by (subst fix_overflow.simps) (auto simp: Let_def split: option.split)

subsection \<open>Probing\<close>

lemma loop_next_mod:
  assumes "unat b < unat n"
  shows "unat (loop_next n b) = (unat b + 1) mod unat n"
proof -
  have "b < n" using assms by (simp add: word_less_nat_alt)
  then show ?thesis
    using unat_next[of b n] assms by (auto simp: loop_next_def word_le_nat_alt mod_if)
qed

text \<open>The \<open>d\<close>-th bucket from \<open>h\<close>, and the first one at which a condition holds.\<close>

definition nth_bucket :: "uint32 \<Rightarrow> nat \<Rightarrow> nat \<Rightarrow> nat" where
  "nth_bucket n h d = (h + d) mod unat n"

lemma nth_bucket_less: "0 < unat n \<Longrightarrow> nth_bucket n h d < unat n"
  by (simp add: nth_bucket_def)

lemma nth_bucket_0: "h < unat n \<Longrightarrow> nth_bucket n h 0 = h"
  by (simp add: nth_bucket_def)

lemma nth_bucket_Suc: "nth_bucket n h (Suc d) = nth_bucket n ((h + 1) mod unat n) d"
  by (simp add: nth_bucket_def mod_add_left_eq)

lemma probe_first:
  assumes "length tab = unat n" "unat b < unat n"
    and "\<And>i. i < d \<Longrightarrow> \<not> stop (word_of_nat (nth_bucket n (unat b) i)) (tab ! nth_bucket n (unat b) i)"
    and "stop (word_of_nat (nth_bucket n (unat b) d)) (tab ! nth_bucket n (unat b) d)"
  shows "probe stop tab n b = Some (word_of_nat (nth_bucket n (unat b) d))"
  using assms
proof (induction d arbitrary: b)
  case 0
  then show ?case by (subst probe.simps) (simp add: nth_bucket_0)
next
  case (Suc d)
  have nx: "unat (loop_next n b) = (unat b + 1) mod unat n" using Suc.prems(2) by (rule loop_next_mod)
  have "\<not> stop b (tab ! unat b)" using Suc.prems(3)[of 0] Suc.prems(2) by (simp add: nth_bucket_0)
  moreover have "probe stop tab n (loop_next n b) = Some (word_of_nat (nth_bucket n (unat (loop_next n b)) d))"
    using Suc.prems(1) Suc.prems(3)[of "Suc _"] Suc.prems(2,4) nx
    by (intro Suc.IH) (simp_all add: nth_bucket_Suc)
  ultimately show ?case
    using Suc.prems(1,2) by (subst probe.simps) (simp add: nx nth_bucket_Suc)
qed

lemma bucket_distance:
  assumes "h < unat n" "j < unat n"
  shows "\<exists>d < unat n. nth_bucket n h d = j"
proof (cases "h \<le> j")
  case True
  then show ?thesis using assms by (intro exI[of _ "j - h"]) (auto simp: nth_bucket_def)
next
  case False
  then show ?thesis using assms by (intro exI[of _ "unat n - h + j"]) (auto simp: nth_bucket_def)
qed

text \<open>A probe ends if some bucket satisfies its condition, at the first such bucket.\<close>

lemma probe_ends:
  assumes "length tab = unat n" "unat b < unat n" "j < unat n" "stop (word_of_nat j) (tab ! j)"
  obtains d where "d < unat n" "probe stop tab n b = Some (word_of_nat (nth_bucket n (unat b) d))"
    "stop (word_of_nat (nth_bucket n (unat b) d)) (tab ! nth_bucket n (unat b) d)"
    "\<And>i. i < d \<Longrightarrow> \<not> stop (word_of_nat (nth_bucket n (unat b) i)) (tab ! nth_bucket n (unat b) i)"
proof -
  let ?P = "\<lambda>d. stop (word_of_nat (nth_bucket n (unat b) d)) (tab ! nth_bucket n (unat b) d)"
  obtain d0 where d0: "d0 < unat n" "?P d0" using bucket_distance[OF assms(2,3)] assms(4) by auto
  define d where "d = (LEAST d. ?P d)"
  have d: "?P d" "d \<le> d0" unfolding d_def using d0(2) by (rule LeastI) (rule Least_le, rule d0(2))
  have least: "\<not> ?P i" if "i < d" for i using that not_less_Least unfolding d_def by blast
  show ?thesis
    using that[of d] d d0(1) least probe_first[OF assms(1,2), of d stop] by auto
qed

subsection \<open>The invariant of a table\<close>

definition home :: "('k \<Rightarrow> uint32) \<Rightarrow> uint32 \<Rightarrow> 'k \<Rightarrow> nat" where
  "home hash n k = unat (if hash k < n then 0 else hash k mod n)"

definition entries :: "('k, 'v) buckets \<Rightarrow> ('k \<times> 'v) list" where
  "entries tab = map the (filter (\<lambda>e. e \<noteq> None) tab)"

text \<open>Every entry is reached from its home bucket over occupied buckets.\<close>

definition reachable_entries :: "('k \<Rightarrow> uint32) \<Rightarrow> ('k, 'v) buckets \<Rightarrow> uint32 \<Rightarrow> bool" where
  "reachable_entries hash tab n \<longleftrightarrow> (\<forall>i k v. i < unat n \<longrightarrow> tab ! i = Some (k, v) \<longrightarrow>
     (\<exists>d < unat n. i = nth_bucket n (home hash n k) d \<and> (\<forall>j < d. tab ! nth_bucket n (home hash n k) j \<noteq> None)))"

definition buckets_wf :: "('k \<Rightarrow> uint32) \<Rightarrow> ('k, 'v) buckets \<Rightarrow> uint32 \<Rightarrow> bool" where
  "buckets_wf hash tab n \<longleftrightarrow> length tab = unat n \<and> reachable_entries hash tab n \<and> distinct (map fst (entries tab))"

lemma looping_counter_home: "0 < unat n \<Longrightarrow> \<exists>s. looping_counter (hash k) n = Some s \<and> unat s = home hash n k"
  by (auto simp: looping_counter_def home_def word_gt_0 assert_def)

lemma home_less: "0 < unat n \<Longrightarrow> home hash n k < unat n"
  by (auto simp: home_def unat_mod)

lemma in_entries: "(k, v) \<in> set (entries tab) \<longleftrightarrow> (\<exists>i < length tab. tab ! i = Some (k, v))"
  by (force simp: entries_def in_set_conv_nth image_iff)

lemma free_bucket:
  assumes "length (entries tab) < length tab"
  shows "\<exists>j < length tab. tab ! j = None"
proof (rule ccontr)
  assume "\<not> ?thesis"
  then have "filter (\<lambda>e. e \<noteq> None) tab = tab" by (auto simp: filter_id_conv in_set_conv_nth)
  with assms show False by (simp add: entries_def)
qed

lemma option_eqI: "(\<And>w. a = Some w \<longleftrightarrow> b = Some w) \<Longrightarrow> a = b"
  by (cases a; cases b) auto

lemma mset_entries: "mset (entries tab) = image_mset the (filter_mset (\<lambda>e. e \<noteq> None) (mset tab))"
  by (simp only: entries_def mset_map mset_filter)

lemma entries_store:
  assumes "j < length tab" "tab ! j = None"
  shows "mset (entries (tab[j := Some e])) = add_mset e (mset (entries tab))"
proof -
  have "mset (tab[j := Some e]) = add_mset (Some e) (mset tab - {#None#})" using assms by (simp add: mset_update)
  then show ?thesis by (simp add: mset_entries del: not_None_eq)
qed

lemma entries_store_keys:
  assumes "mset es' = add_mset e (mset es)"
  shows "distinct (map fst es') \<longleftrightarrow> fst e \<notin> fst ` set es \<and> distinct (map fst es)"
    and "set es' = insert e (set es)" and "length es' = Suc (length es)"
proof -
  have "mset (map fst es') = mset (map fst (e # es))" using assms by simp
  then show "distinct (map fst es') \<longleftrightarrow> fst e \<notin> fst ` set es \<and> distinct (map fst es)"
    by (metis distinct.simps(2) list.simps(9) mset_eq_imp_distinct_iff set_map)
  show "set es' = insert e (set es)" using arg_cong[OF assms, of set_mset] by simp
  show "length es' = Suc (length es)" using arg_cong[OF assms, of size] by simp
qed

subsection \<open>Searching and inserting\<close>

lemma find_bucket:
  assumes wf: "buckets_wf hash tab n" and free: "length (entries tab) < unat n" and s: "unat s = home hash n k"
  shows "\<exists>j < unat n. probe (\<lambda>_ e. e = None \<or> map_option fst e = Some k) tab n s = Some (word_of_nat j)
     \<and> (case tab ! j of None \<Rightarrow> k \<notin> fst ` set (entries tab) | Some (k', v) \<Rightarrow> k' = k \<and> (k, v) \<in> set (entries tab))"
proof -
  have len: "length tab = unat n" and n: "0 < unat n" using wf free by (auto simp: buckets_wf_def)
  have sb: "unat s < unat n" using home_less[OF n] s by simp
  obtain j0 where j0: "j0 < unat n" "tab ! j0 = None" using free_bucket free len by metis
  obtain d where d: "d < unat n"
    "probe (\<lambda>_ e. e = None \<or> map_option fst e = Some k) tab n s = Some (word_of_nat (nth_bucket n (unat s) d))"
    "tab ! nth_bucket n (unat s) d = None \<or> map_option fst (tab ! nth_bucket n (unat s) d) = Some k"
    "\<And>i. i < d \<Longrightarrow> \<not> (tab ! nth_bucket n (unat s) i = None \<or> map_option fst (tab ! nth_bucket n (unat s) i) = Some k)"
    using probe_ends[OF len sb j0(1), of "\<lambda>_ e. e = None \<or> map_option fst e = Some k"] j0(2) by auto
  let ?j = "nth_bucket n (unat s) d"
  have j: "?j < unat n" using n by (rule nth_bucket_less)
  have "k \<notin> fst ` set (entries tab)" if none: "tab ! ?j = None"
  proof
    assume "k \<in> fst ` set (entries tab)"
    then obtain i v where i: "i < unat n" "tab ! i = Some (k, v)" by (auto simp: in_entries len)
    then obtain d' where d': "i = nth_bucket n (unat s) d'" "\<forall>j < d'. tab ! nth_bucket n (unat s) j \<noteq> None"
      using wf s by (fastforce simp: buckets_wf_def reachable_entries_def)
    consider "d < d'" | "d' < d" | "d' = d" by linarith
    then show False using d' i none d(4)[of d'] by cases auto
  qed
  moreover have "k' = k \<and> (k, v) \<in> set (entries tab)" if "tab ! ?j = Some (k', v)" for k' v
    using d(3) that j len by (auto simp: in_entries)
  ultimately show ?thesis using d(2) j by (intro exI[of _ ?j]) (auto split: option.splits)
qed

lemma insert_bucket:
  assumes wf: "buckets_wf hash tab n" and free: "length (entries tab) < unat n" and new: "k \<notin> fst ` set (entries tab)"
  shows "\<exists>j tab'. insert_in_table hash k v tab n = Some (j, tab') \<and> j < n \<and> tab' ! unat j = Some (k, v) \<and> buckets_wf hash tab' n
     \<and> mset (entries tab') = add_mset (k, v) (mset (entries tab))"
proof -
  have len: "length tab = unat n" and n: "0 < unat n" using wf free by (auto simp: buckets_wf_def)
  obtain s where s: "looping_counter (hash k) n = Some s" "unat s = home hash n k" using looping_counter_home[OF n, of hash k] by blast
  have sb: "unat s < unat n" using home_less[OF n] s(2) by simp
  obtain j0 where j0: "j0 < unat n" "tab ! j0 = None" using free_bucket free len by metis
  obtain d where d: "d < unat n" "probe (\<lambda>_ e. e = None) tab n s = Some (word_of_nat (nth_bucket n (unat s) d))"
    "tab ! nth_bucket n (unat s) d = None" "\<And>i. i < d \<Longrightarrow> tab ! nth_bucket n (unat s) i \<noteq> None"
    using probe_ends[OF len sb j0(1), of "\<lambda>_ e. e = None"] j0(2) by auto
  define j where "j = nth_bucket n (unat s) d"
  have j1: "j < unat n" unfolding j_def using n by (rule nth_bucket_less)
  have j: "j < unat n" "unat (word_of_nat j :: uint32) = j"
    using j1 unat_of_nat_small[of j, where 'a = 32] less_trans[OF j1 unat_less_32[of n]] by simp_all
  let ?tab = "tab[j := Some (k, v)]"
  have "insert_in_table hash k v tab n = Some (word_of_nat j, ?tab)"
    using s(1) d(2) j len by (simp add: insert_in_table_def j_def[symmetric])
  moreover have occ: "?tab ! i \<noteq> None" if "tab ! i \<noteq> None" for i
    using that j len by (cases "i = j") (auto simp: nth_list_update)
  have "reachable_entries hash ?tab n"
    unfolding reachable_entries_def
  proof (intro allI impI)
    fix i k' v' assume i: "i < unat n" "?tab ! i = Some (k', v')"
    show "\<exists>d < unat n. i = nth_bucket n (home hash n k') d \<and> (\<forall>j' < d. ?tab ! nth_bucket n (home hash n k') j' \<noteq> None)"
    proof (cases "i = j")
      case True
      then have "k' = k" using i len j by simp
      then show ?thesis using d True occ s(2) by (intro exI[of _ d]) (simp add: j_def)
    next
      case False
      then show ?thesis using i wf occ unfolding buckets_wf_def reachable_entries_def by (metis nth_list_update_neq)
    qed
  qed
  moreover have m: "mset (entries ?tab) = add_mset (k, v) (mset (entries tab))"
    using j d(3) len by (intro entries_store) (auto simp: j_def)
  moreover have "distinct (map fst (entries ?tab))"
    using entries_store_keys(1)[OF m] new wf by (simp add: buckets_wf_def)
  ultimately show ?thesis using j len by (auto simp: buckets_wf_def word_less_nat_alt)
qed

lemma reinsert_all_entries:
  assumes "buckets_wf hash tab n" "length (entries tab) + length (entries es) < unat n"
    and "distinct (map fst (entries es @ entries tab))"
  shows "\<exists>tab'. reinsert_all hash es tab n = Some tab' \<and> buckets_wf hash tab' n \<and> mset (entries tab') = mset (entries es @ entries tab)"
  using assms
proof (induction es arbitrary: tab)
  case Nil
  then show ?case by (simp add: entries_def)
next
  case (Cons e es)
  show ?case
  proof (cases e)
    case None
    then have "entries (e # es) = entries es" by (simp add: entries_def)
    with Cons None show ?thesis by simp
  next
    case (Some kv)
    obtain k v where kv: "e = Some (k, v)" using Some by (cases kv) auto
    have ent: "entries (e # es) = (k, v) # entries es" by (simp add: entries_def kv)
    have new: "k \<notin> fst ` set (entries tab)" "length (entries tab) < unat n" using Cons.prems(2,3) by (auto simp: ent)
    obtain j tab1 where t1: "insert_in_table hash k v tab n = Some (j, tab1)" "buckets_wf hash tab1 n"
      "mset (entries tab1) = add_mset (k, v) (mset (entries tab))"
      using insert_bucket[OF Cons.prems(1) new(2,1), of v] by blast
    note keys = entries_store_keys[OF t1(3)]
    have "distinct (map fst (entries es @ entries tab1))" using Cons.prems(3) keys by (auto simp: ent)
    with Cons.IH[OF t1(2)] Cons.prems(2) keys(3) obtain tab2 where "reinsert_all hash es tab1 n = Some tab2"
      "buckets_wf hash tab2 n" "mset (entries tab2) = mset (entries es @ entries tab1)" by (auto simp: ent)
    then show ?thesis using t1(1,3) by (simp add: kv ent[unfolded kv])
  qed
qed

subsection \<open>The table as a finite map\<close>

definition ht_map :: "('k, 'v) hash_table_flat \<Rightarrow> 'k \<Rightarrow> 'v option" where
  "ht_map t = map_of (entries (ht_table t))"

text \<open>A table is new, or its size is one of the primes and its threshold half of it.\<close>

definition ht_wf :: "('k \<Rightarrow> uint32) \<Rightarrow> ('k, 'v) hash_table_flat \<Rightarrow> bool" where
  "ht_wf hash t \<longleftrightarrow> buckets_wf hash (ht_table t) (table_size t)
     \<and> unat (entry_count t) = length (entries (ht_table t)) \<and> entry_count t \<le> resize_threshold t
     \<and> (resize_threshold t = 0 \<and> table_size t < 4294967291
        \<or> table_size t \<in> set hash_primes \<and> resize_threshold t = drop_bit 1 (table_size t))"

lemma prime_steps:
  "list_all (\<lambda>p. p < 4294967291 \<longrightarrow> (case next_larger_hash_prime p of None \<Rightarrow> False
     | Some q \<Rightarrow> drop_bit 1 p < drop_bit 1 q)) hash_primes"
  by code_simp

lemma next_prime:
  assumes "n < 4294967291"
  shows "\<exists>q. next_larger_hash_prime n = Some q \<and> n < q \<and> q \<in> set hash_primes"
proof -
  have last: "4294967291 \<in> set hash_primes" by (simp add: hash_primes_def)
  then have "find (\<lambda>p. n < p) hash_primes \<noteq> None" using assms by (auto simp: find_None_iff)
  then obtain q where "find (\<lambda>p. n < p) hash_primes = Some q" by auto
  with assms show ?thesis by (auto simp: next_larger_hash_prime_def find_Some_iff)
qed

lemma threshold_below_size: "(n :: uint32) \<in> set hash_primes \<Longrightarrow> unat (drop_bit 1 n) < unat n"
  by (auto simp: hash_primes_def drop_bit_eq_div)

lemma ht_free: "ht_wf hash t \<Longrightarrow> table_size t \<noteq> 0 \<Longrightarrow> length (entries (ht_table t)) < unat (table_size t)"
  using threshold_below_size[of "table_size t"] by (auto simp: ht_wf_def word_le_nat_alt unat_gt_0)

lemma grow_wf:
  assumes wf: "ht_wf hash t" and full: "resize_threshold t \<le> entry_count t" and bound: "entry_count t < 2147483645"
  shows "\<exists>t'. grow hash t = Some t' \<and> buckets_wf hash (ht_table t') (table_size t') \<and> entry_count t' = entry_count t
     \<and> table_size t' \<in> set hash_primes \<and> resize_threshold t' = drop_bit 1 (table_size t') \<and> entry_count t' < resize_threshold t'
     \<and> mset (entries (ht_table t')) = mset (entries (ht_table t))"
proof -
  have eq: "entry_count t = resize_threshold t" using wf full by (simp add: ht_wf_def)
  have lt: "table_size t < 4294967291"
  proof (rule ccontr)
    assume "\<not> ?thesis"
    then have "table_size t \<in> set hash_primes" "4294967291 \<le> table_size t" "resize_threshold t = drop_bit 1 (table_size t)"
      using wf by (auto simp: ht_wf_def)
    then have "resize_threshold t = 2147483645" by (auto simp: hash_primes_def drop_bit_eq_div)
    with eq bound show False by simp
  qed
  obtain q where q: "next_larger_hash_prime (table_size t) = Some q" "table_size t < q" "q \<in> set hash_primes"
    using next_prime[OF lt] by blast
  have room: "entry_count t < drop_bit 1 q"
  proof (cases "resize_threshold t = 0")
    case True
    have "(0 :: uint32) < drop_bit 1 q" using q(3) by (auto simp: hash_primes_def drop_bit_eq_div)
    then show ?thesis using eq True by simp
  next
    case False
    then have "table_size t \<in> set hash_primes" "resize_threshold t = drop_bit 1 (table_size t)"
      using wf by (auto simp: ht_wf_def)
    with prime_steps lt q(1) eq show ?thesis by (auto simp: list_all_iff split: option.splits)
  qed
  have none: "entries (alloc_table q :: ('a, 'b) buckets) = []" by (simp add: entries_def alloc_table_def)
  have "unat (entry_count t) < unat q" using room threshold_below_size[OF q(3)] by (simp add: word_less_nat_alt)
  moreover have "buckets_wf hash (alloc_table q :: ('a, 'b) buckets) q"
    unfolding buckets_wf_def none by (simp add: reachable_entries_def alloc_table_def)
  ultimately obtain tab where "reinsert_all hash (ht_table t) (alloc_table q) q = Some tab" "buckets_wf hash tab q"
    "mset (entries tab) = mset (entries (ht_table t))"
    using reinsert_all_entries[of hash "alloc_table q" q "ht_table t"] wf none by (auto simp: ht_wf_def buckets_wf_def)
  then show ?thesis using q(1,3) room by (simp add: grow_def)
qed

lemma ht_find_map:
  assumes wf: "ht_wf hash t"
  shows "case ht_map t k of None \<Rightarrow> ht_find hash k t = Some (table_size t)
    | Some v \<Rightarrow> \<exists>p < table_size t. ht_find hash k t = Some p \<and> ht_table t ! unat p = Some (k, v)"
proof -
  have b: "buckets_wf hash (ht_table t) (table_size t)" using wf by (simp add: ht_wf_def)
  show ?thesis
  proof (cases "table_size t = 0")
    case True
    then have "ht_table t = []" using b by (simp add: buckets_wf_def)
    with True show ?thesis by (simp add: ht_find_def ht_map_def entries_def)
  next
    case False
    then have n: "0 < unat (table_size t)" by (simp add: unat_gt_0)
    obtain s where s: "looping_counter (hash k) (table_size t) = Some s" "unat s = home hash (table_size t) k"
      using looping_counter_home[OF n, of hash k] by blast
    obtain j where j: "j < unat (table_size t)"
      "probe (\<lambda>_ e. e = None \<or> map_option fst e = Some k) (ht_table t) (table_size t) s = Some (word_of_nat j)"
      "case ht_table t ! j of None \<Rightarrow> k \<notin> fst ` set (entries (ht_table t)) | Some (k', v) \<Rightarrow> k' = k \<and> (k, v) \<in> set (entries (ht_table t))"
      using find_bucket[OF b ht_free[OF wf False] s(2)] by blast
    have uj: "unat (word_of_nat j :: uint32) = j"
      using j(1) unat_of_nat_small[of j, where 'a = 32] less_trans[OF j(1) unat_less_32] by simp
    have len: "length (ht_table t) = unat (table_size t)" using b by (simp add: buckets_wf_def)
    have dk: "distinct (map fst (entries (ht_table t)))" using b by (simp add: buckets_wf_def)
    show ?thesis
    proof (cases "ht_table t ! j")
      case None
      then have "ht_map t k = None" using j(3) by (simp add: ht_map_def map_of_eq_None_iff)
      with None show ?thesis using s(1) j(1,2) uj len False by (simp add: ht_find_def)
    next
      case (Some kv)
      then obtain v where v: "ht_table t ! j = Some (k, v)" "(k, v) \<in> set (entries (ht_table t))"
        using j(3) by (cases kv) auto
      then have "ht_map t k = Some v" using dk by (simp add: ht_map_def)
      with v show ?thesis using s(1) j(1,2) uj len False
        by (auto simp: ht_find_def word_less_nat_alt intro!: exI[of _ "word_of_nat j"])
    qed
  qed
qed

lemma ht_lookup_map: "ht_wf hash t \<Longrightarrow> ht_lookup hash k t = Some (ht_map t k)"
  using ht_find_map[of hash t k] by (auto simp: ht_lookup_def ht_value_def is_valid_def split: option.splits)

lemma ht_insert_map:
  assumes wf: "ht_wf hash t" and bound: "entry_count t < 2147483645" and new: "ht_map t k = None"
  shows "\<exists>i t'. ht_insert hash k v t = Some (i, t') \<and> ht_wf hash t' \<and> ht_map t' = (ht_map t)(k \<mapsto> v) \<and> entry_count t' = entry_count t + 1"
proof -
  have "\<exists>t1. (if resize_threshold t \<le> entry_count t then grow hash t else Some t) = Some t1
     \<and> buckets_wf hash (ht_table t1) (table_size t1) \<and> entry_count t1 = entry_count t
     \<and> table_size t1 \<in> set hash_primes \<and> resize_threshold t1 = drop_bit 1 (table_size t1) \<and> entry_count t1 < resize_threshold t1
     \<and> mset (entries (ht_table t1)) = mset (entries (ht_table t))"
  proof (cases "resize_threshold t \<le> entry_count t")
    case True
    then show ?thesis using grow_wf[OF wf True bound] by simp
  next
    case False
    then show ?thesis using wf by (auto simp: ht_wf_def not_le)
  qed
  then obtain t1 where t1: "(if resize_threshold t \<le> entry_count t then grow hash t else Some t) = Some t1"
    "buckets_wf hash (ht_table t1) (table_size t1)" "entry_count t1 = entry_count t"
    "table_size t1 \<in> set hash_primes" "resize_threshold t1 = drop_bit 1 (table_size t1)" "entry_count t1 < resize_threshold t1"
    "mset (entries (ht_table t1)) = mset (entries (ht_table t))" by blast
  have set1: "set (entries (ht_table t1)) = set (entries (ht_table t))" "length (entries (ht_table t1)) = length (entries (ht_table t))"
    using t1(7) mset_eq_setD mset_eq_length by blast+
  have cnt: "unat (entry_count t) = length (entries (ht_table t))" using wf by (simp add: ht_wf_def)
  have "length (entries (ht_table t1)) < unat (table_size t1)"
    using t1(3,5,6) threshold_below_size[OF t1(4)] set1(2) cnt by (simp add: word_less_nat_alt)
  moreover have "k \<notin> fst ` set (entries (ht_table t1))" using new by (simp add: set1(1) ht_map_def map_of_eq_None_iff)
  ultimately obtain j tab where ins: "insert_in_table hash k v (ht_table t1) (table_size t1) = Some (j, tab)"
    "buckets_wf hash tab (table_size t1)" "mset (entries tab) = add_mset (k, v) (mset (entries (ht_table t1)))"
    using insert_bucket[OF t1(2)] by blast
  define t' where "t' = t1\<lparr>ht_table := tab, entry_count := entry_count t1 + 1\<rparr>"
  note keys = entries_store_keys[OF ins(3)]
  have "ht_insert hash k v t = Some (j, t')" using t1(1) ins(1) by (simp add: ht_insert_def t'_def)
  moreover have "unat (entry_count t1 + 1) = unat (entry_count t1) + 1" using t1(6) by (rule unat_next)
  then have "ht_wf hash t'"
    using ins(2) t1 keys(3) set1(2) cnt by (auto simp: ht_wf_def t'_def word_le_nat_alt word_less_nat_alt)
  moreover have "ht_map t' = (ht_map t)(k \<mapsto> v)"
  proof (rule ext)
    fix k'
    have d: "distinct (map fst (entries tab))" "distinct (map fst (entries (ht_table t)))"
      using ins(2) wf by (auto simp: buckets_wf_def ht_wf_def)
    show "ht_map t' k' = ((ht_map t)(k \<mapsto> v)) k'"
    proof (cases "k' = k")
      case True
      then show ?thesis using d(1) keys(2) by (simp add: ht_map_def t'_def)
    next
      case False
      then have "(k', v') \<in> set (entries tab) \<longleftrightarrow> (k', v') \<in> set (entries (ht_table t))" for v'
        using keys(2) set1(1) by auto
      then have "map_of (entries tab) k' = Some v' \<longleftrightarrow> map_of (entries (ht_table t)) k' = Some v'" for v'
        using d by (simp add: map_of_eq_Some_iff)
      then have "map_of (entries tab) k' = map_of (entries (ht_table t)) k'" by (rule option_eqI)
      then show ?thesis using False by (simp add: ht_map_def t'_def)
    qed
  qed
  ultimately show ?thesis using t1(3) by (auto simp: t'_def)
qed

subsection \<open>The interface: a table of distinct keys\<close>

fun insert_pairs :: "('k \<Rightarrow> 'v \<Rightarrow> 't \<Rightarrow> 't option) \<Rightarrow> ('k \<times> 'v) list \<Rightarrow> 't \<Rightarrow> 't option" where
  "insert_pairs ins [] t = Some t"
| "insert_pairs ins ((k, v) # kvs) t = do { t' \<leftarrow> ins k v t; insert_pairs ins kvs t' }"

locale keyed_table =
  fixes wf :: "'t \<Rightarrow> bool" and tmap :: "'t \<Rightarrow> 'k \<Rightarrow> 'v option" and used :: "'t \<Rightarrow> nat" and capacity :: nat
    and ins :: "'k \<Rightarrow> 'v \<Rightarrow> 't \<Rightarrow> 't option" and look :: "'k \<Rightarrow> 't \<Rightarrow> 'v option option"
  assumes look_law: "wf t \<Longrightarrow> look k t = Some (tmap t k)"
    and ins_law: "wf t \<Longrightarrow> used t < capacity \<Longrightarrow> tmap t k = None \<Longrightarrow>
      \<exists>t'. ins k v t = Some t' \<and> wf t' \<and> tmap t' = (tmap t)(k \<mapsto> v) \<and> used t' = used t + 1"
begin

text \<open>Any number of inserts of distinct keys: no insert fails and every key is found with its value.\<close>

lemma insert_pairs_map:
  assumes "wf t" "used t + length kvs \<le> capacity" "distinct (map fst kvs)" "\<forall>k \<in> fst ` set kvs. tmap t k = None"
  shows "\<exists>t'. insert_pairs ins kvs t = Some t' \<and> wf t' \<and> tmap t' = tmap t ++ map_of kvs \<and> used t' = used t + length kvs"
  using assms
proof (induction kvs arbitrary: t)
  case Nil
  then show ?case by simp
next
  case (Cons kv kvs)
  obtain k v where kv: "kv = (k, v)" by (cases kv)
  obtain t1 where t1: "ins k v t = Some t1" "wf t1" "tmap t1 = (tmap t)(k \<mapsto> v)" "used t1 = used t + 1"
    using ins_law[OF Cons.prems(1), of k v] Cons.prems(2,4) kv by auto
  have "\<forall>k' \<in> fst ` set kvs. tmap t1 k' = None" using Cons.prems(3,4) t1(3) kv by (auto simp: image_iff)
  then obtain t2 where t2: "insert_pairs ins kvs t1 = Some t2" "wf t2" "tmap t2 = tmap t1 ++ map_of kvs" "used t2 = used t1 + length kvs"
    using Cons.IH[OF t1(2)] Cons.prems(2,3) t1(4) by auto
  have "k \<notin> dom (map_of kvs)" using Cons.prems(3) kv by (simp add: dom_map_of_conv_image_fst)
  then have "tmap t2 = tmap t ++ map_of ((k, v) # kvs)"
    using t2(3) t1(3) by (simp add: map_add_upd_left)
  then show ?case using t1(1,4) t2(1,2,4) unfolding kv by (simp del: map_of.simps)
qed

lemma insert_pairs_found:
  assumes "wf t" "used t + length kvs \<le> capacity" "distinct (map fst kvs)" "\<forall>k \<in> fst ` set kvs. tmap t k = None"
  shows "\<exists>t'. insert_pairs ins kvs t = Some t' \<and> (\<forall>k. look k t' = Some ((tmap t ++ map_of kvs) k))"
  using insert_pairs_map[OF assms] by (auto simp: look_law)

end

definition ht_put :: "('k \<Rightarrow> uint32) \<Rightarrow> 'k \<Rightarrow> 'v \<Rightarrow> ('k, 'v) hash_table_flat \<Rightarrow> ('k, 'v) hash_table_flat option" where
  "ht_put hash k v t = map_option snd (ht_insert hash k v t)"

interpretation htab: keyed_table "ht_wf hash" ht_map "\<lambda>t. unat (entry_count t)" 2147483645 "ht_put hash" "ht_lookup hash"
  for hash :: "'k \<Rightarrow> uint32"
proof
  fix t :: "('k, 'v) hash_table_flat" and k
  assume "ht_wf hash t"
  then show "ht_lookup hash k t = Some (ht_map t k)" by (rule ht_lookup_map)
next
  fix t :: "('k, 'v) hash_table_flat" and k v
  assume a: "ht_wf hash t" "unat (entry_count t) < 2147483645" "ht_map t k = None"
  then have e: "entry_count t < 2147483645" by (simp add: word_less_nat_alt)
  from ht_insert_map[OF a(1) e a(3), of v] unat_next[OF e]
  show "\<exists>t'. ht_put hash k v t = Some t' \<and> ht_wf hash t' \<and> ht_map t' = (ht_map t)(k \<mapsto> v)
      \<and> unat (entry_count t') = unat (entry_count t) + 1" by (auto simp: ht_put_def)
qed

lemma alloc_entries: "entries (alloc_table n) = []"
  by (simp add: entries_def alloc_table_def)

lemma ht_init_map: "ht_map (ht_init n) = Map.empty"
  by (simp add: ht_map_def ht_init_def alloc_entries)

lemma ht_init_wf: "n < 4294967291 \<Longrightarrow> ht_wf hash (ht_init n)"
  by (simp add: ht_wf_def ht_init_def buckets_wf_def alloc_entries) (simp add: reachable_entries_def alloc_table_def)

text \<open>C23. The flat hash table refines a finite map: inserting up to \<open>2147483645\<close> distinct keys in any order into a
  new table always succeeds, through every growth of the table and for every hash function, and afterwards
  a search finds each key with its value and no other key.\<close>

theorem hash_table_refines_map:
  assumes "distinct (map fst kvs)" "length kvs \<le> 2147483645" "n < 4294967291"
  shows "\<exists>t. insert_pairs (ht_put hash) kvs (ht_init n) = Some t \<and> (\<forall>k. ht_lookup hash k t = Some (map_of kvs k))"
  using htab.insert_pairs_found[OF ht_init_wf[OF assms(3), of hash], of kvs] assms(1,2)
  by (simp add: ht_init_map) (simp add: ht_init_def)

theorem hash_table_refines_map_witness:
  "\<exists>t. insert_pairs (ht_put (\<lambda>k. k)) [(7, ''a''), (12, ''b''), (2, ''c'')] (ht_init 0) = Some t
     \<and> (\<forall>k. ht_lookup (\<lambda>k. k) k t = Some (map_of [(7, ''a''), (12, ''b''), (2, ''c'')] k))"
  by (rule hash_table_refines_map) simp_all

subsection \<open>Removing\<close>

lemma nth_bucket_next: "nth_bucket n h (Suc d) = (nth_bucket n h d + 1) mod unat n"
  by (simp add: nth_bucket_def mod_Suc_eq)

lemma mod_shift_inj:
  assumes "(h + i) mod n = (h + j) mod n" "i \<le> j" "j < (n :: nat)"
  shows "i = j"
proof -
  have "n dvd (h + j) - (h + i)" using assms(1,2) by (subst mod_eq_dvd_iff_nat[symmetric]) auto
  then show ?thesis using assms(2,3) by (auto dest: dvd_imp_le)
qed

lemma nth_bucket_inj:
  assumes "nth_bucket n h i = nth_bucket n h j" "i < unat n" "j < unat n"
  shows "i = j"
  using mod_shift_inj[of h i "unat n" j] mod_shift_inj[of h j "unat n" i] assms
  by (cases "i \<le> j") (auto simp: nth_bucket_def)

text \<open>In a well-formed table no entry has overflowed, so the loop that repairs overflow ends and moves nothing.\<close>

lemma fix_overflow_stable:
  assumes wf: "buckets_wf hash tab n"
  shows "unat b < unat n \<Longrightarrow> tab ! nth_bucket n (unat b) (Suc d) = None \<Longrightarrow> fix_overflow hash n tab b = Some tab"
proof (induction d arbitrary: b)
  case 0
  have len: "length tab = unat n" using wf by (simp add: buckets_wf_def)
  have nx: "unat (loop_next n b) = nth_bucket n (unat b) 1" using loop_next_mod[OF 0(1)] by (simp add: nth_bucket_def)
  moreover have "nth_bucket n (unat b) 1 < unat n" using 0(1) by (intro nth_bucket_less) simp
  ultimately show ?case using 0(2) len by (subst fix_overflow.simps) simp
next
  case (Suc d)
  have len: "length tab = unat n" using wf by (simp add: buckets_wf_def)
  define c where "c = loop_next n b"
  have nx: "unat c = (unat b + 1) mod unat n" using loop_next_mod[OF Suc.prems(1)] by (simp add: c_def)
  then have cb: "unat c < unat n" using Suc.prems(1) by simp
  have IH: "fix_overflow hash n tab c = Some tab"
    using Suc.prems(2) by (intro Suc.IH[OF cb]) (simp add: nth_bucket_Suc nx)
  show ?case
  proof (cases "tab ! unat c")
    case None
    then show ?thesis using cb len by (subst fix_overflow.simps) (simp add: c_def[symmetric])
  next
    case (Some kv)
    obtain k v where kv: "tab ! unat c = Some (k, v)" using Some by (cases kv) auto
    have n: "0 < unat n" using cb by simp
    obtain s where s: "looping_counter (hash k) n = Some s" "unat s = home hash n k" using looping_counter_home[OF n, of hash k] by blast
    obtain e where e: "e < unat n" "unat c = nth_bucket n (unat s) e" "\<forall>j < e. tab ! nth_bucket n (unat s) j \<noteq> None"
      using wf kv cb unfolding buckets_wf_def reachable_entries_def s(2) by blast
    have ub: "unat (word_of_nat (nth_bucket n (unat s) j) :: uint32) = nth_bucket n (unat s) j" for j
      using nth_bucket_less[OF n, of "unat s" j] unat_of_nat_small[of "nth_bucket n (unat s) j", where 'a = 32]
        less_trans[OF _ unat_less_32[of n]] by simp
    have "probe (\<lambda>i e. e = None \<or> i = c) tab n s = Some (word_of_nat (nth_bucket n (unat s) e))"
    proof (rule probe_first[OF len])
      show "unat s < unat n" using home_less[OF n] s(2) by simp
      show "tab ! nth_bucket n (unat s) e = None \<or> word_of_nat (nth_bucket n (unat s) e) = c"
        using e(2) by (metis word_eq_of_nat)
      fix j assume j: "j < e"
      then have "nth_bucket n (unat s) j \<noteq> unat c" using nth_bucket_inj[of n "unat s" j e] e(1,2) by auto
      then have "word_of_nat (nth_bucket n (unat s) j) \<noteq> c" using ub[of j] by metis
      then show "\<not> (tab ! nth_bucket n (unat s) j = None \<or> word_of_nat (nth_bucket n (unat s) j) = c)" using e(3) j by auto
    qed
    moreover have "word_of_nat (nth_bucket n (unat s) e) = c" using e(2) by (metis word_eq_of_nat)
    ultimately show ?thesis using kv cb len s(1) IH
      by (subst fix_overflow.simps) (simp add: c_def[symmetric])
  qed
qed

lemma remove_reachable:
  assumes wf: "buckets_wf hash tab n" and p: "p < unat n" and alone: "tab ! ((p + 1) mod unat n) = None"
  shows "reachable_entries hash (tab[p := None]) n"
  unfolding reachable_entries_def
proof (intro allI impI)
  fix i k v assume i: "i < unat n" "tab[p := None] ! i = Some (k, v)"
  have len: "length tab = unat n" using wf by (simp add: buckets_wf_def)
  have ip: "i \<noteq> p" "tab ! i = Some (k, v)" using i p len by (auto simp: nth_list_update split: if_splits)
  then obtain d where d: "d < unat n" "i = nth_bucket n (home hash n k) d" "\<forall>j < d. tab ! nth_bucket n (home hash n k) j \<noteq> None"
    using wf i(1) unfolding buckets_wf_def reachable_entries_def by blast
  have "p \<noteq> nth_bucket n (home hash n k) j" if "j < d" for j
  proof
    assume "p = nth_bucket n (home hash n k) j"
    then have "tab ! nth_bucket n (home hash n k) (Suc j) = None" using alone by (simp add: nth_bucket_next)
    moreover have "Suc j < d \<or> Suc j = d" using that by linarith
    ultimately show False using d(2,3) ip(2) by auto
  qed
  then show "\<exists>d < unat n. i = nth_bucket n (home hash n k) d \<and> (\<forall>j < d. tab[p := None] ! nth_bucket n (home hash n k) j \<noteq> None)"
    using d by (intro exI[of _ d]) simp
qed

lemma ht_remove_alone:
  assumes wf: "ht_wf hash t" and k: "ht_map t k = Some v" and p: "ht_find hash k t = Some p"
    and alone: "ht_table t ! unat (loop_next (table_size t) p) = None"
  shows "\<exists>t'. ht_remove hash k t = Some (True, t') \<and> ht_wf hash t' \<and> ht_map t' = (ht_map t)(k := None)"
proof -
  let ?n = "table_size t" and ?tab = "ht_table t"
  have b: "buckets_wf hash ?tab ?n" and len: "length ?tab = unat ?n" and dk: "distinct (map fst (entries ?tab))"
    using wf by (auto simp: ht_wf_def buckets_wf_def)
  have pn: "p < ?n" and e: "?tab ! unat p = Some (k, v)" using ht_find_map[OF wf, of k] k p by auto
  then have valid: "is_valid t p" and ub: "unat p < unat ?n" by (simp_all add: is_valid_def word_less_nat_alt)
  let ?tab' = "?tab[unat p := None]"
  have nx: "unat (loop_next ?n p) = (unat p + 1) mod unat ?n" using ub by (rule loop_next_mod)
  have m: "mset (entries ?tab) = add_mset (k, v) (mset (entries ?tab'))"
  proof -
    have "?tab'[unat p := Some (k, v)] = ?tab" using e by (simp add: list_update_same_conv ub len)
    then show ?thesis using entries_store[of "unat p" ?tab' "(k, v)"] ub len by simp
  qed
  note keys = entries_store_keys[OF m]
  have b': "buckets_wf hash ?tab' ?n"
    using remove_reachable[OF b ub] alone nx dk keys(1) len by (simp add: buckets_wf_def)
  have c0: "looping_counter p ?n = Some 0" using pn by (cases "?n = 0") (auto simp: looping_counter_def word_gt_0)
  have fix0: "fix_overflow hash ?n ?tab' 0 = Some ?tab'"
  proof -
    have "?tab' ! unat p = None" using ub len by simp
    moreover obtain d where "d < unat ?n" "nth_bucket ?n 0 d = unat p" using bucket_distance[of 0 ?n "unat p"] ub by auto
    moreover have "nth_bucket ?n 0 (unat ?n) = nth_bucket ?n 0 0" by (simp add: nth_bucket_def)
    ultimately obtain d where "?tab' ! nth_bucket ?n 0 (Suc d) = None"
      by (metis Suc_pred gr0I ub not_less_zero not0_implies_Suc)
    then show ?thesis using fix_overflow_stable[OF b', of 0 d] ub by simp
  qed
  define t' where "t' = t\<lparr>ht_table := ?tab', entry_count := entry_count t - 1\<rparr>"
  have "ht_remove hash k t = Some (True, t')"
    using p valid c0 fix0 ub len by (simp add: ht_remove_def ht_remove_at_def t'_def)
  moreover have "ht_wf hash t'"
  proof -
    have c: "unat (entry_count t) = length (entries ?tab)" using wf by (simp add: ht_wf_def)
    then have "unat (entry_count t - 1) = length (entries ?tab')"
      using keys(3) by (subst unat_diff_32) simp_all
    then show ?thesis using wf b' c keys(3) by (auto simp: ht_wf_def t'_def word_le_nat_alt)
  qed
  moreover have "ht_map t' = (ht_map t)(k := None)"
  proof (rule ext)
    fix k'
    have nd: "k \<notin> fst ` set (entries ?tab')" "distinct (map fst (entries ?tab'))" using keys(1) dk by auto
    have "map_of (entries ?tab') k' = Some w \<longleftrightarrow> k' \<noteq> k \<and> map_of (entries ?tab) k' = Some w" for w
      using nd dk keys(2) by (auto simp: map_of_eq_Some_iff image_iff)
    then have "map_of (entries ?tab') k' = (if k' = k then None else map_of (entries ?tab) k')"
      by (intro option_eqI) simp
    then show "ht_map t' k' = ((ht_map t)(k := None)) k'" by (simp add: ht_map_def t'_def)
  qed
  ultimately show ?thesis by blast
qed

text \<open>Removing a key whose following bucket is free deletes exactly that key and keeps the table well formed.\<close>

theorem hash_table_remove_alone:
  assumes "ht_wf hash t" "ht_map t k = Some v" "ht_find hash k t = Some p"
    and "ht_table t ! unat (loop_next (table_size t) p) = None"
  shows "\<exists>t'. ht_remove hash k t = Some (True, t') \<and> ht_wf hash t' \<and> (\<forall>k'. ht_lookup hash k' t' = Some (if k' = k then None else ht_map t k'))"
proof -
  obtain t' where "ht_remove hash k t = Some (True, t')" "ht_wf hash t'" "ht_map t' = (ht_map t)(k := None)"
    using ht_remove_alone[OF assms] by blast
  then show ?thesis by (auto simp: ht_lookup_map)
qed

definition small_table :: "(uint32, nat) hash_table_flat" where
  "small_table = \<lparr>ht_table = [Some (5, 1), None, Some (7, 2), None, None], entry_count = 2, table_size = 5, resize_threshold = 2\<rparr>"

lemma small_table_built: "insert_pairs (ht_put (\<lambda>k. k)) [(5, 1), (7, 2)] (ht_init 0) = Some small_table"
  by code_simp

lemma small_table_wf: "ht_wf (\<lambda>k. k) small_table"
proof -
  have "\<exists>t'. insert_pairs (ht_put (\<lambda>k. k)) [(5, 1 :: nat), (7, 2)] (ht_init 0) = Some t' \<and> ht_wf (\<lambda>k. k) t'
      \<and> ht_map t' = ht_map (ht_init 0) ++ map_of [(5, 1), (7, 2)]
      \<and> unat (entry_count t') = unat (entry_count (ht_init 0 :: (uint32, nat) hash_table_flat)) + length [(5 :: uint32, 1 :: nat), (7, 2)]"
    by (rule htab.insert_pairs_map) (simp_all add: ht_init_wf ht_init_map, simp add: ht_init_def)
  then show ?thesis unfolding small_table_built by blast
qed

theorem hash_table_remove_alone_witness:
  "\<exists>t'. ht_remove (\<lambda>k. k) 5 small_table = Some (True, t') \<and> ht_wf (\<lambda>k. k) t'
     \<and> (\<forall>k'. ht_lookup (\<lambda>k. k) k' t' = Some (if k' = 5 then None else ht_map small_table k'))"
proof (rule hash_table_remove_alone[OF small_table_wf])
  show m: "ht_map small_table 5 = Some 1" by (simp add: ht_map_def small_table_def entries_def)
  show "ht_find (\<lambda>k. k) 5 small_table = Some 0"
    by code_simp
  show "ht_table small_table ! unat (loop_next (table_size small_table) 0) = None"
    by code_simp
qed

definition five_ids :: "(uint32, nat) hash_table_flat" where
  "five_ids = \<lparr>ht_table = [Some (1, 11), Some (2, 12), Some (3, 13), Some (4, 14), Some (5, 15)] @ replicate 6 None,
     entry_count = 5, table_size = 11, resize_threshold = 5\<rparr>"

text \<open>Removing can lose other keys.  The repair loop of \<^verbatim>\<open>_remove\<close> should start at the removed bucket, but the
  constructor of the counter it uses maps every index below the table size to 0.  With the keys 1 to 5
  inserted in this order, as a socket does with the identifiers of its connections, removing key 3
  leaves keys 4 and 5 in the table but out of reach of a search.\<close>

theorem hash_table_remove_loses_keys:
  "insert_pairs (ht_put (\<lambda>k. k)) [(1, 11), (2, 12), (3, 13), (4, 14), (5, 15)] (ht_init 0) = Some five_ids
     \<and> ht_lookup (\<lambda>k. k) 4 five_ids = Some (Some 14)
     \<and> (let t = snd (the (ht_remove (\<lambda>k. k) 3 five_ids)) in
        ht_remove (\<lambda>k. k) 3 five_ids = Some (True, t) \<and> entry_count t = 4 \<and> ht_map t 4 = Some 14 \<and> ht_map t 5 = Some 15
        \<and> ht_lookup (\<lambda>k. k) 4 t = Some None \<and> ht_lookup (\<lambda>k. k) 5 t = Some None)"
  by code_simp

text \<open>Sizes below the third largest prime have a successor that fits an \<^verbatim>\<open>int32\<close>.\<close>

lemma next_larger_hash_prime_small:
  assumes "unat m < 1610612741"
  shows "\<exists>q. next_larger_hash_prime m = Some q \<and> m < q \<and> unat q < 2 ^ 31"
proof -
  have "m < 1610612741" using assms by (simp add: word_less_nat_alt)
  then have "m < 4294967291" by (rule less_trans) simp
  then show ?thesis using \<open>m < 1610612741\<close> by (simp add: next_larger_hash_prime_def hash_primes_def)
qed

end
