(* ===== verification/Thread_Queue.thy ===== *)
theory Thread_Queue
  imports Base_Type_IO Linked_List "HOL-Library.Multiset"
begin

text \<open>
  \<^verbatim>\<open>core/thread_queue.h\<close>: requests that worker threads process in the background; the socket has its
  client puzzles solved this way.  A request is a record on the heap, listed in \<^verbatim>\<open>_process_list\<close>;
  \<open>None\<close> is an access to a freed record.  Each operation below is one critical section under the
  queue's mutex, and the step relation interleaves them with the worker threads in any order.  The list
  is a HOL list, as the array that holds it refines one; the progress number is not used anywhere and
  left out.
\<close>

datatype process_state = not_yet_processed | in_process | process_complete

record process_record =
  pr_state :: process_state
  request_index :: uint32
  request_buffer :: byte_buffer
  response_buffer :: "byte_buffer option"
  cancelled :: bool

record thread_queue =
  current_index :: uint32
  process_list :: "ptr list"
  tq_records :: "ptr \<rightharpoonup> process_record"
  tq_semaphore :: nat
  tq_fresh :: ptr

definition new_thread_queue :: thread_queue where
  "new_thread_queue = \<lparr>current_index = 0, process_list = [], tq_records = Map.empty, tq_semaphore = 0, tq_fresh = 0\<rparr>"

text \<open>\<^verbatim>\<open>get_next_result\<close>: cancelled requests on the way are deleted.\<close>

fun next_result_scan :: "(ptr \<rightharpoonup> process_record) \<Rightarrow> ptr list
    \<Rightarrow> ((byte_buffer option \<times> uint32) option \<times> ptr list \<times> (ptr \<rightharpoonup> process_record)) option" where
  "next_result_scan recs [] = Some (None, [], recs)"
| "next_result_scan recs (p # ps) = do {
     r \<leftarrow> recs p;
     if pr_state r = process_complete then
       if cancelled r then next_result_scan (recs(p := None)) ps
       else Some (Some (response_buffer r, request_index r), ps, recs(p := None))
     else do {
       (res, ps', recs') \<leftarrow> next_result_scan recs ps;
       Some (res, p # ps', recs') } }"

definition get_next_result :: "thread_queue \<Rightarrow> ((byte_buffer option \<times> uint32) option \<times> thread_queue) option" where
  "get_next_result q = do {
     (res, ps, recs) \<leftarrow> next_result_scan (tq_records q) (process_list q);
     Some (res, q\<lparr>process_list := ps, tq_records := recs\<rparr>) }"

definition post_request :: "byte_buffer \<Rightarrow> thread_queue \<Rightarrow> uint32 \<times> thread_queue" where
  "post_request the_request q =
     (let index = current_index q;
          r = \<lparr>pr_state = not_yet_processed, request_index = index, request_buffer = the_request,
               response_buffer = None, cancelled = False\<rparr>
      in (index, q\<lparr>current_index := index + 1, process_list := process_list q @ [tq_fresh q],
            tq_records := (tq_records q)(tq_fresh q \<mapsto> r), tq_semaphore := tq_semaphore q + 1, tq_fresh := tq_fresh q + 1\<rparr>))"

fun cancel_scan :: "uint32 \<Rightarrow> (ptr \<rightharpoonup> process_record) \<Rightarrow> ptr list \<Rightarrow> (bool \<times> ptr list \<times> (ptr \<rightharpoonup> process_record)) option" where
  "cancel_scan index recs [] = Some (False, [], recs)"
| "cancel_scan index recs (p # ps) = do {
     r \<leftarrow> recs p;
     if request_index r = index then
       if pr_state r = not_yet_processed \<or> pr_state r = process_complete then Some (True, ps, recs(p := None))
       else Some (True, p # ps, recs(p \<mapsto> r\<lparr>cancelled := True\<rparr>))
     else do {
       (found, ps', recs') \<leftarrow> cancel_scan index recs ps;
       Some (found, p # ps', recs') } }"

definition cancel_request :: "uint32 \<Rightarrow> thread_queue \<Rightarrow> (bool \<times> thread_queue) option" where
  "cancel_request index q = do {
     (found, ps, recs) \<leftarrow> cancel_scan index (tq_records q) (process_list q);
     Some (found, q\<lparr>process_list := ps, tq_records := recs\<rparr>) }"

text \<open>The locked part of \<^verbatim>\<open>dispatch_next_call\<close>.\<close>

fun first_waiting :: "(ptr \<rightharpoonup> process_record) \<Rightarrow> ptr list \<Rightarrow> ptr option option" where
  "first_waiting recs [] = Some None"
| "first_waiting recs (p # ps) = do {
     r \<leftarrow> recs p;
     if pr_state r = not_yet_processed then Some (Some p) else first_waiting recs ps }"

definition take_request :: "thread_queue \<Rightarrow> (ptr option \<times> thread_queue) option" where
  "take_request q = do {
     the_record \<leftarrow> first_waiting (tq_records q) (process_list q);
     (case the_record of None \<Rightarrow> Some (None, q)
      | Some p \<Rightarrow> do {
          r \<leftarrow> tq_records q p;
          Some (Some p, q\<lparr>tq_records := (tq_records q)(p \<mapsto> r\<lparr>pr_state := in_process\<rparr>)\<rparr>) }) }"

text \<open>The unlocked rest of it: the worker stores the response and then the new state.\<close>

definition complete_request :: "ptr \<Rightarrow> byte_buffer option \<Rightarrow> thread_queue \<Rightarrow> thread_queue option" where
  "complete_request p resp q = do {
     r \<leftarrow> tq_records q p;
     Some (q\<lparr>tq_records := (tq_records q)(p \<mapsto> r\<lparr>response_buffer := resp, pr_state := process_complete\<rparr>)\<rparr>) }"

subsection \<open>The queue and its worker threads\<close>

text \<open>A worker waits on the semaphore, has passed it but not yet taken the lock, or holds a record.\<close>

datatype worker = Waiting | Woken | Working ptr

datatype tq_label = Posted uint32 byte_buffer | Cancelled uint32 bool | Result "(byte_buffer option \<times> uint32) option"
  | Woke nat | Took nat "ptr option" | Finished nat ptr

inductive tq_step :: "(byte_buffer \<Rightarrow> byte_buffer option \<Rightarrow> bool) \<Rightarrow> thread_queue \<times> worker list \<Rightarrow> tq_label
    \<Rightarrow> thread_queue \<times> worker list \<Rightarrow> bool" for work where
  post: "post_request b q = (index, q') \<Longrightarrow> tq_step work (q, ws) (Posted index b) (q', ws)"
| cancel: "cancel_request index q = Some (found, q') \<Longrightarrow> tq_step work (q, ws) (Cancelled index found) (q', ws)"
| result: "get_next_result q = Some (res, q') \<Longrightarrow> tq_step work (q, ws) (Result res) (q', ws)"
| wake: "i < length ws \<Longrightarrow> ws ! i = Waiting \<Longrightarrow> 0 < tq_semaphore q
    \<Longrightarrow> tq_step work (q, ws) (Woke i) (q\<lparr>tq_semaphore := tq_semaphore q - 1\<rparr>, ws[i := Woken])"
| take_next: "i < length ws \<Longrightarrow> ws ! i = Woken \<Longrightarrow> take_request q = Some (pick, q')
    \<Longrightarrow> tq_step work (q, ws) (Took i pick) (q', ws[i := case pick of None \<Rightarrow> Waiting | Some p \<Rightarrow> Working p])"
| finish: "i < length ws \<Longrightarrow> ws ! i = Working p \<Longrightarrow> tq_records q p = Some r \<Longrightarrow> work (request_buffer r) resp
    \<Longrightarrow> complete_request p resp q = Some q' \<Longrightarrow> tq_step work (q, ws) (Finished i p) (q', ws[i := Waiting])"

subsection \<open>What the operations do to the list of records\<close>

definition in_state :: "(ptr \<rightharpoonup> process_record) \<Rightarrow> process_state \<Rightarrow> ptr \<Rightarrow> bool" where
  "in_state recs st p \<longleftrightarrow> map_option pr_state (recs p) = Some st"

definition index_at :: "(ptr \<rightharpoonup> process_record) \<Rightarrow> ptr \<Rightarrow> uint32" where
  "index_at recs p = request_index (the (recs p))"

lemma in_state_other [simp]: "p \<noteq> q \<Longrightarrow> in_state (recs(q := v)) st p = in_state recs st p"
  by (simp add: in_state_def)

lemma index_at_other [simp]: "p \<noteq> q \<Longrightarrow> index_at (recs(q := v)) p = index_at recs p"
  by (simp add: index_at_def)

lemma in_state_unique: "in_state recs a p \<Longrightarrow> in_state recs b p \<Longrightarrow> a = b"
  by (auto simp: in_state_def)

definition live :: "(ptr \<rightharpoonup> process_record) \<Rightarrow> ptr list \<Rightarrow> uint32 multiset" where
  "live recs ps = mset (map (index_at recs) ps)"

text \<open>What is removed from the list, and what is delivered.\<close>

definition scan_ok :: "(ptr \<rightharpoonup> process_record) \<Rightarrow> ptr list \<Rightarrow> ptr list \<Rightarrow> ptr set
    \<Rightarrow> (byte_buffer option \<times> uint32) option \<Rightarrow> bool" where
  "scan_ok recs ps ps' gone res \<longleftrightarrow> distinct ps' \<and> gone \<subseteq> set ps \<and> set ps' = set ps - gone
     \<and> (\<forall>p \<in> gone. in_state recs process_complete p)
     \<and> filter (in_state recs not_yet_processed) ps' = filter (in_state recs not_yet_processed) ps
     \<and> live recs ps' + (case res of None \<Rightarrow> {#} | Some (_, i) \<Rightarrow> {#i#}) \<subseteq># live recs ps
     \<and> (\<forall>resp i. res = Some (resp, i) \<longrightarrow> (\<exists>p \<in> gone. \<exists>r. recs p = Some r \<and> pr_state r = process_complete
          \<and> resp = response_buffer r \<and> i = request_index r))"

lemma scan_ok_cong:
  assumes "scan_ok recs ps ps' gone res" "\<And>q. q \<in> set ps \<Longrightarrow> recs' q = recs q"
  shows "scan_ok recs' ps ps' gone res"
proof -
  have sub: "set ps' \<subseteq> set ps" "gone \<subseteq> set ps" using assms(1) by (auto simp: scan_ok_def)
  have st: "in_state recs' st q = in_state recs st q" "index_at recs' q = index_at recs q" if "q \<in> set ps" for st q
    using assms(2)[OF that] by (auto simp: in_state_def index_at_def)
  have f: "filter (in_state recs' st) xs = filter (in_state recs st) xs" if "set xs \<subseteq> set ps" for xs st
    using that st by (auto intro!: filter_cong)
  have m: "live recs' xs = live recs xs" if "set xs \<subseteq> set ps" for xs
    unfolding live_def using that st by (intro arg_cong[where f = mset] map_cong) auto
  have "\<forall>p \<in> gone. in_state recs' process_complete p = in_state recs process_complete p \<and> recs' p = recs p"
    using sub(2) st assms(2) by auto
  then show ?thesis using assms(1) unfolding scan_ok_def f[OF sub(1)] f[OF order_refl] m[OF sub(1)] m[OF order_refl] by simp
qed

lemma next_result_scan_ok:
  assumes "distinct ps" "set ps \<subseteq> dom recs"
  shows "\<exists>res ps' gone. next_result_scan recs ps = Some (res, ps', recs |` (- gone)) \<and> scan_ok recs ps ps' gone res"
  using assms
proof (induction ps arbitrary: recs)
  case Nil
  then show ?case by (auto simp: scan_ok_def live_def intro!: exI[of _ "{}"])
next
  case (Cons p ps)
  then obtain r where r: "recs p = Some r" by auto
  have d: "p \<notin> set ps" "distinct ps" using Cons.prems(1) by auto
  consider "pr_state r = process_complete" "cancelled r" | "pr_state r = process_complete" "\<not> cancelled r"
    | "pr_state r \<noteq> process_complete" by blast
  then show ?case
  proof cases
    case 1
    have "set ps \<subseteq> dom (recs(p := None))" using Cons.prems d by auto
    from Cons.IH[OF d(2) this] obtain res ps' gone where
      h: "next_result_scan (recs(p := None)) ps = Some (res, ps', (recs(p := None)) |` (- gone))"
      "scan_ok (recs(p := None)) ps ps' gone res" by blast
    have ok: "scan_ok recs ps ps' gone res" by (rule scan_ok_cong[OF h(2)]) (use d in auto)
    have "(recs(p := None)) |` (- gone) = recs |` (- insert p gone)" by (auto simp: restrict_map_def)
    moreover have "scan_ok recs (p # ps) ps' (insert p gone) res"
      using ok r 1 d unfolding scan_ok_def
      by (auto simp: in_state_def live_def intro: subset_mset.order_trans)
    ultimately show ?thesis using h(1) r 1 by (intro exI[of _ res] exI[of _ ps'] exI[of _ "insert p gone"]) simp
  next
    case 2
    have "recs(p := None) = recs |` (- {p})" by (auto simp: restrict_map_def)
    moreover have "scan_ok recs (p # ps) ps {p} (Some (response_buffer r, request_index r))"
      using r 2 d by (auto simp: scan_ok_def in_state_def index_at_def live_def)
    ultimately show ?thesis using r 2 by fastforce
  next
    case 3
    obtain res ps' gone where h: "next_result_scan recs ps = Some (res, ps', recs |` (- gone))" "scan_ok recs ps ps' gone res"
      using Cons.IH[OF d(2), of recs] Cons.prems by auto
    have "scan_ok recs (p # ps) (p # ps') gone res"
      using h(2) d unfolding scan_ok_def by (auto simp: live_def)
    then show ?thesis using h(1) r 3 by auto
  qed
qed

lemma cancel_scan_cases:
  assumes "distinct ps" "set ps \<subseteq> dom recs"
  obtains "cancel_scan i recs ps = Some (False, ps, recs)"
    | p r where "p \<in> set ps" "recs p = Some r" "pr_state r \<noteq> in_process" "cancel_scan i recs ps = Some (True, remove1 p ps, recs(p := None))"
    | p r where "p \<in> set ps" "recs p = Some r" "pr_state r = in_process" "cancel_scan i recs ps = Some (True, ps, recs(p \<mapsto> r\<lparr>cancelled := True\<rparr>))"
  using assms
proof (induction ps arbitrary: thesis)
  case Nil
  then show ?case by simp
next
  case (Cons p ps)
  obtain r where r: "recs p = Some r" using Cons.prems(5) by auto
  show ?case
  proof (cases "request_index r = i")
    case True
    show ?thesis
    proof (cases "pr_state r = in_process")
      case busy: True
      then have "cancel_scan i recs (p # ps) = Some (True, p # ps, recs(p \<mapsto> r\<lparr>cancelled := True\<rparr>))" using r True by simp
      from Cons.prems(3)[OF _ r busy this] show ?thesis by simp
    next
      case idle: False
      then have "cancel_scan i recs (p # ps) = Some (True, remove1 p (p # ps), recs(p := None))"
        using r True by (cases "pr_state r") simp_all
      from Cons.prems(2)[OF _ r idle this] show ?thesis by simp
    qed
  next
    case False
    have d: "distinct ps" "set ps \<subseteq> dom recs" "p \<notin> set ps" using Cons.prems(4,5) by auto
    show ?thesis
    proof (rule Cons.IH[OF _ _ _ d(1,2)])
      assume "cancel_scan i recs ps = Some (False, ps, recs)"
      then show ?thesis using Cons.prems(1) r False by simp
    next
      fix p' r' assume h: "p' \<in> set ps" "recs p' = Some r'" "pr_state r' \<noteq> in_process"
        "cancel_scan i recs ps = Some (True, remove1 p' ps, recs(p' := None))"
      have "cancel_scan i recs (p # ps) = Some (True, remove1 p' (p # ps), recs(p' := None))"
        using h r False d(3) by (cases "p' = p") simp_all
      from Cons.prems(2)[OF _ h(2,3) this] h(1) show ?thesis by simp
    next
      fix p' r' assume h: "p' \<in> set ps" "recs p' = Some r'" "pr_state r' = in_process"
        "cancel_scan i recs ps = Some (True, ps, recs(p' \<mapsto> r'\<lparr>cancelled := True\<rparr>))"
      have "cancel_scan i recs (p # ps) = Some (True, p # ps, recs(p' \<mapsto> r'\<lparr>cancelled := True\<rparr>))"
        using h r False by simp
      from Cons.prems(3)[OF _ h(2,3) this] h(1) show ?thesis by simp
    qed
  qed
qed

lemma first_waiting_find:
  "set ps \<subseteq> dom recs \<Longrightarrow> first_waiting recs ps = Some (find (in_state recs not_yet_processed) ps)"
  by (induction ps) (auto simp: in_state_def)

lemma length_filter_update:
  "i < length xs \<Longrightarrow> length (filter P (xs[i := x])) + of_bool (P (xs ! i)) = length (filter P xs) + of_bool (P x)"
  by (subst (2) id_take_nth_drop[of i xs]) (simp_all add: upd_conv_take_nth_drop)

subsection \<open>No record is used after it is freed, and no wake-up is lost\<close>

definition held :: "worker list \<Rightarrow> ptr set" where
  "held ws = {p. Working p \<in> set ws}"

definition structure_inv :: "thread_queue \<Rightarrow> worker list \<Rightarrow> bool" where
  "structure_inv q ws \<longleftrightarrow> distinct (process_list q) \<and> set (process_list q) = dom (tq_records q)
     \<and> dom (tq_records q) \<subseteq> {..<tq_fresh q} \<and> (\<forall>p. in_state (tq_records q) in_process p \<longleftrightarrow> p \<in> held ws)
     \<and> (\<forall>i < length ws. \<forall>j < length ws. \<forall>p. ws ! i = Working p \<longrightarrow> ws ! j = Working p \<longrightarrow> i = j)"

definition wakeup_inv :: "thread_queue \<Rightarrow> worker list \<Rightarrow> bool" where
  "wakeup_inv q ws \<longleftrightarrow> length (filter (in_state (tq_records q) not_yet_processed) (process_list q))
     \<le> tq_semaphore q + length (filter ((=) Woken) ws)"

lemma working_update:
  "i < length ws \<Longrightarrow> p \<in> held (ws[i := w]) \<longleftrightarrow> w = Working p \<or> (\<exists>j < length ws. j \<noteq> i \<and> ws ! j = Working p)"
  by (auto simp: held_def in_set_conv_nth nth_list_update)

lemma working_iff: "p \<in> held ws \<longleftrightarrow> (\<exists>j < length ws. ws ! j = Working p)"
  by (auto simp: held_def in_set_conv_nth)

lemma held_update_other:
  assumes "i < length ws" "\<And>p. ws ! i \<noteq> Working p" "\<And>p. w \<noteq> Working p"
  shows "held (ws[i := w]) = held ws"
proof (rule set_eqI)
  fix p
  show "p \<in> held (ws[i := w]) \<longleftrightarrow> p \<in> held ws"
    unfolding working_update[OF assms(1)] using assms(2,3) by (auto simp: working_iff)
qed

lemma held_take:
  assumes "i < length ws" "\<And>p. ws ! i \<noteq> Working p"
  shows "held (ws[i := Working p]) = insert p (held ws)"
proof (rule set_eqI)
  fix p'
  show "p' \<in> held (ws[i := Working p]) \<longleftrightarrow> p' \<in> insert p (held ws)"
    unfolding working_update[OF assms(1)] insert_iff using assms(2) by (auto simp: working_iff)
qed

lemma held_finish:
  assumes "structure_inv q ws" "i < length ws" "ws ! i = Working p"
  shows "held (ws[i := Waiting]) = held ws - {p}"
proof (rule set_eqI)
  fix p'
  have u: "\<forall>j < length ws. ws ! j = Working p \<longrightarrow> j = i" using assms by (auto simp: structure_inv_def)
  have "(\<exists>j < length ws. j \<noteq> i \<and> ws ! j = Working p') \<longleftrightarrow> (\<exists>j < length ws. ws ! j = Working p') \<and> p' \<noteq> p"
  proof (cases "p' = p")
    case True
    then show ?thesis using u by blast
  next
    case False
    then show ?thesis using assms(3) by (metis worker.inject)
  qed
  then show "p' \<in> held (ws[i := Waiting]) \<longleftrightarrow> p' \<in> held ws - {p}"
    unfolding working_update[OF assms(2)] Diff_iff working_iff[of p' ws] by simp
qed

text \<open>Each worker holds its own record.\<close>

lemma unique_update:
  assumes "\<forall>i < length ws. \<forall>j < length ws. \<forall>p. ws ! i = Working p \<longrightarrow> ws ! j = Working p \<longrightarrow> i = j"
    and "\<And>p. w = Working p \<Longrightarrow> p \<notin> held ws" "i < length ws"
  shows "\<forall>k < length (ws[i := w]). \<forall>j < length (ws[i := w]). \<forall>p. ws[i := w] ! k = Working p \<longrightarrow> ws[i := w] ! j = Working p \<longrightarrow> k = j"
  using assms by (auto simp: nth_list_update working_iff split: if_splits)

lemma structure_inv_init: "structure_inv new_thread_queue (replicate n Waiting)"
  by (auto simp: structure_inv_def new_thread_queue_def in_state_def held_def)

lemma structure_inv_post:
  assumes "structure_inv q ws" "post_request b q = (index, q')"
  shows "structure_inv q' ws"
proof -
  let ?p = "tq_fresh q"
  have new: "?p \<notin> dom (tq_records q)" using assms(1) by (auto simp: structure_inv_def)
  then have h: "?p \<notin> held ws" using assms(1) by (auto simp: structure_inv_def in_state_def)
  have q': "process_list q' = process_list q @ [?p]" "tq_fresh q' = ?p + 1"
    "\<exists>r. tq_records q' = (tq_records q)(?p \<mapsto> r) \<and> pr_state r = not_yet_processed"
    using assms(2) by (auto simp: post_request_def Let_def)
  then obtain r where r: "tq_records q' = (tq_records q)(?p \<mapsto> r)" "pr_state r = not_yet_processed" by blast
  have "in_state (tq_records q') in_process p \<longleftrightarrow> p \<in> held ws" for p
    using assms(1) h r by (cases "p = ?p") (auto simp: structure_inv_def in_state_def)
  then show ?thesis using assms(1) new q'(1,2) r(1) by (auto simp: structure_inv_def)
qed

lemma structure_inv_remove:
  assumes "structure_inv q ws" "set ps \<subseteq> set (process_list q)" "distinct ps"
    and "\<And>p. p \<in> set (process_list q) - set ps \<Longrightarrow> \<not> in_state (tq_records q) in_process p"
  shows "structure_inv (q\<lparr>process_list := ps, tq_records := tq_records q |` set ps\<rparr>) ws"
proof -
  have dom: "set (process_list q) = dom (tq_records q)" using assms(1) by (simp add: structure_inv_def)
  have "in_state (tq_records q |` set ps) in_process p \<longleftrightarrow> in_state (tq_records q) in_process p" for p
    using assms(4)[of p] dom by (cases "p \<in> set ps") (auto simp: in_state_def restrict_map_def)
  then show ?thesis using assms dom by (auto simp: structure_inv_def)
qed

lemma structure_inv_state:
  assumes "structure_inv q ws" "tq_records q p = Some r"
    and "structure_inv q ws \<Longrightarrow> \<forall>i < length ws'. \<forall>j < length ws'. \<forall>p. ws' ! i = Working p \<longrightarrow> ws' ! j = Working p \<longrightarrow> i = j"
    and "held ws' - {p} = held ws - {p}" "pr_state r' = in_process \<longleftrightarrow> p \<in> held ws'"
  shows "structure_inv (q\<lparr>tq_records := (tq_records q)(p \<mapsto> r')\<rparr>) ws'"
proof -
  have "in_state ((tq_records q)(p \<mapsto> r')) in_process p' \<longleftrightarrow> p' \<in> held ws'" for p'
    using assms(1,4,5) by (cases "p' = p") (auto simp: in_state_def structure_inv_def)
  then show ?thesis using assms(1,2) assms(3)[OF assms(1)] by (auto simp: structure_inv_def)
qed

lemma structure_inv_cancel:
  assumes "structure_inv q ws" "cancel_request i q = Some (found, q')"
  shows "structure_inv q' ws"
proof -
  have d: "distinct (process_list q)" "set (process_list q) \<subseteq> dom (tq_records q)" "set (process_list q) = dom (tq_records q)"
    using assms(1) by (auto simp: structure_inv_def)
  show ?thesis
  proof (rule cancel_scan_cases[OF d(1,2), of i])
    assume "cancel_scan i (tq_records q) (process_list q) = Some (False, process_list q, tq_records q)"
    then show ?thesis using assms by (auto simp: cancel_request_def)
  next
    fix p r assume p: "p \<in> set (process_list q)" "tq_records q p = Some r" "pr_state r \<noteq> in_process"
      "cancel_scan i (tq_records q) (process_list q) = Some (True, remove1 p (process_list q), (tq_records q)(p := None))"
    have "(tq_records q)(p := None) = tq_records q |` set (remove1 p (process_list q))"
      using d by (auto simp: restrict_map_def fun_eq_iff domIff)
    then have "q' = q\<lparr>process_list := remove1 p (process_list q), tq_records := tq_records q |` set (remove1 p (process_list q))\<rparr>"
      using assms(2) p(4) by (simp add: cancel_request_def)
    moreover have "\<not> in_state (tq_records q) in_process p'" if "p' \<in> set (process_list q) - set (remove1 p (process_list q))" for p'
      using that d(1) p by (auto simp: in_state_def)
    ultimately show ?thesis
      using structure_inv_remove[OF assms(1), of "remove1 p (process_list q)"] d(1) by (simp add: set_remove1_subset)
  next
    fix p r assume p: "p \<in> set (process_list q)" "tq_records q p = Some r" "pr_state r = in_process"
      "cancel_scan i (tq_records q) (process_list q) = Some (True, process_list q, (tq_records q)(p \<mapsto> r\<lparr>cancelled := True\<rparr>))"
    then have "q' = q\<lparr>tq_records := (tq_records q)(p \<mapsto> r\<lparr>cancelled := True\<rparr>)\<rparr>" using assms(2) by (simp add: cancel_request_def)
    moreover have "p \<in> held ws" using assms(1) p(2,3) by (auto simp: structure_inv_def in_state_def)
    ultimately show ?thesis
      using structure_inv_state[OF assms(1) p(2), of ws "r\<lparr>cancelled := True\<rparr>"] p(3) by (auto simp: structure_inv_def)
  qed
qed

lemma structure_inv_result:
  assumes "structure_inv q ws" "get_next_result q = Some (res, q')"
  shows "structure_inv q' ws"
proof -
  have d: "distinct (process_list q)" "set (process_list q) = dom (tq_records q)" using assms(1) by (auto simp: structure_inv_def)
  obtain res' ps gone where h: "next_result_scan (tq_records q) (process_list q) = Some (res', ps, tq_records q |` (- gone))"
    "scan_ok (tq_records q) (process_list q) ps gone res'"
    using next_result_scan_ok[OF d(1)] d(2) by blast
  have "tq_records q |` (- gone) = tq_records q |` set ps"
    using h(2) d(2) by (auto simp: scan_ok_def restrict_map_def fun_eq_iff domIff)
  then have "q' = q\<lparr>process_list := ps, tq_records := tq_records q |` set ps\<rparr>"
    using assms(2) h(1) by (simp add: get_next_result_def)
  moreover have "\<not> in_state (tq_records q) in_process p" if "p \<in> set (process_list q) - set ps" for p
  proof -
    have "in_state (tq_records q) process_complete p" using that h(2) by (auto simp: scan_ok_def)
    then show ?thesis by (auto dest: in_state_unique)
  qed
  moreover have "set ps \<subseteq> set (process_list q)" "distinct ps" using h(2) by (auto simp: scan_ok_def)
  ultimately show ?thesis using structure_inv_remove[OF assms(1), of ps] by simp
qed

lemma structure_inv_take:
  assumes "structure_inv q ws" "i < length ws" "ws ! i = Woken" "take_request q = Some (pick, q')"
  shows "structure_inv q' (ws[i := case pick of None \<Rightarrow> Waiting | Some p \<Rightarrow> Working p])"
proof -
  have d: "set (process_list q) \<subseteq> dom (tq_records q)" using assms(1) by (auto simp: structure_inv_def)
  note f = first_waiting_find[OF d]
  show ?thesis
  proof (cases pick)
    case None
    then have "q' = q" using assms(4) f by (auto simp: take_request_def bind_eq_Some_conv split: option.splits)
    moreover have "held (ws[i := Waiting]) = held ws" using assms(2,3) by (intro held_update_other) auto
    ultimately show ?thesis using assms(1,2) None unique_update[of ws Waiting i] by (auto simp: structure_inv_def)
  next
    case (Some p)
    then obtain r where r: "find (in_state (tq_records q) not_yet_processed) (process_list q) = Some p" "tq_records q p = Some r"
      "q' = q\<lparr>tq_records := (tq_records q)(p \<mapsto> r\<lparr>pr_state := in_process\<rparr>)\<rparr>"
      using assms(4) f by (auto simp: take_request_def bind_eq_Some_conv split: option.splits)
    then have "in_state (tq_records q) not_yet_processed p" by (auto simp: find_Some_iff)
    then have new: "p \<notin> held ws" using assms(1) by (auto simp: structure_inv_def dest: in_state_unique)
    have h: "held (ws[i := Working p]) = insert p (held ws)" using assms(2,3) by (intro held_take) auto
    have u: "\<forall>k < length (ws[i := Working p]). \<forall>j < length (ws[i := Working p]). \<forall>p'.
        ws[i := Working p] ! k = Working p' \<longrightarrow> ws[i := Working p] ! j = Working p' \<longrightarrow> k = j"
      using assms(1,2) new by (intro unique_update) (auto simp: structure_inv_def)
    show ?thesis using structure_inv_state[OF assms(1) r(2) u] h r(3) Some by simp
  qed
qed

lemma structure_inv_finish:
  assumes "structure_inv q ws" "i < length ws" "ws ! i = Working p" "complete_request p resp q = Some q'"
  shows "structure_inv q' (ws[i := Waiting])"
proof -
  obtain r where r: "tq_records q p = Some r"
    "q' = q\<lparr>tq_records := (tq_records q)(p \<mapsto> r\<lparr>response_buffer := resp, pr_state := process_complete\<rparr>)\<rparr>"
    using assms(4) by (auto simp: complete_request_def bind_eq_Some_conv)
  have u: "\<forall>k < length (ws[i := Waiting]). \<forall>j < length (ws[i := Waiting]). \<forall>p'.
        ws[i := Waiting] ! k = Working p' \<longrightarrow> ws[i := Waiting] ! j = Working p' \<longrightarrow> k = j"
    using assms(1,2) by (intro unique_update) (auto simp: structure_inv_def)
  show ?thesis
    using structure_inv_state[OF assms(1) r(1) u] held_finish[OF assms(1-3)] r(2) by simp
qed

lemma structure_inv_step:
  assumes "structure_inv (fst s) (snd s)" "tq_step work s l s'"
  shows "structure_inv (fst s') (snd s')"
  using assms(2)
proof (cases rule: tq_step.cases)
  case (wake i ws q)
  have "held (ws[i := Woken]) = held ws" using wake by (intro held_update_other) auto
  then show ?thesis using assms(1) wake unique_update[of ws Woken i] by (auto simp: structure_inv_def)
next
  case (post b q index q' ws)
  then show ?thesis using structure_inv_post assms(1) by simp
next
  case (cancel index q found q' ws)
  then show ?thesis using structure_inv_cancel assms(1) by simp
next
  case (result q res q' ws)
  then show ?thesis using structure_inv_result assms(1) by simp
next
  case (take_next i ws q pick q')
  then show ?thesis using structure_inv_take assms(1) by simp
next
  case (finish i ws p q r resp q')
  then show ?thesis using structure_inv_finish assms(1) by simp
qed

lemma filter_state_cong:
  "(\<And>p. p \<in> set ps \<Longrightarrow> map_option pr_state (recs' p) = map_option pr_state (recs p)) \<Longrightarrow> filter (in_state recs' st) ps = filter (in_state recs st) ps"
  by (rule filter_cong) (auto simp: in_state_def)

lemma length_filter_remove1: "length (filter P (remove1 p ps)) \<le> length (filter P ps)"
  by (induction ps) auto

lemma wakeup_inv_cancel:
  assumes "structure_inv q ws" "wakeup_inv q ws" "cancel_request i q = Some (found, q')"
  shows "wakeup_inv q' ws"
proof -
  have d: "distinct (process_list q)" "set (process_list q) \<subseteq> dom (tq_records q)" using assms(1) by (auto simp: structure_inv_def)
  show ?thesis
  proof (rule cancel_scan_cases[OF d, of i])
    assume "cancel_scan i (tq_records q) (process_list q) = Some (False, process_list q, tq_records q)"
    then show ?thesis using assms by (auto simp: cancel_request_def)
  next
    fix p r assume p: "cancel_scan i (tq_records q) (process_list q) = Some (True, remove1 p (process_list q), (tq_records q)(p := None))"
    have "filter (in_state ((tq_records q)(p := None)) not_yet_processed) (remove1 p (process_list q))
        = filter (in_state (tq_records q) not_yet_processed) (remove1 p (process_list q))"
      using d by (intro filter_state_cong) auto
    with length_filter_remove1[of "in_state (tq_records q) not_yet_processed" p "process_list q"]
    show ?thesis using assms(2,3) p by (auto simp: cancel_request_def wakeup_inv_def)
  next
    fix p r assume p: "tq_records q p = Some r"
      "cancel_scan i (tq_records q) (process_list q) = Some (True, process_list q, (tq_records q)(p \<mapsto> r\<lparr>cancelled := True\<rparr>))"
    have "filter (in_state ((tq_records q)(p \<mapsto> r\<lparr>cancelled := True\<rparr>)) not_yet_processed) (process_list q)
        = filter (in_state (tq_records q) not_yet_processed) (process_list q)"
      using p(1) by (intro filter_state_cong) auto
    then show ?thesis using assms(2,3) p(2) by (auto simp: cancel_request_def wakeup_inv_def)
  qed
qed

lemma get_next_result_shape:
  assumes "structure_inv q ws"
  obtains res ps gone where "get_next_result q = Some (res, q\<lparr>process_list := ps, tq_records := tq_records q |` (- gone)\<rparr>)"
    "scan_ok (tq_records q) (process_list q) ps gone res"
proof -
  have d: "distinct (process_list q)" "set (process_list q) \<subseteq> dom (tq_records q)" using assms by (auto simp: structure_inv_def)
  from next_result_scan_ok[OF d] that show ?thesis by (auto simp: get_next_result_def)
qed

lemma wakeup_inv_result:
  assumes "structure_inv q ws" "wakeup_inv q ws" "get_next_result q = Some (res, q')"
  shows "wakeup_inv q' ws"
proof -
  obtain res' ps gone where h: "get_next_result q = Some (res', q\<lparr>process_list := ps, tq_records := tq_records q |` (- gone)\<rparr>)"
    "scan_ok (tq_records q) (process_list q) ps gone res'" by (rule get_next_result_shape[OF assms(1)])
  have "filter (in_state (tq_records q |` (- gone)) not_yet_processed) ps = filter (in_state (tq_records q) not_yet_processed) ps"
    using h(2) by (intro filter_state_cong) (auto simp: scan_ok_def)
  then show ?thesis using assms(2,3) h by (auto simp: wakeup_inv_def scan_ok_def)
qed

lemma filter_absent: "p \<notin> set xs \<Longrightarrow> filter (\<lambda>x. P x \<and> x \<noteq> p) xs = filter P xs"
  by (rule filter_cong) auto

lemma filter_minus_one:
  assumes "distinct xs" "p \<in> set xs" "P p"
  shows "length (filter P xs) = Suc (length (filter (\<lambda>x. P x \<and> x \<noteq> p) xs))"
  using assms by (induction xs) (auto simp: filter_absent)

lemma take_request_shape:
  assumes "structure_inv q ws"
  obtains "take_request q = Some (None, q)" "filter (in_state (tq_records q) not_yet_processed) (process_list q) = []"
    | p r where "p \<in> set (process_list q)" "tq_records q p = Some r" "pr_state r = not_yet_processed"
        "take_request q = Some (Some p, q\<lparr>tq_records := (tq_records q)(p \<mapsto> r\<lparr>pr_state := in_process\<rparr>)\<rparr>)"
proof -
  have d: "set (process_list q) \<subseteq> dom (tq_records q)" using assms by (auto simp: structure_inv_def)
  note f = first_waiting_find[OF d]
  show ?thesis
  proof (cases "find (in_state (tq_records q) not_yet_processed) (process_list q)")
    case None
    then have "take_request q = Some (None, q)" using f by (simp add: take_request_def)
    then show ?thesis using that(1) None by (simp add: find_None_iff filter_empty_conv)
  next
    case (Some p)
    then have p: "p \<in> set (process_list q)" "in_state (tq_records q) not_yet_processed p" by (auto simp: find_Some_iff)
    then obtain r where r: "tq_records q p = Some r" "pr_state r = not_yet_processed" by (auto simp: in_state_def)
    with that(2)[OF p(1) r] Some f show ?thesis by (simp add: take_request_def)
  qed
qed

lemma wakeup_inv_take:
  assumes S: "structure_inv q ws" and W: "wakeup_inv q ws" and i: "i < length ws" "ws ! i = Woken"
    and T: "take_request q = Some (pick, q')"
  shows "wakeup_inv q' (ws[i := case pick of None \<Rightarrow> Waiting | Some p \<Rightarrow> Working p])"
proof (rule take_request_shape[OF S])
  assume "take_request q = Some (None, q)" "filter (in_state (tq_records q) not_yet_processed) (process_list q) = []"
  then show ?thesis using T by (simp add: wakeup_inv_def)
next
  fix p r assume p: "p \<in> set (process_list q)" "tq_records q p = Some r" "pr_state r = not_yet_processed"
    "take_request q = Some (Some p, q\<lparr>tq_records := (tq_records q)(p \<mapsto> r\<lparr>pr_state := in_process\<rparr>)\<rparr>)"
  let ?P = "in_state (tq_records q) not_yet_processed"
  have "filter (in_state ((tq_records q)(p \<mapsto> r\<lparr>pr_state := in_process\<rparr>)) not_yet_processed) (process_list q)
      = filter (\<lambda>x. ?P x \<and> x \<noteq> p) (process_list q)"
    by (rule filter_cong) (auto simp: in_state_def)
  moreover have "length (filter ?P (process_list q)) = Suc (length (filter (\<lambda>x. ?P x \<and> x \<noteq> p) (process_list q)))"
    using S p by (intro filter_minus_one) (auto simp: structure_inv_def in_state_def)
  moreover have "length (filter ((=) Woken) (ws[i := Working p])) + 1 = length (filter ((=) Woken) ws)"
    using length_filter_update[OF i(1), of "(=) Woken" "Working p"] i(2) by simp
  ultimately show ?thesis using W T p(4) by (auto simp: wakeup_inv_def)
qed

lemma wakeup_inv_step:
  assumes "structure_inv (fst s) (snd s)" "wakeup_inv (fst s) (snd s)" "tq_step work s l s'"
  shows "wakeup_inv (fst s') (snd s')"
  using assms(3)
proof (cases rule: tq_step.cases)
  case (post b q index q' ws)
  let ?p = "tq_fresh q"
  have new: "?p \<notin> set (process_list q)" using assms(1) post by (auto simp: structure_inv_def)
  obtain r where r: "process_list q' = process_list q @ [?p]" "tq_semaphore q' = tq_semaphore q + 1"
    "tq_records q' = (tq_records q)(?p \<mapsto> r)" using post by (auto simp: post_request_def Let_def)
  have "filter (in_state (tq_records q') not_yet_processed) (process_list q) = filter (in_state (tq_records q) not_yet_processed) (process_list q)"
    unfolding r(3) using new by (intro filter_state_cong) auto
  then have "length (filter (in_state (tq_records q') not_yet_processed) (process_list q'))
      \<le> length (filter (in_state (tq_records q) not_yet_processed) (process_list q)) + 1" by (simp add: r(1))
  then show ?thesis using assms(2) post r(2) by (simp add: wakeup_inv_def)
next
  case (cancel index q found q' ws)
  then show ?thesis using wakeup_inv_cancel assms(1,2) by simp
next
  case (result q res q' ws)
  then show ?thesis using wakeup_inv_result assms(1,2) by simp
next
  case (wake i ws q)
  then show ?thesis using assms(2) length_filter_update[of i ws "(=) Woken" Woken] by (simp add: wakeup_inv_def)
next
  case (take_next i ws q pick q')
  then show ?thesis using wakeup_inv_take assms(1,2) by simp
next
  case (finish i ws p q r resp q')
  have "in_state (tq_records q) in_process p" using assms(1) finish by (auto simp: structure_inv_def working_iff)
  then have "filter (in_state ((tq_records q)(p \<mapsto> r\<lparr>response_buffer := resp, pr_state := process_complete\<rparr>)) not_yet_processed) (process_list q)
      = filter (in_state (tq_records q) not_yet_processed) (process_list q)"
    using finish by (intro filter_cong) (auto simp: in_state_def)
  moreover have "length (filter ((=) Woken) (ws[i := Waiting])) = length (filter ((=) Woken) ws)"
    using length_filter_update[of i ws "(=) Woken" Waiting] finish by simp
  ultimately show ?thesis using assms(2) finish by (auto simp: wakeup_inv_def complete_request_def)
qed

subsection \<open>Every result answers one request\<close>

fun delivered :: "tq_label list \<Rightarrow> uint32 list" where
  "delivered [] = []"
| "delivered (Result (Some (resp, i)) # ls) = i # delivered ls"
| "delivered (_ # ls) = delivered ls"

fun posted :: "tq_label list \<Rightarrow> uint32 list" where
  "posted [] = []"
| "posted (Posted i b # ls) = i # posted ls"
| "posted (_ # ls) = posted ls"

lemma delivered_append [simp]: "delivered (xs @ ys) = delivered xs @ delivered ys"
  by (induction xs rule: delivered.induct) auto

lemma posted_append [simp]: "posted (xs @ ys) = posted xs @ posted ys"
  by (induction xs rule: posted.induct) auto

text \<open>The records of the queue belong to posted requests, and a completed one holds an answer to its request.\<close>

definition records_inv :: "(byte_buffer \<Rightarrow> byte_buffer option \<Rightarrow> bool) \<Rightarrow> thread_queue \<Rightarrow> tq_label list \<Rightarrow> bool" where
  "records_inv work q log \<longleftrightarrow> (\<forall>p r. tq_records q p = Some r \<longrightarrow> Posted (request_index r) (request_buffer r) \<in> set log
     \<and> (pr_state r = process_complete \<longrightarrow> work (request_buffer r) (response_buffer r)))"

definition answers_inv :: "(byte_buffer \<Rightarrow> byte_buffer option \<Rightarrow> bool) \<Rightarrow> thread_queue \<Rightarrow> tq_label list \<Rightarrow> bool" where
  "answers_inv work q log \<longleftrightarrow> mset (delivered log) + live (tq_records q) (process_list q) \<subseteq># mset (posted log)
     \<and> (\<forall>resp i. Result (Some (resp, i)) \<in> set log \<longrightarrow> (\<exists>b. Posted i b \<in> set log \<and> work b resp))"

lemma live_cong:
  "(\<And>p. p \<in> set ps \<Longrightarrow> map_option request_index (recs' p) = map_option request_index (recs p)) \<Longrightarrow> set ps \<subseteq> dom recs
    \<Longrightarrow> live recs' ps = live recs ps"
  unfolding live_def by (intro arg_cong[where f = mset] map_cong) (force simp: index_at_def)+

lemma records_inv_step:
  assumes "structure_inv (fst s) (snd s)" "records_inv work (fst s) log" "tq_step work s l s'"
  shows "records_inv work (fst s') (log @ [l])"
  using assms(3)
proof (cases rule: tq_step.cases)
  case (post b q index q' ws)
  then show ?thesis using assms(2) by (auto simp: records_inv_def post_request_def Let_def split: if_splits)
next
  case (cancel index q found q' ws)
  have d: "distinct (process_list q)" "set (process_list q) \<subseteq> dom (tq_records q)"
    using assms(1) cancel by (auto simp: structure_inv_def)
  show ?thesis
    by (rule cancel_scan_cases[OF d, of index]) (use cancel assms(2) in \<open>auto simp: cancel_request_def records_inv_def split: if_splits\<close>)
next
  case (result q res q' ws)
  obtain res' ps gone where h: "get_next_result q = Some (res', q\<lparr>process_list := ps, tq_records := tq_records q |` (- gone)\<rparr>)"
    using get_next_result_shape[of q ws] assms(1) result by (metis fst_conv snd_conv)
  then show ?thesis using assms(2) result by (auto simp: records_inv_def restrict_map_def split: if_splits)
next
  case (wake i ws q)
  then show ?thesis using assms(2) by (auto simp: records_inv_def)
next
  case (take_next i ws q pick q')
  have S: "structure_inv q ws" using assms(1) take_next by simp
  show ?thesis
    by (rule take_request_shape[OF S]) (use take_next assms(2) in \<open>auto simp: records_inv_def split: if_splits\<close>)
next
  case (finish i ws p q r resp q')
  then show ?thesis using assms(2) by (auto simp: records_inv_def complete_request_def split: if_splits)
qed

lemma answers_inv_same:
  assumes "answers_inv work q log" "delivered [l] = []" "posted [l] = []" "\<And>resp i. l \<noteq> Result (Some (resp, i))"
    and "live (tq_records q') (process_list q') \<subseteq># live (tq_records q) (process_list q)"
  shows "answers_inv work q' (log @ [l])"
proof -
  have "mset (delivered (log @ [l])) + live (tq_records q') (process_list q') \<subseteq># mset (posted (log @ [l]))"
    using assms(1-3,5) by (auto simp: answers_inv_def intro: subset_mset.order_trans subset_mset.add_mono)
  moreover have "\<exists>b. Posted i b \<in> set (log @ [l]) \<and> work b resp" if "Result (Some (resp, i)) \<in> set (log @ [l])" for resp i
  proof -
    have "Result (Some (resp, i)) \<in> set log" using that assms(4)[of resp i] by auto
    then show ?thesis using assms(1) by (auto simp: answers_inv_def)
  qed
  ultimately show ?thesis by (simp add: answers_inv_def)
qed

lemma answers_inv_cancel:
  assumes S: "structure_inv q ws" and A: "answers_inv work q log" and C: "cancel_request i q = Some (found, q')"
  shows "answers_inv work q' (log @ [Cancelled i found])"
proof (rule answers_inv_same[OF A])
  have d: "distinct (process_list q)" "set (process_list q) \<subseteq> dom (tq_records q)" using S by (auto simp: structure_inv_def)
  show "live (tq_records q') (process_list q') \<subseteq># live (tq_records q) (process_list q)"
  proof (rule cancel_scan_cases[OF d, of i])
    assume "cancel_scan i (tq_records q) (process_list q) = Some (False, process_list q, tq_records q)"
    then show ?thesis using C by (auto simp: cancel_request_def)
  next
    fix p r assume p: "cancel_scan i (tq_records q) (process_list q) = Some (True, remove1 p (process_list q), (tq_records q)(p := None))"
    have sub: "set (remove1 p (process_list q)) \<subseteq> dom (tq_records q)" using d(2) set_remove1_subset by fast
    have "live ((tq_records q)(p := None)) (remove1 p (process_list q)) = live (tq_records q) (remove1 p (process_list q))"
      using d(1) by (intro live_cong[OF _ sub]) auto
    moreover have "live (tq_records q) (remove1 p (process_list q)) \<subseteq># live (tq_records q) (process_list q)"
      by (simp add: live_def image_mset_subseteq_mono)
    ultimately show ?thesis using C p by (auto simp: cancel_request_def)
  next
    fix p r assume p: "tq_records q p = Some r"
      "cancel_scan i (tq_records q) (process_list q) = Some (True, process_list q, (tq_records q)(p \<mapsto> r\<lparr>cancelled := True\<rparr>))"
    have "live ((tq_records q)(p \<mapsto> r\<lparr>cancelled := True\<rparr>)) (process_list q) = live (tq_records q) (process_list q)"
      using p(1) by (intro live_cong[OF _ d(2)]) auto
    then show ?thesis using C p(2) by (auto simp: cancel_request_def)
  qed
qed simp_all

lemma answers_inv_result:
  assumes S: "structure_inv q ws" and R: "records_inv work q log" and A: "answers_inv work q log"
    and G: "get_next_result q = Some (res, q')"
  shows "answers_inv work q' (log @ [Result res])"
proof -
  obtain ps gone where h: "q' = q\<lparr>process_list := ps, tq_records := tq_records q |` (- gone)\<rparr>"
    "scan_ok (tq_records q) (process_list q) ps gone res"
    using get_next_result_shape[OF S] G by (metis Pair_inject option.inject)
  have sub: "set ps \<subseteq> dom (tq_records q)" using S h(2) by (auto simp: structure_inv_def scan_ok_def)
  have m: "live (tq_records q |` (- gone)) ps = live (tq_records q) ps"
    using h(2) by (intro live_cong[OF _ sub]) (auto simp: scan_ok_def)
  have del: "mset (delivered [Result res]) = (case res of None \<Rightarrow> {#} | Some (_, i) \<Rightarrow> {#i#})"
    by (cases res) auto
  have "live (tq_records q') (process_list q') + mset (delivered [Result res])
      \<subseteq># live (tq_records q) (process_list q)"
    using h m unfolding del by (simp add: scan_ok_def)
  then have "mset (delivered log) + (live (tq_records q') (process_list q') + mset (delivered [Result res])) \<subseteq># mset (posted log)"
    using A unfolding answers_inv_def by (meson subset_mset.add_left_mono subset_mset.order_trans)
  then have "mset (delivered (log @ [Result res])) + live (tq_records q') (process_list q') \<subseteq># mset (posted (log @ [Result res]))"
    by (simp add: ac_simps)
  moreover have "\<exists>b. Posted i b \<in> set (log @ [Result res]) \<and> work b resp" if "Result (Some (resp, i)) \<in> set (log @ [Result res])" for resp i
  proof (cases "res = Some (resp, i)")
    case True
    then obtain p r where "tq_records q p = Some r" "pr_state r = process_complete" "resp = response_buffer r" "i = request_index r"
      using h(2) unfolding scan_ok_def by blast
    then show ?thesis using R by (auto simp: records_inv_def)
  next
    case False
    then show ?thesis using that A by (auto simp: answers_inv_def)
  qed
  ultimately show ?thesis by (simp add: answers_inv_def)
qed

lemma answers_inv_step:
  assumes "structure_inv (fst s) (snd s)" "records_inv work (fst s) log" "answers_inv work (fst s) log" "tq_step work s l s'"
  shows "answers_inv work (fst s') (log @ [l])"
  using assms(4)
proof (cases rule: tq_step.cases)
  case (post b q index q' ws)
  let ?p = "tq_fresh q"
  have d: "set (process_list q) \<subseteq> dom (tq_records q)" "?p \<notin> dom (tq_records q)" using assms(1) post by (auto simp: structure_inv_def)
  obtain r where r: "process_list q' = process_list q @ [?p]" "tq_records q' = (tq_records q)(?p \<mapsto> r)" "request_index r = index"
    using post by (auto simp: post_request_def Let_def)
  have "live (tq_records q') (process_list q) = live (tq_records q) (process_list q)"
    unfolding r(2) using d by (intro live_cong[OF _ d(1)]) auto
  then have "live (tq_records q') (process_list q') = add_mset index (live (tq_records q) (process_list q))"
    using r by (simp add: live_def index_at_def)
  then show ?thesis using assms(3) post by (auto simp: answers_inv_def)
next
  case (cancel index q found q' ws)
  then show ?thesis using answers_inv_cancel assms(1,3) by simp
next
  case (result q res q' ws)
  then show ?thesis using answers_inv_result assms(1-3) by simp
next
  case (wake i ws q)
  then show ?thesis using assms(3) answers_inv_same[of work q log l] by auto
next
  case (take_next i ws q pick q')
  have S: "structure_inv q ws" using assms(1) take_next by simp
  then have d: "set (process_list q) \<subseteq> dom (tq_records q)" by (auto simp: structure_inv_def)
  have "live (tq_records q') (process_list q') = live (tq_records q) (process_list q)"
  proof (rule take_request_shape[OF S])
    assume "take_request q = Some (None, q)"
    then show ?thesis using take_next by simp
  next
    fix p r assume "tq_records q p = Some r" "take_request q = Some (Some p, q\<lparr>tq_records := (tq_records q)(p \<mapsto> r\<lparr>pr_state := in_process\<rparr>)\<rparr>)"
    then show ?thesis using take_next by (auto intro!: live_cong[OF _ d])
  qed
  then show ?thesis using answers_inv_same[of work q log l q'] assms(3) take_next by simp
next
  case (finish i ws p q r resp q')
  have d: "set (process_list q) \<subseteq> dom (tq_records q)" using assms(1) finish by (auto simp: structure_inv_def)
  have "live (tq_records q') (process_list q') = live (tq_records q) (process_list q)"
    using finish by (auto simp: complete_request_def intro!: live_cong[OF _ d])
  then show ?thesis using answers_inv_same[of work q log l q'] assms(3) finish by simp
qed

text \<open>All invariants hold in every reachable state.\<close>

lemma tq_reachable:
  assumes "run (tq_step work) (new_thread_queue, replicate n Waiting) log (q, ws)"
  shows "structure_inv q ws \<and> wakeup_inv q ws \<and> records_inv work q log \<and> answers_inv work q log"
proof -
  let ?I = "\<lambda>s log. structure_inv (fst s) (snd s) \<and> wakeup_inv (fst s) (snd s) \<and> records_inv work (fst s) log \<and> answers_inv work (fst s) log"
  have "?I (new_thread_queue, replicate n Waiting) []"
    using structure_inv_init by (simp add: wakeup_inv_def records_inv_def answers_inv_def) (simp add: new_thread_queue_def live_def)
  then have "?I (q, ws) log"
    by (rule run_invariant[OF assms, where I = ?I])
      (auto intro: structure_inv_step wakeup_inv_step records_inv_step answers_inv_step)
  then show ?thesis by simp
qed

text \<open>C33. Worker threads never touch a freed request: in every state that posting, cancelling, collecting results
  and any number of workers can reach, in any interleaving, each busy worker holds its own live record
  that is in process, and none of the locked sections meets a freed record.\<close>

theorem thread_queue_memory_safe:
  assumes "run (tq_step work) (new_thread_queue, replicate n Waiting) log (q, ws)"
  shows "(\<forall>i < length ws. \<forall>p. ws ! i = Working p \<longrightarrow> (\<exists>r. tq_records q p = Some r \<and> pr_state r = in_process)
           \<and> (\<forall>j < length ws. ws ! j = Working p \<longrightarrow> j = i))
     \<and> get_next_result q \<noteq> None \<and> (\<forall>i. cancel_request i q \<noteq> None) \<and> take_request q \<noteq> None"
proof -
  have S: "structure_inv q ws" using tq_reachable[OF assms] by simp
  then have d: "distinct (process_list q)" "set (process_list q) \<subseteq> dom (tq_records q)" by (auto simp: structure_inv_def)
  have "\<exists>r. tq_records q p = Some r \<and> pr_state r = in_process" if "i < length ws" "ws ! i = Working p" for i p
  proof -
    have "p \<in> held ws" using that working_iff by blast
    then have "in_state (tq_records q) in_process p" using S by (simp add: structure_inv_def)
    then show ?thesis by (auto simp: in_state_def)
  qed
  moreover have "j = i" if "i < length ws" "ws ! i = Working p" "j < length ws" "ws ! j = Working p" for i j p
    using S that unfolding structure_inv_def by blast
  moreover have "get_next_result q \<noteq> None" by (rule get_next_result_shape[OF S]) simp
  moreover have "cancel_request i q \<noteq> None" for i
    by (rule cancel_scan_cases[OF d, of i]) (simp_all add: cancel_request_def)
  moreover have "take_request q \<noteq> None" by (rule take_request_shape[OF S]) simp_all
  ultimately show ?thesis by blast
qed

text \<open>The start of the runs in the witnesses.\<close>

definition echo :: "byte_buffer \<Rightarrow> byte_buffer option \<Rightarrow> bool" where
  "echo b resp \<longleftrightarrow> resp = Some b"

definition some_request :: byte_buffer where
  "some_request = \<lparr>data_ptr = [1, 2], buf_size = 2\<rparr>"

definition posted_queue :: thread_queue where
  "posted_queue = snd (post_request some_request new_thread_queue)"

lemma posted_run:
  "run (tq_step echo) (new_thread_queue, replicate 1 Waiting) [Posted 0 some_request] (posted_queue, [Waiting])"
proof -
  have "post_request some_request new_thread_queue = (0, posted_queue)"
    by (simp add: posted_queue_def post_request_def new_thread_queue_def Let_def)
  then have "tq_step echo (new_thread_queue, [Waiting]) (Posted 0 some_request) (posted_queue, [Waiting])" by (rule tq_step.post)
  then show ?thesis using run_single by fastforce
qed

theorem thread_queue_memory_safe_witness:
  "get_next_result posted_queue \<noteq> None \<and> cancel_request 7 posted_queue \<noteq> None \<and> take_request posted_queue \<noteq> None"
  using thread_queue_memory_safe[OF posted_run] by blast

text \<open>C34. No wake-up is lost: whenever a request waits to be processed, either the semaphore is positive, so that a
  waiting worker can go on, or a worker is already past it and will find a request to take.\<close>

theorem thread_queue_no_lost_wakeup:
  assumes "run (tq_step work) (new_thread_queue, replicate n Waiting) log (q, ws)"
    and "tq_records q p = Some r" "pr_state r = not_yet_processed"
  shows "0 < tq_semaphore q \<or> (\<exists>i < length ws. ws ! i = Woken \<and> (\<exists>p' q'. take_request q = Some (Some p', q')))"
proof -
  have S: "structure_inv q ws" and W: "wakeup_inv q ws" using tq_reachable[OF assms(1)] by auto
  have "p \<in> set (filter (in_state (tq_records q) not_yet_processed) (process_list q))"
    using S assms(2,3) by (auto simp: structure_inv_def in_state_def)
  then have ne: "filter (in_state (tq_records q) not_yet_processed) (process_list q) \<noteq> []" by (metis empty_iff list.set(1))
  then have "0 < tq_semaphore q \<or> filter ((=) Woken) ws \<noteq> []" using W by (auto simp: wakeup_inv_def)
  moreover have "\<exists>p' q'. take_request q = Some (Some p', q')" by (rule take_request_shape[OF S]) (use ne in auto)
  moreover have "\<exists>i < length ws. ws ! i = Woken" if "filter ((=) Woken) ws \<noteq> []"
    using that by (auto simp: filter_empty_conv in_set_conv_nth)
  ultimately show ?thesis by blast
qed

theorem thread_queue_no_lost_wakeup_witness:
  "0 < tq_semaphore posted_queue \<or> (\<exists>i < length [Waiting]. [Waiting] ! i = Woken \<and> (\<exists>p' q'. take_request posted_queue = Some (Some p', q')))"
proof -
  have "\<exists>r. tq_records posted_queue 0 = Some r \<and> pr_state r = not_yet_processed"
    by (simp add: posted_queue_def post_request_def new_thread_queue_def Let_def)
  then show ?thesis using thread_queue_no_lost_wakeup[OF posted_run] by blast
qed

text \<open>C35. Results answer requests: every result handed to the client carries the index of a request that was posted
  and an answer to that request's buffer, and no index is delivered more often than it was posted.\<close>

theorem thread_queue_results:
  assumes "run (tq_step work) (new_thread_queue, replicate n Waiting) log (q, ws)"
  shows "mset (delivered log) \<subseteq># mset (posted log)
     \<and> (\<forall>resp i. Result (Some (resp, i)) \<in> set log \<longrightarrow> (\<exists>b. Posted i b \<in> set log \<and> work b resp))"
proof -
  have "answers_inv work q log" using tq_reachable[OF assms] by simp
  then show ?thesis unfolding answers_inv_def by (meson mset_subset_eq_add_left subset_mset.order_trans)
qed

theorem thread_queue_results_witness:
  "\<exists>q. run (tq_step echo) (new_thread_queue, replicate 1 Waiting)
        [Posted 0 some_request, Woke 0, Took 0 (Some 0), Finished 0 0, Result (Some (Some some_request, 0))] (q, [Waiting])
     \<and> mset (delivered [Posted 0 some_request, Woke 0, Took 0 (Some 0), Finished 0 0, Result (Some (Some some_request, 0))])
        \<subseteq># mset (posted [Posted 0 some_request, Woke 0, Took 0 (Some 0), Finished 0 0, Result (Some (Some some_request, 0))])"
proof -
  let ?r = "\<lparr>pr_state = in_process, request_index = 0, request_buffer = some_request, response_buffer = None, cancelled = False\<rparr>"
  define q2 where "q2 = posted_queue\<lparr>tq_semaphore := 0\<rparr>"
  define q3 where "q3 = q2\<lparr>tq_records := [0 \<mapsto> ?r]\<rparr>"
  define q4 where "q4 = q3\<lparr>tq_records := [0 \<mapsto> ?r\<lparr>response_buffer := Some some_request, pr_state := process_complete\<rparr>]\<rparr>"
  note defs = posted_queue_def post_request_def new_thread_queue_def Let_def q2_def q3_def q4_def
  have 2: "tq_step echo (posted_queue, [Waiting]) (Woke 0) (q2, [Woken])"
    using tq_step.wake[of 0 "[Waiting]" posted_queue echo] by (simp add: defs)
  have "take_request q2 = Some (Some 0, q3)" by (simp add: take_request_def defs)
  from tq_step.take_next[OF _ _ this, of 0 "[Woken]" echo] have 3: "tq_step echo (q2, [Woken]) (Took 0 (Some 0)) (q3, [Working 0])" by simp
  have "complete_request 0 (Some some_request) q3 = Some q4" by (simp add: complete_request_def defs)
  from tq_step.finish[OF _ _ _ _ this, of 0 "[Working 0]" ?r echo]
  have 4: "tq_step echo (q3, [Working 0]) (Finished 0 0) (q4, [Waiting])" by (simp add: echo_def q3_def)
  obtain q5 where "get_next_result q4 = Some (Some (Some some_request, 0), q5)" by (simp add: get_next_result_def defs)
  then have 5: "tq_step echo (q4, [Waiting]) (Result (Some (Some some_request, 0))) (q5, [Waiting])" by (rule tq_step.result)
  have R: "run (tq_step echo) (new_thread_queue, replicate 1 Waiting)
        [Posted 0 some_request, Woke 0, Took 0 (Some 0), Finished 0 0, Result (Some (Some some_request, 0))] (q5, [Waiting])"
    using run_snoc[OF run_snoc[OF run_snoc[OF run_snoc[OF posted_run 2] 3] 4] 5] by simp
  with thread_queue_results[OF R] show ?thesis by blast
qed

end
