(* ===== verification/Socket_State.thy ===== *)
theory Socket_State
  imports Torque_Connection Asymmetric_Key Client_Puzzle Hash_Table_Flat Thread_Queue
begin

text \<open>
  \<^verbatim>\<open>torque_sockets/pending_connection.h\<close> and the state of \<^verbatim>\<open>torque_sockets/torque_socket.h\<close>.  Pending connections
  are nodes of a singly linked list, established connections of a doubly linked one; both lists live in
  stores addressed by pointers, and the two lookup tables hold pointers to connections.

  Code outside the repository's own sources is bundled in the record \<open>crypto\<close>: the digest, the block cipher,
  the random generator and the elliptic-curve operations.  What uninitialised memory and locals hold is
  the record \<open>uninit\<close>.
\<close>

subsection \<open>Pending connections\<close>

datatype pending_connection_state =
    requesting_introduction | sending_punch_packets | requesting_challenge_response
  | awaiting_local_challenge_accept | awaiting_connect_request | computing_puzzle_solution
  | requesting_connection | awaiting_local_accept

datatype pending_connection_type =
    connection_initiator | connection_host | introduced_connection_initiator | introduced_connection_host

record 'k pending_connection =
  pc_next :: "ptr option"
  pc_initiator_nonce :: nonce
  pc_host_nonce :: nonce
  pc_initial_send_sequence :: uint32
  pc_initial_recv_sequence :: uint32
  pc_shared_secret :: "byte_buffer option"
  pc_introducer :: uint32
  pc_remote_client_id :: uint32
  pc_address :: address
  pc_type :: pending_connection_type
  pc_state :: pending_connection_state
  pc_connection_index :: uint32
  pc_possible_addresses :: "address list"
  pc_puzzle_retried :: bool
  pc_symmetric_key :: "byte list"
  pc_init_vector :: "byte list"
  pc_puzzle_difficulty :: uint32
  pc_puzzle_solution :: uint32
  pc_client_identity :: uint32
  pc_puzzle_request_index :: uint32
  pc_public_key :: "'k asymmetric_key option"
  pc_private_key :: "'k asymmetric_key option"
  pc_symmetric_cipher :: "symmetric_cipher option"
  pc_retry_count :: uint32
  pc_retry_interval :: uint32
  pc_last_send_time :: time
  pc_packet_data :: "byte_buffer option"

text \<open>The constructor.  It leaves the nonce of the host, the keys of the cipher, the puzzle fields, the retry
  interval and the time of the last send as the memory \<open>mem\<close> held them.\<close>

definition new_pending_connection ::
    "'k pending_connection \<Rightarrow> pending_connection_type \<Rightarrow> nonce \<Rightarrow> uint32 \<Rightarrow> uint32 \<Rightarrow> 'k pending_connection" where
  "new_pending_connection mem type init_nonce initial_send_sequence index =
     mem\<lparr>pc_type := type,
         pc_state := (if type = connection_initiator then requesting_challenge_response
                      else if type = connection_host then awaiting_local_accept else requesting_introduction),
         pc_retry_count := 0, pc_puzzle_retried := False, pc_connection_index := index,
         pc_initiator_nonce := init_nonce, pc_initial_send_sequence := initial_send_sequence,
         pc_introducer := 0, pc_remote_client_id := 0, pc_next := None,
         pc_address := address_of_name addr_any 0, pc_shared_secret := None, pc_possible_addresses := [],
         pc_public_key := None, pc_private_key := None, pc_symmetric_cipher := None, pc_packet_data := None\<rparr>"

text \<open>The four assignments that start a new phase of the negotiation.\<close>

definition enter_state :: "pending_connection_state \<Rightarrow> uint32 \<Rightarrow> uint32 \<Rightarrow> time \<Rightarrow> 'k pending_connection \<Rightarrow> 'k pending_connection" where
  "enter_state state retries interval now pc =
     pc\<lparr>pc_state := state, pc_retry_count := retries, pc_retry_interval := interval, pc_last_send_time := now\<rparr>"

subsection \<open>The socket\<close>

datatype packet_type =
    connect_challenge_request_packet | connect_challenge_response_packet | connect_reject_packet
  | connect_request_packet | connect_accept_packet | disconnect_packet
  | introduced_connection_request_packet | connection_introduction_packet | punch_packet

fun packet_byte :: "packet_type \<Rightarrow> byte" where
  "packet_byte connect_challenge_request_packet = 0"
| "packet_byte connect_challenge_response_packet = 1"
| "packet_byte connect_reject_packet = 2"
| "packet_byte connect_request_packet = 3"
| "packet_byte connect_accept_packet = 4"
| "packet_byte disconnect_packet = 5"
| "packet_byte introduced_connection_request_packet = 6"
| "packet_byte connection_introduction_packet = 7"
| "packet_byte punch_packet = 8"

definition first_valid_info_packet_id :: byte where "first_valid_info_packet_id = 32"
definition challenge_retry_count :: uint32 where "challenge_retry_count = 4"
definition challenge_retry_time :: uint32 where "challenge_retry_time = 2500"
definition punch_retry_count :: uint32 where "punch_retry_count = 6"
definition introduced_connection_connect_timeout :: uint32 where "introduced_connection_connect_timeout = 45000"
definition timeout_check_interval :: time where "timeout_check_interval = 1500"
definition puzzle_solution_timeout :: uint32 where "puzzle_solution_timeout = 30000"
definition introduction_timeout :: uint32 where "introduction_timeout = 30000"
definition message_signature_bytes :: uint32 where "message_signature_bytes = 5"
definition torque_sockets_max_status_datagram_size :: uint32 where "torque_sockets_max_status_datagram_size = 511"
definition invalid_torque_connection :: uint32 where "invalid_torque_connection = 0"

datatype disconnect_reason =
    reason_failed_puzzle | reason_self_disconnect | reason_shutdown | reason_reconnecting | reason_disconnect_call

fun reason_code :: "disconnect_reason \<Rightarrow> uint32" where
  "reason_code reason_failed_puzzle = 0"
| "reason_code reason_self_disconnect = 1"
| "reason_code reason_shutdown = 2"
| "reason_code reason_reconnecting = 3"
| "reason_code reason_disconnect_call = 4"

record connection_node =
  node_connection :: torque_connection
  node_next :: "ptr option"
  node_prev :: "ptr option"

record introduction_record =
  intro_initiator_nonce :: nonce
  intro_host_nonce :: nonce
  intro_initiator :: uint32
  intro_host :: uint32
  initiator_request_received :: bool
  host_request_received :: bool
  initial_intro_sent :: bool
  introduction_time :: time

record ('s, 'k) torque_socket =
  ts_io :: socket_io
  random_gen :: "'s random_generator"
  puzzle_solver :: thread_queue
  pending_heap :: "ptr \<rightharpoonup> 'k pending_connection"
  pending_connections :: "ptr option"
  connection_heap :: "ptr \<rightharpoonup> connection_node"
  connection_list :: "ptr option"
  connection_id_lookup_table :: "(uint32, ptr) hash_table_flat"
  connection_address_lookup_table :: "(address, ptr) hash_table_flat"
  next_connection_index :: uint32
  challenge_response :: "byte_buffer option"
  socket_key :: "'k asymmetric_key option"
  puzzle_manager :: client_puzzle_manager
  last_timeout_check_time :: time
  random_hash_data :: "byte list"
  allow_connections :: bool
  introductions :: "introduction_record list"
  received_packet_list :: "packet_record list"
  thread_socket :: bool
  ts_fresh :: ptr

record ('s, 'k) crypto =
  cr_sha256 :: "byte list \<Rightarrow> byte list"
  cr_ecb :: block_fun
  cr_yarrow :: "'s yarrow"
  cr_ecc :: "('s, 'k) ecc"

record 'k uninit =
  u_bytes :: "nat \<Rightarrow> byte"
  u_nonce :: "nat \<Rightarrow> nonce"
  u_word :: "nat \<Rightarrow> uint32"
  u_byte :: byte
  u_address :: address
  u_pending :: "'k pending_connection"
  u_connection :: torque_connection
  u_key :: "'k asymmetric_key"
  u_float :: rat

text \<open>Updates of parts of the socket.\<close>

definition now :: "('s, 'k) torque_socket \<Rightarrow> time" where
  "now s = process_start_time (ts_io s)"

definition set_pending :: "ptr \<Rightarrow> 'k pending_connection \<Rightarrow> ('s, 'k) torque_socket \<Rightarrow> ('s, 'k) torque_socket" where
  "set_pending p pc s = s\<lparr>pending_heap := (pending_heap s)(p \<mapsto> pc)\<rparr>"

definition set_queue :: "socket_event_queue \<Rightarrow> ('s, 'k) torque_socket \<Rightarrow> ('s, 'k) torque_socket" where
  "set_queue q s = s\<lparr>ts_io := (ts_io s)\<lparr>event_queue := q\<rparr>\<rparr>"

definition post :: "event_type \<Rightarrow> uint32 \<Rightarrow> ('s, 'k) torque_socket \<Rightarrow> ('s, 'k) torque_socket option" where
  "post ty connection_id s = do {
     (_, q) \<leftarrow> post_event ty connection_id (event_queue (ts_io s));
     Some (set_queue q s) }"

text \<open>\<^verbatim>\<open>packet_stream::send_to\<close> through the socket's own UDP socket.\<close>

definition transmit :: "bit_stream \<Rightarrow> address \<Rightarrow> ('s, 'k) torque_socket \<Rightarrow> ('s, 'k) torque_socket option" where
  "transmit out a s = do {
     d \<leftarrow> datagram out;
     Some (s\<lparr>ts_io := send_to a d (ts_io s)\<rparr>) }"

subsection \<open>Lookup\<close>

text \<open>\<^verbatim>\<open>_find_connection\<close>: the outer \<open>None\<close> is a search that does not end, the inner one a null pointer.\<close>

definition find_connection :: "address \<Rightarrow> ('s, 'k) torque_socket \<Rightarrow> ptr option option" where
  "find_connection a s = ht_lookup address_hash a (connection_address_lookup_table s)"

definition find_connection_id :: "uint32 \<Rightarrow> ('s, 'k) torque_socket \<Rightarrow> ptr option option" where
  "find_connection_id i s = ht_lookup (\<lambda>k. k) i (connection_id_lookup_table s)"

definition find_pending_connection :: "address \<Rightarrow> ('s, 'k) torque_socket \<Rightarrow> ptr option option" where
  "find_pending_connection a s =
     find_node pc_next (pending_heap s) (\<lambda>pc. address_eq (pc_address pc) a) (pending_connections s)"

definition find_pending_connection_id :: "uint32 \<Rightarrow> ('s, 'k) torque_socket \<Rightarrow> ptr option option" where
  "find_pending_connection_id i s =
     find_node pc_next (pending_heap s) (\<lambda>pc. pc_connection_index pc = i) (pending_connections s)"

definition deref_connection :: "ptr \<Rightarrow> ('s, 'k) torque_socket \<Rightarrow> torque_connection option" where
  "deref_connection p s = map_option node_connection (connection_heap s p)"

definition set_connection :: "ptr \<Rightarrow> torque_connection \<Rightarrow> ('s, 'k) torque_socket \<Rightarrow> ('s, 'k) torque_socket option" where
  "set_connection p c s = do {
     n \<leftarrow> connection_heap s p;
     Some (s\<lparr>connection_heap := (connection_heap s)(p \<mapsto> n\<lparr>node_connection := c\<rparr>)\<rparr>) }"

subsection \<open>The list of pending connections\<close>

definition add_pending_connection :: "ptr \<Rightarrow> ('s, 'k) torque_socket \<Rightarrow> ('s, 'k) torque_socket option" where
  "add_pending_connection p s = do {
     pc \<leftarrow> pending_heap s p;
     Some (s\<lparr>pending_heap := (pending_heap s)(p \<mapsto> pc\<lparr>pc_next := pending_connections s\<rparr>), pending_connections := Some p\<rparr>) }"

text \<open>The loop of \<^verbatim>\<open>_remove_pending_connection\<close>.  The pointer to a link is \<open>prev\<close>: the head of the list or the
  link of a node.\<close>

definition get_link :: "ptr option \<Rightarrow> ('s, 'k) torque_socket \<Rightarrow> ptr option option" where
  "get_link prev s = (case prev of None \<Rightarrow> Some (pending_connections s) | Some q \<Rightarrow> map_option pc_next (pending_heap s q))"

definition set_link :: "ptr option \<Rightarrow> ptr option \<Rightarrow> ('s, 'k) torque_socket \<Rightarrow> ('s, 'k) torque_socket option" where
  "set_link prev p s = (case prev of None \<Rightarrow> Some (s\<lparr>pending_connections := p\<rparr>)
     | Some q \<Rightarrow> (case pending_heap s q of None \<Rightarrow> None | Some pc \<Rightarrow> Some (set_pending q (pc\<lparr>pc_next := p\<rparr>) s)))"

partial_function (option) unlink_from :: "ptr \<Rightarrow> ptr option \<Rightarrow> ('s, 'k) torque_socket \<Rightarrow> ('s, 'k) torque_socket option" where
  "unlink_from the_connection prev s = (case get_link prev s of None \<Rightarrow> None
     | Some None \<Rightarrow> Some s
     | Some (Some p) \<Rightarrow>
         if p = the_connection then
           (case pending_heap s p of None \<Rightarrow> None
            | Some pc \<Rightarrow> (case set_link prev (pc_next pc) s of None \<Rightarrow> None
                | Some s' \<Rightarrow> Some (s'\<lparr>pending_heap := (pending_heap s')(p := None)\<rparr>)))
         else unlink_from the_connection (Some p) s)"

definition remove_pending_connection :: "ptr \<Rightarrow> ('s, 'k) torque_socket \<Rightarrow> ('s, 'k) torque_socket option" where
  "remove_pending_connection p s = unlink_from p None s"

subsection \<open>The list of connections\<close>

definition add_connection :: "torque_connection \<Rightarrow> ('s, 'k) torque_socket \<Rightarrow> (ptr \<times> ('s, 'k) torque_socket) option" where
  "add_connection c s = do {
     let p = ts_fresh s;
     h \<leftarrow> (case connection_list s of
             None \<Rightarrow> Some (connection_heap s)
           | Some q \<Rightarrow> do { n \<leftarrow> connection_heap s q; Some ((connection_heap s)(q \<mapsto> n\<lparr>node_prev := Some p\<rparr>)) });
     let node = \<lparr>node_connection = c, node_next = connection_list s, node_prev = None\<rparr>;
     (_, t1) \<leftarrow> ht_insert (\<lambda>k. k) (connection_index c) p (connection_id_lookup_table s);
     (_, t2) \<leftarrow> ht_insert address_hash (tc_address c) p (connection_address_lookup_table s);
     Some (p, s\<lparr>connection_heap := h(p \<mapsto> node), connection_list := Some p, connection_id_lookup_table := t1,
                connection_address_lookup_table := t2, ts_fresh := p + 1\<rparr>) }"

definition remove_connection :: "ptr \<Rightarrow> ('s, 'k) torque_socket \<Rightarrow> ('s, 'k) torque_socket option" where
  "remove_connection p s = do {
     n \<leftarrow> connection_heap s p;
     s1 \<leftarrow> (case node_prev n of
              None \<Rightarrow> Some (s\<lparr>connection_list := node_next n\<rparr>)
            | Some q \<Rightarrow> do { m \<leftarrow> connection_heap s q;
                Some (s\<lparr>connection_heap := (connection_heap s)(q \<mapsto> m\<lparr>node_next := node_next n\<rparr>)\<rparr>) });
     s2 \<leftarrow> (case node_next n of
              None \<Rightarrow> Some s1
            | Some q \<Rightarrow> do { m \<leftarrow> connection_heap s1 q;
                Some (s1\<lparr>connection_heap := (connection_heap s1)(q \<mapsto> m\<lparr>node_prev := node_prev n\<rparr>)\<rparr>) });
     (_, t1) \<leftarrow> ht_remove (\<lambda>k. k) (connection_index (node_connection n)) (connection_id_lookup_table s2);
     (_, t2) \<leftarrow> ht_remove address_hash (tc_address (node_connection n)) (connection_address_lookup_table s2);
     Some (s2\<lparr>connection_heap := (connection_heap s2)(p := None), connection_id_lookup_table := t1,
              connection_address_lookup_table := t2\<rparr>) }"

end
