(* ===== verification/Socket_Handlers.thy ===== *)
theory Socket_Handlers
  imports Socket_State
begin

text \<open>
  The packets of the connection handshake in \<^verbatim>\<open>torque_sockets/torque_socket.h\<close>: one definition per function that
  sends a packet and one per handler of a received packet, up to the dispatch in \<^verbatim>\<open>_process_packet\<close>.  A
  handler that follows a null or dangling pointer has no result.
\<close>

definition compute_client_identity_token ::
    "('s, 'k) crypto \<Rightarrow> address \<Rightarrow> nonce \<Rightarrow> ('s, 'k) torque_socket \<Rightarrow> uint32" where
  "compute_client_identity_token K the_address the_nonce s =
     u32_of_bytes (take 4 (cr_sha256 K (bytes_of_u32 (endian_swap32 (host the_address))
       @ bytes_of_u32 (endian_swap32 (ucast (port the_address))) @ bytes_of_u64 the_nonce @ random_hash_data s)))"

subsection \<open>Introductions\<close>

definition send_introduction_request :: "'k uninit \<Rightarrow> ptr \<Rightarrow> ('s, 'k) torque_socket \<Rightarrow> ('s, 'k) torque_socket option" where
  "send_introduction_request U the_connection s = do {
     pc \<leftarrow> pending_heap s the_connection;
     introducing_connection \<leftarrow> find_connection_id (pc_introducer pc) s;
     (case introducing_connection of None \<Rightarrow> Some s
      | Some cp \<Rightarrow> do {
          c \<leftarrow> deref_connection cp s;
          (_, o1) \<leftarrow> write_u8 (packet_byte introduced_connection_request_packet) (packet_stream (u_bytes U));
          (_, o2) \<leftarrow> write_u64 (initiator_nonce c) o1;
          (_, o3) \<leftarrow> write_u32 (pc_remote_client_id pc) o2;
          (_, o4) \<leftarrow> write_u8 (if pc_type pc = introduced_connection_initiator then 1 else 0) o3;
          transmit o4 (tc_address c) s }) }"

definition send_introduction :: "'k uninit \<Rightarrow> uint32 \<Rightarrow> uint32 \<Rightarrow> nonce \<Rightarrow> nonce
    \<Rightarrow> ('s, 'k) torque_socket \<Rightarrow> ('s, 'k) torque_socket option" where
  "send_introduction U intro_target remote_host init_nonce hst_nonce s = do {
     connection \<leftarrow> find_connection_id intro_target s;
     remote \<leftarrow> find_connection_id remote_host s;
     (case (connection, remote) of
        (Some cp, Some rp) \<Rightarrow> do {
          c \<leftarrow> deref_connection cp s;
          r \<leftarrow> deref_connection rp s;
          (_, o1) \<leftarrow> write_u8 (packet_byte connection_introduction_packet) (packet_stream (u_bytes U));
          (_, o2) \<leftarrow> write_u64 (initiator_nonce c) o1;
          (_, o3) \<leftarrow> write_u32 remote_host o2;
          (_, o4) \<leftarrow> write_address (tc_address r) o3;
          (_, o5) \<leftarrow> write_u64 init_nonce o4;
          (_, o6) \<leftarrow> write_u64 hst_nonce o5;
          transmit o6 (tc_address c) s }
      | _ \<Rightarrow> Some s) }"

text \<open>The loop of \<^verbatim>\<open>_handle_introduction_request\<close> over the introduction records.\<close>

primrec introduction_loop :: "'k uninit \<Rightarrow> bool \<Rightarrow> uint32 \<Rightarrow> uint32 \<Rightarrow> nat list
    \<Rightarrow> ('s, 'k) torque_socket \<Rightarrow> ('s, 'k) torque_socket option" where
  "introduction_loop U is_init initiating hosting [] s = Some s"
| "introduction_loop U is_init initiating hosting (i # is) s = do {
     intro \<leftarrow> load (introductions s) i;
     if intro_initiator intro = initiating \<and> intro_host intro = hosting then do {
       let intro' = (if is_init then intro\<lparr>initiator_request_received := True\<rparr> else intro\<lparr>host_request_received := True\<rparr>);
       let s1 = s\<lparr>introductions := (introductions s)[i := intro']\<rparr>;
       let to_initiator = send_introduction U (intro_initiator intro') (intro_host intro') (intro_initiator_nonce intro') (intro_host_nonce intro');
       let to_host = send_introduction U (intro_host intro') (intro_initiator intro') (intro_initiator_nonce intro') (intro_host_nonce intro');
       s2 \<leftarrow> (if initiator_request_received intro' \<and> host_request_received intro' then
                if \<not> initial_intro_sent intro' then to_initiator s1 \<bind> to_host
                else if is_init then to_initiator s1 else to_host s1
              else Some s1);
       introduction_loop U is_init initiating hosting is s2 }
     else introduction_loop U is_init initiating hosting is s }"

definition handle_introduction_request :: "'k uninit \<Rightarrow> address \<Rightarrow> bit_stream
    \<Rightarrow> ('s, 'k) torque_socket \<Rightarrow> ('s, 'k) torque_socket option" where
  "handle_introduction_request U addr stream s = do {
     (_, requestor_nonce, r1) \<leftarrow> read_u64 (u_nonce U 0) stream;
     (_, remote_id, r2) \<leftarrow> read_u32 (u_word U 0) r1;
     (_, is_init, r3) \<leftarrow> read_u8 (u_byte U) r2;
     requesting_connection \<leftarrow> find_connection addr s;
     (case requesting_connection of None \<Rightarrow> Some s
      | Some cp \<Rightarrow> do {
          c \<leftarrow> deref_connection cp s;
          if initiator_nonce c \<noteq> requestor_nonce then Some s
          else if is_init \<noteq> 0
          then introduction_loop U True (connection_index c) remote_id [0..<length (introductions s)] s
          else introduction_loop U False remote_id (connection_index c) [0..<length (introductions s)] s }) }"

subsection \<open>Punch packets\<close>

primrec punch_loop :: "'k uninit \<Rightarrow> nonce \<Rightarrow> nonce \<Rightarrow> address list \<Rightarrow> ('s, 'k) torque_socket \<Rightarrow> ('s, 'k) torque_socket option" where
  "punch_loop U init_nonce hst_nonce [] s = Some s"
| "punch_loop U init_nonce hst_nonce (a # as) s = do {
     (_, o1) \<leftarrow> write_u8 (packet_byte punch_packet) (packet_stream (u_bytes U));
     (_, o2) \<leftarrow> write_u64 init_nonce o1;
     (_, o3) \<leftarrow> write_u64 hst_nonce o2;
     s1 \<leftarrow> transmit o3 a s;
     punch_loop U init_nonce hst_nonce as s1 }"

definition send_punch :: "'k uninit \<Rightarrow> ptr \<Rightarrow> ('s, 'k) torque_socket \<Rightarrow> ('s, 'k) torque_socket option" where
  "send_punch U the_connection s = do {
     pc \<leftarrow> pending_heap s the_connection;
     punch_loop U (pc_initiator_nonce pc) (pc_host_nonce pc) (pc_possible_addresses pc) s }"

text \<open>\<^verbatim>\<open>_handle_introduction\<close> follows the pointer to the introducer without testing it.\<close>

definition handle_introduction :: "'k uninit \<Rightarrow> address \<Rightarrow> bit_stream
    \<Rightarrow> ('s, 'k) torque_socket \<Rightarrow> ('s, 'k) torque_socket option" where
  "handle_introduction U the_address stream s = do {
     found \<leftarrow> find_connection the_address s;
     (_, introducer_nonce, r1) \<leftarrow> read_u64 (u_nonce U 0) stream;
     introducer \<leftarrow> found;
     c \<leftarrow> deref_connection introducer s;
     if initiator_nonce c \<noteq> introducer_nonce then Some s
     else do {
       (_, remote_id, r2) \<leftarrow> read_u32 (u_word U 0) r1;
       (_, remote_addr, r3) \<leftarrow> read_address (address_of_name addr_any 0) r2;
       (_, init_nonce, r4) \<leftarrow> read_u64 (u_nonce U 1) r3;
       (_, hst_nonce, r5) \<leftarrow> read_u64 (u_nonce U 2) r4;
       walk \<leftarrow> find_node pc_next (pending_heap s)
                 (\<lambda>pc. pc_introducer pc = connection_index c \<and> pc_remote_client_id pc = remote_id
                       \<and> pc_state pc = requesting_introduction) (pending_connections s);
       (case walk of None \<Rightarrow> Some s
        | Some p \<Rightarrow> do {
            pc \<leftarrow> pending_heap s p;
            let pc1 = enter_state sending_punch_packets punch_retry_count introduced_connection_connect_timeout (now s)
                 (pc\<lparr>pc_initiator_nonce := init_nonce, pc_host_nonce := hst_nonce,
                     pc_possible_addresses := pc_possible_addresses pc @ [remote_addr]\<rparr>);
            send_punch U p (set_pending p pc1 s) }) } }"

definition send_challenge_request :: "'k uninit \<Rightarrow> ptr \<Rightarrow> ('s, 'k) torque_socket \<Rightarrow> ('s, 'k) torque_socket option" where
  "send_challenge_request U the_connection s = do {
     pc \<leftarrow> pending_heap s the_connection;
     (_, o1) \<leftarrow> write_u8 (packet_byte connect_challenge_request_packet) (packet_stream (u_bytes U));
     (_, o2) \<leftarrow> write_u64 (pc_initiator_nonce pc) o1;
     (_, o3) \<leftarrow> write_u64 (pc_host_nonce pc) o2;
     transmit o3 (pc_address pc) s }"

text \<open>The loop of \<^verbatim>\<open>_handle_punch\<close>: it does not stop at the first match.\<close>

partial_function (option) punch_walk :: "'k uninit \<Rightarrow> address \<Rightarrow> nonce \<Rightarrow> nonce \<Rightarrow> ptr option
    \<Rightarrow> ('s, 'k) torque_socket \<Rightarrow> ('s, 'k) torque_socket option" where
  "punch_walk U the_address init_nonce hst_nonce walk s = (case walk of None \<Rightarrow> Some s
     | Some p \<Rightarrow> do {
         pc \<leftarrow> pending_heap s p;
         s1 \<leftarrow> (if pc_initiator_nonce pc = init_nonce \<and> pc_host_nonce pc = hst_nonce
                    \<and> pc_state pc = sending_punch_packets \<and> pc_type pc = introduced_connection_initiator
                 then send_challenge_request U p
                        (set_pending p (enter_state requesting_challenge_response challenge_retry_count challenge_retry_time (now s)
                           (pc\<lparr>pc_address := the_address\<rparr>)) s)
                 else Some s);
         punch_walk U the_address init_nonce hst_nonce (pc_next pc) s1 })"

definition handle_punch :: "'k uninit \<Rightarrow> address \<Rightarrow> bit_stream
    \<Rightarrow> ('s, 'k) torque_socket \<Rightarrow> ('s, 'k) torque_socket option" where
  "handle_punch U the_address stream s = do {
     (_, init_nonce, r1) \<leftarrow> read_u64 (u_nonce U 0) stream;
     (_, hst_nonce, r2) \<leftarrow> read_u64 (u_nonce U 1) r1;
     punch_walk U the_address init_nonce hst_nonce (pending_connections s) s }"

subsection \<open>Challenges\<close>

definition send_connect_challenge_response :: "('s, 'k) crypto \<Rightarrow> 'k uninit \<Rightarrow> address \<Rightarrow> nonce
    \<Rightarrow> ('s, 'k) torque_socket \<Rightarrow> ('s, 'k) torque_socket option" where
  "send_connect_challenge_response K U addr init_nonce s = do {
     (_, o1) \<leftarrow> write_u8 (packet_byte connect_challenge_response_packet) (packet_stream (u_bytes U));
     (_, o2) \<leftarrow> write_u64 init_nonce o1;
     (_, o3) \<leftarrow> write_u32 (compute_client_identity_token K addr init_nonce s) o2;
     (_, o4) \<leftarrow> write_u64 (current_nonce (puzzle_manager s)) o3;
     (_, o5) \<leftarrow> write_u32 (current_difficulty (puzzle_manager s)) o4;
     key \<leftarrow> socket_key s;
     public \<leftarrow> public_key key;
     (_, o6) \<leftarrow> write_byte_buffer public o5;
     response \<leftarrow> challenge_response s;
     (_, o7) \<leftarrow> write_byte_buffer response o6;
     transmit o7 addr s }"

text \<open>The nonce of the host is never read from the packet: the search compares it with an uninitialised local.\<close>

definition handle_connect_challenge_request :: "('s, 'k) crypto \<Rightarrow> 'k uninit \<Rightarrow> address \<Rightarrow> bit_stream
    \<Rightarrow> ('s, 'k) torque_socket \<Rightarrow> ('s, 'k) torque_socket option" where
  "handle_connect_challenge_request K U addr stream s =
     (if \<not> allow_connections s then Some s
      else do {
        let hst_nonce = u_nonce U 1;
        (_, init_nonce, r1) \<leftarrow> read_u64 (u_nonce U 0) stream;
        conn \<leftarrow> find_node pc_next (pending_heap s)
                  (\<lambda>pc. pc_state pc = sending_punch_packets \<and> pc_type pc = introduced_connection_host
                        \<and> init_nonce = pc_initiator_nonce pc \<and> hst_nonce = pc_host_nonce pc) (pending_connections s);
        s1 \<leftarrow> (case conn of None \<Rightarrow> Some s
                | Some p \<Rightarrow> do {
                    pc \<leftarrow> pending_heap s p;
                    Some (set_pending p (enter_state awaiting_connect_request 0 introduced_connection_connect_timeout (now s)
                            (pc\<lparr>pc_address := addr\<rparr>)) s) });
        send_connect_challenge_response K U addr init_nonce s1 })"

text \<open>The key for a connection whose host has a key of another size: the size is converted to a buffer of that
  many uninitialised bytes, which is loaded as a key.\<close>

definition connection_key :: "('s, 'k) crypto \<Rightarrow> 'k uninit \<Rightarrow> 'k asymmetric_key \<Rightarrow> ('s, 'k) torque_socket
    \<Rightarrow> 'k asymmetric_key option" where
  "connection_key K U pub s =
     (case socket_key s of
        Some k \<Rightarrow> if ak_key_size k = ak_key_size pub then Some k
                  else key_of_buffer (cr_ecc K) (u_bytes U) (u_key U) (buffer_of_size (u_bytes U) (ak_key_size pub))
      | None \<Rightarrow> key_of_buffer (cr_ecc K) (u_bytes U) (u_key U) (buffer_of_size (u_bytes U) (ak_key_size pub)))"

definition handle_connect_challenge_response :: "('s, 'k) crypto \<Rightarrow> 'k uninit \<Rightarrow> address \<Rightarrow> bit_stream
    \<Rightarrow> ('s, 'k) torque_socket \<Rightarrow> ('s, 'k) torque_socket option" where
  "handle_connect_challenge_response K U the_address stream s = do {
     conn \<leftarrow> find_pending_connection the_address s;
     (case conn of None \<Rightarrow> Some s
      | Some p \<Rightarrow> do {
          pc \<leftarrow> pending_heap s p;
          if pc_state pc \<noteq> requesting_challenge_response then Some s
          else do {
            (_, init_nonce, r1) \<leftarrow> read_u64 (u_nonce U 0) stream;
            if init_nonce \<noteq> pc_initiator_nonce pc then Some s
            else do {
              (_, identity, r2) \<leftarrow> read_u32 (pc_client_identity pc) r1;
              (_, hst_nonce, r3) \<leftarrow> read_u64 (pc_host_nonce pc) r2;
              (_, difficulty, r4) \<leftarrow> read_u32 (pc_puzzle_difficulty pc) r3;
              let pc1 = pc\<lparr>pc_client_identity := identity, pc_host_nonce := hst_nonce, pc_puzzle_difficulty := difficulty\<rparr>;
              if max_puzzle_difficulty < difficulty then Some (set_pending p pc1 s)
              else do {
                (pub, r5) \<leftarrow> key_of_stream (cr_ecc K) (u_bytes U) (u_word U 0) (u_key U) r4;
                let pc2 = pc1\<lparr>pc_public_key := Some pub\<rparr>;
                if \<not> key_is_valid pub then Some (set_pending p pc2 s)
                else do {
                  priv \<leftarrow> connection_key K U pub s;
                  secret \<leftarrow> compute_shared_secret_key (cr_sha256 K) (cr_ecc K) (u_bytes U) pub priv;
                  let (sym_key, g) = random_buffer (cr_yarrow K) key_size (random_gen s);
                  let pc3 = pc2\<lparr>pc_private_key := Some priv, pc_shared_secret := secret, pc_symmetric_key := sym_key\<rparr>;
                  (_, response_data, r6) \<leftarrow> read_byte_buffer (u_bytes U) (u_word U 1) r5;
                  (event, q) \<leftarrow> post_event torque_connection_challenge_response_event_type (pc_connection_index pc) (event_queue (ts_io s));
                  key \<leftarrow> public_key pub;
                  q1 \<leftarrow> set_event_key event (data_ptr key) (buf_size key) q;
                  q2 \<leftarrow> set_event_data event (data_ptr response_data) (buf_size response_data) q1;
                  Some (set_pending p (enter_state awaiting_local_challenge_accept 0 introduction_timeout (now s) pc3)
                          (set_queue q2 (s\<lparr>random_gen := g\<rparr>))) } } } } }) }"

subsection \<open>Connect requests\<close>

definition send_connect_request :: "('s, 'k) crypto \<Rightarrow> 'k uninit \<Rightarrow> ptr
    \<Rightarrow> ('s, 'k) torque_socket \<Rightarrow> ('s, 'k) torque_socket option" where
  "send_connect_request K U conn s = do {
     pc \<leftarrow> pending_heap s conn;
     (_, o1) \<leftarrow> write_u8 (packet_byte connect_request_packet) (packet_stream (u_bytes U));
     (_, o2) \<leftarrow> write_u64 (pc_initiator_nonce pc) o1;
     (_, o3) \<leftarrow> write_u64 (pc_host_nonce pc) o2;
     (_, o4) \<leftarrow> write_u32 (pc_client_identity pc) o3;
     (_, o5) \<leftarrow> write_u32 (pc_puzzle_difficulty pc) o4;
     (_, o6) \<leftarrow> write_u32 (pc_puzzle_solution pc) o5;
     priv \<leftarrow> pc_private_key pc;
     public \<leftarrow> public_key priv;
     (_, o7) \<leftarrow> write_byte_buffer public o6;
     let encrypt_pos = get_next_byte_position o7;
     (_, o8) \<leftarrow> write_bytes (set_byte_position encrypt_pos o7) (pc_symmetric_key pc) (word_of_nat key_size);
     (_, o9) \<leftarrow> write_u32 (pc_initial_send_sequence pc) o8;
     data \<leftarrow> pc_packet_data pc;
     (_, o10) \<leftarrow> write_byte_buffer data o9;
     the_cipher \<leftarrow> cipher_of_secret (cr_ecb K) (pc_shared_secret pc);
     (o11, _) \<leftarrow> bit_stream_hash_and_encrypt (cr_sha256 K) (cr_ecb K) o10 message_signature_bytes encrypt_pos the_cipher;
     transmit o11 (pc_address pc) s }"

definition send_connect_accept :: "('s, 'k) crypto \<Rightarrow> 'k uninit \<Rightarrow> ptr
    \<Rightarrow> ('s, 'k) torque_socket \<Rightarrow> ('s, 'k) torque_socket option" where
  "send_connect_accept K U conn s = do {
     c \<leftarrow> deref_connection conn s;
     (_, o1) \<leftarrow> write_u8 (packet_byte connect_accept_packet) (packet_stream (u_bytes U));
     (_, o2) \<leftarrow> write_u64 (initiator_nonce c) o1;
     (_, o3) \<leftarrow> write_u64 (host_nonce c) o2;
     let encrypt_pos = get_next_byte_position o3;
     (_, o4) \<leftarrow> write_u32 (initial_send_seq c) (set_byte_position encrypt_pos o3);
     cipher \<leftarrow> tc_cipher c;
     (_, o5) \<leftarrow> write_bytes o4 (get_init_vector cipher) (word_of_nat key_size);
     the_cipher \<leftarrow> cipher_of_secret (cr_ecb K) (shared_secret c);
     (o6, _) \<leftarrow> bit_stream_hash_and_encrypt (cr_sha256 K) (cr_ecb K) o5 message_signature_bytes encrypt_pos the_cipher;
     transmit o6 (tc_address c) s }"

definition send_connect_reject :: "'k uninit \<Rightarrow> nonce \<Rightarrow> nonce \<Rightarrow> address \<Rightarrow> uint32
    \<Rightarrow> ('s, 'k) torque_socket \<Rightarrow> ('s, 'k) torque_socket option" where
  "send_connect_reject U init_nonce hst_nonce the_address reason s = do {
     (_, o1) \<leftarrow> write_u8 (packet_byte connect_reject_packet) (packet_stream (u_bytes U));
     (_, o2) \<leftarrow> write_u64 init_nonce o1;
     (_, o3) \<leftarrow> write_u64 hst_nonce o2;
     (_, o4) \<leftarrow> write_u32 reason o3;
     transmit o4 the_address s }"

text \<open>\<^verbatim>\<open>_disconnect\<close>: a connection is told and removed, a pending connection only removed.\<close>

definition send_disconnect :: "('s, 'k) crypto \<Rightarrow> 'k uninit \<Rightarrow> torque_connection \<Rightarrow> uint32 \<Rightarrow> byte list \<Rightarrow> uint32
    \<Rightarrow> ('s, 'k) torque_socket \<Rightarrow> ('s, 'k) torque_socket option" where
  "send_disconnect K U c reason disconnect_data disconnect_data_size s = do {
     (_, o1) \<leftarrow> write_u8 (packet_byte disconnect_packet) (packet_stream (u_bytes U));
     (_, o2) \<leftarrow> write_u64 (initiator_nonce c) o1;
     (_, o3) \<leftarrow> write_u64 (host_nonce c) o2;
     let encrypt_pos = get_next_byte_position o3;
     (_, o4) \<leftarrow> write_u32 reason (set_byte_position encrypt_pos o3);
     (_, o5) \<leftarrow> write_u32 disconnect_data_size o4;
     (_, o6) \<leftarrow> write_bytes o5 disconnect_data disconnect_data_size;
     the_cipher \<leftarrow> cipher_of_secret (cr_ecb K) (shared_secret c);
     (o7, _) \<leftarrow> bit_stream_hash_and_encrypt (cr_sha256 K) (cr_ecb K) o6 message_signature_bytes encrypt_pos the_cipher;
     transmit o7 (tc_address c) s }"

definition disconnect_connection :: "('s, 'k) crypto \<Rightarrow> 'k uninit \<Rightarrow> uint32 \<Rightarrow> disconnect_reason \<Rightarrow> byte list \<Rightarrow> uint32
    \<Rightarrow> ('s, 'k) torque_socket \<Rightarrow> ('s, 'k) torque_socket option" where
  "disconnect_connection K U connection_id reason disconnect_data disconnect_data_size s = do {
     assert (disconnect_data_size \<le> torque_sockets_max_status_datagram_size);
     connection \<leftarrow> find_connection_id connection_id s;
     (case connection of
        Some cp \<Rightarrow> do {
          c \<leftarrow> deref_connection cp s;
          s1 \<leftarrow> send_disconnect K U c (reason_code reason) disconnect_data disconnect_data_size s;
          remove_connection cp s1 }
      | None \<Rightarrow> do {
          pending \<leftarrow> find_pending_connection_id connection_id s;
          (case pending of None \<Rightarrow> Some s | Some p \<Rightarrow> remove_pending_connection p s) }) }"

text \<open>The pending connection a connect request continues with: the one found, or a new one.\<close>

definition pending_for_request :: "('s, 'k) crypto \<Rightarrow> 'k uninit \<Rightarrow> nonce \<Rightarrow> ptr option \<Rightarrow> ('s, 'k) torque_socket
    \<Rightarrow> (ptr \<times> ('s, 'k) torque_socket)" where
  "pending_for_request K U init_nonce pending s =
     (case pending of Some p \<Rightarrow> (p, s)
      | None \<Rightarrow>
          let (seq, g) = random_integer (cr_yarrow K) (random_gen s);
              p = ts_fresh s
          in (p, set_pending p (new_pending_connection (u_pending U) connection_host init_nonce seq (next_connection_index s))
                   (s\<lparr>random_gen := g, next_connection_index := next_connection_index s + 1, ts_fresh := p + 1\<rparr>)))"

text \<open>The last part of \<^verbatim>\<open>_handle_connect_request\<close>: the request is genuine.\<close>

definition admit_request :: "('s, 'k) crypto \<Rightarrow> 'k uninit \<Rightarrow> address \<Rightarrow> nonce \<Rightarrow> nonce \<Rightarrow> ptr option \<Rightarrow> ptr option
    \<Rightarrow> 'k asymmetric_key \<Rightarrow> byte_buffer option \<Rightarrow> bit_stream \<Rightarrow> ('s, 'k) torque_socket \<Rightarrow> ('s, 'k) torque_socket option" where
  "admit_request K U the_address init_nonce hst_nonce existing pending pub secret r s = do {
     let (p, s1) = pending_for_request K U init_nonce pending s;
     pc \<leftarrow> pending_heap s1 p;
     (_, sym_key, r1) \<leftarrow> read_bytes r (pc_symmetric_key pc) (word_of_nat key_size);
     let (iv, g) = random_buffer (cr_yarrow K) key_size (random_gen s1);
     (_, connect_sequence, r2) \<leftarrow> read_u32 (u_word U 3) r1;
     s2 \<leftarrow> (case existing of None \<Rightarrow> Some (s1\<lparr>random_gen := g\<rparr>)
             | Some cp \<Rightarrow> do {
                 c \<leftarrow> deref_connection cp s1;
                 disconnect_connection K U (connection_index c) reason_self_disconnect [] 0 (s1\<lparr>random_gen := g\<rparr>) });
     pc' \<leftarrow> pending_heap s2 p;
     let s3 = set_pending p (pc'\<lparr>pc_symmetric_key := sym_key, pc_init_vector := iv, pc_host_nonce := hst_nonce,
                  pc_shared_secret := secret, pc_address := the_address, pc_initial_recv_sequence := connect_sequence,
                  pc_symmetric_cipher := Some (cipher_of_key (cr_ecb K) sym_key iv)\<rparr>) s2;
     (_, connect_request_data, r3) \<leftarrow> read_byte_buffer (u_bytes U) (u_word U 4) r2;
     s4 \<leftarrow> add_pending_connection p s3;
     (event, q) \<leftarrow> post_event torque_connection_requested_event_type (pc_connection_index pc') (event_queue (ts_io s4));
     key \<leftarrow> public_key pub;
     q1 \<leftarrow> set_event_key event (data_ptr key) (buf_size key) q;
     q2 \<leftarrow> set_event_data event (data_ptr connect_request_data) (buf_size connect_request_data) q1;
     Some (set_queue q2 s4) }"

definition handle_connect_request :: "('s, 'k) crypto \<Rightarrow> 'k uninit \<Rightarrow> address \<Rightarrow> bit_stream
    \<Rightarrow> ('s, 'k) torque_socket \<Rightarrow> ('s, 'k) torque_socket option" where
  "handle_connect_request K U the_address stream s = do {
     (_, init_nonce, r1) \<leftarrow> read_u64 (u_nonce U 0) stream;
     (_, hst_nonce, r2) \<leftarrow> read_u64 (u_nonce U 1) r1;
     existing \<leftarrow> find_connection the_address s;
     s1 \<leftarrow> (case existing of None \<Rightarrow> Some s
             | Some cp \<Rightarrow> do {
                 c \<leftarrow> deref_connection cp s;
                 if initiator_nonce c = init_nonce \<and> host_nonce c = hst_nonce then send_connect_accept K U cp s else Some s });
     pending \<leftarrow> find_pending_connection the_address s1;
     found \<leftarrow> (case pending of None \<Rightarrow> Some None | Some p \<Rightarrow> map_option Some (pending_heap s1 p));
     if (case found of Some pc \<Rightarrow> pc_state pc = awaiting_local_accept \<and> pc_initiator_nonce pc = init_nonce \<and> pc_host_nonce pc = hst_nonce
         | None \<Rightarrow> False) then Some s1
     else if \<not> allow_connections s1 \<and> \<not> (case found of Some pc \<Rightarrow> pc_state pc = awaiting_connect_request | None \<Rightarrow> False) then Some s1
     else do {
       (_, client_identity, r3) \<leftarrow> read_u32 (u_word U 0) r2;
       if client_identity \<noteq> compute_client_identity_token K the_address init_nonce s1 then Some s1
       else do {
         (_, puzzle_difficulty, r4) \<leftarrow> read_u32 (u_word U 1) r3;
         (_, puzzle_solution, r5) \<leftarrow> read_u32 (u_word U 2) r4;
         (result, pm) \<leftarrow> check_solution (cr_sha256 K) puzzle_solution init_nonce hst_nonce puzzle_difficulty client_identity (puzzle_manager s1);
         let s2 = s1\<lparr>puzzle_manager := pm\<rparr>;
         if result \<noteq> success then send_connect_reject U init_nonce hst_nonce the_address (reason_code reason_failed_puzzle) s2
         else if (case found of Some pc \<Rightarrow> pc_initiator_nonce pc \<noteq> init_nonce \<or> pc_host_nonce pc \<noteq> hst_nonce | None \<Rightarrow> False) then Some s2
         else (case socket_key s2 of None \<Rightarrow> Some s2
           | Some priv \<Rightarrow> do {
               (pub, r6) \<leftarrow> key_of_stream (cr_ecc K) (u_bytes U) (u_word U 5) (u_key U) r5;
               let decrypt_pos = get_next_byte_position r6;
               let r7 = set_byte_position decrypt_pos r6;
               secret \<leftarrow> compute_shared_secret_key (cr_sha256 K) (cr_ecc K) (u_bytes U) pub priv;
               the_cipher \<leftarrow> cipher_of_secret (cr_ecb K) secret;
               (ok, r8, _) \<leftarrow> bit_stream_decrypt_and_check_hash (cr_sha256 K) (cr_ecb K) r7 message_signature_bytes decrypt_pos the_cipher;
               if \<not> ok then Some s2
               else admit_request K U the_address init_nonce hst_nonce existing pending pub secret r8 s2 }) } } }"

text \<open>\<^verbatim>\<open>_handle_connect_accept\<close>.  The cipher it builds from the received vector is not given to the connection.\<close>

definition handle_connect_accept :: "('s, 'k) crypto \<Rightarrow> 'k uninit \<Rightarrow> address \<Rightarrow> bit_stream
    \<Rightarrow> ('s, 'k) torque_socket \<Rightarrow> ('s, 'k) torque_socket option" where
  "handle_connect_accept K U the_address stream s = do {
     (_, init_nonce, r1) \<leftarrow> read_u64 (u_nonce U 0) stream;
     (_, hst_nonce, r2) \<leftarrow> read_u64 (u_nonce U 1) r1;
     let decrypt_pos = get_next_byte_position r2;
     let r3 = set_byte_position decrypt_pos r2;
     pending \<leftarrow> find_pending_connection the_address s;
     (case pending of None \<Rightarrow> Some s
      | Some p \<Rightarrow> do {
          pc \<leftarrow> pending_heap s p;
          if pc_state pc \<noteq> requesting_connection \<or> pc_initiator_nonce pc \<noteq> init_nonce \<or> pc_host_nonce pc \<noteq> hst_nonce then Some s
          else do {
            the_cipher \<leftarrow> cipher_of_secret (cr_ecb K) (pc_shared_secret pc);
            (ok, r4, _) \<leftarrow> bit_stream_decrypt_and_check_hash (cr_sha256 K) (cr_ecb K) r3 message_signature_bytes decrypt_pos the_cipher;
            if \<not> ok then Some s
            else do {
              (_, recv_sequence, r5) \<leftarrow> read_u32 (u_word U 0) r4;
              (_, init_vector, r6) \<leftarrow> read_bytes r5 (map (u_bytes U) [0..<block_size]) (word_of_nat block_size);
              let c = (set_initial_recv_sequence recv_sequence
                         (new_connection (u_connection U) (pc_initiator_nonce pc) (pc_initial_send_sequence pc) (pc_connection_index pc) True))
                      \<lparr>tc_address := pc_address pc, shared_secret := pc_shared_secret pc, host_nonce := pc_host_nonce pc\<rparr>;
              s1 \<leftarrow> remove_pending_connection p s;
              (_, s2) \<leftarrow> add_connection c s1;
              post torque_connection_established_event_type (connection_index c) s2 } } }) }"

definition handle_connect_reject :: "('s, 'k) crypto \<Rightarrow> 'k uninit \<Rightarrow> address \<Rightarrow> bit_stream
    \<Rightarrow> ('s, 'k) torque_socket \<Rightarrow> ('s, 'k) torque_socket option" where
  "handle_connect_reject K U the_address stream s = do {
     (_, init_nonce, r1) \<leftarrow> read_u64 (u_nonce U 0) stream;
     (_, hst_nonce, r2) \<leftarrow> read_u64 (u_nonce U 1) r1;
     pending \<leftarrow> find_pending_connection the_address s;
     (case pending of None \<Rightarrow> Some s
      | Some p \<Rightarrow> do {
          pc \<leftarrow> pending_heap s p;
          if pc_state pc \<noteq> requesting_challenge_response \<and> pc_state pc \<noteq> requesting_connection then Some s
          else if pc_initiator_nonce pc \<noteq> init_nonce \<or> pc_host_nonce pc \<noteq> hst_nonce then Some s
          else do {
            (_, reason, r3) \<leftarrow> read_u32 (u_word U 0) r2;
            if reason = reason_code reason_failed_puzzle \<and> \<not> pc_puzzle_retried pc then do {
              let (n, g) = random_nonce (cr_yarrow K) (random_gen s);
              send_challenge_request U p
                (set_pending p (enter_state requesting_challenge_response challenge_retry_count challenge_retry_time (now s)
                   (pc\<lparr>pc_puzzle_retried := True, pc_initiator_nonce := n\<rparr>)) (s\<lparr>random_gen := g\<rparr>)) }
            else do {
              s1 \<leftarrow> post torque_connection_disconnected_event_type (pc_connection_index pc) s;
              remove_pending_connection p s1 } } }) }"

text \<open>\<^verbatim>\<open>_handle_disconnect\<close>.  For a pending connection it follows the null pointer \<^verbatim>\<open>conn\<close>.\<close>

definition handle_disconnect :: "('s, 'k) crypto \<Rightarrow> 'k uninit \<Rightarrow> address \<Rightarrow> bit_stream
    \<Rightarrow> ('s, 'k) torque_socket \<Rightarrow> ('s, 'k) torque_socket option" where
  "handle_disconnect K U the_address stream s = do {
     (_, init_nonce, r1) \<leftarrow> read_u64 (u_nonce U 0) stream;
     (_, hst_nonce, r2) \<leftarrow> read_u64 (u_nonce U 1) r1;
     conn \<leftarrow> find_connection the_address s;
     (case conn of
        Some cp \<Rightarrow> do {
          c \<leftarrow> deref_connection cp s;
          if init_nonce \<noteq> initiator_nonce c \<or> hst_nonce \<noteq> host_nonce c then Some s
          else do {
            let decrypt_pos = get_next_byte_position r2;
            let r3 = set_byte_position decrypt_pos r2;
            the_cipher \<leftarrow> cipher_of_secret (cr_ecb K) (shared_secret c);
            (ok, r4, _) \<leftarrow> bit_stream_decrypt_and_check_hash (cr_sha256 K) (cr_ecb K) r3 message_signature_bytes decrypt_pos the_cipher;
            if \<not> ok then Some s
            else do {
              (_, reason, r5) \<leftarrow> read_u32 (u_word U 0) r4;
              (_, claimed, r6) \<leftarrow> read_u32 (u_word U 1) r5;
              let disconnect_data_size = (if torque_sockets_max_status_datagram_size < claimed
                                          then torque_sockets_max_status_datagram_size else claimed);
              (_, disconnect_data, r7) \<leftarrow> read_bytes r6 (map (u_bytes U) [0..<unat torque_sockets_max_status_datagram_size]) disconnect_data_size;
              (event, q) \<leftarrow> post_event torque_connection_disconnected_event_type (connection_index c) (event_queue (ts_io s));
              q1 \<leftarrow> set_event_data event disconnect_data disconnect_data_size q;
              remove_connection cp (set_queue q1 s) } } }
      | None \<Rightarrow> do {
          pending \<leftarrow> find_pending_connection the_address s;
          (case pending of None \<Rightarrow> Some s
           | Some p \<Rightarrow> do {
               pc \<leftarrow> pending_heap s p;
               if pc_initiator_nonce pc \<noteq> init_nonce \<or> pc_host_nonce pc \<noteq> hst_nonce then Some s
               else do {
                 cp \<leftarrow> conn;
                 c \<leftarrow> deref_connection cp s;
                 s1 \<leftarrow> post torque_connection_disconnected_event_type (connection_index c) s;
                 remove_pending_connection p s1 } }) }) }"

subsection \<open>Dispatch\<close>

definition handle_info_packet :: "address \<Rightarrow> byte \<Rightarrow> bit_stream \<Rightarrow> ('s, 'k) torque_socket \<Rightarrow> ('s, 'k) torque_socket option" where
  "handle_info_packet a packet_type stream s = do {
     let n = get_stream_byte_size stream;
     assert (unat n \<le> length (base_ptr stream));
     q \<leftarrow> post_with torque_socket_packet_event_type 0
            (\<lambda>e. e\<lparr>ev_data_size := n, ev_data := Some (take (unat n) (base_ptr stream)),
                   ev_source_address := Some (sin_addr (to_sockaddr a), sin_port (to_sockaddr a))\<rparr>) (event_queue (ts_io s));
     Some (set_queue q s) }"

definition process_packet :: "('s, 'k) crypto \<Rightarrow> 'k uninit \<Rightarrow> address \<Rightarrow> bit_stream
    \<Rightarrow> ('s, 'k) torque_socket \<Rightarrow> ('s, 'k) torque_socket option" where
  "process_packet K U the_address stream s = do {
     first \<leftarrow> load (base_ptr stream) 0;
     if first AND 0x80 \<noteq> 0 then do {
       conn \<leftarrow> find_connection the_address s;
       (case conn of None \<Rightarrow> Some s
        | Some cp \<Rightarrow> do {
            c \<leftarrow> deref_connection cp s;
            (_, c', io') \<leftarrow> read_raw_packet (cr_ecb K) (u_bytes U) (u_word U 0) (u_float U) stream c (ts_io s);
            set_connection cp c' (s\<lparr>ts_io := io'\<rparr>) }) }
     else do {
       (_, ty, r) \<leftarrow> read_u8 (u_byte U) stream;
       if first_valid_info_packet_id \<le> ty then handle_info_packet the_address ty r s
       else if ty = packet_byte connect_challenge_request_packet then handle_connect_challenge_request K U the_address r s
       else if ty = packet_byte connect_challenge_response_packet then handle_connect_challenge_response K U the_address r s
       else if ty = packet_byte connect_reject_packet then handle_connect_reject K U the_address r s
       else if ty = packet_byte connect_request_packet then handle_connect_request K U the_address r s
       else if ty = packet_byte connect_accept_packet then handle_connect_accept K U the_address r s
       else if ty = packet_byte disconnect_packet then handle_disconnect K U the_address r s
       else if ty = packet_byte introduced_connection_request_packet then handle_introduction_request U the_address r s
       else if ty = packet_byte connection_introduction_packet then handle_introduction U the_address r s
       else if ty = packet_byte punch_packet then handle_punch U the_address r s
       else Some s } }"

end
