(* ===== verification/Socket_Api.thy ===== *)
theory Socket_Api
  imports Socket_Handlers
begin

text \<open>
  The rest of \<^verbatim>\<open>torque_sockets/torque_socket.h\<close>: the periodic work in \<^verbatim>\<open>process_connections\<close>, receiving packets, the
  calls of the client, and the functions of \<^verbatim>\<open>torque_sockets_c_implementation.h\<close> that the plugins call.  The
  clock and the datagrams that wait in the operating system are arguments.
\<close>

subsection \<open>Periodic work\<close>

text \<open>The loop over the delayed packets.\<close>

fun send_due :: "packet_record list \<Rightarrow> socket_io \<Rightarrow> socket_io" where
  "send_due [] io = io\<lparr>send_packet_list := []\<rparr>"
| "send_due (r # rs) io =
     (if send_time r < process_start_time io
      then send_due rs (send_to (remote_address r) (packet_data r) io)
      else io\<lparr>send_packet_list := r # rs\<rparr>)"

text \<open>What a pending connection whose interval has passed sends again.\<close>

definition resend :: "'k uninit \<Rightarrow> ptr \<Rightarrow> 'k pending_connection \<Rightarrow> ('s, 'k) torque_socket \<Rightarrow> ('s, 'k) torque_socket option" where
  "resend U p pc s = (case pc_state pc of
       requesting_introduction \<Rightarrow> send_introduction_request U p s
     | sending_punch_packets \<Rightarrow> send_punch U p s
     | requesting_challenge_response \<Rightarrow> send_challenge_request U p s
     | _ \<Rightarrow> Some s)"

text \<open>The loop over the pending connections; \<open>prev\<close> says which link the loop variable points to.\<close>

partial_function (option) pending_walk :: "'k uninit \<Rightarrow> ptr option \<Rightarrow> ('s, 'k) torque_socket \<Rightarrow> ('s, 'k) torque_socket option" where
  "pending_walk U prev s = do {
     link \<leftarrow> get_link prev s;
     (case link of None \<Rightarrow> Some s
      | Some p \<Rightarrow> do {
          pc \<leftarrow> pending_heap s p;
          if pc_last_send_time pc + uint (pc_retry_interval pc) < now s then
            if pc_retry_count pc = 0 then do {
              s1 \<leftarrow> post torque_connection_timed_out_event_type (pc_connection_index pc) s;
              s2 \<leftarrow> set_link prev (pc_next pc) s1;
              pending_walk U prev (s2\<lparr>pending_heap := (pending_heap s2)(p := None)\<rparr>) }
            else do {
              let pc1 = pc\<lparr>pc_retry_count := pc_retry_count pc - 1\<rparr>;
              s1 \<leftarrow> resend U p pc1 (set_pending p pc1 s);
              pending_walk U (Some p) s1 }
          else pending_walk U (Some p) s }) }"

partial_function (option) connection_walk :: "('s, 'k) crypto \<Rightarrow> 'k uninit \<Rightarrow> ptr option \<Rightarrow> ('s, 'k) torque_socket \<Rightarrow> ('s, 'k) torque_socket option" where
  "connection_walk K U walk s = (case walk of None \<Rightarrow> Some s
     | Some p \<Rightarrow> do {
         n \<leftarrow> connection_heap s p;
         (timed_out, c, io) \<leftarrow> check_timeout (cr_ecb K) (u_bytes U) (now s) (node_connection n) (ts_io s);
         s1 \<leftarrow> set_connection p c (s\<lparr>ts_io := io\<rparr>);
         s2 \<leftarrow> (if timed_out then do {
                  s' \<leftarrow> post torque_connection_timed_out_event_type (connection_index c) s1;
                  remove_connection p s' }
                else Some s1);
         connection_walk K U (node_next n) s2 })"

text \<open>A solved puzzle goes to the pending connection that posted it, which asks for the connection.\<close>

definition puzzle_solved :: "('s, 'k) crypto \<Rightarrow> 'k uninit \<Rightarrow> byte_buffer \<Rightarrow> uint32
    \<Rightarrow> ('s, 'k) torque_socket \<Rightarrow> ('s, 'k) torque_socket option" where
  "puzzle_solved K U result index s = do {
     (_, solution, _) \<leftarrow> read_u32 (u_word U 0) (make_stream (data_ptr result) (buf_size result));
     walk \<leftarrow> find_node pc_next (pending_heap s)
               (\<lambda>pc. pc_state pc = computing_puzzle_solution \<and> pc_puzzle_request_index pc = index) (pending_connections s);
     (case walk of None \<Rightarrow> Some s
      | Some p \<Rightarrow> do {
          pc \<leftarrow> pending_heap s p;
          send_connect_request K U p (set_pending p (pc\<lparr>pc_puzzle_solution := solution, pc_state := requesting_connection\<rparr>) s) }) }"

partial_function (option) solution_loop :: "('s, 'k) crypto \<Rightarrow> 'k uninit \<Rightarrow> ('s, 'k) torque_socket \<Rightarrow> ('s, 'k) torque_socket option" where
  "solution_loop K U s = do {
     (res, tq) \<leftarrow> get_next_result (puzzle_solver s);
     let s1 = s\<lparr>puzzle_solver := tq\<rparr>;
     (case res of None \<Rightarrow> Some s1
      | Some (response, index) \<Rightarrow> do {
          result \<leftarrow> response;
          s2 \<leftarrow> puzzle_solved K U result index s1;
          solution_loop K U s2 }) }"

definition process_connections :: "('s, 'k) crypto \<Rightarrow> 'k uninit \<Rightarrow> time \<Rightarrow> ('s, 'k) torque_socket \<Rightarrow> ('s, 'k) torque_socket option" where
  "process_connections K U current s = do {
     let s1 = s\<lparr>ts_io := (ts_io s)\<lparr>process_start_time := current\<rparr>\<rparr>;
     let (pm, g) = tick (cr_yarrow K) current (puzzle_manager s1) (random_gen s1);
     let s2 = s1\<lparr>puzzle_manager := pm, random_gen := g, ts_io := send_due (send_packet_list (ts_io s1)) (ts_io s1)\<rparr>;
     s3 \<leftarrow> (if last_timeout_check_time s2 + timeout_check_interval < now s2 then do {
              s' \<leftarrow> pending_walk U None (s2\<lparr>last_timeout_check_time := now s2\<rparr>);
              connection_walk K U (connection_list s') s' }
            else Some s2);
     solution_loop K U s3 }"

subsection \<open>Receiving\<close>

text \<open>\<^verbatim>\<open>packet_stream::set_from_buffer\<close>, also the effect of receiving a datagram: the bytes go to the front of the
  stream's buffer, the bytes behind them are left over from before.\<close>

definition set_from_buffer :: "(nat \<Rightarrow> byte) \<Rightarrow> byte list \<Rightarrow> bit_stream" where
  "set_from_buffer stale bytes =
     init_stream (bytes @ map stale [length bytes..<unat udp_max_datagram_size]) 0 (word_of_nat (length bytes) * 8)"

text \<open>\<^verbatim>\<open>thread_socket_process\<close>: the background thread appends a datagram to the list of received packets.  The time
  in the record stays uninitialised.\<close>

definition thread_receive :: "time \<Rightarrow> address \<Rightarrow> byte list \<Rightarrow> ('s, 'k) torque_socket \<Rightarrow> ('s, 'k) torque_socket" where
  "thread_receive time0 a bytes s =
     s\<lparr>received_packet_list := received_packet_list s @ [\<lparr>remote_address = a, send_time = time0, packet_data = bytes\<rparr>]\<rparr>"

text \<open>\<^verbatim>\<open>_get_next_packet\<close>: \<open>net\<close> are the datagrams that wait in the operating system, which cuts a datagram off at
  the size of the buffer.\<close>

definition get_next_packet :: "(address \<times> byte list) list \<Rightarrow> ('s, 'k) torque_socket
    \<Rightarrow> ((address \<times> byte list) option \<times> (address \<times> byte list) list \<times> ('s, 'k) torque_socket) option" where
  "get_next_packet net s =
     (if thread_socket s then
        (case received_packet_list s of
           [] \<Rightarrow> Some (None, net, s)
         | r # rs \<Rightarrow> do {
             assert (length (packet_data r) \<le> unat udp_max_datagram_size);
             Some (Some (remote_address r, packet_data r), net, s\<lparr>received_packet_list := rs\<rparr>) })
      else
        (case net of
           [] \<Rightarrow> Some (None, [], s)
         | (a, bytes) # net' \<Rightarrow> Some (Some (a, take (unat udp_max_datagram_size) bytes), net', s)))"

text \<open>The loop of \<^verbatim>\<open>get_next_event\<close>; \<open>clock k\<close> is the \<open>k\<close>-th reading of the clock.\<close>

partial_function (option) receive_loop :: "('s, 'k) crypto \<Rightarrow> 'k uninit \<Rightarrow> (nat \<Rightarrow> time) \<Rightarrow> nat \<Rightarrow> (address \<times> byte list) list
    \<Rightarrow> ('s, 'k) torque_socket \<Rightarrow> ((address \<times> byte list) list \<times> ('s, 'k) torque_socket) option" where
  "receive_loop K U clock k net s = do {
     (packet, net1, s1) \<leftarrow> get_next_packet net s;
     (case packet of None \<Rightarrow> Some (net1, s1)
      | Some (a, bytes) \<Rightarrow> do {
          s2 \<leftarrow> process_packet K U a (set_from_buffer (u_bytes U) bytes) (s1\<lparr>ts_io := (ts_io s1)\<lparr>process_start_time := clock k\<rparr>\<rparr>);
          if has_event (event_queue (ts_io s2)) then Some (net1, s2)
          else receive_loop K U clock (Suc k) net1 s2 }) }"

text \<open>\<^verbatim>\<open>get_next_event\<close>: the result is the event the returned pointer points to.\<close>

definition get_next_event :: "('s, 'k) crypto \<Rightarrow> 'k uninit \<Rightarrow> (nat \<Rightarrow> time) \<Rightarrow> (address \<times> byte list) list \<Rightarrow> ('s, 'k) torque_socket
    \<Rightarrow> (torque_socket_event option \<times> (address \<times> byte list) list \<times> ('s, 'k) torque_socket) option" where
  "get_next_event K U clock net s = do {
     s1 \<leftarrow> process_connections K U (clock 0) s;
     (net1, s2) \<leftarrow> (if \<not> has_event (event_queue (ts_io s1))
                     then receive_loop K U clock 1 net (set_queue (queue_clear (event_queue (ts_io s1))) s1)
                     else Some (net, s1));
     if has_event (event_queue (ts_io s2)) then do {
       (event, q) \<leftarrow> dequeue (event_queue (ts_io s2));
       e \<leftarrow> eq_events q event;
       Some (Some e, net1, set_queue q s2) }
     else Some (None, net1, s2) }"

subsection \<open>Calls of the client\<close>

definition set_private_key :: "'k asymmetric_key option \<Rightarrow> ('s, 'k) torque_socket \<Rightarrow> ('s, 'k) torque_socket" where
  "set_private_key the_key s = s\<lparr>socket_key := the_key\<rparr>"

definition set_challenge_response :: "byte_buffer option \<Rightarrow> ('s, 'k) torque_socket \<Rightarrow> ('s, 'k) torque_socket" where
  "set_challenge_response data s = s\<lparr>challenge_response := data\<rparr>"

definition set_allows_connections :: "bool \<Rightarrow> ('s, 'k) torque_socket \<Rightarrow> ('s, 'k) torque_socket" where
  "set_allows_connections conn s = s\<lparr>allow_connections := conn\<rparr>"

text \<open>A new pending connection with the data of the client.  The arguments of the constructor are evaluated in
  the order in which they are written.\<close>

definition start_pending :: "('s, 'k) crypto \<Rightarrow> 'k uninit \<Rightarrow> pending_connection_type \<Rightarrow> byte list \<Rightarrow> uint32
    \<Rightarrow> ('k pending_connection \<Rightarrow> 'k pending_connection) \<Rightarrow> ('s, 'k) torque_socket
    \<Rightarrow> (ptr \<times> ('s, 'k) torque_socket) option" where
  "start_pending K U type connect_data connect_data_size f s = do {
     let (seq, g1) = random_integer (cr_yarrow K) (random_gen s);
     let (n, g2) = random_nonce (cr_yarrow K) g1;
     let p = ts_fresh s;
     data \<leftarrow> buffer_from_chunk connect_data connect_data_size;
     let pc = f ((new_pending_connection (u_pending U) type n seq (next_connection_index s))
                \<lparr>pc_packet_data := Some data, pc_retry_count := challenge_retry_count,
                 pc_retry_interval := challenge_retry_time, pc_last_send_time := now s\<rparr>);
     s1 \<leftarrow> add_pending_connection p
             (set_pending p pc (s\<lparr>random_gen := g2, next_connection_index := next_connection_index s + 1, ts_fresh := p + 1\<rparr>));
     Some (p, s1) }"

definition connect :: "('s, 'k) crypto \<Rightarrow> 'k uninit \<Rightarrow> address \<Rightarrow> byte list \<Rightarrow> uint32 \<Rightarrow> ('s, 'k) torque_socket
    \<Rightarrow> (uint32 \<times> ('s, 'k) torque_socket) option" where
  "connect K U remote_host connect_data connect_data_size s = do {
     (p, s1) \<leftarrow> start_pending K U connection_initiator connect_data connect_data_size (\<lambda>pc. pc\<lparr>pc_address := remote_host\<rparr>) s;
     s2 \<leftarrow> send_challenge_request U p s1;
     Some (next_connection_index s, s2) }"

definition introduce_connection :: "('s, 'k) crypto \<Rightarrow> time \<Rightarrow> uint32 \<Rightarrow> uint32 \<Rightarrow> ('s, 'k) torque_socket \<Rightarrow> ('s, 'k) torque_socket option" where
  "introduce_connection K current initiator hst s = do {
     a \<leftarrow> find_connection_id initiator s;
     if a = None then Some s
     else do {
       b \<leftarrow> find_connection_id hst s;
       if b = None then Some s
       else do {
         let (n1, g1) = random_nonce (cr_yarrow K) (random_gen s);
         let (n2, g2) = random_nonce (cr_yarrow K) g1;
         let r = \<lparr>intro_initiator_nonce = n1, intro_host_nonce = n2, intro_initiator = initiator, intro_host = hst,
                  initiator_request_received = False, host_request_received = False, initial_intro_sent = False,
                  introduction_time = current\<rparr>;
         Some (s\<lparr>random_gen := g2, introductions := introductions s @ [r]\<rparr>) } } }"

definition connect_introduced :: "('s, 'k) crypto \<Rightarrow> 'k uninit \<Rightarrow> uint32 \<Rightarrow> uint32 \<Rightarrow> bool \<Rightarrow> uint32 \<Rightarrow> byte list
    \<Rightarrow> ('s, 'k) torque_socket \<Rightarrow> (uint32 \<times> ('s, 'k) torque_socket) option" where
  "connect_introduced K U introducer remote_client_identity is_host connect_data_size connect_data s = do {
     c \<leftarrow> find_connection_id introducer s;
     if c = None then Some (invalid_torque_connection, s)
     else do {
       (p, s1) \<leftarrow> start_pending K U (if is_host then introduced_connection_host else introduced_connection_initiator)
                    connect_data connect_data_size
                    (\<lambda>pc. pc\<lparr>pc_introducer := introducer, pc_remote_client_id := remote_client_identity\<rparr>) s;
       s2 \<leftarrow> send_introduction_request U p s1;
       Some (next_connection_index s, s2) } }"

definition accept_connection_challenge :: "'k uninit \<Rightarrow> uint32 \<Rightarrow> ('s, 'k) torque_socket \<Rightarrow> ('s, 'k) torque_socket option" where
  "accept_connection_challenge U the_connection s = do {
     conn \<leftarrow> find_pending_connection_id the_connection s;
     (case conn of None \<Rightarrow> Some s
      | Some p \<Rightarrow> do {
          pc \<leftarrow> pending_heap s p;
          if pc_state pc \<noteq> awaiting_local_challenge_accept then Some s
          else do {
            (_, o1) \<leftarrow> write_u64 (pc_initiator_nonce pc) (packet_stream (u_bytes U));
            (_, o2) \<leftarrow> write_u64 (pc_host_nonce pc) o1;
            (_, o3) \<leftarrow> write_u32 (pc_puzzle_difficulty pc) o2;
            (_, o4) \<leftarrow> write_u32 (pc_client_identity pc) o3;
            request \<leftarrow> buffer_from_chunk (base_ptr o4) (get_next_byte_position o4);
            let (index, tq) = post_request request (puzzle_solver s);
            Some (set_pending p (enter_state computing_puzzle_solution 0 puzzle_solution_timeout (now s)
                    (pc\<lparr>pc_puzzle_request_index := index\<rparr>)) (s\<lparr>puzzle_solver := tq\<rparr>)) } }) }"

definition accept_connection :: "('s, 'k) crypto \<Rightarrow> 'k uninit \<Rightarrow> uint32 \<Rightarrow> ('s, 'k) torque_socket \<Rightarrow> ('s, 'k) torque_socket option" where
  "accept_connection K U connection_id s = do {
     pending \<leftarrow> find_pending_connection_id connection_id s;
     (case pending of None \<Rightarrow> Some s
      | Some p \<Rightarrow> do {
          pc \<leftarrow> pending_heap s p;
          if pc_state pc \<noteq> awaiting_local_accept then Some s
          else do {
            let c = (set_initial_recv_sequence (pc_initial_recv_sequence pc)
                      ((new_connection (u_connection U) (pc_initiator_nonce pc) (pc_initial_send_sequence pc) (pc_connection_index pc) False)
                       \<lparr>tc_cipher := pc_symmetric_cipher pc, shared_secret := pc_shared_secret pc\<rparr>))
                    \<lparr>host_nonce := pc_host_nonce pc, tc_address := pc_address pc\<rparr>;
            s1 \<leftarrow> remove_pending_connection p s;
            (cp, s2) \<leftarrow> add_connection c s1;
            s3 \<leftarrow> post torque_connection_established_event_type (connection_index c) s2;
            send_connect_accept K U cp s3 } }) }"

definition disconnect :: "('s, 'k) crypto \<Rightarrow> 'k uninit \<Rightarrow> uint32 \<Rightarrow> byte list \<Rightarrow> uint32 \<Rightarrow> ('s, 'k) torque_socket \<Rightarrow> ('s, 'k) torque_socket option" where
  "disconnect K U connection_id disconnect_data disconnect_data_size s =
     disconnect_connection K U connection_id reason_disconnect_call disconnect_data disconnect_data_size s"

text \<open>\<^verbatim>\<open>send_to_connection\<close> follows the pointer it looked up without testing it.\<close>

definition send_to_connection :: "('s, 'k) crypto \<Rightarrow> 'k uninit \<Rightarrow> uint32 \<Rightarrow> byte list \<Rightarrow> uint32
    \<Rightarrow> ('s, 'k) torque_socket \<Rightarrow> (uint32 \<times> ('s, 'k) torque_socket) option" where
  "send_to_connection K U connection_id bytes data_size s = do {
     conn \<leftarrow> find_connection_id connection_id s;
     cp \<leftarrow> conn;
     c \<leftarrow> deref_connection cp s;
     (sequence, c', io') \<leftarrow> send_packet (cr_ecb K) (u_bytes U) data_packet bytes data_size c (ts_io s);
     s' \<leftarrow> set_connection cp c' (s\<lparr>ts_io := io'\<rparr>);
     Some (sequence, s') }"

definition socket_send_to :: "address \<Rightarrow> uint32 \<Rightarrow> byte list \<Rightarrow> ('s, 'k) torque_socket \<Rightarrow> ('s, 'k) torque_socket option" where
  "socket_send_to the_address data_size bytes s = do {
     assert (unat data_size \<le> length bytes);
     Some (s\<lparr>ts_io := send_to the_address (take (unat data_size) bytes) (ts_io s)\<rparr>) }"

text \<open>The constructor.  The puzzle manager is built first and draws two nonces; the key of 20 bytes that the body
  generates is replaced by one of 16 bytes.  The challenge response is a buffer of the default size that nothing
  initialises.\<close>

definition new_torque_socket :: "('s, 'k) crypto \<Rightarrow> 'k uninit \<Rightarrow> time \<Rightarrow> time \<Rightarrow> bool \<Rightarrow> ('s, 'k) torque_socket" where
  "new_torque_socket K U update0 current threaded =
     (let g0 = new_random_generator (cr_yarrow K);
          (pm, g1) = new_puzzle_manager (cr_yarrow K) update0 current g0;
          (hash_data, g2) = random_buffer (cr_yarrow K) 12 g1;
          (_, g3) = generate_key (cr_ecc K) (u_bytes U) (u_key U) 20 g2;
          (key, g4) = generate_key (cr_ecc K) (u_bytes U) (u_key U) 16 g3
      in \<lparr>ts_io = \<lparr>event_queue = empty_queue, sent = [], send_packet_list = [], process_start_time = current\<rparr>,
          random_gen = g4, puzzle_solver = new_thread_queue, pending_heap = Map.empty, pending_connections = None,
          connection_heap = Map.empty, connection_list = None, connection_id_lookup_table = ht_init 0,
          connection_address_lookup_table = ht_init 0, next_connection_index = 1,
          challenge_response = Some (buffer_of_size (u_bytes U) default_buffer_size), socket_key = Some key, puzzle_manager = pm,
          last_timeout_check_time = 0, random_hash_data = hash_data, allow_connections = True, introductions = [],
          received_packet_list = [], thread_socket = threaded, ts_fresh = 0\<rparr>)"

text \<open>The destructor disconnects the first connection of the list until the list is empty.\<close>

partial_function (option) close_all :: "('s, 'k) crypto \<Rightarrow> 'k uninit \<Rightarrow> ('s, 'k) torque_socket \<Rightarrow> ('s, 'k) torque_socket option" where
  "close_all K U s = (case connection_list s of None \<Rightarrow> Some s
     | Some p \<Rightarrow> do {
         c \<leftarrow> deref_connection p s;
         s1 \<leftarrow> disconnect_connection K U (connection_index c) reason_self_disconnect [] 0 s;
         close_all K U s1 })"

text \<open>\<^verbatim>\<open>get_first_bound_interface_address\<close>, of the bound address and the addresses of the interfaces.\<close>

definition get_first_bound_interface_address :: "address \<Rightarrow> address list \<Rightarrow> address" where
  "get_first_bound_interface_address bound interfaces =
     (if is_same_host bound (address_of_name addr_any 0) then
        (case interfaces of [] \<Rightarrow> bound | a # _ \<Rightarrow> a\<lparr>port := port bound\<rparr>)
      else bound)"

subsection \<open>The C interface\<close>

text \<open>A socket address of a family other than IPv4 leaves the address object uninitialised.\<close>

definition address_of_sockaddr :: "'k uninit \<Rightarrow> sockaddr_in \<Rightarrow> address" where
  "address_of_sockaddr U sa = from_sockaddr sa (u_address U)"

definition torque_socket_allow_incoming_connections :: "int \<Rightarrow> ('s, 'k) torque_socket \<Rightarrow> ('s, 'k) torque_socket" where
  "torque_socket_allow_incoming_connections allowed = set_allows_connections (allowed \<noteq> 0)"

definition torque_socket_set_key_pair :: "('s, 'k) crypto \<Rightarrow> 'k uninit \<Rightarrow> uint32 \<Rightarrow> byte list
    \<Rightarrow> ('s, 'k) torque_socket \<Rightarrow> ('s, 'k) torque_socket option" where
  "torque_socket_set_key_pair K U key_data_size the_key s = do {
     key \<leftarrow> load_key (cr_ecc K) (u_bytes U) the_key key_data_size
              ((u_key U)\<lparr>key_data := None, public_key := None, private_key := None\<rparr>);
     Some (set_private_key (Some key) s) }"

definition torque_socket_set_challenge_response :: "uint32 \<Rightarrow> byte list
    \<Rightarrow> ('s, 'k) torque_socket \<Rightarrow> ('s, 'k) torque_socket option" where
  "torque_socket_set_challenge_response challenge_response_size bytes s = do {
     b \<leftarrow> buffer_from_chunk bytes challenge_response_size;
     Some (set_challenge_response (Some b) s) }"

definition torque_socket_write_entropy :: "('s, 'k) crypto \<Rightarrow> byte list \<Rightarrow> ('s, 'k) torque_socket \<Rightarrow> ('s, 'k) torque_socket" where
  "torque_socket_write_entropy K entropy s = s\<lparr>random_gen := add_entropy (cr_yarrow K) entropy 32 (random_gen s)\<rparr>"

definition torque_socket_read_entropy :: "('s, 'k) crypto \<Rightarrow> ('s, 'k) torque_socket \<Rightarrow> byte list \<times> ('s, 'k) torque_socket" where
  "torque_socket_read_entropy K s =
     (let (entropy, g) = random_buffer (cr_yarrow K) 32 (random_gen s) in (entropy, s\<lparr>random_gen := g\<rparr>))"

definition torque_socket_send_to :: "'k uninit \<Rightarrow> sockaddr_in \<Rightarrow> uint32 \<Rightarrow> byte list \<Rightarrow> ('s, 'k) torque_socket \<Rightarrow> ('s, 'k) torque_socket option" where
  "torque_socket_send_to U remote_host data_size bytes s =
     socket_send_to (address_of_sockaddr U remote_host) data_size bytes s"

definition torque_socket_connect :: "('s, 'k) crypto \<Rightarrow> 'k uninit \<Rightarrow> sockaddr_in \<Rightarrow> uint32 \<Rightarrow> byte list
    \<Rightarrow> ('s, 'k) torque_socket \<Rightarrow> (uint32 \<times> ('s, 'k) torque_socket) option" where
  "torque_socket_connect K U remote_host connect_data_size connect_data s =
     connect K U (address_of_sockaddr U remote_host) connect_data connect_data_size s"

definition torque_socket_connect_introduced :: "('s, 'k) crypto \<Rightarrow> 'k uninit \<Rightarrow> uint32 \<Rightarrow> uint32 \<Rightarrow> int \<Rightarrow> uint32 \<Rightarrow> byte list
    \<Rightarrow> ('s, 'k) torque_socket \<Rightarrow> (uint32 \<times> ('s, 'k) torque_socket) option" where
  "torque_socket_connect_introduced K U introducer remote_client_identity is_host connect_data_size connect_data s =
     connect_introduced K U introducer remote_client_identity (is_host \<noteq> 0) connect_data_size connect_data s"

definition torque_socket_introduce :: "('s, 'k) crypto \<Rightarrow> time \<Rightarrow> uint32 \<Rightarrow> uint32 \<Rightarrow> ('s, 'k) torque_socket \<Rightarrow> ('s, 'k) torque_socket option" where
  "torque_socket_introduce K current initiator hst s = introduce_connection K current initiator hst s"

definition torque_socket_accept_challenge :: "'k uninit \<Rightarrow> uint32 \<Rightarrow> ('s, 'k) torque_socket \<Rightarrow> ('s, 'k) torque_socket option" where
  "torque_socket_accept_challenge U pending s = accept_connection_challenge U pending s"

definition torque_socket_accept_connection :: "('s, 'k) crypto \<Rightarrow> 'k uninit \<Rightarrow> uint32 \<Rightarrow> ('s, 'k) torque_socket \<Rightarrow> ('s, 'k) torque_socket option" where
  "torque_socket_accept_connection K U pending s = accept_connection K U pending s"

definition torque_socket_close_connection :: "('s, 'k) crypto \<Rightarrow> 'k uninit \<Rightarrow> uint32 \<Rightarrow> uint32 \<Rightarrow> byte list
    \<Rightarrow> ('s, 'k) torque_socket \<Rightarrow> ('s, 'k) torque_socket option" where
  "torque_socket_close_connection K U connection_id disconnect_data_size disconnect_data s =
     disconnect K U connection_id disconnect_data disconnect_data_size s"

definition torque_socket_send_to_connection :: "('s, 'k) crypto \<Rightarrow> 'k uninit \<Rightarrow> uint32 \<Rightarrow> uint32 \<Rightarrow> byte list
    \<Rightarrow> ('s, 'k) torque_socket \<Rightarrow> (uint32 \<times> ('s, 'k) torque_socket) option" where
  "torque_socket_send_to_connection K U connection_id datagram_size buffer s =
     send_to_connection K U connection_id buffer datagram_size s"

end
