(* ===== verification/Packet_Bytes.thy ===== *)
theory Packet_Bytes
  imports Socket_Api
begin

text \<open>
  Packets as lists of bytes.  \<open>built st bs\<close>: the bytes written to a packet stream so far are \<open>bs\<close>.
  \<open>reading st pre suf tail\<close>: a received stream holds \<open>pre @ suf\<close> and is read up to \<open>suf\<close>, with \<open>tail\<close> left over behind the
  datagram.  The interface \<open>byte_codec\<close> gives both views one rule per wire type, and \<open>succeeds\<close> steps through a
  sequence of writes and reads.
\<close>

definition succeeds :: "'a option \<Rightarrow> ('a \<Rightarrow> bool) \<Rightarrow> bool" where
  "succeeds m Q \<longleftrightarrow> (\<exists>x. m = Some x \<and> Q x)"

lemma succeeds_Some [simp]: "succeeds (Some x) Q \<longleftrightarrow> Q x"
  by (simp add: succeeds_def)

lemma succeeds_bind: "succeeds (m \<bind> f) Q \<longleftrightarrow> succeeds m (\<lambda>x. succeeds (f x) Q)"
  by (cases m) (auto simp: succeeds_def)

lemma succeeds_mono: "succeeds m P \<Longrightarrow> (\<And>x. P x \<Longrightarrow> Q x) \<Longrightarrow> succeeds m Q"
  by (auto simp: succeeds_def)

definition built :: "bit_stream \<Rightarrow> byte list \<Rightarrow> bool" where
  "built st bs \<longleftrightarrow> stream_wf st \<and> unat (bit_end st) = 12288 \<and> length (base_ptr st) = 1536 \<and> wbits st = byte_bits bs"

definition reading :: "bit_stream \<Rightarrow> byte list \<Rightarrow> byte list \<Rightarrow> byte list \<Rightarrow> bool" where
  "reading st pre suf tail \<longleftrightarrow> base_ptr st = pre @ suf @ tail \<and> unat (bit_num st) = 8 * length pre
     \<and> unat (bit_end st) = 8 * length (pre @ suf)"

lemma built_packet_stream: "built (packet_stream junk) []"
  by (simp add: built_def packet_stream_def udp_max_datagram_size_def make_stream_def init_stream_def stream_wf_def wbits_def)

lemma built_pos:
  assumes "built st bs"
  shows "unat (bit_num st) = 8 * length bs" "length bs \<le> 1536" "room st = 8 * (1536 - length bs)"
    "take (length bs) (base_ptr st) = bs" "unat (get_next_byte_position st) = length bs"
proof -
  have "length (wbits st) = length (byte_bits bs)" using assms by (simp only: built_def)
  then show n: "unat (bit_num st) = 8 * length bs" by simp
  show l: "length bs \<le> 1536" using assms n stream_wfD(1)[of st] by (simp add: built_def)
  show "room st = 8 * (1536 - length bs)" using assms n l by (simp add: built_def room_def)
  have "byte_bits (take (length bs) (base_ptr st)) = byte_bits bs"
    using assms l n by (simp add: built_def wbits_slice slice_byte_bits[symmetric])
  then show "take (length bs) (base_ptr st) = bs" by (rule byte_bits_inj)
  show "unat (get_next_byte_position st) = length bs"
    using round_up_aligned[OF n] by (simp add: get_next_byte_position_def)
qed

lemma built_aligned:
  assumes "built st bs"
  shows "set_byte_position (get_next_byte_position st) st = st"
proof -
  note p = built_pos[OF assms]
  have "push_bit 3 (get_next_byte_position st) = bit_num st"
    using p(1,2,5) by (simp add: word_unat_eq_iff unat_push3)
  then show ?thesis by (simp add: set_byte_position_def)
qed

lemma built_next:
  assumes "built st bs" "stream_wf st'" "same_frame st st'" "wbits st' = wbits st @ byte_bits xs"
  shows "built st' (bs @ xs)"
  using assms by (simp add: built_def same_frame_def)

lemma built_datagram: "built st bs \<Longrightarrow> datagram st = Some bs"
  using built_pos[of st bs] by (simp add: datagram_def built_def)

lemma reading_wf:
  assumes "reading st pre suf tail"
  shows "stream_wf st" "rbits st = byte_bits suf" "room st = 8 * length suf"
    "unat (get_next_byte_position st) = length pre" "set_byte_position (get_next_byte_position st) st = st"
proof -
  show wf: "stream_wf st" and r: "room st = 8 * length suf"
    using assms by (simp_all add: reading_def stream_wf_def room_def word_le_nat_alt)
  have "byte_bits suf = bslice (pre @ suf @ tail) (8 * length pre) (8 * length suf)"
    using slice_append[of "pre @ suf @ tail" 0 "8 * length pre" "8 * length suf"]
      slice_byte_bits[of "length pre + length suf" "pre @ suf @ tail"] slice_byte_bits[of "length pre" "pre @ suf @ tail"]
    by (simp add: add_mult_distrib2)
  then show "rbits st = byte_bits suf"
    using assms r by (simp add: rbits_slice[OF wf] reading_def)
  show p: "unat (get_next_byte_position st) = length pre"
    using round_up_aligned[of "bit_num st" "length pre"] assms by (simp add: reading_def get_next_byte_position_def)
  have "8 * length pre < 2 ^ 32" using assms unat_less_32[of "bit_num st"] by (simp add: reading_def)
  then have "push_bit 3 (get_next_byte_position st) = bit_num st"
    using p assms by (simp add: word_unat_eq_iff unat_push3 reading_def)
  then show "set_byte_position (get_next_byte_position st) st = st" by (simp add: set_byte_position_def)
qed

lemma reading_next:
  assumes "reading st pre (xs @ suf) tail" "stream_wf st'" "same_frame st st'" "base_ptr st' = base_ptr st"
    "rbits st' = byte_bits suf"
  shows "reading st' (pre @ xs) suf tail"
proof -
  have "room st' = 8 * length suf" using arg_cong[OF assms(5), of length] by simp
  then have "unat (bit_num st') = 8 * (length pre + length xs)"
    using assms stream_wfD(1)[OF assms(2)] by (simp add: room_def same_frame_def reading_def)
  then show ?thesis using assms by (simp add: reading_def same_frame_def)
qed

locale byte_codec = wire_codec wr rd "\<lambda>v. byte_bits (img v)" valid
  for wr :: "'a \<Rightarrow> bit_stream \<Rightarrow> (bool \<times> bit_stream) option"
    and rd :: "'a \<Rightarrow> bit_stream \<Rightarrow> (bool \<times> 'a \<times> bit_stream) option"
    and img :: "'a \<Rightarrow> byte list" and valid :: "'a \<Rightarrow> bool"
begin

lemma build:
  assumes "built st bs" "valid v" "length bs + length (img v) \<le> 1536"
    and "\<And>r st'. built st' (bs @ img v) \<Longrightarrow> succeeds (g r st') Q"
  shows "succeeds (wr v st \<bind> (\<lambda>(r, st'). g r st')) Q"
proof -
  have "stream_wf st" "length (byte_bits (img v)) \<le> room st"
    using assms(1,3) built_pos(3)[OF assms(1)] by (simp_all add: built_def)
  then obtain r st' where "wr v st = Some (r, st')" "built st' (bs @ img v)"
    using write_law[of st v] assms(2) built_next[OF assms(1)] by metis
  then show ?thesis using assms(4) by simp
qed

lemma parse:
  assumes "reading st pre (img v @ suf) tail" "valid v"
    and "\<And>r st'. reading st' (pre @ img v) suf tail \<Longrightarrow> succeeds (g r v st') Q"
  shows "succeeds (rd old st \<bind> (\<lambda>(r, v, st'). g r v st')) Q"
proof -
  obtain r st' where "rd old st = Some (r, v, st')" "reading st' (pre @ img v) suf tail"
    using read_law[OF reading_wf(1)[OF assms(1)] assms(2), of "byte_bits suf" old] reading_wf(2)[OF assms(1)]
      reading_next[OF assms(1)] by (metis byte_bits_append)
  then show ?thesis using assms(3) by simp
qed

lemmas parse_last = parse[where suf = "[]", unfolded append_Nil2]

lemma parse_None:
  assumes "reading st pre (img v @ suf) tail" "valid v"
    and "\<And>r st'. reading st' (pre @ img v) suf tail \<Longrightarrow> g r v st' = None"
  shows "rd old st \<bind> (\<lambda>(r, v, st'). g r v st') = None"
proof -
  have "succeeds (rd old st \<bind> (\<lambda>(r, w, st'). Some (w, st'))) (\<lambda>(w, st'). w = v \<and> reading st' (pre @ img v) suf tail)"
    using assms(1,2) by (rule parse) simp
  then show ?thesis using assms(3) by (auto simp: succeeds_def split: Option.bind_splits)
qed

end

interpretation u8b: byte_codec write_u8 read_u8 "\<lambda>v. [v]" "\<lambda>_. True" ..
interpretation u32b: byte_codec write_u32 read_u32 bytes_of_u32 "\<lambda>_. True" ..
interpretation u64b: byte_codec write_u64 read_u64 bytes_of_u64 "\<lambda>_. True" ..

definition buffer_image :: "byte_buffer \<Rightarrow> byte list" where
  "buffer_image b = bytes_of_u32 (buf_size b) @ data_ptr b"

interpretation bbb: byte_codec write_byte_buffer "\<lambda>_. read_byte_buffer mem len0" buffer_image buffer_exact for mem len0
  unfolding byte_codec_def buffer_image_def by (rule bb.wire_codec_axioms)

definition address_image :: "address \<Rightarrow> byte list" where
  "address_image a = bytes_of_u32 (host a) @ bytes_of_u16 (port a)"

interpretation addrb: byte_codec write_address read_address address_image "\<lambda>_. True"
  unfolding byte_codec_def address_image_def by (rule addr.wire_codec_axioms)

text \<open>Raw bytes.\<close>

lemma write_bytes_build:
  assumes "built st bs" "unat k = length xs" "length bs + length xs \<le> 1536"
    and "\<And>r st'. built st' (bs @ xs) \<Longrightarrow> succeeds (g r st') Q"
  shows "succeeds (write_bytes st xs k \<bind> (\<lambda>(r, st'). g r st')) Q"
proof -
  have "stream_wf st" "8 * length xs \<le> room st"
    using assms(1,3) built_pos(3)[OF assms(1)] by (simp_all add: built_def)
  then obtain st' where "write_bytes st xs k = Some (k, st')" "built st' (bs @ xs)"
    using write_bytes_codec[of st xs k] assms(2) built_next[OF assms(1)] by metis
  then show ?thesis using assms(4) by simp
qed

text \<open>What does not fit into a packet is cut off.\<close>

lemma write_bytes_cut_build:
  assumes "built st bs" "unat k = length xs" "1536 < length bs + length xs" "8 * length xs < 2 ^ 32"
    and "\<And>r st'. built st' (take 1536 (bs @ xs)) \<Longrightarrow> succeeds (g r st') Q"
  shows "succeeds (write_bytes st xs k \<bind> (\<lambda>(r, st'). g r st')) Q"
proof -
  have "stream_wf st" using assms(1) by (simp add: built_def)
  then obtain n st' where "write_bytes st xs k = Some (n, st')" "built st' (bs @ take (1536 - length bs) xs)"
    using write_bytes_cut[OF _ built_pos(3)[OF assms(1)], of k xs] assms(1-4) built_pos(2)[OF assms(1)] by (fastforce simp: built_def)
  then show ?thesis using assms(5) built_pos(2)[OF assms(1)] by simp
qed

lemma byte_buffer_cut_build:
  assumes "built st bs" "buffer_exact b" "length bs + 4 \<le> 1536" "1536 < length bs + length (buffer_image b)" "8 * length (data_ptr b) < 2 ^ 32"
    and "\<And>r st'. built st' (take 1536 (bs @ buffer_image b)) \<Longrightarrow> succeeds (g r st') Q"
  shows "succeeds (write_byte_buffer b st \<bind> (\<lambda>(r, st'). g r st')) Q"
  unfolding write_byte_buffer_def Option.bind_assoc case_prod_beta'
  apply (rule u32b.build[OF assms(1), unfolded case_prod_beta'])
  apply simp
  using assms(3) apply simp
  apply (rule write_bytes_cut_build[unfolded case_prod_beta'], assumption)
  using assms(2-6) by (simp_all add: buffer_exact_def buffer_image_def)

lemma read_bytes_parse:
  assumes "reading st pre (xs @ suf) tail" "unat k = length xs" "length dest = length xs"
    and "\<And>r st'. reading st' (pre @ xs) suf tail \<Longrightarrow> succeeds (g r xs st') Q"
  shows "succeeds (read_bytes st dest k \<bind> (\<lambda>(r, v, st'). g r v st')) Q"
proof -
  obtain st' where "read_bytes st dest k = Some (k, xs, st')" "reading st' (pre @ xs) suf tail"
    using read_bytes_codec[OF reading_wf(1)[OF assms(1)], of xs "byte_bits suf" k dest] reading_wf(2)[OF assms(1)]
      reading_next[OF assms(1)] assms(2,3) by (metis byte_bits_append)
  then show ?thesis using assms(4) by simp
qed

lemmas read_bytes_parse_last = read_bytes_parse[where suf = "[]", unfolded append_Nil2]

lemma set_from_buffer_reading:
  assumes "length bs \<le> 1536"
  shows "reading (set_from_buffer stale bs) [] bs (map stale [length bs..<1536])"
proof -
  have "unat (word_of_nat (length bs) :: uint32) = length bs" using assms by (intro unat_of_nat_small) simp
  then have "unat (word_of_nat (length bs) * 8 :: uint32) = 8 * length bs"
    using assms by (simp add: unat_mult_lem[THEN iffD1])
  then show ?thesis
    by (simp add: reading_def set_from_buffer_def init_stream_def udp_max_datagram_size_def)
qed

subsection \<open>Protected packets\<close>

text \<open>The bytes behind the clear part of a protected packet: the rest of the packet and the first five bytes of the
  digest of the whole packet, encrypted.\<close>

definition sealed :: "('s, 'k) crypto \<Rightarrow> symmetric_cipher \<Rightarrow> byte list \<Rightarrow> byte list \<Rightarrow> byte list" where
  "sealed K c pre plain = fst (encrypt (cr_ecb K) (plain @ take 5 (cr_sha256 K (pre @ plain))) c)"

lemma length_sealed: "digest_law (cr_sha256 K) \<Longrightarrow> length (sealed K c pre plain) = length plain + 5"
  by (simp add: sealed_def encrypt_length digest_law_def)

lemma seal_build:
  assumes "built st (pre @ plain)" "digest_law (cr_sha256 K)" "length (pre @ plain) + 5 \<le> 1536" "unat e = length pre"
    and "\<And>st' c'. datagram st' = Some (pre @ sealed K c pre plain) \<Longrightarrow> succeeds (g st' c') Q"
  shows "succeeds (bit_stream_hash_and_encrypt (cr_sha256 K) (cr_ecb K) st message_signature_bytes e c \<bind> (\<lambda>(st', c'). g st' c')) Q"
proof -
  note p = built_pos[OF assms(1)]
  let ?ds = "get_next_byte_position st" and ?msg = "pre @ plain" and ?h = "take 5 (cr_sha256 K (pre @ plain))"
  have wf: "stream_wf st" and be: "unat (bit_end st) = 12288" "length (base_ptr st) = 1536" using assms(1) by (simp_all add: built_def)
  have msg: "take (unat ?ds) (base_ptr st) = ?msg" using p(4,5) by simp
  have h: "5 \<le> length (cr_sha256 K ?msg)" using assms(2) by (simp add: digest_law_def)
  obtain st2 where w: "write_bytes (set_byte_position ?ds st) (cr_sha256 K ?msg) 5 = Some (5, st2)"
      "take (length ?msg + 5) (base_ptr st2) = ?msg @ ?h" "get_next_byte_position st2 = ?ds + 5" "unat (?ds + 5) = length ?msg + 5"
      "length (base_ptr st2) = 1536"
    using write_digest[OF wf refl, of 5 "cr_sha256 K ?msg"] p(5) assms(3) be h msg by auto
  let ?n = "length plain + 5"
  have un: "unat (?ds + 5 - e) = ?n" using w(4) assms(4) by (subst unat_diff_32) simp_all
  have "take ?n (drop (length pre) (base_ptr st2)) = drop (length pre) (take (length ?msg + 5) (base_ptr st2))"
    by (simp add: drop_take add.commute)
  then have body: "take ?n (drop (length pre) (base_ptr st2)) = plain @ ?h" using w(2) by simp
  have front: "take (length pre) (base_ptr st2) = pre"
    using arg_cong[OF w(2), of "take (length pre)"] by (simp add: min_def)
  obtain es c' where enc: "encrypt (cr_ecb K) (plain @ ?h) c = (es, c')" by fastforce
  have les: "length es = ?n" using encrypt_length[of "cr_ecb K" "plain @ ?h" c] enc h by simp
  let ?st' = "st2\<lparr>base_ptr := pre @ es @ drop (length pre + ?n) (base_ptr st2)\<rparr>"
  have run: "bit_stream_hash_and_encrypt (cr_sha256 K) (cr_ecb K) st message_signature_bytes e c = Some (?st', c')"
    using w(1,3,5) un body front enc msg assms(3,4) p(5) be(2)
    by (simp add: bit_stream_hash_and_encrypt_def message_signature_bytes_def Let_def set_byte_position_def add.assoc)
  have "get_next_byte_position ?st' = ?ds + 5" using w(3) by (simp add: get_next_byte_position_def)
  then have "datagram ?st' = Some (pre @ es)"
    using w(4,5) les assms(3) by (simp add: datagram_def)
  then have "datagram ?st' = Some (pre @ sealed K c pre plain)" using enc by (simp add: sealed_def)
  then show ?thesis using assms(5) run by simp
qed

lemma open_parse:
  assumes "reading st pre (sealed K c pre plain) tail" "digest_law (cr_sha256 K)" "dp = get_next_byte_position st"
    and "\<And>st' c' tail'. reading st' pre plain tail' \<Longrightarrow> succeeds (g True st' c') Q"
  shows "succeeds (bit_stream_decrypt_and_check_hash (cr_sha256 K) (cr_ecb K) st message_signature_bytes dp c \<bind> (\<lambda>(ok, st', c'). g ok st' c')) Q"
proof -
  let ?h = "take 5 (cr_sha256 K (pre @ plain))"
  obtain es c' where enc: "encrypt (cr_ecb K) (plain @ ?h) c = (es, c')" by fastforce
  have es: "sealed K c pre plain = es" using enc by (simp add: sealed_def)
  have h: "length ?h = 5" using assms(2) by (simp add: digest_law_def)
  have les: "length es = length plain + 5" using length_sealed[OF assms(2)] es by metis
  have r: "base_ptr st = pre @ es @ tail" "unat (bit_num st) = 8 * length pre" "unat (bit_end st) = 8 * (length pre + length plain + 5)"
    using assms(1) les by (simp_all add: reading_def es)
  have dp: "unat dp = length pre" using reading_wf(4)[OF assms(1)] assms(3) by simp
  let ?n = "get_stream_byte_size st"
  have n: "unat ?n = length pre + length plain + 5"
    using round_up_aligned[OF r(3)] by (simp add: get_stream_byte_size_def)
  have lt: "8 * (length pre + length plain + 5) < 2 ^ 32" using r(3) unat_less_32[of "bit_end st"] by simp
  have "unat (dp + 5) = length pre + 5" using dp lt by (subst unat_add_lem[THEN iffD1]) auto
  then have ge: "\<not> ?n < dp + 5" using n by (simp add: word_less_nat_alt)
  have n1: "unat (?n - dp) = length plain + 5" using n dp by (subst unat_diff_32) simp_all
  have n2: "unat (?n - 5) = length pre + length plain" using n by (subst unat_diff_32) simp_all
  have dec: "decrypt (cr_ecb K) es c = (plain @ ?h, c')" by (rule decrypt_encrypt[OF enc])
  let ?st' = "set_stream_byte_size (?n - 5) (st\<lparr>base_ptr := pre @ (plain @ ?h) @ tail\<rparr>)"
  have "bit_stream_decrypt_and_check_hash (cr_sha256 K) (cr_ecb K) st message_signature_bytes dp c = Some (True, ?st', c')"
    unfolding bit_stream_decrypt_and_check_hash_def message_signature_bytes_def Let_def if_not_P[OF ge] dp n1 n2
    using r(1) les dec h by simp
  moreover have "reading ?st' pre plain (?h @ tail)"
  proof -
    have "unat (?n - 5) * unat (8 :: uint32) < 2 ^ LENGTH(32)" using n2 lt by simp
    then have "unat ((?n - 5) * 8) = unat (?n - 5) * unat (8 :: uint32)" by (rule unat_mult_lem[THEN iffD1])
    then have "unat ((?n - 5) * 8) = 8 * (length pre + length plain)" using n2 by (simp only: unat_numeral) simp
    then show ?thesis using r(2) by (simp add: reading_def set_stream_byte_size_def)
  qed
  ultimately show ?thesis using assms(4) by simp
qed

end
