(* ===== verification/Connection_Header.thy ===== *)
theory Connection_Header
  imports Torque_Connection
begin

subsection \<open>Sending a packet\<close>

definition emit :: "torque_connection \<Rightarrow> byte list \<Rightarrow> socket_io \<Rightarrow> socket_io" where
  "emit c pkt io = (if simulated_latency c \<noteq> 0 then send_to_delayed (tc_address c) pkt (simulated_latency c) io
                    else send_to (tc_address c) pkt io)"

definition sent_state :: "block_fun \<Rightarrow> net_packet_type \<Rightarrow> torque_connection \<Rightarrow> torque_connection" where
  "sent_state ecb ptype c = (let c1 = after_header ptype c in
     c1\<lparr>tc_cipher := map_option (setup_counter ecb (last_send_seq c1) (last_seq_recvd c1) (packet_type_code ptype) 0) (tc_cipher c1)\<rparr>)"

definition connection_header :: "net_packet_type \<Rightarrow> torque_connection \<Rightarrow> bool list" where
  "connection_header ptype c = header_bits (packet_type_code ptype) (last_send_seq (after_header ptype c))
     (last_seq_recvd c) (ack_byte_count c) (hd (ack_mask c))"

lemma packet_stream_wf [simp]:
  "stream_wf (packet_stream junk)" "room (packet_stream junk) = 12288" "whole_bytes (packet_stream junk)"
  "wbits (packet_stream junk) = []" "bit_num (packet_stream junk) = 0" "bit_end (packet_stream junk) = 12288"
  "length (base_ptr (packet_stream junk)) = 1536"
  by (simp_all add: packet_stream_def make_stream_def init_stream_def stream_wf_def udp_max_datagram_size_def
      room_def whole_bytes_def wbits_def)

lemma datagram_total:
  assumes "stream_wf st" "whole_bytes st"
  shows "datagram st = Some (take ((unat (bit_num st) + 7) div 8) (base_ptr st))"
    and "(unat (bit_num st) + 7) div 8 \<le> length (base_ptr st)"
proof -
  note w = stream_wfD[OF assms(1)]
  obtain e where e: "unat (bit_end st) = 8 * e" using assms(2) by (auto simp: whole_bytes_def)
  have "unat (bit_num st + 7) = unat (bit_num st) + 7"
    using w(1,3) e by (subst unat_add_lem[THEN iffD1]) auto
  then have n: "unat (get_next_byte_position st) = (unat (bit_num st) + 7) div 8"
    by (simp add: get_next_byte_position_def unat_drop3)
  show "(unat (bit_num st) + 7) div 8 \<le> length (base_ptr st)" using w(1,2) e by linarith
  then show "datagram st = Some (take ((unat (bit_num st) + 7) div 8) (base_ptr st))"
    by (simp add: datagram_def n)
qed

lemma header_stream:
  assumes wf: "conn_wf c" and win: "ptype = data_packet \<Longrightarrow> \<not> window_full c"
  shows "\<exists>ps. write_packet_header ptype c (packet_stream junk) = Some (after_header ptype c, ps)
     \<and> stream_wf ps \<and> whole_bytes ps \<and> bit_end ps = 12288 \<and> length (base_ptr ps) = 1536
     \<and> unat (bit_num ps) = 8 * (4 + unat (ack_byte_count c))
     \<and> take (27 + 8 * unat (ack_byte_count c)) (wbits ps) = connection_header ptype c"
proof -
  obtain st' where st: "write_packet_header ptype c (packet_stream junk) = Some (after_header ptype c, advance_to_next_byte st')"
    "writes (packet_stream junk) st' (connection_header ptype c)"
    using write_packet_header_writes[OF wf packet_stream_wf(1), where ptype = ptype] win by (auto simp: connection_header_def)
  then have st': "stream_wf st'" "bit_end st' = 12288" "length (base_ptr st') = 1536" "wbits st' = connection_header ptype c"
    by (auto simp: writes_def same_frame_def)
  then have pos: "unat (bit_num st') = 27 + 8 * unat (ack_byte_count c)"
    using length_views(1)[of st'] by (simp add: connection_header_def)
  have "whole_bytes st'" using st'(2) by (simp add: whole_bytes_def)
  note adv = advance_to_next_byte_wf[OF st'(1) this]
  have pos': "unat (bit_num (advance_to_next_byte st')) = 8 * (4 + unat (ack_byte_count c))"
    using adv(2) pos by simp
  have "take (27 + 8 * unat (ack_byte_count c)) (wbits (advance_to_next_byte st')) = wbits st'"
    unfolding wbits_def adv(3) pos pos' by (simp add: take_map take_upt)
  then show ?thesis using st adv st' pos' by (auto simp: whole_bytes_def)
qed

lemma send_packet_total:
  assumes wf: "conn_wf c" and win: "ptype = data_packet \<Longrightarrow> \<not> window_full c" and k: "unat k \<le> length bytes"
  shows "\<exists>pkt. send_packet ecb junk ptype bytes k c io =
     Some (last_send_seq (after_header ptype c), sent_state ecb ptype c, emit c pkt io)"
proof -
  obtain ps where ps: "write_packet_header ptype c (packet_stream junk) = Some (after_header ptype c, ps)"
    "stream_wf ps" "whole_bytes ps" "bit_end ps = 12288" using header_stream[OF wf win] by blast
  obtain m ps2 where ps2: "write_bytes ps bytes k = Some (m, ps2)" "stream_wf ps2" "bit_end ps2 = bit_end ps"
    using write_bytes_total[OF ps(2) k] by blast
  then have "whole_bytes ps2" using ps(4) by (simp add: whole_bytes_def)
  note d = datagram_total(1)[OF ps2(2) this] datagram_total(1)[OF ps(2,3)]
  have "emit c = emit (sent_state ecb ptype c)" by (simp add: emit_def sent_state_def after_header_def Let_def fun_eq_iff)
  then show ?thesis
    using ps(1) ps2(1) d
    by (cases "ptype = data_packet") (auto simp: send_packet_def Let_def emit_def[symmetric] sent_state_def)
qed

text \<open>The datagram: the header bits, filled up to a byte boundary, and the payload.\<close>

lemma send_data_packet:
  assumes wf: "conn_wf c" "\<not> window_full c" and k: "unat k = length bytes" "4 + unat (ack_byte_count c) + length bytes \<le> 1536"
  shows "\<exists>hdr. send_packet ecb junk data_packet bytes k c io =
     Some (last_send_seq c + 1, sent_state ecb data_packet c, emit c (hdr @ bytes) io)
     \<and> length hdr = 4 + unat (ack_byte_count c)
     \<and> take (27 + 8 * unat (ack_byte_count c)) (byte_bits hdr) = connection_header data_packet c"
proof -
  let ?n = "4 + unat (ack_byte_count c)"
  obtain ps where ps: "write_packet_header data_packet c (packet_stream junk) = Some (after_header data_packet c, ps)"
    "stream_wf ps" "whole_bytes ps" "bit_end ps = 12288" "length (base_ptr ps) = 1536" "unat (bit_num ps) = 8 * ?n"
    "take (27 + 8 * unat (ack_byte_count c)) (wbits ps) = connection_header data_packet c"
    using header_stream[OF wf(1), of data_packet] wf(2) by blast
  have room: "8 * unat k \<le> room ps" using ps(4,6) k by (simp add: room_def)
  then obtain ps2 where ps2: "write_bytes ps bytes k = Some (k, ps2)" "stream_wf ps2" "same_frame ps ps2"
    "wbits ps2 = wbits ps @ byte_bits bytes"
    using write_bytes_wbits[OF ps(2) room, of bytes] k by auto
  have wb: "whole_bytes ps2" using ps2(3) ps(4) by (simp add: same_frame_def whole_bytes_def)
  have pos: "unat (bit_num ps2) = 8 * (?n + length bytes)"
    using arg_cong[OF ps2(4), of length] ps(6) by simp
  have le: "?n + length bytes \<le> length (base_ptr ps2)" using k ps(5) ps2(3) by (simp add: same_frame_def)
  let ?pkt = "take (?n + length bytes) (base_ptr ps2)"
  have "(8 * m + 7) div 8 = m" for m :: nat by simp
  then have d: "datagram ps2 = Some ?pkt"
    using datagram_total(1)[OF ps2(2) wb] unfolding pos by (simp only:)
  have "byte_bits (take ?n (base_ptr ps)) @ byte_bits bytes = byte_bits ?pkt"
    using ps2(4) ps(5,6) pos le k by (simp add: wbits_slice slice_byte_bits[symmetric])
  then have pkt: "?pkt = take ?n (base_ptr ps) @ bytes" by (metis byte_bits_append byte_bits_inj)
  have "byte_bits (take ?n (base_ptr ps)) = wbits ps"
    unfolding wbits_slice ps(6) using ps(5) k by (subst slice_byte_bits) auto
  with ps ps2 d pkt k show ?thesis
    by (intro exI[of _ "take ?n (base_ptr ps)"])
      (simp add: send_packet_def Let_def emit_def sent_state_def after_header_def)
qed

subsection \<open>Reading a packet\<close>

lemma join_sequence: "take_bit 5 s OR push_bit 5 (take_bit 6 (drop_bit 5 s)) = take_bit 11 (s :: uint32)"
  by (rule bit_word_eqI) (auto simp: bit_simps)

lemma take_bit_small: "unat (v :: uint32) < 2 ^ k \<Longrightarrow> take_bit k v = v"
  unfolding word_unat_eq_iff unsigned_take_bit_eq by (simp add: take_bit_nat_eq_self)

lemma read_ack_words_rbits:
  assumes wf: "stream_wf st" and r: "rbits st = int_bits (8 * unat abc) w @ ys" and abc: "unat abc \<le> 4"
  shows "\<exists>st'. read_ack_words abc (drop_bit 2 (abc + 3)) [0..<unat (drop_bit 2 (abc + 3))] [m] st
        = Some ([if abc = 0 then m else take_bit (8 * unat abc) w], st')
     \<and> stream_wf st' \<and> rbits st' = ys \<and> base_ptr st' = base_ptr st \<and> same_frame st st'
     \<and> unat (bit_num st') = unat (bit_num st) + 8 * unat abc"
proof (cases "abc = 0")
  case True
  then show ?thesis using wf r by (simp add: ack_word_count int_bits_def)
next
  case False
  have len: "8 * unat abc \<le> room st" using arg_cong[OF r, of length] by simp
  obtain st' where st': "read_integer (abc * 8) st = Some (take_bit (8 * unat abc) w, st')" "stream_wf st'" "rbits st' = ys"
    "bit_num st' = bit_num st + abc * 8" "base_ptr st' = base_ptr st" "same_frame st st'"
    using read_integer_rbits[OF wf, of "abc * 8" w ys] r abc by (auto simp: ack_word_count(3)[OF abc])
  moreover have "unat (bit_num st + abc * 8) = unat (bit_num st) + 8 * unat abc"
    using unat_advance[OF wf, of "abc * 8"] len by (simp add: ack_word_count(3)[OF abc])
  ultimately show ?thesis using False by (simp add: ack_word_count[OF abc])
qed

text \<open>The fields of a header.\<close>

lemma read_header_fields:
  assumes wf: "stream_wf st" and r: "rbits st = header_bits p s a abc w @ ys" and p: "unat p < 4" and abc: "unat abc \<le> 4"
  shows "\<exists>st1 st2 st3 st4 st6 st7 st8.
     read_integer 2 st = Some (p, st1) \<and> read_integer 5 st1 = Some (take_bit 5 s, st2) \<and> read_bool st2 = Some (True, st3)
     \<and> read_integer (sequence_number_bit_size - 5) st3 = Some (take_bit 6 (drop_bit 5 s), st4)
     \<and> read_integer ack_sequence_number_bit_size st4 = Some (take_bit 10 a, st6)
     \<and> read_integer packet_header_pad_bits st6 = Some (0, st6)
     \<and> read_ranged_uint32 0 max_ack_byte_count st6 = Some (abc, st7)
     \<and> read_ack_words abc (drop_bit 2 (abc + 3)) [0..<unat (drop_bit 2 (abc + 3))] [m] st7
         = Some ([if abc = 0 then m else take_bit (8 * unat abc) w], st8)
     \<and> stream_wf st8 \<and> base_ptr st8 = base_ptr st \<and> bit_end st8 = bit_end st \<and> rbits st8 = ys"
proof -
  obtain st1 where s1: "read_integer 2 st = Some (take_bit 2 p, st1)" "stream_wf st1" "base_ptr st1 = base_ptr st" "same_frame st st1"
    "rbits st1 = int_bits 5 s @ [True] @ int_bits 6 (drop_bit 5 s) @ int_bits 10 a @ int_bits 3 abc @ int_bits (8 * unat abc) w @ ys"
    using read_integer_rbits[OF wf, of 2 p] r by (auto simp: header_bits_def)
  obtain st2 where s2: "read_integer 5 st1 = Some (take_bit 5 s, st2)" "stream_wf st2" "base_ptr st2 = base_ptr st1" "same_frame st1 st2"
    "rbits st2 = True # int_bits 6 (drop_bit 5 s) @ int_bits 10 a @ int_bits 3 abc @ int_bits (8 * unat abc) w @ ys"
    using read_integer_rbits[OF s1(2), of 5 s] s1(5) by auto
  obtain st3 where s3: "read_bool st2 = Some (True, st3)" "stream_wf st3" "base_ptr st3 = base_ptr st2" "same_frame st2 st3"
    "rbits st3 = int_bits 6 (drop_bit 5 s) @ int_bits 10 a @ int_bits 3 abc @ int_bits (8 * unat abc) w @ ys"
    using read_bool_rbits[OF s2(2,5)] by blast
  obtain st4 where s4: "read_integer 6 st3 = Some (take_bit 6 (drop_bit 5 s), st4)" "stream_wf st4" "base_ptr st4 = base_ptr st3" "same_frame st3 st4"
    "rbits st4 = int_bits 10 a @ int_bits 3 abc @ int_bits (8 * unat abc) w @ ys"
    using read_integer_rbits[OF s3(2), of 6 "drop_bit 5 s"] s3(5) by auto
  obtain st6 where s6: "read_integer 10 st4 = Some (take_bit 10 a, st6)" "stream_wf st6" "base_ptr st6 = base_ptr st4" "same_frame st4 st6"
    "rbits st6 = int_bits 3 abc @ int_bits (8 * unat abc) w @ ys"
    using read_integer_rbits[OF s4(2), of 10 a] s4(5) by auto
  have pad: "read_integer packet_header_pad_bits st6 = Some (0, st6)"
    by (simp add: pad_bits_0 read_integer_def read_bits_def u32_of_bytes_def)
  obtain st7 where s7: "read_integer 3 st6 = Some (take_bit 3 abc, st7)" "stream_wf st7" "base_ptr st7 = base_ptr st6" "same_frame st6 st7"
    "rbits st7 = int_bits (8 * unat abc) w @ ys"
    using read_integer_rbits[OF s6(2), of 3 abc] s6(5) by auto
  have "read_ranged_uint32 0 max_ack_byte_count st6 = Some (abc, st7)"
    using s7(1) ack_range_bits take_bit_small[of abc 3] abc by (simp add: read_ranged_uint32_def Let_def)
  moreover obtain st8 where "read_ack_words abc (drop_bit 2 (abc + 3)) [0..<unat (drop_bit 2 (abc + 3))] [m] st7
      = Some ([if abc = 0 then m else take_bit (8 * unat abc) w], st8)" "stream_wf st8" "rbits st8 = ys"
      "base_ptr st8 = base_ptr st7" "same_frame st7 st8"
    using read_ack_words_rbits[OF s7(2,5) abc, of m] by blast
  moreover have "take_bit 2 p = p" using take_bit_small[of p 2] p by simp
  ultimately show ?thesis
    using s1 s2 s3 s4 s6 s7 pad by (simp add: sequence_number_bit_size_def ack_sequence_number_bit_size_def same_frame_def)
qed

text \<open>A packet whose numbers lie in the receiver's windows is understood exactly as its sender meant it.\<close>

lemma read_packet_header_exact:
  assumes wf: "stream_wf st" and r: "rbits st = header_bits p s a abc w @ ys" and p: "unat p < 3" and abc: "unat abc \<le> 4"
    and s: "unat (s - last_seq_recvd c) < 32"
    and a: "unat (a - highest_acked_seq c) < 1024" "a \<le> last_send_seq c"
  shows "\<exists>st'. read_packet_header ecb junk m st c io = (do {
       (r, c', io') \<leftarrow> process_header ecb junk p s a [if abc = 0 then m else take_bit (8 * unat abc) w]
          (c\<lparr>tc_cipher := map_option (setup_counter ecb s a p 0) (tc_cipher c)\<rparr>) io;
       Some (r, advance_to_next_byte st', c', io') })
     \<and> stream_wf st' \<and> base_ptr st' = base_ptr st \<and> bit_end st' = bit_end st \<and> rbits st' = ys"
proof -
  obtain st1 st2 st3 st4 st6 st7 st8 where f:
    "read_integer 2 st = Some (p, st1)" "read_integer 5 st1 = Some (take_bit 5 s, st2)" "read_bool st2 = Some (True, st3)"
    "read_integer (sequence_number_bit_size - 5) st3 = Some (take_bit 6 (drop_bit 5 s), st4)"
    "read_integer ack_sequence_number_bit_size st4 = Some (take_bit 10 a, st6)"
    "read_integer packet_header_pad_bits st6 = Some (0, st6)"
    "read_ranged_uint32 0 max_ack_byte_count st6 = Some (abc, st7)"
    "read_ack_words abc (drop_bit 2 (abc + 3)) [0..<unat (drop_bit 2 (abc + 3))] [m] st7
         = Some ([if abc = 0 then m else take_bit (8 * unat abc) w], st8)"
    "stream_wf st8" "base_ptr st8 = base_ptr st" "bit_end st8 = bit_end st" "rbits st8 = ys"
    using read_header_fields[OF wf r _ abc, of m] p by auto
  have seq: "extend_sequence sequence_number_bit_size (last_seq_recvd c) (take_bit 11 s) = s"
    by (rule extend_sequence_exact) (use s in \<open>simp_all add: sequence_number_bit_size_def\<close>)
  have ack: "extend_sequence ack_sequence_number_bit_size (highest_acked_seq c) (take_bit 10 a) = a"
    by (rule extend_sequence_exact) (use a in \<open>simp_all add: ack_sequence_number_bit_size_def\<close>)
  have win: "\<not> max_packet_window_size - 1 < s - last_seq_recvd c"
    using s by (simp add: word_less_nat_alt header_constants push_bit_eq_mult)
  have cnt: "\<not> max_ack_byte_count < abc" using abc by (simp add: word_less_nat_alt header_constants push_bit_eq_mult)
  have ty: "\<not> packet_type_code invalid_packet_type \<le> p" using p by (simp add: word_le_nat_alt)
  have le: "\<not> last_send_seq c < a" using a(2) by simp
  show ?thesis
    unfolding read_packet_header_def Let_def
    by (intro exI[of _ st8]) (simp add: f join_sequence seq ack max_ack_mask_size_def win cnt ty le del: packet_type_code.simps)
qed

subsection \<open>Notifications\<close>

definition notify_event :: "uint32 \<Rightarrow> uint32 \<Rightarrow> bool \<Rightarrow> torque_socket_event" where
  "notify_event index seq ok = (new_event torque_connection_packet_notify_event_type index)
     \<lparr>ev_delivered := Some ok, ev_packet_sequence := Some seq\<rparr>"

lemma small_distance:
  assumes "unat (x :: uint32) = n" "n < 32"
  shows "unat (drop_bit 5 x) = 0" "unat (x AND 0x1F) = n"
proof -
  have "(0x1F :: uint32) = mask 5" by (simp add: mask_eq_exp_minus_1)
  then have "x AND 0x1F = take_bit 5 x" by (simp add: take_bit_eq_mask)
  moreover have "take_bit 5 x = x"
    unfolding word_unat_eq_iff unsigned_take_bit_eq using assms by (simp add: take_bit_nat_eq_self)
  ultimately show "unat (x AND 0x1F) = n" using assms(1) by simp
  show "unat (drop_bit 5 x) = 0" using assms unfolding unat_drop_bit_eq by (simp add: drop_bit_eq_div)
qed

text \<open>The acknowledgement state after a run of notifications: what was received when the last
  packet reported as delivered was sent.\<close>

primrec ack_ack_after :: "nat \<Rightarrow> uint32 \<Rightarrow> uint32 \<Rightarrow> uint32 list \<Rightarrow> uint32 \<Rightarrow> uint32" where
  "ack_ack_after 0 seq w at_send r = r"
| "ack_ack_after (Suc n) seq w at_send r =
     ack_ack_after n (seq + 1) w at_send
       (if bit w n then at_send ! unat ((seq + 1) AND packet_window_mask) else r)"

lemma notify_loop_spec:
  assumes "length (last_seq_recvd_at_send c) = 32" "queue_holds q evs"
    and "unat (h - (highest_acked_seq c + i)) = n" "n \<le> 32"
  shows "\<exists>q'. notify_loop n i h [w] c q =
       Some (c\<lparr>last_recv_ack_ack := ack_ack_after n (highest_acked_seq c + i) w (last_seq_recvd_at_send c) (last_recv_ack_ack c)\<rparr>, q')
     \<and> queue_holds q' (evs @ map (\<lambda>j. notify_event (connection_index c) (highest_acked_seq c + i + 1 + word_of_nat j)
         (bit w (n - 1 - j))) [0..<n])"
  using assms
proof (induction n arbitrary: i c q evs)
  case 0
  then show ?case by simp
next
  case (Suc n)
  let ?k = "highest_acked_seq c + i + 1"
  have d: "unat (h - ?k) = n"
  proof -
    have "h - ?k = (h - (highest_acked_seq c + i)) - 1" by simp
    then show ?thesis using Suc.prems(3) by (metis diff_Suc_1 nat.distinct(1) unat_0 unat_minus_one)
  qed
  note small = small_distance[OF d]
  have ok: "(w AND push_bit (unat ((h - ?k) AND 0x1F)) 1 \<noteq> 0) = bit w n"
    using small Suc.prems(4) by (simp add: bit_iff_and_push_bit_not_eq_0)
  let ?r = "if bit w n then last_seq_recvd_at_send c ! unat (?k AND packet_window_mask) else last_recv_ack_ack c"
  let ?c = "c\<lparr>last_recv_ack_ack := ?r\<rparr>"
  obtain q1 where q1: "post_with torque_connection_packet_notify_event_type (connection_index c)
      (\<lambda>e. e\<lparr>ev_delivered := Some (bit w n), ev_packet_sequence := Some ?k\<rparr>) q = Some q1"
    "queue_holds q1 (evs @ [notify_event (connection_index c) ?k (bit w n)])"
    using post_with_holds[OF Suc.prems(2), of torque_connection_packet_notify_event_type "connection_index c"
      "\<lambda>e. e\<lparr>ev_delivered := Some (bit w n), ev_packet_sequence := Some ?k\<rparr>"]
    by (auto simp: notify_event_def)
  have step: "notify_loop (Suc n) i h [w] c q = notify_loop n (i + 1) h [w] ?c q1"
    using small(1) Suc.prems(1,4) ok q1(1) window_index[of ?k]
    by (simp add: Let_def add.assoc del: unat_eq_0)
  have "unat (h - (highest_acked_seq ?c + (i + 1))) = n" using d by (simp add: add.assoc)
  from Suc.IH[OF _ q1(2) this] Suc.prems(1,4) obtain q' where q': "notify_loop n (i + 1) h [w] ?c q1 =
      Some (c\<lparr>last_recv_ack_ack := ack_ack_after (Suc n) (highest_acked_seq c + i) w (last_seq_recvd_at_send c) (last_recv_ack_ack c)\<rparr>, q')"
    "queue_holds q' ((evs @ [notify_event (connection_index c) ?k (bit w n)])
      @ map (\<lambda>j. notify_event (connection_index c) (highest_acked_seq c + (i + 1) + 1 + word_of_nat j) (bit w (n - 1 - j))) [0..<n])"
    by (auto simp: add.assoc)
  have "map (\<lambda>j. notify_event (connection_index c) (?k + word_of_nat j) (bit w (Suc n - 1 - j))) [0..<Suc n] =
      notify_event (connection_index c) ?k (bit w n) #
      map (\<lambda>j. notify_event (connection_index c) (highest_acked_seq c + (i + 1) + 1 + word_of_nat j) (bit w (n - 1 - j))) [0..<n]"
    by (simp add: upt_conv_Cons map_Suc_upt[symmetric] add.assoc del: upt_Suc)
  with q' step show ?case by (auto simp del: upt_Suc)
qed

subsection \<open>The effect of an accepted packet\<close>

definition received_state :: "uint32 \<Rightarrow> uint32 \<Rightarrow> uint32 \<Rightarrow> uint32 \<Rightarrow> torque_connection \<Rightarrow> torque_connection" where
  "received_state p s h w c =
     (let r = ack_ack_after (unat (h - highest_acked_seq c)) (highest_acked_seq c) w (last_seq_recvd_at_send c) (last_recv_ack_ack c)
      in keep_alive (c\<lparr>ack_mask := [push_bit (unat (s - last_seq_recvd c)) (hd (ack_mask c)) OR (if p = 0 then 1 else 0)],
           last_recv_ack_ack := (if max_packet_window_size < s - r then s - max_packet_window_size else r),
           highest_acked_seq := h, last_seq_recvd := s\<rparr>))"

definition needs_ack :: "uint32 \<Rightarrow> torque_connection \<Rightarrow> bool" where
  "needs_ack p c \<longleftrightarrow> p = packet_type_code ping_packet
     \<or> drop_bit 1 max_packet_window_size < last_seq_recvd c - last_recv_ack_ack c"

definition notifications :: "torque_connection \<Rightarrow> uint32 \<Rightarrow> uint32 \<Rightarrow> torque_socket_event list" where
  "notifications c h w = (let n = unat (h - highest_acked_seq c) in
     map (\<lambda>j. notify_event (connection_index c) (highest_acked_seq c + 1 + word_of_nat j) (bit w (n - 1 - j))) [0..<n])"

lemma received_state_simps [simp]:
  "last_seq_recvd (received_state p s h w c) = s"
  "highest_acked_seq (received_state p s h w c) = h"
  "last_send_seq (received_state p s h w c) = last_send_seq c"
  "last_seq_recvd_at_send (received_state p s h w c) = last_seq_recvd_at_send c"
  "connection_index (received_state p s h w c) = connection_index c"
  "ack_mask (received_state p s h w c) = [push_bit (unat (s - last_seq_recvd c)) (hd (ack_mask c)) OR (if p = 0 then 1 else 0)]"
  by (simp_all add: received_state_def keep_alive_def Let_def)

lemma received_state_wf: "conn_wf c \<Longrightarrow> conn_wf (received_state p s h w c)"
  by (auto simp: conn_wf_def max_ack_mask_size_def received_state_def keep_alive_def Let_def)

lemma sent_state_simps [simp]:
  "last_seq_recvd (sent_state ecb t c) = last_seq_recvd c" "highest_acked_seq (sent_state ecb t c) = highest_acked_seq c"
  "last_recv_ack_ack (sent_state ecb t c) = last_recv_ack_ack c" "ack_mask (sent_state ecb t c) = ack_mask c"
  "connection_index (sent_state ecb t c) = connection_index c"
  "last_send_seq (sent_state ecb t c) = (if t = data_packet then last_send_seq c + 1 else last_send_seq c)"
  "t \<noteq> data_packet \<Longrightarrow> last_seq_recvd_at_send (sent_state ecb t c) = last_seq_recvd_at_send c"
  by (simp_all add: sent_state_def after_header_def Let_def)

lemma sent_state_wf: "conn_wf c \<Longrightarrow> conn_wf (sent_state ecb t c)"
  by (auto simp: conn_wf_def sent_state_def after_header_def Let_def)

lemma emit_queue [simp]: "event_queue (emit c pkt io) = event_queue io"
  by (simp add: emit_def send_to_def send_to_delayed_def)

lemma process_header_spec:
  assumes wf: "conn_wf c" and s: "unat (s - last_seq_recvd c) < 32" and h: "unat (h - highest_acked_seq c) \<le> 32"
    and q: "queue_holds (event_queue io) evs"
  shows "\<exists>io'. process_header ecb junk p s h [w] c io = Some (last_seq_recvd c \<noteq> s \<and> p = packet_type_code data_packet,
       (if needs_ack p (received_state p s h w c) then sent_state ecb ack_packet (received_state p s h w c)
        else received_state p s h w c), io')
     \<and> queue_holds (event_queue io') (evs @ notifications c h w)"
proof -
  let ?b = "if p = packet_type_code data_packet then 1 else 0" and ?d = "s - last_seq_recvd c"
  obtain m where m: "ack_mask c = [m]" using wf by (auto simp: conn_wf_def max_ack_mask_size_def length_Suc_conv)
  have sh: "shift_ack_words ?d (ack_mask c) = (?d, [m])"
    using s m by (simp add: shift_ack_words.simps word_less_nat_alt)
  let ?c1 = "c\<lparr>ack_mask := [push_bit (unat ?d) m OR ?b]\<rparr>"
  let ?r = "ack_ack_after (unat (h - highest_acked_seq c)) (highest_acked_seq c) w (last_seq_recvd_at_send c) (last_recv_ack_ack c)"
  have "length (last_seq_recvd_at_send ?c1) = 32"
    using wf by (simp add: conn_wf_def header_constants(1) push_bit_eq_mult)
  from notify_loop_spec[OF this q, of h 0 "unat (h - highest_acked_seq c)" w] h obtain q' where
    q': "notify_loop (unat (h - highest_acked_seq c)) 0 h [w] ?c1 (event_queue io) = Some (?c1\<lparr>last_recv_ack_ack := ?r\<rparr>, q')"
      "queue_holds q' (evs @ notifications c h w)"
    by (auto simp: notifications_def Let_def)
  define c2 where "c2 = ?c1\<lparr>last_recv_ack_ack := ?r\<rparr>"
  define c4 where "c4 = keep_alive ((if max_packet_window_size < s - last_recv_ack_ack c2
    then c2\<lparr>last_recv_ack_ack := s - max_packet_window_size\<rparr> else c2)\<lparr>highest_acked_seq := h\<rparr>)"
  let ?c5 = "received_state p s h w c"
  have c5: "c4\<lparr>last_seq_recvd := s\<rparr> = ?c5" "last_seq_recvd c4 = last_seq_recvd c"
    by (simp_all add: received_state_def c4_def c2_def keep_alive_def Let_def m)
  obtain pkt where snd: "send_packet ecb junk ack_packet [] 0 ?c5 (io\<lparr>event_queue := q'\<rparr>)
      = Some (last_send_seq (after_header ack_packet ?c5), sent_state ecb ack_packet ?c5, emit ?c5 pkt (io\<lparr>event_queue := q'\<rparr>))"
    using send_packet_total[OF received_state_wf[OF wf, of p s h w], where ptype = ack_packet and k = 0 and bytes = "[]"
        and ecb = ecb and junk = junk and io = "io\<lparr>event_queue := q'\<rparr>"] by auto
  have rr: "last_recv_ack_ack ?c5 = last_recv_ack_ack c4" by (simp add: c5(1)[symmetric])
  have run: "process_header ecb junk p s h [w] c io = do {
      (c6, io6) \<leftarrow> (if needs_ack p ?c5 then send_ack_packet ecb junk ?c5 (io\<lparr>event_queue := q'\<rparr>)
                    else Some (?c5, io\<lparr>event_queue := q'\<rparr>));
      Some (last_seq_recvd c \<noteq> s \<and> p = packet_type_code data_packet, c6, io6) }"
    unfolding process_header_def Let_def sh prod.case up_shift.simps
    using q'(1)[folded c2_def]
    by (simp add: c4_def[symmetric] c5 needs_ack_def rr del: packet_type_code.simps)
  show ?thesis
    unfolding run using q'(2) snd by (simp add: send_ack_packet_def)
qed

subsection \<open>Any packet\<close>

lemma extend_sequence_ge:
  assumes k: "unat bs = k" "k < 32" and p: "unat partial < 2 ^ k" and b: "unat base + 2 ^ k \<le> 2 ^ 32"
  shows "base \<le> extend_sequence bs base partial"
proof -
  define B low P where defs: "B = unat base" "low = B mod 2 ^ k" "P = unat partial"
  have low: "low \<le> B" "low < 2 ^ k" by (simp_all add: defs)
  have neg: "- push_bit k 1 = (NOT (mask k) :: uint32)"
    by (simp add: push_bit_eq_mult minus_exp_eq_not_mask)
  have ulow: "unat (take_bit k base) = low"
    unfolding unsigned_take_bit_eq by (simp add: defs take_bit_eq_mod)
  let ?n = "(base - take_bit k base) + partial"
  have exp: "extend_sequence bs base partial = (if ?n < base then ?n + push_bit k 1 else ?n)"
    using or_high_low[of k partial base] take_bit_small[OF p]
    by (simp only: extend_sequence_def Let_def k(1) neg)
  have sub: "unat (base - take_bit k base) = B - low"
    using low by (simp add: unat_sub word_le_nat_alt ulow defs(1))
  have un: "unat ?n = B - low + P"
    using b p by (subst unat_add_lem[THEN iffD1]) (auto simp: sub defs(1,3))
  have pw: "unat (2 ^ k :: uint32) = 2 ^ k"
    using unat_of_nat_small[of "2 ^ k", where 'a = 32] power_strict_increasing[OF k(2), of "2::nat"] by simp
  show ?thesis
  proof (cases "?n < base")
    case True
    then have lt: "B - low + P < B" using un by (simp add: word_less_nat_alt defs(1))
    then have "unat (?n + 2 ^ k) = B - low + P + 2 ^ k"
      using b pw un by (subst unat_add_lem[THEN iffD1]) (auto simp: defs(1))
    then have "base \<le> ?n + 2 ^ k" using low by (simp add: word_le_nat_alt defs(1)[symmetric])
    then show ?thesis using True unfolding exp by (simp add: push_bit_eq_mult)
  next
    case False
    then show ?thesis unfolding exp by simp
  qed
qed

lemma int_bits_onto: "length xs \<le> 32 \<Longrightarrow> \<exists>v :: uint32. xs = int_bits (length xs) v \<and> unat v < 2 ^ length xs"
proof (intro exI conjI)
  let ?v = "horner_sum of_bool 2 xs :: uint32"
  assume len: "length xs \<le> 32"
  then show "xs = int_bits (length xs) ?v"
    by (intro nth_equalityI) (simp_all add: int_bits_def bit_horner_sum_bit_word_iff)
  have "take_bit (length xs) ?v = ?v"
    by (rule bit_word_eqI) (auto simp: bit_simps bit_horner_sum_bit_word_iff)
  then have "unat ?v = take_bit (length xs) (unat ?v)" by (metis unsigned_take_bit_eq)
  then show "unat ?v < 2 ^ length xs" by (metis take_bit_nat_less_exp)
qed

lemma take_bit_bound: "take_bit k (v :: uint32) = v \<Longrightarrow> unat v < 2 ^ k"
  by (metis unsigned_take_bit_eq take_bit_nat_less_exp)

lemma zeros_gbit: "i < 32 \<Longrightarrow> \<not> gbit [0, 0, 0, 0] i"
proof -
  assume "i < 32"
  have z: "[0, 0, 0, 0] = replicate 4 (0 :: byte)" by (simp add: numeral_eq_Suc)
  have "i div 8 < 4" using \<open>i < 32\<close> by simp
  then show ?thesis unfolding z gbit_def by (simp only: nth_replicate) simp
qed

lemma read_integer_bound:
  assumes wf: "stream_wf st" and w: "unat w \<le> 32" and r: "read_integer w st = Some (v, st')"
  shows "unat v < 2 ^ unat w"
proof (cases "unat w \<le> room st")
  case True
  let ?xs = "take (unat w) (rbits st)"
  have len: "length ?xs = unat w" using True by simp
  obtain u :: uint32 where "?xs = int_bits (unat w) u" using int_bits_onto[of ?xs] len w by metis
  then have "rbits st = int_bits (unat w) u @ drop (unat w) (rbits st)" by (metis append_take_drop_id)
  from read_integer_rbits[OF wf this w] r have "v = take_bit (unat w) u" by auto
  then show ?thesis by (intro take_bit_bound) simp
next
  case False
  let ?d = "copy_ref [0, 0, 0, 0] 0 (base_ptr st) (unat (bit_num st)) (room st)"
  have lt: "room st < unat w" using False by simp
  have "v = u32_of_bytes ?d"
    using r read_bits_short[OF wf lt, of 0 "[0, 0, 0, 0]"] lt w by (auto simp: read_integer_def)
  moreover have "t < unat w" if "gbit ?d t" "t < 32" for t
    using that zeros_gbit[of t] lt by (cases "t < room st") (auto simp: gbit_copy_ref)
  ultimately have "take_bit (unat w) v = v"
    by (intro bit_word_eqI) (auto simp: bit_simps bit_u32_of_bytes)
  then show ?thesis by (rule take_bit_bound)
qed

lemma read_ack_words_total:
  assumes wf: "stream_wf st" and abc: "unat abc \<le> 4"
  shows "\<exists>w st'. read_ack_words abc (drop_bit 2 (abc + 3)) [0..<unat (drop_bit 2 (abc + 3))] [m] st = Some ([w], st')
     \<and> reads_from st st'"
proof (cases "abc = 0")
  case True
  then show ?thesis using wf by (simp add: ack_word_count reads_from_refl)
next
  case False
  have "unat (abc * 8) \<le> 32" using abc by (simp add: ack_word_count(3)[OF abc])
  from read_integer_total[OF wf this] False show ?thesis by (auto simp: ack_word_count[OF abc])
qed

text \<open>The first byte of a packet: the type, the low bits of the sequence number and the flag.\<close>

lemma read_first_byte:
  assumes wf: "stream_wf st" and room: "8 \<le> room st" and flag: "gbit (base_ptr st) (unat (bit_num st) + 7)"
  shows "\<exists>p s st1 st2 st3. read_integer 2 st = Some (p, st1) \<and> read_integer 5 st1 = Some (s, st2)
     \<and> read_bool st2 = Some (True, st3) \<and> unat p < 4 \<and> unat s < 32 \<and> reads_from st st3"
proof -
  let ?xs = "rbits st"
  have len: "length ?xs = room st" by simp
  have "?xs ! 7" using flag room by (simp add: rbits_def room_def)
  then have "?xs = take 7 ?xs @ True # drop 8 ?xs" using id_take_nth_drop[of 7 ?xs] len room by simp
  then have split: "?xs = take 2 ?xs @ take 5 (drop 2 ?xs) @ True # drop 8 ?xs"
    using take_add[of 2 5 ?xs] by simp
  obtain p :: uint32 where p: "take 2 ?xs = int_bits 2 p" "unat p < 4" using int_bits_onto[of "take 2 ?xs"] len room by auto
  obtain s :: uint32 where s: "take 5 (drop 2 ?xs) = int_bits 5 s" "unat s < 32"
    using int_bits_onto[of "take 5 (drop 2 ?xs)"] len room by auto
  obtain st1 where s1: "read_integer 2 st = Some (take_bit 2 p, st1)" "stream_wf st1" "base_ptr st1 = base_ptr st" "same_frame st st1"
    "rbits st1 = int_bits 5 s @ True # drop 8 ?xs"
    using read_integer_rbits[OF wf, of 2 p] split p s by auto
  obtain st2 where s2: "read_integer 5 st1 = Some (take_bit 5 s, st2)" "stream_wf st2" "base_ptr st2 = base_ptr st1" "same_frame st1 st2"
    "rbits st2 = True # drop 8 ?xs"
    using read_integer_rbits[OF s1(2), of 5 s] s1(5) by auto
  obtain st3 where s3: "read_bool st2 = Some (True, st3)" using read_bool_rbits[OF s2(2,5)] by blast
  have "reads_from st st1" "reads_from st1 st2" "reads_from st2 st3"
    using read_integer_total[OF wf, of 2] read_integer_total[OF s1(2), of 5] read_bool_total[OF s2(2)] s1(1) s2(1) s3 by auto
  then have "reads_from st st3" by (blast intro: reads_from_trans)
  with s1(1) s2(1) s3 p(2) s(2) take_bit_small[of p 2] take_bit_small[of s 5] show ?thesis by auto
qed

definition window_ok :: "torque_connection \<Rightarrow> bool" where
  "window_ok c \<longleftrightarrow> highest_acked_seq c \<le> last_send_seq c
     \<and> unat (last_send_seq c) - unat (highest_acked_seq c) \<le> 30"

lemma process_header_keeps:
  assumes c: "conn_wf c" "window_ok c" and s: "unat (s - last_seq_recvd c) < 32"
    and h: "highest_acked_seq c \<le> h" "h \<le> last_send_seq c" and q: "queue_holds (event_queue io) evs"
  shows "\<exists>r c' io'. process_header ecb junk p s h [w] c io = Some (r, c', io') \<and> conn_wf c' \<and> window_ok c'
     \<and> last_send_seq c' = last_send_seq c \<and> connection_index c' = connection_index c
     \<and> queue_holds (event_queue io') (evs @ notifications c h w)"
proof -
  let ?c' = "if needs_ack p (received_state p s h w c) then sent_state ecb ack_packet (received_state p s h w c)
        else received_state p s h w c"
  have "unat (h - highest_acked_seq c) \<le> 30"
    using h c(2) by (simp add: unat_sub word_le_nat_alt window_ok_def)
  then have "unat (h - highest_acked_seq c) \<le> 32" by simp
  from process_header_spec[OF c(1) s this q, of ecb junk p w] obtain io' where
    "process_header ecb junk p s h [w] c io = Some (last_seq_recvd c \<noteq> s \<and> p = packet_type_code data_packet, ?c', io')"
    "queue_holds (event_queue io') (evs @ notifications c h w)" by blast
  moreover have "conn_wf ?c'" using c(1) by (simp add: received_state_wf sent_state_wf)
  moreover have "window_ok ?c'"
    using c(2) h by (auto simp: window_ok_def word_le_nat_alt word_less_nat_alt)
  moreover have "last_send_seq ?c' = last_send_seq c" "connection_index ?c' = connection_index c" by simp_all
  ultimately show ?thesis by blast
qed

text \<open>The states a packet can leave the connection in: only the cipher's counter may have moved,
  or the header was processed with numbers inside the windows.\<close>

lemma read_packet_header_total:
  assumes wf: "stream_wf st" "whole_bytes st" and room: "8 \<le> room st" and flag: "gbit (base_ptr st) (unat (bit_num st) + 7)"
    and c: "conn_wf c" "window_ok c" and wrap: "unat (last_send_seq c) + 1024 \<le> 2 ^ 32"
    and q: "queue_holds (event_queue io) evs"
  shows "\<exists>r st' c' io' ns. read_packet_header ecb junk m st c io = Some (r, st', c', io')
     \<and> reads_from st st' \<and> conn_wf c' \<and> window_ok c' \<and> last_send_seq c' = last_send_seq c
     \<and> queue_holds (event_queue io') (evs @ ns)
     \<and> connection_index c' = connection_index c"
proof -
  obtain p sl st1 st2 st3 where f: "read_integer 2 st = Some (p, st1)" "read_integer 5 st1 = Some (sl, st2)"
    "read_bool st2 = Some (True, st3)" "unat p < 4" "reads_from st st3"
    using read_first_byte[OF wf(1) room flag] by blast
  obtain sh st4 where f4: "read_integer (sequence_number_bit_size - 5) st3 = Some (sh, st4)" "reads_from st3 st4"
    using read_integer_total[of st3 6] f(5) by (auto simp: sequence_number_bit_size_def reads_from_def)
  obtain al st5 where f5: "read_integer ack_sequence_number_bit_size st4 = Some (al, st5)" "reads_from st4 st5" "unat al < 2 ^ 10"
    using read_integer_total[of st4 10] read_integer_bound[of st4 10] f4(2)
    by (fastforce simp: ack_sequence_number_bit_size_def reads_from_def)
  have pad: "read_integer packet_header_pad_bits st5 = Some (0, st5)"
    by (simp add: pad_bits_0 read_integer_def read_bits_def u32_of_bytes_def)
  obtain abc st7 where f7: "read_ranged_uint32 0 max_ack_byte_count st5 = Some (abc, st7)" "reads_from st5 st7"
    using read_ranged_total[of st5 0 max_ack_byte_count] f5(2) ack_range_bits by (auto simp: reads_from_def)
  define sq where "sq = extend_sequence sequence_number_bit_size (last_seq_recvd c) (sl OR push_bit 5 sh)"
  define h where "h = extend_sequence ack_sequence_number_bit_size (highest_acked_seq c) al"
  have r5: "reads_from st st5" "reads_from st st7"
    using f(5) f4(2) f5(2) f7(2) by (blast intro: reads_from_trans)+
  have keep: ?thesis if "read_packet_header ecb junk m st c io = Some (False, st', c\<lparr>tc_cipher := x\<rparr>, io)" "reads_from st st'" for st' x
    using that c q by (auto simp: conn_wf_def window_ok_def intro!: exI[of _ "[]"])
  consider "max_packet_window_size - 1 < sq - last_seq_recvd c" | "\<not> max_packet_window_size - 1 < sq - last_seq_recvd c" "last_send_seq c < h"
    | "\<not> max_packet_window_size - 1 < sq - last_seq_recvd c" "\<not> last_send_seq c < h"
        "max_ack_byte_count < abc \<or> packet_type_code invalid_packet_type \<le> p"
    | "\<not> max_packet_window_size - 1 < sq - last_seq_recvd c" "\<not> last_send_seq c < h"
        "\<not> (max_ack_byte_count < abc \<or> packet_type_code invalid_packet_type \<le> p)" by blast
  then show ?thesis
  proof cases
    case 1
    then show ?thesis
      using keep[of st5 "tc_cipher c"] f f4(1) f5(1) pad r5 by (simp add: read_packet_header_def sq_def Let_def)
  next
    case 2
    then show ?thesis
      using keep[of st5 "tc_cipher c"] f f4(1) f5(1) pad r5 by (simp add: read_packet_header_def sq_def h_def Let_def)
  next
    case 3
    then show ?thesis
      using keep[of st7 "map_option (setup_counter ecb sq h p 0) (tc_cipher c)"] f f4(1) f5(1) f7(1) pad r5
      by (simp add: read_packet_header_def sq_def h_def Let_def del: packet_type_code.simps)
  next
    case 4
    let ?c = "c\<lparr>tc_cipher := map_option (setup_counter ecb sq h p 0) (tc_cipher c)\<rparr>"
    have abc: "unat abc \<le> 4" using 4(3) by (simp add: word_less_nat_alt header_constants push_bit_eq_mult)
    obtain w st8 where f8: "read_ack_words abc (drop_bit 2 (abc + 3)) [0..<unat (drop_bit 2 (abc + 3))] [m] st7 = Some ([w], st8)"
      "reads_from st7 st8"
      using read_ack_words_total[OF _ abc, of st7 m] r5(2) by (auto simp: reads_from_def)
    have r8: "reads_from st st8" using r5(2) f8(2) by (rule reads_from_trans)
    then have wb: "stream_wf st8" "whole_bytes st8" using wf(2) by (simp_all add: reads_from_def whole_bytes_def)
    have sw: "unat (sq - last_seq_recvd ?c) < 32"
      using 4(1) by (simp add: word_less_nat_alt header_constants push_bit_eq_mult)
    have lo: "highest_acked_seq c \<le> h" unfolding h_def
      using c(2) wrap f5(3) by (intro extend_sequence_ge) (auto simp: ack_sequence_number_bit_size_def window_ok_def word_le_nat_alt)
    have "conn_wf ?c" "window_ok ?c" using c by (simp_all add: conn_wf_def window_ok_def)
    from process_header_keeps[OF this sw _ _ q, of h ecb junk p w] lo 4(2) obtain r c' io' where
      ph: "process_header ecb junk p sq h [w] ?c io = Some (r, c', io')" "conn_wf c'" "window_ok c'"
        "last_send_seq c' = last_send_seq c" "connection_index c' = connection_index c"
        "queue_holds (event_queue io') (evs @ notifications ?c h w)" by (auto simp: not_less)
    have "reads_from st (advance_to_next_byte st8)"
      using r8 advance_to_next_byte_wf(5)[OF wb] by (rule reads_from_trans)
    moreover have "read_packet_header ecb junk m st c io = Some (r, advance_to_next_byte st8, c', io')"
      using 4 f f4(1) f5(1) f7(1) f8(1) pad ph(1)
      by (simp add: read_packet_header_def sq_def h_def Let_def max_ack_mask_size_def del: packet_type_code.simps)
    ultimately show ?thesis using ph(2-6) by blast
  qed
qed

lemma read_raw_packet_total:
  assumes "stream_wf st" "whole_bytes st" "8 \<le> room st" "gbit (base_ptr st) (unat (bit_num st) + 7)"
    and "conn_wf c" "window_ok c" "unat (last_send_seq c) + 1024 \<le> 2 ^ 32" "queue_holds (event_queue io) evs"
  shows "\<exists>r c' io' ns. read_raw_packet ecb junk m rnd st c io = Some (r, c', io')
     \<and> conn_wf c' \<and> window_ok c' \<and> last_send_seq c' = last_send_seq c \<and> queue_holds (event_queue io') (evs @ ns)"
proof (cases "simulated_packet_loss c \<noteq> 0 \<and> rnd < simulated_packet_loss c")
  case True
  then show ?thesis using assms(5-8) by (auto simp: read_raw_packet_def intro!: exI[of _ "[]"])
next
  case False
  obtain r st' c' io' ns where h: "read_packet_header ecb junk m st c io = Some (r, st', c', io')"
    "reads_from st st'" "conn_wf c'" "window_ok c'" "last_send_seq c' = last_send_seq c" "queue_holds (event_queue io') (evs @ ns)"
    using read_packet_header_total[OF assms, of ecb junk m] by blast
  show ?thesis
  proof (cases r)
    case False
    then show ?thesis using h \<open>\<not> (simulated_packet_loss c \<noteq> 0 \<and> _)\<close> by (auto simp: read_raw_packet_def)
  next
    case True
    have wf: "stream_wf st'" and e: "bit_end st' = bit_end st" using h(2) by (simp_all add: reads_from_def)
    note w = stream_wfD[OF wf]
    obtain k where k: "unat (bit_end st') = 8 * k" using assms(2) e by (auto simp: whole_bytes_def)
    have sz: "unat (get_stream_byte_size st') = k" using round_up_aligned[OF k] by (simp add: get_stream_byte_size_def)
    have pos: "unat (get_byte_position st') = unat (bit_num st') div 8" by (simp add: get_byte_position_def unat_drop3)
    have "unat (bit_num st') div 8 \<le> k" using w(1) k by linarith
    then have "unat (get_stream_byte_size st' - get_byte_position st') = k - unat (bit_num st') div 8"
      using sz pos by (simp add: unat_sub word_le_nat_alt)
    then have le: "unat (get_stream_byte_size st' - get_byte_position st') \<le> length (base_ptr st') - unat (get_byte_position st')"
      using w(2) k pos by simp
    let ?f = "\<lambda>e. e\<lparr>ev_packet_sequence := Some (last_seq_recvd c'), ev_connection := connection_index c',
        ev_data_size := get_stream_byte_size st' - get_byte_position st',
        ev_data := Some (take (unat (get_stream_byte_size st' - get_byte_position st')) (drop (unat (get_byte_position st')) (base_ptr st')))\<rparr>"
    obtain q' where "post_with torque_connection_packet_event_type 0 ?f (event_queue io') = Some q'"
      "queue_holds q' ((evs @ ns) @ [?f (new_event torque_connection_packet_event_type 0)])"
      using post_with_holds[OF h(6), of torque_connection_packet_event_type 0 ?f] by blast
    then show ?thesis
      using h True \<open>\<not> (simulated_packet_loss c \<noteq> 0 \<and> _)\<close> le by (auto simp: read_raw_packet_def Let_def)
  qed
qed

subsection \<open>From sender to receiver\<close>

definition packet_event :: "uint32 \<Rightarrow> uint32 \<Rightarrow> byte list \<Rightarrow> torque_socket_event" where
  "packet_event index seq bytes = (new_event torque_connection_packet_event_type 0)
     \<lparr>ev_packet_sequence := Some seq, ev_connection := index, ev_data_size := word_of_nat (length bytes), ev_data := Some bytes\<rparr>"

text \<open>After the header of a datagram the cursor stands at its payload.\<close>

lemma payload_position:
  assumes n: "unat n = length (hdr @ bytes)" "8 * length (hdr @ bytes) < 2 ^ 32"
    and st: "stream_wf st'" "base_ptr st' = hdr @ bytes @ tail" "bit_end st' = bit_end (make_stream ((hdr @ bytes) @ tail) n)"
      "rbits st' = drop k (byte_bits hdr) @ byte_bits bytes"
    and k: "8 * (length hdr - 1) < k" "k \<le> 8 * length hdr"
  shows "drop (unat (get_byte_position (advance_to_next_byte st'))) (base_ptr (advance_to_next_byte st')) = bytes @ tail"
    and "unat (get_stream_byte_size (advance_to_next_byte st') - get_byte_position (advance_to_next_byte st')) = length bytes"
proof -
  note w = stream_wfD[OF st(1)]
  have e: "unat (bit_end st') = 8 * length (hdr @ bytes)" using make_stream_tail(5)[OF n, of tail] st(3) by simp
  then have wb: "whole_bytes st'" by (simp add: whole_bytes_def)
  have "room st' = 8 * length hdr - k + 8 * length bytes" using arg_cong[OF st(4), of length] by simp
  then have pos: "unat (bit_num st') = k" using w(1) e k by (simp add: room_def)
  note adv = advance_to_next_byte_wf[OF st(1) wb]
  have "(k + 7) div 8 = length hdr" using k by linarith
  then have bp: "unat (get_byte_position (advance_to_next_byte st')) = length hdr"
    using adv(2) pos by (simp add: get_byte_position_def unat_drop3)
  then show "drop (unat (get_byte_position (advance_to_next_byte st'))) (base_ptr (advance_to_next_byte st')) = bytes @ tail"
    using adv(3) st(2) by simp
  have "unat (get_stream_byte_size (advance_to_next_byte st')) = length (hdr @ bytes)"
    using adv(4) e round_up_aligned[of "bit_end st'"] by (simp add: get_stream_byte_size_def)
  with bp show "unat (get_stream_byte_size (advance_to_next_byte st') - get_byte_position (advance_to_next_byte st')) = length bytes"
    by (simp add: unat_sub word_le_nat_alt)
qed

text \<open>What the receiver of a data packet keeps.\<close>

definition same_end :: "torque_connection \<Rightarrow> torque_connection \<Rightarrow> bool" where
  "same_end c c' \<longleftrightarrow> conn_wf c' \<and> window_ok c' \<and> last_send_seq c' = last_send_seq c \<and> connection_index c' = connection_index c
     \<and> tc_address c' = tc_address c \<and> simulated_packet_loss c' = simulated_packet_loss c \<and> simulated_latency c' = simulated_latency c"

definition same_acks :: "torque_connection \<Rightarrow> torque_connection \<Rightarrow> bool" where
  "same_acks c c' \<longleftrightarrow> ack_mask c' = ack_mask c \<and> last_recv_ack_ack c' = last_recv_ack_ack c"

lemma process_data_header:
  assumes "conn_wf c" "window_ok c" "unat (s - last_seq_recvd c) < 32" "last_seq_recvd c \<noteq> s" "highest_acked_seq c \<le> h" "h \<le> last_send_seq c"
    and "queue_holds (event_queue io) evs"
  shows "\<exists>c' io'. process_header ecb junk 0 s h [w] c io = Some (True, c', io') \<and> last_seq_recvd c' = s
     \<and> highest_acked_seq c' = h \<and> same_end c c' \<and> same_acks (received_state 0 s h w c) c'
     \<and> queue_holds (event_queue io') (evs @ notifications c h w)"
proof -
  have "unat (h - highest_acked_seq c) \<le> 32" using assms(2,5,6) by (simp add: unat_sub word_le_nat_alt window_ok_def)
  from process_header_spec[OF assms(1,3) this assms(7), of ecb junk 0 w] assms(4) obtain c' io' where
    c': "process_header ecb junk 0 s h [w] c io = Some (True, c', io')" "queue_holds (event_queue io') (evs @ notifications c h w)"
      "c' = (if needs_ack 0 (received_state 0 s h w c) then sent_state ecb ack_packet (received_state 0 s h w c) else received_state 0 s h w c)"
    by auto
  obtain r c'' io'' where "process_header ecb junk 0 s h [w] c io = Some (r, c'', io'')" "conn_wf c''" "window_ok c''"
    using process_header_keeps[OF assms(1-3,5-7), of ecb junk 0 w] by blast
  then have "conn_wf c'" "window_ok c'" using c'(1) by simp_all
  moreover have "tc_address c' = tc_address c" "simulated_packet_loss c' = simulated_packet_loss c" "simulated_latency c' = simulated_latency c"
    by (simp_all add: c'(3) received_state_def keep_alive_def sent_state_def after_header_def Let_def)
  ultimately have "same_end c c'" "same_acks (received_state 0 s h w c) c'" using c'(3) by (simp_all add: same_end_def same_acks_def)
  then show ?thesis using c' by (intro exI[of _ c'] exI[of _ io']) simp
qed

lemma header_flag:
  assumes "take (27 + 8 * unat abc) (byte_bits hdr) = header_bits p s a abc w" "hdr \<noteq> []"
  shows "bit (hd hdr) 7"
proof -
  have "byte_bits hdr ! 7 = header_bits p s a abc w ! 7" by (simp add: assms(1)[symmetric])
  also have "\<dots>" by (simp add: header_bits_def nth_append)
  finally have "gbit hdr 7" using assms(2) by (cases hdr) (simp_all add: byte_bits_def bslice_def nth_append)
  then show ?thesis using assms(2) by (cases hdr) (simp_all add: gbit_def)
qed

lemma data_packet_arrives:
  assumes c: "conn_wf c" "\<not> window_full c" and k: "unat k = length bytes" "length bytes \<le> 1528"
    and d: "conn_wf d" "window_ok d" "simulated_packet_loss d = 0" and q: "queue_holds (event_queue io2) evs"
    and s: "0 < unat (last_send_seq c + 1 - last_seq_recvd d)" "unat (last_send_seq c + 1 - last_seq_recvd d) < 32"
    and a: "highest_acked_seq d \<le> last_seq_recvd c" "last_seq_recvd c \<le> last_send_seq d"
  shows "\<exists>pkt. send_packet ecb junk data_packet bytes k c io
         = Some (last_send_seq c + 1, sent_state ecb data_packet c, emit c pkt io)
     \<and> length pkt \<le> 1536 \<and> pkt \<noteq> [] \<and> bit (hd pkt) 7
     \<and> (\<forall>tail. \<exists>d' io2' w. read_raw_packet ecb' junk' m rnd (make_stream (pkt @ tail) (word_of_nat (length pkt))) d io2 = Some (True, d', io2')
     \<and> last_seq_recvd d' = last_send_seq c + 1 \<and> highest_acked_seq d' = last_seq_recvd c \<and> same_end d d' \<and> same_acks (received_state 0 (last_send_seq c + 1) (last_seq_recvd c) w d) d'
     \<and> (ack_byte_count c \<noteq> 0 \<longrightarrow> w = take_bit (8 * unat (ack_byte_count c)) (hd (ack_mask c)))
     \<and> queue_holds (event_queue io2') (evs @ notifications d (last_seq_recvd c) w
         @ [packet_event (connection_index d) (last_send_seq c + 1) bytes]))"
proof -
  let ?abc = "ack_byte_count c" and ?s = "last_send_seq c + 1" and ?a = "last_seq_recvd c"
  have abc: "unat ?abc \<le> 4" using c(1) ack_byte_count_le[of c] by (simp add: conn_wf_def)
  obtain hdr where hdr: "send_packet ecb junk data_packet bytes k c io = Some (?s, sent_state ecb data_packet c, emit c (hdr @ bytes) io)"
    "length hdr = 4 + unat ?abc" "take (27 + 8 * unat ?abc) (byte_bits hdr) = connection_header data_packet c"
    using send_data_packet[OF c k(1), of ecb junk io] k(2) abc by auto
  have "hdr \<noteq> []" using hdr(2) by auto
  with header_flag[OF hdr(3)[unfolded connection_header_def]] have flag: "bit (hd (hdr @ bytes)) 7"
    by (simp add: after_header_def)
  have len: "length (hdr @ bytes) \<le> 1536" using hdr(2) abc k(2) by simp
  have arrives: "\<exists>d' io2' w. read_raw_packet ecb' junk' m rnd (make_stream ((hdr @ bytes) @ tail) (word_of_nat (length (hdr @ bytes)))) d io2 = Some (True, d', io2')
     \<and> last_seq_recvd d' = last_send_seq c + 1 \<and> highest_acked_seq d' = last_seq_recvd c \<and> same_end d d' \<and> same_acks (received_state 0 (last_send_seq c + 1) (last_seq_recvd c) w d) d'
     \<and> (ack_byte_count c \<noteq> 0 \<longrightarrow> w = take_bit (8 * unat (ack_byte_count c)) (hd (ack_mask c)))
     \<and> queue_holds (event_queue io2') (evs @ notifications d (last_seq_recvd c) w
         @ [packet_event (connection_index d) (last_send_seq c + 1) bytes])" for tail
  proof -
    let ?pkt = "hdr @ bytes" and ?n = "word_of_nat (length (hdr @ bytes)) :: uint32"
    have n: "unat ?n = length ?pkt" "8 * length ?pkt < 2 ^ 32"
      using unat_of_nat_small[of "length ?pkt", where 'a = 32] len by auto
    note ms = make_stream_tail[OF n, of tail]
    have r: "rbits (make_stream (?pkt @ tail) ?n) = header_bits 0 ?s ?a ?abc (hd (ack_mask c))
        @ drop (27 + 8 * unat ?abc) (byte_bits hdr) @ byte_bits bytes"
      using ms(2) hdr(3) append_take_drop_id[of "27 + 8 * unat ?abc" "byte_bits hdr"]
      by (simp add: connection_header_def after_header_def)
    have "unat (?a - highest_acked_seq d) \<le> 30" using a d(2) by (simp add: unat_sub word_le_nat_alt window_ok_def)
    then have aw: "unat (?a - highest_acked_seq d) < 1024" by simp
    define w where "w = (if ?abc = 0 then m else take_bit (8 * unat ?abc) (hd (ack_mask c)))"
    let ?d = "d\<lparr>tc_cipher := map_option (setup_counter ecb' ?s ?a 0 0) (tc_cipher d)\<rparr>"
    from read_packet_header_exact[OF ms(1) r _ abc s(2) aw a(2), of ecb' junk' m io2] obtain st' where
      st': "read_packet_header ecb' junk' m (make_stream (?pkt @ tail) ?n) d io2 = (do {
         (r, c', io') \<leftarrow> process_header ecb' junk' 0 ?s ?a [w] ?d io2; Some (r, advance_to_next_byte st', c', io') })"
      "stream_wf st'" "base_ptr st' = hdr @ bytes @ tail" "bit_end st' = bit_end (make_stream (?pkt @ tail) ?n)"
      "rbits st' = drop (27 + 8 * unat ?abc) (byte_bits hdr) @ byte_bits bytes"
      using ms(7) by (auto simp: w_def)
    have "8 * (length hdr - 1) < 27 + 8 * unat ?abc" "27 + 8 * unat ?abc \<le> 8 * length hdr" by (simp_all add: hdr(2))
    note pay = payload_position[OF n st'(2-5) this]
    have "conn_wf ?d" "window_ok ?d" using d(1,2) by (simp_all add: conn_wf_def window_ok_def)
    moreover have "last_seq_recvd ?d \<noteq> ?s" using s(1) by auto
    ultimately obtain d' io' where ph: "process_header ecb' junk' 0 ?s ?a [w] ?d io2 = Some (True, d', io')"
      "last_seq_recvd d' = ?s" "highest_acked_seq d' = ?a" "same_end d d'" "same_acks (received_state 0 ?s ?a w d) d'"
      "queue_holds (event_queue io') (evs @ notifications d ?a w)"
      using process_data_header[of ?d ?s ?a io2 evs ecb' junk' w] q s(2) a
      by (auto simp: notifications_def same_end_def same_acks_def received_state_def keep_alive_def Let_def)
    then have ix: "connection_index d' = connection_index d" by (simp add: same_end_def)
    obtain io2' where post: "post_with torque_connection_packet_event_type 0 (\<lambda>e. e\<lparr>ev_packet_sequence := Some ?s,
        ev_connection := connection_index d, ev_data_size := word_of_nat (length bytes), ev_data := Some bytes\<rparr>) (event_queue io') = Some io2'"
      "queue_holds io2' ((evs @ notifications d ?a w) @ [packet_event (connection_index d) ?s bytes])"
      using post_with_holds[OF ph(6), of torque_connection_packet_event_type 0 "\<lambda>e. e\<lparr>ev_packet_sequence := Some ?s,
        ev_connection := connection_index d, ev_data_size := word_of_nat (length bytes), ev_data := Some bytes\<rparr>"]
      by (auto simp: packet_event_def)
    have sz: "get_stream_byte_size (advance_to_next_byte st') - get_byte_position (advance_to_next_byte st') = word_of_nat (length bytes)"
      by (rule word_eq_of_nat) (rule pay(2))
    have lp: "length (base_ptr (advance_to_next_byte st')) - unat (get_byte_position (advance_to_next_byte st')) = length bytes + length tail"
      using pay(1) by (metis length_append length_drop)
    have small: "unat (word_of_nat (length bytes) :: uint32) = length bytes"
      using k(2) unat_of_nat_small[of "length bytes", where 'a = 32] by simp
    have "read_raw_packet ecb' junk' m rnd (make_stream (?pkt @ tail) ?n) d io2 = Some (True, d', io'\<lparr>event_queue := io2'\<rparr>)"
      using st'(1) ph ix post(1) pay(1) d(3) small by (simp add: read_raw_packet_def Let_def sz lp)
    then show ?thesis using ph post(2) by (intro exI[of _ d'] exI[of _ "io'\<lparr>event_queue := io2'\<rparr>"] exI[of _ w]) (simp add: w_def)
  qed
  show ?thesis using hdr(1) len flag \<open>hdr \<noteq> []\<close> arrives by (intro exI[of _ "hdr @ bytes"]) simp
qed

subsection \<open>Properties\<close>

text \<open>A connection fresh from its constructor, on zeroed memory.\<close>

definition blank_connection :: torque_connection where
  "blank_connection = \<lparr>tc_address = address_of_name addr_any 0, connection_index = 0, is_initiator = False, initiator_nonce = 0,
     host_nonce = 0, shared_secret = None, tc_cipher = None, last_seq_recvd_at_send = replicate 32 0, last_seq_recvd = 0,
     highest_acked_seq = 0, last_send_seq = 0, ack_mask = [0], last_recv_ack_ack = 0, initial_send_seq = 0, initial_recv_seq = 0,
     ping_timeout = 0, ping_retry_count = 0, ping_send_count = 0, last_ping_send_time = 0, simulated_latency = 0,
     simulated_packet_loss = 0\<rparr>"

definition blank_io :: socket_io where
  "blank_io = \<lparr>event_queue = empty_queue, sent = [], send_packet_list = [], process_start_time = 0\<rparr>"

definition fresh_connection :: "uint32 \<Rightarrow> uint32 \<Rightarrow> torque_connection" where
  "fresh_connection send recv = set_initial_recv_sequence recv (new_connection blank_connection 7 send 1 True)"

lemma fresh_connection_ok:
  "conn_wf (fresh_connection s r)" "window_ok (fresh_connection s r)" "\<not> window_full (fresh_connection s r)"
  "last_send_seq (fresh_connection s r) = s" "last_seq_recvd (fresh_connection s r) = r" "highest_acked_seq (fresh_connection s r) = s"
  "simulated_packet_loss (fresh_connection s r) = 0" "connection_index (fresh_connection s r) = 1" "ack_byte_count (fresh_connection s r) = 0"
  by (simp_all add: fresh_connection_def set_initial_recv_sequence_def new_connection_def blank_connection_def conn_wf_def
      window_ok_def window_full_def header_constants push_bit_eq_mult ack_byte_count_def drop_bit_eq_div)

lemma blank_io_queue: "queue_holds (event_queue blank_io) []"
  by (simp add: blank_io_def)

text \<open>C9. A packet carries 11 bits of its sequence number and 10 bits of the acknowledged one; the receiver
  recovers the full 32-bit numbers exactly whenever they lie less than a window above its own
  counters, also across the wrap of the counters.\<close>

theorem sequence_numbers_exact:
  assumes "unat (s - recvd) < 2048" "unat (a - acked) < 1024"
  shows "extend_sequence sequence_number_bit_size recvd (take_bit 11 s) = s
     \<and> extend_sequence ack_sequence_number_bit_size acked (take_bit 10 a) = a"
  using assms extend_sequence_exact[of sequence_number_bit_size 11 s recvd]
    extend_sequence_exact[of ack_sequence_number_bit_size 10 a acked]
  by (simp add: sequence_number_bit_size_def ack_sequence_number_bit_size_def)

theorem sequence_numbers_exact_witness:
  "extend_sequence sequence_number_bit_size 0xFFFFFFF0 (take_bit 11 5) = 5
     \<and> extend_sequence ack_sequence_number_bit_size 0x3FE (take_bit 10 0x401) = 0x401"
  by (rule sequence_numbers_exact) simp_all

text \<open>C5. A data packet from sender to receiver: sent with the window open and received in order or after losses
  of up to 30 packets, it is accepted; the receiver posts the notifications its acknowledgements call for
  and then one packet event with the sender's sequence number and exactly the sender's payload, whatever the receive buffer held behind
  the datagram, and both ends agree on the sequence numbers.\<close>

theorem data_packet_delivered:
  assumes "conn_wf c" "\<not> window_full c" and "unat k = length bytes" "length bytes \<le> 1528"
    and "conn_wf d" "window_ok d" "simulated_packet_loss d = 0" and "queue_holds (event_queue io2) evs"
    and "0 < unat (last_send_seq c + 1 - last_seq_recvd d)" "unat (last_send_seq c + 1 - last_seq_recvd d) < 32"
    and "highest_acked_seq d \<le> last_seq_recvd c" "last_seq_recvd c \<le> last_send_seq d"
  shows "\<exists>pkt. send_packet ecb junk data_packet bytes k c io
         = Some (last_send_seq c + 1, sent_state ecb data_packet c, emit c pkt io)
     \<and> length pkt \<le> 1536
     \<and> (\<forall>tail. \<exists>d' io2' w. read_raw_packet ecb' junk' m rnd (make_stream (pkt @ tail) (word_of_nat (length pkt))) d io2 = Some (True, d', io2')
     \<and> last_seq_recvd d' = last_send_seq c + 1 \<and> highest_acked_seq d' = last_seq_recvd c \<and> same_end d d'
     \<and> (ack_byte_count c \<noteq> 0 \<longrightarrow> w = take_bit (8 * unat (ack_byte_count c)) (hd (ack_mask c)))
     \<and> queue_holds (event_queue io2') (evs @ notifications d (last_seq_recvd c) w
         @ [packet_event (connection_index d) (last_send_seq c + 1) bytes]))"
  using data_packet_arrives[OF assms, of ecb junk io ecb' junk' m rnd] by meson

theorem data_packet_delivered_witness:
  "\<exists>pkt. send_packet (\<lambda>k b. b) (\<lambda>_. 0) data_packet [1, 2, 3] 3 (fresh_connection 99 50) blank_io
         = Some (100, sent_state (\<lambda>k b. b) data_packet (fresh_connection 99 50), emit (fresh_connection 99 50) pkt blank_io)
     \<and> length pkt \<le> 1536
     \<and> (\<exists>d' io2' w. read_raw_packet (\<lambda>k b. b) (\<lambda>_. 0) 0 0 (make_stream (pkt @ [7, 7]) (word_of_nat (length pkt))) (fresh_connection 50 99) blank_io = Some (True, d', io2')
     \<and> last_seq_recvd d' = 100 \<and> highest_acked_seq d' = 50
     \<and> queue_holds (event_queue io2') ([] @ notifications (fresh_connection 50 99) 50 w @ [packet_event 1 100 [1, 2, 3]]))"
  using data_packet_delivered[of "fresh_connection 99 50" 3 "[1, 2, 3]" "fresh_connection 50 99" blank_io "[]"
      "\<lambda>k b. b" "\<lambda>_. 0" blank_io "\<lambda>k b. b" "\<lambda>_. 0" 0 0] blank_io_queue
  by (fastforce simp: fresh_connection_ok)

text \<open>C6. Hostile packets: whatever bytes follow a first byte with the high bit set, \<^verbatim>\<open>read_raw_packet\<close>
  ends without leaving a buffer, indexing its acknowledgement word or its window array out of range or
  failing an assertion, the connection stays well formed with at most 30 packets outstanding, its send
  counter is untouched, and events are only appended.  The send counter is assumed not to be within 1024
  of its wrap, \<open>last_send_seq + 1024 \<le> 2 ^ 32\<close>: it starts at a random value, and nearer to the wrap the comparison of the
  highest acknowledgement with it is meaningless, so that a packet may index the acknowledgement word out of range.\<close>

theorem any_packet_safe:
  assumes "bytes \<noteq> []" "bit (hd bytes) 7" "8 * length bytes < 2 ^ 32"
    and "conn_wf c" "window_ok c" "unat (last_send_seq c) + 1024 \<le> 2 ^ 32" "queue_holds (event_queue io) evs"
  shows "\<exists>r c' io' ns. read_raw_packet ecb junk m rnd (make_stream (bytes @ tail) (word_of_nat (length bytes))) c io = Some (r, c', io')
     \<and> conn_wf c' \<and> window_ok c' \<and> last_send_seq c' = last_send_seq c \<and> queue_holds (event_queue io') (evs @ ns)"
proof -
  have n: "unat (word_of_nat (length bytes) :: uint32) = length bytes"
    using assms(3) unat_of_nat_small[of "length bytes", where 'a = 32] by simp
  note ms = make_stream_tail[OF n assms(3), of tail]
  have "gbit (bytes @ tail) 7" using assms(1,2) by (cases bytes) (simp_all add: gbit_def)
  moreover have "8 \<le> 8 * length bytes" using assms(1) by (cases bytes) simp_all
  ultimately show ?thesis using read_raw_packet_total[OF ms(1,3)] ms assms(4-7) by simp
qed

theorem any_packet_safe_witness:
  "\<exists>r c' io' ns. read_raw_packet (\<lambda>k b. b) (\<lambda>_. 0) 0 0 (make_stream ([0xFF, 0xFF, 1, 2] @ [3]) (word_of_nat (length [0xFF :: byte, 0xFF, 1, 2])))
       (fresh_connection 50 99) blank_io = Some (r, c', io')
     \<and> conn_wf c' \<and> window_ok c' \<and> last_send_seq c' = 50 \<and> queue_holds (event_queue io') ([] @ ns)"
  using any_packet_safe[of "[0xFF, 0xFF, 1, 2]" "fresh_connection 50 99" blank_io "[]" "\<lambda>k b. b" "\<lambda>_. 0" 0 0 "[3]"] blank_io_queue
  by (simp add: fresh_connection_ok bit_numeral_rec)

text \<open>Near the wrap: with the packets up to \<open>0xFFFFFFF0\<close> acknowledged and a few more sent, an acknowledgement of \<open>0x100\<close> is extended past zero, which is
  not above the send counter, and the first notification reads the ninth word of the one-word mask.\<close>

lemma wrapped_ack_traps:
  assumes "highest_acked_seq c = 0xFFFFFFF0" "last_send_seq c = 0xFFFFFFF5" "length pk_ack_mask = 1"
  shows "extend_sequence ack_sequence_number_bit_size (highest_acked_seq c) 0x100 = 0x100" "\<not> last_send_seq c < 0x100"
    "process_header ecb junk ty pk_sequence_number 0x100 pk_ack_mask c io = None"
proof -
  show "extend_sequence ack_sequence_number_bit_size (highest_acked_seq c) 0x100 = 0x100" unfolding assms(1) by code_simp
  show "\<not> last_send_seq c < 0x100" using assms(2) by simp
  have "notify_loop 272 0 0x100 pk_ack_mask d q = None" if "highest_acked_seq d = 0xFFFFFFF0" for d q
  proof -
    have "(272 :: nat) = Suc 271" by simp
    then show ?thesis using that assms(3) by (simp only: notify_loop.simps) (simp add: drop_bit_eq_div load_def Let_def)
  qed
  then show "process_header ecb junk ty pk_sequence_number 0x100 pk_ack_mask c io = None"
    using assms(1) by (simp add: process_header_def Let_def split_beta)
qed

text \<open>C10. The send window: while fewer than 30 packets are outstanding a data packet of any size is sent under the
  next sequence number and the bound is kept; with 30 outstanding the send stops the program at its assertion.
  \<^verbatim>\<open>TorqueSocket_API.txt\<close> promises a failure code in this case, and when the operating system does not take the packet, whose
  answer the code drops.  The send counter is assumed not to wrap with this packet.\<close>

theorem send_window:
  assumes "conn_wf c" "window_ok c" "unat (last_send_seq c) + 1 < 2 ^ 32" "unat k \<le> length bytes"
  shows "if last_send_seq c - highest_acked_seq c < 30
    then \<exists>c' io'. send_packet ecb junk data_packet bytes k c io = Some (last_send_seq c + 1, c', io')
      \<and> last_send_seq c' = last_send_seq c + 1 \<and> conn_wf c' \<and> window_ok c'
    else send_packet ecb junk data_packet bytes k c io = None"
proof -
  have full: "window_full c \<longleftrightarrow> \<not> last_send_seq c - highest_acked_seq c < 30"
    by (simp add: window_full_def header_constants push_bit_eq_mult not_less)
  show ?thesis
  proof (cases "window_full c")
    case True
    then show ?thesis unfolding full by (simp add: send_packet_def write_packet_header_def True)
  next
    case False
    have "unat (last_send_seq c) - unat (highest_acked_seq c) < 30"
      using False full assms(2) by (simp add: word_less_nat_alt unat_sub window_ok_def)
    moreover have "unat (last_send_seq c + 1) = unat (last_send_seq c) + 1"
      using assms(3) by (subst unat_add_lem[THEN iffD1]) auto
    ultimately have "window_ok (sent_state ecb data_packet c)"
      using assms(2) by (simp add: window_ok_def word_le_nat_alt)
    moreover have "last_send_seq (after_header data_packet c) = last_send_seq c + 1" by (simp add: after_header_def)
    ultimately show ?thesis
      using False full send_packet_total[OF assms(1) _ assms(4), of data_packet ecb junk io] sent_state_wf[OF assms(1)]
      by auto
  qed
qed

theorem send_window_witness:
  "\<exists>c' io'. send_packet (\<lambda>k b. b) (\<lambda>_. 0) data_packet [1] 1 (fresh_connection 50 99) blank_io = Some (51, c', io')
      \<and> last_send_seq c' = 51 \<and> conn_wf c' \<and> window_ok c'"
  using send_window[of "fresh_connection 50 99" 1 "[1]" "\<lambda>k b. b" "\<lambda>_. 0" blank_io] by (simp add: fresh_connection_ok)

text \<open>C7. Notifications: a packet that acknowledges up to \<open>h\<close> posts exactly one notification for each data packet sent
  after the last acknowledged one up to \<open>h\<close>, in the order they were sent, each saying delivered exactly if
  the bit for its sequence number is set in the packet's acknowledgement word; afterwards \<open>h\<close> is the last
  acknowledged packet, so no packet is reported twice.\<close>

theorem notifications_in_order:
  assumes "conn_wf c" "unat (s - last_seq_recvd c) < 32" "unat (h - highest_acked_seq c) \<le> 32" "queue_holds (event_queue io) evs"
  shows "\<exists>r c' io' ns. process_header ecb junk p s h [w] c io = Some (r, c', io') \<and> highest_acked_seq c' = h
     \<and> queue_holds (event_queue io') (evs @ ns) \<and> length ns = unat (h - highest_acked_seq c)
     \<and> (\<forall>j < length ns. ev_event_type (ns ! j) = torque_connection_packet_notify_event_type
          \<and> ev_packet_sequence (ns ! j) = Some (highest_acked_seq c + 1 + word_of_nat j)
          \<and> ev_delivered (ns ! j) = Some (bit w (unat (h - (highest_acked_seq c + 1 + word_of_nat j)))))"
proof -
  have idx: "unat (h - (highest_acked_seq c + 1 + word_of_nat j)) = unat (h - highest_acked_seq c) - 1 - j"
    if "j < unat (h - highest_acked_seq c)" for j
  proof -
    have u: "unat (word_of_nat (Suc j) :: uint32) = Suc j"
      using that assms(3) unat_of_nat_small[of "Suc j", where 'a = 32] by simp
    have "h - (highest_acked_seq c + 1 + word_of_nat j) = (h - highest_acked_seq c) - word_of_nat (Suc j)" by simp
    then show ?thesis using that u by (simp only: unat_sub word_le_nat_alt)
  qed
  from process_header_spec[OF assms, of ecb junk p w] obtain io' where ph:
    "process_header ecb junk p s h [w] c io = Some (last_seq_recvd c \<noteq> s \<and> p = packet_type_code data_packet,
       (if needs_ack p (received_state p s h w c) then sent_state ecb ack_packet (received_state p s h w c)
        else received_state p s h w c), io')" "queue_holds (event_queue io') (evs @ notifications c h w)" by blast
  have "highest_acked_seq (if needs_ack p (received_state p s h w c) then sent_state ecb ack_packet (received_state p s h w c)
        else received_state p s h w c) = h" by simp
  moreover have "length (notifications c h w) = unat (h - highest_acked_seq c)" by (simp add: notifications_def Let_def)
  moreover have "\<forall>j < unat (h - highest_acked_seq c).
      ev_event_type (notifications c h w ! j) = torque_connection_packet_notify_event_type
      \<and> ev_packet_sequence (notifications c h w ! j) = Some (highest_acked_seq c + 1 + word_of_nat j)
      \<and> ev_delivered (notifications c h w ! j) = Some (bit w (unat (h - (highest_acked_seq c + 1 + word_of_nat j))))"
    using idx by (simp add: notifications_def Let_def notify_event_def new_event_def)
  ultimately show ?thesis using ph by metis
qed

theorem notifications_in_order_witness:
  "\<exists>r c' io' ns. process_header (\<lambda>k b. b) (\<lambda>_. 0) 0 100 52 [1] ((fresh_connection 50 99)\<lparr>last_send_seq := 53\<rparr>) blank_io = Some (r, c', io')
     \<and> highest_acked_seq c' = 52 \<and> queue_holds (event_queue io') ([] @ ns) \<and> length ns = 2
     \<and> ev_delivered (ns ! 0) = Some False \<and> ev_delivered (ns ! 1) = Some True"
proof -
  let ?c = "(fresh_connection 50 99)\<lparr>last_send_seq := 53\<rparr>"
  have "conn_wf ?c" using fresh_connection_ok(1)[of 50 99] by (simp add: conn_wf_def)
  then obtain r c' io' ns where ns: "process_header (\<lambda>k b. b) (\<lambda>_. 0) 0 100 52 [1] ?c blank_io = Some (r, c', io')"
    "highest_acked_seq c' = 52" "queue_holds (event_queue io') ([] @ ns)" "length ns = 2"
    "\<forall>j < 2. ev_delivered (ns ! j) = Some (bit (1 :: uint32) (unat ((52 :: uint32) - (51 + word_of_nat j))))"
    using notifications_in_order[of ?c 100 52 blank_io "[]" "\<lambda>k b. b" "\<lambda>_. 0" 0 1] blank_io_queue
    by (auto simp: fresh_connection_ok)
  show ?thesis using ns(1-4) ns(5)[rule_format, of 0] ns(5)[rule_format, of 1] by (auto simp: bit_1_iff)
qed

text \<open>C8. The acknowledgement word after a packet with sequence number \<open>s\<close>: bit 0 says whether it was a data packet
  (or was already set for \<open>s\<close>), the packets lost in between have a clear bit, and every older bit has moved
  up by the distance.\<close>

theorem ack_mask_records:
  assumes "conn_wf c" "unat (s - last_seq_recvd c) < 32" "unat (h - highest_acked_seq c) \<le> 32" "queue_holds (event_queue io) evs"
  shows "\<exists>r c' io' m. process_header ecb junk p s h [w] c io = Some (r, c', io') \<and> ack_mask c' = [m] \<and> last_seq_recvd c' = s
     \<and> (\<forall>i < 32. bit m i \<longleftrightarrow> i = 0 \<and> p = packet_type_code data_packet
          \<or> unat (s - last_seq_recvd c) \<le> i \<and> bit (hd (ack_mask c)) (i - unat (s - last_seq_recvd c)))"
  using process_header_spec[OF assms, of ecb junk p w]
  by (auto simp: bit_simps)

theorem ack_mask_records_witness:
  "\<exists>r c' io' m. process_header (\<lambda>k b. b) (\<lambda>_. 0) 0 102 50 [0] (fresh_connection 50 99) blank_io = Some (r, c', io')
     \<and> ack_mask c' = [m] \<and> last_seq_recvd c' = 102
     \<and> (\<forall>i < 32. bit m i \<longleftrightarrow> i = 0 \<and> (0 :: uint32) = packet_type_code data_packet
          \<or> 3 \<le> i \<and> bit (hd (ack_mask (fresh_connection 50 99))) (i - 3))"
  using ack_mask_records[of "fresh_connection 50 99" 102 50 blank_io "[]" "\<lambda>k b. b" "\<lambda>_. 0" 0 0] blank_io_queue
  by (simp add: fresh_connection_ok)

text \<open>A packet whose sequence number was already seen, for instance a data packet overtaken by a ping that carried
  its number, is not handed to the client, yet it is marked as received in the acknowledgement word, so its
  sender will be told that it was delivered.\<close>

theorem repeated_sequence_acknowledged:
  assumes "conn_wf c" "unat (h - highest_acked_seq c) \<le> 32" "queue_holds (event_queue io) evs"
  shows "\<exists>c' io' m. process_header ecb junk (packet_type_code data_packet) (last_seq_recvd c) h [w] c io = Some (False, c', io')
     \<and> ack_mask c' = [m] \<and> bit m 0 \<and> last_seq_recvd c' = last_seq_recvd c"
  using process_header_spec[OF assms(1) _ assms(2,3), of "last_seq_recvd c" ecb junk "packet_type_code data_packet" w]
  by (auto simp: bit_simps)

theorem repeated_sequence_acknowledged_witness:
  "\<exists>c' io' m. process_header (\<lambda>k b. b) (\<lambda>_. 0) (packet_type_code data_packet) 99 50 [0] (fresh_connection 50 99) blank_io = Some (False, c', io')
     \<and> ack_mask c' = [m] \<and> bit m 0 \<and> last_seq_recvd c' = 99"
  using repeated_sequence_acknowledged[of "fresh_connection 50 99" 50 blank_io "[]" "\<lambda>k b. b" "\<lambda>_. 0" 0] blank_io_queue
  by (simp add: fresh_connection_ok)

end
