(* ===== verification/Handshake.thy ===== *)
theory Handshake
  imports Packet_Bytes Connection_Header
begin

text \<open>
  The connection handshake between two sockets: what each packet of it contains, what its receiver does with it, and
  that the packets together establish a connection whose two ends agree.
\<close>

subsection \<open>The packets\<close>

definition challenge_request_bytes :: "nonce \<Rightarrow> nonce \<Rightarrow> byte list" where
  "challenge_request_bytes i h = [0] @ bytes_of_u64 i @ bytes_of_u64 h"

definition challenge_response_bytes :: "nonce \<Rightarrow> uint32 \<Rightarrow> nonce \<Rightarrow> uint32 \<Rightarrow> byte_buffer \<Rightarrow> byte_buffer \<Rightarrow> byte list" where
  "challenge_response_bytes i token h d pub response =
     [1] @ bytes_of_u64 i @ bytes_of_u32 token @ bytes_of_u64 h @ bytes_of_u32 d @ buffer_image pub @ buffer_image response"

definition connect_request_head :: "nonce \<Rightarrow> nonce \<Rightarrow> uint32 \<Rightarrow> uint32 \<Rightarrow> uint32 \<Rightarrow> byte_buffer \<Rightarrow> byte list" where
  "connect_request_head i h token d solution pub =
     [3] @ bytes_of_u64 i @ bytes_of_u64 h @ bytes_of_u32 token @ bytes_of_u32 d @ bytes_of_u32 solution @ buffer_image pub"

definition connect_request_body :: "byte list \<Rightarrow> uint32 \<Rightarrow> byte_buffer \<Rightarrow> byte list" where
  "connect_request_body key seq data = key @ bytes_of_u32 seq @ buffer_image data"

definition connect_accept_head :: "nonce \<Rightarrow> nonce \<Rightarrow> byte list" where
  "connect_accept_head i h = [4] @ bytes_of_u64 i @ bytes_of_u64 h"

lemmas packet_layouts = challenge_request_bytes_def challenge_response_bytes_def connect_request_head_def
  connect_request_body_def connect_accept_head_def

definition with_sent :: "address \<Rightarrow> byte list \<Rightarrow> ('s, 'k) torque_socket \<Rightarrow> ('s, 'k) torque_socket" where
  "with_sent a pkt s = s\<lparr>ts_io := send_to a pkt (ts_io s)\<rparr>"

lemma transmit_built: "built st bs \<Longrightarrow> transmit st a s = Some (with_sent a bs s)"
  by (simp add: transmit_def built_datagram with_sent_def)

lemma succeeds_eq: "succeeds m (\<lambda>x. x = y) \<longleftrightarrow> m = Some y"
  by (auto simp: succeeds_def)

lemma length_buffer_image: "length (buffer_image b) = 4 + length (data_ptr b)"
  by (simp add: buffer_image_def)

lemmas build_rules = u8b.build u32b.build u64b.build bbb.build write_bytes_build
lemmas start_rules = u8b.build[OF built_packet_stream] u64b.build[OF built_packet_stream]

lemma send_challenge_request_sends:
  assumes "pending_heap s p = Some pc"
  shows "send_challenge_request U p s
     = Some (with_sent (pc_address pc) (challenge_request_bytes (pc_initiator_nonce pc) (pc_host_nonce pc)) s)"
  unfolding send_challenge_request_def assms bind.bind_lunit succeeds_eq[symmetric]
  by (rule start_rules, simp, simp, (rule build_rules, assumption, simp, simp)+) (simp add: transmit_built packet_layouts)

lemma send_connect_challenge_response_sends:
  assumes "socket_key s = Some k" "public_key k = Some pub" "challenge_response s = Some response"
    and "buffer_exact pub" "buffer_exact response" "length (data_ptr pub) + length (data_ptr response) \<le> 1503"
  shows "send_connect_challenge_response K U a i s
     = Some (with_sent a (challenge_response_bytes i (compute_client_identity_token K a i s)
         (current_nonce (puzzle_manager s)) (current_difficulty (puzzle_manager s)) pub response) s)"
  unfolding send_connect_challenge_response_def assms(1,3) bind.bind_lunit succeeds_eq[symmetric] assms(2)
  by (insert assms(4-6), rule start_rules, simp, simp, (rule build_rules, assumption, simp, simp add: length_buffer_image)+)
     (simp add: transmit_built packet_layouts)

text \<open>A key and a response that do not fit together are cut at the end of the packet.\<close>

lemma send_connect_challenge_response_cut:
  assumes "socket_key s = Some k" "public_key k = Some pub" "challenge_response s = Some response"
    and "buffer_exact pub" "buffer_exact response" "length (data_ptr pub) \<le> 1503"
    and "1503 < length (data_ptr pub) + length (data_ptr response)" "8 * length (data_ptr response) < 2 ^ 32"
  shows "send_connect_challenge_response K U a i s
     = Some (with_sent a (take 1536 (challenge_response_bytes i (compute_client_identity_token K a i s)
         (current_nonce (puzzle_manager s)) (current_difficulty (puzzle_manager s)) pub response)) s)"
  unfolding send_connect_challenge_response_def assms(1,3) bind.bind_lunit succeeds_eq[symmetric] assms(2)
  apply (insert assms(4-), rule start_rules, simp, simp, (rule build_rules, assumption, simp, (simp add: length_buffer_image; fail))+)
  apply (rule byte_buffer_cut_build, assumption, assumption)
  apply (simp_all add: length_buffer_image)
  apply (subst transmit_built, assumption)
  apply (simp add: packet_layouts length_buffer_image)
  done

lemma cipher_of_secret_exists: "\<exists>c. cipher_of_secret ecb (Some b) = Some c"
  by (simp add: cipher_of_secret_def)

lemma send_connect_request_sends:
  assumes "pending_heap s p = Some pc" "pc_private_key pc = Some priv" "public_key priv = Some pub" "pc_packet_data pc = Some data"
    and "buffer_exact pub" "buffer_exact data" "length (pc_symmetric_key pc) = 16"
    and "length (data_ptr pub) + length (data_ptr data) \<le> 1470" "digest_law (cr_sha256 K)"
    and "cipher_of_secret (cr_ecb K) (pc_shared_secret pc) = Some c"
  shows "send_connect_request K U p s = Some (with_sent (pc_address pc)
     (let pre = connect_request_head (pc_initiator_nonce pc) (pc_host_nonce pc) (pc_client_identity pc) (pc_puzzle_difficulty pc)
            (pc_puzzle_solution pc) pub
      in pre @ sealed K c pre (connect_request_body (pc_symmetric_key pc) (pc_initial_send_sequence pc) data)) s)"
  unfolding send_connect_request_def assms(1,2,4,10) bind.bind_lunit succeeds_eq[symmetric] assms(3) Let_def
  apply (insert assms(5-9), rule start_rules, simp, simp, (rule build_rules, assumption, simp, simp add: length_buffer_image)+)
  apply (simp only: built_aligned)
  apply (rule write_bytes_build, assumption, simp add: key_size_def, simp add: length_buffer_image)
  apply ((rule build_rules, assumption, simp, simp add: length_buffer_image)+)
  apply (rule seal_build[where pre = "connect_request_head (pc_initiator_nonce pc) (pc_host_nonce pc) (pc_client_identity pc) (pc_puzzle_difficulty pc)
            (pc_puzzle_solution pc) pub" and plain = "connect_request_body (pc_symmetric_key pc) (pc_initial_send_sequence pc) data"])
  apply (simp add: packet_layouts)
  apply assumption
  apply (simp add: packet_layouts length_buffer_image)
  apply (simp add: packet_layouts built_pos(5))
  apply (simp add: transmit_def with_sent_def)
  done

lemma send_connect_accept_sends:
  assumes "deref_connection p s = Some d" "tc_cipher d = Some sc" "length (get_init_vector sc) = 16" "digest_law (cr_sha256 K)"
    and "cipher_of_secret (cr_ecb K) (shared_secret d) = Some c"
  shows "send_connect_accept K U p s = Some (with_sent (tc_address d)
     (let pre = connect_accept_head (initiator_nonce d) (host_nonce d)
      in pre @ sealed K c pre (bytes_of_u32 (initial_send_seq d) @ get_init_vector sc)) s)"
  unfolding send_connect_accept_def assms(1,2,5) bind.bind_lunit succeeds_eq[symmetric] Let_def
  apply (insert assms(3,4), rule start_rules, simp, simp, (rule build_rules, assumption, simp, simp)+)
  apply (simp only: built_aligned)
  apply (rule build_rules, assumption, simp, simp)
  apply (rule write_bytes_build, assumption, simp add: key_size_def, simp)
  apply (rule seal_build[where pre = "connect_accept_head (initiator_nonce d) (host_nonce d)"
        and plain = "bytes_of_u32 (initial_send_seq d) @ get_init_vector sc"])
  apply (simp add: packet_layouts)
  apply assumption
  apply (simp add: packet_layouts)
  apply (simp add: packet_layouts built_pos(5))
  apply (simp add: transmit_def with_sent_def)
  done

subsection \<open>Dispatch\<close>

text \<open>A datagram as it reaches the socket, and a handshake packet at its handler.\<close>

definition receive :: "('s, 'k) crypto \<Rightarrow> 'k uninit \<Rightarrow> address \<Rightarrow> byte list \<Rightarrow> ('s, 'k) torque_socket \<Rightarrow> ('s, 'k) torque_socket option" where
  "receive K U a pkt s = process_packet K U a (set_from_buffer (u_bytes U) pkt) s"

fun handler :: "packet_type \<Rightarrow> ('s, 'k) crypto \<Rightarrow> 'k uninit \<Rightarrow> address \<Rightarrow> bit_stream \<Rightarrow> ('s, 'k) torque_socket \<Rightarrow> ('s, 'k) torque_socket option" where
  "handler connect_challenge_request_packet K U = handle_connect_challenge_request K U"
| "handler connect_challenge_response_packet K U = handle_connect_challenge_response K U"
| "handler connect_reject_packet K U = handle_connect_reject K U"
| "handler connect_request_packet K U = handle_connect_request K U"
| "handler connect_accept_packet K U = handle_connect_accept K U"
| "handler disconnect_packet K U = handle_disconnect K U"
| "handler introduced_connection_request_packet K U = handle_introduction_request U"
| "handler connection_introduction_packet K U = handle_introduction U"
| "handler punch_packet K U = handle_punch U"

lemma receive_dispatch:
  assumes "length rest < 1536"
  shows "\<exists>r tail. reading r [packet_byte t] rest tail \<and> receive K U a (packet_byte t # rest) s = handler t K U a r s"
proof -
  let ?ty = "packet_byte t"
  let ?st = "set_from_buffer (u_bytes U) (?ty # rest)" and ?tail = "map (u_bytes U) [Suc (length rest)..<1536]"
  have r: "reading ?st [] ([?ty] @ rest) ?tail" using set_from_buffer_reading[of "?ty # rest" "u_bytes U"] assms(1) by simp
  have "succeeds (read_u8 (u_byte U) ?st \<bind> (\<lambda>(r, v, st'). Some (r, v, st'))) (\<lambda>(r, v, st'). v = ?ty \<and> reading st' [?ty] rest ?tail)"
    by (rule u8b.parse[OF r]) simp_all
  then obtain b r' where r': "read_u8 (u_byte U) ?st = Some (b, ?ty, r')" "reading r' [?ty] rest ?tail"
    by (auto simp: succeeds_def split: Option.bind_splits)
  moreover have "load (base_ptr ?st) 0 = Some ?ty" using r by (simp add: reading_def)
  moreover have "?ty AND 0x80 = 0" "\<not> first_valid_info_packet_id \<le> ?ty"
    by (cases t; simp add: first_valid_info_packet_id_def word_le_nat_alt)+
  ultimately have "receive K U a (?ty # rest) s = handler t K U a r' s"
    by (cases t) (simp_all add: receive_def process_packet_def)
  with r'(2) show ?thesis by blast
qed

subsection \<open>Keys\<close>

text \<open>A public key in a buffer the other side can load, a key pair of size \<open>n\<close>, and the secret two pairs share.\<close>

definition public_buffer :: "('s, 'k) ecc \<Rightarrow> ('k \<Rightarrow> 'k) \<Rightarrow> 'k \<Rightarrow> uint32 \<Rightarrow> byte_buffer \<Rightarrow> bool" where
  "public_buffer E pub key n b \<longleftrightarrow> (\<exists>e. b = buffer_of (key_type_public # write_uint32_to_buffer n @ e)
     \<and> ecc_import E e = Some (pub key) \<and> length e \<le> 2043)"

definition key_pair :: "('s, 'k) ecc \<Rightarrow> ('k \<Rightarrow> 'k) \<Rightarrow> 'k \<Rightarrow> uint32 \<Rightarrow> byte_buffer \<Rightarrow> 'k asymmetric_key \<Rightarrow> bool" where
  "key_pair E pub key n b k \<longleftrightarrow> key_data k = Some key \<and> ak_key_size k = n \<and> has_private_key k
     \<and> public_key k = Some b \<and> public_buffer E pub key n b \<and> own_key E n key"

definition common_secret :: "('s, 'k) crypto \<Rightarrow> ('k \<Rightarrow> 'k) \<Rightarrow> 'k \<Rightarrow> 'k \<Rightarrow> byte_buffer" where
  "common_secret K pub a b = buffer_of (cr_sha256 K (the (ecc_shared_secret (cr_ecc K) a (pub b))))"

lemma common_secret_sym:
  assumes "ecc_law (cr_ecc K) pub" "own_key (cr_ecc K) n a" "own_key (cr_ecc K) n b"
  shows "common_secret K pub a b = common_secret K pub b a"
  using own_keys_share(1)[OF assms] by (simp add: common_secret_def)

lemma buffer_of_exact: "length bs < 2 ^ 32 \<Longrightarrow> buffer_exact (buffer_of bs)"
  using unat_of_nat_small[of "length bs", where 'a = 32] by (simp add: buffer_exact_def buffer_of_def)

lemma public_buffer_exact:
  assumes "public_buffer E pub key n b"
  shows "buffer_exact b"
proof -
  obtain e where e: "b = buffer_of (key_type_public # write_uint32_to_buffer n @ e)" "length e \<le> 2043"
    using assms by (auto simp: public_buffer_def)
  show ?thesis unfolding e(1) by (rule buffer_of_exact) (use e(2) in \<open>simp add: write_uint32_to_buffer_def\<close>)
qed

lemma key_parse:
  assumes "reading st pre (buffer_image b @ suf) tail" "public_buffer E pub key n b"
    and "\<And>k st'. reading st' (pre @ buffer_image b) suf tail \<Longrightarrow> key_data k = Some (pub key) \<Longrightarrow> ak_key_size k = n
       \<Longrightarrow> key_is_valid k \<Longrightarrow> public_key k = Some b \<Longrightarrow> succeeds (g k st') Q"
  shows "succeeds (key_of_stream E junk len0 mem st \<bind> (\<lambda>(k, st'). g k st')) Q"
proof -
  obtain e where e: "b = buffer_of (key_type_public # write_uint32_to_buffer n @ e)" "ecc_import E e = Some (pub key)" "length e \<le> 2043"
    using assms(2) by (auto simp: public_buffer_def)
  obtain k where k: "key_of_buffer E junk mem b = Some k" "key_data k = Some (pub key)" "ak_key_size k = n" "key_is_valid k" "public_key k = Some b"
    using load_public_key[OF e(2,3), of junk mem n] e(1) by blast
  show ?thesis
    unfolding key_of_stream_def Option.bind_assoc case_prod_beta'[symmetric]
    apply (simp add: case_prod_beta')
    apply (rule bbb.parse[OF assms(1) public_buffer_exact[OF assms(2)], where g = "\<lambda>r v st'. key_of_buffer E junk mem v \<bind> (\<lambda>k. g k st')", unfolded case_prod_beta'])
    using k assms(3) by simp
qed

lemma compute_secret:
  assumes "ecc_law (cr_ecc K) pub" "digest_law (cr_sha256 K)" "key_pair (cr_ecc K) pub a n ba k"
    and "own_key (cr_ecc K) n b" "key_data theirs = Some (pub b)" "ak_key_size theirs = n"
  shows "compute_shared_secret_key (cr_sha256 K) (cr_ecc K) junk theirs k = Some (Some (common_secret K pub a b))"
proof -
  obtain s where "ecc_shared_secret (cr_ecc K) a (pub b) = Some s"
    using own_keys_share(2)[OF assms(1) _ assms(4)] assms(3) unfolding key_pair_def by blast
  with assms(2-) show ?thesis
    by (simp add: key_pair_def compute_shared_secret_key_def buffer_from_chunk_def buffer_of_def common_secret_def digest_law_def Let_def)
qed

subsection \<open>The host answers a challenge request\<close>

definition pending_list :: "('s, 'k) torque_socket \<Rightarrow> ptr list \<Rightarrow> bool" where
  "pending_list s ps \<longleftrightarrow> chain pc_next (pending_heap s) (pending_connections s) ps"

text \<open>The first pending connection of the list is found without a walk.\<close>

lemma find_node_head: "start = Some p \<Longrightarrow> h p = Some n \<Longrightarrow> P n \<Longrightarrow> find_node nxt h P start = Some (Some p)"
  by (simp add: find_node.simps)

lemma find_node_absent:
  assumes "chain nxt h start ps" "\<And>p n. p \<in> set ps \<Longrightarrow> h p = Some n \<Longrightarrow> \<not> P n"
  shows "find_node nxt h P start = Some None"
proof -
  have "find (\<lambda>p. P (the (h p))) ps = None"
    using assms(2) chain_dom[OF assms(1)] by (auto simp: find_None_iff)
  then show ?thesis using find_node_chain[OF assms(1)] by metis
qed

lemma challenge_request_taken:
  assumes "allow_connections s" "pending_list s ps"
    and "\<forall>p \<in> set ps. \<forall>pc. pending_heap s p = Some pc \<longrightarrow> pc_state pc \<noteq> sending_punch_packets"
    and answer: "send_connect_challenge_response K U a i s = Some s'"
  shows "receive K U a (challenge_request_bytes i h) s = Some s'"
proof -
  obtain r tail where r: "reading r [0] (bytes_of_u64 i @ bytes_of_u64 h) tail"
    "receive K U a (challenge_request_bytes i h) s = handle_connect_challenge_request K U a r s"
    using receive_dispatch[of "bytes_of_u64 i @ bytes_of_u64 h" connect_challenge_request_packet K U a s]
    by (auto simp: challenge_request_bytes_def)
  have none: "find_node pc_next (pending_heap s) (\<lambda>pc. pc_state pc = sending_punch_packets \<and> pc_type pc = introduced_connection_host
      \<and> i = pc_initiator_nonce pc \<and> u_nonce U (Suc 0) = pc_host_nonce pc) (pending_connections s) = Some None"
    by (rule find_node_absent[OF assms(2)[unfolded pending_list_def]]) (use assms(3) in auto)
  show ?thesis
    unfolding r(2) handle_connect_challenge_request_def succeeds_eq[symmetric] using assms(1)
    by simp (rule u64b.parse[OF r(1)], simp, simp add: none answer)
qed

lemma challenge_request_answered:
  assumes "allow_connections s" "pending_list s ps"
    and "\<forall>p \<in> set ps. \<forall>pc. pending_heap s p = Some pc \<longrightarrow> pc_state pc \<noteq> sending_punch_packets"
    and k: "socket_key s = Some k" "key_pair (cr_ecc K) pub key n b k" "challenge_response s = Some response" "buffer_exact response"
      "length (data_ptr b) + length (data_ptr response) \<le> 1503"
  shows "receive K U a (challenge_request_bytes i h) s
     = Some (with_sent a (challenge_response_bytes i (compute_client_identity_token K a i s)
         (current_nonce (puzzle_manager s)) (current_difficulty (puzzle_manager s)) b response) s)"
proof -
  have pk: "public_key k = Some b" "buffer_exact b" using k(2) public_buffer_exact by (auto simp: key_pair_def)
  show ?thesis
    by (rule challenge_request_taken[OF assms(1-3)], rule send_connect_challenge_response_sends[OF k(1) pk(1) k(3) pk(2) k(4,5)])
qed

subsection \<open>The initiator takes the challenge\<close>

text \<open>The pending connection after a challenge response, and the event that tells the client.\<close>

definition challenged :: "('s, 'k) crypto \<Rightarrow> uint32 \<Rightarrow> nonce \<Rightarrow> uint32 \<Rightarrow> 'k asymmetric_key \<Rightarrow> 'k asymmetric_key \<Rightarrow> byte_buffer \<Rightarrow> byte list
    \<Rightarrow> time \<Rightarrow> 'k pending_connection \<Rightarrow> 'k pending_connection" where
  "challenged K token h d theirs mine secret sym_key t pc = enter_state awaiting_local_challenge_accept 0 introduction_timeout t
     (pc\<lparr>pc_client_identity := token, pc_host_nonce := h, pc_puzzle_difficulty := d, pc_public_key := Some theirs,
         pc_private_key := Some mine, pc_shared_secret := Some secret, pc_symmetric_key := sym_key\<rparr>)"

definition keyed_event :: "event_type \<Rightarrow> uint32 \<Rightarrow> byte_buffer \<Rightarrow> byte_buffer \<Rightarrow> torque_socket_event" where
  "keyed_event ty index key data = (new_event ty index)
     \<lparr>ev_key_size := buf_size key, ev_key := Some (data_ptr key), ev_data_size := buf_size data, ev_data := Some (data_ptr data)\<rparr>"

lemma post_keyed_event:
  assumes "queue_holds q evs" "buffer_exact key" "buffer_exact data"
    and "\<And>q'. queue_holds q' (evs @ [keyed_event ty index key data]) \<Longrightarrow> succeeds (g q') Q"
  shows "succeeds (post_event ty index q \<bind> (\<lambda>(event, q1). set_event_key event (data_ptr key) (buf_size key) q1
     \<bind> (\<lambda>q2. set_event_data event (data_ptr data) (buf_size data) q2 \<bind> g))) Q"
proof -
  obtain q1 where q1: "post_event ty index q = Some (eq_fresh q, q1)" "eq_events q1 (eq_fresh q) = Some (new_event ty index)"
      "\<forall>x. queue_holds (q1\<lparr>eq_events := (eq_events q1)(eq_fresh q \<mapsto> x)\<rparr>) (evs @ [x])"
    using post_event_chain[OF assms(1), of ty index] by blast
  from q1(3)[rule_format, of "keyed_event ty index key data"] q1(1,2) assms(2,3) show ?thesis
    by (simp add: set_event_key_def set_event_data_def write_event_def buffer_exact_def keyed_event_def assms(4))
qed

lemma challenge_response_received:
  assumes found: "find_pending_connection a s = Some (Some p)" "pending_heap s p = Some pc" "pc_state pc = requesting_challenge_response"
    and d: "d \<le> max_puzzle_difficulty"
    and laws: "ecc_law (cr_ecc K) pub" "digest_law (cr_sha256 K)"
    and mine: "socket_key s = Some k" "key_pair (cr_ecc K) pub ka n ba k"
    and theirs: "public_buffer (cr_ecc K) pub kb n bb" "own_key (cr_ecc K) n kb" and resp: "buffer_exact response"
    and size: "length (data_ptr bb) + length (data_ptr response) \<le> 1503" and q: "queue_holds (event_queue (ts_io s)) evs"
  shows "succeeds (receive K U a (challenge_response_bytes (pc_initiator_nonce pc) token h d bb response) s)
     (\<lambda>s'. \<exists>theirs q'. s' = set_pending p (challenged K token h d theirs k (common_secret K pub ka kb)
            (fst (random_buffer (cr_yarrow K) key_size (random_gen s))) (now s) pc)
          (set_queue q' (s\<lparr>random_gen := snd (random_buffer (cr_yarrow K) key_size (random_gen s))\<rparr>))
       \<and> queue_holds q' (evs @ [keyed_event torque_connection_challenge_response_event_type (pc_connection_index pc) bb response]))"
proof -
  let ?i = "pc_initiator_nonce pc"
  let ?rest = "bytes_of_u64 ?i @ bytes_of_u32 token @ bytes_of_u64 h @ bytes_of_u32 d @ buffer_image bb @ buffer_image response @ []"
  obtain r tail where r: "reading r [1] ?rest tail"
    "receive K U a (challenge_response_bytes ?i token h d bb response) s = handle_connect_challenge_response K U a r s"
    using receive_dispatch[of ?rest connect_challenge_response_packet K U a s] size
    by (auto simp: challenge_response_bytes_def length_buffer_image)
  have size_eq: "ak_key_size k = n" using mine(2) by (simp add: key_pair_def)
  show ?thesis
    unfolding r(2) handle_connect_challenge_response_def found(1) bind.bind_lunit option.case found(2,3)
    apply simp
    apply (rule u64b.parse[OF r(1)], simp)
    apply simp
    apply (rule u32b.parse, assumption, simp)
    apply (rule u64b.parse, assumption, simp)
    apply (rule u32b.parse, assumption, simp)
    apply (simp add: Let_def not_less[THEN iffD2, OF d])
    apply (rule key_parse[OF _ theirs(1)], assumption)
    apply (simp add: connection_key_def mine(1) size_eq compute_secret[OF laws mine(2) theirs(2)] split_beta)
    apply (rule bbb.parse_last, assumption, rule resp)
    apply (rule post_keyed_event[OF q public_buffer_exact[OF theirs(1)] resp])
    apply (auto simp: challenged_def)
    done
qed

subsection \<open>The puzzle is solved\<close>

definition request_of :: "'k pending_connection \<Rightarrow> byte_buffer" where
  "request_of pc = \<lparr>data_ptr = puzzle_request (pc_initiator_nonce pc) (pc_host_nonce pc) (pc_puzzle_difficulty pc) (pc_client_identity pc),
     buf_size = 24\<rparr>"

lemma challenge_accepted:
  assumes "find_pending_connection_id index s = Some (Some p)" "pending_heap s p = Some pc" "pc_state pc = awaiting_local_challenge_accept"
  shows "accept_connection_challenge U index s =
     Some (set_pending p (enter_state computing_puzzle_solution 0 puzzle_solution_timeout (now s)
             (pc\<lparr>pc_puzzle_request_index := current_index (puzzle_solver s)\<rparr>))
           (s\<lparr>puzzle_solver := snd (post_request (request_of pc) (puzzle_solver s))\<rparr>))"
proof -
  have chunk: "buffer_from_chunk (base_ptr st) (get_next_byte_position st) = Some (request_of pc)"
    if "built st (data_ptr (request_of pc))" for st
  proof -
    have "unat (get_next_byte_position st) = 24" "take 24 (base_ptr st) = data_ptr (request_of pc)" "24 \<le> length (base_ptr st)"
      using built_pos(4,5)[OF that] that by (simp_all add: request_of_def puzzle_request_def built_def)
    moreover from this(1) have "get_next_byte_position st = 24" by (simp add: word_unat_eq_iff)
    ultimately show ?thesis by (simp add: buffer_from_chunk_def request_of_def)
  qed
  show ?thesis
    unfolding accept_connection_challenge_def assms bind.bind_lunit option.case succeeds_eq[symmetric]
    apply (simp add: assms(3))
    apply (rule start_rules, simp, simp)
    apply ((rule build_rules, assumption, simp, simp)+)
    apply (simp add: chunk request_of_def[unfolded puzzle_request_def] puzzle_request_def post_request_def Let_def)
    done
qed

text \<open>One worker takes the request and solves it.\<close>

definition run_solver :: "(byte list \<Rightarrow> byte list) \<Rightarrow> (nat \<Rightarrow> byte) \<Rightarrow> nonce \<Rightarrow> nonce \<Rightarrow> uint32 \<Rightarrow> uint32 \<Rightarrow> thread_queue \<Rightarrow> thread_queue option" where
  "run_solver sha256 mem n0 r0 d0 i0 q = do {
     (taken, q1) \<leftarrow> take_request q;
     p \<leftarrow> taken;
     r \<leftarrow> tq_records q1 p;
     response \<leftarrow> process_request sha256 (\<lambda>_. False) mem n0 r0 d0 i0 (request_buffer r);
     complete_request p response q1 }"

lemma solver_runs:
  assumes "process_list q = []" "process_request sha256 (\<lambda>_. False) mem n0 r0 d0 i0 request = Some (Some b)"
  shows "\<exists>q' q''. run_solver sha256 mem n0 r0 d0 i0 (snd (post_request request q)) = Some q'
     \<and> get_next_result q' = Some (Some (Some b, current_index q), q'') \<and> process_list q'' = []"
  using assms by (simp add: run_solver_def post_request_def take_request_def complete_request_def get_next_result_def Let_def)

lemma send_due_queue: "event_queue (send_due rs io) = event_queue io" "process_start_time (send_due rs io) = process_start_time io"
  by (induction rs io rule: send_due.induct) (auto simp: send_to_def)

lemma solution_requests_connection:
  assumes found: "find_node pc_next (pending_heap s) (\<lambda>pc. pc_state pc = computing_puzzle_solution \<and> pc_puzzle_request_index pc = index)
        (pending_connections s) = Some (Some p)" "pending_heap s p = Some pc"
    and result: "get_next_result (puzzle_solver s) = Some (Some (Some b, index), q)" "process_list q = []"
      "contents b = bytes_of_u32 solution" "buffer_exact b"
    and quiet: "current \<le> last_timeout_check_time s + timeout_check_interval"
    and conn: "pc_private_key pc = Some priv" "public_key priv = Some pub" "pc_packet_data pc = Some data"
      "buffer_exact pub" "buffer_exact data" "length (pc_symmetric_key pc) = 16"
      "length (data_ptr pub) + length (data_ptr data) \<le> 1470" "digest_law (cr_sha256 K)"
      "cipher_of_secret (cr_ecb K) (pc_shared_secret pc) = Some c"
  shows "\<exists>m g io q'. event_queue io = event_queue (ts_io s) \<and> process_connections K U current s = Some (with_sent (pc_address pc)
     (let pre = connect_request_head (pc_initiator_nonce pc) (pc_host_nonce pc) (pc_client_identity pc) (pc_puzzle_difficulty pc) solution pub
      in pre @ sealed K c pre (connect_request_body (pc_symmetric_key pc) (pc_initial_send_sequence pc) data))
     (set_pending p (pc\<lparr>pc_puzzle_solution := solution, pc_state := requesting_connection\<rparr>)
        (s\<lparr>puzzle_manager := m, random_gen := g, ts_io := io, puzzle_solver := q'\<rparr>)))"
proof -
  obtain m g where mg: "tick (cr_yarrow K) current (puzzle_manager s) (random_gen s) = (m, g)" by fastforce
  let ?io1 = "(ts_io s)\<lparr>process_start_time := current\<rparr>"
  let ?io = "send_due (send_packet_list ?io1) ?io1"
  let ?s2 = "s\<lparr>puzzle_manager := m, random_gen := g, ts_io := ?io\<rparr>"
  let ?pc = "pc\<lparr>pc_puzzle_solution := solution, pc_state := requesting_connection\<rparr>"
  have st: "reading (make_stream (data_ptr b) (buf_size b)) [] (bytes_of_u32 solution) []"
  proof -
    have "data_ptr b = bytes_of_u32 solution" "unat (buf_size b) = 4"
      using result(3,4) arg_cong[OF result(3), of length] by (simp_all add: contents_def buffer_exact_def)
    then show ?thesis using make_stream_rbits(5-7)[of "buf_size b" "data_ptr b"] by (simp add: reading_def)
  qed
  have "succeeds (read_u32 (u_word U 0) (make_stream (data_ptr b) (buf_size b)) \<bind> (\<lambda>(r, v, st'). Some (r, v, st'))) (\<lambda>(r, v, st'). v = solution)"
    by (rule u32b.parse_last[OF st]) simp_all
  then obtain r st' where rd: "read_u32 (u_word U 0) (make_stream (data_ptr b) (buf_size b)) = Some (r, solution, st')"
    by (auto simp: succeeds_def split: Option.bind_splits)
  let ?s3 = "?s2\<lparr>puzzle_solver := q\<rparr>"
  define pkt where "pkt = (let pre = connect_request_head (pc_initiator_nonce pc) (pc_host_nonce pc) (pc_client_identity pc) (pc_puzzle_difficulty pc) solution pub
      in pre @ sealed K c pre (connect_request_body (pc_symmetric_key pc) (pc_initial_send_sequence pc) data))"
  have sent: "send_connect_request K U p (set_pending p ?pc ?s3) = Some (with_sent (pc_address pc) pkt (set_pending p ?pc ?s3))"
    using send_connect_request_sends[of "set_pending p ?pc ?s3" p ?pc priv pub data K c U] conn
    by (simp add: set_pending_def pkt_def)
  have solved: "puzzle_solved K U b index ?s3 = Some (with_sent (pc_address pc) pkt (set_pending p ?pc ?s3))"
    using found rd sent by (simp add: puzzle_solved_def)
  obtain q' where last: "get_next_result q = Some (None, q')" using result(2) by (simp add: get_next_result_def)
  have loop: "solution_loop K U ?s2 = Some (with_sent (pc_address pc) pkt (set_pending p ?pc ?s3)\<lparr>puzzle_solver := q'\<rparr>)"
    using result(1) solved last by (simp add: solution_loop.simps[of K U] with_sent_def set_pending_def)
  have "process_connections K U current s = solution_loop K U ?s2"
    using mg quiet by (simp add: process_connections_def now_def send_due_queue(2))
  then show ?thesis
    using loop by (intro exI[of _ m] exI[of _ g] exI[of _ ?io] exI[of _ q'])
      (simp add: send_due_queue(1) pkt_def with_sent_def set_pending_def)
qed

subsection \<open>The host takes the connect request\<close>

text \<open>The pending connection a host creates for a genuine request: \<open>seq\<close> is its own first sequence number, \<open>iv\<close> its vector.\<close>

definition requested :: "('s, 'k) crypto \<Rightarrow> 'k uninit \<Rightarrow> address \<Rightarrow> nonce \<Rightarrow> nonce \<Rightarrow> byte_buffer \<Rightarrow> byte list \<Rightarrow> uint32
    \<Rightarrow> uint32 \<Rightarrow> byte list \<Rightarrow> uint32 \<Rightarrow> ptr option \<Rightarrow> 'k pending_connection" where
  "requested K U a i h secret sym_key recv_seq seq iv index nxt =
     (new_pending_connection (u_pending U) connection_host i seq index)
       \<lparr>pc_symmetric_key := sym_key, pc_init_vector := iv, pc_host_nonce := h, pc_shared_secret := Some secret, pc_address := a,
        pc_initial_recv_sequence := recv_seq, pc_symmetric_cipher := Some (cipher_of_key (cr_ecb K) sym_key iv), pc_next := nxt\<rparr>"

lemma admit_new_request:
  assumes r: "reading r pre (connect_request_body sym_key recv_seq data) tail" and l: "length sym_key = 16"
    "length (pc_symmetric_key (u_pending U)) = 16" "buffer_exact data"
    and g: "random_integer (cr_yarrow K) (random_gen s) = (seq, g1)" "random_buffer (cr_yarrow K) key_size g1 = (iv, g2)"
    and q: "queue_holds (event_queue (ts_io s)) evs" and key: "public_key theirs = Some ba" "buffer_exact ba"
  shows "succeeds (admit_request K U a i h None None theirs (Some secret) r s)
     (\<lambda>s'. \<exists>q'. queue_holds q' (evs @ [keyed_event torque_connection_requested_event_type (next_connection_index s) ba data])
        \<and> s' = set_queue q' (s\<lparr>random_gen := g2, next_connection_index := next_connection_index s + 1, ts_fresh := ts_fresh s + 1,
            pending_heap := (pending_heap s)(ts_fresh s \<mapsto>
              requested K U a i h secret sym_key recv_seq seq iv (next_connection_index s) (pending_connections s)),
            pending_connections := Some (ts_fresh s)\<rparr>))"
proof -
  let ?new = "new_pending_connection (u_pending U) connection_host i seq (next_connection_index s)"
  have len: "length (pc_symmetric_key ?new) = 16" "pc_connection_index ?new = next_connection_index s"
    using l(2) by (simp_all add: new_pending_connection_def)
  show ?thesis
    unfolding admit_request_def pending_for_request_def option.case g split bind.bind_lunit Let_def
    apply (simp add: set_pending_def g(2) add_pending_connection_def key(1))
    apply (rule read_bytes_parse[where xs = sym_key and suf = "bytes_of_u32 recv_seq @ buffer_image data"])
    using r apply (simp add: connect_request_body_def)
    using l len apply (simp add: key_size_def)
    using l len apply simp
    apply (rule u32b.parse, assumption, simp)
    apply (rule bbb.parse_last, assumption, rule l(3))
    apply (simp add: len(2))
    apply (rule post_keyed_event)
    apply (rule q)
    apply (rule key(2))
    apply (rule l(3))
    apply (simp only: succeeds_Some, intro exI conjI, assumption, simp add: requested_def set_queue_def)
    done
qed

lemma connect_request_admitted:
  assumes quiet: "find_connection a s = Some None" "pending_list s ps"
      "\<forall>p \<in> set ps. \<forall>pc. pending_heap s p = Some pc \<longrightarrow> \<not> address_eq (pc_address pc) a" and allow: "allow_connections s"
    and token: "token = compute_client_identity_token K a i s"
    and puzzle: "check_solution (cr_sha256 K) solution i h d token (puzzle_manager s) = Some (success, pm)"
    and laws: "ecc_law (cr_ecc K) pub" "digest_law (cr_sha256 K)"
    and mine: "socket_key s = Some k" "key_pair (cr_ecc K) pub kb n bb k"
    and theirs: "public_buffer (cr_ecc K) pub ka n ba" "own_key (cr_ecc K) n ka"
    and c: "cipher_of_secret (cr_ecb K) (Some (common_secret K pub kb ka)) = Some c"
    and l: "length sym_key = 16" "length (pc_symmetric_key (u_pending U)) = 16" "buffer_exact data"
    and size: "length (data_ptr ba) + length (data_ptr data) \<le> 1470"
    and g: "random_integer (cr_yarrow K) (random_gen s) = (seq, g1)" "random_buffer (cr_yarrow K) key_size g1 = (iv, g2)"
    and q: "queue_holds (event_queue (ts_io s)) evs"
  shows "succeeds (receive K U a (let pre = connect_request_head i h token d solution ba
       in pre @ sealed K c pre (connect_request_body sym_key recv_seq data)) s)
     (\<lambda>s'. \<exists>q'. queue_holds q' (evs @ [keyed_event torque_connection_requested_event_type (next_connection_index s) ba data])
        \<and> s' = set_queue q' (s\<lparr>puzzle_manager := pm, random_gen := g2, next_connection_index := next_connection_index s + 1, ts_fresh := ts_fresh s + 1,
            pending_heap := (pending_heap s)(ts_fresh s \<mapsto>
              requested K U a i h (common_secret K pub kb ka) sym_key recv_seq seq iv (next_connection_index s) (pending_connections s)),
            pending_connections := Some (ts_fresh s)\<rparr>))"
proof -
  let ?pre = "connect_request_head i h token d solution ba"
  let ?box = "sealed K c ?pre (connect_request_body sym_key recv_seq data)"
  let ?rest = "bytes_of_u64 i @ bytes_of_u64 h @ bytes_of_u32 token @ bytes_of_u32 d @ bytes_of_u32 solution @ buffer_image ba @ ?box"
  have "length ?box = 29 + length (data_ptr data)"
    using length_sealed[OF laws(2)] l by (simp add: connect_request_body_def length_buffer_image)
  then obtain r tail where r: "reading r [3] ?rest tail" "receive K U a (?pre @ ?box) s = handle_connect_request K U a r s"
    using receive_dispatch[of ?rest connect_request_packet K U a s] size
    by (auto simp: connect_request_head_def length_buffer_image)
  have none: "find_pending_connection a s = Some None"
    unfolding find_pending_connection_def by (rule find_node_absent[OF quiet(2)[unfolded pending_list_def]]) (use quiet(3) in auto)
  have bx: "public_buffer (cr_ecc K) pub ka n ba \<Longrightarrow> buffer_exact ba" by (rule public_buffer_exact)
  show ?thesis
    unfolding Let_def r(2) handle_connect_request_def
    apply (rule u64b.parse[OF r(1)], simp)
    apply (rule u64b.parse, assumption, simp)
    apply (simp add: quiet(1) none allow)
    apply (rule u32b.parse, assumption, simp)
    apply (simp add: token)
    apply (rule u32b.parse, assumption, simp)
    apply (rule u32b.parse, assumption, simp)
    apply (simp add: puzzle[unfolded token] mine(1))
    apply (rule key_parse[OF _ theirs(1)], assumption)
    apply (simp add: compute_secret[OF laws mine(2) theirs(2)] c reading_wf(5))
    apply (rule open_parse[where pre = ?pre and plain = "connect_request_body sym_key recv_seq data"])
    apply (simp add: connect_request_head_def token)
    apply (rule laws(2))
    apply (simp add: reading_wf(5))
    apply simp
    apply (rule succeeds_mono, rule admit_new_request[where s = "s\<lparr>puzzle_manager := pm\<rparr>" and evs = evs and ba = ba, OF _ l _ g(2)], assumption)
    apply (simp_all add: g(1) q public_buffer_exact[OF theirs(1)])
    done
qed

subsection \<open>Both ends establish the connection\<close>

text \<open>A socket with room for one more connection, at an index and an address it does not know yet.\<close>

definition room_for :: "uint32 \<Rightarrow> address \<Rightarrow> ('s, 'k) torque_socket \<Rightarrow> bool" where
  "room_for index a s \<longleftrightarrow> ht_wf (\<lambda>k. k) (connection_id_lookup_table s) \<and> ht_wf address_hash (connection_address_lookup_table s)
     \<and> entry_count (connection_id_lookup_table s) < 2147483645 \<and> entry_count (connection_address_lookup_table s) < 2147483645
     \<and> ht_map (connection_id_lookup_table s) index = None \<and> ht_map (connection_address_lookup_table s) a = None
     \<and> (\<forall>q. connection_list s = Some q \<longrightarrow> connection_heap s q \<noteq> None)"

text \<open>The connection is in the list and found under its index and its address.\<close>

definition connected :: "torque_connection \<Rightarrow> ptr \<Rightarrow> ('s, 'k) torque_socket \<Rightarrow> bool" where
  "connected c p s \<longleftrightarrow> deref_connection p s = Some c \<and> connection_list s = Some p
     \<and> find_connection_id (connection_index c) s = Some (Some p) \<and> find_connection (tc_address c) s = Some (Some p)"

lemma add_connection_ok:
  assumes "room_for (connection_index c) (tc_address c) s"
  shows "\<exists>h t1 t2. add_connection c s = Some (ts_fresh s, s\<lparr>connection_heap := h, connection_list := Some (ts_fresh s),
        connection_id_lookup_table := t1, connection_address_lookup_table := t2, ts_fresh := ts_fresh s + 1\<rparr>)
     \<and> h (ts_fresh s) = Some \<lparr>node_connection = c, node_next = connection_list s, node_prev = None\<rparr>
     \<and> ht_lookup (\<lambda>k. k) (connection_index c) t1 = Some (Some (ts_fresh s)) \<and> ht_lookup address_hash (tc_address c) t2 = Some (Some (ts_fresh s))"
proof -
  have r: "ht_wf (\<lambda>k. k) (connection_id_lookup_table s)" "entry_count (connection_id_lookup_table s) < 2147483645"
      "ht_map (connection_id_lookup_table s) (connection_index c) = None"
      "ht_wf address_hash (connection_address_lookup_table s)" "entry_count (connection_address_lookup_table s) < 2147483645"
      "ht_map (connection_address_lookup_table s) (tc_address c) = None" "\<forall>q. connection_list s = Some q \<longrightarrow> connection_heap s q \<noteq> None"
    using assms by (simp_all add: room_for_def)
  obtain i1 t1 where t1: "ht_insert (\<lambda>k. k) (connection_index c) (ts_fresh s) (connection_id_lookup_table s) = Some (i1, t1)"
      "ht_wf (\<lambda>k. k) t1" "ht_map t1 = (ht_map (connection_id_lookup_table s))(connection_index c \<mapsto> ts_fresh s)"
    using ht_insert_map[OF r(1-3), of "ts_fresh s"] by (elim exE conjE) (rule that)
  obtain i2 t2 where t2: "ht_insert address_hash (tc_address c) (ts_fresh s) (connection_address_lookup_table s) = Some (i2, t2)"
      "ht_wf address_hash t2" "ht_map t2 = (ht_map (connection_address_lookup_table s))(tc_address c \<mapsto> ts_fresh s)"
    using ht_insert_map[OF r(4-6), of "ts_fresh s"] by (elim exE conjE) (rule that)
  obtain h where "(case connection_list s of None \<Rightarrow> Some (connection_heap s)
        | Some q \<Rightarrow> do { n \<leftarrow> connection_heap s q; Some ((connection_heap s)(q \<mapsto> n\<lparr>node_prev := Some (ts_fresh s)\<rparr>)) }) = Some h"
    using r(7) by (cases "connection_list s") auto
  then show ?thesis
    using t1 t2 ht_lookup_map[OF t1(2), of "connection_index c"] ht_lookup_map[OF t2(2), of "tc_address c"]
    by (intro exI[of _ "h(ts_fresh s \<mapsto> \<lparr>node_connection = c, node_next = connection_list s, node_prev = None\<rparr>)"]
        exI[of _ t1] exI[of _ t2]) (simp add: add_connection_def Let_def)
qed

lemma remove_first_pending:
  assumes "pending_connections s = Some p" "pending_heap s p = Some pc"
  shows "remove_pending_connection p s = Some (s\<lparr>pending_connections := pc_next pc, pending_heap := (pending_heap s)(p := None)\<rparr>)"
  using assms by (simp add: remove_pending_connection_def unlink_from.simps get_link_def set_link_def)

lemma establish:
  assumes p: "pending_connections s = Some p" "pending_heap s p = Some pc" and room: "room_for (connection_index c) (tc_address c) s"
    and q: "queue_holds (event_queue (ts_io s)) evs"
  shows "\<exists>s'. do { s1 \<leftarrow> remove_pending_connection p s; (cp, s2) \<leftarrow> add_connection c s1;
        s3 \<leftarrow> post torque_connection_established_event_type (connection_index c) s2; Some (cp, s3) } = Some (ts_fresh s, s')
     \<and> connected c (ts_fresh s) s' \<and> pending_connections s' = pc_next pc \<and> pending_heap s' = (pending_heap s)(p := None)
     \<and> queue_holds (event_queue (ts_io s')) (evs @ [new_event torque_connection_established_event_type (connection_index c)])
     \<and> sent (ts_io s') = sent (ts_io s)"
proof -
  let ?s1 = "s\<lparr>pending_connections := pc_next pc, pending_heap := (pending_heap s)(p := None)\<rparr>"
  have "room_for (connection_index c) (tc_address c) ?s1" using room by (simp add: room_for_def)
  from add_connection_ok[OF this] obtain h t1 t2 where
    add: "add_connection c ?s1 = Some (ts_fresh s, ?s1\<lparr>connection_heap := h, connection_list := Some (ts_fresh s),
        connection_id_lookup_table := t1, connection_address_lookup_table := t2, ts_fresh := ts_fresh s + 1\<rparr>)" (is "_ = Some (_, ?s2)")
    and h: "h (ts_fresh s) = Some \<lparr>node_connection = c, node_next = connection_list s, node_prev = None\<rparr>"
      "ht_lookup (\<lambda>k. k) (connection_index c) t1 = Some (Some (ts_fresh s))" "ht_lookup address_hash (tc_address c) t2 = Some (Some (ts_fresh s))"
    by auto
  obtain e q' where q': "post_event torque_connection_established_event_type (connection_index c) (event_queue (ts_io s)) = Some (e, q')"
      "queue_holds q' (evs @ [new_event torque_connection_established_event_type (connection_index c)])"
    using post_event_holds[OF q] by blast
  have "post torque_connection_established_event_type (connection_index c) ?s2 = Some (set_queue q' ?s2)"
    using q'(1) by (simp add: post_def)
  then show ?thesis
    using remove_first_pending[OF p] add q'(2) h
    by (intro exI[of _ "set_queue q' ?s2"]) (simp add: set_queue_def connected_def deref_connection_def find_connection_def find_connection_id_def)
qed

definition accepted_connection :: "'k uninit \<Rightarrow> 'k pending_connection \<Rightarrow> torque_connection" where
  "accepted_connection U pc = (set_initial_recv_sequence (pc_initial_recv_sequence pc)
      ((new_connection (u_connection U) (pc_initiator_nonce pc) (pc_initial_send_sequence pc) (pc_connection_index pc) False)
        \<lparr>tc_cipher := pc_symmetric_cipher pc, shared_secret := pc_shared_secret pc\<rparr>))
     \<lparr>host_nonce := pc_host_nonce pc, tc_address := pc_address pc\<rparr>"

definition initiated_connection :: "'k uninit \<Rightarrow> uint32 \<Rightarrow> 'k pending_connection \<Rightarrow> torque_connection" where
  "initiated_connection U recv_seq pc = (set_initial_recv_sequence recv_seq
      (new_connection (u_connection U) (pc_initiator_nonce pc) (pc_initial_send_sequence pc) (pc_connection_index pc) True))
     \<lparr>tc_address := pc_address pc, shared_secret := pc_shared_secret pc, host_nonce := pc_host_nonce pc\<rparr>"

lemmas connection_fields = accepted_connection_def initiated_connection_def set_initial_recv_sequence_def new_connection_def

lemma connection_index_new: "connection_index (set_initial_recv_sequence r (new_connection mem i seq index b)) = index"
  by (simp add: connection_fields)

lemma connection_accepted:
  assumes p: "pending_connections s = Some p" "pending_heap s p = Some pc" "pc_connection_index pc = index" "pc_state pc = awaiting_local_accept"
    and room: "room_for index (pc_address pc) s" and q: "queue_holds (event_queue (ts_io s)) evs"
    and cipher: "pc_symmetric_cipher pc = Some sc" "length (get_init_vector sc) = 16" "digest_law (cr_sha256 K)"
      "cipher_of_secret (cr_ecb K) (pc_shared_secret pc) = Some c"
  shows "succeeds (accept_connection K U index s) (\<lambda>s'. connected (accepted_connection U pc) (ts_fresh s) s' \<and> pending_connections s' = pc_next pc
     \<and> queue_holds (event_queue (ts_io s')) (evs @ [new_event torque_connection_established_event_type index])
     \<and> sent (ts_io s') = sent (ts_io s) @ [(pc_address pc, let pre = connect_accept_head (pc_initiator_nonce pc) (pc_host_nonce pc)
          in pre @ sealed K c pre (bytes_of_u32 (pc_initial_send_sequence pc) @ get_init_vector sc))])"
proof -
  let ?c = "accepted_connection U pc"
  have f: "connection_index ?c = index" "tc_address ?c = pc_address pc" "tc_cipher ?c = Some sc" "shared_secret ?c = pc_shared_secret pc"
    "initiator_nonce ?c = pc_initiator_nonce pc" "host_nonce ?c = pc_host_nonce pc" "initial_send_seq ?c = pc_initial_send_sequence pc"
    using p(3) cipher(1) by (simp_all add: connection_fields)
  obtain s' where s': "do { s1 \<leftarrow> remove_pending_connection p s; (cp, s2) \<leftarrow> add_connection ?c s1;
        s3 \<leftarrow> post torque_connection_established_event_type index s2; Some (cp, s3) } = Some (ts_fresh s, s')"
      "connected ?c (ts_fresh s) s'" "pending_connections s' = pc_next pc"
      "queue_holds (event_queue (ts_io s')) (evs @ [new_event torque_connection_established_event_type index])" "sent (ts_io s') = sent (ts_io s)"
    using establish[OF p(1,2), of ?c evs] room q f(1,2) by auto
  have send: "send_connect_accept K U (ts_fresh s) s' = Some (with_sent (pc_address pc) (let pre = connect_accept_head (pc_initiator_nonce pc) (pc_host_nonce pc)
          in pre @ sealed K c pre (bytes_of_u32 (pc_initial_send_sequence pc) @ get_init_vector sc)) s')"
    using send_connect_accept_sends[of "ts_fresh s" s' ?c sc K c U] s'(2) f cipher by (simp add: connected_def)
  have "find_pending_connection_id index s = Some (Some p)"
    using p by (simp add: find_pending_connection_id_def find_node_head)
  then have "accept_connection K U index s = do { s1 \<leftarrow> remove_pending_connection p s; (cp, s2) \<leftarrow> add_connection ?c s1;
        s3 \<leftarrow> post torque_connection_established_event_type index s2; send_connect_accept K U cp s3 }"
    using p f(1) by (simp add: accept_connection_def accepted_connection_def)
  also have "\<dots> = send_connect_accept K U (ts_fresh s) s'"
    using s'(1) by (auto split: Option.bind_splits)
  finally show ?thesis using send s' by (simp add: with_sent_def connected_def deref_connection_def find_connection_def find_connection_id_def send_to_def)
qed

lemma accept_received:
  assumes p: "pending_connections s = Some p" "pending_heap s p = Some pc" "pc_state pc = requesting_connection"
    and room: "room_for (pc_connection_index pc) (pc_address pc) s" and q: "queue_holds (event_queue (ts_io s)) evs"
    and cipher: "digest_law (cr_sha256 K)" "cipher_of_secret (cr_ecb K) (pc_shared_secret pc) = Some c" "length iv = 16"
  shows "succeeds (receive K U (pc_address pc) (let pre = connect_accept_head (pc_initiator_nonce pc) (pc_host_nonce pc)
          in pre @ sealed K c pre (bytes_of_u32 recv_seq @ iv)) s)
     (\<lambda>s'. connected (initiated_connection U recv_seq pc) (ts_fresh s) s' \<and> pending_connections s' = pc_next pc
       \<and> queue_holds (event_queue (ts_io s')) (evs @ [new_event torque_connection_established_event_type (pc_connection_index pc)])
       \<and> sent (ts_io s') = sent (ts_io s))"
proof -
  let ?c = "initiated_connection U recv_seq pc"
  let ?pre = "connect_accept_head (pc_initiator_nonce pc) (pc_host_nonce pc)"
  let ?box = "sealed K c ?pre (bytes_of_u32 recv_seq @ iv)"
  let ?rest = "bytes_of_u64 (pc_initiator_nonce pc) @ bytes_of_u64 (pc_host_nonce pc) @ ?box"
  have "length ?box = 25" using length_sealed[OF cipher(1)] cipher(3) by simp
  then obtain r tail where r: "reading r [4] ?rest tail" "receive K U (pc_address pc) (?pre @ ?box) s = handle_connect_accept K U (pc_address pc) r s"
    using receive_dispatch[of ?rest connect_accept_packet K U "pc_address pc" s]
    by (auto simp: connect_accept_head_def)
  have f: "connection_index ?c = pc_connection_index pc" "tc_address ?c = pc_address pc" by (simp_all add: connection_fields)
  obtain s' where s': "do { s1 \<leftarrow> remove_pending_connection p s; (cp, s2) \<leftarrow> add_connection ?c s1;
        s3 \<leftarrow> post torque_connection_established_event_type (pc_connection_index pc) s2; Some (cp, s3) } = Some (ts_fresh s, s')"
      "connected ?c (ts_fresh s) s'" "pending_connections s' = pc_next pc"
      "queue_holds (event_queue (ts_io s')) (evs @ [new_event torque_connection_established_event_type (pc_connection_index pc)])" "sent (ts_io s') = sent (ts_io s)"
    using establish[OF p(1,2), of ?c evs] room q f by auto
  then have all: "do { s1 \<leftarrow> remove_pending_connection p s; (cp, s2) \<leftarrow> add_connection ?c s1;
        post torque_connection_established_event_type (pc_connection_index pc) s2 } = Some s'"
    by (auto split: Option.bind_splits)
  have found: "find_pending_connection (pc_address pc) s = Some (Some p)"
    using p by (simp add: find_pending_connection_def find_node_head address_eq_def)
  show ?thesis
    unfolding Let_def r(2) handle_connect_accept_def
    apply (rule u64b.parse[OF r(1)], simp)
    apply (rule u64b.parse, assumption, simp)
    apply (simp add: found p cipher(2) reading_wf(5))
    apply (rule open_parse[where pre = ?pre and plain = "bytes_of_u32 recv_seq @ iv"])
    apply (simp add: connect_accept_head_def)
    apply (rule cipher(1))
    apply (simp add: reading_wf(5))
    apply simp
    apply (rule u32b.parse, assumption, simp)
    apply (rule read_bytes_parse_last[where xs = iv], assumption)
    using cipher(3) apply (simp add: block_size_def)
    using cipher(3) apply (simp add: block_size_def)
    using all[unfolded initiated_connection_def] s'(2-)
    apply (simp add: connection_index_new)
    done
qed

subsection \<open>The whole handshake\<close>

definition initiating :: "'k uninit \<Rightarrow> nonce \<Rightarrow> uint32 \<Rightarrow> uint32 \<Rightarrow> byte_buffer \<Rightarrow> time \<Rightarrow> address \<Rightarrow> ptr option \<Rightarrow> 'k pending_connection" where
  "initiating U i seq index data t b nxt =
     (new_pending_connection (u_pending U) connection_initiator i seq index)
       \<lparr>pc_packet_data := Some data, pc_retry_count := challenge_retry_count, pc_retry_interval := challenge_retry_time,
        pc_last_send_time := t, pc_address := b, pc_next := nxt\<rparr>"

lemma connect_sends:
  assumes "random_integer (cr_yarrow K) (random_gen s) = (seq, g1)" "random_nonce (cr_yarrow K) g1 = (i, g2)" "unat n = length bytes"
  shows "connect K U b bytes n s = Some (next_connection_index s,
     with_sent b (challenge_request_bytes i (pc_host_nonce (u_pending U)))
       (s\<lparr>random_gen := g2, next_connection_index := next_connection_index s + 1, ts_fresh := ts_fresh s + 1,
          pending_heap := (pending_heap s)(ts_fresh s \<mapsto> initiating U i seq (next_connection_index s) \<lparr>data_ptr = bytes, buf_size = n\<rparr> (now s) b (pending_connections s)),
          pending_connections := Some (ts_fresh s)\<rparr>))"
proof -
  let ?pc = "initiating U i seq (next_connection_index s) \<lparr>data_ptr = bytes, buf_size = n\<rparr> (now s) b (pending_connections s)"
  let ?s1 = "s\<lparr>random_gen := g2, next_connection_index := next_connection_index s + 1, ts_fresh := ts_fresh s + 1,
          pending_heap := (pending_heap s)(ts_fresh s \<mapsto> ?pc), pending_connections := Some (ts_fresh s)\<rparr>"
  have "start_pending K U connection_initiator bytes n (\<lambda>pc. pc\<lparr>pc_address := b\<rparr>) s = Some (ts_fresh s, ?s1)"
    using assms by (simp add: start_pending_def buffer_from_chunk_def add_pending_connection_def set_pending_def initiating_def now_def Let_def)
  moreover have "send_challenge_request U (ts_fresh s) ?s1 = Some (with_sent b (challenge_request_bytes i (pc_host_nonce (u_pending U))) ?s1)"
    using send_challenge_request_sends[of ?s1 "ts_fresh s" ?pc U] by (simp add: initiating_def new_pending_connection_def)
  ultimately show ?thesis by (simp add: connect_def)
qed

text \<open>The last packet one socket sent reaches the other, provided it was sent to its address.\<close>

definition deliver :: "('s, 'k) crypto \<Rightarrow> 'k uninit \<Rightarrow> address \<Rightarrow> ('s, 'k) torque_socket \<Rightarrow> address \<Rightarrow> ('s, 'k) torque_socket
    \<Rightarrow> ('s, 'k) torque_socket option" where
  "deliver K U from_address sender to_address receiver =
     (case last (sent (ts_io sender)) of (dest, pkt) \<Rightarrow> if dest = to_address then receive K U from_address pkt receiver else None)"

lemma deliver_with_sent: "deliver K U a (with_sent b pkt s) b r = receive K U a pkt r"
  by (simp add: deliver_def with_sent_def send_to_def)

text \<open>The initiator at address \<open>a\<close> connects to the host at address \<open>b\<close>, accepts the challenge and solves the puzzle; the
  host accepts the request.  Packets are delivered in between.\<close>

definition handshake :: "('s, 'k) crypto \<Rightarrow> 'k uninit \<Rightarrow> 'k uninit \<Rightarrow> address \<Rightarrow> address \<Rightarrow> byte list \<Rightarrow> uint32 \<Rightarrow> time
    \<Rightarrow> ('s, 'k) torque_socket \<Rightarrow> ('s, 'k) torque_socket \<Rightarrow> (('s, 'k) torque_socket \<times> ('s, 'k) torque_socket) option" where
  "handshake K U V a b bytes n t A B = do {
     (index, A1) \<leftarrow> connect K U b bytes n A;
     B1 \<leftarrow> deliver K V a A1 b B;
     A2 \<leftarrow> deliver K U b B1 a A1;
     A3 \<leftarrow> accept_connection_challenge U index A2;
     q \<leftarrow> run_solver (cr_sha256 K) (u_bytes U) (u_nonce U 0) (u_nonce U 1) (u_word U 0) (u_word U 1) (puzzle_solver A3);
     A4 \<leftarrow> process_connections K U t (A3\<lparr>puzzle_solver := q\<rparr>);
     B2 \<leftarrow> deliver K V a A4 b B1;
     B3 \<leftarrow> accept_connection K V (next_connection_index B) B2;
     A5 \<leftarrow> deliver K U b B3 a A4;
     Some (A5, B3) }"

text \<open>A connection that has neither sent nor received.\<close>

definition idle :: "torque_connection \<Rightarrow> bool" where
  "idle c \<longleftrightarrow> ack_mask c = [0] \<and> last_recv_ack_ack c = last_seq_recvd c \<and> highest_acked_seq c = last_send_seq c
     \<and> simulated_latency c = 0 \<and> simulated_packet_loss c = 0"

definition ends_agree :: "torque_connection \<Rightarrow> torque_connection \<Rightarrow> bool" where
  "ends_agree c d \<longleftrightarrow> is_initiator c \<and> \<not> is_initiator d \<and> shared_secret c = shared_secret d \<and> shared_secret c \<noteq> None
     \<and> initiator_nonce c = initiator_nonce d \<and> host_nonce c = host_nonce d
     \<and> last_send_seq c = last_seq_recvd d \<and> last_send_seq d = last_seq_recvd c
     \<and> idle c \<and> idle d"

text \<open>What the initiator and the host need.\<close>

definition initiator_ready :: "('s, 'k) crypto \<Rightarrow> ('k \<Rightarrow> 'k) \<Rightarrow> 'k \<Rightarrow> uint32 \<Rightarrow> byte_buffer \<Rightarrow> address \<Rightarrow> ('s, 'k) torque_socket \<Rightarrow> bool" where
  "initiator_ready K pub ka m ba b A \<longleftrightarrow> (\<exists>k. socket_key A = Some k \<and> key_pair (cr_ecc K) pub ka m ba k)
     \<and> process_list (puzzle_solver A) = [] \<and> room_for (next_connection_index A) b A"

definition host_ready :: "('s, 'k) crypto \<Rightarrow> ('k \<Rightarrow> 'k) \<Rightarrow> 'k \<Rightarrow> uint32 \<Rightarrow> byte_buffer \<Rightarrow> byte_buffer \<Rightarrow> address \<Rightarrow> ('s, 'k) torque_socket \<Rightarrow> bool" where
  "host_ready K pub kb m bb response a B \<longleftrightarrow> (\<exists>k. socket_key B = Some k \<and> key_pair (cr_ecc K) pub kb m bb k)
     \<and> challenge_response B = Some response \<and> buffer_exact response \<and> length (data_ptr bb) + length (data_ptr response) \<le> 1503
     \<and> allow_connections B \<and> manager_wf (puzzle_manager B) \<and> room_for (next_connection_index B) a B
     \<and> (\<exists>ps. pending_list B ps \<and> (\<forall>p \<in> set ps. \<forall>pc. pending_heap B p = Some pc \<longrightarrow>
           pc_state pc \<noteq> sending_punch_packets \<and> \<not> address_eq (pc_address pc) a))"

lemma random_buffer_length: "yarrow_law y \<Longrightarrow> length (fst (random_buffer y n g)) = n"
  by (simp add: random_buffer_def yarrow_law_def split_beta)

lemma common_secret_cipher: "\<exists>c. cipher_of_secret (cr_ecb K) (Some (common_secret K pub a b)) = Some c"
  by (simp add: cipher_of_secret_def)

text \<open>The initiator from the challenge response to its connect request.\<close>

lemma initiator_half:
  assumes laws: "ecc_law (cr_ecc K) pub" "digest_law (cr_sha256 K)" "yarrow_law (cr_yarrow K)"
    and p: "pending_connections s = Some p" "pending_heap s p = Some pc" "pc_state pc = requesting_challenge_response" "pc_packet_data pc = Some data"
    and mine: "socket_key s = Some k" "key_pair (cr_ecc K) pub ka m ba k" and theirs: "public_buffer (cr_ecc K) pub kb m bb" "own_key (cr_ecc K) m kb"
    and bufs: "buffer_exact response" "length (data_ptr bb) + length (data_ptr response) \<le> 1503"
      "buffer_exact data" "length (data_ptr ba) + length (data_ptr data) \<le> 1470"
    and idle: "process_list (puzzle_solver s) = []" and quiet: "t \<le> last_timeout_check_time s + timeout_check_interval"
    and sol: "solves (cr_sha256 K) solution (pc_initiator_nonce pc) h 17 token"
    and c: "cipher_of_secret (cr_ecb K) (Some (common_secret K pub ka kb)) = Some c"
    and q: "queue_holds (event_queue (ts_io s)) evs"
  shows "succeeds (do {
       s2 \<leftarrow> receive K U (pc_address pc) (challenge_response_bytes (pc_initiator_nonce pc) token h 17 bb response) s;
       s3 \<leftarrow> accept_connection_challenge U (pc_connection_index pc) s2;
       q \<leftarrow> run_solver (cr_sha256 K) mem n0 r0 d0 i0 (puzzle_solver s3);
       process_connections K U t (s3\<lparr>puzzle_solver := q\<rparr>) })
     (\<lambda>s'. \<exists>pc' sol' sym_key. pending_connections s' = Some p \<and> pending_heap s' p = Some pc' \<and> pc_state pc' = requesting_connection
        \<and> pc_shared_secret pc' = Some (common_secret K pub ka kb) \<and> pc_host_nonce pc' = h \<and> length sym_key = 16
        \<and> pc_initiator_nonce pc' = pc_initiator_nonce pc \<and> pc_address pc' = pc_address pc \<and> pc_next pc' = pc_next pc
        \<and> pc_connection_index pc' = pc_connection_index pc \<and> pc_initial_send_sequence pc' = pc_initial_send_sequence pc
        \<and> solves (cr_sha256 K) sol' (pc_initiator_nonce pc) h 17 token \<and> (\<forall>i a. room_for i a s' = room_for i a s) \<and> ts_fresh s' = ts_fresh s
        \<and> queue_holds (event_queue (ts_io s')) (evs @ [keyed_event torque_connection_challenge_response_event_type (pc_connection_index pc) bb response])
        \<and> last (sent (ts_io s')) = (pc_address pc, let pre = connect_request_head (pc_initiator_nonce pc) h token 17 sol' ba
             in pre @ sealed K c pre (connect_request_body sym_key (pc_initial_send_sequence pc) data)))"
proof -
  define sym_key where "sym_key = fst (random_buffer (cr_yarrow K) key_size (random_gen s))"
  have lsym: "length sym_key = 16" using random_buffer_length[OF laws(3)] by (simp add: sym_key_def key_size_def)
  have found: "find_pending_connection (pc_address pc) s = Some (Some p)"
    using p by (simp add: find_pending_connection_def find_node_head address_eq_def)
  have d: "(17 :: uint32) \<le> max_puzzle_difficulty" by (simp add: max_puzzle_difficulty_def)
  obtain th q2 where s2: "receive K U (pc_address pc) (challenge_response_bytes (pc_initiator_nonce pc) token h 17 bb response) s
      = Some (set_pending p (challenged K token h 17 th k (common_secret K pub ka kb) sym_key (now s) pc)
          (set_queue q2 (s\<lparr>random_gen := snd (random_buffer (cr_yarrow K) key_size (random_gen s))\<rparr>)))" (is "_ = Some ?s2")
      and q2: "queue_holds q2 (evs @ [keyed_event torque_connection_challenge_response_event_type (pc_connection_index pc) bb response])"
    using challenge_response_received[OF found p(2,3) d laws(1,2) mine theirs bufs(1,2) q, of U token h]
    by (auto simp: succeeds_def sym_key_def)
  let ?pc2 = "challenged K token h 17 th k (common_secret K pub ka kb) sym_key (now s) pc"
  have s2f: "pending_heap ?s2 p = Some ?pc2" "pc_state ?pc2 = awaiting_local_challenge_accept"
      "find_pending_connection_id (pc_connection_index pc) ?s2 = Some (Some p)" "puzzle_solver ?s2 = puzzle_solver s"
    using p by (simp_all add: set_pending_def set_queue_def find_pending_connection_id_def find_node_head challenged_def enter_state_def)
  let ?pc3 = "enter_state computing_puzzle_solution 0 puzzle_solution_timeout (now ?s2) (?pc2\<lparr>pc_puzzle_request_index := current_index (puzzle_solver s)\<rparr>)"
  let ?s3 = "set_pending p ?pc3 (?s2\<lparr>puzzle_solver := snd (post_request (request_of ?pc2) (puzzle_solver s))\<rparr>)"
  have s3: "accept_connection_challenge U (pc_connection_index pc) ?s2 = Some ?s3"
    using challenge_accepted[OF s2f(3,1,2), of U] s2f(4) by simp
  have req: "request_of ?pc2 = \<lparr>data_ptr = puzzle_request (pc_initiator_nonce pc) h 17 token, buf_size = 24\<rparr>"
    by (simp add: request_of_def challenged_def enter_state_def)
  obtain b sol' where b: "process_request (cr_sha256 K) (\<lambda>_. False) mem n0 r0 d0 i0 (request_of ?pc2) = Some (Some b)"
      "contents b = bytes_of_u32 sol'" "solves (cr_sha256 K) sol' (pc_initiator_nonce pc) h 17 token" "buffer_exact b"
    using process_request_least[where d = 17 and cancelled = "\<lambda>_. False", OF laws(2) _ _ , of solution "pc_initiator_nonce pc" h token mem n0 r0 d0 i0] sol
    unfolding req by auto
  obtain q3 q4 where q3: "run_solver (cr_sha256 K) mem n0 r0 d0 i0 (puzzle_solver ?s3) = Some q3"
      "get_next_result q3 = Some (Some (Some b, current_index (puzzle_solver s)), q4)" "process_list q4 = []"
    using solver_runs[OF idle b(1)] by (auto simp: set_pending_def)
  let ?s3' = "?s3\<lparr>puzzle_solver := q3\<rparr>"
  have pc3: "pc_private_key ?pc3 = Some k" "pc_packet_data ?pc3 = Some data" "pc_symmetric_key ?pc3 = sym_key"
      "pc_shared_secret ?pc3 = Some (common_secret K pub ka kb)" "pc_state ?pc3 = computing_puzzle_solution"
      "pc_puzzle_request_index ?pc3 = current_index (puzzle_solver s)" "pc_host_nonce ?pc3 = h" "pc_client_identity ?pc3 = token"
      "pc_puzzle_difficulty ?pc3 = 17" "pc_initiator_nonce ?pc3 = pc_initiator_nonce pc" "pc_address ?pc3 = pc_address pc"
      "pc_next ?pc3 = pc_next pc" "pc_connection_index ?pc3 = pc_connection_index pc" "pc_initial_send_sequence ?pc3 = pc_initial_send_sequence pc"
    using p(4) by (simp_all add: challenged_def enter_state_def)
  have head: "pending_heap ?s3' p = Some ?pc3" "pending_connections ?s3' = Some p"
    using p(1) by (simp_all add: set_pending_def set_queue_def)
  have key: "public_key k = Some ba" "buffer_exact ba" using mine(2) public_buffer_exact by (auto simp: key_pair_def)
  obtain mg g io q' where io: "event_queue io = event_queue (ts_io ?s3')"
      "process_connections K U t ?s3' = Some (with_sent (pc_address pc)
        (let pre = connect_request_head (pc_initiator_nonce pc) h token 17 sol' ba
         in pre @ sealed K c pre (connect_request_body sym_key (pc_initial_send_sequence pc) data))
        (set_pending p (?pc3\<lparr>pc_puzzle_solution := sol', pc_state := requesting_connection\<rparr>)
          (?s3'\<lparr>puzzle_manager := mg, random_gen := g, ts_io := io, puzzle_solver := q'\<rparr>)))"
    using solution_requests_connection[of ?s3' "current_index (puzzle_solver s)" p ?pc3 b q4 sol' t k ba data K c U]
      head pc3 q3 b quiet key bufs lsym laws(2) c
    by (auto simp: find_node_head set_pending_def set_queue_def)
  show ?thesis
    using s2 s3 q3(1) io q2 pc3 p(1) lsym b(3)
    by (simp add: set_pending_def set_queue_def with_sent_def send_to_def room_for_def) blast
qed

text \<open>The host from the connect request to its acceptance.\<close>

lemma host_half:
  assumes laws: "ecc_law (cr_ecc K) pub" "digest_law (cr_sha256 K)" "yarrow_law (cr_yarrow K)"
    and ready: "host_ready K pub kb m bb response a B" and theirs: "public_buffer (cr_ecc K) pub ka m ba" "own_key (cr_ecc K) m ka"
    and bufs: "buffer_exact data" "length (data_ptr ba) + length (data_ptr data) \<le> 1470" "length sym_key = 16" "length (pc_symmetric_key (u_pending V)) = 16"
    and sol: "solves (cr_sha256 K) sol i (current_nonce (puzzle_manager B)) 17 token" and token: "token = compute_client_identity_token K a i B"
    and fresh: "i \<notin> seen_for (puzzle_manager B) (current_nonce (puzzle_manager B))"
    and c: "cipher_of_secret (cr_ecb K) (Some (common_secret K pub kb ka)) = Some c"
    and q: "queue_holds (event_queue (ts_io B)) evs"
  shows "succeeds (do { B2 \<leftarrow> receive K V a (let pre = connect_request_head i (current_nonce (puzzle_manager B)) token 17 sol ba
         in pre @ sealed K c pre (connect_request_body sym_key recv_seq data)) B;
       accept_connection K V (next_connection_index B) B2 })
     (\<lambda>B'. \<exists>pc iv. pc = requested K V a i (current_nonce (puzzle_manager B)) (common_secret K pub kb ka) sym_key recv_seq
            (fst (random_integer (cr_yarrow K) (random_gen B))) iv (next_connection_index B) (pending_connections B)
        \<and> length iv = 16 \<and> connected (accepted_connection V pc) (ts_fresh B + 1) B' \<and> pending_connections B' = pending_connections B
        \<and> queue_holds (event_queue (ts_io B')) (evs @ [keyed_event torque_connection_requested_event_type (next_connection_index B) ba data,
             new_event torque_connection_established_event_type (next_connection_index B)])
        \<and> last (sent (ts_io B')) = (a, let pre = connect_accept_head i (current_nonce (puzzle_manager B))
             in pre @ sealed K c pre (bytes_of_u32 (fst (random_integer (cr_yarrow K) (random_gen B))) @ iv)))"
proof -
  let ?h = "current_nonce (puzzle_manager B)" and ?n = "next_connection_index B"
  obtain seq g1 where g1: "random_integer (cr_yarrow K) (random_gen B) = (seq, g1)" by fastforce
  obtain iv g2 where g2: "random_buffer (cr_yarrow K) key_size g1 = (iv, g2)" by fastforce
  have liv: "length iv = 16" using random_buffer_length[OF laws(3), of key_size g1] g2 by (simp add: key_size_def)
  obtain k ps where B: "socket_key B = Some k" "key_pair (cr_ecc K) pub kb m bb k" "allow_connections B" "manager_wf (puzzle_manager B)"
      "room_for ?n a B" "pending_list B ps" "\<forall>p \<in> set ps. \<forall>pc. pending_heap B p = Some pc \<longrightarrow> \<not> address_eq (pc_address pc) a"
    using ready by (auto simp: host_ready_def)
  have "find_connection a B = Some None"
    using B(5) ht_lookup_map[of address_hash "connection_address_lookup_table B" a] by (simp add: room_for_def find_connection_def)
  note quiet = this B(6,7)
  have "verdict (cr_sha256 K) sol i ?h 17 token (puzzle_manager B) = success"
    using sol fresh by (simp add: verdict_def initial_puzzle_difficulty_def)
  then obtain pm where pm: "check_solution (cr_sha256 K) sol i ?h 17 token (puzzle_manager B) = Some (success, pm)"
    using check_solution_verdict[OF laws(2) B(4), of sol i ?h 17 token] by auto
  let ?pc = "requested K V a i ?h (common_secret K pub kb ka) sym_key recv_seq seq iv ?n (pending_connections B)"
  obtain q2 where q2: "queue_holds q2 (evs @ [keyed_event torque_connection_requested_event_type ?n ba data])"
    and B2: "receive K V a (let pre = connect_request_head i ?h token 17 sol ba in pre @ sealed K c pre (connect_request_body sym_key recv_seq data)) B
      = Some (set_queue q2 (B\<lparr>puzzle_manager := pm, random_gen := g2, next_connection_index := ?n + 1, ts_fresh := ts_fresh B + 1,
          pending_heap := (pending_heap B)(ts_fresh B \<mapsto> ?pc), pending_connections := Some (ts_fresh B)\<rparr>))" (is "_ = Some ?B2")
    using connect_request_admitted[OF quiet B(3) token pm laws(1,2) B(1,2) theirs c bufs(3,4,1,2) g1 g2 q, of recv_seq] by (auto simp: succeeds_def)
  have pc: "pc_connection_index ?pc = ?n" "pc_state ?pc = awaiting_local_accept" "pc_address ?pc = a" "pc_initiator_nonce ?pc = i" "pc_host_nonce ?pc = ?h"
      "pc_symmetric_cipher ?pc = Some (cipher_of_key (cr_ecb K) sym_key iv)" "pc_shared_secret ?pc = Some (common_secret K pub kb ka)"
      "pc_initial_send_sequence ?pc = seq" "pc_next ?pc = pending_connections B" "get_init_vector (cipher_of_key (cr_ecb K) sym_key iv) = iv"
    by (simp_all add: requested_def new_pending_connection_def get_init_vector_def cipher_of_key_def)
  have B2f: "pending_connections ?B2 = Some (ts_fresh B)" "pending_heap ?B2 (ts_fresh B) = Some ?pc" "room_for ?n (pc_address ?pc) ?B2"
      "queue_holds (event_queue (ts_io ?B2)) (evs @ [keyed_event torque_connection_requested_event_type ?n ba data])" "ts_fresh ?B2 = ts_fresh B + 1"
    using B(5) q2 pc(3) by (simp_all add: set_queue_def room_for_def)
  from connection_accepted[OF B2f(1,2) pc(1,2) B2f(3,4) pc(6) _ laws(2), of c V]
  obtain B' where "accept_connection K V ?n ?B2 = Some B'" "connected (accepted_connection V ?pc) (ts_fresh B + 1) B'"
      "pending_connections B' = pending_connections B"
      "queue_holds (event_queue (ts_io B')) (evs @ [keyed_event torque_connection_requested_event_type ?n ba data, new_event torque_connection_established_event_type ?n])"
      "sent (ts_io B') = sent (ts_io ?B2) @ [(a, let pre = connect_accept_head i ?h in pre @ sealed K c pre (bytes_of_u32 seq @ iv))]"
    using pc c liv B2f(5) by (auto simp: succeeds_def)
  then show ?thesis using B2 g1 liv by (auto simp: succeeds_def)
qed

lemma handshake_completes:
  assumes laws: "ecc_law (cr_ecc K) pub" "digest_law (cr_sha256 K)" "yarrow_law (cr_yarrow K)"
    and A: "initiator_ready K pub ka m ba b A" and B: "host_ready K pub kb m bb response a B"
    and bufs: "unat n = length bytes" "length (data_ptr ba) + length bytes \<le> 1470" "length (pc_symmetric_key (u_pending V)) = 16"
    and quiet: "t \<le> last_timeout_check_time A + timeout_check_interval"
    and i: "i = fst (random_nonce (cr_yarrow K) (snd (random_integer (cr_yarrow K) (random_gen A))))"
    and sol: "solves (cr_sha256 K) sol i (current_nonce (puzzle_manager B)) 17 (compute_client_identity_token K a i B)"
    and fresh: "i \<notin> seen_for (puzzle_manager B) (current_nonce (puzzle_manager B))"
    and q: "queue_holds (event_queue (ts_io A)) evs" "queue_holds (event_queue (ts_io B)) evs'"
  shows "\<exists>A' B' c d. handshake K U V a b bytes n t A B = Some (A', B')
     \<and> connected c (ts_fresh A + 1) A' \<and> connected d (ts_fresh B + 1) B' \<and> ends_agree c d
     \<and> last_send_seq c = fst (random_integer (cr_yarrow K) (random_gen A))
     \<and> last_seq_recvd_at_send c = last_seq_recvd_at_send (u_connection U) \<and> last_seq_recvd_at_send d = last_seq_recvd_at_send (u_connection V)
     \<and> tc_address c = b \<and> tc_address d = a \<and> connection_index c = next_connection_index A \<and> connection_index d = next_connection_index B
     \<and> pending_connections A' = pending_connections A \<and> pending_connections B' = pending_connections B
     \<and> queue_holds (event_queue (ts_io A')) (evs @ [keyed_event torque_connection_challenge_response_event_type (next_connection_index A) bb response,
          new_event torque_connection_established_event_type (next_connection_index A)])
     \<and> queue_holds (event_queue (ts_io B')) (evs' @ [keyed_event torque_connection_requested_event_type (next_connection_index B) ba \<lparr>data_ptr = bytes, buf_size = n\<rparr>,
          new_event torque_connection_established_event_type (next_connection_index B)])"
proof -
  obtain seq g1 where g1: "random_integer (cr_yarrow K) (random_gen A) = (seq, g1)" by fastforce
  obtain i' g2 where "random_nonce (cr_yarrow K) g1 = (i', g2)" by fastforce
  with g1 i have g2: "random_nonce (cr_yarrow K) g1 = (i, g2)" by simp
  let ?h = "current_nonce (puzzle_manager B)" and ?token = "compute_client_identity_token K a i B" and ?data = "\<lparr>data_ptr = bytes, buf_size = n\<rparr>"
  let ?pc = "initiating U i seq (next_connection_index A) ?data (now A) b (pending_connections A)" and ?p = "ts_fresh A"
  define A1 where "A1 = with_sent b (challenge_request_bytes i (pc_host_nonce (u_pending U)))
     (A\<lparr>random_gen := g2, next_connection_index := next_connection_index A + 1, ts_fresh := ts_fresh A + 1,
        pending_heap := (pending_heap A)(?p \<mapsto> ?pc), pending_connections := Some ?p\<rparr>)"
  have start: "connect K U b bytes n A = Some (next_connection_index A, A1)"
    using connect_sends[OF g1 g2 bufs(1), of U b] by (simp add: A1_def)
  have pc: "pc_state ?pc = requesting_challenge_response" "pc_packet_data ?pc = Some ?data" "pc_initiator_nonce ?pc = i" "pc_address ?pc = b"
      "pc_connection_index ?pc = next_connection_index A" "pc_initial_send_sequence ?pc = seq" "pc_next ?pc = pending_connections A"
    by (simp_all add: initiating_def new_pending_connection_def)
  obtain k where k: "socket_key A = Some k" "key_pair (cr_ecc K) pub ka m ba k" "process_list (puzzle_solver A) = []" "room_for (next_connection_index A) b A"
    using A by (auto simp: initiator_ready_def)
  obtain k' ps where k': "socket_key B = Some k'" "key_pair (cr_ecc K) pub kb m bb k'" "challenge_response B = Some response" "buffer_exact response"
      "length (data_ptr bb) + length (data_ptr response) \<le> 1503" "allow_connections B" "manager_wf (puzzle_manager B)" "pending_list B ps"
      "\<forall>p \<in> set ps. \<forall>pc. pending_heap B p = Some pc \<longrightarrow> pc_state pc \<noteq> sending_punch_packets"
    using B by (auto simp: host_ready_def)
  have A1f: "pending_connections A1 = Some ?p" "pending_heap A1 ?p = Some ?pc" "socket_key A1 = Some k" "process_list (puzzle_solver A1) = []"
      "t \<le> last_timeout_check_time A1 + timeout_check_interval" "queue_holds (event_queue (ts_io A1)) evs" "room_for (next_connection_index A) b A1"
      "ts_fresh A1 = ts_fresh A + 1"
    using k quiet q(1) by (simp_all add: A1_def with_sent_def send_to_def room_for_def)
  have d: "current_difficulty (puzzle_manager B) = 17" using k'(7) by (simp add: manager_wf_def initial_puzzle_difficulty_def)
  define B1 where "B1 = with_sent a (challenge_response_bytes i ?token ?h 17 bb response) B"
  have answer: "deliver K V a A1 b B = Some B1"
    using challenge_request_answered[OF k'(6,8,9,1-5), of V a i "pc_host_nonce (u_pending U)"] by (simp add: A1_def B1_def deliver_with_sent d)
  have pubs: "public_buffer (cr_ecc K) pub ka m ba" "public_buffer (cr_ecc K) pub kb m bb" "buffer_exact ?data"
    using k(2) k'(2) bufs(1) by (simp_all add: key_pair_def buffer_exact_def)
  have own: "own_key (cr_ecc K) m ka" "own_key (cr_ecc K) m kb" using k(2) k'(2) by (simp_all add: key_pair_def)
  obtain c where c: "cipher_of_secret (cr_ecb K) (Some (common_secret K pub ka kb)) = Some c" using common_secret_cipher[of K pub ka kb] by blast
  have c': "cipher_of_secret (cr_ecb K) (Some (common_secret K pub kb ka)) = Some c" using c common_secret_sym[OF laws(1) own] by metis
  obtain A2 A3 tq A4 pc4 sol' sym_key where
    A2: "deliver K U b B1 a A1 = Some A2" and A3: "accept_connection_challenge U (next_connection_index A) A2 = Some A3"
    and tq: "run_solver (cr_sha256 K) (u_bytes U) (u_nonce U 0) (u_nonce U 1) (u_word U 0) (u_word U 1) (puzzle_solver A3) = Some tq"
    and A4: "process_connections K U t (A3\<lparr>puzzle_solver := tq\<rparr>) = Some A4"
    and A4f: "pending_connections A4 = Some ?p" "pending_heap A4 ?p = Some pc4" "pc_state pc4 = requesting_connection"
      "pc_shared_secret pc4 = Some (common_secret K pub ka kb)" "pc_host_nonce pc4 = ?h" "length sym_key = 16"
      "pc_initiator_nonce pc4 = i" "pc_address pc4 = b" "pc_next pc4 = pending_connections A" "pc_connection_index pc4 = next_connection_index A"
      "pc_initial_send_sequence pc4 = seq" "solves (cr_sha256 K) sol' i ?h 17 ?token" "room_for (next_connection_index A) b A4" "ts_fresh A4 = ts_fresh A + 1"
      "queue_holds (event_queue (ts_io A4)) (evs @ [keyed_event torque_connection_challenge_response_event_type (next_connection_index A) bb response])"
      "last (sent (ts_io A4)) = (b, let pre = connect_request_head i ?h ?token 17 sol' ba in pre @ sealed K c pre (connect_request_body sym_key seq ?data))"
    using initiator_half[OF laws A1f(1,2) pc(1,2) A1f(3) k(2) pubs(2) own(2) k'(4,5) pubs(3) _ A1f(4,5) _ c A1f(6), of sol ?h ?token U
        "u_bytes U" "u_nonce U 0" "u_nonce U 1" "u_word U 0" "u_word U 1"] sol bufs(2) A1f(7,8) pc
    by (auto simp: succeeds_def B1_def deliver_with_sent split: Option.bind_splits)
  have B1f: "host_ready K pub kb m bb response a B1" "puzzle_manager B1 = puzzle_manager B" "compute_client_identity_token K a i B1 = ?token"
      "next_connection_index B1 = next_connection_index B" "random_gen B1 = random_gen B" "ts_fresh B1 = ts_fresh B" "pending_connections B1 = pending_connections B"
      "queue_holds (event_queue (ts_io B1)) evs'"
    using B q(2) by (simp_all add: B1_def with_sent_def send_to_def host_ready_def room_for_def pending_list_def compute_client_identity_token_def)
  define seq' where "seq' = fst (random_integer (cr_yarrow K) (random_gen B))"
  obtain B2 B3 pcB iv where B2: "deliver K V a A4 b B1 = Some B2" and B3: "accept_connection K V (next_connection_index B) B2 = Some B3"
    and pcB: "pcB = requested K V a i ?h (common_secret K pub kb ka) sym_key seq seq' iv (next_connection_index B) (pending_connections B)"
    and B3f: "length iv = 16" "connected (accepted_connection V pcB) (ts_fresh B + 1) B3" "pending_connections B3 = pending_connections B"
      "queue_holds (event_queue (ts_io B3)) (evs' @ [keyed_event torque_connection_requested_event_type (next_connection_index B) ba ?data,
          new_event torque_connection_established_event_type (next_connection_index B)])"
      "last (sent (ts_io B3)) = (a, let pre = connect_accept_head i ?h in pre @ sealed K c pre (bytes_of_u32 seq' @ iv))"
    using host_half[OF laws B1f(1) pubs(1) own(1) pubs(3) _ A4f(6) bufs(3) _ B1f(3)[symmetric] _ c' B1f(8), of sol' seq] A4f(12,16) fresh B1f bufs(2)
    by (auto simp: succeeds_def seq'_def deliver_def split: Option.bind_splits)
  obtain A5 where A5: "deliver K U b B3 a A4 = Some A5" "connected (initiated_connection U seq' pc4) (ts_fresh A + 1) A5"
      "pending_connections A5 = pending_connections A"
      "queue_holds (event_queue (ts_io A5)) (evs @ [keyed_event torque_connection_challenge_response_event_type (next_connection_index A) bb response,
          new_event torque_connection_established_event_type (next_connection_index A)])"
    using accept_received[OF A4f(1-3) _ A4f(15) laws(2), of c iv U seq'] A4f B3f(1,5) c by (auto simp: succeeds_def deliver_def)
  have "ends_agree (initiated_connection U seq' pc4) (accepted_connection V pcB)"
    using A4f common_secret_sym[OF laws(1) own] by (simp add: ends_agree_def idle_def pcB requested_def new_pending_connection_def connection_fields)
  moreover have "tc_address (initiated_connection U seq' pc4) = b" "connection_index (initiated_connection U seq' pc4) = next_connection_index A"
      "last_send_seq (initiated_connection U seq' pc4) = fst (random_integer (cr_yarrow K) (random_gen A))"
      "last_seq_recvd_at_send (initiated_connection U seq' pc4) = last_seq_recvd_at_send (u_connection U)"
      "last_seq_recvd_at_send (accepted_connection V pcB) = last_seq_recvd_at_send (u_connection V)"
      "tc_address (accepted_connection V pcB) = a" "connection_index (accepted_connection V pcB) = next_connection_index B"
    using A4f g1 by (simp_all add: pcB requested_def new_pending_connection_def connection_fields)
  moreover have "handshake K U V a b bytes n t A B = Some (A5, B3)"
    using start answer A2 A3 tq A4 B2 B3 A5(1) by (simp add: handshake_def)
  ultimately show ?thesis using A5 B3f by blast
qed

subsection \<open>New sockets are ready\<close>

lemma generated_key_pair:
  assumes "ecc_law E pub" "fst (ecc_make_key E n (random_state g)) = Some key" "\<forall>k e. ecc_export_public E k = Some e \<longrightarrow> length e \<le> 1400"
  shows "\<exists>b. key_pair E pub key n b (fst (generate_key E junk mem n g)) \<and> 5 \<le> length (data_ptr b) \<and> length (data_ptr b) \<le> 1405"
proof -
  obtain e where e: "ecc_export_public E key = Some e" "length e \<le> 2043" "ecc_import E e = Some (pub key)"
    using own_key_exports[OF assms(1) own_keyI[OF assms(2)]] by blast
  have "length e \<le> 1400" using assms(3) e(1) by blast
  then show ?thesis
    using e assms(2) own_keyI[OF assms(2)] by (intro exI[of _ "buffer_of (key_type_public # write_uint32_to_buffer n @ e)"])
      (auto simp: key_pair_def public_buffer_def generate_key_def exported_def Let_def buffer_of_def write_uint32_to_buffer_def split: prod.splits option.splits)
qed

text \<open>Everything of a new socket but its challenge response.\<close>

lemma new_socket_parts:
  assumes "ecc_law (cr_ecc K) pub" "\<forall>n s. fst (ecc_make_key (cr_ecc K) n s) \<noteq> None"
    and "\<forall>k e. ecc_export_public (cr_ecc K) k = Some e \<longrightarrow> length e \<le> 1400"
  shows "\<exists>k key b. 5 \<le> length (data_ptr b) \<and> length (data_ptr b) \<le> 1405
     \<and> socket_key (new_torque_socket K U u0 t th) = Some k \<and> key_pair (cr_ecc K) pub key 16 b k"
    and "manager_wf (puzzle_manager (new_torque_socket K U u0 t th))" "room_for i a (new_torque_socket K U u0 t th)"
    and "pending_list (new_torque_socket K U u0 t th) []" "process_list (puzzle_solver (new_torque_socket K U u0 t th)) = []"
    and "challenge_response (new_torque_socket K U u0 t th) = Some (buffer_of_size (u_bytes U) 1500)" "allow_connections (new_torque_socket K U u0 t th)"
proof -
  let ?s = "new_torque_socket K U u0 t th"
  obtain g where g: "socket_key ?s = Some (fst (generate_key (cr_ecc K) (u_bytes U) (u_key U) 16 g))"
    by (simp add: new_torque_socket_def Let_def split_beta)
  obtain key where "fst (ecc_make_key (cr_ecc K) 16 (random_state g)) = Some key" using assms(2) by blast
  from generated_key_pair[OF assms(1) this assms(3), of "u_bytes U" "u_key U"] g
  show "\<exists>k key b. 5 \<le> length (data_ptr b) \<and> length (data_ptr b) \<le> 1405 \<and> socket_key ?s = Some k \<and> key_pair (cr_ecc K) pub key 16 b k"
    by blast
  show "manager_wf (puzzle_manager ?s)"
    using nonces.clear_law by (simp add: new_torque_socket_def Let_def split_beta manager_wf_def new_puzzle_manager_def new_nonce_table_def)
  show "room_for i a ?s"
    by (simp add: new_torque_socket_def Let_def split_beta room_for_def ht_init_wf ht_init_map) (simp add: ht_init_def)
  show "pending_list ?s []" "process_list (puzzle_solver ?s) = []" "challenge_response ?s = Some (buffer_of_size (u_bytes U) 1500)" "allow_connections ?s"
    by (simp_all add: new_torque_socket_def Let_def split_beta pending_list_def new_thread_queue_def default_buffer_size_def)
qed

text \<open>A new socket can connect; it can be connected to once its client has set a challenge response that leaves room for the key.\<close>

lemma new_socket_ready:
  assumes "ecc_law (cr_ecc K) pub" "\<forall>n s. fst (ecc_make_key (cr_ecc K) n s) \<noteq> None"
    and "\<forall>k e. ecc_export_public (cr_ecc K) k = Some e \<longrightarrow> length e \<le> 1400" and response: "buffer_exact response" "length (data_ptr response) \<le> 98"
  shows "\<exists>key b. length (data_ptr b) \<le> 1405
     \<and> initiator_ready K pub key 16 b to (set_challenge_response (Some response) (new_torque_socket K U u0 t th))
     \<and> host_ready K pub key 16 b response from_address (set_challenge_response (Some response) (new_torque_socket K U u0 t th))"
proof -
  note parts = new_socket_parts[where U = U and ?u0.0 = u0 and t = t and th = th, OF assms(1-3)]
  obtain k key b where "length (data_ptr b) \<le> 1405" "socket_key (new_torque_socket K U u0 t th) = Some k" "key_pair (cr_ecc K) pub key 16 b k"
    using parts(1) by blast
  with parts(2-) response show ?thesis
    by (intro exI[of _ key] exI[of _ b]) (auto simp: initiator_ready_def host_ready_def set_challenge_response_def room_for_def pending_list_def)
qed

text \<open>Before that, the answer to a stranger's challenge request of 17 bytes is a packet of 1536 bytes that ends in uninitialised memory, and the
  claimed size of the response is more than what follows.\<close>

lemma new_socket_leaks:
  assumes "ecc_law (cr_ecc K) pub" "\<forall>n s. fst (ecc_make_key (cr_ecc K) n s) \<noteq> None"
    and "\<forall>k e. ecc_export_public (cr_ecc K) k = Some e \<longrightarrow> length e \<le> 1400" and s: "s = new_torque_socket K U u0 t th"
  shows "\<exists>front m. length front + 4 + m = 1536 \<and> 98 \<le> m \<and> m < 1500
     \<and> receive K U a (challenge_request_bytes i h) s = Some (with_sent a (front @ bytes_of_u32 1500 @ map (u_bytes U) [0..<m]) s)"
proof -
  note parts = new_socket_parts[where U = U and ?u0.0 = u0 and t = t and th = th, OF assms(1-3), folded s]
  obtain k key b where b: "5 \<le> length (data_ptr b)" "length (data_ptr b) \<le> 1405" "socket_key s = Some k" "key_pair (cr_ecc K) pub key 16 b k"
    using parts(1) by blast
  then have pk: "public_key k = Some b" "buffer_exact b" using public_buffer_exact by (auto simp: key_pair_def)
  have re: "buffer_exact (buffer_of_size (u_bytes U) 1500)" "length (data_ptr (buffer_of_size (u_bytes U) 1500)) = 1500"
    by (simp_all add: buffer_of_size_def buffer_exact_def)
  let ?n = "length (data_ptr b)"
  let ?front = "[1] @ bytes_of_u64 i @ bytes_of_u32 (compute_client_identity_token K a i s) @ bytes_of_u64 (current_nonce (puzzle_manager s))
     @ bytes_of_u32 (current_difficulty (puzzle_manager s)) @ buffer_image b"
  have front: "length ?front = 29 + ?n" by (simp add: length_buffer_image)
  have "take 1536 (challenge_response_bytes i (compute_client_identity_token K a i s) (current_nonce (puzzle_manager s))
       (current_difficulty (puzzle_manager s)) b (buffer_of_size (u_bytes U) 1500)) = ?front @ bytes_of_u32 1500 @ map (u_bytes U) [0..<1503 - ?n]"
    using b(1,2) front by (simp add: challenge_response_bytes_def buffer_image_def buffer_of_size_def take_map take_upt)
  moreover have "receive K U a (challenge_request_bytes i h) s
     = Some (with_sent a (take 1536 (challenge_response_bytes i (compute_client_identity_token K a i s) (current_nonce (puzzle_manager s))
         (current_difficulty (puzzle_manager s)) b (buffer_of_size (u_bytes U) 1500))) s)"
    by (rule challenge_request_taken[OF parts(7,4)], simp, rule send_connect_challenge_response_cut[OF b(3) pk(1) parts(6) pk(2) re(1)])
      (use b(1,2) re(2) in simp_all)
  moreover have "98 \<le> 1503 - ?n" "1503 - ?n < 1500" using b(1,2) by linarith+
  ultimately show ?thesis using b(1,2) front by (intro exI[of _ ?front] exI[of _ "1503 - ?n"]) simp
qed

subsection \<open>Properties\<close>

text \<open>C2. The handshake: when the client of a socket at address \<open>a\<close> connects to a listening socket at address \<open>b\<close>, accepts its
  challenge and lets the solver thread run, and the host's client accepts the request, every packet reaches the
  right address, no step traps, and both sockets end with an established connection, found by its index
  and by the peer's address.  The two ends agree on the shared secret, on both nonces and on all sequence
  numbers; each client sees exactly the events of its side, the host the bytes the initiator passed to
  \<^verbatim>\<open>connect\<close>; no pending connection is left behind.  The sockets may have other connections and pending
  connections.  Assumed of libtomcrypt: the laws of key agreement, 32-byte digests, random buffers of the requested length; and that the
  puzzle has a solution and the initiator's nonce is new to the host.\<close>

theorem handshake_establishes:
  assumes "ecc_law (cr_ecc K) pub" "digest_law (cr_sha256 K)" "yarrow_law (cr_yarrow K)"
    and "initiator_ready K pub ka m ba b A" "host_ready K pub kb m bb response a B"
    and "unat n = length bytes" "length (data_ptr ba) + length bytes \<le> 1470" "length (pc_symmetric_key (u_pending V)) = 16"
    and "t \<le> last_timeout_check_time A + timeout_check_interval"
    and "i = fst (random_nonce (cr_yarrow K) (snd (random_integer (cr_yarrow K) (random_gen A))))"
    and "solves (cr_sha256 K) sol i (current_nonce (puzzle_manager B)) 17 (compute_client_identity_token K a i B)"
    and "i \<notin> seen_for (puzzle_manager B) (current_nonce (puzzle_manager B))"
    and "queue_holds (event_queue (ts_io A)) evs" "queue_holds (event_queue (ts_io B)) evs'"
  shows "\<exists>A' B' c d. handshake K U V a b bytes n t A B = Some (A', B')
     \<and> connected c (ts_fresh A + 1) A' \<and> connected d (ts_fresh B + 1) B' \<and> ends_agree c d
     \<and> tc_address c = b \<and> tc_address d = a \<and> connection_index c = next_connection_index A \<and> connection_index d = next_connection_index B
     \<and> pending_connections A' = pending_connections A \<and> pending_connections B' = pending_connections B
     \<and> queue_holds (event_queue (ts_io A')) (evs @ [keyed_event torque_connection_challenge_response_event_type (next_connection_index A) bb response,
          new_event torque_connection_established_event_type (next_connection_index A)])
     \<and> queue_holds (event_queue (ts_io B')) (evs' @ [keyed_event torque_connection_requested_event_type (next_connection_index B) ba \<lparr>data_ptr = bytes, buf_size = n\<rparr>,
          new_event torque_connection_established_event_type (next_connection_index B)])"
  using handshake_completes[OF assms] by blast

text \<open>Two new sockets whose client has set a challenge response, over a toy instance of the cryptographic code.\<close>

definition toy_crypto :: "(byte, byte) crypto" where
  "toy_crypto = \<lparr>cr_sha256 = \<lambda>_. replicate 32 0, cr_ecb = \<lambda>k b. b,
     cr_yarrow = \<lparr>yarrow_start = 7, yarrow_ready = id, yarrow_add_entropy = \<lambda>_ s. s, yarrow_read = \<lambda>n s. (replicate n s, s + 1)\<rparr>,
     cr_ecc = toy_ecc\<rparr>"

definition toy_uninit :: "byte uninit" where
  "toy_uninit = \<lparr>u_bytes = \<lambda>_. 0, u_nonce = \<lambda>_. 0, u_word = \<lambda>_. 0, u_byte = 0, u_address = address_of_name addr_any 0,
     u_pending = \<lparr>pc_next = None, pc_initiator_nonce = 0, pc_host_nonce = 0, pc_initial_send_sequence = 0, pc_initial_recv_sequence = 0,
       pc_shared_secret = None, pc_introducer = 0, pc_remote_client_id = 0, pc_address = address_of_name addr_any 0, pc_type = connection_host,
       pc_state = awaiting_local_accept, pc_connection_index = 0, pc_possible_addresses = [], pc_puzzle_retried = False,
       pc_symmetric_key = replicate 16 0, pc_init_vector = replicate 16 0, pc_puzzle_difficulty = 0, pc_puzzle_solution = 0,
       pc_client_identity = 0, pc_puzzle_request_index = 0, pc_public_key = None, pc_private_key = None, pc_symmetric_cipher = None,
       pc_retry_count = 0, pc_retry_interval = 0, pc_last_send_time = 0, pc_packet_data = None\<rparr>,
     u_connection = blank_connection, u_key = toy_key, u_float = 0\<rparr>"

definition toy_response :: byte_buffer where
  "toy_response = \<lparr>data_ptr = [7, 7, 7], buf_size = 3\<rparr>"

definition toy_socket :: "(byte, byte) torque_socket" where
  "toy_socket = set_challenge_response (Some toy_response) (new_torque_socket toy_crypto toy_uninit 0 0 False)"

lemmas toy_socket_eval = toy_socket_def set_challenge_response_def new_torque_socket_def

lemma toy_laws: "ecc_law (cr_ecc toy_crypto) (\<lambda>k. k)" "digest_law (cr_sha256 toy_crypto)" "yarrow_law (cr_yarrow toy_crypto)"
  using toy_ecc_law by (simp_all add: toy_crypto_def digest_law_def yarrow_law_def)

lemma toy_ready:
  "\<exists>key b. length (data_ptr b) \<le> 1405 \<and> initiator_ready toy_crypto (\<lambda>k. k) key 16 b to toy_socket
     \<and> host_ready toy_crypto (\<lambda>k. k) key 16 b toy_response from_address toy_socket"
  unfolding toy_socket_def by (rule new_socket_ready[OF toy_laws(1)]) (simp_all add: toy_crypto_def toy_ecc_def toy_response_def buffer_exact_def)

lemma toy_socket_fields: "last_timeout_check_time toy_socket = 0" "queue_holds (event_queue (ts_io toy_socket)) []" "ts_fresh toy_socket = 0"
    "seen_for (puzzle_manager toy_socket) (current_nonce (puzzle_manager toy_socket)) = {}"
  using nonces.clear_law
  by (simp_all add: toy_socket_eval Let_def split_beta seen_for_def new_puzzle_manager_def new_nonce_table_def)

theorem handshake_establishes_witness:
  "\<exists>A' B' c d. handshake toy_crypto toy_uninit toy_uninit \<lparr>host = 1, port = 2\<rparr> \<lparr>host = 3, port = 4\<rparr> [9, 8] 2 0 toy_socket toy_socket = Some (A', B')
     \<and> connected c 1 A' \<and> connected d 1 B' \<and> ends_agree c d"
proof -
  obtain key b where r: "length (data_ptr b) \<le> 1405" "initiator_ready toy_crypto (\<lambda>k. k) key 16 b \<lparr>host = 3, port = 4\<rparr> toy_socket"
      "host_ready toy_crypto (\<lambda>k. k) key 16 b toy_response \<lparr>host = 1, port = 2\<rparr> toy_socket"
    using toy_ready by blast
  show ?thesis
    using handshake_establishes[OF toy_laws r(2,3), of 2 "[9, 8]" toy_uninit 0 _ 0 "[]" "[]" toy_uninit] r(1) toy_socket_fields
    by (force simp: toy_uninit_def solves_def toy_crypto_def timeout_check_interval_def)
qed

end
