(* ===== verification/Socket_Safety.thy ===== *)
theory Socket_Safety
  imports Handshake
begin

text \<open>
  What the socket does with packets that are not part of an honest handshake, and with time that passes: packets without
  the right nonce change nothing, pending connections time out one by one; and the packets with which
  a stranger or a peer can stop the program.
\<close>

subsection \<open>Packets without the right nonce\<close>

lemma read_nonce:
  assumes "reading st pre (bytes_of_u64 i @ suf) tail"
  shows "\<exists>r st' r' v st''. read_u64 old st = Some (r, i, st') \<and> read_u64 old' st' = Some (r', v, st'')"
proof -
  have "succeeds (read_u64 old st \<bind> (\<lambda>(r, w, st'). Some (w, st'))) (\<lambda>(w, st'). w = i \<and> reading st' (pre @ bytes_of_u64 i) suf tail)"
    using assms by (rule u64b.parse) simp_all
  then obtain r st' where "read_u64 old st = Some (r, i, st')" "stream_wf st'"
    by (auto simp: succeeds_def dest: reading_wf(1) split: Option.bind_splits)
  then show ?thesis using read_u64_total[of st' old'] by blast
qed

text \<open>No connection and no pending connection at this address knows the nonce.\<close>

definition nonce_unknown :: "address \<Rightarrow> nonce \<Rightarrow> ('s, 'k) torque_socket \<Rightarrow> bool" where
  "nonce_unknown a i s \<longleftrightarrow>
     (case find_connection a s of None \<Rightarrow> False | Some None \<Rightarrow> True
      | Some (Some p) \<Rightarrow> (case deref_connection p s of None \<Rightarrow> False | Some c \<Rightarrow> initiator_nonce c \<noteq> i))
     \<and> (case find_pending_connection a s of None \<Rightarrow> False | Some None \<Rightarrow> True
      | Some (Some p) \<Rightarrow> (case pending_heap s p of None \<Rightarrow> False | Some pc \<Rightarrow> pc_initiator_nonce pc \<noteq> i))"

text \<open>C4. A challenge response, a rejection, an acceptance or a disconnect packet whose nonce does not belong to
  the connection and the pending connection at the sender's address, or that comes from an address with neither, is ignored:
  the socket stays exactly as it was, whatever the rest of the packet holds and however short it is.\<close>

theorem forged_packets_ignored:
  assumes "t \<in> {connect_challenge_response_packet, connect_reject_packet, connect_accept_packet, disconnect_packet}"
    and "nonce_unknown a i s" "length rest \<le> 1527"
  shows "receive K U a (packet_byte t # bytes_of_u64 i @ rest) s = Some s"
proof -
  obtain r tail where r: "reading r [packet_byte t] (bytes_of_u64 i @ rest) tail"
      "receive K U a (packet_byte t # bytes_of_u64 i @ rest) s = handler t K U a r s"
    using receive_dispatch[of "bytes_of_u64 i @ rest" t K U a s] assms(3) by auto
  obtain b r1 b' v r2 where rd: "read_u64 (u_nonce U 0) r = Some (b, i, r1)" "read_u64 (u_nonce U 1) r1 = Some (b', v, r2)"
    using read_nonce[OF r(1)] by blast
  from assms(1) consider "t = connect_challenge_response_packet" | "t = connect_reject_packet" | "t = connect_accept_packet" | "t = disconnect_packet"
    by blast
  then have "handler t K U a r s = Some s"
    by cases (use assms(2) rd in \<open>auto simp: nonce_unknown_def handle_connect_challenge_response_def handle_connect_reject_def
        handle_connect_accept_def handle_disconnect_def Let_def split: option.splits\<close>)
  then show ?thesis by (simp add: r(2))
qed

lemma toy_socket_empty: "pending_connections toy_socket = None" "pending_heap toy_socket = Map.empty" "find_connection a toy_socket = Some None"
    "find_connection_id j toy_socket = Some None"
  using ht_lookup_map[OF ht_init_wf[of 0 address_hash], of a] ht_lookup_map[OF ht_init_wf[of 0 "\<lambda>k. k"], of j]
  by (simp_all add: toy_socket_eval Let_def split_beta find_connection_def find_connection_id_def ht_init_map)

lemma toy_socket_unknown: "nonce_unknown a i toy_socket"
  by (simp add: nonce_unknown_def toy_socket_empty find_pending_connection_def find_node.simps)

theorem forged_packets_ignored_witness:
  "receive toy_crypto toy_uninit \<lparr>host = 1, port = 2\<rparr> (packet_byte disconnect_packet # bytes_of_u64 5 @ [1, 2, 3]) toy_socket = Some toy_socket"
  by (rule forged_packets_ignored) (simp_all add: toy_socket_unknown)

subsection \<open>Packets that stop the program\<close>

text \<open>C37. An introduction packet from an address without a connection stops the program: any datagram whose first byte is 7 makes the
  handler follow the null pointer it got for the introducer.\<close>

theorem introduction_from_stranger_traps:
  assumes "find_connection a s = Some None" "length rest < 1536"
  shows "receive K U a (packet_byte connection_introduction_packet # rest) s = None"
proof -
  obtain r tail where "reading r [packet_byte connection_introduction_packet] rest tail"
      "receive K U a (packet_byte connection_introduction_packet # rest) s = handle_introduction U a r s"
    using receive_dispatch[OF assms(2), of connection_introduction_packet K U a s] by auto
  then show ?thesis using assms(1) by (auto simp: handle_introduction_def Option.bind_eq_None_conv)
qed

theorem introduction_from_stranger_traps_witness:
  "receive toy_crypto toy_uninit \<lparr>host = 1, port = 2\<rparr> (packet_byte connection_introduction_packet # []) toy_socket = None"
  by (rule introduction_from_stranger_traps) (simp_all add: toy_socket_empty)

lemma key_parse_None:
  assumes "reading st pre (buffer_image b @ suf) tail" "public_buffer E pub key n b"
    and "\<And>k st'. ak_key_size k = n \<Longrightarrow> g k st' = None"
  shows "key_of_stream E junk len0 mem st \<bind> (\<lambda>(k, st'). g k st') = None"
proof -
  have "succeeds (key_of_stream E junk len0 mem st \<bind> (\<lambda>(k, st'). Some (k, st'))) (\<lambda>(k, st'). ak_key_size k = n)"
    using assms(1,2) by (rule key_parse) simp
  then show ?thesis using assms(3) by (auto simp: succeeds_def split: Option.bind_splits)
qed

text \<open>C38. A client that has solved its puzzle can stop a host by sending a valid public key of a size other than the host's: the
  shared secret is then the null pointer, and the cipher is built from it without a test.  The host traps
  whatever follows the key in the packet.\<close>

theorem wrong_key_size_traps:
  assumes "find_connection a s = Some None" "find_pending_connection a s = Some None" "allow_connections s"
    and "token = compute_client_identity_token K a i s"
    and "check_solution (cr_sha256 K) solution i h d token (puzzle_manager s) = Some (success, pm)"
    and "socket_key s = Some k" "public_buffer (cr_ecc K) pub ka n ba" "n \<noteq> ak_key_size k"
    and "length (data_ptr ba) + length rest \<le> 1503"
  shows "receive K U a (connect_request_head i h token d solution ba @ rest) s = None"
proof -
  let ?rest = "bytes_of_u64 i @ bytes_of_u64 h @ bytes_of_u32 token @ bytes_of_u32 d @ bytes_of_u32 solution @ buffer_image ba @ rest"
  obtain r tail where r: "reading r [3] ?rest tail"
      "receive K U a (connect_request_head i h token d solution ba @ rest) s = handle_connect_request K U a r s"
    using receive_dispatch[of ?rest connect_request_packet K U a s] assms(9)
    by (auto simp: connect_request_head_def length_buffer_image)
  show ?thesis
    unfolding r(2) handle_connect_request_def
    apply (rule u64b.parse_None[OF r(1)], simp)
    apply (rule u64b.parse_None, assumption, simp)
    apply (simp add: assms(1-3))
    apply (rule u32b.parse_None, assumption, simp)
    apply (simp add: assms(4))
    apply (rule u32b.parse_None, assumption, simp)
    apply (rule u32b.parse_None, assumption, simp)
    apply (simp add: assms(5)[unfolded assms(4)] assms(6) Let_def)
    apply (rule key_parse_None[OF _ assms(7)], assumption)
    using assms(8) apply (simp add: compute_shared_secret_key_def cipher_of_secret_def Let_def)
    done
qed

lemma toy_manager: "manager_wf (puzzle_manager toy_socket)" "allow_connections toy_socket"
  using toy_ready[of undefined undefined] by (auto simp: host_ready_def)

lemma toy_key_size: "\<exists>k. socket_key toy_socket = Some k \<and> ak_key_size k = 16"
  using toy_ready[of undefined undefined] by (auto simp: initiator_ready_def key_pair_def)

theorem wrong_key_size_traps_witness:
  "receive toy_crypto toy_uninit \<lparr>host = 1, port = 2\<rparr> (connect_request_head 5 (current_nonce (puzzle_manager toy_socket))
     (compute_client_identity_token toy_crypto \<lparr>host = 1, port = 2\<rparr> 5 toy_socket) 17 0
     (buffer_of (key_type_public # write_uint32_to_buffer 20 @ [21])) @ []) toy_socket = None"
proof -
  let ?token = "compute_client_identity_token toy_crypto \<lparr>host = 1, port = 2\<rparr> 5 toy_socket" and ?h = "current_nonce (puzzle_manager toy_socket)"
  have "verdict (cr_sha256 toy_crypto) 0 5 ?h 17 ?token (puzzle_manager toy_socket) = success"
    using toy_socket_fields(4) by (simp add: verdict_def initial_puzzle_difficulty_def solves_def toy_crypto_def)
  then obtain pm where pm: "check_solution (cr_sha256 toy_crypto) 0 5 ?h 17 ?token (puzzle_manager toy_socket) = Some (success, pm)"
    using check_solution_verdict[OF toy_laws(2) toy_manager(1), of 0 5 ?h 17 ?token] by auto
  obtain k where k: "socket_key toy_socket = Some k" "ak_key_size k = 16" using toy_key_size by blast
  have "public_buffer (cr_ecc toy_crypto) (\<lambda>k. k) 3 20 (buffer_of (key_type_public # write_uint32_to_buffer 20 @ [21]))"
    unfolding public_buffer_def by (rule exI[of _ "[21]"]) (simp add: toy_crypto_def toy_ecc_def)
  from wrong_key_size_traps[where rest = "[]" and U = toy_uninit, OF _ _ toy_manager(2) refl pm k(1) this] show ?thesis
    using k(2) by (simp add: toy_socket_empty find_pending_connection_def find_node.simps buffer_of_def write_uint32_to_buffer_def)
qed

text \<open>C40. A peer whose connection request is still pending can stop the program with the disconnect packet it may legitimately send: with
  the right nonces the handler reads the index of a connection through the null pointer instead of that of the pending
  connection.\<close>

theorem disconnect_while_pending_traps:
  assumes "find_connection a s = Some None" "find_pending_connection a s = Some (Some p)" "pending_heap s p = Some pc" "length rest \<le> 1519"
  shows "receive K U a (packet_byte disconnect_packet # bytes_of_u64 (pc_initiator_nonce pc) @ bytes_of_u64 (pc_host_nonce pc) @ rest) s = None"
proof -
  let ?rest = "bytes_of_u64 (pc_initiator_nonce pc) @ bytes_of_u64 (pc_host_nonce pc) @ rest"
  obtain r tail where r: "reading r [5] ?rest tail" "receive K U a (packet_byte disconnect_packet # ?rest) s = handle_disconnect K U a r s"
    using receive_dispatch[of ?rest disconnect_packet K U a s] assms(4) by auto
  show ?thesis
    unfolding r(2) handle_disconnect_def
    by (rule u64b.parse_None[OF r(1)], simp, rule u64b.parse_None, assumption, simp, simp add: assms(1-3))
qed

theorem disconnect_while_pending_traps_witness:
  "\<exists>s pc. connect toy_crypto toy_uninit \<lparr>host = 3, port = 4\<rparr> [] 0 toy_socket = Some (1, s) \<and> pending_heap s 0 = Some pc
     \<and> receive toy_crypto toy_uninit \<lparr>host = 3, port = 4\<rparr>
         (packet_byte disconnect_packet # bytes_of_u64 (pc_initiator_nonce pc) @ bytes_of_u64 (pc_host_nonce pc) @ []) s = None"
proof -
  obtain seq g1 i g2 where g: "random_integer (cr_yarrow toy_crypto) (random_gen toy_socket) = (seq, g1)" "random_nonce (cr_yarrow toy_crypto) g1 = (i, g2)"
    by fastforce
  have n: "next_connection_index toy_socket = 1" by (simp add: toy_socket_eval Let_def split_beta)
  let ?a = "\<lparr>host = 3, port = 4\<rparr>"
  let ?pc = "initiating toy_uninit i seq 1 \<lparr>data_ptr = [], buf_size = 0\<rparr> (now toy_socket) ?a None"
  obtain s where s: "connect toy_crypto toy_uninit ?a [] 0 toy_socket = Some (1, s)" "pending_connections s = Some 0" "pending_heap s 0 = Some ?pc"
      "connection_address_lookup_table s = connection_address_lookup_table toy_socket"
    using connect_sends[OF g, of 0 "[]" toy_uninit ?a] n toy_socket_fields(3) toy_socket_empty(1,2) by (simp add: with_sent_def)
  have "find_connection ?a s = Some None" using s(4) toy_socket_empty(3)[of ?a] by (simp add: find_connection_def)
  moreover have "find_pending_connection ?a s = Some (Some 0)"
    using s(2,3) by (simp add: find_pending_connection_def find_node_head address_eq_def initiating_def new_pending_connection_def)
  ultimately have "receive toy_crypto toy_uninit ?a
         (packet_byte disconnect_packet # bytes_of_u64 (pc_initiator_nonce ?pc) @ bytes_of_u64 (pc_host_nonce ?pc) @ []) s = None"
    by (rule disconnect_while_pending_traps[OF _ _ s(3)]) simp
  with s show ?thesis by blast
qed

subsection \<open>Removing from the list of pending connections\<close>

text \<open>The link the loop variable points to after the nodes \<open>qs\<close>.\<close>

definition link_after :: "ptr list \<Rightarrow> ptr option" where
  "link_after qs = (if qs = [] then None else Some (last qs))"

definition unlinked :: "'k pending_connection \<Rightarrow> 'k pending_connection" where
  "unlinked pc = pc\<lparr>pc_next := None\<rparr>"

lemma chain_relink:
  assumes "chain nxt h start (qs @ l # p # ps)" "h p = Some n" "nxt l' = nxt n"
  shows "chain nxt (h(l \<mapsto> l')) start (qs @ l # ps)"
  using assms
proof (induction qs arbitrary: start)
  case Nil
  have l: "l \<notin> set ps" using chain_distinct[OF Nil.prems(1)] by simp
  have c: "start = Some l" "chain nxt h (nxt n) ps" using Nil.prems(1,2) by (auto simp: chain_Cons)
  have "chain nxt (h(l \<mapsto> l')) (nxt l') ps" unfolding Nil.prems(3) by (rule chain_other[OF c(2) l])
  with c(1) show ?case by (simp add: chain_Cons del: fun_upd_apply add: fun_upd_same)
next
  case (Cons x qs)
  have "x \<noteq> l" using chain_distinct[OF Cons.prems(1)] by auto
  with Cons show ?case by (auto simp: chain_Cons)
qed

lemma chain_after: "chain nxt h start (qs @ p # ps) \<Longrightarrow> qs \<noteq> [] \<Longrightarrow> \<exists>l. h (last qs) = Some l \<and> nxt l = Some p"
  by (induction qs arbitrary: start) (auto simp: chain_Cons)

lemma chain_first: "chain nxt h start (p # ps) \<Longrightarrow> start = Some p \<and> (\<exists>n. h p = Some n)"
  by (auto simp: chain_Cons)

lemma get_link_after:
  assumes "pending_list s (qs @ ps)"
  shows "get_link (link_after qs) s = Some (case ps of [] \<Rightarrow> None | p # _ \<Rightarrow> Some p)"
proof (cases "qs = []")
  case True
  then show ?thesis using assms by (cases ps) (auto simp: link_after_def get_link_def pending_list_def dest: chain_first)
next
  case False
  then show ?thesis using assms chain_after[of pc_next "pending_heap s" "pending_connections s" qs] chain_last[of pc_next "pending_heap s" "pending_connections s" qs]
    by (cases ps) (fastforce simp: link_after_def get_link_def pending_list_def)+
qed

lemma unlink_pending:
  assumes "pending_list s (qs @ p # ps)" "pending_heap s p = Some pc"
  shows "\<exists>h st. set_link (link_after qs) (pc_next pc) s = Some (s\<lparr>pending_heap := h, pending_connections := st\<rparr>)
     \<and> chain pc_next (h(p := None)) st (qs @ ps) \<and> (\<forall>q. q \<notin> set qs \<longrightarrow> h q = pending_heap s q)
     \<and> (\<forall>q. map_option unlinked (h q) = map_option unlinked (pending_heap s q))"
proof (cases qs rule: rev_cases)
  case Nil
  then have "chain pc_next ((pending_heap s)(p := None)) (pc_next pc) ps"
    using assms chain_remove_head[of pc_next "pending_heap s" "pending_connections s" p ps] by (auto simp: pending_list_def)
  with Nil show ?thesis
    by (intro exI[of _ "pending_heap s"] exI[of _ "pc_next pc"]) (simp add: set_link_def link_after_def)
next
  case (snoc rs l)
  have ch: "chain pc_next (pending_heap s) (pending_connections s) (rs @ l # p # ps)" using assms(1) snoc by (simp add: pending_list_def)
  obtain lpc where lpc: "pending_heap s l = Some lpc" using chain_dom[OF ch] by auto
  have ne: "p \<noteq> l" "p \<notin> set (rs @ l # ps)" using chain_distinct[OF ch] by auto
  have "chain pc_next ((pending_heap s)(l \<mapsto> lpc\<lparr>pc_next := pc_next pc\<rparr>)) (pending_connections s) (rs @ l # ps)"
    by (rule chain_relink[OF ch assms(2)]) simp
  then have "chain pc_next (((pending_heap s)(l \<mapsto> lpc\<lparr>pc_next := pc_next pc\<rparr>))(p := None)) (pending_connections s) (rs @ l # ps)"
    by (rule chain_other) (rule ne(2))
  then show ?thesis
    using snoc lpc
    by (intro exI[of _ "(pending_heap s)(l \<mapsto> lpc\<lparr>pc_next := pc_next pc\<rparr>)"] exI[of _ "pending_connections s"])
      (auto simp: set_link_def link_after_def set_pending_def unlinked_def)
qed

subsection \<open>Timeouts of pending connections\<close>

definition due :: "time \<Rightarrow> 'k pending_connection \<Rightarrow> bool" where
  "due t pc \<longleftrightarrow> pc_last_send_time pc + uint (pc_retry_interval pc) < t"

definition expired :: "time \<Rightarrow> 'k pending_connection \<Rightarrow> bool" where
  "expired t pc \<longleftrightarrow> due t pc \<and> pc_retry_count pc = 0"

definition retried :: "time \<Rightarrow> 'k pending_connection \<Rightarrow> 'k pending_connection" where
  "retried t pc = (if due t pc then pc\<lparr>pc_retry_count := pc_retry_count pc - 1\<rparr> else pc)"

text \<open>Every connection the table of indices knows exists.\<close>

definition ids_valid :: "('s, 'k) torque_socket \<Rightarrow> bool" where
  "ids_valid s \<longleftrightarrow> ht_wf (\<lambda>k. k) (connection_id_lookup_table s)
     \<and> (\<forall>i p. ht_map (connection_id_lookup_table s) i = Some p \<longrightarrow> connection_heap s p \<noteq> None)"

text \<open>A socket that only sent packets.\<close>

definition only_sent :: "('s, 'k) torque_socket \<Rightarrow> ('s, 'k) torque_socket \<Rightarrow> bool" where
  "only_sent s s' \<longleftrightarrow> (\<exists>pkts. s' = s\<lparr>ts_io := (ts_io s)\<lparr>sent := sent (ts_io s) @ pkts\<rparr>\<rparr>)"

lemma only_sent_refl: "only_sent s s"
  by (auto simp: only_sent_def intro!: exI[of _ "[]"])

lemma only_sent_with: "only_sent s (with_sent a pkt s)"
  by (auto simp: only_sent_def with_sent_def send_to_def)

lemma only_sent_trans: "only_sent s s' \<Longrightarrow> only_sent s' s'' \<Longrightarrow> only_sent s s''"
  by (auto simp: only_sent_def)

lemma punch_loop_sends: "succeeds (punch_loop U i h as s) (only_sent s)"
proof (induction as arbitrary: s)
  case Nil
  then show ?case by (simp add: only_sent_refl)
next
  case (Cons a as)
  show ?case
    unfolding punch_loop.simps
    by (rule start_rules, simp, simp, (rule build_rules, assumption, simp, simp)+)
      (simp add: transmit_built succeeds_mono[OF Cons.IH] only_sent_trans[OF only_sent_with])
qed

lemma introduction_request_sends:
  assumes "pending_heap s p = Some pc" "ids_valid s"
  shows "succeeds (send_introduction_request U p s) (only_sent s)"
proof (cases "ht_map (connection_id_lookup_table s) (pc_introducer pc)")
  case None
  then show ?thesis using assms ht_lookup_map[of "\<lambda>k. k" "connection_id_lookup_table s" "pc_introducer pc"]
    by (simp add: send_introduction_request_def find_connection_id_def ids_valid_def only_sent_refl)
next
  case (Some cp)
  then obtain n where n: "connection_heap s cp = Some n" using assms(2) by (auto simp: ids_valid_def)
  have f: "find_connection_id (pc_introducer pc) s = Some (Some cp)"
    using assms(2) Some ht_lookup_map[of "\<lambda>k. k" "connection_id_lookup_table s" "pc_introducer pc"] by (simp add: find_connection_id_def ids_valid_def)
  show ?thesis
    unfolding send_introduction_request_def assms(1) f bind.bind_lunit option.case deref_connection_def n option.map
    by (rule start_rules, simp, simp, (rule build_rules, assumption, simp, simp)+) (simp add: transmit_built only_sent_with)
qed

lemma resend_sends:
  assumes "pending_heap s p = Some pc" "ids_valid s"
  shows "succeeds (resend U p pc s) (only_sent s)"
  using assms introduction_request_sends[OF assms, of U] punch_loop_sends[of U "pc_initiator_nonce pc" "pc_host_nonce pc" "pc_possible_addresses pc" s]
  by (cases "pc_state pc") (simp_all add: resend_def send_punch_def send_challenge_request_sends only_sent_with only_sent_refl)

text \<open>One socket after the walk over \<open>ps\<close>, with the nodes \<open>qs\<close> already behind it.\<close>

definition walked :: "time \<Rightarrow> ptr list \<Rightarrow> ptr list \<Rightarrow> torque_socket_event list \<Rightarrow> ('s, 'k) torque_socket \<Rightarrow> ('s, 'k) torque_socket \<Rightarrow> bool" where
  "walked t qs ps evs s s' \<longleftrightarrow>
     pending_list s' (qs @ filter (\<lambda>p. \<not> expired t (the (pending_heap s p))) ps)
     \<and> queue_holds (event_queue (ts_io s')) (evs @ map (\<lambda>p. new_event torque_connection_timed_out_event_type (pc_connection_index (the (pending_heap s p))))
           (filter (\<lambda>p. expired t (the (pending_heap s p))) ps))
     \<and> (\<forall>p \<in> set ps. \<not> expired t (the (pending_heap s p)) \<longrightarrow>
           map_option unlinked (pending_heap s' p) = map_option (unlinked \<circ> retried t) (pending_heap s p))
     \<and> (\<forall>p. p \<notin> set ps \<longrightarrow> map_option unlinked (pending_heap s' p) = map_option unlinked (pending_heap s p))
     \<and> now s' = now s"

lemma walked_Nil: "pending_list s qs \<Longrightarrow> queue_holds (event_queue (ts_io s)) evs \<Longrightarrow> walked t qs [] evs s s"
  by (simp add: walked_def)

text \<open>A node that is kept joins those behind the walk.\<close>

lemma walked_keep:
  assumes "walked t (qs @ [p]) ps evs s1 s'" "\<not> expired t pc" "pending_heap s p = Some pc" "pending_heap s1 p = Some (retried t pc)"
    and "\<forall>q. q \<noteq> p \<longrightarrow> pending_heap s1 q = pending_heap s q" "now s1 = now s" "p \<notin> set ps"
  shows "walked t qs (p # ps) evs s s'"
proof -
  have same: "pending_heap s1 q = pending_heap s q" if "q \<in> set ps" for q using assms(5,7) that by auto
  have f: "filter (\<lambda>q. Q (the (pending_heap s1 q))) ps = filter (\<lambda>q. Q (the (pending_heap s q))) ps" for Q
    by (rule filter_cong) (simp_all add: same)
  have m: "map (\<lambda>q. g (the (pending_heap s1 q))) (filter R ps) = map (\<lambda>q. g (the (pending_heap s q))) (filter R ps)" for g :: "_ \<Rightarrow> torque_socket_event" and R
    by (rule map_cong) (simp_all add: same)
  show ?thesis
    using assms unfolding walked_def f[of "expired t"] f[of "\<lambda>pc. \<not> expired t pc"] m[of "\<lambda>pc. new_event torque_connection_timed_out_event_type (pc_connection_index pc)"]
    by (auto simp: same)
qed

text \<open>An expired node is taken out.\<close>

lemma walked_drop:
  assumes "walked t qs ps (evs @ [new_event torque_connection_timed_out_event_type (pc_connection_index pc)]) s1 s'"
    and "expired t pc" "pending_heap s p = Some pc" "pending_heap s1 p = None"
    and "\<forall>q. q \<notin> set qs \<and> q \<noteq> p \<longrightarrow> pending_heap s1 q = pending_heap s q" "now s1 = now s" "distinct (qs @ p # ps)"
    and "\<forall>q. q \<noteq> p \<longrightarrow> map_option unlinked (pending_heap s1 q) = map_option unlinked (pending_heap s q)"
  shows "walked t qs (p # ps) evs s s'"
proof -
  have same: "pending_heap s1 q = pending_heap s q" if "q \<in> set ps" for q using assms(5,7) that by auto
  have f: "filter (\<lambda>q. Q (the (pending_heap s1 q))) ps = filter (\<lambda>q. Q (the (pending_heap s q))) ps" for Q
    by (rule filter_cong) (simp_all add: same)
  have m: "map (\<lambda>q. g (the (pending_heap s1 q))) (filter R ps) = map (\<lambda>q. g (the (pending_heap s q))) (filter R ps)" for g :: "_ \<Rightarrow> torque_socket_event" and R
    by (rule map_cong) (simp_all add: same)
  show ?thesis
    using assms unfolding walked_def f[of "expired t"] f[of "\<lambda>pc. \<not> expired t pc"] m[of "\<lambda>pc. new_event torque_connection_timed_out_event_type (pc_connection_index pc)"]
    by (auto simp: same)
qed

lemma pending_walk_ok:
  assumes "pending_list s (qs @ ps)" "queue_holds (event_queue (ts_io s)) evs" "ids_valid s" "t = now s"
  shows "succeeds (pending_walk U (link_after qs) s) (walked t qs ps evs s)"
  using assms
proof (induction ps arbitrary: qs s evs)
  case Nil
  then show ?case using get_link_after[of s qs "[]"] by (simp add: pending_walk.simps walked_Nil)
next
  case (Cons p ps)
  have link: "get_link (link_after qs) s = Some (Some p)" using get_link_after[OF Cons.prems(1)] by simp
  have dist: "distinct (qs @ p # ps)" using Cons.prems(1) unfolding pending_list_def by (rule chain_distinct)
  obtain pc where pc: "pending_heap s p = Some pc"
    using Cons.prems(1) chain_dom[of pc_next "pending_heap s" "pending_connections s"] by (fastforce simp: pending_list_def)
  have step: "link_after (qs @ [p]) = Some p" by (simp add: link_after_def)
  show ?case
  proof (cases "expired t pc")
    case True
    obtain e q1 where q1: "post_event torque_connection_timed_out_event_type (pc_connection_index pc) (event_queue (ts_io s)) = Some (e, q1)"
        "queue_holds q1 (evs @ [new_event torque_connection_timed_out_event_type (pc_connection_index pc)])"
      using post_event_holds[OF Cons.prems(2)] by blast
    have "pending_list (set_queue q1 s) (qs @ p # ps)" "pending_heap (set_queue q1 s) p = Some pc"
      using Cons.prems(1) pc by (simp_all add: set_queue_def pending_list_def)
    from unlink_pending[OF this] obtain h st where h: "set_link (link_after qs) (pc_next pc) (set_queue q1 s)
          = Some ((set_queue q1 s)\<lparr>pending_heap := h, pending_connections := st\<rparr>)" "chain pc_next (h(p := None)) st (qs @ ps)"
        "\<forall>q. q \<notin> set qs \<longrightarrow> h q = pending_heap s q" "\<forall>q. map_option unlinked (h q) = map_option unlinked (pending_heap s q)"
      by (auto simp: set_queue_def)
    let ?s1 = "(set_queue q1 s)\<lparr>pending_connections := st, pending_heap := h(p := None)\<rparr>"
    have "succeeds (pending_walk U (link_after qs) ?s1)
        (walked t qs ps (evs @ [new_event torque_connection_timed_out_event_type (pc_connection_index pc)]) ?s1)"
      by (rule Cons.IH) (use h(2) q1(2) Cons.prems(3,4) in \<open>simp_all add: pending_list_def set_queue_def ids_valid_def now_def\<close>)
    then have "succeeds (pending_walk U (link_after qs) ?s1) (walked t qs (p # ps) evs s)"
      by (rule succeeds_mono) (erule walked_drop[OF _ True pc], use h(3,4) dist in \<open>auto simp: set_queue_def now_def\<close>)
    then show ?thesis
      using True h(1) q1(1) pc link Cons.prems(4)
      by (subst pending_walk.simps) (simp add: post_def expired_def due_def)
  next
    case False
    have IH: "succeeds (pending_walk U (Some p) s1) (walked t qs (p # ps) evs s)"
      if "pending_heap s1 = (pending_heap s)(p \<mapsto> retried t pc)" "pending_connections s1 = pending_connections s" "event_queue (ts_io s1) = event_queue (ts_io s)"
        "now s1 = now s" "ids_valid s1" for s1
    proof -
      have "chain pc_next (pending_heap s1) (pending_connections s1) (qs @ p # ps)"
        unfolding that(1,2) by (rule chain_cong[OF Cons.prems(1)[unfolded pending_list_def]]) (simp add: pc retried_def)
      then have "succeeds (pending_walk U (link_after (qs @ [p])) s1) (walked t (qs @ [p]) ps evs s1)"
        by (intro Cons.IH) (use Cons.prems that in \<open>simp_all add: pending_list_def\<close>)
      then show ?thesis unfolding step
        by (rule succeeds_mono) (erule walked_keep[OF _ False pc], use that dist in auto)
    qed
    show ?thesis
    proof (cases "due t pc")
      case True
      let ?s1 = "set_pending p (retried t pc) s"
      have "succeeds (resend U p (retried t pc) ?s1) (only_sent ?s1)"
        by (rule resend_sends) (use Cons.prems(3) in \<open>simp_all add: set_pending_def ids_valid_def\<close>)
      then obtain s2 where s2: "resend U p (retried t pc) ?s1 = Some s2" "only_sent ?s1 s2" by (auto simp: succeeds_def)
      have "succeeds (pending_walk U (Some p) s2) (walked t qs (p # ps) evs s)"
        by (rule IH) (use s2(2) Cons.prems(3) in \<open>auto simp: only_sent_def set_pending_def now_def ids_valid_def\<close>)
      then show ?thesis
        using True False s2(1) pc link Cons.prems(4)
        by (subst pending_walk.simps) (simp add: expired_def due_def retried_def)
    next
      case False
      have "succeeds (pending_walk U (Some p) s) (walked t qs (p # ps) evs s)"
        by (rule IH) (use False Cons.prems(3) pc in \<open>auto simp: retried_def\<close>)
      then show ?thesis
        using False pc link Cons.prems(4) by (subst pending_walk.simps) (simp add: due_def)
    qed
  qed
qed

text \<open>C11. Timeouts: one pass over the pending connections always ends.  It posts one timed-out event, in the order of the
  list, for exactly those connections whose interval has passed with no retries left, and takes these
  out of the list; the others stay in the list in their order, with one retry less if their interval has
  passed and otherwise unchanged.\<close>

theorem pending_timeouts:
  assumes "pending_list s ps" "queue_holds (event_queue (ts_io s)) evs" "ids_valid s" "t = now s"
  shows "\<exists>s'. pending_walk U None s = Some s' \<and> pending_list s' (filter (\<lambda>p. \<not> expired t (the (pending_heap s p))) ps)
     \<and> queue_holds (event_queue (ts_io s')) (evs @ map (\<lambda>p. new_event torque_connection_timed_out_event_type (pc_connection_index (the (pending_heap s p))))
           (filter (\<lambda>p. expired t (the (pending_heap s p))) ps))
     \<and> (\<forall>p \<in> set ps. \<not> expired t (the (pending_heap s p)) \<longrightarrow>
           map_option unlinked (pending_heap s' p) = map_option (unlinked \<circ> retried t) (pending_heap s p))"
  using pending_walk_ok[of s "[]" ps evs t U] assms by (auto simp: succeeds_def walked_def link_after_def)

theorem pending_timeouts_witness:
  "\<exists>s s'. connect toy_crypto toy_uninit \<lparr>host = 3, port = 4\<rparr> [] 0 toy_socket = Some (1, s)
     \<and> pending_walk toy_uninit None (s\<lparr>ts_io := (ts_io s)\<lparr>process_start_time := 2501\<rparr>\<rparr>) = Some s' \<and> pending_list s' [0]
     \<and> map_option pc_retry_count (pending_heap s' 0) = Some 3"
proof -
  obtain seq g1 i g2 where g: "random_integer (cr_yarrow toy_crypto) (random_gen toy_socket) = (seq, g1)" "random_nonce (cr_yarrow toy_crypto) g1 = (i, g2)"
    by fastforce
  let ?a = "\<lparr>host = 3, port = 4\<rparr>"
  let ?pc = "initiating toy_uninit i seq 1 \<lparr>data_ptr = [], buf_size = 0\<rparr> 0 ?a None"
  have t: "next_connection_index toy_socket = 1" "now toy_socket = 0" "ids_valid toy_socket"
    using ht_init_wf[of 0 "\<lambda>k. k"]
    by (simp_all add: toy_socket_eval Let_def split_beta now_def ids_valid_def ht_init_map)
  obtain s where s: "connect toy_crypto toy_uninit ?a [] 0 toy_socket = Some (1, s)" "pending_connections s = Some 0" "pending_heap s 0 = Some ?pc"
      "event_queue (ts_io s) = event_queue (ts_io toy_socket)" "ids_valid s"
    using connect_sends[OF g, of 0 "[]" toy_uninit ?a] t toy_socket_fields(3) toy_socket_empty(1,2)
    by (simp add: with_sent_def send_to_def ids_valid_def)
  let ?s = "s\<lparr>ts_io := (ts_io s)\<lparr>process_start_time := 2501\<rparr>\<rparr>"
  have l: "pending_list ?s [0]" using s(2,3) by (simp add: pending_list_def chain_Cons initiating_def)
  have "queue_holds (event_queue (ts_io ?s)) []" "ids_valid ?s" using s(4,5) toy_socket_fields(2) by (simp_all add: ids_valid_def)
  note w = pending_timeouts[OF l this, of 2501 toy_uninit]
  have e: "\<not> expired 2501 ?pc" "retried 2501 ?pc = ?pc\<lparr>pc_retry_count := 3\<rparr>"
    by (simp_all add: expired_def retried_def due_def initiating_def challenge_retry_count_def challenge_retry_time_def)
  from w e s(3) obtain s' where s': "pending_walk toy_uninit None ?s = Some s'" "pending_list s' [0]"
      "map_option unlinked (pending_heap s' 0) = Some (unlinked (?pc\<lparr>pc_retry_count := 3\<rparr>))"
    by (auto simp: now_def)
  from s'(3) obtain pc' where "pending_heap s' 0 = Some pc'" "unlinked pc' = unlinked (?pc\<lparr>pc_retry_count := 3\<rparr>)" by auto
  moreover have "pc_retry_count pc' = pc_retry_count (unlinked pc')" by (simp add: unlinked_def)
  moreover have "pc_retry_count (unlinked (?pc\<lparr>pc_retry_count := 3\<rparr>)) = 3" by (simp add: unlinked_def)
  ultimately show ?thesis using s(1) s' by auto
qed

end
