(* ===== verification/Conversation.thy ===== *)
theory Conversation
  imports Handshake
begin

text \<open>
  Data over an established connection, from the call of the sending client to the events of the receiving one.
\<close>

subsection \<open>Sending data between two sockets\<close>

text \<open>The connection \<open>c\<close> stands at address \<open>p\<close> and both tables lead to it.\<close>

definition reaches :: "torque_connection \<Rightarrow> ptr \<Rightarrow> ('s, 'k) torque_socket \<Rightarrow> bool" where
  "reaches c p s \<longleftrightarrow> deref_connection p s = Some c
     \<and> find_connection_id (connection_index c) s = Some (Some p) \<and> find_connection (tc_address c) s = Some (Some p)"

text \<open>A call of \<^verbatim>\<open>send_to_connection\<close> whose datagram arrives, and a row of such calls.\<close>

definition send_data :: "('s, 'k) crypto \<Rightarrow> 'k uninit \<Rightarrow> 'k uninit \<Rightarrow> address \<Rightarrow> address \<Rightarrow> uint32 \<Rightarrow> byte list
    \<Rightarrow> ('s, 'k) torque_socket \<Rightarrow> ('s, 'k) torque_socket \<Rightarrow> (uint32 \<times> ('s, 'k) torque_socket \<times> ('s, 'k) torque_socket) option" where
  "send_data K U V a b index bytes A B = do {
     (sequence, A') \<leftarrow> send_to_connection K U index bytes (word_of_nat (length bytes)) A;
     B' \<leftarrow> deliver K V a A' b B;
     Some (sequence, A', B') }"

fun send_all :: "('s, 'k) crypto \<Rightarrow> 'k uninit \<Rightarrow> 'k uninit \<Rightarrow> address \<Rightarrow> address \<Rightarrow> uint32 \<Rightarrow> byte list list
    \<Rightarrow> ('s, 'k) torque_socket \<Rightarrow> ('s, 'k) torque_socket \<Rightarrow> (('s, 'k) torque_socket \<times> ('s, 'k) torque_socket) option" where
  "send_all K U V a b index [] A B = Some (A, B)"
| "send_all K U V a b index (m # ms) A B = do {
     (_, A', B') \<leftarrow> send_data K U V a b index m A B;
     send_all K U V a b index ms A' B' }"

lemma set_connection_reaches:
  assumes "reaches c p s" "connection_index c' = connection_index c" "tc_address c' = tc_address c"
  shows "\<exists>s'. set_connection p c' (s\<lparr>ts_io := io\<rparr>) = Some s' \<and> reaches c' p s' \<and> ts_io s' = io"
  using assms
  by (auto simp: reaches_def set_connection_def deref_connection_def find_connection_id_def find_connection_def
      split: Option.bind_splits)

lemma flag_set: "x AND 0x80 \<noteq> 0 \<longleftrightarrow> bit (x :: byte) 7"
proof -
  have "x AND 0x80 = (if bit x 7 then 0x80 else 0)" by (rule bit_word_eqI) (auto simp: bit_simps bit_numeral_rec less_Suc_eq numeral_eq_Suc)
  then show ?thesis by simp
qed

text \<open>A connection's packet from its peer goes to the connection.\<close>

lemma receive_connection_packet:
  assumes "reaches d q B" "pkt \<noteq> []" "bit (hd pkt) 7" "length pkt \<le> 1536"
  shows "receive K V (tc_address d) pkt B = do {
     (_, d', io') \<leftarrow> read_raw_packet (cr_ecb K) (u_bytes V) (u_word V 0) (u_float V)
        (make_stream (pkt @ map (u_bytes V) [length pkt..<1536]) (word_of_nat (length pkt))) d (ts_io B);
     set_connection q d' (B\<lparr>ts_io := io'\<rparr>) }"
proof -
  let ?st = "make_stream (pkt @ map (u_bytes V) [length pkt..<1536]) (word_of_nat (length pkt))"
  have st: "set_from_buffer (u_bytes V) pkt = ?st"
    by (simp add: set_from_buffer_def make_stream_def udp_max_datagram_size_def)
  have "load (base_ptr ?st) 0 = Some (hd pkt)"
    using assms(2) by (cases pkt) (simp_all add: load_def make_stream_def init_stream_def)
  then show ?thesis
    using assms(1,3) by (simp add: receive_def st process_packet_def flag_set reaches_def)
qed

lemma send_data_arrives:
  assumes ends: "reaches c p A" "reaches d q B" "tc_address c = b" "tc_address d = a"
    and c: "conn_wf c" "\<not> window_full c" "simulated_latency c = 0" "length bytes \<le> 1528"
    and d: "conn_wf d" "window_ok d" "simulated_packet_loss d = 0" "queue_holds (event_queue (ts_io B)) evs"
    and s: "0 < unat (last_send_seq c + 1 - last_seq_recvd d)" "unat (last_send_seq c + 1 - last_seq_recvd d) < 32"
    and h: "highest_acked_seq d \<le> last_seq_recvd c" "last_seq_recvd c \<le> last_send_seq d"
  shows "\<exists>A' B' d' w. send_data K U V a b (connection_index c) bytes A B = Some (last_send_seq c + 1, A', B')
     \<and> reaches (sent_state (cr_ecb K) data_packet c) p A' \<and> reaches d' q B' \<and> event_queue (ts_io A') = event_queue (ts_io A)
     \<and> last_seq_recvd d' = last_send_seq c + 1 \<and> highest_acked_seq d' = last_seq_recvd c
     \<and> same_end d d' \<and> same_acks (received_state 0 (last_send_seq c + 1) (last_seq_recvd c) w d) d'
     \<and> (ack_byte_count c \<noteq> 0 \<longrightarrow> w = take_bit (8 * unat (ack_byte_count c)) (hd (ack_mask c)))
     \<and> queue_holds (event_queue (ts_io B')) (evs @ notifications d (last_seq_recvd c) w
         @ [packet_event (connection_index d) (last_send_seq c + 1) bytes])"
proof -
  have k: "unat (word_of_nat (length bytes) :: uint32) = length bytes" using c(4) by (intro unat_of_nat_small) simp
  let ?c = "sent_state (cr_ecb K) data_packet c"
  from data_packet_arrives[OF c(1,2) k c(4) d s h, of "cr_ecb K" "u_bytes U" "ts_io A" "cr_ecb K" "u_bytes V" "u_word V 0" "u_float V"]
  obtain pkt where pkt: "send_packet (cr_ecb K) (u_bytes U) data_packet bytes (word_of_nat (length bytes)) c (ts_io A)
       = Some (last_send_seq c + 1, ?c, emit c pkt (ts_io A))" "length pkt \<le> 1536" "pkt \<noteq> []" "bit (hd pkt) 7"
    and arrives: "\<And>tail. \<exists>d' io' w. read_raw_packet (cr_ecb K) (u_bytes V) (u_word V 0) (u_float V) (make_stream (pkt @ tail) (word_of_nat (length pkt))) d (ts_io B)
          = Some (True, d', io') \<and> last_seq_recvd d' = last_send_seq c + 1 \<and> highest_acked_seq d' = last_seq_recvd c
     \<and> same_end d d' \<and> same_acks (received_state 0 (last_send_seq c + 1) (last_seq_recvd c) w d) d'
     \<and> (ack_byte_count c \<noteq> 0 \<longrightarrow> w = take_bit (8 * unat (ack_byte_count c)) (hd (ack_mask c)))
     \<and> queue_holds (event_queue io') (evs @ notifications d (last_seq_recvd c) w
         @ [packet_event (connection_index d) (last_send_seq c + 1) bytes])"
    by blast
  obtain d' io' w where d': "read_raw_packet (cr_ecb K) (u_bytes V) (u_word V 0) (u_float V) (make_stream (pkt @ map (u_bytes V) [length pkt..<1536]) (word_of_nat (length pkt))) d (ts_io B)
          = Some (True, d', io')" "last_seq_recvd d' = last_send_seq c + 1" "highest_acked_seq d' = last_seq_recvd c"
      "same_end d d'" "same_acks (received_state 0 (last_send_seq c + 1) (last_seq_recvd c) w d) d'"
      "ack_byte_count c \<noteq> 0 \<longrightarrow> w = take_bit (8 * unat (ack_byte_count c)) (hd (ack_mask c))"
      "queue_holds (event_queue io') (evs @ notifications d (last_seq_recvd c) w @ [packet_event (connection_index d) (last_send_seq c + 1) bytes])"
    using arrives[of "map (u_bytes V) [length pkt..<1536]"] by blast
  have "tc_address ?c = tc_address c" by (simp add: sent_state_def after_header_def Let_def)
  from set_connection_reaches[OF ends(1) _ this] obtain A' where A': "set_connection p ?c (A\<lparr>ts_io := emit c pkt (ts_io A)\<rparr>) = Some A'"
      "reaches ?c p A'" "ts_io A' = emit c pkt (ts_io A)" by auto
  from set_connection_reaches[OF ends(2), of d'] d'(4) obtain B' where B': "set_connection q d' (B\<lparr>ts_io := io'\<rparr>) = Some B'"
      "reaches d' q B'" "ts_io B' = io'" by (auto simp: same_end_def)
  have "send_to_connection K U (connection_index c) bytes (word_of_nat (length bytes)) A = Some (last_send_seq c + 1, A')"
    using ends(1) pkt(1) A'(1) by (simp add: send_to_connection_def reaches_def)
  moreover have "deliver K V a A' b B = Some B'"
    using A'(3) c(3) ends(3,4) receive_connection_packet[OF ends(2) pkt(3,4,2), of K V] d'(1) B'(1)
    by (simp add: deliver_def emit_def send_to_def)
  ultimately have "send_data K U V a b (connection_index c) bytes A B = Some (last_send_seq c + 1, A', B')" by (simp add: send_data_def)
  then show ?thesis using A' B' d' by (intro exI[of _ A'] exI[of _ B'] exI[of _ d'] exI[of _ w]) simp
qed

subsection \<open>A row of packets\<close>

text \<open>The connections \<open>c\<close> and \<open>d\<close> after \<open>c\<close> has sent \<open>k\<close> packets, all of which \<open>d\<close> received, without a packet back.\<close>

definition ahead :: "nat \<Rightarrow> torque_connection \<Rightarrow> torque_connection \<Rightarrow> bool" where
  "ahead k c d \<longleftrightarrow> k \<le> 30 \<and> conn_wf c \<and> conn_wf d \<and> simulated_latency c = 0 \<and> simulated_latency d = 0
     \<and> simulated_packet_loss c = 0 \<and> simulated_packet_loss d = 0
     \<and> last_send_seq c = last_seq_recvd d \<and> last_seq_recvd c = last_send_seq d \<and> highest_acked_seq d = last_send_seq d
     \<and> last_send_seq c = highest_acked_seq c + word_of_nat k \<and> last_seq_recvd d = last_recv_ack_ack d + word_of_nat k
     \<and> (\<forall>i < k. bit (hd (ack_mask d)) i)"

definition packet_events :: "uint32 \<Rightarrow> uint32 \<Rightarrow> byte list list \<Rightarrow> torque_socket_event list" where
  "packet_events index s ms = map (\<lambda>j. packet_event index (s + 1 + word_of_nat j) (ms ! j)) [0..<length ms]"

lemma packet_events_simps: "packet_events index s [] = []"
    "packet_events index s (m # ms) = packet_event index (s + 1) m # packet_events index (s + 1) ms"
  by (simp_all add: packet_events_def map_upt_Suc ac_simps del: upt_Suc)

lemma no_notifications: "h = highest_acked_seq c \<Longrightarrow> notifications c h w = []"
  by (simp add: notifications_def)

lemma small_window: "k \<le> 30 \<Longrightarrow> unat (word_of_nat k :: uint32) = k"
  by (rule unat_of_nat_small) simp

lemma ahead_window: "ahead k c d \<Longrightarrow> k < 30 \<Longrightarrow> \<not> window_full c"
proof -
  assume "ahead k c d" "k < 30"
  then have "last_send_seq c = highest_acked_seq c + word_of_nat k" unfolding ahead_def by blast
  then have "last_send_seq c - highest_acked_seq c = word_of_nat k" by simp
  then show ?thesis using \<open>k < 30\<close> small_window[of k] by (simp add: window_full_def header_constants push_bit_eq_mult word_le_nat_alt)
qed

lemma ahead_step:
  assumes "ahead k c d" "k < 30" "same_end d d'" "last_seq_recvd d' = last_send_seq c + 1" "highest_acked_seq d' = last_seq_recvd c"
    and "same_acks (received_state 0 (last_send_seq c + 1) (last_seq_recvd c) w d) d'"
  shows "ahead (Suc k) (sent_state ecb data_packet c) d'"
proof -
  have r: "last_recv_ack_ack (received_state 0 (last_send_seq c + 1) (last_seq_recvd c) w d) = last_recv_ack_ack d"
    using assms(1,2) small_window[of "Suc k"] add.commute[of "1 :: uint32" "word_of_nat k"]
    by (auto simp: ahead_def received_state_def keep_alive_def Let_def header_constants push_bit_eq_mult word_less_nat_alt)
  have m: "hd (ack_mask (received_state 0 (last_send_seq c + 1) (last_seq_recvd c) w d)) = push_bit 1 (hd (ack_mask d)) OR 1"
    using assms(1) by (simp add: ahead_def)
  have "bit (push_bit 1 (hd (ack_mask d)) OR 1) i" if "i < Suc k" for i
    using that assms(1,2) by (cases i) (auto simp: ahead_def bit_push_bit_iff bit_or_iff simp del: push_bit_Suc push_bit_of_Suc_0 One_nat_def)
  moreover have "highest_acked_seq c = last_recv_ack_ack d" using assms(1) by (auto simp: ahead_def)
  ultimately show ?thesis
    using assms r m sent_state_wf[of c ecb data_packet]
    by (simp add: ahead_def same_end_def same_acks_def sent_state_def after_header_def Let_def)
qed

lemma send_all_arrives:
  assumes "reaches c p A" "reaches d q B" "tc_address c = b" "tc_address d = a" "ahead k c d" "k + length ms \<le> 30"
    and "\<forall>m \<in> set ms. length m \<le> 1528" "queue_holds (event_queue (ts_io B)) evs"
  shows "\<exists>A' B' c' d'. send_all K U V a b (connection_index c) ms A B = Some (A', B') \<and> reaches c' p A' \<and> reaches d' q B'
     \<and> ahead (k + length ms) c' d' \<and> event_queue (ts_io A') = event_queue (ts_io A)
     \<and> highest_acked_seq c' = highest_acked_seq c \<and> connection_index c' = connection_index c \<and> tc_address c' = tc_address c
     \<and> same_end d d' \<and> queue_holds (event_queue (ts_io B')) (evs @ packet_events (connection_index d) (last_send_seq c) ms)"
  using assms
proof (induction ms arbitrary: c d k A B evs)
  case Nil
  then have "same_end d d" by (simp add: ahead_def same_end_def window_ok_def)
  with Nil show ?case by (intro exI[of _ A] exI[of _ B] exI[of _ c] exI[of _ d]) (simp add: packet_events_simps)
next
  case (Cons m ms)
  note ah = Cons.prems(5)
  have k: "k < 30" using Cons.prems(6) by simp
  have win: "window_ok d" using ah by (simp add: ahead_def window_ok_def)
  from send_data_arrives[OF Cons.prems(1-4) _ ahead_window[OF ah k] _ _ _ win, of m evs K U V] ah Cons.prems(7,8)
  obtain A' B' d' w where st: "send_data K U V a b (connection_index c) m A B = Some (last_send_seq c + 1, A', B')"
      "reaches (sent_state (cr_ecb K) data_packet c) p A'" "reaches d' q B'" "event_queue (ts_io A') = event_queue (ts_io A)"
      "last_seq_recvd d' = last_send_seq c + 1" "highest_acked_seq d' = last_seq_recvd c" "same_end d d'"
      "same_acks (received_state 0 (last_send_seq c + 1) (last_seq_recvd c) w d) d'"
      "queue_holds (event_queue (ts_io B')) (evs @ notifications d (last_seq_recvd c) w @ [packet_event (connection_index d) (last_send_seq c + 1) m])"
    by (auto simp: ahead_def)
  let ?c = "sent_state (cr_ecb K) data_packet c"
  have q: "queue_holds (event_queue (ts_io B')) (evs @ [packet_event (connection_index d) (last_send_seq c + 1) m])"
    using st(9) ah by (simp add: no_notifications ahead_def)
  have same: "tc_address ?c = b" "tc_address d' = a" "connection_index d' = connection_index d"
    using Cons.prems(3,4) st(7) by (simp_all add: same_end_def sent_state_def after_header_def Let_def)
  have "Suc k + length ms \<le> 30" "\<forall>m \<in> set ms. length m \<le> 1528" using Cons.prems(6,7) by simp_all
  from Cons.IH[OF st(2,3) same(1,2) ahead_step[OF ah k st(7,5,6,8)] this q] st(1,4,7) same show ?case
    by (fastforce simp: packet_events_simps same_end_def sent_state_def after_header_def Let_def)
qed

subsection \<open>The reply\<close>

text \<open>The answer to \<open>k\<close> packets tells their sender that all of them arrived.\<close>

definition delivered_events :: "uint32 \<Rightarrow> uint32 \<Rightarrow> nat \<Rightarrow> torque_socket_event list" where
  "delivered_events index s k = map (\<lambda>j. notify_event index (s + 1 + word_of_nat j) True) [0..<k]"

lemma ack_bytes_cover:
  assumes "ahead k c d"
  shows "k \<le> 8 * unat (ack_byte_count d)"
proof -
  have "last_seq_recvd d = last_recv_ack_ack d + word_of_nat k" "k \<le> 30" using assms by (auto simp: ahead_def)
  moreover have "unat (word_of_nat k + 7 :: uint32) = k + 7"
    using unat_of_nat_small[of "k + 7", where 'a = 32] \<open>k \<le> 30\<close> by simp
  ultimately have "unat (ack_byte_count d) = (k + 7) div 8"
    by (simp add: ack_byte_count_def unat_drop3)
  then show ?thesis by simp
qed

lemma all_delivered:
  assumes "ahead k c d" "ack_byte_count d \<noteq> 0 \<longrightarrow> w = take_bit (8 * unat (ack_byte_count d)) (hd (ack_mask d))"
  shows "notifications c (last_seq_recvd d) w = delivered_events (connection_index c) (highest_acked_seq c) k"
proof -
  have "last_seq_recvd d = highest_acked_seq c + word_of_nat k" using assms(1) unfolding ahead_def by metis
  then have n: "unat (last_seq_recvd d - highest_acked_seq c) = k" using assms(1) small_window by (simp add: ahead_def)
  have "bit w i" if "i < k" for i
  proof -
    have "ack_byte_count d \<noteq> 0" using that ack_bytes_cover[OF assms(1)] by auto
    then show ?thesis using that assms ack_bytes_cover[OF assms(1)] by (simp add: bit_take_bit_iff ahead_def)
  qed
  then show ?thesis by (simp add: notifications_def delivered_events_def n)
qed

lemma reply_arrives:
  assumes "reaches c p A" "reaches d q B" "tc_address c = b" "tc_address d = a" "ahead k c d"
    and "unat (highest_acked_seq c) + 30 < 2 ^ 32" "length reply \<le> 1528" "queue_holds (event_queue (ts_io A)) evs"
  shows "\<exists>A' B'. send_data K V U b a (connection_index d) reply B A = Some (last_send_seq d + 1, B', A')
     \<and> event_queue (ts_io B') = event_queue (ts_io B)
     \<and> queue_holds (event_queue (ts_io A')) (evs @ delivered_events (connection_index c) (highest_acked_seq c) k
         @ [packet_event (connection_index c) (last_send_seq d + 1) reply])"
proof -
  note ah = assms(5)
  have s: "last_send_seq c = highest_acked_seq c + word_of_nat k" "k \<le> 30" using ah unfolding ahead_def by blast+
  then have "unat (last_send_seq c) = unat (highest_acked_seq c) + k"
    using small_window[OF s(2)] assms(6) unat_add_lem[THEN iffD1, of "highest_acked_seq c" "word_of_nat k"] by simp
  then have win: "window_ok c" "highest_acked_seq c \<le> last_send_seq c" using s(2) by (simp_all add: window_ok_def word_le_nat_alt)
  have "\<not> window_full d" using ah by (simp add: ahead_def window_full_def header_constants push_bit_eq_mult)
  from send_data_arrives[OF assms(2,1,4,3) _ this _ assms(7) _ win(1) _ assms(8), of K V U] ah win(2)
  obtain B' A' w where "send_data K V U b a (connection_index d) reply B A = Some (last_send_seq d + 1, B', A')"
     "event_queue (ts_io B') = event_queue (ts_io B)"
     "ack_byte_count d \<noteq> 0 \<longrightarrow> w = take_bit (8 * unat (ack_byte_count d)) (hd (ack_mask d))"
     "queue_holds (event_queue (ts_io A')) (evs @ notifications c (last_seq_recvd d) w @ [packet_event (connection_index c) (last_send_seq d + 1) reply])"
    unfolding ahead_def by auto
  then show ?thesis using all_delivered[OF ah] by auto
qed

subsection \<open>From the first packet to the reply\<close>

lemma agreeing_ends_ahead:
  assumes "ends_agree c d" "length (last_seq_recvd_at_send c) = 32" "length (last_seq_recvd_at_send d) = 32"
  shows "ahead 0 c d"
  using assms by (simp add: ends_agree_def idle_def ahead_def conn_wf_def max_ack_mask_size_def header_constants)

text \<open>C1. A conversation: two sockets perform the handshake, the initiator sends up to 30 packets over the new connection and the
  host answers with one.  Every call succeeds.  The host's client sees the connection request, the established connection and then
  exactly the packets in the order they were sent, under consecutive sequence numbers; the initiator's client sees the
  challenge, the established connection, a notification of delivery for each of its packets in their order, and the
  reply.\<close>

theorem conversation:
  assumes "ecc_law (cr_ecc K) pub" "digest_law (cr_sha256 K)" "yarrow_law (cr_yarrow K)"
    and "initiator_ready K pub ka m ba b A" "host_ready K pub kb m bb response a B"
    and "unat n = length bytes" "length (data_ptr ba) + length bytes \<le> 1470" "length (pc_symmetric_key (u_pending V)) = 16"
    and "t \<le> last_timeout_check_time A + timeout_check_interval"
    and "i = fst (random_nonce (cr_yarrow K) (snd (random_integer (cr_yarrow K) (random_gen A))))"
    and "solves (cr_sha256 K) sol i (current_nonce (puzzle_manager B)) 17 (compute_client_identity_token K a i B)"
    and "i \<notin> seen_for (puzzle_manager B) (current_nonce (puzzle_manager B))"
    and "queue_holds (event_queue (ts_io A)) evs" "queue_holds (event_queue (ts_io B)) evs'"
    and "length (last_seq_recvd_at_send (u_connection U)) = 32" "length (last_seq_recvd_at_send (u_connection V)) = 32"
    and "s = fst (random_integer (cr_yarrow K) (random_gen A))" "unat s + 30 < 2 ^ 32"
    and "length ms \<le> 30" "\<forall>m \<in> set ms. length m \<le> 1528" "length reply \<le> 1528"
  shows "\<exists>A1 B1 A2 B2 A3 B3 r. handshake K U V a b bytes n t A B = Some (A1, B1)
     \<and> send_all K U V a b (next_connection_index A) ms A1 B1 = Some (A2, B2)
     \<and> send_data K V U b a (next_connection_index B) reply B2 A2 = Some (r, B3, A3)
     \<and> queue_holds (event_queue (ts_io B3)) (evs'
          @ [keyed_event torque_connection_requested_event_type (next_connection_index B) ba \<lparr>data_ptr = bytes, buf_size = n\<rparr>,
             new_event torque_connection_established_event_type (next_connection_index B)]
          @ packet_events (next_connection_index B) s ms)
     \<and> queue_holds (event_queue (ts_io A3)) (evs
          @ [keyed_event torque_connection_challenge_response_event_type (next_connection_index A) bb response,
             new_event torque_connection_established_event_type (next_connection_index A)]
          @ delivered_events (next_connection_index A) s (length ms) @ [packet_event (next_connection_index A) r reply])"
proof -
  obtain A1 B1 c d where h: "handshake K U V a b bytes n t A B = Some (A1, B1)" "connected c (ts_fresh A + 1) A1" "connected d (ts_fresh B + 1) B1"
      "ends_agree c d" "tc_address c = b" "tc_address d = a" "last_send_seq c = s"
      "last_seq_recvd_at_send c = last_seq_recvd_at_send (u_connection U)" "last_seq_recvd_at_send d = last_seq_recvd_at_send (u_connection V)"
      "connection_index c = next_connection_index A" "connection_index d = next_connection_index B"
    and qA: "queue_holds (event_queue (ts_io A1)) (evs @ [keyed_event torque_connection_challenge_response_event_type (next_connection_index A) bb response,
             new_event torque_connection_established_event_type (next_connection_index A)])"
    and qB: "queue_holds (event_queue (ts_io B1)) (evs' @ [keyed_event torque_connection_requested_event_type (next_connection_index B) ba \<lparr>data_ptr = bytes, buf_size = n\<rparr>,
             new_event torque_connection_established_event_type (next_connection_index B)])"
    using handshake_completes[OF assms(1-14), of U] assms(17) by blast
  have r: "reaches c (ts_fresh A + 1) A1" "reaches d (ts_fresh B + 1) B1" using h(2,3) by (simp_all add: connected_def reaches_def)
  have ah: "ahead 0 c d" using agreeing_ends_ahead[OF h(4)] h(8,9) assms(15,16) by simp
  have s: "highest_acked_seq c = s" using h(4,7) by (simp add: ends_agree_def idle_def)
  from send_all_arrives[OF r h(5,6) ah _ assms(20) qB, of K U V] assms(19) h(7,10,11) obtain A2 B2 c' d' where
    two: "send_all K U V a b (next_connection_index A) ms A1 B1 = Some (A2, B2)" "reaches c' (ts_fresh A + 1) A2" "reaches d' (ts_fresh B + 1) B2"
      "ahead (length ms) c' d'" "event_queue (ts_io A2) = event_queue (ts_io A1)" "highest_acked_seq c' = highest_acked_seq c"
      "connection_index c' = connection_index c" "tc_address c' = tc_address c" "same_end d d'"
    and qB2: "queue_holds (event_queue (ts_io B2)) ((evs' @ [keyed_event torque_connection_requested_event_type (next_connection_index B) ba \<lparr>data_ptr = bytes, buf_size = n\<rparr>,
             new_event torque_connection_established_event_type (next_connection_index B)]) @ packet_events (next_connection_index B) s ms)"
    by auto
  have d': "connection_index d' = next_connection_index B" "tc_address d' = a" "tc_address c' = b" "unat (highest_acked_seq c') + 30 < 2 ^ 32"
    using two(6,8,9) h(5,6,11) s assms(18) by (simp_all add: same_end_def)
  from reply_arrives[OF two(2,3) d'(3,2) two(4) d'(4) assms(21) qA[folded two(5)], of K V U] obtain A3 B3 where
    "send_data K V U b a (next_connection_index B) reply B2 A2 = Some (last_send_seq d' + 1, B3, A3)" "event_queue (ts_io B3) = event_queue (ts_io B2)"
    "queue_holds (event_queue (ts_io A3)) ((evs @ [keyed_event torque_connection_challenge_response_event_type (next_connection_index A) bb response,
             new_event torque_connection_established_event_type (next_connection_index A)])
       @ delivered_events (next_connection_index A) s (length ms) @ [packet_event (next_connection_index A) (last_send_seq d' + 1) reply])"
    using d'(1) two(6,7) h(10) s by auto
  with h(1) two(1) qB2 show ?thesis by (intro exI[of _ A1] exI[of _ B1] exI[of _ A2] exI[of _ B2] exI[of _ A3] exI[of _ B3] exI[of _ "last_send_seq d' + 1"]) simp
qed

lemma toy_sequence: "fst (random_integer (cr_yarrow toy_crypto) (random_gen toy_socket)) = 0x0C0C0C0C"
proof -
  have "random_state (random_gen toy_socket) = 12"
    by (simp add: toy_socket_eval toy_crypto_def toy_ecc_def Let_def split_beta generate_key_def random_buffer_def
        random_nonce_def new_puzzle_manager_def new_random_generator_def)
  moreover have "replicate 4 x = [x, x, x, x]" for x :: byte by (simp add: numeral_eq_Suc)
  ultimately show ?thesis
    by (simp add: random_integer_def random_buffer_def toy_crypto_def push_bit_eq_mult split_beta)
qed

theorem conversation_witness:
  "\<exists>A1 B1 A2 B2 A3 B3 r xs ys. handshake toy_crypto toy_uninit toy_uninit \<lparr>host = 1, port = 2\<rparr> \<lparr>host = 3, port = 4\<rparr> [9, 8] 2 0 toy_socket toy_socket = Some (A1, B1)
     \<and> send_all toy_crypto toy_uninit toy_uninit \<lparr>host = 1, port = 2\<rparr> \<lparr>host = 3, port = 4\<rparr> 1 [[1, 2], [3]] A1 B1 = Some (A2, B2)
     \<and> send_data toy_crypto toy_uninit toy_uninit \<lparr>host = 3, port = 4\<rparr> \<lparr>host = 1, port = 2\<rparr> 1 [4] B2 A2 = Some (r, B3, A3)
     \<and> queue_holds (event_queue (ts_io B3)) (xs @ [packet_event 1 0x0C0C0C0D [1, 2], packet_event 1 0x0C0C0C0E [3]])
     \<and> queue_holds (event_queue (ts_io A3)) (ys @ [notify_event 1 0x0C0C0C0D True, notify_event 1 0x0C0C0C0E True, packet_event 1 r [4]])"
proof -
  obtain key b where r: "length (data_ptr b) \<le> 1405" "initiator_ready toy_crypto (\<lambda>k. k) key 16 b \<lparr>host = 3, port = 4\<rparr> toy_socket"
      "host_ready toy_crypto (\<lambda>k. k) key 16 b toy_response \<lparr>host = 1, port = 2\<rparr> toy_socket"
    using toy_ready by blast
  have n: "next_connection_index toy_socket = 1" by (simp add: toy_socket_eval Let_def split_beta)
  have pe: "packet_events 1 0x0C0C0C0C [[1, 2], [3]] = [packet_event 1 0x0C0C0C0D [1, 2], packet_event 1 0x0C0C0C0E [3]]"
    by (simp add: packet_events_simps)
  have de: "delivered_events 1 0x0C0C0C0C (length [[1 :: byte, 2], [3]]) = [notify_event 1 0x0C0C0C0D True, notify_event 1 0x0C0C0C0E True]"
    by (simp add: delivered_events_def upt_rec)
  have a: "unat (2 :: uint32) = length [9 :: byte, 8]" "length (data_ptr b) + length [9 :: byte, 8] \<le> 1470" "length (pc_symmetric_key (u_pending toy_uninit)) = 16"
      "0 \<le> last_timeout_check_time toy_socket + timeout_check_interval" "length (last_seq_recvd_at_send (u_connection toy_uninit)) = 32"
      "solves (cr_sha256 toy_crypto) 0 i h 17 token" "i \<notin> seen_for (puzzle_manager toy_socket) (current_nonce (puzzle_manager toy_socket))" for i h token
    using r(1) toy_socket_fields by (simp_all add: toy_uninit_def solves_def toy_crypto_def timeout_check_interval_def blank_connection_def)
  have l: "unat (0x0C0C0C0C :: uint32) + 30 < 2 ^ 32" "length [[1 :: byte, 2], [3]] \<le> 30" "\<forall>m \<in> set [[1 :: byte, 2], [3]]. length m \<le> 1528" "length [4 :: byte] \<le> 1528"
    by simp_all
  note w = conversation[OF toy_laws r(2,3) a(1-4) refl a(6,7) toy_socket_fields(2,2) a(5,5) toy_sequence[symmetric] l, unfolded n pe de]
  have assoc: "xs @ ys @ [x, y] @ [z] = (xs @ ys) @ [x, y, z]" "xs @ ys @ [x, y] = (xs @ ys) @ [x, y]" for xs ys and x y z :: torque_socket_event by simp_all
  show ?thesis using w unfolding assoc by blast
qed

end
