(* ===== verification/Disconnect.thy ===== *)
theory Disconnect
  imports Conversation
begin

text \<open>
  The end of a connection: a call of \<^verbatim>\<open>disconnect\<close> whose packet arrives, and the destructor of a socket.
\<close>

subsection \<open>The packet\<close>

definition disconnect_head :: "torque_connection \<Rightarrow> byte list" where
  "disconnect_head c = packet_byte disconnect_packet # bytes_of_u64 (initiator_nonce c) @ bytes_of_u64 (host_nonce c)"

definition disconnect_body :: "uint32 \<Rightarrow> uint32 \<Rightarrow> byte list \<Rightarrow> byte list" where
  "disconnect_body reason n bytes = bytes_of_u32 reason @ bytes_of_u32 n @ bytes"

definition disconnect_bytes :: "('s, 'k) crypto \<Rightarrow> symmetric_cipher \<Rightarrow> torque_connection \<Rightarrow> uint32 \<Rightarrow> uint32 \<Rightarrow> byte list \<Rightarrow> byte list" where
  "disconnect_bytes K cipher c reason n bytes = disconnect_head c @ sealed K cipher (disconnect_head c) (disconnect_body reason n bytes)"

lemma send_disconnect_sends:
  assumes "digest_law (cr_sha256 K)" "cipher_of_secret (cr_ecb K) (shared_secret c) = Some cipher" "unat n = length bytes" "length bytes \<le> 511"
  shows "send_disconnect K U c reason bytes n s = Some (with_sent (tc_address c) (disconnect_bytes K cipher c reason n bytes) s)"
  unfolding send_disconnect_def assms(2) bind.bind_lunit succeeds_eq[symmetric] Let_def
  apply (insert assms(1,3,4), rule start_rules, simp, simp, (rule build_rules, assumption, simp, simp)+)
  apply (simp only: built_aligned)
  apply (rule build_rules, assumption, simp, simp)+
  apply (rule seal_build[where pre = "disconnect_head c" and plain = "disconnect_body reason n bytes"])
  apply (simp add: disconnect_head_def disconnect_body_def)
  apply assumption
  apply (simp add: disconnect_head_def disconnect_body_def)
  apply (simp add: disconnect_head_def built_pos(5))
  apply (simp add: transmit_def with_sent_def disconnect_bytes_def)
  done

subsection \<open>The only connection of a socket\<close>

definition only_connection :: "torque_connection \<Rightarrow> ptr \<Rightarrow> ('s, 'k) torque_socket \<Rightarrow> bool" where
  "only_connection c p s \<longleftrightarrow> connection_list s = Some p \<and> connection_heap s p = Some \<lparr>node_connection = c, node_next = None, node_prev = None\<rparr>
     \<and> ht_wf (\<lambda>k. k) (connection_id_lookup_table s) \<and> ht_map (connection_id_lookup_table s) = [connection_index c \<mapsto> p]
     \<and> ht_wf address_hash (connection_address_lookup_table s) \<and> ht_map (connection_address_lookup_table s) = [tc_address c \<mapsto> p]"

definition no_connections :: "('s, 'k) torque_socket \<Rightarrow> bool" where
  "no_connections s \<longleftrightarrow> connection_list s = None \<and> (\<forall>i. find_connection_id i s = Some None) \<and> (\<forall>a. find_connection a s = Some None)"

lemma only_reaches: "only_connection c p s \<Longrightarrow> reaches c p s"
  by (simp add: only_connection_def reaches_def deref_connection_def find_connection_id_def find_connection_def ht_lookup_map)

lemma only_added:
  assumes "connection_list s = None" "ht_wf (\<lambda>k. k) (connection_id_lookup_table s)" "ht_map (connection_id_lookup_table s) = Map.empty"
    and "ht_wf address_hash (connection_address_lookup_table s)" "ht_map (connection_address_lookup_table s) = Map.empty"
    and "entry_count (connection_id_lookup_table s) < 2147483645" "entry_count (connection_address_lookup_table s) < 2147483645"
  shows "\<exists>s'. add_connection c s = Some (ts_fresh s, s') \<and> only_connection c (ts_fresh s) s' \<and> ts_io s' = ts_io s"
proof -
  obtain i1 t1 where "ht_insert (\<lambda>k. k) (connection_index c) (ts_fresh s) (connection_id_lookup_table s) = Some (i1, t1)"
      "ht_wf (\<lambda>k. k) t1" "ht_map t1 = [connection_index c \<mapsto> ts_fresh s]"
    using ht_insert_map[OF assms(2,6), of "connection_index c" "ts_fresh s"] assms(3) by auto
  moreover obtain i2 t2 where "ht_insert address_hash (tc_address c) (ts_fresh s) (connection_address_lookup_table s) = Some (i2, t2)"
      "ht_wf address_hash t2" "ht_map t2 = [tc_address c \<mapsto> ts_fresh s]"
    using ht_insert_map[OF assms(4,7), of "tc_address c" "ts_fresh s"] assms(5) by auto
  ultimately show ?thesis using assms(1) by (simp add: add_connection_def only_connection_def Let_def)
qed

lemma ht_remove_only:
  assumes wf: "ht_wf hash t" and only: "ht_map t = [k \<mapsto> v]"
  shows "\<exists>r t'. ht_remove hash k t = Some (r, t') \<and> ht_wf hash t' \<and> ht_map t' = Map.empty"
proof -
  let ?n = "table_size t" and ?tab = "ht_table t"
  obtain p where p: "p < ?n" "ht_find hash k t = Some p" "?tab ! unat p = Some (k, v)" using ht_find_map[OF wf, of k] only by auto
  have len: "length ?tab = unat ?n" and dk: "distinct (map fst (entries ?tab))" using wf by (simp_all add: ht_wf_def buckets_wf_def)
  have up: "unat p < unat ?n" using p(1) by (simp add: word_less_nat_alt)
  have "(k, v) \<in> set (entries ?tab)" using p(3) up len by (auto simp: in_entries)
  then have "entry_count t \<noteq> 0" using wf by (auto simp: ht_wf_def)
  then have "resize_threshold t \<noteq> 0" using wf by (auto simp: ht_wf_def)
  then have "?n \<in> set hash_primes" using wf by (auto simp: ht_wf_def)
  then have two: "2 \<le> unat ?n" by (auto simp: hash_primes_def)
  let ?q = "unat (loop_next ?n p)"
  have q: "?q = (unat p + 1) mod unat ?n" using up by (rule loop_next_mod)
  then have ql: "?q < unat ?n" "?q \<noteq> unat p" using up two by (auto simp: mod_Suc split: if_splits)
  have "?tab ! ?q = None"
  proof (rule ccontr)
    assume "?tab ! ?q \<noteq> None"
    then obtain k' v' where e: "?tab ! ?q = Some (k', v')" by fastforce
    then have in': "(k', v') \<in> set (entries ?tab)" using ql(1) len by (auto simp: in_entries)
    then have "ht_map t k' = Some v'" using dk by (simp add: ht_map_def)
    then have "(k', v') = (k, v)" using only by (auto split: if_splits)
    let ?tab' = "?tab[unat p := None]"
    have "?tab'[unat p := Some (k, v)] = ?tab" using p(3) up len by (simp add: list_update_same_conv)
    then have m: "mset (entries ?tab) = add_mset (k, v) (mset (entries ?tab'))" using entries_store[of "unat p" ?tab' "(k, v)"] up len by simp
    have "(k, v) \<in> set (entries ?tab')" using e ql \<open>(k', v') = (k, v)\<close> len by (auto simp: in_entries intro!: exI[of _ ?q])
    then show False using entries_store_keys(1)[OF m] dk by force
  qed
  from ht_remove_alone[OF wf _ p(2) this, of v] only show ?thesis by auto
qed

lemma remove_only_connection:
  assumes "only_connection c p s"
  shows "\<exists>s'. remove_connection p s = Some s' \<and> no_connections s' \<and> ts_io s' = ts_io s"
proof -
  obtain r1 t1 where t1: "ht_remove (\<lambda>k. k) (connection_index c) (connection_id_lookup_table s) = Some (r1, t1)" "ht_wf (\<lambda>k. k) t1" "ht_map t1 = Map.empty"
    using ht_remove_only[of "\<lambda>k. k" "connection_id_lookup_table s"] assms unfolding only_connection_def by blast
  obtain r2 t2 where t2: "ht_remove address_hash (tc_address c) (connection_address_lookup_table s) = Some (r2, t2)" "ht_wf address_hash t2" "ht_map t2 = Map.empty"
    using ht_remove_only[of address_hash "connection_address_lookup_table s"] assms unfolding only_connection_def by blast
  show ?thesis using assms t1 t2
    by (simp add: remove_connection_def only_connection_def no_connections_def find_connection_id_def find_connection_def ht_lookup_map)
qed

subsection \<open>A connection is closed\<close>

definition disconnected_event :: "uint32 \<Rightarrow> uint32 \<Rightarrow> byte list \<Rightarrow> torque_socket_event" where
  "disconnected_event index n bytes = (new_event torque_connection_disconnected_event_type index)\<lparr>ev_data_size := n, ev_data := Some bytes\<rparr>"

lemma disconnect_sent:
  assumes "digest_law (cr_sha256 K)" "only_connection c p s" "cipher_of_secret (cr_ecb K) (shared_secret c) = Some cipher" "unat n = length bytes" "length bytes \<le> 511"
  shows "\<exists>s'. disconnect_connection K U (connection_index c) reason bytes n s = Some s' \<and> no_connections s'
     \<and> ts_io s' = send_to (tc_address c) (disconnect_bytes K cipher c (reason_code reason) n bytes) (ts_io s)"
proof -
  have le: "n \<le> torque_sockets_max_status_datagram_size" using assms(4,5) by (simp add: torque_sockets_max_status_datagram_size_def word_le_nat_alt)
  let ?s = "with_sent (tc_address c) (disconnect_bytes K cipher c (reason_code reason) n bytes) s"
  have "only_connection c p ?s" using assms(2) by (simp add: only_connection_def with_sent_def)
  from remove_only_connection[OF this] obtain s' where "remove_connection p ?s = Some s'" "no_connections s'" "ts_io s' = ts_io ?s" by blast
  then show ?thesis using only_reaches[OF assms(2)] send_disconnect_sends[OF assms(1,3-5), of U "reason_code reason" s] le
    by (simp add: disconnect_connection_def reaches_def with_sent_def)
qed

lemma read_into_buffer:
  assumes "reading st pre xs tail" "unat k = length xs" "length xs \<le> length dest"
    and "\<And>r st'. succeeds (g r (xs @ drop (length xs) dest) st') Q"
  shows "succeeds (read_bytes st dest k \<bind> (\<lambda>(r, v, st'). g r v st')) Q"
  using read_bytes_rbits[OF reading_wf(1)[OF assms(1)] _ assms(2,3), of "[]"] reading_wf(2)[OF assms(1)] assms(4) by auto

lemma disconnect_received:
  assumes "digest_law (cr_sha256 K)" "only_connection d q s" "cipher_of_secret (cr_ecb K) (shared_secret d) = Some cipher" "unat n = length bytes" "length bytes \<le> 511"
    and "initiator_nonce c = initiator_nonce d" "host_nonce c = host_nonce d" "queue_holds (event_queue (ts_io s)) evs"
  shows "succeeds (receive K V (tc_address d) (disconnect_bytes K cipher c reason n bytes) s)
     (\<lambda>s'. no_connections s' \<and> queue_holds (event_queue (ts_io s')) (evs @ [disconnected_event (connection_index d) n bytes]))"
proof -
  let ?pre = "disconnect_head c" and ?plain = "disconnect_body reason n bytes"
  let ?rest = "bytes_of_u64 (initiator_nonce c) @ bytes_of_u64 (host_nonce c) @ sealed K cipher ?pre ?plain"
  have "length ?rest < 1536" using length_sealed[OF assms(1), of cipher ?pre ?plain] assms(5) by (simp add: disconnect_body_def)
  then obtain r tail where r: "reading r [packet_byte disconnect_packet] ?rest tail"
      "receive K V (tc_address d) (packet_byte disconnect_packet # ?rest) s = handle_disconnect K V (tc_address d) r s"
    using receive_dispatch[of ?rest disconnect_packet K V "tc_address d" s] by auto
  have found: "find_connection (tc_address d) s = Some (Some q)" "deref_connection q s = Some d"
    using only_reaches[OF assms(2)] by (simp_all add: reaches_def)
  have le: "\<not> torque_sockets_max_status_datagram_size < n" "unat torque_sockets_max_status_datagram_size = 511"
    using assms(4,5) by (simp_all add: torque_sockets_max_status_datagram_size_def word_less_nat_alt)
  obtain q' where q': "post_event torque_connection_disconnected_event_type (connection_index d) (event_queue (ts_io s)) = Some (eq_fresh (event_queue (ts_io s)), q')"
      "eq_events q' (eq_fresh (event_queue (ts_io s))) = Some (new_event torque_connection_disconnected_event_type (connection_index d))"
      "\<forall>x. queue_holds (q'\<lparr>eq_events := (eq_events q')(eq_fresh (event_queue (ts_io s)) \<mapsto> x)\<rparr>) (evs @ [x])"
    using post_event_chain[OF assms(8), of torque_connection_disconnected_event_type "connection_index d"] by blast
  let ?q = "q'\<lparr>eq_events := (eq_events q')(eq_fresh (event_queue (ts_io s)) \<mapsto> disconnected_event (connection_index d) n bytes)\<rparr>"
  have only: "only_connection d q (set_queue ?q s)" using assms(2) by (simp add: only_connection_def set_queue_def)
  obtain s' where s': "remove_connection q (set_queue ?q s) = Some s'" "no_connections s'" "ts_io s' = ts_io (set_queue ?q s)"
    using remove_only_connection[OF only] by blast
  show ?thesis
    unfolding disconnect_bytes_def disconnect_head_def append_Cons append_assoc r(2)[unfolded disconnect_head_def] handle_disconnect_def
    apply (rule u64b.parse[OF r(1)], simp)
    apply (rule u64b.parse, assumption, simp)
    apply (simp add: found assms(3,6,7) reading_wf(5))
    apply (rule open_parse[where pre = ?pre and plain = ?plain])
    apply (simp add: disconnect_head_def assms(6,7))
    apply (rule assms(1))
    apply (simp add: reading_wf(5))
    apply (simp add: disconnect_body_def)
    apply (rule u32b.parse, assumption, simp)
    apply (rule u32b.parse, assumption, simp)
    apply (simp add: le)
    apply (rule read_into_buffer, assumption, simp add: assms(4))
    using assms(5) apply simp
    using q' s' assms(4) apply (simp add: set_event_data_def write_event_def disconnected_event_def set_queue_def)
    done
qed

text \<open>C3. A connection ends on both sides.  Two sockets each have one connection, to the other, with the same nonces and secret.  A call of \<^verbatim>\<open>disconnect\<close> with up to 511 bytes
  for the peer removes the connection from the list and both tables of its socket and sends one packet; when that arrives, the peer's socket removes its connection as well and
  its client receives exactly one event, with exactly those bytes.  Destroying the socket instead also ends, leaves no connection behind and tells the
  peer the same way.\<close>
theorem disconnect_closes_both:
  assumes "digest_law (cr_sha256 K)" and "only_connection c p A" and "only_connection d q B"
    and "shared_secret c = shared_secret d" and "shared_secret c \<noteq> None" and "initiator_nonce c = initiator_nonce d" and "host_nonce c = host_nonce d"
    and "unat n = length bytes" and "length bytes \<le> 511" and "queue_holds (event_queue (ts_io B)) evs"
  shows "(\<exists>A' B'. disconnect K U (connection_index c) bytes n A = Some A' \<and> deliver K V (tc_address d) A' (tc_address c) B = Some B'
       \<and> no_connections A' \<and> no_connections B' \<and> event_queue (ts_io A') = event_queue (ts_io A) \<and> length (sent (ts_io A')) = Suc (length (sent (ts_io A)))
       \<and> queue_holds (event_queue (ts_io B')) (evs @ [disconnected_event (connection_index d) n bytes]))
     \<and> (\<exists>A' B'. close_all K U A = Some A' \<and> deliver K V (tc_address d) A' (tc_address c) B = Some B' \<and> no_connections A' \<and> no_connections B'
       \<and> queue_holds (event_queue (ts_io B')) (evs @ [disconnected_event (connection_index d) 0 []]))"
proof -
  obtain cipher where cipher: "cipher_of_secret (cr_ecb K) (shared_secret c) = Some cipher" using assms(5) cipher_of_secret_exists by fastforce
  have arrives: "\<exists>A' B'. disconnect_connection K U (connection_index c) reason xs m A = Some A' \<and> deliver K V (tc_address d) A' (tc_address c) B = Some B'
     \<and> no_connections A' \<and> no_connections B' \<and> event_queue (ts_io A') = event_queue (ts_io A) \<and> length (sent (ts_io A')) = Suc (length (sent (ts_io A)))
     \<and> queue_holds (event_queue (ts_io B')) (evs @ [disconnected_event (connection_index d) m xs])" if "unat m = length xs" "length xs \<le> 511" for reason m xs
    using disconnect_sent[OF assms(1,2) cipher that, of U reason]
      disconnect_received[OF assms(1,3) cipher[unfolded assms(4)] that assms(6,7,10), of V "reason_code reason"]
    by (auto simp: succeeds_def deliver_def send_to_def)
  obtain A' B' where A': "disconnect_connection K U (connection_index c) reason_self_disconnect [] 0 A = Some A'" "deliver K V (tc_address d) A' (tc_address c) B = Some B'"
      "no_connections A'" "no_connections B'" "queue_holds (event_queue (ts_io B')) (evs @ [disconnected_event (connection_index d) 0 []])"
    using arrives[of 0 "[]" reason_self_disconnect] by auto
  have "close_all K U A' = Some A'" using A'(3) by (subst close_all.simps) (simp add: no_connections_def)
  moreover have "connection_list A = Some p" "deref_connection p A = Some c" using assms(2) by (simp_all add: only_connection_def deref_connection_def)
  ultimately have "close_all K U A = Some A'" using A'(1) by (subst close_all.simps) simp
  then show ?thesis using A' arrives[OF assms(8,9), of reason_disconnect_call] unfolding disconnect_def by blast
qed

lemma toy_tables: "connection_list toy_socket = None" "ht_wf (\<lambda>k. k) (connection_id_lookup_table toy_socket)" "ht_map (connection_id_lookup_table toy_socket) = Map.empty"
    "ht_wf address_hash (connection_address_lookup_table toy_socket)" "ht_map (connection_address_lookup_table toy_socket) = Map.empty"
    "entry_count (connection_id_lookup_table toy_socket) < 2147483645" "entry_count (connection_address_lookup_table toy_socket) < 2147483645"
  by (simp_all add: toy_socket_eval Let_def split_beta ht_init_wf ht_init_map) (simp_all add: ht_init_def)

definition toy_end :: "uint16 \<Rightarrow> uint32 \<Rightarrow> torque_connection" where
  "toy_end remote index = blank_connection\<lparr>tc_address := \<lparr>host = 1, port = remote\<rparr>, connection_index := index, shared_secret := Some \<lparr>data_ptr = [5, 6], buf_size = 2\<rparr>,
     initiator_nonce := 8, host_nonce := 9\<rparr>"

theorem disconnect_closes_both_witness:
  "\<exists>p A q B A' B'. add_connection (toy_end 2 1) toy_socket = Some (p, A) \<and> add_connection (toy_end 3 1) toy_socket = Some (q, B)
     \<and> disconnect toy_crypto toy_uninit 1 [1, 2, 3] 3 A = Some A' \<and> deliver toy_crypto toy_uninit \<lparr>host = 1, port = 3\<rparr> A' \<lparr>host = 1, port = 2\<rparr> B = Some B'
     \<and> queue_holds (event_queue (ts_io B')) [disconnected_event 1 3 [1, 2, 3]]"
proof -
  obtain A where A: "add_connection (toy_end 2 1) toy_socket = Some (ts_fresh toy_socket, A)" "only_connection (toy_end 2 1) (ts_fresh toy_socket) A"
    using only_added[OF toy_tables] by blast
  obtain B where B: "add_connection (toy_end 3 1) toy_socket = Some (ts_fresh toy_socket, B)" "only_connection (toy_end 3 1) (ts_fresh toy_socket) B" "ts_io B = ts_io toy_socket"
    using only_added[OF toy_tables] by blast
  have q: "queue_holds (event_queue (ts_io B)) []" using toy_socket_fields(2) B(3) by simp
  from disconnect_closes_both[OF toy_laws(2) A(2) B(2) _ _ _ _ _ _ q, of 3 "[1, 2, 3]" toy_uninit toy_uninit] A(1) B(1) show ?thesis
    by (fastforce simp: toy_end_def)
qed

subsection \<open>A destructor that does not end\<close>

definition lost :: "ptr \<Rightarrow> torque_connection \<Rightarrow> ('s, 'k) torque_socket \<Rightarrow> bool" where
  "lost p c s \<longleftrightarrow> connection_list s = Some p \<and> deref_connection p s = Some c \<and> find_connection_id (connection_index c) s = Some None
     \<and> find_pending_connection_id (connection_index c) s = Some None"

lemma lost_stays: "lost p c s \<Longrightarrow> disconnect_connection K U (connection_index c) reason_self_disconnect [] 0 s = Some s"
  by (simp add: lost_def disconnect_connection_def torque_sockets_max_status_datagram_size_def)

text \<open>C39. The destructor of a socket need not end.  It disconnects the first connection of the list by its identifier until the list is empty; if that identifier is not found, nothing
  happens and it tries again for ever.  Removing from the flat hash table makes such connections: with connections 1, 2 and 3 a
  socket that loses connection 2 no longer finds connection 3.\<close>
theorem destructor_hangs:
  assumes "lost p c s"
  shows "close_all K U s = None"
proof -
  have "\<not> lost p c s" if "close_all K U s = Some y" for y
  proof (rule close_all.raw_induct[where P = "\<lambda>K U s y. \<not> lost p c s", OF _ that])
    fix close' K U s y
    assume ih: "\<And>K U s y. close' K U s = Some y \<Longrightarrow> \<not> lost p c s"
      and step: "(case connection_list s of None \<Rightarrow> Some s
        | Some p \<Rightarrow> deref_connection p s \<bind> (\<lambda>c. disconnect_connection K U (connection_index c) reason_self_disconnect [] 0 s \<bind> close' K U)) = Some y"
    show "\<not> lost p c s"
    proof
      assume l: "lost p c s"
      then have "close' K U s = Some y" using step lost_stays[OF l, of K U] by (simp add: lost_def)
      then show False using ih l by blast
    qed
  qed
  then show ?thesis using assms by (cases "close_all K U s") auto
qed

text \<open>Three connections, of which the second is removed.\<close>

definition crowded :: "((byte, byte) torque_socket) option" where
  "crowded = do {
     (_, s1) \<leftarrow> add_connection (toy_end 2 1) toy_socket;
     (_, s2) \<leftarrow> add_connection (toy_end 3 2) s1;
     (_, s3) \<leftarrow> add_connection (toy_end 4 3) s2;
     remove_connection 1 s3 }"

definition three_keys :: "('k \<Rightarrow> uint32) \<Rightarrow> 'k \<Rightarrow> 'k \<Rightarrow> 'k \<Rightarrow> nat option option" where
  "three_keys hash a b c = do {
     (_, t1) \<leftarrow> ht_insert hash a 0 (ht_init 0);
     (_, t2) \<leftarrow> ht_insert hash b 1 t1;
     (_, t3) \<leftarrow> ht_insert hash c 2 t2;
     (_, t4) \<leftarrow> ht_remove hash b t3;
     ht_lookup hash c t4 }"

lemma third_id_lost: "three_keys (\<lambda>k. k) 1 2 3 = Some None"
  by code_simp

lemma third_address_found: "three_keys address_hash \<lparr>host = 1, port = 2\<rparr> \<lparr>host = 1, port = 3\<rparr> \<lparr>host = 1, port = 4\<rparr> = Some (Some 2)"
  by code_simp

lemma crowded_lost: "\<exists>s. crowded = Some s \<and> lost 2 (toy_end 4 3) s"
proof -
  have t: "connection_list toy_socket = None" "connection_id_lookup_table toy_socket = ht_init 0" "connection_address_lookup_table toy_socket = ht_init 0" "ts_fresh toy_socket = 0"
      "pending_connections toy_socket = None"
    by (simp_all add: toy_socket_eval Let_def split_beta)
  obtain i1 t1 i2 t2 i3 t3 r t4 where ids: "ht_insert (\<lambda>k. k) 1 0 (ht_init 0) = Some (i1, t1)" "ht_insert (\<lambda>k. k) 2 (Suc 0) t1 = Some (i2, t2)"
      "ht_insert (\<lambda>k. k) 3 (2 :: nat) t2 = Some (i3, t3)" "ht_remove (\<lambda>k. k) 2 t3 = Some (r, t4)" "ht_lookup (\<lambda>k. k) 3 t4 = Some None"
    using third_id_lost unfolding three_keys_def by (auto split: Option.bind_splits prod.splits)
  obtain j1 u1 j2 u2 j3 u3 q u4 where adr: "ht_insert address_hash \<lparr>host = 1, port = 2\<rparr> 0 (ht_init 0) = Some (j1, u1)" "ht_insert address_hash \<lparr>host = 1, port = 3\<rparr> (Suc 0) u1 = Some (j2, u2)"
      "ht_insert address_hash \<lparr>host = 1, port = 4\<rparr> (2 :: nat) u2 = Some (j3, u3)" "ht_remove address_hash \<lparr>host = 1, port = 3\<rparr> u3 = Some (q, u4)"
    using third_address_found unfolding three_keys_def by (auto split: Option.bind_splits prod.splits)
  show ?thesis using t ids adr
    by (simp add: crowded_def add_connection_def remove_connection_def toy_end_def Let_def lost_def deref_connection_def find_connection_id_def
        find_pending_connection_id_def find_node.simps numeral_2_eq_2)
qed

theorem destructor_hangs_witness: "\<exists>s. crowded = Some s \<and> close_all toy_crypto toy_uninit s = None"
  using crowded_lost destructor_hangs by blast

end
