(* ===== verification/Dynamic_Array.thy ===== *)
theory Dynamic_Array
  imports Prelude
begin

text \<open>
  \<^verbatim>\<open>core/array.h\<close>: the growing array of the library.  A slot of its memory block is \<open>Some x\<close> where an
  element is constructed and \<open>None\<close> where the memory is uninitialised or destroyed; reading such a slot
  or one outside the block has no result.  The two paths of the source for types with trivial and
  non-trivial copying construct the same elements and are one definition here.
\<close>

record 'a array =
  slots :: "'a option list"
  public_size :: uint32
  array_size :: uint32

subsection \<open>Policy and memory\<close>

definition grow_to :: "uint32 \<Rightarrow> uint32" where
  "grow_to n = n + n div 2"

definition shrink_to :: "uint32 \<Rightarrow> uint32 \<Rightarrow> uint32" where
  "shrink_to n capacity = (if n < capacity div 2 then n + n div 2 else capacity)"

definition new_array :: "uint32 \<Rightarrow> 'a array" where
  "new_array initial_reserve = \<lparr>slots = replicate (unat initial_reserve) None, public_size = 0, array_size = initial_reserve\<rparr>"

definition array_realloc :: "uint32 \<Rightarrow> 'a array \<Rightarrow> 'a array option" where
  "array_realloc n a = do {
     assert (public_size a \<le> n);
     Some (a\<lparr>slots := take (unat (public_size a)) (slots a) @ replicate (unat n - unat (public_size a)) None, array_size := n\<rparr>) }"

definition array_reserve :: "uint32 \<Rightarrow> 'a array \<Rightarrow> 'a array option" where
  "array_reserve n a = (if array_size a < n then array_realloc n a else Some a)"

definition array_compact :: "'a array \<Rightarrow> 'a array option" where
  "array_compact a = (if public_size a < array_size a then array_realloc (public_size a) a else Some a)"

definition array_clear :: "'a array \<Rightarrow> 'a array" where
  "array_clear a = \<lparr>slots = [], public_size = 0, array_size = 0\<rparr>"

subsection \<open>Elements\<close>

definition array_get :: "'a array \<Rightarrow> uint32 \<Rightarrow> 'a option" where
  "array_get a i = do { s \<leftarrow> load (slots a) (unat i); s }"

definition array_set :: "uint32 \<Rightarrow> 'a \<Rightarrow> 'a array \<Rightarrow> 'a array option" where
  "array_set i x a = map_option (\<lambda>s. a\<lparr>slots := s\<rparr>) (store (slots a) (unat i) (Some x))"

definition array_is_empty :: "'a array \<Rightarrow> bool" where
  "array_is_empty a \<longleftrightarrow> public_size a = 0"

definition array_resize :: "'a \<Rightarrow> uint32 \<Rightarrow> 'a array \<Rightarrow> 'a array option" where
  "array_resize dflt n a =
     (if public_size a < n then do {
        a1 \<leftarrow> (if array_size a < n then array_realloc (grow_to n) a else Some a);
        let p = unat (public_size a);
        assert (unat n \<le> length (slots a1));
        Some (a1\<lparr>slots := take p (slots a1) @ replicate (unat n - p) (Some dflt) @ drop (unat n) (slots a1), public_size := n\<rparr>) }
      else if n < public_size a then do {
        let a1 = a\<lparr>slots := take (unat n) (slots a) @ replicate (unat (public_size a) - unat n) None @ drop (unat (public_size a)) (slots a),
                   public_size := n\<rparr>;
        let new_size = shrink_to n (array_size a);
        if new_size \<noteq> array_size a then array_realloc new_size a1 else Some a1 }
      else Some a)"

definition push_back :: "'a \<Rightarrow> 'a array \<Rightarrow> 'a array option" where
  "push_back x a = do {
     a1 \<leftarrow> (if array_size a < public_size a + 1 then array_realloc (grow_to (public_size a + 1)) a else Some a);
     s \<leftarrow> store (slots a1) (unat (public_size a)) (Some x);
     Some (a1\<lparr>slots := s, public_size := public_size a + 1\<rparr>) }"

text \<open>\<^verbatim>\<open>insert\<close>.  When the block has to grow, only the elements behind \<open>index\<close> are copied to the new one.\<close>

definition array_insert :: "uint32 \<Rightarrow> 'a \<Rightarrow> 'a array \<Rightarrow> 'a array option" where
  "array_insert index x a = do {
     let p = unat (public_size a);
     let i = unat index;
     if array_size a < public_size a + 1 then do {
       let new_size = grow_to (public_size a + 1);
       assert (public_size a < new_size);
       assert (i \<le> p);
       Some (a\<lparr>slots := replicate (i + 1) None @ drop i (take p (slots a)) @ replicate (unat new_size - p - 1) None,
               array_size := new_size, public_size := public_size a + 1\<rparr>) }
     else do {
       assert (i \<le> p);
       Some (a\<lparr>slots := take i (slots a) @ [Some x] @ drop i (take p (slots a)) @ drop (p + 1) (slots a),
               public_size := public_size a + 1\<rparr>) } }"

definition array_erase :: "uint32 \<Rightarrow> 'a array \<Rightarrow> 'a array option" where
  "array_erase index a = do {
     let p = unat (public_size a);
     let i = unat index;
     assert (i < p);
     let a1 = a\<lparr>slots := take i (slots a) @ drop (i + 1) (take p (slots a)) @ [None] @ drop p (slots a),
                public_size := public_size a - 1\<rparr>;
     let new_size = shrink_to (public_size a1) (array_size a);
     if new_size \<noteq> array_size a then array_realloc new_size a1 else Some a1 }"

definition pop_back :: "'a array \<Rightarrow> 'a array option" where
  "pop_back a = do {
     assert (public_size a \<noteq> 0);
     s \<leftarrow> store (slots a) (unat (public_size a - 1)) None;
     let a1 = a\<lparr>slots := s, public_size := public_size a - 1\<rparr>;
     let new_size = shrink_to (public_size a1) (array_size a);
     if new_size \<noteq> array_size a then array_realloc new_size a1 else Some a1 }"

definition push_front :: "'a \<Rightarrow> 'a array \<Rightarrow> 'a array option" where
  "push_front x a = array_insert 0 x a"

definition pop_front :: "'a array \<Rightarrow> 'a array option" where
  "pop_front a = array_erase 0 a"

definition erase_unstable :: "uint32 \<Rightarrow> 'a array \<Rightarrow> 'a array option" where
  "erase_unstable index a = do {
     a1 \<leftarrow> (if index \<noteq> public_size a - 1 then do {
              x \<leftarrow> array_get a index; y \<leftarrow> array_get a (public_size a - 1);
              a' \<leftarrow> array_set index y a; array_set (public_size a - 1) x a' }
            else Some a);
     pop_back a1 }"

definition array_assign :: "'a array \<Rightarrow> 'a array \<Rightarrow> 'a array" where
  "array_assign p a =
     (let n = unat (public_size p) in
      if array_size a \<noteq> array_size p
      then \<lparr>slots = take n (slots p) @ replicate (unat (array_size p) - n) None, public_size = public_size p, array_size = array_size p\<rparr>
      else a\<lparr>slots := take n (slots p) @ map (\<lambda>i. if i < unat (public_size a) then None else slots a ! i) [n..<length (slots a)],
             public_size := public_size p\<rparr>)"

subsection \<open>The array is a list\<close>

definition arr_list :: "'a array \<Rightarrow> 'a list" where
  "arr_list a = map the (take (unat (public_size a)) (slots a))"

definition array_wf :: "'a array \<Rightarrow> bool" where
  "array_wf a \<longleftrightarrow> length (slots a) = unat (array_size a) \<and> public_size a \<le> array_size a
     \<and> None \<notin> set (take (unat (public_size a)) (slots a))"

text \<open>A block of constructed elements and free memory behind them.\<close>

lemma array_shape: "array_wf a \<Longrightarrow> slots a = map Some (arr_list a) @ drop (length (arr_list a)) (slots a)
    \<and> length (arr_list a) = unat (public_size a)"
proof -
  assume wf: "array_wf a"
  let ?n = "unat (public_size a)"
  have len: "length (arr_list a) = ?n" using wf by (simp add: array_wf_def arr_list_def word_le_nat_alt)
  have "map Some (arr_list a) = take ?n (slots a)"
  proof (rule nth_equalityI)
    show "length (map Some (arr_list a)) = length (take ?n (slots a))" by (simp add: arr_list_def)
    fix i assume "i < length (map Some (arr_list a))"
    then have i: "i < length (take ?n (slots a))" by (simp add: arr_list_def)
    then have "take ?n (slots a) ! i \<noteq> None" using wf by (metis array_wf_def nth_mem)
    with i show "map Some (arr_list a) ! i = take ?n (slots a) ! i" by (auto simp: arr_list_def)
  qed
  then show ?thesis using len by simp
qed

lemma array_of_shape:
  assumes "slots a = map Some xs @ ys" "unat (public_size a) = length xs" "length (slots a) = unat (array_size a)"
  shows "array_wf a \<and> arr_list a = xs"
  using assms by (auto simp: array_wf_def arr_list_def word_le_nat_alt)

lemma array_realloc_list:
  assumes "array_wf a" "public_size a \<le> n"
  shows "\<exists>a'. array_realloc n a = Some a' \<and> array_wf a' \<and> arr_list a' = arr_list a \<and> array_size a' = n \<and> public_size a' = public_size a"
proof -
  note sh = array_shape[OF assms(1)]
  define a' where "a' = a\<lparr>slots := map Some (arr_list a) @ replicate (unat n - unat (public_size a)) None, array_size := n\<rparr>"
  have "array_realloc n a = Some a'"
    using assms(2) sh by (simp add: array_realloc_def a'_def) (metis append_eq_conv_conj length_map)
  moreover have "array_wf a' \<and> arr_list a' = arr_list a"
    by (rule array_of_shape) (use sh assms(2) in \<open>simp_all add: a'_def word_le_nat_alt\<close>)
  ultimately show ?thesis by (auto simp: a'_def)
qed

lemma grow_room: "unat p < 2 ^ 31 \<Longrightarrow> p + 1 \<le> grow_to (p + 1 :: uint32) \<and> unat (p + 1) = unat p + 1"
proof -
  assume p: "unat p < 2 ^ 31"
  then have s: "unat (p + 1) = unat p + 1" by (subst unat_add_lem[THEN iffD1]) auto
  have "unat (p + 1) + unat ((p + 1) div 2) < 2 ^ 32" using p s by (simp add: unat_div)
  then have "unat (grow_to (p + 1)) = unat (p + 1) + unat ((p + 1) div 2)"
    unfolding grow_to_def by (subst unat_add_lem[THEN iffD1]) simp_all
  with s show ?thesis by (simp add: word_le_nat_alt)
qed

lemma push_back_list:
  assumes "array_wf a" "length (arr_list a) < 2 ^ 31"
  shows "\<exists>a'. push_back x a = Some a' \<and> array_wf a' \<and> arr_list a' = arr_list a @ [x]"
proof -
  let ?p = "public_size a"
  have len: "length (arr_list a) = unat ?p" using array_shape[OF assms(1)] by simp
  note g = grow_room[of ?p, OF assms(2)[unfolded len]]
  have "\<exists>a1. (if array_size a < ?p + 1 then array_realloc (grow_to (?p + 1)) a else Some a) = Some a1
     \<and> array_wf a1 \<and> arr_list a1 = arr_list a \<and> public_size a1 = ?p \<and> ?p + 1 \<le> array_size a1"
  proof (cases "array_size a < ?p + 1")
    case True
    have "?p \<le> grow_to (?p + 1)" using g by (simp add: word_le_nat_alt)
    from array_realloc_list[OF assms(1) this] True g show ?thesis by auto
  qed (use assms in auto)
  then obtain a1 where a1: "(if array_size a < ?p + 1 then array_realloc (grow_to (?p + 1)) a else Some a) = Some a1"
    "array_wf a1" "arr_list a1 = arr_list a" "public_size a1 = ?p" "?p + 1 \<le> array_size a1" by blast
  note sh = array_shape[OF a1(2)]
  have lt: "unat ?p < length (slots a1)" using a1(2,5) g by (simp add: array_wf_def word_le_nat_alt)
  define a' where "a' = a1\<lparr>slots := (slots a1)[unat ?p := Some x], public_size := ?p + 1\<rparr>"
  have "push_back x a = Some a'" using a1(1) lt by (simp add: push_back_def a'_def)
  moreover have "array_wf a' \<and> arr_list a' = arr_list a @ [x]"
  proof (rule array_of_shape)
    have "slots a1 = map Some (arr_list a) @ slots a1 ! unat ?p # drop (Suc (unat ?p)) (slots a1)"
      using sh a1(3,4) lt by (metis Cons_nth_drop_Suc)
    then have "(slots a1)[unat ?p := Some x] = map Some (arr_list a) @ Some x # drop (Suc (unat ?p)) (slots a1)"
      using len by (metis length_map list_update_length)
    then show "slots a' = map Some (arr_list a @ [x]) @ drop (Suc (unat ?p)) (slots a1)" by (simp add: a'_def)
    show "unat (public_size a') = length (arr_list a @ [x])" using g len by (simp add: a'_def)
    show "length (slots a') = unat (array_size a')" using a1(2) by (simp add: a'_def array_wf_def)
  qed
  ultimately show ?thesis by blast
qed

lemma shrink_keeps: "public_size a \<le> array_size a \<Longrightarrow> public_size a \<le> shrink_to (public_size a) (array_size a)"
proof -
  let ?p = "public_size a" and ?c = "array_size a"
  assume "?p \<le> ?c"
  moreover have "?p \<le> ?p + ?p div 2" if "?p < ?c div 2"
  proof -
    have "unat ?p < unat ?c div 2" using that by (simp add: word_less_nat_alt unat_div)
    then have "unat ?p + unat (?p div 2) < 2 ^ 32" using unat_less_32[of ?c] by (simp add: unat_div)
    then show ?thesis by (simp add: word_le_nat_alt unat_add_lem[THEN iffD1])
  qed
  ultimately show ?thesis by (simp add: shrink_to_def)
qed

text \<open>The end of \<^verbatim>\<open>erase\<close>, \<^verbatim>\<open>pop_back\<close> and \<^verbatim>\<open>resize\<close>: give memory back.\<close>

lemma shrink_list:
  assumes "array_wf a"
  shows "\<exists>a'. (if shrink_to (public_size a) (array_size a) \<noteq> array_size a
       then array_realloc (shrink_to (public_size a) (array_size a)) a else Some a) = Some a' \<and> array_wf a' \<and> arr_list a' = arr_list a"
  using array_realloc_list[OF assms shrink_keeps[of a]] assms by (auto simp: array_wf_def)

lemma array_erase_list:
  assumes "array_wf a" "unat i < length (arr_list a)"
  shows "\<exists>a'. array_erase i a = Some a' \<and> array_wf a' \<and> arr_list a' = take (unat i) (arr_list a) @ drop (Suc (unat i)) (arr_list a)"
proof -
  let ?xs = "arr_list a" and ?p = "unat (public_size a)"
  note sh = array_shape[OF assms(1)]
  have i: "unat i < ?p" using assms(2) sh by simp
  have tk: "take ?p (slots a) = map Some ?xs" using sh by (metis append_eq_conv_conj length_map)
  have ti: "take (unat i) (slots a) = map Some (take (unat i) ?xs)" using tk i by (metis min.strict_order_iff take_map take_take)
  define a1 where "a1 = a\<lparr>slots := take (unat i) (slots a) @ drop (unat i + 1) (take ?p (slots a)) @ [None] @ drop ?p (slots a),
      public_size := public_size a - 1\<rparr>"
  have "array_wf a1 \<and> arr_list a1 = take (unat i) ?xs @ drop (Suc (unat i)) ?xs"
  proof (rule array_of_shape)
    show "slots a1 = map Some (take (unat i) ?xs @ drop (Suc (unat i)) ?xs) @ [None] @ drop ?p (slots a)"
      by (simp add: a1_def tk ti drop_map)
    have "unat (public_size a - 1) = ?p - 1" using i by (subst unat_diff_32) simp_all
    then show "unat (public_size a1) = length (take (unat i) ?xs @ drop (Suc (unat i)) ?xs)" using sh i by (simp add: a1_def)
    show "length (slots a1) = unat (array_size a1)" using assms(1) i by (simp add: a1_def array_wf_def word_le_nat_alt)
  qed
  moreover have "array_erase i a = (if shrink_to (public_size a1) (array_size a1) \<noteq> array_size a1
      then array_realloc (shrink_to (public_size a1) (array_size a1)) a1 else Some a1)"
    using i by (simp add: array_erase_def Let_def a1_def)
  ultimately show ?thesis using shrink_list[of a1] by auto
qed

lemma array_get_list:
  assumes "array_wf a" "unat i < length (arr_list a)"
  shows "array_get a i = Some (arr_list a ! unat i)"
proof -
  note sh = array_shape[OF assms(1)]
  have "slots a ! unat i = Some (arr_list a ! unat i)" using sh assms(2) by (metis length_map nth_append nth_map)
  moreover have "unat i < length (slots a)" using sh assms(2) by (metis length_append length_map trans_less_add1)
  ultimately show ?thesis by (simp add: array_get_def)
qed

subsection \<open>The interface: a sequence that grows at its end\<close>

datatype 'a seq_op = Push 'a | Erase nat

fun seq_list :: "'a seq_op list \<Rightarrow> 'a list \<Rightarrow> 'a list option" where
  "seq_list [] xs = Some xs"
| "seq_list (Push x # ops) xs = seq_list ops (xs @ [x])"
| "seq_list (Erase i # ops) xs = (if i < length xs then seq_list ops (take i xs @ drop (Suc i) xs) else None)"

fun seq_run :: "('a \<Rightarrow> 't \<Rightarrow> 't option) \<Rightarrow> (uint32 \<Rightarrow> 't \<Rightarrow> 't option) \<Rightarrow> 'a seq_op list \<Rightarrow> 't \<Rightarrow> 't option" where
  "seq_run push erase [] t = Some t"
| "seq_run push erase (Push x # ops) t = do { t' \<leftarrow> push x t; seq_run push erase ops t' }"
| "seq_run push erase (Erase i # ops) t = do { t' \<leftarrow> erase (word_of_nat i) t; seq_run push erase ops t' }"

locale growing_sequence =
  fixes wf :: "'t \<Rightarrow> bool" and seq :: "'t \<Rightarrow> 'a list"
    and push :: "'a \<Rightarrow> 't \<Rightarrow> 't option" and erase :: "uint32 \<Rightarrow> 't \<Rightarrow> 't option" and get :: "'t \<Rightarrow> uint32 \<Rightarrow> 'a option"
  assumes push_law: "wf t \<Longrightarrow> length (seq t) < 2 ^ 31 \<Longrightarrow> \<exists>t'. push x t = Some t' \<and> wf t' \<and> seq t' = seq t @ [x]"
    and erase_law: "wf t \<Longrightarrow> unat i < length (seq t) \<Longrightarrow> \<exists>t'. erase i t = Some t' \<and> wf t' \<and> seq t' = take (unat i) (seq t) @ drop (Suc (unat i)) (seq t)"
    and get_law: "wf t \<Longrightarrow> unat i < length (seq t) \<Longrightarrow> get t i = Some (seq t ! unat i)"
begin

lemma run_refines:
  assumes "wf t" "length (seq t) + length ops \<le> 2 ^ 31" "seq_list ops (seq t) = Some xs"
  shows "\<exists>t'. seq_run push erase ops t = Some t' \<and> wf t' \<and> seq t' = xs"
  using assms
proof (induction ops "seq t" arbitrary: t rule: seq_list.induct)
  case 1
  then show ?case by simp
next
  case (2 x ops)
  have "length (seq t) < 2 ^ 31" using 2(3) by simp
  then obtain t1 where t1: "push x t = Some t1" "wf t1" "seq t1 = seq t @ [x]" using push_law[OF 2(2)] by blast
  then show ?case using 2(1)[of t1] 2(3,4) by simp
next
  case (3 i ops)
  have i: "i < length (seq t)" "seq_list ops (take i (seq t) @ drop (Suc i) (seq t)) = Some xs"
    using 3(4) by (auto split: if_splits)
  moreover have "unat (word_of_nat i :: uint32) = i" using i(1) 3(3) by (intro unat_of_nat_small) simp
  ultimately obtain t1 where t1: "erase (word_of_nat i) t = Some t1" "wf t1" "seq t1 = take i (seq t) @ drop (Suc i) (seq t)"
    using erase_law[OF 3(2), of "word_of_nat i"] by auto
  then show ?case using 3(1)[of t1] 3(3) i by simp
qed

lemma run_get:
  assumes "wf t" "length (seq t) + length ops \<le> 2 ^ 31" "seq_list ops (seq t) = Some xs"
  shows "\<exists>t'. seq_run push erase ops t = Some t' \<and> (\<forall>i. unat i < length xs \<longrightarrow> get t' i = Some (xs ! unat i))"
  using run_refines[OF assms] get_law by auto

end

interpretation arr: growing_sequence array_wf arr_list push_back array_erase array_get
  using push_back_list array_erase_list array_get_list by unfold_locales auto

text \<open>C25. The array refines a list: any sequence of \<^verbatim>\<open>push_back\<close> and in-range \<^verbatim>\<open>erase\<close> calls on a new array,
  fewer than \<open>2 ^ 31\<close> of them, runs without a trap through every growth and shrinking of its memory, and
  leaves exactly the elements the same operations leave in a list, each readable at its index.\<close>

theorem array_refines_list:
  assumes "length ops \<le> 2 ^ 31" "seq_list ops [] = Some xs"
  shows "\<exists>a. seq_run push_back array_erase ops (new_array n) = Some a \<and> arr_list a = xs
     \<and> (\<forall>i. unat i < length xs \<longrightarrow> array_get a i = Some (xs ! unat i))"
proof -
  have "array_wf (new_array n :: 'a array) \<and> arr_list (new_array n :: 'a array) = []"
    by (rule array_of_shape[where ys = "replicate (unat n) None"]) (simp_all add: new_array_def)
  then show ?thesis using arr.run_refines[of "new_array n" ops xs] arr.get_law assms by auto
qed

theorem array_refines_list_witness:
  "\<exists>a. seq_run push_back array_erase [Push ''x'', Push ''y'', Push ''z'', Erase 1, Push ''w''] (new_array 0) = Some a
     \<and> arr_list a = [''x'', ''z'', ''w'']
     \<and> (\<forall>i. unat i < length [''x'', ''z'', ''w''] \<longrightarrow> array_get a i = Some ([''x'', ''z'', ''w''] ! unat i))"
  by (rule array_refines_list) simp_all

lemma array_insert_list:
  assumes "array_wf a" "public_size a < array_size a" "unat i \<le> length (arr_list a)"
  shows "\<exists>a'. array_insert i x a = Some a' \<and> array_wf a' \<and> arr_list a' = take (unat i) (arr_list a) @ x # drop (unat i) (arr_list a)"
proof -
  let ?xs = "arr_list a" and ?p = "unat (public_size a)"
  note sh = array_shape[OF assms(1)]
  have tk: "take ?p (slots a) = map Some ?xs" using sh by (metis append_eq_conv_conj length_map)
  have ti: "take (unat i) (slots a) = map Some (take (unat i) ?xs)"
    using tk assms(3) sh by (metis min.absorb1 take_map take_take)
  have n: "unat (public_size a + 1) = ?p + 1" using assms(2) by (rule unat_next)
  define a' where "a' = a\<lparr>slots := take (unat i) (slots a) @ [Some x] @ drop (unat i) (take ?p (slots a)) @ drop (?p + 1) (slots a),
               public_size := public_size a + 1\<rparr>"
  have "\<not> array_size a < public_size a + 1" using assms(2) n by (simp add: word_less_nat_alt)
  then have "array_insert i x a = Some a'" using assms(3) sh by (simp add: array_insert_def Let_def a'_def)
  moreover have "array_wf a' \<and> arr_list a' = take (unat i) ?xs @ x # drop (unat i) ?xs"
  proof (rule array_of_shape)
    show "slots a' = map Some (take (unat i) ?xs @ x # drop (unat i) ?xs) @ drop (?p + 1) (slots a)"
      by (simp add: a'_def tk ti drop_map)
    show "unat (public_size a') = length (take (unat i) ?xs @ x # drop (unat i) ?xs)" using sh assms(3) n by (simp add: a'_def)
    show "length (slots a') = unat (array_size a')"
      using assms sh by (simp add: a'_def array_wf_def word_less_nat_alt)
  qed
  ultimately show ?thesis by blast
qed

text \<open>Inserting into a full array loses data: the new block receives the elements behind the insertion point
  only, so afterwards neither the inserted element nor any element before it can be read.\<close>

theorem array_insert_full_loses:
  assumes "array_wf a" "public_size a = array_size a" "length (arr_list a) < 2 ^ 31" "unat i \<le> length (arr_list a)"
  shows "\<exists>a'. array_insert i x a = Some a' \<and> public_size a' = public_size a + 1 \<and> (\<forall>j \<le> i. array_get a' j = None)"
proof -
  let ?p = "public_size a"
  note sh = array_shape[OF assms(1)]
  have len: "length (arr_list a) = unat ?p" using sh by simp
  note g = grow_room[of ?p, OF assms(3)[unfolded len]]
  have "array_size a < ?p + 1" "?p < grow_to (?p + 1)" using g assms(2) by (auto simp: word_less_nat_alt word_le_nat_alt)
  then show ?thesis
    using assms(4) len by (auto simp: array_insert_def Let_def array_get_def load_def nth_append nth_Cons' word_le_nat_alt)
qed

theorem array_insert_full_loses_witness:
  "\<exists>a'. array_insert 1 ''n'' \<lparr>slots = [Some ''a'', Some ''b''], public_size = 2, array_size = 2\<rparr> = Some a'
     \<and> public_size a' = 3 \<and> (\<forall>j \<le> 1. array_get a' j = None)"
proof -
  let ?a = "\<lparr>slots = [Some ''a'', Some ''b''], public_size = 2, array_size = 2\<rparr> :: string array"
  have "array_wf ?a \<and> arr_list ?a = [''a'', ''b'']" by (rule array_of_shape) simp_all
  then show ?thesis using array_insert_full_loses[of ?a 1 "''n''"] by simp
qed

end
