(* ===== verification/Page_Allocator.thy ===== *)
theory Page_Allocator
  imports Linked_List "HOL-Library.Multiset"
begin

text \<open>
  \<^verbatim>\<open>core/zone_allocator.h\<close> and \<^verbatim>\<open>core/page_allocator.h\<close>: the memory behind the event queue and the nonce tables.  A zone gets pages from
  the operating system; a page allocator cuts them into small blocks that are only given back together.
  Addresses are natural numbers and the live blocks of the operating system are a list of addresses and sizes.  Where the
  operating system puts a block is the parameter \<open>os\<close>, of the size and the blocks that are live; \<open>None\<close> is a failure.
  Pointers have 64 bits, so that the header of a page has 24 bytes before alignment.
\<close>

type_synonym block = "nat \<times> nat"

datatype platform = mac_osx | other_platform

subsection \<open>Zones\<close>

record zone_allocator =
  za_quota :: uint32
  za_memory_used :: uint32
  za_live :: "block list"

definition zone_page_size :: uint32 where
  "zone_page_size = 4096"

definition new_zone_allocator :: "uint32 \<Rightarrow> block list \<Rightarrow> zone_allocator" where
  "new_zone_allocator quota live = \<lparr>za_quota = quota, za_memory_used = 0, za_live = live\<rparr>"

text \<open>The null pointer is the inner \<open>None\<close>.  Only the branch for Mac OS X counts the memory that is in use.\<close>

definition allocate_pages :: "platform \<Rightarrow> (nat \<Rightarrow> block list \<Rightarrow> nat option) \<Rightarrow> uint32 \<Rightarrow> zone_allocator
    \<Rightarrow> (ptr option \<times> zone_allocator) option" where
  "allocate_pages pf os page_count z =
     (let allocation_size = page_count * zone_page_size in
      if za_quota z \<noteq> 0 \<and> za_quota z < za_memory_used z + allocation_size then Some (None, z)
      else case os (unat allocation_size) (za_live z) of
        None \<Rightarrow> (if pf = mac_osx then None else Some (None, z))
      | Some a \<Rightarrow>
          let z1 = z\<lparr>za_live := (a, unat allocation_size) # za_live z\<rparr>
          in Some (Some a, if pf = mac_osx then z1\<lparr>za_memory_used := za_memory_used z + allocation_size\<rparr> else z1))"

text \<open>Giving back a block that is not live traps.  \<^verbatim>\<open>free\<close> finds the size of the block by itself.\<close>

definition deallocate_pages :: "platform \<Rightarrow> ptr \<Rightarrow> uint32 \<Rightarrow> zone_allocator \<Rightarrow> zone_allocator option" where
  "deallocate_pages pf the_page page_count z =
     (case map_of (za_live z) the_page of
        None \<Rightarrow> None
      | Some n \<Rightarrow>
          let z1 = z\<lparr>za_live := remove1 (the_page, n) (za_live z)\<rparr>
          in if pf = mac_osx then do {
               assert (n = unat (zone_page_size * page_count));
               Some (z1\<lparr>za_memory_used := za_memory_used z - zone_page_size * page_count\<rparr>) }
             else Some z1)"

subsection \<open>Page allocators\<close>

record page =
  pg_prev :: "ptr option"
  pg_page_count :: uint32

record page_allocator =
  pa_current_offset :: uint32
  pa_current_page_size :: uint32
  pa_current_page :: "ptr option"
  pa_pages :: "ptr \<rightharpoonup> page"

definition align_up :: "uint32 \<Rightarrow> uint32 \<Rightarrow> uint32" where
  "align_up alignment n = (n + (alignment - 1)) AND NOT (alignment - 1)"

definition page_header_size :: "uint32 \<Rightarrow> uint32" where
  "page_header_size alignment = align_up alignment 24"

definition new_page_allocator :: page_allocator where
  "new_page_allocator = \<lparr>pa_current_offset = zone_page_size, pa_current_page_size = zone_page_size,
     pa_current_page = None, pa_pages = Map.empty\<rparr>"

text \<open>A request of size 0 is answered with the null pointer; a new page that is null is written to without a test.\<close>

definition allocate_new_page :: "uint32 \<Rightarrow> platform \<Rightarrow> (nat \<Rightarrow> block list \<Rightarrow> nat option) \<Rightarrow> uint32 \<Rightarrow> page_allocator \<times> zone_allocator
    \<Rightarrow> (ptr \<times> page_allocator \<times> zone_allocator) option" where
  "allocate_new_page alignment pf os n = (\<lambda>(pa, z). do {
     let hdr = page_header_size alignment;
     let new_page_count = (max zone_page_size (n + hdr) + zone_page_size - 1) div zone_page_size;
     (result, z1) \<leftarrow> allocate_pages pf os new_page_count z;
     new_page \<leftarrow> result;
     let new_size = new_page_count * zone_page_size;
     let new_offset = hdr + n;
     if pa_current_page_size pa - pa_current_offset pa \<le> new_size - new_offset then
       Some (new_page + unat hdr,
         pa\<lparr>pa_pages := (pa_pages pa)(new_page \<mapsto> \<lparr>pg_prev = pa_current_page pa, pg_page_count = new_page_count\<rparr>),
            pa_current_page := Some new_page, pa_current_page_size := new_size, pa_current_offset := new_offset\<rparr>, z1)
     else do {
       cur \<leftarrow> pa_current_page pa;
       pg \<leftarrow> pa_pages pa cur;
       Some (new_page + unat hdr,
         pa\<lparr>pa_pages := (pa_pages pa)(new_page \<mapsto> \<lparr>pg_prev = pg_prev pg, pg_page_count = new_page_count\<rparr>,
                                     cur \<mapsto> pg\<lparr>pg_prev := Some new_page\<rparr>)\<rparr>, z1) } })"

definition page_allocate :: "uint32 \<Rightarrow> platform \<Rightarrow> (nat \<Rightarrow> block list \<Rightarrow> nat option) \<Rightarrow> uint32 \<Rightarrow> page_allocator \<times> zone_allocator
    \<Rightarrow> (ptr option \<times> page_allocator \<times> zone_allocator) option" where
  "page_allocate alignment pf os bytes = (\<lambda>(pa, z).
     if bytes = 0 then Some (None, pa, z)
     else let n = align_up alignment bytes in
       if pa_current_page_size pa < pa_current_offset pa + n then do {
         (ret, pa', z') \<leftarrow> allocate_new_page alignment pf os n (pa, z);
         Some (Some ret, pa', z') }
       else do {
         cur \<leftarrow> pa_current_page pa;
         Some (Some (cur + unat (pa_current_offset pa)), pa\<lparr>pa_current_offset := pa_current_offset pa + n\<rparr>, z) })"

partial_function (option) clear_pages :: "platform \<Rightarrow> page_allocator \<Rightarrow> zone_allocator \<Rightarrow> (page_allocator \<times> zone_allocator) option" where
  "clear_pages pf pa z =
     (case pa_current_page pa of None \<Rightarrow> Some (pa, z)
      | Some p \<Rightarrow> do {
          pg \<leftarrow> pa_pages pa p;
          z1 \<leftarrow> deallocate_pages pf p (pg_page_count pg) z;
          clear_pages pf (pa\<lparr>pa_current_page := pg_prev pg, pa_pages := (pa_pages pa)(p := None)\<rparr>) z1 })"

definition page_clear :: "platform \<Rightarrow> page_allocator \<times> zone_allocator \<Rightarrow> (page_allocator \<times> zone_allocator) option" where
  "page_clear pf = (\<lambda>(pa, z). do {
     (pa', z') \<leftarrow> clear_pages pf pa z;
     Some (pa'\<lparr>pa_current_offset := zone_page_size, pa_current_page_size := zone_page_size\<rparr>, z') })"

subsection \<open>Blocks that do not overlap\<close>

definition apart :: "block \<Rightarrow> block \<Rightarrow> bool" where
  "apart x y \<longleftrightarrow> fst x + snd x \<le> fst y \<or> fst y + snd y \<le> fst x"

definition separate :: "block list \<Rightarrow> bool" where
  "separate bs \<longleftrightarrow> distinct (map fst bs) \<and> (\<forall>x \<in> set bs. 0 < snd x)
     \<and> (\<forall>x \<in> set bs. \<forall>y \<in> set bs. fst x \<noteq> fst y \<longrightarrow> apart x y)"

lemma separate_Nil [simp]: "separate []"
  by (simp add: separate_def)

lemma apart_sym: "apart x y \<longleftrightarrow> apart y x"
  by (auto simp: apart_def)

lemma separate_Cons:
  assumes "separate bs" "0 < n" "\<forall>b \<in> set bs. apart (a, n) b"
  shows "separate ((a, n) # bs)"
proof -
  have "a \<noteq> fst b" if "b \<in> set bs" for b
    using that assms by (force simp: separate_def apart_def)
  then show ?thesis using assms apart_sym by (auto simp: separate_def)
qed

lemma separate_mset: "mset xs = mset ys \<Longrightarrow> separate xs \<Longrightarrow> separate ys"
  unfolding separate_def by (metis mset_map mset_eq_setD mset_eq_imp_distinct_iff)

lemma separate_lookup: "separate bs \<Longrightarrow> (a, n) \<in> set bs \<Longrightarrow> map_of bs a = Some n"
  by (simp add: separate_def)

text \<open>What the operating system promises: as long as it has memory, aligned blocks that do not overlap live ones.\<close>

definition os_law :: "(nat \<Rightarrow> block list \<Rightarrow> nat option) \<Rightarrow> bool" where
  "os_law os \<longleftrightarrow> (\<forall>n live. 0 < n \<longrightarrow> (\<exists>a. os n live = Some a \<and> 16 dvd a \<and> (\<forall>b \<in> set live. apart (a, n) b)))"

subsection \<open>Alignment\<close>

lemma align_up_value:
  assumes "k \<le> 4" "unat n \<le> 2 ^ 31"
  shows "unat n \<le> unat (align_up (2 ^ k) n)" "unat (align_up (2 ^ k) n) < unat n + 2 ^ k" "2 ^ k dvd unat (align_up (2 ^ k) n)"
proof -
  have p: "(2 :: nat) ^ k \<le> 16" using power_increasing[OF assms(1), of "2 :: nat"] by simp
  have u: "unat (2 ^ k - 1 :: uint32) = 2 ^ k - 1"
  proof -
    consider "k = 0" | "k = 1" | "k = 2" | "k = 3" | "k = 4" using assms(1) by linarith
    then show ?thesis by cases simp_all
  qed
  have s: "unat (n + (2 ^ k - 1)) = unat n + (2 ^ k - 1)"
    using unat_add_lem[THEN iffD1, of n "2 ^ k - 1"] u assms(2) p by simp
  let ?x = "n + (2 ^ k - 1)"
  have "align_up (2 ^ k) n = ?x AND NOT (mask k)" by (simp add: align_up_def mask_eq_exp_minus_1)
  also have "unat \<dots> = (unat ?x div 2 ^ k) * 2 ^ k"
    by (rule unat_and_not_mask)
  finally have v: "unat (align_up (2 ^ k) n) = (unat n + (2 ^ k - 1)) div 2 ^ k * 2 ^ k" by (simp add: s)
  let ?p = "2 ^ k :: nat"
  have "?p > 0" by simp
  have d: "(unat n + (?p - 1)) div ?p * ?p = unat n + (?p - 1) - (unat n + (?p - 1)) mod ?p" by (simp add: minus_mod_eq_div_mult)
  have m: "(unat n + (?p - 1)) mod ?p < ?p" by simp
  show "unat n \<le> unat (align_up (2 ^ k) n)" "unat (align_up (2 ^ k) n) < unat n + 2 ^ k"
    unfolding v d using m by linarith+
  show "2 ^ k dvd unat (align_up (2 ^ k) n)" unfolding v by simp
qed

subsection \<open>The invariant\<close>

definition page_bytes :: "page_allocator \<Rightarrow> ptr \<Rightarrow> nat" where
  "page_bytes pa p = 4096 * unat (pg_page_count (the (pa_pages pa p)))"

text \<open>The part of a page that is handed out: the current page up to the offset, every other page as a whole.\<close>

definition used_bytes :: "page_allocator \<Rightarrow> ptr \<Rightarrow> nat" where
  "used_bytes pa p = (if pa_current_page pa = Some p then unat (pa_current_offset pa) else page_bytes pa p)"

definition inside :: "uint32 \<Rightarrow> page_allocator \<Rightarrow> ptr \<Rightarrow> block \<Rightarrow> bool" where
  "inside al pa p b \<longleftrightarrow> p + unat (page_header_size al) \<le> fst b \<and> fst b + snd b \<le> p + used_bytes pa p"

text \<open>\<open>ps\<close> are the pages of the allocator, \<open>bs\<close> the blocks it has handed out, \<open>rest\<close> the other live blocks of the zone.\<close>

definition pa_inv :: "uint32 \<Rightarrow> block list \<Rightarrow> ptr list \<Rightarrow> block list \<Rightarrow> page_allocator \<times> zone_allocator \<Rightarrow> bool" where
  "pa_inv al rest ps bs = (\<lambda>(pa, z). chain pg_prev (pa_pages pa) (pa_current_page pa) ps
     \<and> mset (za_live z) = mset (map (\<lambda>p. (p, page_bytes pa p)) ps) + mset rest \<and> separate (za_live z) \<and> za_quota z = 0
     \<and> (\<forall>p \<in> set ps. 16 dvd p \<and> page_bytes pa p \<le> 2 ^ 30 + 8192)
     \<and> pa_current_offset pa \<le> pa_current_page_size pa
     \<and> (case pa_current_page pa of None \<Rightarrow> pa_current_offset pa = pa_current_page_size pa \<and> unat (pa_current_offset pa) \<le> 4096
        | Some p \<Rightarrow> unat (pa_current_page_size pa) = page_bytes pa p \<and> page_header_size al \<le> pa_current_offset pa
            \<and> unat al dvd unat (pa_current_offset pa))
     \<and> separate bs \<and> (\<forall>b \<in> set bs. unat al dvd fst b \<and> (\<exists>p \<in> set ps. inside al pa p b)))"

lemma pa_inv_perm: "mset bs = mset bs' \<Longrightarrow> pa_inv al rest ps bs st \<Longrightarrow> pa_inv al rest ps bs' st"
  using mset_eq_setD[of bs bs'] separate_mset[of bs bs'] by (auto simp: pa_inv_def split: prod.splits)

lemma pages_apart:
  assumes "pa_inv al rest ps bs (pa, z)" "p \<in> set ps" "q \<in> set ps" "p \<noteq> q"
  shows "apart (p, page_bytes pa p) (q, page_bytes pa q)"
proof -
  have "set (za_live z) = set (map (\<lambda>p. (p, page_bytes pa p)) ps @ rest)"
    using assms(1) by (intro mset_eq_setD) (simp add: pa_inv_def)
  then have "(p, page_bytes pa p) \<in> set (za_live z)" "(q, page_bytes pa q) \<in> set (za_live z)" using assms(2,3) by auto
  then show ?thesis using assms(1,4) by (force simp: pa_inv_def separate_def)
qed

text \<open>A block in the unused part of a page is apart from all blocks handed out.\<close>

lemma used_le: "pa_inv al rest ps bs (pa, z) \<Longrightarrow> used_bytes pa p \<le> page_bytes pa p"
  by (auto simp: pa_inv_def used_bytes_def word_le_nat_alt split: option.splits)

lemma unused_apart:
  assumes inv: "pa_inv al rest ps bs (pa, z)" and "p \<in> set ps" "p + used_bytes pa p \<le> a" "a + n \<le> p + page_bytes pa p" "b \<in> set bs"
  shows "apart (a, n) b"
proof -
  obtain q where q: "q \<in> set ps" "inside al pa q b" using inv assms(5) by (auto simp: pa_inv_def)
  show ?thesis
  proof (cases "q = p")
    case True
    then show ?thesis using q(2) assms(3) by (auto simp: inside_def apart_def)
  next
    case False
    with pages_apart[OF inv assms(2) q(1)] used_le[OF inv, of q] q(2) assms(3,4) show ?thesis
      by (auto simp: inside_def apart_def)
  qed
qed

subsection \<open>Every request gets a block of its own\<close>

lemma header_size: "k \<le> 4 \<Longrightarrow> 24 \<le> unat (page_header_size (2 ^ k)) \<and> unat (page_header_size (2 ^ k)) \<le> 32
    \<and> 2 ^ k dvd unat (page_header_size (2 ^ k))"
proof -
  assume k: "k \<le> 4"
  then consider "k = 0" | "k = 1" | "k = 2" | "k = 3" | "k = 4" by linarith
  then show ?thesis by cases (simp_all add: page_header_size_def align_up_def)
qed

lemma unat_two_power: "k \<le> 4 \<Longrightarrow> unat (2 ^ k :: uint32) = 2 ^ k"
proof -
  assume "k \<le> 4"
  then consider "k = 0" | "k = 1" | "k = 2" | "k = 3" | "k = 4" by linarith
  then show ?thesis by cases simp_all
qed

text \<open>The request fits into the current page.\<close>

lemma allocate_in_page:
  assumes inv: "pa_inv (2 ^ k) rest ps bs (pa, z)" and k: "k \<le> 4" and n: "0 < m" "m \<le> unat n" "2 ^ k dvd unat n" "unat n \<le> 2 ^ 30 + 16"
    and fits: "\<not> pa_current_page_size pa < pa_current_offset pa + n"
  shows "\<exists>cur. pa_current_page pa = Some cur \<and> pa_inv (2 ^ k) rest ps ((cur + unat (pa_current_offset pa), m) # bs) (pa\<lparr>pa_current_offset := pa_current_offset pa + n\<rparr>, z)"
proof -
  let ?o = "pa_current_offset pa"
  have "\<exists>cur. pa_current_page pa = Some cur"
  proof (rule ccontr)
    assume "\<nexists>cur. pa_current_page pa = Some cur"
    then have "?o = pa_current_page_size pa" "unat ?o \<le> 4096" using inv by (auto simp: pa_inv_def)
    moreover from this have "unat (?o + n) = unat ?o + unat n" using n(4) unat_add_lem[THEN iffD1, of ?o n] by simp
    ultimately show False using fits n(1,2) by (simp add: word_less_nat_alt)
  qed
  then obtain cur where cur: "pa_current_page pa = Some cur" by blast
  then have c: "unat (pa_current_page_size pa) = page_bytes pa cur" "page_header_size (2 ^ k) \<le> ?o" "2 ^ k dvd unat ?o" "cur \<in> set ps" "16 dvd cur"
      "page_bytes pa cur \<le> 2 ^ 30 + 8192" "?o \<le> pa_current_page_size pa"
    using inv unat_two_power[OF k] by (cases ps; auto simp: pa_inv_def chain_Cons)+
  then have o: "unat (?o + n) = unat ?o + unat n" using n(4) unat_add_lem[THEN iffD1, of ?o n] by (simp add: word_le_nat_alt)
  let ?pa = "pa\<lparr>pa_current_offset := ?o + n\<rparr>" and ?b = "(cur + unat ?o, m)"
  have end_le: "unat ?o + unat n \<le> page_bytes pa cur" using fits c(1) o by (simp add: not_less word_le_nat_alt)
  have ap: "\<forall>b \<in> set bs. apart ?b b"
    using unused_apart[OF inv c(4), of "cur + unat ?o" m] end_le n(2) by (simp add: used_bytes_def cur)
  have pb: "page_bytes ?pa = page_bytes pa" by (simp add: page_bytes_def fun_eq_iff)
  have "inside (2 ^ k) ?pa p b" if "inside (2 ^ k) pa p b" for p b
    using that o by (auto simp: inside_def used_bytes_def pb split: if_splits)
  moreover have "inside (2 ^ k) ?pa cur ?b" using c(2) o n(2) cur by (simp add: inside_def used_bytes_def word_le_nat_alt)
  moreover have "(2 :: nat) ^ k dvd cur + unat ?o"
    using c(3,5) k le_imp_power_dvd[OF k, of "2 :: nat"] by (intro dvd_add) (auto elim: dvd_trans)
  moreover have "page_header_size (2 ^ k) \<le> ?o + n" "?o + n \<le> pa_current_page_size pa" "2 ^ k dvd unat (?o + n)"
    using c(2,3) o n(3) end_le c(1) by (simp_all add: word_le_nat_alt)
  moreover have "\<forall>b \<in> set bs. 2 ^ k dvd fst b \<and> (\<exists>p \<in> set ps. inside (2 ^ k) pa p b)" using inv unat_two_power[OF k] by (simp add: pa_inv_def)
  ultimately have "\<forall>b \<in> set (?b # bs). 2 ^ k dvd fst b \<and> (\<exists>p \<in> set ps. inside (2 ^ k) ?pa p b)"
      "page_header_size (2 ^ k) \<le> ?o + n" "?o + n \<le> pa_current_page_size pa" "2 ^ k dvd unat (?o + n)"
    using c(4) by (metis fst_conv set_ConsD)+
  then have "pa_inv (2 ^ k) rest ps (?b # bs) (?pa, z)"
    using inv c(1) separate_Cons[OF _ n(1) ap] cur unat_two_power[OF k] by (simp add: pa_inv_def pb)
  with cur show ?thesis by blast
qed

text \<open>The request needs a new page.\<close>

lemma unat_page_size [simp]: "unat zone_page_size = 4096"
  by (simp add: zone_page_size_def)

lemma page_count_value:
  assumes "k \<le> 4" "unat n \<le> 2 ^ 30 + 16"
  defines "c \<equiv> (max zone_page_size (n + page_header_size (2 ^ k)) + zone_page_size - 1) div zone_page_size"
  shows "unat (c * zone_page_size) = 4096 * unat c" "unat n + unat (page_header_size (2 ^ k)) \<le> 4096 * unat c" "4096 * unat c \<le> 2 ^ 30 + 8192" "0 < unat c"
    "unat (page_header_size (2 ^ k) + n) = unat (page_header_size (2 ^ k)) + unat n"
proof -
  let ?h = "page_header_size (2 ^ k)"
  note h = header_size[OF assms(1)]
  show a: "unat (?h + n) = unat ?h + unat n" using h assms(2) unat_add_lem[THEN iffD1, of ?h n] by simp
  let ?m = "max zone_page_size (n + ?h)"
  have "n + ?h = ?h + n" by simp
  then have m: "unat ?m = max 4096 (unat n + unat ?h)"
    using a unat_page_size by (simp only: max_def word_le_nat_alt add.commute[of "unat n"] if_distrib[of unat])
  have "?m + zone_page_size - 1 = ?m + 4095" by (simp add: zone_page_size_def)
  moreover have "unat (?m + 4095) = unat ?m + 4095" using m h assms(2) unat_add_lem[THEN iffD1, of ?m 4095] by simp
  ultimately have c: "unat c = (max 4096 (unat n + unat ?h) + 4095) div 4096"
    by (simp only: c_def unat_div m unat_page_size)
  then show b: "unat n + unat ?h \<le> 4096 * unat c" "4096 * unat c \<le> 2 ^ 30 + 8192" "0 < unat c"
    using h assms(2) by (auto simp: max_def)
  then show "unat (c * zone_page_size) = 4096 * unat c"
    using unat_mult_lem[THEN iffD1, of c zone_page_size] by simp
qed

lemma allocate_pages_ok:
  assumes "os_law os" "za_quota z = 0" "0 < unat (c * zone_page_size)"
  shows "\<exists>a z1. allocate_pages pf os c z = Some (Some a, z1) \<and> 16 dvd a \<and> (\<forall>b \<in> set (za_live z). apart (a, unat (c * zone_page_size)) b)
     \<and> za_live z1 = (a, unat (c * zone_page_size)) # za_live z \<and> za_quota z1 = 0
     \<and> za_memory_used z1 = (if pf = mac_osx then za_memory_used z + c * zone_page_size else za_memory_used z)"
proof -
  let ?n = "unat (c * zone_page_size)"
  obtain a where a: "os ?n (za_live z) = Some a" "16 dvd a" "\<forall>b \<in> set (za_live z). apart (a, ?n) b"
    using assms(1,3) unfolding os_law_def by blast
  then show ?thesis using assms(2) by (simp add: allocate_pages_def Let_def)
qed

text \<open>A block in a fresh page is apart from all blocks handed out.\<close>

lemma fresh_apart:
  assumes inv: "pa_inv al rest ps bs (pa, z)" and fresh: "\<forall>x \<in> set (za_live z). apart (a, bytes) x" and h: "h + m \<le> bytes" and b: "b \<in> set bs"
  shows "apart (a + h, m) b"
proof -
  obtain q where q: "q \<in> set ps" "inside al pa q b" using inv b by (auto simp: pa_inv_def)
  have "set (za_live z) = set (map (\<lambda>p. (p, page_bytes pa p)) ps @ rest)" using inv by (intro mset_eq_setD) (simp add: pa_inv_def)
  then have "apart (a, bytes) (q, page_bytes pa q)" using fresh q(1) by auto
  then show ?thesis using q(2) used_le[OF inv, of q] h by (auto simp: inside_def apart_def)
qed

lemma fresh_page:
  assumes inv: "pa_inv al rest ps bs (pa, z)" and fresh: "\<forall>x \<in> set (za_live z). apart (a, bytes) x" "0 < bytes" and p: "p \<in> set ps"
  shows "p \<noteq> a"
proof -
  have "set (za_live z) = set (map (\<lambda>p. (p, page_bytes pa p)) ps @ rest)" using inv by (intro mset_eq_setD) (simp add: pa_inv_def)
  then have l: "(p, page_bytes pa p) \<in> set (za_live z)" using p by auto
  then have "0 < page_bytes pa p" using inv by (auto simp: pa_inv_def separate_def)
  then show ?thesis using fresh(1) l fresh(2) by (force simp: apart_def)
qed

lemma allocate_on_new_page:
  assumes inv: "pa_inv (2 ^ k) rest ps bs (pa, z)" and k: "k \<le> 4" and os: "os_law os"
    and n: "0 < m" "m \<le> unat n" "2 ^ k dvd unat n" "unat n \<le> 2 ^ 30 + 16"
  shows "\<exists>r st' ps'. allocate_new_page (2 ^ k) pf os n (pa, z) = Some (r, st') \<and> pa_inv (2 ^ k) rest ps' ((r, m) # bs) st'"
proof -
  let ?h = "page_header_size (2 ^ k)"
  define c where "c = (max zone_page_size (n + ?h) + zone_page_size - 1) div zone_page_size"
  note cv = page_count_value[OF k n(4), folded c_def]
  obtain a z1 where a: "allocate_pages pf os c z = Some (Some a, z1)" "16 dvd a" "\<forall>b \<in> set (za_live z). apart (a, 4096 * unat c) b"
      "za_live z1 = (a, 4096 * unat c) # za_live z" "za_quota z1 = 0"
    using allocate_pages_ok[OF os, of z c pf] inv cv(1,4) by (auto simp: pa_inv_def)
  have new: "p \<noteq> a" if "p \<in> set ps" for p using fresh_page[OF inv a(3) _ that] cv(4) by simp
  have "separate (za_live z)" using inv by (simp add: pa_inv_def)
  then have live: "separate (za_live z1)" unfolding a(4) using separate_Cons[OF _ _ a(3)] cv(4) by simp
  let ?b = "(a + unat ?h, m)"
  have "separate bs" using inv by (simp add: pa_inv_def)
  then have blocks: "separate (?b # bs)"
    using separate_Cons[OF _ n(1), of bs "a + unat ?h"] fresh_apart[OF inv a(3), of "unat ?h" m] cv(2) n(2) by simp
  have al: "(2 :: nat) ^ k dvd a + unat ?h"
    using a(2) header_size[OF k] le_imp_power_dvd[OF k, of "2 :: nat"] by (intro dvd_add) (auto elim: dvd_trans)
  let ?pg = "\<lambda>prev. \<lparr>pg_prev = prev, pg_page_count = c\<rparr>"
  show ?thesis
  proof (cases "pa_current_page_size pa - pa_current_offset pa \<le> c * zone_page_size - (?h + n)")
    case True
    let ?pa = "pa\<lparr>pa_pages := (pa_pages pa)(a \<mapsto> ?pg (pa_current_page pa)), pa_current_page := Some a,
       pa_current_page_size := c * zone_page_size, pa_current_offset := ?h + n\<rparr>"
    have pb: "page_bytes ?pa a = 4096 * unat c" "p \<noteq> a \<Longrightarrow> page_bytes ?pa p = page_bytes pa p" for p by (simp_all add: page_bytes_def)
    have "inside (2 ^ k) ?pa p b" if "p \<in> set ps" "inside (2 ^ k) pa p b" for p b
      using that new[of p] used_le[OF inv, of p] pb by (auto simp: inside_def used_bytes_def)
    moreover have "inside (2 ^ k) ?pa a ?b" using cv(5) n(2) by (simp add: inside_def used_bytes_def)
    moreover have "\<forall>b \<in> set bs. 2 ^ k dvd fst b \<and> (\<exists>p \<in> set ps. inside (2 ^ k) pa p b)" using inv unat_two_power[OF k] by (simp add: pa_inv_def)
    ultimately have ins: "\<forall>b \<in> set (?b # bs). 2 ^ k dvd fst b \<and> (\<exists>p \<in> set (a # ps). inside (2 ^ k) ?pa p b)"
      using al by (metis fst_conv list.set_intros set_ConsD)
    have "image_mset (\<lambda>p. (p, page_bytes ?pa p)) (mset ps) = image_mset (\<lambda>p. (p, page_bytes pa p)) (mset ps)" using new pb(2) by (intro image_mset_cong) auto
    then have "mset (za_live z1) = mset (map (\<lambda>p. (p, page_bytes ?pa p)) (a # ps)) + mset rest"
      using inv pb(1) by (simp add: pa_inv_def a(4))
    moreover have "chain pg_prev (pa_pages ?pa) (Some a) (a # ps)" using inv new by (auto simp: pa_inv_def chain_Cons intro!: chain_other)
    moreover have "\<forall>p \<in> set (a # ps). 16 dvd p \<and> page_bytes ?pa p \<le> 2 ^ 30 + 8192" using inv new pb a(2) cv(3) by (auto simp: pa_inv_def)
    moreover have "?h + n \<le> c * zone_page_size" "?h \<le> ?h + n" "2 ^ k dvd unat (?h + n)"
      using cv(1,2,5) n(3) header_size[OF k] by (simp_all add: word_le_nat_alt)
    ultimately have "pa_inv (2 ^ k) rest (a # ps) (?b # bs) (?pa, z1)"
      using live blocks ins a(5) cv(1) pb(1) unat_two_power[OF k] by (simp add: pa_inv_def)
    moreover have "allocate_new_page (2 ^ k) pf os n (pa, z) = Some (a + unat ?h, ?pa, z1)"
      using a(1) True by (simp add: allocate_new_page_def Let_def c_def)
    ultimately show ?thesis by blast
  next
    case False
    then have "pa_current_page_size pa \<noteq> pa_current_offset pa" by auto
    then obtain cur where cur: "pa_current_page pa = Some cur" using inv by (auto simp: pa_inv_def split: option.splits)
    then obtain qs pg where ps: "ps = cur # qs" "pa_pages pa cur = Some pg" "chain pg_prev (pa_pages pa) (pg_prev pg) qs"
      using inv by (cases ps) (auto simp: pa_inv_def chain_Cons)
    let ?pa = "pa\<lparr>pa_pages := (pa_pages pa)(a \<mapsto> ?pg (pg_prev pg), cur \<mapsto> pg\<lparr>pg_prev := Some a\<rparr>)\<rparr>"
    have nd: "cur \<notin> set qs" "a \<noteq> cur" "a \<notin> set qs"
      using chain_distinct[of pg_prev "pa_pages pa" "Some cur" ps] inv cur new ps(1) by (auto simp: pa_inv_def)
    have pb: "page_bytes ?pa a = 4096 * unat c" "p \<noteq> a \<Longrightarrow> page_bytes ?pa p = page_bytes pa p" for p
      using ps(2) nd(2) by (simp_all add: page_bytes_def)
    then have pbs: "\<forall>p \<in> set ps. page_bytes ?pa p = page_bytes pa p" using new by blast
    have "inside (2 ^ k) ?pa p b" if "p \<in> set ps" "inside (2 ^ k) pa p b" for p b
      using that new[of p] pb by (auto simp: inside_def used_bytes_def)
    moreover have "inside (2 ^ k) ?pa a ?b" using cur nd(2) pb(1) cv(2) n(2) by (simp add: inside_def used_bytes_def)
    moreover have "\<forall>b \<in> set bs. 2 ^ k dvd fst b \<and> (\<exists>p \<in> set ps. inside (2 ^ k) pa p b)" using inv unat_two_power[OF k] by (simp add: pa_inv_def)
    ultimately have ins: "\<forall>b \<in> set (?b # bs). 2 ^ k dvd fst b \<and> (\<exists>p \<in> set (cur # a # qs). inside (2 ^ k) ?pa p b)"
      using al ps(1) by (metis fst_conv list.set_intros set_ConsD)
    have "image_mset (\<lambda>p. (p, page_bytes ?pa p)) (mset qs) = image_mset (\<lambda>p. (p, page_bytes pa p)) (mset qs)" using nd(3) pb(2) by (intro image_mset_cong) (metis set_mset_mset)
    then have "mset (za_live z1) = mset (map (\<lambda>p. (p, page_bytes ?pa p)) (cur # a # qs)) + mset rest"
      using inv pb nd(2) ps(1) by (simp add: pa_inv_def a(4))
    moreover have "chain pg_prev (pa_pages ?pa) (Some cur) (cur # a # qs)" using ps(3) nd by (auto simp: chain_Cons intro!: chain_other)
    moreover have "\<forall>p \<in> set (cur # a # qs). 16 dvd p \<and> page_bytes ?pa p \<le> 2 ^ 30 + 8192"
      using inv pbs pb(1) a(2) cv(3) ps(1) by (simp add: pa_inv_def)
    ultimately have "pa_inv (2 ^ k) rest (cur # a # qs) (?b # bs) (?pa, z1)"
      using inv live blocks ins a(5) pb nd(2) cur unat_two_power[OF k] by (simp add: pa_inv_def)
    moreover have "allocate_new_page (2 ^ k) pf os n (pa, z) = Some (a + unat ?h, ?pa, z1)"
      using a(1) False cur ps(2) by (simp add: allocate_new_page_def Let_def c_def)
    ultimately show ?thesis by blast
  qed
qed

lemma allocate_step:
  assumes inv: "pa_inv (2 ^ k) rest ps bs st" and k: "k \<le> 4" and os: "os_law os" and n: "0 < n" "unat n \<le> 2 ^ 30"
  shows "\<exists>r st' ps'. page_allocate (2 ^ k) pf os n st = Some (Some r, st') \<and> pa_inv (2 ^ k) rest ps' ((r, unat n) # bs) st'"
proof -
  obtain pa z where st: "st = (pa, z)" by fastforce
  let ?n = "align_up (2 ^ k) n"
  have p: "(2 :: nat) ^ k \<le> 16" using power_increasing[OF k, of "2 :: nat"] by simp
  have a: "0 < unat n" "unat n \<le> unat ?n" "2 ^ k dvd unat ?n" "unat ?n \<le> 2 ^ 30 + 16"
    using align_up_value[OF k, of n] n p by (simp_all add: word_less_nat_alt)
  show ?thesis
  proof (cases "pa_current_page_size pa < pa_current_offset pa + ?n")
    case True
    then show ?thesis
      using allocate_on_new_page[OF inv[unfolded st] k os a, of pf] n(1) by (auto simp: page_allocate_def st Let_def)
  next
    case False
    from allocate_in_page[OF inv[unfolded st] k a False] obtain cur where
      "pa_current_page pa = Some cur" "pa_inv (2 ^ k) rest ps ((cur + unat (pa_current_offset pa), unat n) # bs) (pa\<lparr>pa_current_offset := pa_current_offset pa + ?n\<rparr>, z)"
      by blast
    moreover from this(1) have "page_allocate (2 ^ k) pf os n st
        = Some (Some (cur + unat (pa_current_offset pa)), pa\<lparr>pa_current_offset := pa_current_offset pa + ?n\<rparr>, z)"
      using False n(1) by (simp add: page_allocate_def st Let_def)
    ultimately show ?thesis by blast
  qed
qed

text \<open>A row of requests.\<close>

fun allocate_all :: "uint32 \<Rightarrow> platform \<Rightarrow> (nat \<Rightarrow> block list \<Rightarrow> nat option) \<Rightarrow> uint32 list \<Rightarrow> page_allocator \<times> zone_allocator
    \<Rightarrow> (ptr option list \<times> page_allocator \<times> zone_allocator) option" where
  "allocate_all al pf os [] st = Some ([], st)"
| "allocate_all al pf os (n # ns) st = do {
     (r, st1) \<leftarrow> page_allocate al pf os n st;
     (rs, st2) \<leftarrow> allocate_all al pf os ns st1;
     Some (r # rs, st2) }"

lemma allocate_all_inv:
  assumes "pa_inv (2 ^ k) rest ps bs st" "k \<le> 4" "os_law os" "\<forall>n \<in> set ns. 0 < n \<and> unat n \<le> 2 ^ 30"
  shows "\<exists>rs st' ps'. allocate_all (2 ^ k) pf os ns st = Some (map Some rs, st') \<and> length rs = length ns
     \<and> pa_inv (2 ^ k) rest ps' (zip rs (map unat ns) @ bs) st'"
  using assms(1,4)
proof (induction ns arbitrary: ps bs st)
  case Nil
  then show ?case by auto
next
  case (Cons n ns)
  obtain r st1 ps1 where r: "page_allocate (2 ^ k) pf os n st = Some (Some r, st1)" "pa_inv (2 ^ k) rest ps1 ((r, unat n) # bs) st1"
    using allocate_step[OF Cons.prems(1) assms(2,3), of n pf] Cons.prems(2) by auto
  obtain rs st' ps' where rs: "allocate_all (2 ^ k) pf os ns st1 = Some (map Some rs, st')" "length rs = length ns"
      "pa_inv (2 ^ k) rest ps' (zip rs (map unat ns) @ (r, unat n) # bs) st'"
    using Cons.IH[OF r(2)] Cons.prems(2) by auto
  have "pa_inv (2 ^ k) rest ps' (zip (r # rs) (map unat (n # ns)) @ bs) st'"
    by (rule pa_inv_perm[OF _ rs(3)]) simp
  then show ?case using r(1) rs(1,2) by (intro exI[of _ "r # rs"] exI[of _ st'] exI[of _ ps']) simp
qed

subsection \<open>All pages are given back\<close>

lemma separate_remove1: "separate bs \<Longrightarrow> separate (remove1 x bs)"
  unfolding separate_def by (metis distinct_map distinct_remove1 inj_on_subset notin_set_remove1 set_remove1_subset)

lemma clear_pages_ok:
  assumes "chain pg_prev (pa_pages pa) (pa_current_page pa) ps" "mset (za_live z) = mset (map (\<lambda>p. (p, page_bytes pa p)) ps) + mset rest"
    and "separate (za_live z)" "\<forall>p \<in> set ps. page_bytes pa p \<le> 2 ^ 30 + 8192"
  shows "\<exists>pa' z'. clear_pages pf pa z = Some (pa', z') \<and> pa_current_page pa' = None \<and> mset (za_live z') = mset rest"
  using assms
proof (induction ps arbitrary: pa z)
  case Nil
  then show ?case by (subst clear_pages.simps) simp
next
  case (Cons p ps)
  obtain pg where pg: "pa_current_page pa = Some p" "pa_pages pa p = Some pg" "chain pg_prev (pa_pages pa) (pg_prev pg) ps"
    using Cons.prems(1) by (auto simp: chain_Cons)
  let ?n = "4096 * unat (pg_page_count pg)"
  have n: "page_bytes pa p = ?n" by (simp add: page_bytes_def pg(2))
  have np: "p \<notin> set ps" using chain_distinct[OF Cons.prems(1)] by simp
  have "set (za_live z) = set (map (\<lambda>p. (p, page_bytes pa p)) (p # ps) @ rest)" using Cons.prems(2) by (intro mset_eq_setD) simp
  then have l: "(p, ?n) \<in> set (za_live z)" using n by auto
  have sz: "unat (zone_page_size * pg_page_count pg) = ?n"
    using unat_mult_lem[THEN iffD1, of zone_page_size "pg_page_count pg"] Cons.prems(4) n by simp
  let ?pa = "pa\<lparr>pa_current_page := pg_prev pg, pa_pages := (pa_pages pa)(p := None)\<rparr>"
  obtain z1 where z1: "deallocate_pages pf p (pg_page_count pg) z = Some z1" "za_live z1 = remove1 (p, ?n) (za_live z)"
    using separate_lookup[OF Cons.prems(3) l] sz by (cases pf) (simp_all add: deallocate_pages_def Let_def)
  have pb: "page_bytes ?pa q = page_bytes pa q" if "q \<in> set ps" for q using that np by (auto simp: page_bytes_def)
  have "image_mset (\<lambda>p. (p, page_bytes ?pa p)) (mset ps) = image_mset (\<lambda>p. (p, page_bytes pa p)) (mset ps)"
    by (intro image_mset_cong) (simp add: pb)
  then have "mset (za_live z1) = mset (map (\<lambda>p. (p, page_bytes ?pa p)) ps) + mset rest"
    using Cons.prems(2) n by (simp add: z1(2))
  moreover have "chain pg_prev (pa_pages ?pa) (pa_current_page ?pa) ps" using pg(3) np by simp
  moreover have "\<forall>q \<in> set ps. page_bytes ?pa q \<le> 2 ^ 30 + 8192" using Cons.prems(4) pb by simp
  moreover have "separate (za_live z1)" using Cons.prems(3) z1(2) separate_remove1 by simp
  ultimately have "\<exists>pa' z'. clear_pages pf ?pa z1 = Some (pa', z') \<and> pa_current_page pa' = None \<and> mset (za_live z') = mset rest"
    using Cons.IH[of ?pa z1] by blast
  then show ?case using pg(1,2) z1(1) by (subst clear_pages.simps) auto
qed

subsection \<open>Properties\<close>

lemma new_allocator_inv:
  assumes "separate (za_live z)" "za_quota z = 0"
  shows "pa_inv al (za_live z) [] [] (new_page_allocator, z)"
  using assms by (simp add: pa_inv_def new_page_allocator_def)

text \<open>C26. A page allocator without a quota: every request of up to \<open>2 ^ 30\<close> bytes is answered with an aligned block, no two blocks overlap,
  each lies inside live memory of the zone, and clearing the allocator gives every page back exactly once: the live memory of the
  zone is what it was before the first request.\<close>

theorem page_allocator_sound:
  assumes "os_law os" "k \<le> 4" "separate (za_live z)" "za_quota z = 0" "\<forall>n \<in> set ns. 0 < n \<and> unat n \<le> 2 ^ 30"
  shows "\<exists>rs pa' z' pa'' z''. allocate_all (2 ^ k) pf os ns (new_page_allocator, z) = Some (map Some rs, pa', z') \<and> length rs = length ns
     \<and> separate (zip rs (map unat ns)) \<and> (\<forall>r \<in> set rs. 2 ^ k dvd r)
     \<and> (\<forall>b \<in> set (zip rs (map unat ns)). \<exists>x \<in> set (za_live z'). fst x \<le> fst b \<and> fst b + snd b \<le> fst x + snd x)
     \<and> page_clear pf (pa', z') = Some (pa'', z'') \<and> mset (za_live z'') = mset (za_live z)"
proof -
  obtain rs pa' z' ps where r: "allocate_all (2 ^ k) pf os ns (new_page_allocator, z) = Some (map Some rs, pa', z')" "length rs = length ns"
      "pa_inv (2 ^ k) (za_live z) ps (zip rs (map unat ns)) (pa', z')"
    using allocate_all_inv[OF new_allocator_inv[OF assms(3,4)] assms(2,1,5), of pf] by auto
  have live: "set (za_live z') = set (map (\<lambda>p. (p, page_bytes pa' p)) ps @ za_live z)" using r(3) by (intro mset_eq_setD) (simp add: pa_inv_def)
  have bl: "\<forall>b \<in> set (zip rs (map unat ns)). 2 ^ k dvd fst b \<and> (\<exists>p \<in> set ps. inside (2 ^ k) pa' p b)"
    using r(3) unat_two_power[OF assms(2)] by (simp add: pa_inv_def)
  have ins: "\<exists>x \<in> set (za_live z'). fst x \<le> fst b \<and> fst b + snd b \<le> fst x + snd x" if b: "b \<in> set (zip rs (map unat ns))" for b
  proof -
    obtain p where p: "p \<in> set ps" "inside (2 ^ k) pa' p b" using bspec[OF bl b] by blast
    then have "(p, page_bytes pa' p) \<in> set (za_live z')" using live by auto
    moreover have "p \<le> fst b" "fst b + snd b \<le> p + page_bytes pa' p" using p(2) used_le[OF r(3), of p] by (simp_all add: inside_def)
    ultimately show ?thesis by (intro bexI[of _ "(p, page_bytes pa' p)"]) simp_all
  qed
  have "fst ` set (zip rs (map unat ns)) = set rs" using r(2) by (metis length_map list.set_map map_fst_zip)
  then have al: "\<forall>r \<in> set rs. 2 ^ k dvd r" using bl by (metis imageE)
  obtain pa'' z'' where "page_clear pf (pa', z') = Some (pa'', z'')" "mset (za_live z'') = mset (za_live z)"
    using clear_pages_ok[of pa' ps z' "za_live z" pf] r(3) by (fastforce simp: pa_inv_def page_clear_def)
  moreover have "separate (zip rs (map unat ns))" using r(3) by (simp add: pa_inv_def)
  ultimately show ?thesis using r(1,2) ins al by blast
qed

text \<open>An operating system that places every block behind all live ones.\<close>

definition bump :: "nat \<Rightarrow> block list \<Rightarrow> nat option" where
  "bump n live = Some (fold (\<lambda>b m. m + fst b + snd b) live 0 * 16)"

lemma fold_sum_ge: "b \<in> set live \<Longrightarrow> m + fst b + snd b \<le> fold (\<lambda>b m. m + fst b + snd b) live (m :: nat)"
    "m \<le> fold (\<lambda>b m. m + fst b + snd b) live (m :: nat)"
proof (induction live arbitrary: m)
  case (Cons x live)
  {
    case 1
    then show ?case using Cons.IH(2)[of "m + fst x + snd x"] Cons.IH(1)[of "m + fst x + snd x"] by (fastforce intro: order_trans)
  next
    case 2
    show ?case using Cons.IH(2)[of "m + fst x + snd x"] by simp
  }
qed simp_all

lemma bump_law: "os_law bump"
  using fold_sum_ge(1)[of _ _ 0] by (fastforce simp: os_law_def bump_def apart_def)

theorem page_allocator_sound_witness:
  "\<exists>rs pa' z' pa'' z''. allocate_all (2 ^ 3) other_platform bump [100, 5000, 24] (new_page_allocator, new_zone_allocator 0 []) = Some (map Some rs, pa', z')
     \<and> length rs = 3 \<and> separate (zip rs [100, 5000, 24]) \<and> page_clear other_platform (pa', z') = Some (pa'', z'') \<and> za_live z'' = []"
  using page_allocator_sound[OF bump_law, of 3 "new_zone_allocator 0 []" "[100, 5000, 24]" other_platform] by (auto simp: new_zone_allocator_def)

end
