(* ===== verification/Calendar.thy ===== *)
theory Calendar
  imports Prelude "HOL-Library.Signed_Division"
begin

text \<open>
  \<^verbatim>\<open>torque_sockets/time.h\<close>: milliseconds and their conversion to and from dates.  The signed machine integers are mathematical integers
  whose range is checked where the source may leave it: an overflow has no result, division truncates towards zero.
  A time is the number of milliseconds; the clock of the operating system is an argument.
\<close>

subsection \<open>Signed integers\<close>

definition i32 :: "int \<Rightarrow> int option" where
  "i32 x = (if - (2 ^ 31) \<le> x \<and> x < 2 ^ 31 then Some x else None)"

definition i64 :: "int \<Rightarrow> int option" where
  "i64 x = (if - (2 ^ 63) \<le> x \<and> x < 2 ^ 63 then Some x else None)"

text \<open>The conversion of a wider integer keeps its low 32 bits.\<close>

definition to_i32 :: "int \<Rightarrow> int" where
  "to_i32 x = signed_take_bit 31 x"

subsection \<open>The source\<close>

definition one_day :: int where "one_day = 86400000"
definition one_hour :: int where "one_hour = 3600000"
definition one_minute :: int where "one_minute = 60000"
definition one_second :: int where "one_second = 1000"

definition unix_time_to_int64 :: "int \<Rightarrow> int" where
  "unix_time_to_int64 t = (t + 62135683200) * one_second"

record date_and_time =
  dt_year :: int
  dt_month :: int
  dt_day :: int
  dt_hour :: int
  dt_minute :: int
  dt_second :: int
  dt_millisecond :: int

definition days_in_month_table :: "int list" where
  "days_in_month_table = [0, 31, 28, 31, 30, 31, 30, 31, 31, 30, 31, 30, 31]"

definition days_in_month_leap_table :: "int list" where
  "days_in_month_leap_table = [0, 31, 29, 31, 30, 31, 30, 31, 31, 30, 31, 30, 31]"

definition day_number_table :: "int list" where
  "day_number_table = [0, 31, 59, 90, 120, 151, 181, 212, 243, 273, 304, 334, 365]"

definition day_number_leap_table :: "int list" where
  "day_number_leap_table = [0, 31, 60, 91, 121, 152, 182, 213, 244, 274, 305, 335, 366]"

definition entry :: "'a list \<Rightarrow> int \<Rightarrow> 'a option" where
  "entry t i = (if 0 \<le> i \<and> i < int (length t) then Some (t ! nat i) else None)"

definition is_leap_year :: "int \<Rightarrow> bool" where
  "is_leap_year year \<longleftrightarrow> year AND 3 = 0 \<and> (year smod 100 \<noteq> 0 \<or> year smod 400 = 0)"

definition days_in_month :: "int \<Rightarrow> int \<Rightarrow> int option" where
  "days_in_month month year = (if is_leap_year year then entry days_in_month_leap_table month else entry days_in_month_table month)"

definition set_time :: "int \<Rightarrow> int \<Rightarrow> int \<Rightarrow> int \<Rightarrow> int \<Rightarrow> int \<Rightarrow> int \<Rightarrow> int option" where
  "set_time year month day hour minute second millisecond = do {
     second1 \<leftarrow> i32 (second + millisecond sdiv 1000);
     let millisecond1 = millisecond smod 1000;
     minute1 \<leftarrow> i32 (minute + second1 sdiv 60);
     let second2 = second1 smod 60;
     hour1 \<leftarrow> i32 (hour + minute1 sdiv 60);
     let minute2 = minute1 smod 60;
     let carry_days = hour1 sdiv 24;
     let hour2 = hour1 smod 24;
     let leap_year = is_leap_year year;
     year1 \<leftarrow> i32 (year - 1);
     g1 \<leftarrow> i32 (365 * year1);
     g2 \<leftarrow> i32 (g1 + year1 sdiv 4);
     g3 \<leftarrow> i32 (g2 - year1 sdiv 100);
     g4 \<leftarrow> i32 (g3 + year1 sdiv 400);
     m1 \<leftarrow> i32 (367 * month);
     m2 \<leftarrow> i32 (m1 - 362);
     g5 \<leftarrow> i32 (g4 + m2 sdiv 12);
     g6 \<leftarrow> i32 (g5 + day);
     g7 \<leftarrow> i32 (g6 + carry_days);
     gregorian \<leftarrow> i32 (if leap_year then if 2 < month then g7 - 1 else g7
                      else if 2 < month then g7 - 2 else g7);
     Some (gregorian * one_day + (hour2 * one_hour + minute2 * one_minute + second2 * one_second + millisecond1)) }"

definition set_date_time :: "date_and_time \<Rightarrow> int option" where
  "set_date_time d = set_time (dt_year d) (dt_month d) (dt_day d) (dt_hour d) (dt_minute d) (dt_second d) (dt_millisecond d)"

text \<open>The loop that finds the month reads the table one place ahead; behind its end there is nothing to read.\<close>

function find_month :: "int list \<Rightarrow> int \<Rightarrow> nat \<Rightarrow> nat option" where
  "find_month table day month =
     (if Suc month < length table then if table ! Suc month \<le> day then find_month table day (Suc month) else Some month
      else None)"
  by pat_completeness auto
termination by (relation "measure (\<lambda>(t, d, m). length t - m)") auto

declare find_month.simps [simp del]

definition get_date :: "int \<Rightarrow> (int \<times> int \<times> int) option" where
  "get_date t = do {
     let gregorian = to_i32 (t sdiv one_day);
     prior \<leftarrow> i32 (gregorian - 1);
     let years400 = prior sdiv 146097;
     let days400 = prior smod 146097;
     let years100 = days400 sdiv 36524;
     let days100 = days400 smod 36524;
     let years4 = days100 sdiv 1461;
     let days4 = days100 smod 1461;
     let year1 = days4 sdiv 365;
     let day1 = days4 smod 365;
     let year = 400 * years400 + 100 * years100 + 4 * years4 + year1;
     let (year', day) = (if years100 = 4 \<or> year1 = 4 then (year, 366) else (year + 1, day1 + 1));
     let day_number = (if is_leap_year year' then day_number_leap_table else day_number_table);
     month \<leftarrow> find_month day_number day 0;
     Some (year', int month, day - day_number ! month) }"

definition get_time :: "int \<Rightarrow> int \<times> int \<times> int \<times> int" where
  "get_time t =
     (let time = to_i32 (t smod one_day);
          hour = time sdiv one_hour; time1 = time - hour * one_hour;
          minute = time1 sdiv one_minute; time2 = time1 - minute * one_minute;
          second = time2 sdiv one_second; time3 = time2 - second * one_second
      in (hour, minute, second, time3))"

definition get_date_time :: "int \<Rightarrow> date_and_time option" where
  "get_date_time t = do {
     (year, month, day) \<leftarrow> get_date t;
     let (hour, minute, second, millisecond) = get_time t;
     Some \<lparr>dt_year = year, dt_month = month, dt_day = day, dt_hour = hour, dt_minute = minute, dt_second = second,
           dt_millisecond = millisecond\<rparr> }"

definition time_plus :: "int \<Rightarrow> int \<Rightarrow> int option" where
  "time_plus a b = i64 (a + b)"

definition time_minus :: "int \<Rightarrow> int \<Rightarrow> int option" where
  "time_minus a b = i64 (a - b)"

text \<open>\<^verbatim>\<open>get_current\<close> on systems other than Windows, of the seconds and microseconds of \<^verbatim>\<open>gettimeofday\<close>.\<close>

definition get_current :: "64 word \<Rightarrow> int \<Rightarrow> int" where
  "get_current tv_sec tv_usec = sint (tv_sec * 1000 + word_of_int (tv_usec sdiv 1000))"

definition win32_file_time_to_milliseconds :: "32 word \<Rightarrow> 32 word \<Rightarrow> int" where
  "win32_file_time_to_milliseconds low high = sint ((push_bit 32 (ucast high) OR ucast low :: 64 word) div 10000 + 50491209600 * 1000)"

text \<open>\<^verbatim>\<open>win32_multimedia_timer::get_current\<close>: the 32-bit timer may wrap between two calls.\<close>

definition win32_get_current :: "32 word \<Rightarrow> 32 word \<times> int \<Rightarrow> 32 word \<times> int" where
  "win32_get_current current = (\<lambda>(last_timer_time, system_time). (current, system_time + uint (current - last_timer_time)))"

subsection \<open>Years, and days within them\<close>

lemma sdiv_pos [simp]: "0 \<le> x \<Longrightarrow> 0 < y \<Longrightarrow> x sdiv y = x div (y :: int)" "0 \<le> x \<Longrightarrow> 0 < y \<Longrightarrow> x smod y = x mod (y :: int)"
  by (auto simp: divide_int_eq_signed_divide_int modulo_int_eq_signed_modulo_int sgn_if)

lemma i32_small: "- (2 ^ 31) \<le> x \<Longrightarrow> x < 2 ^ 31 \<Longrightarrow> i32 x = Some x"
  by (simp add: i32_def)

lemma to_i32_small: "- (2 ^ 31) \<le> x \<Longrightarrow> x < 2 ^ 31 \<Longrightarrow> to_i32 x = x"
  by (simp add: to_i32_def signed_take_bit_int_eq_self)

text \<open>The days of the years before \<open>year\<close>, and those of the months before \<open>month\<close>.\<close>

definition days_before_year :: "int \<Rightarrow> int" where
  "days_before_year y = 365 * (y - 1) + (y - 1) div 4 - (y - 1) div 100 + (y - 1) div 400"

definition month_table :: "int \<Rightarrow> int list" where
  "month_table y = (if is_leap_year y then day_number_leap_table else day_number_table)"

lemma leap_year_iff: "0 \<le> y \<Longrightarrow> is_leap_year y \<longleftrightarrow> y mod 4 = 0 \<and> (y mod 100 \<noteq> 0 \<or> y mod 400 = 0)"
  using take_bit_eq_mask[of 2 y] by (simp add: is_leap_year_def take_bit_eq_mod mask_eq_exp_minus_1)

text \<open>The position of a year in its cycles of 400, 100 and 4 years.\<close>

lemma year_cycles:
  assumes "1 \<le> (y :: int)"
  obtains a b c e where "y = 400 * a + 100 * b + 4 * c + e + 1" "0 \<le> a" "0 \<le> b" "b \<le> 3" "0 \<le> c" "c \<le> 24" "0 \<le> e" "e \<le> 3"
proof -
  let ?y = "y - 1"
  let ?r = "?y mod 400" let ?s = "?r mod 100"
  have "?y = 400 * (?y div 400) + ?r" "?r = 100 * (?r div 100) + ?s" "?s = 4 * (?s div 4) + ?s mod 4" by simp_all
  moreover have "0 \<le> ?r" "?r < 400" "0 \<le> ?s" "?s < 100" "0 \<le> ?s mod 4" "?s mod 4 < 4" "0 \<le> ?y div 400" using assms by (simp_all add: pos_imp_zdiv_nonneg_iff)
  ultimately show ?thesis by (intro that[of "?y div 400" "?r div 100" "?s div 4" "?s mod 4"]) linarith+
qed

lemma mod_zero_at_end: "1 \<le> s \<Longrightarrow> s \<le> n \<Longrightarrow> (n * q + s) mod n = 0 \<longleftrightarrow> s = (n :: int)"
  by (cases "s = n") (simp_all add: mod_pos_pos_trivial)

lemma cycle_values:
  assumes "y = 400 * a + 100 * b + 4 * c + e + (1 :: int)" "0 \<le> a" "0 \<le> b" "b \<le> 3" "0 \<le> c" "c \<le> 24" "0 \<le> e" "e \<le> 3"
  shows "days_before_year y = 146097 * a + 36524 * b + 1461 * c + 365 * e" "is_leap_year y \<longleftrightarrow> e = 3 \<and> (c \<noteq> 24 \<or> b = 3)"
proof -
  have d: "(y - 1) div 4 = 100 * a + 25 * b + c" "(y - 1) div 100 = 4 * a + b" "(y - 1) div 400 = a" using assms by linarith+
  show "days_before_year y = 146097 * a + 36524 * b + 1461 * c + 365 * e" unfolding days_before_year_def d using assms(1) by simp
  have split: "y = 4 * (100 * a + 25 * b + c) + (e + 1)" "y = 100 * (4 * a + b) + (4 * c + e + 1)" "y = 400 * a + (100 * b + 4 * c + e + 1)"
    by (simp_all add: assms(1))
  have "y mod 4 = 0 \<longleftrightarrow> e + 1 = 4" unfolding split(1) by (rule mod_zero_at_end) (use assms in linarith)+
  moreover have "y mod 100 = 0 \<longleftrightarrow> 4 * c + e + 1 = 100" unfolding split(2) by (rule mod_zero_at_end) (use assms in linarith)+
  moreover have "y mod 400 = 0 \<longleftrightarrow> 100 * b + 4 * c + e + 1 = 400" unfolding split(3) by (rule mod_zero_at_end) (use assms in linarith)+
  moreover have "4 * c + e + 1 = 100 \<longleftrightarrow> c = 24 \<and> e = 3" "100 * b + 4 * c + e + 1 = 400 \<longleftrightarrow> b = 3 \<and> c = 24 \<and> e = 3" using assms(2-) by linarith+
  moreover have "0 \<le> y" using assms by linarith
  ultimately show "is_leap_year y \<longleftrightarrow> e = 3 \<and> (c \<noteq> 24 \<or> b = 3)" by (auto simp: leap_year_iff)
qed

text \<open>The decoding of a day number: the year and the day of the year, from 1.\<close>

lemma div_mod_unique: "0 \<le> r \<Longrightarrow> r < n \<Longrightarrow> (n * q + r) div n = q" "0 \<le> r \<Longrightarrow> r < n \<Longrightarrow> (n * q + r) mod n = (r :: int)"
  by simp_all

lemma decode_year:
  assumes y: "1 \<le> y" and r: "0 \<le> r" "r < (if is_leap_year y then 366 else 365)"
  defines "prior \<equiv> days_before_year y + r"
  defines "d400 \<equiv> prior mod 146097" defines "d100 \<equiv> d400 mod 36524" defines "d4 \<equiv> d100 mod 1461"
  shows "(if d400 div 36524 = 4 \<or> d4 div 365 = 4 then (400 * (prior div 146097) + 100 * (d400 div 36524) + 4 * (d100 div 1461) + d4 div 365, 366)
     else (400 * (prior div 146097) + 100 * (d400 div 36524) + 4 * (d100 div 1461) + d4 div 365 + 1, d4 mod 365 + 1)) = (y, r + 1)"
proof -
  obtain a b c e where cy: "y = 400 * a + 100 * b + 4 * c + e + 1" "0 \<le> a" "0 \<le> b" "b \<le> 3" "0 \<le> c" "c \<le> 24" "0 \<le> e" "e \<le> 3"
    using year_cycles[OF y] by metis
  note v = cycle_values[OF cy]
  have rb: "r \<le> 365" "r = 365 \<Longrightarrow> e = 3 \<and> (c \<noteq> 24 \<or> b = 3)" using r v(2) by (auto split: if_splits)
  have p: "prior = 146097 * a + (36524 * b + 1461 * c + 365 * e + r)" by (simp add: prior_def v(1))
  have "36524 * b + 1461 * c + 365 * e + r < 146097" using cy rb by linarith
  then have d: "prior div 146097 = a" "d400 = 36524 * b + (1461 * c + 365 * e + r)"
    unfolding d400_def p using cy r(1) div_mod_unique[of "36524 * b + 1461 * c + 365 * e + r" 146097 a] by simp_all
  show ?thesis
  proof (cases "r = 365 \<and> c = 24")
    case True
    then have "d400 = 146096" "b = 3" "e = 3" using rb(2) d(2) by auto
    then show ?thesis using True d(1) cy(1) by (simp add: d100_def d4_def)
  next
    case False
    have "1461 * c + 365 * e + r < 36524" using cy rb False by linarith
    then have h: "d400 div 36524 = b" "d100 = 1461 * c + (365 * e + r)"
      unfolding d100_def d(2) using cy r(1) div_mod_unique[of "1461 * c + 365 * e + r" 36524 b] by simp_all
    have "365 * e + r < 1461" using cy rb by linarith
    then have q: "d100 div 1461 = c" "d4 = 365 * e + r"
      unfolding d4_def h(2) using cy r(1) div_mod_unique[of "365 * e + r" 1461 c] by simp_all
    show ?thesis
    proof (cases "r = 365")
      case True
      then show ?thesis using rb(2) d(1) h(1) q cy(1) by simp
    next
      case False
      then have "d4 div 365 = e" "d4 mod 365 = r" unfolding q(2) using r(1) rb(1) div_mod_unique[of r 365 e] by simp_all
      then show ?thesis using d(1) h(1) q(1) cy by simp
    qed
  qed
qed

subsection \<open>Months\<close>

lemma find_month_Some:
  assumes "m \<le> k" "Suc k < length t" "\<And>i. m < i \<Longrightarrow> i \<le> k \<Longrightarrow> t ! i \<le> day" "day < t ! Suc k"
  shows "find_month t day m = Some k"
  using assms
proof (induction "k - m" arbitrary: m)
  case 0
  then show ?case by (subst find_month.simps) simp
next
  case (Suc n)
  then have "find_month t day (Suc m) = Some k" "t ! Suc m \<le> day" by simp_all
  then show ?case using Suc by (subst find_month.simps) simp
qed

lemma find_month_None:
  assumes "\<And>i. m < i \<Longrightarrow> i < length t \<Longrightarrow> t ! i \<le> day"
  shows "find_month t day m = None"
  using assms by (induction "length t - m" arbitrary: m) (subst find_month.simps; simp)+

lemma month_table_facts: "length (month_table y) = 13" "sorted (month_table y)"
  by (simp_all add: month_table_def day_number_table_def day_number_leap_table_def)

text \<open>The formula for the days of the prior months agrees with the table, and the two tables agree.\<close>

lemma month_days:
  assumes "1 \<le> m" "m \<le> 12"
  shows "(367 * m - 362) div 12 - (if 2 < m then if is_leap_year y then 1 else 2 else 0) = month_table y ! nat (m - 1)"
    "days_in_month m y = Some (month_table y ! nat m - month_table y ! nat (m - 1))" "0 \<le> month_table y ! nat (m - 1)"
    "month_table y ! nat m \<le> (if is_leap_year y then 366 else 365)" "month_table y ! nat (m - 1) < month_table y ! nat m"
proof -
  have "m = 1 \<or> m = 2 \<or> m = 3 \<or> m = 4 \<or> m = 5 \<or> m = 6 \<or> m = 7 \<or> m = 8 \<or> m = 9 \<or> m = 10 \<or> m = 11 \<or> m = 12"
    using assms by presburger
  then consider "m = 1" | "m = 2" | "m = 3" | "m = 4" | "m = 5" | "m = 6" | "m = 7" | "m = 8" | "m = 9" | "m = 10" | "m = 11" | "m = 12"
    by blast
  note twelve = this
  note tables = month_table_def day_number_table_def day_number_leap_table_def days_in_month_def days_in_month_table_def days_in_month_leap_table_def
    entry_def
  show "(367 * m - 362) div 12 - (if 2 < m then if is_leap_year y then 1 else 2 else 0) = month_table y ! nat (m - 1)"
    by (rule twelve) (simp_all add: tables)
  show "days_in_month m y = Some (month_table y ! nat m - month_table y ! nat (m - 1))" by (rule twelve) (simp_all add: tables)
  show "0 \<le> month_table y ! nat (m - 1)" by (rule twelve) (simp_all add: tables)
  show "month_table y ! nat m \<le> (if is_leap_year y then 366 else 365)" by (rule twelve) (simp_all add: tables)
  show "month_table y ! nat (m - 1) < month_table y ! nat m" by (rule twelve) (simp_all add: tables)
qed

text \<open>The month loop, given the day of the year from 1: the last day of a month is taken for day 0 of the next one.\<close>

lemma find_month_of_day:
  assumes m: "1 \<le> m" "m \<le> 12" and d: "1 \<le> d" "d \<le> month_table y ! nat m - month_table y ! nat (m - 1)"
  shows "find_month (month_table y) (month_table y ! nat (m - 1) + d) 0
     = (if d < month_table y ! nat m - month_table y ! nat (m - 1) then Some (nat (m - 1)) else if m < 12 then Some (nat m) else None)"
proof -
  let ?t = "month_table y" and ?day = "month_table y ! nat (m - 1) + d"
  have mono: "i \<le> j \<Longrightarrow> j < 13 \<Longrightarrow> ?t ! i \<le> ?t ! j" for i j using month_table_facts[of y] sorted_nth_mono[of ?t] by simp
  have suc: "nat m = Suc (nat (m - 1))" using m by simp
  show ?thesis
  proof (cases "d < ?t ! nat m - ?t ! nat (m - 1)")
    case True
    have "find_month ?t ?day 0 = Some (nat (m - 1))"
    proof (rule find_month_Some)
      show "?t ! i \<le> ?day" if "i \<le> nat (m - 1)" for i
      proof -
        have "nat (m - 1) < 13" using m by simp
        then show ?thesis using mono[OF that] d(1) by linarith
      qed
    qed (use True suc m in \<open>simp_all add: month_table_facts\<close>)
    then show ?thesis using True by simp
  next
    case False
    then have day: "?day = ?t ! nat m" using d(2) by simp
    show ?thesis
    proof (cases "m < 12")
      case True
      have "find_month ?t (?t ! nat m) 0 = Some (nat m)"
      proof (rule find_month_Some)
        show "?t ! i \<le> ?t ! nat m" if "i \<le> nat m" for i using mono[OF that] m by simp
        show "?t ! nat m < ?t ! Suc (nat m)" using month_days(5)[of "m + 1" y] True m by (simp add: nat_add_distrib)
      qed (use True m in \<open>simp_all add: month_table_facts\<close>)
      then show ?thesis using False True day by simp
    next
      case full: False
      have "find_month ?t (?t ! nat m) 0 = None"
        by (rule find_month_None) (use mono[of _ "nat m"] full m in \<open>auto simp: month_table_facts\<close>)
      then show ?thesis using False full day by simp
    qed
  qed
qed

subsection \<open>Properties\<close>

lemma days_before_year_bounds:
  assumes "1 \<le> (y :: int)" "y \<le> 5000000"
  shows "0 \<le> (y - 1) div 400" "(y - 1) div 400 \<le> (y - 1) div 100" "(y - 1) div 100 \<le> (y - 1) div 4" "(y - 1) div 4 \<le> 1250000"
  using assms by linarith+

lemma set_time_value:
  assumes "1 \<le> year" "year \<le> 5000000" "1 \<le> month" "month \<le> 12" "1 \<le> day" "days_in_month month year = Some last_day" "day \<le> last_day"
    and "0 \<le> hour" "hour < 24" "0 \<le> minute" "minute < 60" "0 \<le> second" "second < 60" "0 \<le> ms" "ms < 1000"
  shows "set_time year month day hour minute second ms
     = Some ((days_before_year year + month_table year ! nat (month - 1) + day) * one_day + (hour * one_hour + minute * one_minute + second * one_second + ms))"
proof -
  note md = month_days[OF assms(3,4), of year] and b = days_before_year_bounds[OF assms(1,2)]
  have day: "day \<le> 366" using assms(6,7) md(2-4) by (auto split: if_splits)
  let ?y = "year - 1"
  obtain q4 q100 q400 mth where q: "?y sdiv 4 = q4" "?y sdiv 100 = q100" "?y sdiv 400 = q400" "(367 * month - 362) sdiv 12 = mth"
    and qv: "q4 = ?y div 4" "q100 = ?y div 100" "q400 = ?y div 400" "mth = (367 * month - 362) div 12" using assms(1,3) by simp
  have qb: "0 \<le> q400" "q400 \<le> q100" "q100 \<le> q4" "q4 \<le> 1250000" "0 \<le> mth" "mth \<le> 400" using b assms(3,4) unfolding qv by linarith+
  have clock: "ms sdiv 1000 = 0" "ms smod 1000 = ms" "(second + 0) sdiv 60 = 0" "(second + 0) smod 60 = second" "(minute + 0) sdiv 60 = 0"
      "(minute + 0) smod 60 = minute" "(hour + 0) sdiv 24 = 0" "(hour + 0) smod 24 = hour"
    using assms(8-) by simp_all
  define c where "c = (if 2 < month then if is_leap_year year then 1 else 2 else (0 :: int))"
  have c: "(if is_leap_year year then if 2 < month then g - 1 else g else if 2 < month then g - 2 else g) = g - c" for g :: int by (simp add: c_def)
  have cb: "0 \<le> c" "c \<le> 2" by (simp_all add: c_def)
  let ?g4 = "365 * ?y + q4 - q100 + q400"
  have steps: "i32 (second + 0) = Some (second + 0)" "i32 (minute + 0) = Some (minute + 0)" "i32 (hour + 0) = Some (hour + 0)"
      "i32 ?y = Some ?y" "i32 (365 * ?y) = Some (365 * ?y)" "i32 (365 * ?y + q4) = Some (365 * ?y + q4)" "i32 (365 * ?y + q4 - q100) = Some (365 * ?y + q4 - q100)"
      "i32 ?g4 = Some ?g4" "i32 (367 * month) = Some (367 * month)" "i32 (367 * month - 362) = Some (367 * month - 362)"
      "i32 (?g4 + mth) = Some (?g4 + mth)" "i32 (?g4 + mth + day) = Some (?g4 + mth + day)" "i32 (?g4 + mth + day + 0) = Some (?g4 + mth + day + 0)"
      "i32 (?g4 + mth + day + 0 - c) = Some (?g4 + mth + day + 0 - c)"
    using assms(1-5,8-) day qb cb unfolding i32_def by simp_all
  have "set_time year month day hour minute second ms
     = Some ((?g4 + mth + day + 0 - c) * one_day + (hour * one_hour + minute * one_minute + second * one_second + ms))"
    unfolding set_time_def by (simp only: Let_def clock steps q c bind.bind_lunit)
  moreover have "?g4 + mth + day + 0 - c = days_before_year year + month_table year ! nat (month - 1) + day"
    using md(1) by (simp add: days_before_year_def qv c_def)
  ultimately show ?thesis by metis
qed

text \<open>What a date becomes on its way through a time value: months are counted from 0, the last day of a month is day 0 of the
  next one, and for 31 December there is no result.\<close>

definition date_read_back :: "int \<Rightarrow> int \<Rightarrow> int \<Rightarrow> int \<Rightarrow> (int \<times> int \<times> int) option" where
  "date_read_back year month day last_day =
     (if day < last_day then Some (year, month - 1, day) else if month < 12 then Some (year, month, 0) else None)"

lemma get_date_value:
  assumes "1 \<le> year" "year \<le> 5000000" "1 \<le> month" "month \<le> 12" "1 \<le> day" "days_in_month month year = Some last_day" "day \<le> last_day"
    and "0 \<le> r" "r < one_day"
  shows "get_date ((days_before_year year + month_table year ! nat (month - 1) + day) * one_day + r) = date_read_back year month day last_day"
proof -
  let ?before = "month_table year ! nat (month - 1)" and ?t = "(days_before_year year + month_table year ! nat (month - 1) + day) * one_day + r"
  note md = month_days[OF assms(3,4), of year] and b = days_before_year_bounds[OF assms(1,2)]
  have last: "last_day = month_table year ! nat month - ?before" using assms(6) md(2) by simp
  let ?r = "?before + day - 1" and ?prior = "days_before_year year + (?before + day - 1)"
  have rb: "0 \<le> ?r" "?r < (if is_leap_year year then 366 else 365)" using md(3,4) last assms(5,7) by auto
  have "0 \<le> days_before_year year" "days_before_year year \<le> 365 * 5000000 + 2500000"
    using b assms(1,2) by (simp_all add: days_before_year_def)
  then have pb: "0 \<le> ?prior" "?prior < 2 ^ 31 - 1" using rb by (auto split: if_splits)
  have "?t = one_day * (?prior + 1) + r" by (simp add: algebra_simps)
  then have "?t div one_day = ?prior + 1" using assms(8,9) div_mod_unique(1)[of r one_day "?prior + 1"] by simp
  moreover have "0 \<le> ?t" using pb(1) assms(8) by (simp add: one_day_def)
  ultimately have g: "to_i32 (?t sdiv one_day) = ?prior + 1" using pb by (simp add: one_day_def to_i32_small)
  have i: "i32 (?prior + 1 - 1) = Some ?prior" using pb by (simp add: i32_def)
  have dec: "(if ?prior mod 146097 div 36524 = 4 \<or> ?prior mod 146097 mod 36524 mod 1461 div 365 = 4
      then (400 * (?prior div 146097) + 100 * (?prior mod 146097 div 36524) + 4 * (?prior mod 146097 mod 36524 div 1461) + ?prior mod 146097 mod 36524 mod 1461 div 365, 366)
      else (400 * (?prior div 146097) + 100 * (?prior mod 146097 div 36524) + 4 * (?prior mod 146097 mod 36524 div 1461) + ?prior mod 146097 mod 36524 mod 1461 div 365 + 1,
            ?prior mod 146097 mod 36524 mod 1461 mod 365 + 1)) = (year, ?r + 1)"
    using decode_year[OF assms(1) rb] by simp
  have sd: "?prior sdiv 146097 = ?prior div 146097" "?prior smod 146097 = ?prior mod 146097"
      "(?prior mod 146097) sdiv 36524 = ?prior mod 146097 div 36524" "(?prior mod 146097) smod 36524 = ?prior mod 146097 mod 36524"
      "(?prior mod 146097 mod 36524) sdiv 1461 = ?prior mod 146097 mod 36524 div 1461" "(?prior mod 146097 mod 36524) smod 1461 = ?prior mod 146097 mod 36524 mod 1461"
      "(?prior mod 146097 mod 36524 mod 1461) sdiv 365 = ?prior mod 146097 mod 36524 mod 1461 div 365"
      "(?prior mod 146097 mod 36524 mod 1461) smod 365 = ?prior mod 146097 mod 36524 mod 1461 mod 365"
    using pb(1) by simp_all
  have fm: "find_month (month_table year) (?r + 1) 0 = (if day < last_day then Some (nat (month - 1)) else if month < 12 then Some (nat month) else None)"
    using find_month_of_day[OF assms(3-5), of year] last assms(7) by simp
  have "get_date ?t = find_month (month_table year) (?r + 1) 0 \<bind> (\<lambda>month. Some (year, int month, ?r + 1 - month_table year ! month))"
    unfolding get_date_def by (simp only: Let_def g i bind.bind_lunit sd dec prod.case month_table_def[symmetric])
  then show ?thesis using fm assms(3,4,7) last by (auto simp: date_read_back_def)
qed

lemma get_time_value:
  assumes "0 \<le> day" and "0 \<le> hour" "hour < 24" "0 \<le> minute" "minute < 60" "0 \<le> second" "second < 60" "0 \<le> ms" "ms < 1000"
  shows "get_time (day * one_day + (hour * one_hour + minute * one_minute + second * one_second + ms)) = (hour, minute, second, ms)"
proof -
  let ?s = "second * one_second + ms" let ?m = "minute * one_minute + ?s" let ?h = "hour * one_hour + ?m"
  have b: "0 \<le> ?s" "?s < one_minute" "0 \<le> ?m" "?m < one_hour" "0 \<le> ?h" "?h < one_day"
    using assms by (simp_all add: one_second_def one_minute_def one_hour_def one_day_def)
  have e: "day * one_day + (hour * one_hour + minute * one_minute + second * one_second + ms) = one_day * day + ?h" by simp
  have "(one_day * day + ?h) smod one_day = ?h"
    using assms(1) b(5,6) div_mod_unique(2)[of ?h one_day day] by (simp add: one_day_def)
  moreover have "to_i32 ?h = ?h" using b by (intro to_i32_small) (simp_all add: one_day_def)
  moreover have "?h sdiv one_hour = hour" "?m sdiv one_minute = minute" "?s sdiv one_second = second"
    using b assms div_mod_unique(1)[of ?m one_hour hour] div_mod_unique(1)[of ?s one_minute minute] div_mod_unique(1)[of ms one_second second]
    by (simp_all add: one_second_def one_minute_def one_hour_def one_day_def mult.commute)
  ultimately show ?thesis unfolding get_time_def e Let_def by simp
qed

text \<open>The three epochs of the file are the dates they are meant to be.\<close>

lemma epochs: "set_time 1970 1 1 0 0 0 0 = Some (unix_time_to_int64 0)"
    "set_time 1601 1 1 0 0 0 0 = Some (win32_file_time_to_milliseconds 0 0)" "get_date one_day = Some (1, 0, 1)"
  by (simp_all add: set_time_def i32_def is_leap_year_def unix_time_to_int64_def win32_file_time_to_milliseconds_def one_day_def one_second_def
      get_date_def to_i32_def signed_take_bit_int_eq_self day_number_table_def find_month.simps Let_def)

text \<open>The timer of Windows follows the clock as long as it is read once in \<open>2 ^ 32\<close> milliseconds.\<close>

lemma win32_timer_follows:
  assumes "\<forall>e \<in> set es. 0 \<le> e \<and> e < 2 ^ 32"
  shows "snd (fold (\<lambda>e (t, st). win32_get_current (t + word_of_int e) (t, st)) es (t, st)) = st + sum_list es"
  using assms
proof (induction es arbitrary: t st)
  case (Cons e es)
  have "uint (word_of_int e :: 32 word) = e" using Cons.prems by (simp add: uint_word_of_int)
  then show ?case using Cons by (simp add: win32_get_current_def)
qed simp

text \<open>C32. Dates: for every valid date of the years 1 to 5000000 \<^verbatim>\<open>set\<close> gives a time from which \<^verbatim>\<open>get_time\<close> recovers the time of day
  and \<^verbatim>\<open>get_date\<close> the year; but month and day come back in another form than they were given: the month is counted from 0, the last day of a
  month comes back as day 0 of the following month, and on 31 December the loop runs past the end of its table.\<close>

theorem date_round_trip:
  assumes "1 \<le> year" "year \<le> 5000000" "1 \<le> month" "month \<le> 12" "1 \<le> day" "days_in_month month year = Some last_day" "day \<le> last_day"
    and "0 \<le> hour" "hour < 24" "0 \<le> minute" "minute < 60" "0 \<le> second" "second < 60" "0 \<le> ms" "ms < 1000"
  shows "\<exists>t. set_time year month day hour minute second ms = Some t \<and> get_time t = (hour, minute, second, ms)
     \<and> get_date t = (if day < last_day then Some (year, month - 1, day) else if month < 12 then Some (year, month, 0) else None)"
proof -
  let ?d = "days_before_year year + month_table year ! nat (month - 1) + day" and ?r = "hour * one_hour + minute * one_minute + second * one_second + ms"
  have "0 \<le> ?d" using days_before_year_bounds[OF assms(1,2)] month_days(3)[OF assms(3,4), of year] assms(1,5) by (simp add: days_before_year_def)
  then have "get_time (?d * one_day + ?r) = (hour, minute, second, ms)" using assms(8-) by (intro get_time_value)
  moreover have "0 \<le> ?r" "?r < one_day" using assms(8-) by (simp_all add: one_second_def one_minute_def one_hour_def one_day_def)
  then have "get_date (?d * one_day + ?r) = date_read_back year month day last_day" using assms(1-7) by (intro get_date_value)
  ultimately show ?thesis using set_time_value[OF assms] by (simp add: date_read_back_def)
qed

theorem date_round_trip_witness:
  "\<exists>t u v. set_time 2012 2 28 23 59 59 999 = Some t \<and> get_date t = Some (2012, 1, 28)
     \<and> set_time 2012 2 29 0 0 0 0 = Some u \<and> get_date u = Some (2012, 2, 0) \<and> set_time 2012 12 31 0 0 0 0 = Some v \<and> get_date v = None"
  using date_round_trip[of 2012 2 28 29 23 59 59 999] date_round_trip[of 2012 2 29 29 0 0 0 0] date_round_trip[of 2012 12 31 31 0 0 0 0]
  by (auto simp: days_in_month_def leap_year_iff days_in_month_leap_table_def entry_def)

end
