(* ===== verification/Simulation.thy ===== *)
theory Simulation
  imports Prelude
begin

text \<open>
  Sequences of operations on a component's state and their specification.  A component has operations \<open>exec\<close> that may trap, a condition
  \<open>legal\<close> that its clients keep, and a relation \<open>rel\<close> to abstract states on which the operations are \<open>spec\<close>.  The locale is the contract
  of one operation; its lemma carries it to every legal sequence.
\<close>

primrec run_ops :: "('op \<Rightarrow> 's \<Rightarrow> 's option) \<Rightarrow> 'op list \<Rightarrow> 's \<Rightarrow> 's option" where
  "run_ops exec [] s = Some s"
| "run_ops exec (op # ops) s = do { s' \<leftarrow> exec op s; run_ops exec ops s' }"

primrec legal_ops :: "('op \<Rightarrow> 's \<Rightarrow> bool) \<Rightarrow> ('op \<Rightarrow> 's \<Rightarrow> 's option) \<Rightarrow> 'op list \<Rightarrow> 's \<Rightarrow> bool" where
  "legal_ops legal exec [] s \<longleftrightarrow> True"
| "legal_ops legal exec (op # ops) s \<longleftrightarrow> legal op s \<and> (case exec op s of None \<Rightarrow> True | Some s' \<Rightarrow> legal_ops legal exec ops s')"

locale simulation =
  fixes exec :: "'op \<Rightarrow> 's \<Rightarrow> 's option"
    and legal :: "'op \<Rightarrow> 's \<Rightarrow> bool"
    and rel :: "'s \<Rightarrow> 'a \<Rightarrow> bool"
    and spec :: "'op \<Rightarrow> 'a \<Rightarrow> 'a"
  assumes step: "rel s a \<Longrightarrow> legal op s \<Longrightarrow> \<exists>s'. exec op s = Some s' \<and> rel s' (spec op a)"
begin

lemma runs: "rel s a \<Longrightarrow> legal_ops legal exec ops s \<Longrightarrow> \<exists>s'. run_ops exec ops s = Some s' \<and> rel s' (fold spec ops a)"
proof (induction ops arbitrary: s a)
  case (Cons op ops)
  then obtain s1 where "exec op s = Some s1" "rel s1 (spec op a)" using step by fastforce
  with Cons show ?case by simp
qed simp

end

end
