(* ===== verification/Ref_Object.thy ===== *)
theory Ref_Object
  imports Simulation Linked_List
begin

text \<open>
  \<^verbatim>\<open>core/ref_object.h\<close>: reference counted objects with counting pointers (\<^verbatim>\<open>ref_ptr\<close>) and safe pointers (\<^verbatim>\<open>safe_ptr\<close>), which an object knows in a doubly
  linked list and sets to null when it is deleted.  Objects, counting pointers and safe pointers live in three stores, from which they
  disappear with their destructor; following a pointer to an object that is gone traps.  \<^verbatim>\<open>destroy_self\<close> is the one of the class itself.
\<close>

subsection \<open>The source\<close>

record ref_object =
  first_object_ref :: "ptr option"
  ref_count :: uint32

record safe_object_ref =
  so_object :: "ptr option"
  prev_object_ref :: "ptr option"
  next_object_ref :: "ptr option"

record ref_store =
  objects :: "ptr \<rightharpoonup> ref_object"
  counting :: "ptr \<rightharpoonup> ptr option"
  safe :: "ptr \<rightharpoonup> safe_object_ref"

definition new_ref_object :: ref_object where
  "new_ref_object = \<lparr>first_object_ref = None, ref_count = 0\<rparr>"

definition construct_object :: "ptr \<Rightarrow> ref_store \<Rightarrow> ref_store" where
  "construct_object q s = s\<lparr>objects := (objects s)(q \<mapsto> new_ref_object)\<rparr>"

text \<open>The destructor walks the list of safe pointers.\<close>

partial_function (option) null_safe_refs :: "ptr option \<Rightarrow> ref_store \<Rightarrow> ref_store option" where
  "null_safe_refs walk s = (case walk of None \<Rightarrow> Some s
     | Some p \<Rightarrow> do {
         r \<leftarrow> safe s p;
         null_safe_refs (next_object_ref r)
           (s\<lparr>safe := (safe s)(p \<mapsto> \<lparr>so_object = None, prev_object_ref = None, next_object_ref = None\<rparr>)\<rparr>) })"

definition destroy_object :: "ptr \<Rightarrow> ref_store \<Rightarrow> ref_store option" where
  "destroy_object q s = do {
     ob \<leftarrow> objects s q;
     assert (ref_count ob = 0);
     s' \<leftarrow> null_safe_refs (first_object_ref ob) s;
     Some (s'\<lparr>objects := (objects s')(q := None)\<rparr>) }"

definition inc_ref :: "ptr option \<Rightarrow> ref_store \<Rightarrow> ref_store option" where
  "inc_ref q s = (case q of None \<Rightarrow> Some s
     | Some q \<Rightarrow> do {
         ob \<leftarrow> objects s q;
         Some (s\<lparr>objects := (objects s)(q \<mapsto> ob\<lparr>ref_count := ref_count ob + 1\<rparr>)\<rparr>) })"

definition dec_ref :: "ptr option \<Rightarrow> ref_store \<Rightarrow> ref_store option" where
  "dec_ref q s = (case q of None \<Rightarrow> Some s
     | Some q \<Rightarrow> do {
         ob \<leftarrow> objects s q;
         let ob1 = ob\<lparr>ref_count := ref_count ob - 1\<rparr>;
         let s1 = s\<lparr>objects := (objects s)(q \<mapsto> ob1)\<rparr>;
         if ref_count ob1 = 0 then destroy_object q s1 else Some s1 })"

definition construct_ref :: "ptr \<Rightarrow> ptr option \<Rightarrow> ref_store \<Rightarrow> ref_store option" where
  "construct_ref v q s = inc_ref q (s\<lparr>counting := (counting s)(v \<mapsto> q)\<rparr>)"

definition destruct_ref :: "ptr \<Rightarrow> ref_store \<Rightarrow> ref_store option" where
  "destruct_ref v s = do {
     q \<leftarrow> counting s v;
     s' \<leftarrow> dec_ref q s;
     Some (s'\<lparr>counting := (counting s')(v := None)\<rparr>) }"

definition set_ref :: "ptr \<Rightarrow> ptr option \<Rightarrow> ref_store \<Rightarrow> ref_store option" where
  "set_ref v q s = do {
     old \<leftarrow> counting s v;
     s1 \<leftarrow> dec_ref old s;
     inc_ref q (s1\<lparr>counting := (counting s1)(v \<mapsto> q)\<rparr>) }"

definition copy_ref_ptr :: "ptr \<Rightarrow> ptr \<Rightarrow> ref_store \<Rightarrow> ref_store option" where
  "copy_ref_ptr v w s = do { q \<leftarrow> counting s w; construct_ref v q s }"

definition assign_ref_ptr :: "ptr \<Rightarrow> ptr \<Rightarrow> ref_store \<Rightarrow> ref_store option" where
  "assign_ref_ptr v w s = do { q \<leftarrow> counting s w; set_ref v q s }"

definition register_reference :: "ptr \<Rightarrow> ref_store \<Rightarrow> ref_store option" where
  "register_reference p s = do {
     r \<leftarrow> safe s p;
     (case so_object r of None \<Rightarrow> Some s
      | Some q \<Rightarrow> do {
          ob \<leftarrow> objects s q;
          let next = first_object_ref ob;
          s1 \<leftarrow> (case next of None \<Rightarrow> Some s
                 | Some n \<Rightarrow> do {
                     rn \<leftarrow> safe s n;
                     Some (s\<lparr>safe := (safe s)(n \<mapsto> rn\<lparr>prev_object_ref := Some p\<rparr>)\<rparr>) });
          Some (s1\<lparr>safe := (safe s1)(p \<mapsto> r\<lparr>next_object_ref := next, prev_object_ref := None\<rparr>),
                  objects := (objects s1)(q \<mapsto> ob\<lparr>first_object_ref := Some p\<rparr>)\<rparr>) }) }"

definition unregister_reference :: "ptr \<Rightarrow> ref_store \<Rightarrow> ref_store option" where
  "unregister_reference p s = do {
     r \<leftarrow> safe s p;
     (case so_object r of None \<Rightarrow> Some s
      | Some q \<Rightarrow> do {
          s1 \<leftarrow> (case prev_object_ref r of
                   Some m \<Rightarrow> do {
                     rm \<leftarrow> safe s m;
                     Some (s\<lparr>safe := (safe s)(m \<mapsto> rm\<lparr>next_object_ref := next_object_ref r\<rparr>)\<rparr>) }
                 | None \<Rightarrow> do {
                     ob \<leftarrow> objects s q;
                     Some (s\<lparr>objects := (objects s)(q \<mapsto> ob\<lparr>first_object_ref := next_object_ref r\<rparr>)\<rparr>) });
          (case next_object_ref r of None \<Rightarrow> Some s1
           | Some n \<Rightarrow> do {
               rn \<leftarrow> safe s1 n;
               Some (s1\<lparr>safe := (safe s1)(n \<mapsto> rn\<lparr>prev_object_ref := prev_object_ref r\<rparr>)\<rparr>) }) }) }"

definition point_at :: "ptr \<Rightarrow> ptr option \<Rightarrow> ref_store \<Rightarrow> ref_store option" where
  "point_at p q s = do {
     r \<leftarrow> safe s p;
     register_reference p (s\<lparr>safe := (safe s)(p \<mapsto> r\<lparr>so_object := q\<rparr>)\<rparr>) }"

text \<open>The links of a safe pointer are uninitialised until it is registered: \<open>mem\<close> is what they hold.\<close>

definition construct_safe :: "safe_object_ref \<Rightarrow> ptr \<Rightarrow> ptr option \<Rightarrow> ref_store \<Rightarrow> ref_store option" where
  "construct_safe mem p q s = register_reference p (s\<lparr>safe := (safe s)(p \<mapsto> mem\<lparr>so_object := q\<rparr>)\<rparr>)"

definition set_safe :: "ptr \<Rightarrow> ptr option \<Rightarrow> ref_store \<Rightarrow> ref_store option" where
  "set_safe p q s = do {
     s1 \<leftarrow> unregister_reference p s;
     point_at p q s1 }"

definition copy_safe_ptr :: "safe_object_ref \<Rightarrow> ptr \<Rightarrow> ptr \<Rightarrow> ref_store \<Rightarrow> ref_store option" where
  "copy_safe_ptr mem p w s = do { r \<leftarrow> safe s w; construct_safe mem p (so_object r) s }"

definition assign_safe_ptr :: "ptr \<Rightarrow> ptr \<Rightarrow> ref_store \<Rightarrow> ref_store option" where
  "assign_safe_ptr p w s = do { r \<leftarrow> safe s w; set_safe p (so_object r) s }"

definition destruct_safe :: "ptr \<Rightarrow> ref_store \<Rightarrow> ref_store option" where
  "destruct_safe p s = do {
     s1 \<leftarrow> unregister_reference p s;
     Some (s1\<lparr>safe := (safe s1)(p := None)\<rparr>) }"

subsection \<open>The lists of safe pointers\<close>

fun dseg :: "(ptr \<rightharpoonup> safe_object_ref) \<Rightarrow> ptr option \<Rightarrow> ptr option \<Rightarrow> ptr list \<Rightarrow> ptr option \<Rightarrow> bool" where
  "dseg h prev start [] mid \<longleftrightarrow> start = mid"
| "dseg h prev start (p # ps) mid \<longleftrightarrow> start = Some p \<and> (\<exists>r. h p = Some r \<and> prev_object_ref r = prev \<and> dseg h (Some p) (next_object_ref r) ps mid)"

abbreviation dchain :: "(ptr \<rightharpoonup> safe_object_ref) \<Rightarrow> ptr option \<Rightarrow> ptr option \<Rightarrow> ptr list \<Rightarrow> bool" where
  "dchain h prev start ps \<equiv> dseg h prev start ps None"

definition null_ref :: safe_object_ref where
  "null_ref = \<lparr>so_object = None, prev_object_ref = None, next_object_ref = None\<rparr>"

definition pointing :: "ref_store \<Rightarrow> ptr \<Rightarrow> ptr set" where
  "pointing s q = {p. \<exists>r. safe s p = Some r \<and> so_object r = Some q}"

definition safe_list :: "ref_store \<Rightarrow> ptr \<Rightarrow> ptr list \<Rightarrow> bool" where
  "safe_list s q ps \<longleftrightarrow> (\<exists>ob. objects s q = Some ob \<and> dchain (safe s) None (first_object_ref ob) ps) \<and> distinct ps \<and> set ps = pointing s q"

text \<open>Every object knows exactly the safe pointers to it, and none points to an object that is gone.\<close>

definition safe_inv :: "ref_store \<Rightarrow> bool" where
  "safe_inv s \<longleftrightarrow> (\<forall>q. objects s q \<noteq> None \<longrightarrow> (\<exists>ps. safe_list s q ps)) \<and> (\<forall>q. objects s q = None \<longrightarrow> pointing s q = {})"

lemma dseg_cong: "dseg h prev start ps e \<Longrightarrow> (\<And>p. p \<in> set ps \<Longrightarrow> h' p = h p) \<Longrightarrow> dseg h' prev start ps e"
  by (induction ps arbitrary: prev start) auto

lemma dseg_append:
  "dseg h prev start (xs @ ys) e \<longleftrightarrow> (\<exists>m. dseg h prev start xs m \<and> dseg h (if xs = [] then prev else Some (last xs)) m ys e)"
  by (induction xs arbitrary: prev start) auto

text \<open>The last link of a piece and the first back link of a piece may be redirected.\<close>

lemma dseg_relink_last:
  assumes "dseg h prev start (xs @ [m]) e" "distinct (xs @ [m])" "h m = Some r"
  shows "dseg (h(m \<mapsto> r\<lparr>next_object_ref := e'\<rparr>)) prev start (xs @ [m]) e'"
proof -
  obtain k where k: "dseg h prev start xs k" "dseg h (if xs = [] then prev else Some (last xs)) k [m] e"
    using assms(1) unfolding dseg_append by blast
  have "dseg (h(m \<mapsto> r\<lparr>next_object_ref := e'\<rparr>)) prev start xs k" using k(1) by (rule dseg_cong) (use assms(2) in auto)
  then show ?thesis unfolding dseg_append using k(2) assms(3) by auto
qed

lemma dseg_relink_first:
  assumes "dseg h prev start (n # ys) e" "distinct (n # ys)" "h n = Some r"
  shows "dseg (h(n \<mapsto> r\<lparr>prev_object_ref := prev'\<rparr>)) prev' start (n # ys) e"
  using assms by (auto intro: dseg_cong)

lemma null_safe_refs_chain:
  assumes "dchain (safe s) prev start ps" "distinct ps"
  shows "null_safe_refs start s = Some (s\<lparr>safe := \<lambda>p. if p \<in> set ps then Some null_ref else safe s p\<rparr>)"
  using assms
proof (induction ps arbitrary: prev start s)
  case Nil
  then show ?case by (simp add: null_safe_refs.simps)
next
  case (Cons p ps)
  then obtain r where r: "start = Some p" "safe s p = Some r" "dchain (safe s) (Some p) (next_object_ref r) ps" by auto
  let ?s = "s\<lparr>safe := (safe s)(p \<mapsto> null_ref)\<rparr>"
  have "dchain (safe ?s) (Some p) (next_object_ref r) ps" using r(3) by (rule dseg_cong) (use Cons.prems(2) in auto)
  from Cons.IH[OF this] Cons.prems(2)
  have "null_safe_refs (next_object_ref r) ?s = Some (?s\<lparr>safe := \<lambda>x. if x \<in> set ps then Some null_ref else safe ?s x\<rparr>)" by simp
  moreover have "(\<lambda>x. if x \<in> set ps then Some null_ref else safe ?s x) = (\<lambda>x. if x \<in> set (p # ps) then Some null_ref else safe s x)" by auto
  ultimately show ?case using r(1,2) by (subst null_safe_refs.simps) (simp add: null_ref_def)
qed

lemma pointing_iff: "p \<in> pointing s q \<longleftrightarrow> map_option so_object (safe s p) = Some (Some q)"
  by (auto simp: pointing_def)

lemma pointing_disjoint: "q \<noteq> q' \<Longrightarrow> pointing s q \<inter> pointing s q' = {}"
  by (auto simp: pointing_def)

subsection \<open>Operations on safe pointers\<close>

definition live :: "ptr option \<Rightarrow> ref_store \<Rightarrow> bool" where
  "live q s \<longleftrightarrow> (case q of None \<Rightarrow> True | Some q \<Rightarrow> objects s q \<noteq> None)"

text \<open>A change of the store that keeps the counts and everything but the safe pointers to one object.\<close>

definition same_counts :: "ref_store \<Rightarrow> ref_store \<Rightarrow> bool" where
  "same_counts s s' \<longleftrightarrow> counting s' = counting s \<and> (\<forall>q. map_option ref_count (objects s' q) = map_option ref_count (objects s q))"

definition only_list_of :: "ptr \<Rightarrow> ref_store \<Rightarrow> ref_store \<Rightarrow> bool" where
  "only_list_of q s s' \<longleftrightarrow> (\<forall>q'. q' \<noteq> q \<longrightarrow> objects s' q' = objects s q' \<and> pointing s' q' = pointing s q' \<and> (\<forall>p \<in> pointing s q'. safe s' p = safe s p))"

lemma safe_list_cong:
  assumes "safe_list s q ps" "objects s' q = objects s q" "pointing s' q = pointing s q" "\<forall>p \<in> pointing s q. safe s' p = safe s p"
  shows "safe_list s' q ps"
proof -
  obtain ob where ob: "objects s q = Some ob" "dchain (safe s) None (first_object_ref ob) ps" "distinct ps" "set ps = pointing s q"
    using assms(1) by (auto simp: safe_list_def)
  have "dchain (safe s') None (first_object_ref ob) ps" using ob(2) by (rule dseg_cong) (use ob(4) assms(4) in auto)
  then show ?thesis using ob assms(2,3) by (simp add: safe_list_def)
qed

lemma only_list_of_inv:
  assumes "safe_inv s" "only_list_of q s s'" "safe_list s' q ps"
  shows "safe_inv s'"
proof -
  have "\<exists>ps. safe_list s' q' ps" if q': "objects s' q' \<noteq> None" for q'
  proof (cases "q' = q")
    case False
    then have o: "objects s' q' = objects s q'" "pointing s' q' = pointing s q'" "\<forall>p \<in> pointing s q'. safe s' p = safe s p"
      using assms(2) by (simp_all add: only_list_of_def)
    then obtain qs where "safe_list s q' qs" using q' assms(1) by (auto simp: safe_inv_def)
    then show ?thesis using safe_list_cong o by blast
  qed (use assms(3) in auto)
  moreover have "pointing s' q' = {}" if "objects s' q' = None" for q'
    using that assms by (cases "q' = q") (auto simp: only_list_of_def safe_inv_def safe_list_def)
  ultimately show ?thesis by (simp add: safe_inv_def)
qed

lemma register_ok:
  assumes inv: "safe_inv (s\<lparr>safe := (safe s)(p := None)\<rparr>)" and r: "safe s p = Some r" "live (so_object r) s"
  shows "\<exists>s'. register_reference p s = Some s' \<and> safe_inv s' \<and> same_counts s s' \<and> map_option so_object (safe s' p) = Some (so_object r)"
proof (cases "so_object r")
  case None
  let ?s = "s\<lparr>safe := (safe s)(p := None)\<rparr>"
  have pt: "pointing s q = pointing ?s q" for q using r(1) None by (auto simp: pointing_def)
  have "safe_list s q ps" if "safe_list ?s q ps" for q ps using that by (rule safe_list_cong) (use pt in \<open>auto simp: pointing_def\<close>)
  then have "safe_inv s" using inv pt by (fastforce simp: safe_inv_def)
  then show ?thesis using r(1) None by (simp add: register_reference_def same_counts_def)
next
  case (Some q)
  let ?s = "s\<lparr>safe := (safe s)(p := None)\<rparr>"
  obtain ob ps where q: "objects s q = Some ob" "dchain (safe ?s) None (first_object_ref ob) ps" "distinct ps" "set ps = pointing ?s q"
    using r(2) Some inv by (fastforce simp: live_def safe_inv_def safe_list_def)
  have np: "p \<notin> set ps" unfolding q(4) by (simp add: pointing_def)
  define h where "h = (case ps of [] \<Rightarrow> safe s | n # _ \<Rightarrow> (safe s)(n \<mapsto> (the (safe s n))\<lparr>prev_object_ref := Some p\<rparr>))"
  have same: "map_option so_object (h x) = map_option so_object (safe s x)" for x
    using q(2) np by (cases ps) (auto simp: h_def split: if_splits)
  have other: "x \<notin> set ps \<Longrightarrow> h x = safe s x" for x by (cases ps) (auto simp: h_def)
  let ?s' = "s\<lparr>safe := h(p \<mapsto> r\<lparr>next_object_ref := first_object_ref ob, prev_object_ref := None\<rparr>),
      objects := (objects s)(q \<mapsto> ob\<lparr>first_object_ref := Some p\<rparr>)\<rparr>"
  have reg: "register_reference p s = Some ?s'"
  proof (cases ps)
    case Nil
    then show ?thesis using r(1) Some q(1,2) by (simp add: register_reference_def h_def)
  next
    case (Cons n ys)
    then obtain rn where "first_object_ref ob = Some n" "n \<noteq> p" "safe s n = Some rn" using q(2) np by (auto split: if_splits)
    then show ?thesis using r(1) Some q(1) Cons by (simp add: register_reference_def h_def)
  qed
  have "dchain (safe s) None (first_object_ref ob) ps" using q(2) by (rule dseg_cong) (use np in auto)
  then have "dchain h (Some p) (first_object_ref ob) ps"
    using dseg_relink_first[of "safe s" None "first_object_ref ob" _ _ None _ "Some p"] q(3) by (cases ps) (auto simp: h_def)
  then have ch: "dchain (h(p \<mapsto> r\<lparr>next_object_ref := first_object_ref ob, prev_object_ref := None\<rparr>)) (Some p) (first_object_ref ob) ps"
    by (rule dseg_cong) (use np in auto)
  have pt: "pointing ?s' q' = (if q' = q then insert p (pointing ?s q) else pointing ?s q')" for q'
    by (rule set_eqI) (use Some in \<open>simp add: pointing_iff same del: map_option_eq_Some\<close>)
  have "safe_list ?s' q (p # ps)" unfolding safe_list_def pt using ch q np by simp
  moreover have "only_list_of q ?s ?s'"
  proof -
    have "x \<notin> set ps \<and> x \<noteq> p" if "x \<in> pointing ?s q'" "q' \<noteq> q" for x q'
      using that q(4) pointing_disjoint[of q' q ?s] by (auto simp: pointing_def)
    then show ?thesis using pt other by (auto simp: only_list_of_def)
  qed
  ultimately have "safe_inv ?s'" using only_list_of_inv[OF inv] by blast
  then show ?thesis using reg q(1) Some by (simp add: same_counts_def)
qed

lemma unregister_ok:
  assumes inv: "safe_inv s" and r: "safe s p = Some r"
  shows "\<exists>s'. unregister_reference p s = Some s' \<and> safe_inv (s'\<lparr>safe := (safe s')(p := None)\<rparr>) \<and> same_counts s s' \<and> safe s' p \<noteq> None"
proof (cases "so_object r")
  case None
  let ?s = "s\<lparr>safe := (safe s)(p := None)\<rparr>"
  have pt: "pointing ?s q = pointing s q" for q using r None by (auto simp: pointing_def)
  have "safe_list ?s q ps" if "safe_list s q ps" for q ps using that by (rule safe_list_cong) (use pt r None in \<open>auto simp: pointing_def\<close>)
  then have "safe_inv ?s" using inv pt by (fastforce simp: safe_inv_def)
  then show ?thesis using r None by (simp add: unregister_reference_def same_counts_def)
next
  case (Some q)
  have "p \<in> pointing s q" using r Some by (simp add: pointing_def)
  then obtain ob ps where q: "objects s q = Some ob" "dchain (safe s) None (first_object_ref ob) ps" "distinct ps" "set ps = pointing s q"
    using inv by (fastforce simp: safe_inv_def safe_list_def)
  from \<open>p \<in> pointing s q\<close> obtain xs ys where ps: "ps = xs @ p # ys" using q(4) by (metis split_list)
  let ?prev = "if xs = [] then None else Some (last xs)"
  obtain r' where "dseg (safe s) None (first_object_ref ob) xs (Some p)" "safe s p = Some r'" "prev_object_ref r' = ?prev"
      "dchain (safe s) (Some p) (next_object_ref r') ys"
    using q(2) unfolding ps dseg_append by auto
  then have parts: "dseg (safe s) None (first_object_ref ob) xs (Some p)" "prev_object_ref r = ?prev" "dchain (safe s) (Some p) (next_object_ref r) ys"
    using r by simp_all
  have nd: "p \<notin> set xs" "p \<notin> set ys" "set xs \<inter> set ys = {}" "distinct xs" "distinct ys" using q(3) ps by auto
  define h1 where "h1 = (if xs = [] then safe s else (safe s)(last xs \<mapsto> (the (safe s (last xs)))\<lparr>next_object_ref := next_object_ref r\<rparr>))"
  define first where "first = (if xs = [] then next_object_ref r else first_object_ref ob)"
  have live_last: "xs \<noteq> [] \<Longrightarrow> \<exists>m. safe s (last xs) = Some m" using q(4) ps last_in_set[of xs] by (auto simp: pointing_def)
  have left: "dseg h1 None first xs (next_object_ref r)"
  proof (cases "xs = []")
    case False
    then obtain as m where as: "xs = as @ [m]" by (metis rev_exhaust)
    obtain rm where "safe s m = Some rm" using live_last as by auto
    then show ?thesis using dseg_relink_last[of "safe s" None "first_object_ref ob" as m "Some p" rm "next_object_ref r"] parts(1) nd(4) as
      by (simp add: h1_def first_def)
  qed (simp add: h1_def first_def)
  have right: "dchain h1 (Some p) (next_object_ref r) ys"
    using parts(3) by (rule dseg_cong) (use nd(3) last_in_set[of xs] in \<open>auto simp: h1_def disjoint_iff\<close>)
  define h2 where "h2 = (case ys of [] \<Rightarrow> h1 | n # _ \<Rightarrow> h1(n \<mapsto> (the (h1 n))\<lparr>prev_object_ref := ?prev\<rparr>))"
  have right2: "dchain h2 ?prev (next_object_ref r) ys"
    using right nd(5) dseg_relink_first[of h1 "Some p" "next_object_ref r" _ _ None _ ?prev] by (cases ys) (auto simp: h2_def)
  have left2: "dseg h2 None first xs (next_object_ref r)"
    using left by (rule dseg_cong) (use nd(3) in \<open>auto simp: h2_def split: list.splits\<close>)
  have whole: "dchain h2 None first (xs @ ys)" unfolding dseg_append using left2 right2 by blast
  have same: "map_option so_object (h2 x) = map_option so_object (safe s x)" for x
  proof -
    have e: "map_option so_object (safe s x) = map_option so_object (h1 x)" for x using live_last by (auto simp: h1_def)
    show ?thesis unfolding e using right by (cases ys) (auto simp: h2_def)
  qed
  have other: "x \<notin> set ps \<Longrightarrow> h2 x = safe s x" for x
    using last_in_set[of xs] by (cases ys) (auto simp: h1_def h2_def ps)
  have hp: "h2 p = Some r" using nd r last_in_set[of xs] by (cases ys) (auto simp: h1_def h2_def)
  let ?s1 = "s\<lparr>safe := h2, objects := (objects s)(q \<mapsto> ob\<lparr>first_object_ref := first\<rparr>)\<rparr>"
  have obs: "xs \<noteq> [] \<Longrightarrow> (objects s)(q \<mapsto> ob\<lparr>first_object_ref := first\<rparr>) = objects s" using q(1) by (auto simp: first_def fun_upd_idem)
  have un: "unregister_reference p s = Some ?s1"
  proof (cases ys)
    case Nil
    then have "next_object_ref r = None" using parts(3) by simp
    then show ?thesis using r Some parts(2) q(1) live_last obs Nil by (cases "xs = []") (auto simp: unregister_reference_def h1_def h2_def first_def)
  next
    case (Cons n zs)
    then obtain rn where "next_object_ref r = Some n" "h1 n = Some rn" using right by auto
    then show ?thesis using r Some parts(2) q(1) live_last obs Cons by (cases "xs = []") (auto simp: unregister_reference_def h1_def h2_def first_def)
  qed
  let ?s2 = "?s1\<lparr>safe := h2(p := None)\<rparr>"
  have pt: "pointing ?s2 q' = (if q' = q then pointing s q - {p} else pointing s q')" for q'
    by (rule set_eqI) (use r Some in \<open>auto simp: pointing_iff same simp del: map_option_eq_Some\<close>)
  have "dchain (h2(p := None)) None first (xs @ ys)" using whole by (rule dseg_cong) (use nd in auto)
  then have "safe_list ?s2 q (xs @ ys)" unfolding safe_list_def pt using q(3,4) ps nd by auto
  moreover have "only_list_of q s ?s2"
  proof -
    have "x \<notin> set ps \<and> x \<noteq> p" if "x \<in> pointing s q'" "q' \<noteq> q" for x q'
      using that q(4) pointing_disjoint[of q' q s] \<open>p \<in> pointing s q\<close> by auto
    then show ?thesis using pt other by (auto simp: only_list_of_def)
  qed
  ultimately have "safe_inv ?s2" using only_list_of_inv[OF inv] by blast
  then show ?thesis using un hp q(1) by (auto simp: same_counts_def)
qed

subsection \<open>Counts\<close>

definition refs_to :: "ref_store \<Rightarrow> ptr \<Rightarrow> ptr set" where
  "refs_to s q = {v. counting s v = Some (Some q)}"

text \<open>The count of an object is the number of counting pointers to it, and they point to objects only.\<close>

definition count_inv :: "ref_store \<Rightarrow> bool" where
  "count_inv s \<longleftrightarrow> finite (dom (counting s)) \<and> card (dom (counting s)) < 2 ^ 32
     \<and> (\<forall>q. objects s q = None \<longrightarrow> refs_to s q = {}) \<and> (\<forall>q ob. objects s q = Some ob \<longrightarrow> unat (ref_count ob) = card (refs_to s q))"

definition ref_inv :: "ref_store \<Rightarrow> bool" where
  "ref_inv s \<longleftrightarrow> count_inv s \<and> safe_inv s"

lemma same_counts_inv:
  assumes "same_counts s s'" "count_inv s"
  shows "count_inv s'"
proof -
  have c: "counting s' = counting s" "\<And>q. map_option ref_count (objects s' q) = map_option ref_count (objects s q)"
    using assms(1) by (simp_all add: same_counts_def)
  have "refs_to s' q = refs_to s q" for q by (simp add: refs_to_def c(1))
  moreover have "\<exists>ob'. objects s q = Some ob' \<and> ref_count ob' = ref_count ob" if "objects s' q = Some ob" for q ob
    using that c(2)[of q] by (cases "objects s q") simp_all
  moreover have "objects s q = None" if "objects s' q = None" for q using that c(2)[of q] by simp
  ultimately show ?thesis using assms(2) c(1) unfolding count_inv_def by metis
qed

lemma refs_to_finite: "count_inv s \<Longrightarrow> finite (refs_to s q) \<and> card (refs_to s q) < 2 ^ 32"
proof -
  assume "count_inv s"
  moreover have "refs_to s q \<subseteq> dom (counting s)" by (auto simp: refs_to_def)
  ultimately show ?thesis using finite_subset[of "refs_to s q" "dom (counting s)"] card_mono[of "dom (counting s)" "refs_to s q"] by (auto simp: count_inv_def)
qed

text \<open>Giving up one reference: the last one takes the object with it, and the safe pointers to it become null.\<close>

lemma dec_ref_ok:
  assumes inv: "safe_inv s" and q: "objects s q = Some ob"
  shows "\<exists>s'. dec_ref (Some q) s = Some s' \<and> safe_inv s' \<and> counting s' = counting s
     \<and> (if ref_count ob = 1 then objects s' = (objects s)(q := None) \<and> safe s' = (\<lambda>p. if p \<in> pointing s q then Some null_ref else safe s p)
        else objects s' = (objects s)(q \<mapsto> ob\<lparr>ref_count := ref_count ob - 1\<rparr>) \<and> safe s' = safe s)"
proof (cases "ref_count ob = 1")
  case True
  obtain ps where ps: "dchain (safe s) None (first_object_ref ob) ps" "distinct ps" "set ps = pointing s q"
    using inv q by (fastforce simp: safe_inv_def safe_list_def)
  let ?s' = "s\<lparr>objects := (objects s)(q := None), safe := \<lambda>p. if p \<in> set ps then Some null_ref else safe s p\<rparr>"
  let ?s1 = "s\<lparr>objects := (objects s)(q \<mapsto> ob\<lparr>ref_count := 0\<rparr>)\<rparr>"
  have "null_safe_refs (first_object_ref ob) ?s1 = Some (?s1\<lparr>safe := \<lambda>p. if p \<in> set ps then Some null_ref else safe s p\<rparr>)"
    using null_safe_refs_chain[of ?s1 None "first_object_ref ob" ps] ps(1,2) by (simp cong: if_cong)
  then have "dec_ref (Some q) s = Some ?s'" using q True by (simp add: dec_ref_def destroy_object_def)
  moreover have "safe_inv ?s'"
  proof -
    have pt: "pointing ?s' q' = (if q' = q then {} else pointing s q')" for q'
      using ps(3) by (auto simp: pointing_def null_ref_def split: if_splits)
    have "safe_list ?s' q' qs" if "safe_list s q' qs" "q' \<noteq> q" for q' qs
      using that(1) by (rule safe_list_cong) (use that(2) pt pointing_disjoint[OF that(2), of s] ps(3) in auto)
    then show ?thesis using inv pt by (fastforce simp: safe_inv_def)
  qed
  ultimately show ?thesis using True ps(3) by auto
next
  case False
  let ?s' = "s\<lparr>objects := (objects s)(q \<mapsto> ob\<lparr>ref_count := ref_count ob - 1\<rparr>)\<rparr>"
  have "dec_ref (Some q) s = Some ?s'" using q False by (simp add: dec_ref_def eq_diff_eq)
  moreover have "safe_inv ?s'"
  proof -
    have sl: "safe_list ?s' q' qs" if "safe_list s q' qs" for q' qs using that q by (auto simp: safe_list_def pointing_def)
    have "pointing ?s' q' = pointing s q'" for q' by (simp add: pointing_def)
    moreover have "\<exists>ps. safe_list ?s' q' ps" if "objects ?s' q' \<noteq> None" for q'
    proof -
      have "objects s q' \<noteq> None" using that q by (cases "q' = q") auto
      then show ?thesis using inv sl unfolding safe_inv_def by blast
    qed
    moreover have "objects s q' = None" if "objects ?s' q' = None" for q' using that by (cases "q' = q") auto
    ultimately show ?thesis using inv unfolding safe_inv_def by metis
  qed
  ultimately show ?thesis using False by auto
qed

subsection \<open>Sequences of operations\<close>

datatype ref_op = New_Object ptr | New_Ref ptr "ptr option" | Set_Ref ptr "ptr option" | Drop_Ref ptr
  | Copy_Ref ptr ptr | Assign_Ref ptr ptr
  | New_Safe safe_object_ref ptr "ptr option" | Set_Safe ptr "ptr option" | Drop_Safe ptr
  | Copy_Safe safe_object_ref ptr ptr | Assign_Safe ptr ptr

fun ref_exec :: "ref_op \<Rightarrow> ref_store \<Rightarrow> ref_store option" where
  "ref_exec (New_Object q) s = Some (construct_object q s)"
| "ref_exec (New_Ref v q) s = construct_ref v q s"
| "ref_exec (Set_Ref v q) s = set_ref v q s"
| "ref_exec (Drop_Ref v) s = destruct_ref v s"
| "ref_exec (New_Safe mem p q) s = construct_safe mem p q s"
| "ref_exec (Set_Safe p q) s = set_safe p q s"
| "ref_exec (Drop_Safe p) s = destruct_safe p s"
| "ref_exec (Copy_Ref v w) s = copy_ref_ptr v w s"
| "ref_exec (Assign_Ref v w) s = assign_ref_ptr v w s"
| "ref_exec (Copy_Safe mem p w) s = copy_safe_ptr mem p w s"
| "ref_exec (Assign_Safe p w) s = assign_safe_ptr p w s"

definition last_ref_to :: "ref_store \<Rightarrow> ptr \<Rightarrow> ptr option \<Rightarrow> bool" where
  "last_ref_to s v q \<longleftrightarrow> (case q of None \<Rightarrow> False | Some q \<Rightarrow> refs_to s q = {v})"

text \<open>Operations a client may do: new things get fresh addresses, pointers are set to objects that exist.  The last reference to an object
  must not be set to that same object.\<close>

fun ref_legal :: "ref_op \<Rightarrow> ref_store \<Rightarrow> bool" where
  "ref_legal (New_Object q) s \<longleftrightarrow> objects s q = None"
| "ref_legal (New_Ref v q) s \<longleftrightarrow> counting s v = None \<and> live q s \<and> card (dom (counting s)) + 1 < 2 ^ 32"
| "ref_legal (Set_Ref v q) s \<longleftrightarrow> counting s v \<noteq> None \<and> live q s \<and> \<not> last_ref_to s v q"
| "ref_legal (Drop_Ref v) s \<longleftrightarrow> counting s v \<noteq> None"
| "ref_legal (New_Safe mem p q) s \<longleftrightarrow> safe s p = None \<and> live q s"
| "ref_legal (Set_Safe p q) s \<longleftrightarrow> safe s p \<noteq> None \<and> live q s"
| "ref_legal (Drop_Safe p) s \<longleftrightarrow> safe s p \<noteq> None"
| "ref_legal (Copy_Ref v w) s \<longleftrightarrow> counting s v = None \<and> counting s w \<noteq> None \<and> card (dom (counting s)) + 1 < 2 ^ 32"
| "ref_legal (Assign_Ref v w) s \<longleftrightarrow> counting s v \<noteq> None \<and> counting s w \<noteq> None \<and> \<not> (v = w \<and> last_ref_to s v (the (counting s v)))"
| "ref_legal (Copy_Safe mem p w) s \<longleftrightarrow> safe s p = None \<and> safe s w \<noteq> None"
| "ref_legal (Assign_Safe p w) s \<longleftrightarrow> safe s p \<noteq> None \<and> safe s w \<noteq> None"

lemma live_same_counts: "same_counts s s' \<Longrightarrow> live q s' = live q s"
proof -
  assume "same_counts s s'"
  then have "(objects s' q' = None) = (objects s q' = None)" for q' by (metis map_option_is_None same_counts_def)
  then show ?thesis by (simp add: live_def split: option.splits)
qed

text \<open>The count invariant without the pointer \<open>v\<close>: what holds between the two halves of an assignment.\<close>

lemma drop_count:
  assumes inv: "ref_inv s" and v: "counting s v = Some old"
  shows "\<exists>s'. dec_ref old s = Some s' \<and> safe_inv s' \<and> counting s' = counting s \<and> count_inv (s'\<lparr>counting := (counting s)(v := None)\<rparr>)
     \<and> (\<forall>q. objects s' q = None \<longleftrightarrow> objects s q = None \<or> old = Some q \<and> refs_to s q = {v})"
proof -
  have ci: "count_inv s" and si: "safe_inv s" using inv by (simp_all add: ref_inv_def)
  let ?drop = "\<lambda>s'. s'\<lparr>counting := (counting s)(v := None)\<rparr>"
  have dom: "finite (dom ((counting s)(v := None)))" "card (dom ((counting s)(v := None))) < 2 ^ 32"
    using ci card_Diff1_le[of "dom (counting s)" v] by (auto simp: count_inv_def)
  have refs: "refs_to (?drop s') q = refs_to s q - {v}" for s' q by (auto simp: refs_to_def)
  show ?thesis
  proof (cases old)
    case None
    then have "refs_to s q - {v} = refs_to s q" for q using v by (auto simp: refs_to_def)
    then have "count_inv (?drop s)" using ci dom unfolding count_inv_def refs by simp
    moreover have "v \<notin> refs_to s q" for q using None v by (simp add: refs_to_def)
    then have "refs_to s q \<noteq> {v}" for q by blast
    ultimately show ?thesis using None si by (simp add: dec_ref_def)
  next
    case (Some q0)
    have vin: "v \<in> refs_to s q0" using v Some by (simp add: refs_to_def)
    have spec: "objects s q = None \<Longrightarrow> refs_to s q = {}" "objects s q = Some ob \<Longrightarrow> unat (ref_count ob) = card (refs_to s q)" for q ob
      using ci by (simp_all add: count_inv_def)
    from spec(1)[of q0] vin obtain ob where ob: "objects s q0 = Some ob" by fastforce
    note ob = ob spec(2)[OF ob]
    note fin = refs_to_finite[OF ci, of q0]
    have pos: "0 < card (refs_to s q0)" using vin fin card_gt_0_iff by blast
    have one: "ref_count ob = 1 \<longleftrightarrow> refs_to s q0 = {v}"
    proof -
      have "ref_count ob = 1 \<longleftrightarrow> card (refs_to s q0) = 1" using ob(2) by (metis unat_1 word_unat_eq_iff)
      then show ?thesis using vin by (auto simp: card_1_singleton_iff)
    qed
    from dec_ref_ok[OF si ob(1)] obtain s' where s': "dec_ref (Some q0) s = Some s'" "safe_inv s'" "counting s' = counting s"
      "objects s' = (if ref_count ob = 1 then (objects s)(q0 := None) else (objects s)(q0 \<mapsto> ob\<lparr>ref_count := ref_count ob - 1\<rparr>))"
      by (metis (full_types))
    have "unat (ref_count ob - 1) = card (refs_to s q0 - {v})"
      using ob(2) pos fin vin by (simp add: unat_sub word_le_nat_alt)
    moreover have "refs_to s q - {v} = refs_to s q" if "q \<noteq> q0" for q using that v Some by (auto simp: refs_to_def)
    ultimately have "count_inv (?drop s')"
      unfolding count_inv_def refs using dom spec one s'(4) by (auto split: if_splits)
    moreover have "objects s' q = None \<longleftrightarrow> objects s q = None \<or> old = Some q \<and> refs_to s q = {v}" for q
      using s'(4) one ob(1) Some by auto
    ultimately show ?thesis using s' Some by blast
  qed
qed

lemma take_count:
  assumes ci: "count_inv s" and si: "safe_inv s" and v: "counting s v = None" and q: "live q s" and n: "card (dom (counting s)) + 1 < 2 ^ 32"
  shows "\<exists>s'. inc_ref q (s\<lparr>counting := (counting s)(v \<mapsto> q)\<rparr>) = Some s' \<and> ref_inv s'"
proof -
  let ?s = "s\<lparr>counting := (counting s)(v \<mapsto> q)\<rparr>"
  have fin: "finite (dom (counting s))" using ci by (simp add: count_inv_def)
  have dom: "finite (dom (counting ?s))" "card (dom (counting ?s)) < 2 ^ 32"
    using fin n v by (simp_all add: card_insert_disjoint domIff)
  have si': "safe_inv ?s" using si by (simp add: safe_inv_def safe_list_def pointing_def)
  have spec: "objects s x = None \<Longrightarrow> refs_to s x = {}" "objects s x = Some ob \<Longrightarrow> unat (ref_count ob) = card (refs_to s x)" for x ob
    using ci by (simp_all add: count_inv_def)
  have refs: "refs_to ?s x = (if q = Some x then insert v (refs_to s x) else refs_to s x)" for x
    using v by (auto simp: refs_to_def split: if_splits)
  show ?thesis
  proof (cases q)
    case None
    then have "count_inv ?s" using dom spec unfolding count_inv_def refs by simp
    then show ?thesis using None si' by (simp add: inc_ref_def ref_inv_def)
  next
    case (Some x)
    then obtain ob where ob: "objects s x = Some ob" using q by (auto simp: live_def)
    let ?s' = "?s\<lparr>objects := (objects s)(x \<mapsto> ob\<lparr>ref_count := ref_count ob + 1\<rparr>)\<rparr>"
    have nv: "v \<notin> refs_to s x" using v by (simp add: refs_to_def)
    have fr: "finite (refs_to s x)" using refs_to_finite[OF ci] by blast
    have "refs_to s x \<subseteq> dom (counting s)" by (auto simp: refs_to_def)
    from card_mono[OF fin this] n
    have n': "unat (ref_count ob) + unat (1 :: uint32) < 2 ^ LENGTH(32)" using spec(2)[OF ob] by simp
    have "unat (ref_count ob + 1) = card (insert v (refs_to s x))"
      unfolding n'[THEN unat_add_lem[THEN iffD1]] card_insert_disjoint[OF fr nv] using spec(2)[OF ob] by simp
    moreover have r: "refs_to ?s' y = (if y = x then insert v (refs_to s x) else refs_to s y)" for y
      using v Some by (auto simp: refs_to_def split: if_splits)
    ultimately have "objects ?s' y = Some ob' \<Longrightarrow> unat (ref_count ob') = card (refs_to ?s' y)" for y ob'
      unfolding r using spec(2)[of y ob'] by (auto split: if_splits)
    moreover have "objects ?s' y = None \<Longrightarrow> refs_to ?s' y = {}" for y unfolding r using spec(1)[of y] by (auto split: if_splits)
    ultimately have "count_inv ?s'" using dom by (simp add: count_inv_def)
    moreover have "safe_inv ?s'"
    proof -
      have "safe_list ?s' y ps" if "safe_list s y ps" for y ps using that ob by (auto simp: safe_list_def pointing_def)
      moreover have "pointing ?s' y = pointing s y" for y by (simp add: pointing_def)
      moreover have "(objects ?s' y = None) = (objects s y = None)" for y using ob by auto
      ultimately show ?thesis using si unfolding safe_inv_def by metis
    qed
    ultimately show ?thesis using ob Some by (simp add: inc_ref_def ref_inv_def)
  qed
qed

lemma ref_inv_live:
  assumes "ref_inv s"
  shows "counting s v = Some q \<Longrightarrow> live q s" "safe s p = Some r \<Longrightarrow> live (so_object r) s"
  using assms by (cases q; force simp: ref_inv_def count_inv_def refs_to_def live_def)
    (use assms in \<open>cases "so_object r"; force simp: ref_inv_def safe_inv_def pointing_def live_def\<close>)

fun basic :: "ref_op \<Rightarrow> bool" where
  "basic (Copy_Ref v w) = False"
| "basic (Assign_Ref v w) = False"
| "basic (Copy_Safe mem p w) = False"
| "basic (Assign_Safe p w) = False"
| "basic _ = True"

lemma new_object_step:
  assumes inv: "ref_inv s" and legal: "ref_legal (New_Object q) s"
  shows "\<exists>s'. ref_exec (New_Object q) s = Some s' \<and> ref_inv s'"
proof -
  have ci: "count_inv s" and si: "safe_inv s" using inv by (simp_all add: ref_inv_def)
  let ?s = "construct_object q s"
  have fresh: "objects s q = None" using legal by simp
  have "count_inv ?s"
    using ci fresh by (auto simp: count_inv_def construct_object_def new_ref_object_def refs_to_def split: if_splits)
  moreover have "safe_inv ?s"
  proof -
    have pt: "pointing ?s y = pointing s y" for y by (simp add: pointing_def construct_object_def)
    have "safe_list ?s q []" using si fresh pt by (simp add: safe_list_def construct_object_def new_ref_object_def safe_inv_def)
    moreover have "only_list_of q s ?s" using pt by (simp add: only_list_of_def construct_object_def)
    ultimately show ?thesis using only_list_of_inv[OF si] by blast
  qed
  ultimately show ?thesis by (simp add: ref_inv_def)
qed

lemma set_ref_step:
  assumes inv: "ref_inv s" and legal: "ref_legal (Set_Ref v q) s"
  shows "\<exists>s'. ref_exec (Set_Ref v q) s = Some s' \<and> ref_inv s'"
proof -
  have ci: "count_inv s" and si: "safe_inv s" using inv by (simp_all add: ref_inv_def)
  obtain old where l: "counting s v = Some old" "live q s" "\<And>q'. q = Some q' \<Longrightarrow> old = q \<Longrightarrow> refs_to s q' \<noteq> {v}"
    using legal by (auto simp: last_ref_to_def split: option.splits)
  obtain s1 where s1: "dec_ref old s = Some s1" "safe_inv s1" "counting s1 = counting s" "count_inv (s1\<lparr>counting := (counting s)(v := None)\<rparr>)"
      "\<forall>x. objects s1 x = None \<longleftrightarrow> objects s x = None \<or> old = Some x \<and> refs_to s x = {v}"
    using drop_count[OF inv l(1)] by blast
  let ?s2 = "s1\<lparr>counting := (counting s)(v := None)\<rparr>"
  have "live q ?s2" using l(2,3) s1(5) by (auto simp: live_def split: option.splits)
  moreover have "safe_inv ?s2" using s1(2) by (simp add: safe_inv_def safe_list_def pointing_def)
  moreover have "card (dom (counting ?s2)) + 1 < 2 ^ 32"
  proof -
    have "v \<in> dom (counting s)" "finite (dom (counting s))" "card (dom (counting s)) < 2 ^ 32" using l(1) ci by (auto simp: count_inv_def)
    then show ?thesis using card_Suc_Diff1[of "dom (counting s)" v] by simp
  qed
  ultimately obtain s' where "inc_ref q (?s2\<lparr>counting := (counting ?s2)(v \<mapsto> q)\<rparr>) = Some s'" "ref_inv s'"
    using take_count[OF s1(4), of v q] by auto
  then show ?thesis using l(1) s1(1,3) by (simp add: set_ref_def)
qed

lemma basic_ref_step:
  assumes inv: "ref_inv s" and legal: "ref_legal op s" and basic: "basic op"
  shows "\<exists>s'. ref_exec op s = Some s' \<and> ref_inv s'"
proof -
  have ci: "count_inv s" and si: "safe_inv s" using inv by (simp_all add: ref_inv_def)
  show ?thesis
  proof (cases op)
    case (New_Object q)
    show ?thesis using new_object_step[OF inv legal[unfolded New_Object]] unfolding New_Object .
  next
    case (New_Ref v q)
    then show ?thesis using take_count[OF ci si, of v q] legal by (simp add: construct_ref_def)
  next
    case (Set_Ref v q)
    show ?thesis using set_ref_step[OF inv legal[unfolded Set_Ref]] unfolding Set_Ref .
  next
    case (Drop_Ref v)
    then obtain old where "counting s v = Some old" using legal by auto
    from drop_count[OF inv this] this show ?thesis
      using Drop_Ref by (auto simp: destruct_ref_def ref_inv_def safe_inv_def safe_list_def pointing_def)
  next
    case (New_Safe mem p q)
    let ?s = "s\<lparr>safe := (safe s)(p \<mapsto> mem\<lparr>so_object := q\<rparr>)\<rparr>"
    have "?s\<lparr>safe := (safe ?s)(p := None)\<rparr> = s" using legal New_Safe by (simp add: fun_upd_idem)
    then have "safe_inv (?s\<lparr>safe := (safe ?s)(p := None)\<rparr>)" using si by metis
    from register_ok[OF this, of "mem\<lparr>so_object := q\<rparr>"] legal New_Safe obtain s' where "register_reference p ?s = Some s'" "safe_inv s'" "same_counts ?s s'"
      by (auto simp: live_def split: option.splits)
    moreover have "count_inv ?s" using ci by (simp add: count_inv_def refs_to_def)
    ultimately show ?thesis using New_Safe same_counts_inv by (auto simp: construct_safe_def ref_inv_def)
  next
    case (Set_Safe p q)
    then obtain r where r: "safe s p = Some r" "live q s" using legal by auto
    obtain s1 where s1: "unregister_reference p s = Some s1" "safe_inv (s1\<lparr>safe := (safe s1)(p := None)\<rparr>)" "same_counts s s1" "safe s1 p \<noteq> None"
      using unregister_ok[OF si r(1)] by blast
    then obtain r1 where r1: "safe s1 p = Some r1" by auto
    let ?s = "s1\<lparr>safe := (safe s1)(p \<mapsto> r1\<lparr>so_object := q\<rparr>)\<rparr>"
    have "live q ?s" using live_same_counts[OF s1(3), of q] r(2) by (simp add: live_def split: option.splits)
    then obtain s' where "register_reference p ?s = Some s'" "safe_inv s'" "same_counts ?s s'"
      using register_ok[of ?s p "r1\<lparr>so_object := q\<rparr>"] s1(2) by auto
    moreover have "count_inv ?s" using same_counts_inv[OF s1(3) ci] by (simp add: count_inv_def refs_to_def)
    ultimately show ?thesis using Set_Safe s1(1) r1 same_counts_inv by (auto simp: set_safe_def point_at_def ref_inv_def)
  next
    case (Drop_Safe p)
    then obtain r where "safe s p = Some r" using legal by auto
    from unregister_ok[OF si this] same_counts_inv[OF _ ci] show ?thesis
      using Drop_Safe by (auto simp: destruct_safe_def ref_inv_def count_inv_def refs_to_def)
  qed (use basic in auto)
qed

text \<open>Copies and assignments are the basic operations at the pointer that is read.\<close>

lemma last_ref_to_self: "counting s w = Some q \<Longrightarrow> last_ref_to s v q \<Longrightarrow> v = w"
  by (auto simp: last_ref_to_def refs_to_def split: option.splits)

lemma ref_step:
  assumes inv: "ref_inv s" and legal: "ref_legal op s"
  shows "\<exists>s'. ref_exec op s = Some s' \<and> ref_inv s'"
proof (cases op)
  case (Copy_Ref v w)
  then obtain q where q: "counting s w = Some q" using legal by auto
  then have "ref_legal (New_Ref v q) s" using Copy_Ref legal ref_inv_live(1)[OF inv q] by simp
  from basic_ref_step[OF inv this] q Copy_Ref show ?thesis by (simp add: copy_ref_ptr_def)
next
  case (Assign_Ref v w)
  then obtain q where q: "counting s w = Some q" using legal by auto
  then have "ref_legal (Set_Ref v q) s" using Assign_Ref legal ref_inv_live(1)[OF inv q] last_ref_to_self[OF q, of v] by auto
  from basic_ref_step[OF inv this] q Assign_Ref show ?thesis by (simp add: assign_ref_ptr_def)
next
  case (Copy_Safe mem p w)
  then obtain r where r: "safe s w = Some r" using legal by auto
  then have "ref_legal (New_Safe mem p (so_object r)) s" using Copy_Safe legal ref_inv_live(2)[OF inv r] by simp
  from basic_ref_step[OF inv this] r Copy_Safe show ?thesis by (simp add: copy_safe_ptr_def)
next
  case (Assign_Safe p w)
  then obtain r where r: "safe s w = Some r" using legal by auto
  then have "ref_legal (Set_Safe p (so_object r)) s" using Assign_Safe legal ref_inv_live(2)[OF inv r] by simp
  from basic_ref_step[OF inv this] r Assign_Safe show ?thesis by (simp add: assign_safe_ptr_def)
qed (use basic_ref_step[OF inv legal] in simp_all)

interpretation refs: simulation ref_exec ref_legal "\<lambda>s u. ref_inv s" "\<lambda>op u. ()"
  by unfold_locales (rule ref_step)

abbreviation ref_run :: "ref_op list \<Rightarrow> ref_store \<Rightarrow> ref_store option" where
  "ref_run \<equiv> run_ops ref_exec"

abbreviation ref_legal_run :: "ref_op list \<Rightarrow> ref_store \<Rightarrow> bool" where
  "ref_legal_run \<equiv> legal_ops ref_legal ref_exec"

definition empty_store :: ref_store where
  "empty_store = \<lparr>objects = Map.empty, counting = Map.empty, safe = Map.empty\<rparr>"

lemma empty_store_inv: "ref_inv empty_store"
  by (simp add: empty_store_def ref_inv_def count_inv_def safe_inv_def refs_to_def pointing_def)

text \<open>C28. Reference counting is sound.  Every sequence of operations on counting and safe pointers that sets pointers to existing objects only, and does
  not assign the last reference of an object to itself, runs without following a dangling pointer or failing the destructor's assertion.  Afterwards
  each object's count is the number of counting pointers to it, no counting or safe pointer dangles, and an object's list holds the safe pointers to it.\<close>
theorem reference_counting_sound:
  assumes "ref_legal_run ops empty_store"
  shows "\<exists>s. ref_run ops empty_store = Some s
     \<and> (\<forall>q ob. objects s q = Some ob \<longrightarrow> unat (ref_count ob) = card {v. counting s v = Some (Some q)})
     \<and> (\<forall>v q. counting s v = Some (Some q) \<longrightarrow> objects s q \<noteq> None)
     \<and> (\<forall>p r q. safe s p = Some r \<longrightarrow> so_object r = Some q \<longrightarrow> objects s q \<noteq> None)
     \<and> (\<forall>q. objects s q \<noteq> None \<longrightarrow> (\<exists>ps. safe_list s q ps))"
proof -
  obtain s where s: "ref_run ops empty_store = Some s" "ref_inv s" using refs.runs[OF empty_store_inv assms] by blast
  have "counting s v = Some (Some q) \<Longrightarrow> objects s q \<noteq> None" for v q using ref_inv_live(1)[OF s(2)] by (fastforce simp: live_def)
  moreover have "safe s p = Some r \<Longrightarrow> so_object r = Some q \<Longrightarrow> objects s q \<noteq> None" for p r q
    using ref_inv_live(2)[OF s(2), of p r] by (simp add: live_def)
  ultimately show ?thesis using s unfolding ref_inv_def count_inv_def safe_inv_def refs_to_def by blast
qed

text \<open>Object 1 with two counting pointers and two safe pointers: the second counting pointer goes, then the first, and the safe pointers are null.\<close>

definition demo_ops :: "ref_op list" where
  "demo_ops = [New_Object 1, New_Ref 10 (Some 1), New_Safe null_ref 20 (Some 1), Copy_Safe null_ref 21 20, Copy_Ref 11 10, Assign_Ref 10 11,
     Drop_Ref 10, Drop_Ref 11, Set_Safe 20 None]"

lemma null_safe_refs_simps:
  "null_safe_refs None s = Some s"
  "null_safe_refs (Some p) s = do { r \<leftarrow> safe s p; null_safe_refs (next_object_ref r) (s\<lparr>safe := (safe s)(p \<mapsto> null_ref)\<rparr>) }"
  by (simp_all add: null_safe_refs.simps null_ref_def)

lemmas ref_eval = demo_ops_def empty_store_def construct_object_def new_ref_object_def null_ref_def null_safe_refs_simps destroy_object_def
  inc_ref_def dec_ref_def construct_ref_def destruct_ref_def set_ref_def copy_ref_ptr_def assign_ref_ptr_def register_reference_def
  unregister_reference_def point_at_def construct_safe_def set_safe_def copy_safe_ptr_def assign_safe_ptr_def destruct_safe_def
  live_def last_ref_to_def refs_to_def

theorem reference_counting_sound_witness:
  "ref_legal_run demo_ops empty_store \<and> (\<exists>s. ref_run demo_ops empty_store = Some s) \<and> ref_run demo_ops empty_store \<noteq> None"
proof -
  have 1: "ref_legal_run demo_ops empty_store"
    by (simp add: ref_eval)
  from reference_counting_sound[OF this] 1 show ?thesis by blast
qed

text \<open>The destructor of the last counting pointer deletes the object: the object is gone, every safe pointer to it is null and
  out of its list, and every other safe pointer and object is as before.\<close>
theorem last_reference_deletes:
  assumes "ref_inv s" and "counting s v = Some (Some q)" and "\<forall>w. counting s w = Some (Some q) \<longrightarrow> w = v"
  shows "\<exists>s'. destruct_ref v s = Some s' \<and> objects s' = (objects s)(q := None) \<and> counting s' = (counting s)(v := None)
     \<and> (\<forall>p. safe s' p = (if map_option so_object (safe s p) = Some (Some q) then Some null_ref else safe s p))"
proof -
  have r: "refs_to s q = {v}" using assms(2,3) unfolding refs_to_def by blast
  have inv: "safe_inv s" "count_inv s" using assms(1) by (simp_all add: ref_inv_def)
  obtain ob where ob: "objects s q = Some ob" using ref_inv_live(1)[OF assms(1,2)] by (auto simp: live_def)
  have "unat (ref_count ob) = 1" using inv(2) ob r by (simp add: count_inv_def)
  then have "ref_count ob = 1" by (metis unat_1 word_unat_eq_iff)
  with dec_ref_ok[OF inv(1) ob] obtain s1 where s1: "dec_ref (Some q) s = Some s1" "counting s1 = counting s" "objects s1 = (objects s)(q := None)"
    "safe s1 = (\<lambda>p. if p \<in> pointing s q then Some null_ref else safe s p)" by (metis (full_types))
  then show ?thesis using assms(2) by (simp add: destruct_ref_def pointing_iff del: map_option_eq_Some)
qed

text \<open>The state before the last counting pointer of the example goes.\<close>

definition demo_last :: "ref_store" where
  "demo_last = \<lparr>objects = [1 \<mapsto> \<lparr>first_object_ref = Some 20, ref_count = 1\<rparr>], counting = [11 \<mapsto> Some 1],
     safe = [20 \<mapsto> \<lparr>so_object = Some 1, prev_object_ref = None, next_object_ref = None\<rparr>]\<rparr>"

lemma demo_last_inv: "ref_inv demo_last"
proof -
  have "ref_legal_run [New_Object 1, New_Ref 11 (Some 1), New_Safe null_ref 20 (Some 1)] empty_store"
    "ref_run [New_Object 1, New_Ref 11 (Some 1), New_Safe null_ref 20 (Some 1)] empty_store = Some demo_last"
    by (simp_all add: ref_eval demo_last_def)
  then show ?thesis using refs.runs[OF empty_store_inv] by (metis option.inject)
qed

lemma demo_last_pointer: "counting demo_last 11 = Some (Some 1)" "\<forall>w. counting demo_last w = Some (Some 1) \<longrightarrow> w = 11"
  "map_option so_object (safe demo_last 20) = Some (Some 1)"
  by (simp_all add: demo_last_def)

theorem last_reference_deletes_witness:
  "\<exists>s'. destruct_ref 11 demo_last = Some s' \<and> objects s' 1 = None \<and> safe s' 20 = Some null_ref"
proof -
  obtain s' where "destruct_ref 11 demo_last = Some s'" "objects s' = (objects demo_last)(1 := None)"
      "\<forall>p. safe s' p = (if map_option so_object (safe demo_last p) = Some (Some 1) then Some null_ref else safe demo_last p)"
    using last_reference_deletes[OF demo_last_inv demo_last_pointer(1,2)] by metis
  then show ?thesis using demo_last_pointer(3) by simp
qed

text \<open>Assigning the last counting pointer to an object to itself, through \<^verbatim>\<open>operator=\<close>, follows a dangling pointer: the count
  goes down to zero and the object is deleted before the count is taken again.\<close>
theorem self_assignment_traps:
  assumes "ref_inv s" and "counting s v = Some (Some q)" and "\<forall>w. counting s w = Some (Some q) \<longrightarrow> w = v"
  shows "assign_ref_ptr v v s = None \<and> set_ref v (Some q) s = None"
proof -
  have "refs_to s q = {v}" using assms(2,3) unfolding refs_to_def by blast
  then obtain s1 where "dec_ref (Some q) s = Some s1" "objects s1 q = None"
    using drop_count[OF assms(1,2)] by metis
  then have "set_ref v (Some q) s = None" using assms(2) by (simp add: set_ref_def inc_ref_def)
  then show ?thesis using assms(2) by (simp add: assign_ref_ptr_def)
qed

theorem self_assignment_traps_witness: "assign_ref_ptr 11 11 demo_last = None"
  using self_assignment_traps[OF demo_last_inv demo_last_pointer(1,2)] by blast

end
