(* ===== verification/Slot_Chain.thy ===== *)
theory Slot_Chain
  imports Linked_List
begin

text \<open>
  Hash chains as the code walks them, with pointers to links: a \<^verbatim>\<open>node **\<close> is a \<open>slot\<close>, the address of a chain head or of the link
  of a node.  The chain lemmas see a table only through the contents of its slots.  The locale \<open>slot_store\<close> is what a table promises of
  reading and writing slots, and unlinking a node from its chain is proved from it once.
\<close>

datatype slot = Bucket uint32 | Next ptr

text \<open>\<^verbatim>\<open>while(!stop(*walk)) walk = &((*walk)->next_hash);\<close>\<close>

partial_function (option) seek :: "(ptr option \<Rightarrow> bool option) \<Rightarrow> slot \<Rightarrow> (slot \<Rightarrow> ptr option option) \<Rightarrow> slot option" where
  "seek stop walk r = do {
     v \<leftarrow> r walk;
     b \<leftarrow> stop v;
     if b then Some walk else (case v of None \<Rightarrow> None | Some p \<Rightarrow> seek stop (Next p) r) }"

text \<open>\<^verbatim>\<open>*walk != the_node\<close>\<close>

definition at_node :: "ptr \<Rightarrow> ptr option \<Rightarrow> bool option" where
  "at_node p v = Some (v = Some p)"

subsection \<open>Chains of slots\<close>

fun schain :: "(slot \<Rightarrow> ptr option option) \<Rightarrow> slot \<Rightarrow> ptr list \<Rightarrow> bool" where
  "schain r w [] \<longleftrightarrow> r w = Some None"
| "schain r w (p # ps) \<longleftrightarrow> r w = Some (Some p) \<and> schain r (Next p) ps"

fun linked :: "(slot \<Rightarrow> ptr option option) \<Rightarrow> slot \<Rightarrow> ptr list \<Rightarrow> bool" where
  "linked r w [] \<longleftrightarrow> True"
| "linked r w (p # ps) \<longleftrightarrow> r w = Some (Some p) \<and> linked r (Next p) ps"

definition after :: "slot \<Rightarrow> ptr list \<Rightarrow> slot" where
  "after w xs = (if xs = [] then w else Next (last xs))"

lemma after_simps [simp]: "after w [] = w" "after w (x # xs) = after (Next x) xs"
  by (simp_all add: after_def)

lemma after_cases: "after w xs = w \<or> (\<exists>x \<in> set xs. after w xs = Next x)"
  by (auto simp: after_def)

lemma schain_append: "schain r w (xs @ ys) \<longleftrightarrow> linked r w xs \<and> schain r (after w xs) ys"
  by (induction xs arbitrary: w) auto

lemma schain_other: "w \<noteq> w0 \<Longrightarrow> w0 \<notin> Next ` set ps \<Longrightarrow> schain (r(w0 := v)) w ps = schain r w ps"
  by (induction ps arbitrary: w) auto

lemma linked_other: "w0 \<noteq> w \<Longrightarrow> w0 \<notin> Next ` set ps \<Longrightarrow> linked (r(w0 := v)) w ps = linked r w ps"
  by (induction ps arbitrary: w) auto

lemma linked_last: "distinct xs \<Longrightarrow> w \<notin> Next ` set xs \<Longrightarrow> linked (r(after w xs := v)) w xs = linked r w xs"
proof (induction xs arbitrary: w)
  case (Cons x xs)
  show ?case
  proof (cases "xs = []")
    case False
    then have "after w (x # xs) \<noteq> w" using Cons.prems by (auto simp: after_def)
    then show ?thesis using Cons by auto
  qed (use Cons.prems in \<open>auto simp: after_def\<close>)
qed simp

lemma schain_splice:
  assumes "schain r (Bucket b) (xs @ ys)" "distinct (xs @ ys)" "p \<notin> set (xs @ ys)" and w: "w = after (Bucket b) xs"
  shows "schain (r(Next p := r w, w := Some (Some p))) (Bucket b) (xs @ p # ys)"
proof -
  have r: "linked r (Bucket b) xs" "schain r w ys" using assms by (simp_all add: schain_append)
  have wp: "w \<noteq> Next p" using assms by (auto simp: after_def)
  have "linked (r(Next p := r w, w := Some (Some p))) (Bucket b) xs"
    using linked_last[of xs "Bucket b" "r(Next p := r w)" "Some (Some p)"] linked_other[of "Next p" "Bucket b" xs r "r w"] r(1) assms(2,3)
    by (auto simp: w)
  moreover have "schain (r(Next p := r w, w := Some (Some p))) (Next p) ys"
  proof -
    have wy: "w \<notin> Next ` set ys" using assms(2) by (auto simp: w after_def disjoint_iff)
    have "schain (r(Next p := r w)) (Next p) ys"
      using r(2) assms(3) by (cases ys) (auto intro!: schain_other[THEN iffD2])
    then show ?thesis using schain_other[of "Next p" w ys] wp wy by simp
  qed
  ultimately show ?thesis by (simp add: schain_append w[symmetric])
qed

lemma schain_unlink:
  assumes "schain r (Bucket b) (xs @ p # ys)" "distinct (xs @ p # ys)" and w: "w = after (Bucket b) xs"
  shows "schain (r(w := r (Next p))) (Bucket b) (xs @ ys)"
proof -
  have r: "linked r (Bucket b) xs" "schain r (Next p) ys" using assms by (simp_all add: schain_append)
  have "w \<notin> Next ` set (p # ys)" using assms(2) by (auto simp: w after_def disjoint_iff)
  then have "schain (r(w := r (Next p))) w ys" using r(2) schain_other by (cases ys) auto
  moreover have "linked (r(w := r (Next p))) (Bucket b) xs" using linked_last[of xs "Bucket b"] r(1) assms(2) by (auto simp: w)
  ultimately show ?thesis by (simp add: schain_append w[symmetric])
qed

lemma seek_schain:
  assumes "schain r w (xs @ ys)" "\<And>x. x \<in> set xs \<Longrightarrow> stop (Some x) = Some False"
    "stop (case ys of [] \<Rightarrow> None | y # _ \<Rightarrow> Some y) = Some True"
  shows "seek stop w r = Some (after w xs)"
  using assms
proof (induction xs arbitrary: w)
  case Nil
  then show ?case by (cases ys) (auto simp: seek.simps)
next
  case (Cons x xs)
  then have "seek stop (Next x) r = Some (after (Next x) xs)" by auto
  with Cons.prems show ?case by (subst seek.simps) auto
qed

lemma schain_read: "schain r w (xs @ ys) \<Longrightarrow> r (after w xs) = Some (case ys of [] \<Rightarrow> None | y # _ \<Rightarrow> Some y)"
  unfolding schain_append by (cases ys) auto

lemma seek_eval:
  "r walk = Some v \<Longrightarrow> stop v = Some True \<Longrightarrow> seek stop walk r = Some walk"
  "r walk = Some (Some p) \<Longrightarrow> stop (Some p) = Some False \<Longrightarrow> seek stop walk r = seek stop (Next p) r"
  by (simp_all add: seek.simps[of stop walk r])

text \<open>All chains of a table; \<open>F\<close> gives the nodes of each.\<close>

definition chains :: "(slot \<Rightarrow> ptr option option) \<Rightarrow> uint32 \<Rightarrow> (uint32 \<Rightarrow> ptr list) \<Rightarrow> bool" where
  "chains r n F \<longleftrightarrow> (\<forall>b < n. schain r (Bucket b) (F b))"

lemma chainsD: "chains r n F \<Longrightarrow> b < n \<Longrightarrow> schain r (Bucket b) (F b)"
  by (simp add: chains_def)

definition separate :: "(uint32 \<Rightarrow> ptr list) \<Rightarrow> bool" where
  "separate F \<longleftrightarrow> (\<forall>b. distinct (F b)) \<and> (\<forall>b b'. b \<noteq> b' \<longrightarrow> set (F b) \<inter> set (F b') = {})"

lemma chains_splice:
  assumes ch: "chains r n F" and sep: "separate F" and F: "F b = xs @ ys" and p: "\<And>b. p \<notin> set (F b)" and b: "b < n" and w: "w = after (Bucket b) xs"
  shows "chains (r(Next p := r w, w := Some (Some p))) n (F(b := xs @ p # ys))"
proof -
  have "schain (r(Next p := r w, w := Some (Some p))) (Bucket b) (xs @ p # ys)"
  proof (rule schain_splice[OF _ _ _ w])
    show "schain r (Bucket b) (xs @ ys)" "distinct (xs @ ys)" using ch b F[symmetric] sep by (simp_all add: chains_def separate_def)
    show "p \<notin> set (xs @ ys)" using p[of b] F by simp
  qed
  moreover have "schain (r(Next p := r w, w := Some (Some p))) (Bucket b') (F b')" if b': "b' < n" "b' \<noteq> b" for b'
  proof -
    have "w \<noteq> Bucket b'" "w \<notin> Next ` set (F b')"
      using sep b'(2) F after_cases[of "Bucket b" xs] by (fastforce simp: w separate_def disjoint_iff)+
    moreover have "schain (r(Next p := r w)) (Bucket b') (F b')" by (subst schain_other) (use ch b'(1) p[of b'] in \<open>auto simp: chains_def\<close>)
    ultimately show ?thesis using schain_other by metis
  qed
  ultimately show ?thesis by (simp add: chains_def)
qed

lemma chains_unlink:
  assumes ch: "chains r n F" and sep: "separate F" and F: "F b = xs @ p # ys" and b: "b < n" and w: "w = after (Bucket b) xs"
  shows "chains (r(w := r (Next p))) n (F(b := xs @ ys))"
proof -
  have "schain (r(w := r (Next p))) (Bucket b) (xs @ ys)"
    by (rule schain_unlink[OF _ _ w]) (use ch b F[symmetric] sep in \<open>simp_all add: chains_def separate_def\<close>)
  moreover have "schain (r(w := r (Next p))) (Bucket b') (F b')" if b': "b' < n" "b' \<noteq> b" for b'
  proof -
    have "w \<noteq> Bucket b'" "w \<notin> Next ` set (F b')"
      using sep b'(2) F after_cases[of "Bucket b" xs] by (fastforce simp: w separate_def disjoint_iff)+
    then show ?thesis using ch b'(1) by (auto simp: chains_def schain_other)
  qed
  ultimately show ?thesis by (simp add: chains_def)
qed

lemma chains_other: "(\<And>b. p \<notin> set (F b)) \<Longrightarrow> chains (r(Next p := v)) n F = chains r n F"
  unfolding chains_def by (subst schain_other) auto

subsection \<open>Tables with slots\<close>

locale slot_store =
  fixes read :: "'s \<Rightarrow> slot \<Rightarrow> ptr option option" and write_to :: "slot \<Rightarrow> ptr option \<Rightarrow> 's \<Rightarrow> 's option" and same :: "'s \<Rightarrow> 's \<Rightarrow> bool"
  assumes write_ok: "read s w \<noteq> None \<Longrightarrow> \<exists>s'. write_to w v s = Some s' \<and> read s' = (read s)(w := Some v) \<and> same s s'"
begin

lemma unlink:
  assumes ch: "chains (read s) n F" and sep: "separate F" and F: "F b = xs @ p # ys" and b: "b < n" and v: "read s (Next p) = Some v"
    and stop: "stop (Some p) = Some True" "\<And>x. x \<noteq> p \<Longrightarrow> stop (Some x) = Some False"
  shows "\<exists>w s'. seek stop (Bucket b) (read s) = Some w \<and> w = after (Bucket b) xs \<and> write_to w v s = Some s'
     \<and> read s' = (read s)(w := Some v) \<and> same s s' \<and> chains (read s') n (F(b := xs @ ys))"
proof -
  let ?w = "after (Bucket b) xs"
  have sc: "schain (read s) (Bucket b) (xs @ p # ys)" using chainsD[OF ch b] F by simp
  have "p \<notin> set xs" using sep F by (auto simp: separate_def dest!: spec[of _ b])
  then have "seek stop (Bucket b) (read s) = Some ?w"
    using stop by (intro seek_schain[OF sc]) (metis, simp)
  moreover obtain s' where s': "write_to ?w v s = Some s'" "read s' = (read s)(?w := Some v)" "same s s'"
    using write_ok[of s ?w v] schain_read[OF sc] by auto
  moreover have "chains ((read s)(?w := read s (Next p))) n (F(b := xs @ ys))" by (rule chains_unlink[OF ch sep F b refl])
  ultimately show ?thesis using v by auto
qed

end

end
