(* ===== verification/Hash_Table_Array.thy ===== *)
theory Hash_Table_Array
  imports Slot_Chain Hash_Table_Flat
begin

text \<open>
  \<^verbatim>\<open>core/hash_table_array.h\<close>: an array of nodes for the order of the items, with hash chains through the same nodes for the search by key.
  The nodes live in a store; the table is one block of memory with the array in its first half and the chain heads in its
  second.  A \<^verbatim>\<open>node **\<close> is a \<open>slot\<close>, the address of a chain head or of the link of a node.  \<^verbatim>\<open>core/dictionary.h\<close> is this class at
  one key type.
\<close>

subsection \<open>The source\<close>

record ('k, 'v) hta_node =
  next_hash :: "ptr option"
  nd_index :: uint32
  nd_hash :: uint32
  hash_index :: uint32
  nd_key :: 'k
  nd_value :: 'v

text \<open>The block behind the two counters: \<open>slots ! i\<close> is \<^verbatim>\<open>array[i]\<close>, and \<^verbatim>\<open>hash_table\<close> points to \<^verbatim>\<open>array + table_size\<close>.\<close>

record ('k, 'v) hta =
  hta_size :: uint32
  hta_count :: uint32
  slots :: "ptr option list"
  hta_nodes :: "ptr \<rightharpoonup> ('k, 'v) hta_node"

definition hta_new :: "('k, 'v) hta" where
  "hta_new = \<lparr>hta_size = 0, hta_count = 0, slots = [None], hta_nodes = Map.empty\<rparr>"

fun read_slot :: "slot \<Rightarrow> ('k, 'v) hta \<Rightarrow> ptr option option" where
  "read_slot (Bucket b) s = load (slots s) (unat (hta_size s) + unat b)"
| "read_slot (Next p) s = map_option next_hash (hta_nodes s p)"

abbreviation rd :: "('k, 'v) hta \<Rightarrow> slot \<Rightarrow> ptr option option" where
  "rd s \<equiv> \<lambda>w. read_slot w s"

definition set_node :: "ptr \<Rightarrow> (('k, 'v) hta_node \<Rightarrow> ('k, 'v) hta_node) \<Rightarrow> ('k, 'v) hta \<Rightarrow> ('k, 'v) hta option" where
  "set_node p f s = do {
     n \<leftarrow> hta_nodes s p;
     Some (s\<lparr>hta_nodes := (hta_nodes s)(p \<mapsto> f n)\<rparr>) }"

fun write_slot :: "slot \<Rightarrow> ptr option \<Rightarrow> ('k, 'v) hta \<Rightarrow> ('k, 'v) hta option" where
  "write_slot (Bucket b) v s = do {
     m \<leftarrow> store (slots s) (unat (hta_size s) + unat b) v;
     Some (s\<lparr>slots := m\<rparr>) }"
| "write_slot (Next p) v s = set_node p (\<lambda>n. n\<lparr>next_hash := v\<rparr>) s"

text \<open>\<^verbatim>\<open>*walk != the_node\<close> and \<^verbatim>\<open>*walk && (*walk)->index < index\<close>.\<close>

definition at_index :: "uint32 \<Rightarrow> ('k, 'v) hta \<Rightarrow> ptr option \<Rightarrow> bool option" where
  "at_index i s v = (case v of None \<Rightarrow> Some True | Some p \<Rightarrow> map_option (\<lambda>n. \<not> nd_index n < i) (hta_nodes s p))"

definition remove_from_hash :: "ptr \<Rightarrow> ('k, 'v) hta \<Rightarrow> ('k, 'v) hta option" where
  "remove_from_hash p s = do {
     n \<leftarrow> hta_nodes s p;
     walk \<leftarrow> seek (at_node p) (Bucket (hash_index n)) (rd s);
     write_slot walk (next_hash n) s }"

definition splice :: "slot \<Rightarrow> ptr \<Rightarrow> ('k, 'v) hta \<Rightarrow> ('k, 'v) hta option" where
  "splice walk p s = do {
     v \<leftarrow> read_slot walk s;
     s' \<leftarrow> set_node p (\<lambda>n. n\<lparr>next_hash := v\<rparr>) s;
     write_slot walk (Some p) s' }"

definition insert_in_hash :: "('k \<Rightarrow> uint32) \<Rightarrow> ptr \<Rightarrow> ('k, 'v) hta \<Rightarrow> ('k, 'v) hta option" where
  "insert_in_hash hash p s = do {
     assert (hta_size s \<noteq> 0);
     s1 \<leftarrow> set_node p (\<lambda>n. n\<lparr>nd_hash := hash (nd_key n), hash_index := hash (nd_key n) mod hta_size s\<rparr>) s;
     n \<leftarrow> hta_nodes s1 p;
     walk \<leftarrow> seek (at_index (nd_index n) s1) (Bucket (hash_index n)) (rd s1);
     splice walk p s1 }"

text \<open>\<^verbatim>\<open>array[i] = array[i+1]; array[i]->index = i\<close> for \<open>i\<close> up to a limit, with the assertion of \<^verbatim>\<open>move_item_back\<close> where \<open>check\<close> is set.\<close>

definition renumber :: "bool \<Rightarrow> uint32 \<Rightarrow> ('k, 'v) hta \<Rightarrow> ('k, 'v) hta option" where
  "renumber check i s = do {
     v \<leftarrow> load (slots s) (unat (i + 1));
     m \<leftarrow> store (slots s) (unat i) v;
     p \<leftarrow> v;
     n \<leftarrow> hta_nodes s p;
     assert (check \<longrightarrow> nd_index n = i + 1);
     set_node p (\<lambda>n. n\<lparr>nd_index := i\<rparr>) (s\<lparr>slots := m\<rparr>) }"

partial_function (option) shift_down :: "bool \<Rightarrow> uint32 \<Rightarrow> uint32 \<Rightarrow> ('k, 'v) hta \<Rightarrow> ('k, 'v) hta option" where
  "shift_down check limit i s =
     (if i < limit then do { s' \<leftarrow> renumber check i s; shift_down check limit (i + 1) s' } else Some s)"

definition place :: "uint32 \<Rightarrow> ptr \<Rightarrow> ('k, 'v) hta \<Rightarrow> ('k, 'v) hta option" where
  "place i p s = do {
     m \<leftarrow> store (slots s) (unat i) (Some p);
     set_node p (\<lambda>n. n\<lparr>nd_index := i\<rparr>) (s\<lparr>slots := m\<rparr>) }"

definition array_node :: "uint32 \<Rightarrow> ('k, 'v) hta \<Rightarrow> ptr option" where
  "array_node i s = do { v \<leftarrow> load (slots s) (unat i); v }"

text \<open>The second half of \<^verbatim>\<open>move_item_back\<close>.\<close>

definition reorder_chain :: "ptr \<Rightarrow> uint32 \<Rightarrow> ('k, 'v) hta \<Rightarrow> ('k, 'v) hta option" where
  "reorder_chain p next_index s = do {
     n \<leftarrow> hta_nodes s p;
     (case next_hash n of None \<Rightarrow> Some s
      | Some q \<Rightarrow> do {
          nq \<leftarrow> hta_nodes s q;
          if nd_index nq < next_index then do {
            walk \<leftarrow> seek (at_node p) (Bucket (hash_index n)) (rd s);
            s1 \<leftarrow> write_slot walk (Some q) s;
            walk2 \<leftarrow> seek (at_index next_index s1) (Next q) (rd s1);
            splice walk2 p s1 }
          else Some s }) }"

definition move_item_back :: "uint32 \<Rightarrow> uint32 \<Rightarrow> ('k, 'v) hta \<Rightarrow> ('k, 'v) hta option" where
  "move_item_back index back_count s = do {
     assert (index < hta_count s);
     let next_index = index + back_count;
     if hta_count s \<le> next_index then Some s
     else do {
       p \<leftarrow> array_node index s;
       s1 \<leftarrow> shift_down True next_index index s;
       s2 \<leftarrow> place next_index p s1;
       reorder_chain p next_index s2 } }"

text \<open>The other direction; the code subtracts \<^verbatim>\<open>count\<close>, the number of items, where \<^verbatim>\<open>forward_count\<close> is meant.\<close>

definition renumber_up :: "uint32 \<Rightarrow> ('k, 'v) hta \<Rightarrow> ('k, 'v) hta option" where
  "renumber_up i s = do {
     p \<leftarrow> array_node (i - 1) s;
     n \<leftarrow> hta_nodes s p;
     assert (nd_index n = i - 1);
     place i p s }"

partial_function (option) shift_up :: "uint32 \<Rightarrow> uint32 \<Rightarrow> ('k, 'v) hta \<Rightarrow> ('k, 'v) hta option" where
  "shift_up limit i s =
     (if limit < i then do { s' \<leftarrow> renumber_up i s; shift_up limit (i - 1) s' } else Some s)"

partial_function (option) chain_before :: "ptr \<Rightarrow> ptr \<Rightarrow> ('k, 'v) hta \<Rightarrow> ptr option" where
  "chain_before p search s = do {
     n \<leftarrow> hta_nodes s search;
     if next_hash n = Some p then Some search
     else do { q \<leftarrow> next_hash n; chain_before p q s } }"

definition move_item_forward :: "uint32 \<Rightarrow> uint32 \<Rightarrow> ('k, 'v) hta \<Rightarrow> ('k, 'v) hta option" where
  "move_item_forward index forward_count s = do {
     assert (index < hta_count s);
     let next_index = index - hta_count s;
     p \<leftarrow> array_node index s;
     s1 \<leftarrow> shift_up next_index index s;
     s2 \<leftarrow> place next_index p s1;
     n \<leftarrow> hta_nodes s2 p;
     let remainder = next_hash n;
     walk \<leftarrow> seek (\<lambda>v. do { q \<leftarrow> v; nq \<leftarrow> hta_nodes s2 q; Some (\<not> nd_index nq < next_index) }) (Bucket (hash_index n)) (rd s2);
     v \<leftarrow> read_slot walk s2;
     if v = Some p then Some s2
     else do {
       s3 \<leftarrow> splice walk p s2;
       q \<leftarrow> v;
       search \<leftarrow> chain_before p q s3;
       set_node search (\<lambda>n. n\<lparr>next_hash := remainder\<rparr>) s3 } }"

definition set_item_index :: "uint32 \<Rightarrow> uint32 \<Rightarrow> ('k, 'v) hta \<Rightarrow> ('k, 'v) hta option" where
  "set_item_index item_index new_index s = do {
     assert (item_index < hta_count s);
     if item_index < new_index then move_item_back item_index (new_index - item_index) s
     else if new_index < item_index then move_item_forward item_index (item_index - new_index) s
     else Some s }"

definition set_item_key :: "('k \<Rightarrow> uint32) \<Rightarrow> uint32 \<Rightarrow> 'k \<Rightarrow> ('k, 'v) hta \<Rightarrow> ('k, 'v) hta option" where
  "set_item_key hash index new_key s = do {
     assert (index < hta_count s);
     p \<leftarrow> array_node index s;
     s1 \<leftarrow> remove_from_hash p s;
     s2 \<leftarrow> set_node p (\<lambda>n. n\<lparr>nd_key := new_key\<rparr>) s1;
     insert_in_hash hash p s2 }"

definition hta_next_match :: "uint32 \<Rightarrow> ('k, 'v) hta \<Rightarrow> uint32 option" where
  "hta_next_match index s = do {
     assert (index < hta_count s);
     p \<leftarrow> array_node index s;
     n \<leftarrow> hta_nodes s p;
     walk \<leftarrow> find_node next_hash (hta_nodes s) (\<lambda>w. nd_key w = nd_key n) (next_hash n);
     (case walk of None \<Rightarrow> Some (hta_count s) | Some q \<Rightarrow> map_option nd_index (hta_nodes s q)) }"

definition hta_remove :: "uint32 \<Rightarrow> ('k, 'v) hta \<Rightarrow> ('k, 'v) hta option" where
  "hta_remove index s = do {
     assert (index < hta_count s);
     p \<leftarrow> array_node index s;
     s1 \<leftarrow> remove_from_hash p s;
     s2 \<leftarrow> shift_down False (hta_count s1 - 1) index s1;
     Some (s2\<lparr>hta_count := hta_count s2 - 1, hta_nodes := (hta_nodes s2)(p := None)\<rparr>) }"

definition hta_find :: "('k \<Rightarrow> uint32) \<Rightarrow> 'k \<Rightarrow> ('k, 'v) hta \<Rightarrow> uint32 option" where
  "hta_find hash key s =
     (if hta_size s = 0 then Some 0
      else do {
        start \<leftarrow> load (slots s) (unat (hta_size s) + unat (hash key mod hta_size s));
        walk \<leftarrow> find_node next_hash (hta_nodes s) (\<lambda>n. nd_key n = key) start;
        (case walk of None \<Rightarrow> Some (hta_size s) | Some p \<Rightarrow> map_option nd_index (hta_nodes s p)) })"

definition table_insert :: "('k \<Rightarrow> uint32) \<Rightarrow> ptr \<Rightarrow> ('k, 'v) hta \<Rightarrow> (uint32 \<times> ('k, 'v) hta) option" where
  "table_insert hash p s = do {
     assert (hta_count s < hta_size s);
     s1 \<leftarrow> place (hta_count s) p s;
     s2 \<leftarrow> insert_in_hash hash p (s1\<lparr>hta_count := hta_count s1 + 1\<rparr>);
     n \<leftarrow> hta_nodes s2 p;
     Some (nd_index n, s2) }"

text \<open>Reallocation: the nodes go from the last to the first to the front of their new chains.  The loop counter is an \<^verbatim>\<open>int32\<close>.\<close>

fun rehash_nodes :: "nat \<Rightarrow> ptr option list \<Rightarrow> ('k, 'v) hta \<Rightarrow> ('k, 'v) hta option" where
  "rehash_nodes 0 old s = Some s"
| "rehash_nodes (Suc i) old s = do {
     v \<leftarrow> load old i;
     p \<leftarrow> v;
     n \<leftarrow> hta_nodes s p;
     let b = nd_hash n mod hta_size s;
     start \<leftarrow> load (slots s) (unat (hta_size s) + unat b);
     m1 \<leftarrow> store (slots s) (unat (hta_size s) + unat b) (Some p);
     m2 \<leftarrow> store m1 i (Some p);
     rehash_nodes i old (s\<lparr>slots := m2, hta_nodes := (hta_nodes s)(p \<mapsto> n\<lparr>hash_index := b, next_hash := start\<rparr>)\<rparr>) }"

definition check_size :: "uint32 \<Rightarrow> ('k, 'v) hta \<Rightarrow> ('k, 'v) hta option" where
  "check_size reserve_size s =
     (if hta_size s \<le> reserve_size then do {
        size \<leftarrow> next_larger_hash_prime reserve_size;
        rehash_nodes (nat (sint (hta_count s))) (slots s) (s\<lparr>hta_size := size, slots := replicate (unat (size * 2)) None\<rparr>) }
      else Some s)"

text \<open>\<^verbatim>\<open>_insert\<close> with the node at the fresh address \<open>p\<close>.\<close>

definition hta_insert :: "('k \<Rightarrow> uint32) \<Rightarrow> ptr \<Rightarrow> 'k \<Rightarrow> 'v \<Rightarrow> uint32 \<Rightarrow> ('k, 'v) hta \<Rightarrow> (uint32 \<times> ('k, 'v) hta) option" where
  "hta_insert hash p the_key the_value index s = do {
     s1 \<leftarrow> check_size (hta_count s + 1) s;
     let new_node = \<lparr>next_hash = None, nd_index = 0, nd_hash = 0, hash_index = 0, nd_key = the_key, nd_value = the_value\<rparr>;
     (ret, s2) \<leftarrow> table_insert hash p (s1\<lparr>hta_nodes := (hta_nodes s1)(p \<mapsto> new_node)\<rparr>);
     s3 \<leftarrow> (if index < hta_count s2 then set_item_index ret index s2 else Some s2);
     Some (ret, s3) }"

definition hta_reserve :: "uint32 \<Rightarrow> ('k, 'v) hta \<Rightarrow> ('k, 'v) hta option" where
  "hta_reserve cnt s = check_size cnt s"

text \<open>\<^verbatim>\<open>pointer\<close>: an index that is valid below the count.\<close>

definition hta_value :: "('k, 'v) hta \<Rightarrow> uint32 \<Rightarrow> 'v option option" where
  "hta_value s index =
     (if index < hta_count s then do { p \<leftarrow> array_node index s; n \<leftarrow> hta_nodes s p; Some (Some (nd_value n)) } else Some None)"

definition hta_key :: "('k, 'v) hta \<Rightarrow> uint32 \<Rightarrow> 'k option option" where
  "hta_key s index =
     (if index < hta_count s then do { p \<leftarrow> array_node index s; n \<leftarrow> hta_nodes s p; Some (Some (nd_key n)) } else Some None)"

definition hta_insert_unique :: "('k \<Rightarrow> uint32) \<Rightarrow> ptr \<Rightarrow> 'k \<Rightarrow> 'v \<Rightarrow> ('k, 'v) hta \<Rightarrow> (uint32 option \<times> ('k, 'v) hta) option" where
  "hta_insert_unique hash p key value s = do {
     i \<leftarrow> hta_find hash key s;
     if i < hta_count s then Some (None, s)
     else do { (r, s') \<leftarrow> hta_insert hash p key value (- 1) s; Some (Some r, s') } }"

lemma schain_chain:
  "schain (\<lambda>w. read_slot w s) w ps \<Longrightarrow> \<exists>v. read_slot w s = Some v \<and> chain next_hash (hta_nodes s) v ps"
proof (induction ps arbitrary: w)
  case (Cons p ps)
  from Cons.IH[of "Next p"] Cons.prems show ?case by (auto simp: chain_Cons)
qed simp

subsection \<open>The invariant\<close>

text \<open>A node without its link; \<open>same_data\<close> is a change of links only.\<close>

definition node_data :: "('k, 'v) hta_node \<Rightarrow> uint32 \<times> uint32 \<times> uint32 \<times> 'k \<times> 'v" where
  "node_data n = (nd_index n, nd_hash n, hash_index n, nd_key n, nd_value n)"

definition dat :: "('k, 'v) hta \<Rightarrow> ptr \<Rightarrow> (uint32 \<times> uint32 \<times> uint32 \<times> 'k \<times> 'v) option" where
  "dat s p = map_option node_data (hta_nodes s p)"

definition same_table :: "('k, 'v) hta \<Rightarrow> ('k, 'v) hta \<Rightarrow> bool" where
  "same_table s s' \<longleftrightarrow> hta_size s' = hta_size s \<and> hta_count s' = hta_count s \<and> length (slots s') = length (slots s)
     \<and> take (unat (hta_size s)) (slots s') = take (unat (hta_size s)) (slots s)"

definition same_data :: "('k, 'v) hta \<Rightarrow> ('k, 'v) hta \<Rightarrow> bool" where
  "same_data s s' \<longleftrightarrow> same_table s s' \<and> dat s' = dat s"

lemma same_data_trans: "same_data s t \<Longrightarrow> same_data t u \<Longrightarrow> same_data s u"
  by (simp add: same_data_def same_table_def)

lemma write_slot_ok:
  assumes "read_slot w s \<noteq> None"
  shows "\<exists>s'. write_slot w v s = Some s' \<and> rd s' = (rd s)(w := Some v) \<and> same_data s s'"
proof (cases w)
  case (Bucket b)
  let ?i = "unat (hta_size s) + unat b"
  have i: "?i < length (slots s)" using assms Bucket by (auto simp: load_def split: if_splits)
  let ?s = "s\<lparr>slots := (slots s)[?i := v]\<rparr>"
  have "read_slot x ?s = ((rd s)(w := Some v)) x" for x
  proof (cases x)
    case (Bucket b')
    then show ?thesis using i \<open>w = Bucket b\<close> by (cases "b' = b") (auto simp: load_def nth_list_update dest: word_unat_eq_iff[THEN iffD2])
  qed (use Bucket in simp)
  then show ?thesis using Bucket i by (auto simp: same_data_def same_table_def dat_def)
next
  case (Next p)
  then obtain n where n: "hta_nodes s p = Some n" using assms by auto
  let ?s = "s\<lparr>hta_nodes := (hta_nodes s)(p \<mapsto> n\<lparr>next_hash := v\<rparr>)\<rparr>"
  have "read_slot x ?s = ((rd s)(w := Some v)) x" for x by (cases x) (auto simp: Next)
  then show ?thesis using Next n by (auto simp: set_node_def same_data_def same_table_def node_data_def dat_def)
qed

interpretation hta_slots: slot_store "\<lambda>s w. read_slot w s" write_slot "same_data :: ('k, 'v) hta \<Rightarrow> ('k, 'v) hta \<Rightarrow> bool"
  by unfold_locales (rule write_slot_ok)

lemma splice_ok:
  assumes "read_slot w s \<noteq> None" "hta_nodes s p \<noteq> None"
  shows "\<exists>s'. splice w p s = Some s' \<and> rd s' = (rd s)(Next p := read_slot w s, w := Some (Some p)) \<and> same_data s s'"
proof -
  obtain v where v: "read_slot w s = Some v" using assms(1) by auto
  obtain s1 where s1: "write_slot (Next p) v s = Some s1" "rd s1 = (rd s)(Next p := Some v)" "same_data s s1"
    using write_slot_ok[of "Next p" s v] assms(2) by auto
  have "read_slot w s1 \<noteq> None" using fun_cong[OF s1(2), of w] v by (auto split: if_splits)
  then obtain s2 where "write_slot w (Some p) s1 = Some s2" "rd s2 = (rd s1)(w := Some (Some p))" "same_data s1 s2"
    using write_slot_ok by blast
  then show ?thesis using v s1 same_data_trans by (auto simp: splice_def)
qed

text \<open>A change of node data that keeps the links.\<close>

lemma set_node_ok:
  assumes "hta_nodes s p = Some n" "\<And>n. next_hash (f n) = next_hash n"
  shows "\<exists>s'. set_node p f s = Some s' \<and> rd s' = rd s \<and> same_table s s' \<and> dat s' = (dat s)(p \<mapsto> node_data (f n)) \<and> slots s' = slots s"
proof -
  let ?s = "s\<lparr>hta_nodes := (hta_nodes s)(p \<mapsto> f n)\<rparr>"
  have "read_slot x ?s = read_slot x s" for x by (cases x) (auto simp: assms)
  then show ?thesis using assms(1) by (auto simp: set_node_def same_table_def dat_def)
qed

text \<open>The nodes \<open>ps\<close> in the order of the array; each chain holds the nodes of its bucket in this order.\<close>

definition bucket_list :: "('k, 'v) hta \<Rightarrow> ptr list \<Rightarrow> uint32 \<Rightarrow> ptr list" where
  "bucket_list s ps b = filter (\<lambda>p. map_option (\<lambda>(i, h, hi, k, v). hi) (dat s p) = Some b) ps"

definition array_holds :: "('k, 'v) hta \<Rightarrow> ptr list \<Rightarrow> bool" where
  "array_holds s ps \<longleftrightarrow> length ps \<le> unat (hta_size s) \<and> take (length ps) (slots s) = map Some ps"

definition good_data :: "('k \<Rightarrow> uint32) \<Rightarrow> uint32 \<Rightarrow> (uint32 \<times> uint32 \<times> uint32 \<times> 'k \<times> 'v) option \<Rightarrow> nat \<Rightarrow> bool" where
  "good_data hash n d i \<longleftrightarrow> (\<exists>k v. d = Some (word_of_nat i, hash k, hash k mod n, k, v))"

definition hta_inv :: "('k \<Rightarrow> uint32) \<Rightarrow> ('k, 'v) hta \<Rightarrow> ptr list \<Rightarrow> bool" where
  "hta_inv hash s ps \<longleftrightarrow> distinct ps \<and> unat (hta_count s) = length ps \<and> array_holds s ps \<and> unat (hta_size s) < 2 ^ 31
     \<and> (hta_size s \<noteq> 0 \<longrightarrow> length (slots s) = 2 * unat (hta_size s))
     \<and> (\<forall>i < length ps. good_data hash (hta_size s) (dat s (ps ! i)) i) \<and> chains (rd s) (hta_size s) (bucket_list s ps)"

definition items :: "('k, 'v) hta \<Rightarrow> ptr list \<Rightarrow> ('k \<times> 'v) list" where
  "items s ps = map (\<lambda>p. case the (dat s p) of (i, h, hi, k, v) \<Rightarrow> (k, v)) ps"

lemma bucket_list_separate: "distinct ps \<Longrightarrow> separate (bucket_list s ps)"
  by (auto simp: separate_def bucket_list_def)

lemma hta_new_inv: "hta_inv hash hta_new []"
  by (simp add: hta_inv_def hta_new_def array_holds_def chains_def)

subsection \<open>Links\<close>

lemma same_data_bucket_list: "same_data s s' \<Longrightarrow> bucket_list s' = bucket_list s"
  by (simp add: bucket_list_def same_data_def fun_eq_iff)

lemma bucket_list_cong: "(\<And>p. p \<in> set ps \<Longrightarrow> dat s' p = dat s p) \<Longrightarrow> bucket_list s' ps = bucket_list s ps"
  unfolding bucket_list_def by (rule ext, rule filter_cong) simp_all

lemma same_data_size: "same_data s s' \<Longrightarrow> hta_size s' = hta_size s"
  by (simp add: same_data_def same_table_def)

lemma bucket_list_append: "bucket_list s (xs @ ys) b = bucket_list s xs b @ bucket_list s ys b"
  by (simp add: bucket_list_def)

lemma bucket_list_Cons:
  "hta_nodes s p = Some n \<Longrightarrow> bucket_list s (p # ps) b = (if hash_index n = b then p # bucket_list s ps b else bucket_list s ps b)"
  by (simp add: bucket_list_def node_data_def dat_def)

lemma bucket_list_insert:
  "hta_nodes s p = Some n \<Longrightarrow> hash_index n = b \<Longrightarrow>
   bucket_list s (as @ p # bs) = (bucket_list s (as @ bs))(b := bucket_list s as b @ p # bucket_list s bs b)"
  by (auto simp: bucket_list_append bucket_list_Cons)

lemma bucket_list_remove:
  "hta_nodes s p = Some n \<Longrightarrow> hash_index n = b \<Longrightarrow>
   bucket_list s (as @ bs) = (bucket_list s (as @ p # bs))(b := bucket_list s as b @ bucket_list s bs b)"
  by (auto simp: bucket_list_append bucket_list_Cons)

lemma bucket_list_subset: "set (bucket_list s ps b) \<subseteq> set ps"
  by (auto simp: bucket_list_def)

lemma unlink_chains:
  assumes ch: "chains (rd s) (hta_size s) (bucket_list s (as @ p # bs))" and d: "distinct (as @ p # bs)"
    and n: "hta_nodes s p = Some n" "hash_index n < hta_size s"
  shows "\<exists>w s'. seek (at_node p) (Bucket (hash_index n)) (rd s) = Some w \<and> w = after (Bucket (hash_index n)) (bucket_list s as (hash_index n))
     \<and> write_slot w (next_hash n) s = Some s' \<and> rd s' = (rd s)(w := Some (next_hash n))
     \<and> same_data s s' \<and> chains (rd s') (hta_size s') (bucket_list s' (as @ bs))"
proof -
  have F: "bucket_list s (as @ p # bs) (hash_index n) = bucket_list s as (hash_index n) @ p # bucket_list s bs (hash_index n)"
    using n(1) by (simp add: bucket_list_insert)
  have v: "read_slot (Next p) s = Some (next_hash n)" using n(1) by simp
  obtain w s' where s': "seek (at_node p) (Bucket (hash_index n)) (rd s) = Some w" "w = after (Bucket (hash_index n)) (bucket_list s as (hash_index n))"
      "write_slot w (next_hash n) s = Some s'" "rd s' = (rd s)(w := Some (next_hash n))" "same_data s s'"
      "chains (rd s') (hta_size s) ((bucket_list s (as @ p # bs))(hash_index n := bucket_list s as (hash_index n) @ bucket_list s bs (hash_index n)))"
    using hta_slots.unlink[OF ch bucket_list_separate[OF d] F n(2) v, of "at_node p"] by (auto simp: at_node_def)
  then show ?thesis using bucket_list_remove[OF n(1) refl, of as bs] same_data_bucket_list[OF s'(5)] same_data_size[OF s'(5)] by auto
qed

lemma remove_from_hash_ok:
  assumes "chains (rd s) (hta_size s) (bucket_list s (as @ p # bs))" "distinct (as @ p # bs)" "hta_nodes s p = Some n" "hash_index n < hta_size s"
  shows "\<exists>s'. remove_from_hash p s = Some s' \<and> same_data s s' \<and> chains (rd s') (hta_size s') (bucket_list s' (as @ bs))"
  using unlink_chains[OF assms] assms(3) by (auto simp: remove_from_hash_def)

lemma splice_chains:
  assumes ch: "chains (rd s) (hta_size s) (bucket_list s (as @ bs))" and d: "distinct (as @ p # bs)"
    and n: "hta_nodes s p = Some n" "hash_index n < hta_size s"
    and w: "w = after (Bucket (hash_index n)) (bucket_list s as (hash_index n))"
  shows "\<exists>s'. splice w p s = Some s' \<and> same_data s s' \<and> chains (rd s') (hta_size s') (bucket_list s' (as @ p # bs))"
proof -
  let ?b = "hash_index n"
  have F: "bucket_list s (as @ bs) ?b = bucket_list s as ?b @ bucket_list s bs ?b" by (rule bucket_list_append)
  have "schain (rd s) (Bucket ?b) (bucket_list s as ?b @ bucket_list s bs ?b)" using ch n(2) F by (auto simp: chains_def)
  from schain_read[OF this] have "read_slot w s \<noteq> None" by (simp add: w)
  then obtain s' where s': "splice w p s = Some s'" "rd s' = (rd s)(Next p := read_slot w s, w := Some (Some p))" "same_data s s'"
    using splice_ok[of w s p] n(1) by auto
  moreover have "chains ((rd s)(Next p := read_slot w s, w := Some (Some p))) (hta_size s) (bucket_list s (as @ p # bs))"
    by (subst bucket_list_insert[OF n(1) refl], rule chains_splice[OF ch bucket_list_separate F _ n(2) w])
      (use d bucket_list_subset[of s "as @ bs"] in auto)
  ultimately show ?thesis using same_data_bucket_list[OF s'(3)] same_data_size[OF s'(3)] by auto
qed

text \<open>The insertion point in the order of the indices.\<close>

definition indices :: "(uint32 \<Rightarrow> bool) \<Rightarrow> ('k, 'v) hta \<Rightarrow> ptr list \<Rightarrow> bool" where
  "indices P s xs \<longleftrightarrow> (\<forall>x \<in> set xs. \<exists>n. hta_nodes s x = Some n \<and> P (nd_index n))"

lemma indices_dat: "indices P s xs \<longleftrightarrow> (\<forall>x \<in> set xs. \<exists>d. dat s x = Some d \<and> P (fst d))"
  by (auto simp: indices_def node_data_def dat_def)

lemma indices_cong: "(\<And>x. x \<in> set xs \<Longrightarrow> dat s' x = dat s x) \<Longrightarrow> indices P s' xs = indices P s xs"
  by (simp add: indices_dat)

lemma indices_subset: "indices P s xs \<Longrightarrow> set ys \<subseteq> set xs \<Longrightarrow> indices P s ys"
  by (auto simp: indices_def)

lemma seek_index:
  assumes sc: "schain (rd s) w (xs @ ys)" and "indices (\<lambda>j. j < i) s xs" "indices (\<lambda>j. \<not> j < i) s ys"
  shows "seek (at_index i s) w (rd s) = Some (after w xs)"
proof (rule seek_schain[OF sc])
  show "at_index i s (Some x) = Some False" if "x \<in> set xs" for x
    using that assms(2) by (fastforce simp: at_index_def indices_def)
  show "at_index i s (case ys of [] \<Rightarrow> None | y # _ \<Rightarrow> Some y) = Some True"
    using assms(3) by (cases ys) (fastforce simp: at_index_def indices_def)+
qed

lemma insert_in_hash_ok:
  assumes ch: "chains (rd s) (hta_size s) (bucket_list s (as @ bs))" and d: "distinct (as @ p # bs)" and n: "hta_nodes s p = Some n"
    and size: "hta_size s \<noteq> 0" and idx: "indices (\<lambda>j. j < nd_index n) s as" "indices (\<lambda>j. \<not> j < nd_index n) s bs"
  shows "\<exists>s'. insert_in_hash hash p s = Some s' \<and> same_table s s'
     \<and> dat s' = (dat s)(p \<mapsto> (nd_index n, hash (nd_key n), hash (nd_key n) mod hta_size s, nd_key n, nd_value n))
     \<and> chains (rd s') (hta_size s') (bucket_list s' (as @ p # bs))"
proof -
  let ?b = "hash (nd_key n) mod hta_size s"
  let ?n = "n\<lparr>nd_hash := hash (nd_key n), hash_index := ?b\<rparr>"
  let ?f = "\<lambda>n. n\<lparr>nd_hash := hash (nd_key n), hash_index := hash (nd_key n) mod hta_size s\<rparr>"
  obtain s1 where s1: "set_node p ?f s = Some s1" "rd s1 = rd s" "same_table s s1" "dat s1 = (dat s)(p \<mapsto> node_data ?n)"
    using set_node_ok[OF n, of ?f] by auto
  have n1: "hta_nodes s1 p = Some ?n" using s1(1) n by (auto simp: set_node_def)
  have size1: "hta_size s1 = hta_size s" using s1(3) by (simp add: same_table_def)
  have bl: "bucket_list s1 xs = bucket_list s xs" if "p \<notin> set xs" for xs
    by (rule bucket_list_cong) (use that s1(4) in auto)
  have ix: "indices P s1 xs = indices P s xs" if "p \<notin> set xs" for P xs
    by (rule indices_cong) (use that s1(4) in auto)
  have ch1: "chains (rd s1) (hta_size s1) (bucket_list s1 (as @ bs))" using ch d by (simp add: s1(2) size1 bl)
  have b: "?b < hta_size s1" using size size1 by (simp add: word_mod_less_divisor word_gt_0)
  have "schain (rd s1) (Bucket ?b) (bucket_list s1 as ?b @ bucket_list s1 bs ?b)"
    using ch1 b by (simp add: chains_def bucket_list_append)
  moreover have "indices (\<lambda>j. j < nd_index n) s1 as" "indices (\<lambda>j. \<not> j < nd_index n) s1 bs"
    using idx d by (simp_all add: ix)
  ultimately have "seek (at_index (nd_index ?n) s1) (Bucket (hash_index ?n)) (rd s1) = Some (after (Bucket ?b) (bucket_list s1 as ?b))"
    by (auto intro!: seek_index intro: indices_subset[OF _ bucket_list_subset])
  moreover obtain s' where s': "splice (after (Bucket ?b) (bucket_list s1 as ?b)) p s1 = Some s'" "same_data s1 s'"
      "chains (rd s') (hta_size s') (bucket_list s' (as @ p # bs))"
    using splice_chains[OF ch1 d n1] b by auto
  ultimately have "insert_in_hash hash p s = Some s'" using size s1(1) n1 by (simp add: insert_in_hash_def)
  moreover have "same_table s s'" "dat s' = (dat s)(p \<mapsto> node_data ?n)"
    using s'(2) s1(3,4) by (simp_all add: same_data_def same_table_def)
  ultimately show ?thesis using s'(3) by (simp add: node_data_def)
qed

subsection \<open>The array\<close>

fun reindex :: "nat \<Rightarrow> ptr list \<Rightarrow> (ptr \<rightharpoonup> ('k, 'v) hta_node) \<Rightarrow> ptr \<rightharpoonup> ('k, 'v) hta_node" where
  "reindex i [] h = h"
| "reindex i (c # cs) h = reindex (i + 1) cs (h(c := map_option (\<lambda>n. n\<lparr>nd_index := word_of_nat i\<rparr>) (h c)))"

lemma reindex_other: "p \<notin> set cs \<Longrightarrow> reindex i cs h p = h p"
  by (induction cs arbitrary: i h) auto

lemma reindex_nth: "distinct cs \<Longrightarrow> j < length cs \<Longrightarrow> reindex i cs h (cs ! j) = map_option (\<lambda>n. n\<lparr>nd_index := word_of_nat (i + j)\<rparr>) (h (cs ! j))"
  by (induction cs arbitrary: i j h) (auto simp: nth_Cons reindex_other ac_simps split: nat.splits)

lemma reindex_link: "map_option next_hash (reindex i cs h p) = map_option next_hash (h p)"
  by (induction cs arbitrary: i h) (auto simp: option.map_comp comp_def)

lemma shift_down_ok:
  assumes "slots s = pre @ x # map Some cs @ post" "length pre = i" "i + length cs + 1 < 2 ^ 32" "distinct cs"
    "\<And>j. j < length cs \<Longrightarrow> \<exists>n. hta_nodes s (cs ! j) = Some n \<and> nd_index n = word_of_nat (i + 1 + j)"
  shows "\<exists>y. shift_down check (word_of_nat (i + length cs)) (word_of_nat i) s = Some (s\<lparr>slots := pre @ map Some cs @ y # post, hta_nodes := reindex i cs (hta_nodes s)\<rparr>)"
  using assms
proof (induction cs arbitrary: i pre x s)
  case Nil
  then have "s\<lparr>slots := pre @ x # post, hta_nodes := hta_nodes s\<rparr> = s" by simp
  then show ?case by (subst shift_down.simps) (auto intro!: exI[of _ x])
next
  case (Cons c cs)
  obtain n where n: "hta_nodes s c = Some n" "nd_index n = word_of_nat (i + 1)" using Cons.prems(5)[of 0] by auto
  have lt: "(word_of_nat i :: uint32) < word_of_nat (i + length (c # cs))"
    using Cons.prems(3) by (simp add: word_less_nat_alt unat_of_nat_small del: of_nat_add of_nat_Suc)
  have u1: "unat (word_of_nat i :: uint32) = i" by (rule unat_of_nat_small) (use Cons.prems(3) in simp)
  note u = u1 unat_next[OF lt, unfolded u1]
  let ?s = "s\<lparr>slots := pre @ Some c # Some c # map Some cs @ post, hta_nodes := (hta_nodes s)(c \<mapsto> n\<lparr>nd_index := word_of_nat i\<rparr>)\<rparr>"
  have rn: "renumber check (word_of_nat i) s = Some ?s"
    using Cons.prems(1,2) n u by (simp add: renumber_def load_def store_def set_node_def nth_append list_update_append add.commute)
  have "\<exists>m. hta_nodes ?s (cs ! j) = Some m \<and> nd_index m = word_of_nat (i + 1 + 1 + j)" if j: "j < length cs" for j
  proof -
    have "cs ! j \<noteq> c" using Cons.prems(4) j by auto
    then show ?thesis using Cons.prems(5)[of "Suc j"] j by simp
  qed
  then have "\<exists>y. shift_down check (word_of_nat (i + 1 + length cs)) (word_of_nat (i + 1)) ?s =
      Some (?s\<lparr>slots := (pre @ [Some c]) @ map Some cs @ y # post, hta_nodes := reindex (i + 1) cs (hta_nodes ?s)\<rparr>)"
    by (intro Cons.IH) (use Cons.prems(2,3,4) in simp_all)
  then show ?case using lt rn n(1) by (subst shift_down.simps) (simp add: add.commute)
qed

end
