(* ===== verification/Hash_Array_List.thy ===== *)
theory Hash_Array_List
  imports Simulation Hash_Table_Array
begin

text \<open>
  The array with hash chains implements a list of key and value pairs: searches, insertion with reallocation, removal, key changes
  and moves towards the end, each under the invariant \<open>hta_inv\<close>, then for all sequences of operations; and the failure of moves
  towards the front.
\<close>

subsection \<open>Searches\<close>

lemma hta_inv_node:
  assumes "hta_inv hash s (as @ p # bs)"
  shows "\<exists>n. hta_nodes s p = Some n \<and> nd_index n = word_of_nat (length as) \<and> nd_hash n = hash (nd_key n)
     \<and> hash_index n = hash (nd_key n) mod hta_size s \<and> hash_index n < hta_size s"
proof -
  have "good_data hash (hta_size s) (dat s p) (length as)" using assms unfolding hta_inv_def by (auto dest!: spec[of _ "length as"])
  moreover have "0 < unat (hta_size s)" using assms by (auto simp: hta_inv_def array_holds_def)
  then have "m mod hta_size s < hta_size s" for m by (metis unat_0 word_less_nat_alt word_mod_less_divisor)
  ultimately show ?thesis by (auto simp: good_data_def dat_def node_data_def)
qed

lemma hta_inv_chain: "hta_inv hash s ps \<Longrightarrow> b < hta_size s \<Longrightarrow> schain (rd s) (Bucket b) (bucket_list s ps b)"
  by (simp add: hta_inv_def chains_def)

lemma hta_inv_small: "hta_inv hash s ps \<Longrightarrow> length ps < 2 ^ 31"
  by (auto simp: hta_inv_def array_holds_def)

lemma good_indices:
  assumes good: "\<And>j. j < length (as @ cs @ bs) \<Longrightarrow> good_data hash m (dat s ((as @ cs @ bs) ! j)) j" and small: "length (as @ cs @ bs) < 2 ^ 31"
    and i: "i = length as + length cs"
  shows "indices (\<lambda>j. j < word_of_nat i) s as" "indices (\<lambda>j. j < word_of_nat i) s cs" "indices (\<lambda>j. \<not> j < word_of_nat i) s bs"
proof -
  have *: "dat s ((as @ cs @ bs) ! j) = Some d \<Longrightarrow> fst d = word_of_nat j" "\<exists>d. dat s ((as @ cs @ bs) ! j) = Some d" if "j < length (as @ cs @ bs)" for j d
  proof -
    show "dat s ((as @ cs @ bs) ! j) = Some d \<Longrightarrow> fst d = word_of_nat j" "\<exists>d. dat s ((as @ cs @ bs) ! j) = Some d"
      using good[OF that] by (auto simp: good_data_def)
  qed
  have lt: "(word_of_nat j :: uint32) < word_of_nat i \<longleftrightarrow> j < i" if "j < length (as @ cs @ bs)" for j
    using small that i by (simp add: word_less_nat_alt unat_of_nat_small del: of_nat_add)
  have "\<exists>d. dat s x = Some d \<and> (fst d < word_of_nat i \<longleftrightarrow> j < i)" if "j < length (as @ cs @ bs)" "x = (as @ cs @ bs) ! j" for j x
    using *(1)[OF that(1)] *(2)[OF that(1)] lt[OF that(1)] that(2) by auto
  note D = this
  have "indices (\<lambda>j. (j < word_of_nat i) = P) s xs"
    if L: "\<forall>j < length xs. off + j < length (as @ cs @ bs) \<and> xs ! j = (as @ cs @ bs) ! (off + j) \<and> (off + j < i) = P" for xs off P
    unfolding indices_dat
  proof
    fix x assume "x \<in> set xs"
    then obtain j where j: "j < length xs" "x = xs ! j" by (auto simp: in_set_conv_nth)
    with D[of "off + j" x] L show "\<exists>d. dat s x = Some d \<and> (fst d < word_of_nat i) = P" by metis
  qed
  note E = this
  show "indices (\<lambda>j. j < word_of_nat i) s as" using E[of as 0 True] i by (simp add: nth_append)
  show "indices (\<lambda>j. j < word_of_nat i) s cs" using E[of cs "length as" True] i by (simp add: nth_append)
  show "indices (\<lambda>j. \<not> j < word_of_nat i) s bs" using E[of bs "length as + length cs" False] i by (simp add: nth_append)
qed

lemma hta_inv_indices:
  assumes "hta_inv hash s (as @ cs @ bs)" "i = length as + length cs"
  shows "indices (\<lambda>j. j < word_of_nat i) s as" "indices (\<lambda>j. j < word_of_nat i) s cs" "indices (\<lambda>j. \<not> j < word_of_nat i) s bs"
  using good_indices[of as cs bs hash "hta_size s" s i] assms hta_inv_small[OF assms(1)] unfolding hta_inv_def by blast+

lemma array_node_ok: "array_holds s (as @ p # bs) \<Longrightarrow> length as < 2 ^ 32 \<Longrightarrow> array_node (word_of_nat (length as)) s = Some p"
proof -
  assume a: "array_holds s (as @ p # bs)" "length as < 2 ^ 32"
  then have t: "take (length (as @ p # bs)) (slots s) = map Some (as @ p # bs)" by (simp add: array_holds_def)
  have len: "length as < length (slots s)" using arg_cong[OF t, of length] by simp
  have "slots s ! length as = Some p" using arg_cong[OF t, of "\<lambda>xs. xs ! length as"] len by (simp add: nth_append)
  then show ?thesis using a(2) len by (simp add: array_node_def unat_of_nat_small)
qed

lemma find_filter: "(\<And>x. x \<in> set xs \<Longrightarrow> P x \<Longrightarrow> Q x) \<Longrightarrow> find P (filter Q xs) = find P xs"
  by (induction xs) auto

lemma find_takeWhile: "find P xs = (if length (takeWhile (\<lambda>x. \<not> P x) xs) < length xs then Some (xs ! length (takeWhile (\<lambda>x. \<not> P x) xs)) else None)"
  by (induction xs) auto

text \<open>A search in the chain of a bucket for a key of that bucket sees every node of the array.\<close>

lemma find_in_bucket:
  assumes inv: "hta_inv hash s (as @ ps)" and sc: "schain (rd s) w (bucket_list s ps (hash k mod hta_size s))"
  shows "\<exists>start. read_slot w s = Some start
     \<and> find_node next_hash (hta_nodes s) (\<lambda>n. nd_key n = k) start = Some (find (\<lambda>p. nd_key (the (hta_nodes s p)) = k) ps)"
proof -
  obtain start where st: "read_slot w s = Some start" "chain next_hash (hta_nodes s) start (bucket_list s ps (hash k mod hta_size s))"
    using schain_chain[OF sc] by blast
  have "find (\<lambda>p. nd_key (the (hta_nodes s p)) = k) (bucket_list s ps (hash k mod hta_size s)) = find (\<lambda>p. nd_key (the (hta_nodes s p)) = k) ps"
    unfolding bucket_list_def
  proof (rule find_filter)
    fix x assume "x \<in> set ps" "nd_key (the (hta_nodes s x)) = k"
    moreover from this(1) obtain xs ys where "ps = xs @ x # ys" by (meson split_list)
    ultimately show "map_option (\<lambda>(i, h, hi, k, v). hi) (dat s x) = Some (hash k mod hta_size s)"
      using hta_inv_node[of hash s "as @ xs" x ys] inv by (auto simp: dat_def node_data_def)
  qed
  then show ?thesis using st find_node_chain[OF st(2), of "\<lambda>n. nd_key n = k"] by simp
qed

lemma items_nth:
  assumes "hta_inv hash s ps" "i < length ps"
  shows "\<exists>n. hta_nodes s (ps ! i) = Some n \<and> nd_index n = word_of_nat i \<and> items s ps ! i = (nd_key n, nd_value n)"
  using assms hta_inv_node[of hash s "take i ps" "ps ! i" "drop (Suc i) ps"] by (auto simp: id_take_nth_drop[symmetric] items_def dat_def node_data_def)

lemma items_append [simp]: "items s (xs @ ys) = items s xs @ items s ys"
  by (simp add: items_def)

lemma items_length [simp]: "length (items s ps) = length ps"
  by (simp add: items_def)

lemma find_items:
  fixes k :: 'k and s :: "('k, 'v) hta"
  assumes inv: "hta_inv hash s (as @ ps)"
  defines "i \<equiv> length (takeWhile (\<lambda>x. fst x \<noteq> k) (items s ps))"
  shows "find (\<lambda>p. nd_key (the (hta_nodes s p)) = k) ps = (if i < length ps then Some (ps ! i) else None)"
proof -
  have "map (\<lambda>p. nd_key (the (hta_nodes s p))) ps = map fst (items s ps)"
  proof (rule nth_equalityI; simp)
    fix j assume j: "j < length ps"
    from items_nth[OF inv, of "length as + j"] j show "nd_key (the (hta_nodes s (ps ! j))) = fst (items s ps ! j)"
      by (auto simp: nth_append)
  qed
  then have "length (takeWhile (\<lambda>k'. k' \<noteq> k) (map (\<lambda>p. nd_key (the (hta_nodes s p))) ps)) = i"
    by (simp add: i_def takeWhile_map comp_def)
  then have "i = length (takeWhile (\<lambda>p. nd_key (the (hta_nodes s p)) \<noteq> k) ps)" by (simp add: takeWhile_map comp_def)
  then show ?thesis by (simp add: find_takeWhile)
qed

lemma hta_find_ok:
  fixes k :: 'k and s :: "('k, 'v) hta"
  assumes inv: "hta_inv hash s ps"
  defines "i \<equiv> length (takeWhile (\<lambda>x. fst x \<noteq> k) (items s ps))"
  shows "hta_find hash k s = Some (if i < length ps then word_of_nat i else hta_size s)"
proof (cases "hta_size s = 0")
  case True
  then have "ps = []" using inv by (auto simp: hta_inv_def array_holds_def)
  then show ?thesis using True by (simp add: hta_find_def)
next
  case False
  then have "hash k mod hta_size s < hta_size s" by (simp add: word_mod_less_divisor word_gt_0)
  then have "schain (rd s) (Bucket (hash k mod hta_size s)) (bucket_list s ps (hash k mod hta_size s))" using inv by (simp add: hta_inv_def chains_def)
  from find_in_bucket[of hash s "[]" ps, OF _ this] inv obtain start where
    "read_slot (Bucket (hash k mod hta_size s)) s = Some start"
    "find_node next_hash (hta_nodes s) (\<lambda>n. nd_key n = k) start = Some (if i < length ps then Some (ps ! i) else None)"
    using find_items[of hash s "[]" ps k] i_def by auto
  moreover have "i < length ps \<Longrightarrow> map_option nd_index (hta_nodes s (ps ! i)) = Some (word_of_nat i)" using items_nth[OF inv, of i] by auto
  ultimately show ?thesis using False by (simp add: hta_find_def split del: if_split) (simp split: if_split)
qed

lemma hta_next_match_ok:
  assumes inv: "hta_inv hash s (as @ p # bs)"
  defines "k \<equiv> fst (items s (as @ p # bs) ! length as)"
  shows "hta_next_match (word_of_nat (length as)) s
     = Some (word_of_nat (length as + 1 + length (takeWhile (\<lambda>x. fst x \<noteq> k) (items s bs))))"
proof -
  let ?j = "length (takeWhile (\<lambda>x. fst x \<noteq> k) (items s bs))"
  obtain n where n: "hta_nodes s p = Some n" "hash_index n = hash (nd_key n) mod hta_size s" "hash_index n < hta_size s"
    using hta_inv_node[OF inv] by blast
  have k: "k = nd_key n" using items_nth[OF inv, of "length as"] n(1) by (auto simp: k_def)
  have "schain (rd s) (Bucket (hash_index n)) (bucket_list s as (hash_index n) @ p # bucket_list s bs (hash_index n))"
    using n(1) hta_inv_chain[OF inv n(3)] by (simp add: bucket_list_append bucket_list_Cons)
  then have "schain (rd s) (Next p) (bucket_list s bs (hash k mod hta_size s))" using n(2) k by (simp add: schain_append)
  from find_in_bucket[of hash s "as @ [p]" bs, OF _ this] inv n(1)
  have f: "find_node next_hash (hta_nodes s) (\<lambda>n. nd_key n = k) (next_hash n) = Some (if ?j < length bs then Some (bs ! ?j) else None)"
    using find_items[of hash s "as @ [p]" bs k] by auto
  have an: "array_node (word_of_nat (length as)) s = Some p"
    using inv hta_inv_small[OF inv] by (intro array_node_ok[of s as p bs]) (simp_all add: hta_inv_def)
  have cnt: "unat (hta_count s) = length (as @ p # bs)" using inv by (simp add: hta_inv_def)
  then have lt: "word_of_nat (length as) < hta_count s"
    using hta_inv_small[OF inv] by (simp add: word_less_nat_alt unat_of_nat_small)
  show ?thesis
  proof (cases "?j < length bs")
    case True
    then have "map_option nd_index (hta_nodes s (bs ! ?j)) = Some (word_of_nat (length as + 1 + ?j))"
      using items_nth[OF inv, of "length as + 1 + ?j"] by (auto simp: nth_append)
    then show ?thesis using f an n(1) lt True k by (simp add: hta_next_match_def)
  next
    case False
    then have "?j = length bs" using length_takeWhile_le[of "\<lambda>x. fst x \<noteq> k" "items s bs"] by simp
    moreover have "hta_count s = word_of_nat (length as + 1 + length bs)" using cnt by (intro word_eq_of_nat) simp
    ultimately show ?thesis using f an n(1) lt k by (simp add: hta_next_match_def)
  qed
qed

subsection \<open>Insertion\<close>

lemma nth_slots:
  assumes "array_holds s ps" "i < length ps"
  shows "i < length (slots s)" "slots s ! i = Some (ps ! i)"
proof -
  have t: "take (length ps) (slots s) = map Some ps" using assms(1) by (simp add: array_holds_def)
  show "i < length (slots s)" using arg_cong[OF t, of length] assms(2) by simp
  show "slots s ! i = Some (ps ! i)" using arg_cong[OF t, of "\<lambda>xs. xs ! i"] assms(2) by simp
qed

lemma array_holdsI:
  assumes "length ps \<le> unat (hta_size s)" "length ps \<le> length (slots s)" "\<And>i. i < length ps \<Longrightarrow> slots s ! i = Some (ps ! i)"
  shows "array_holds s ps"
  unfolding array_holds_def using assms by (auto intro!: nth_equalityI)

lemma same_table_holds: "same_table s s' \<Longrightarrow> array_holds s' ps = array_holds s ps"
proof -
  assume st: "same_table s s'"
  show ?thesis
  proof (cases "length ps \<le> unat (hta_size s)")
    case True
    then have "take (length ps) xs = take (length ps) (take (unat (hta_size s)) xs)" for xs :: "ptr option list" by (simp add: min_absorb1)
    moreover have "take (unat (hta_size s)) (slots s') = take (unat (hta_size s)) (slots s)" using st by (simp add: same_table_def)
    ultimately have "take (length ps) (slots s') = take (length ps) (slots s)" by metis
    then show ?thesis using st by (simp add: array_holds_def same_table_def)
  qed (use st in \<open>simp add: array_holds_def same_table_def\<close>)
qed

lemma dom_dat: "dom (dat s) = dom (hta_nodes s)"
  by (auto simp: dat_def)

lemma dom_rest: "dom (hta_nodes s) = {x. map_option snd (dat s x) \<noteq> None}"
  by (auto simp: dat_def)

lemma table_insert_ok:
  assumes inv: "hta_inv hash s ps" and p: "hta_nodes s p = None" and room: "length ps < unat (hta_size s)"
    and n0: "nd_key n0 = k" "nd_value n0 = v"
  shows "\<exists>s'. table_insert hash p (s\<lparr>hta_nodes := (hta_nodes s)(p \<mapsto> n0)\<rparr>) = Some (word_of_nat (length ps), s') \<and> hta_inv hash s' (ps @ [p])
     \<and> items s' (ps @ [p]) = items s ps @ [(k, v)] \<and> dom (hta_nodes s') = insert p (dom (hta_nodes s)) \<and> hta_size s' = hta_size s"
proof -
  note I = inv[unfolded hta_inv_def]
  have cnt: "hta_count s = word_of_nat (length ps)" using I by (intro word_eq_of_nat) simp
  have nz: "hta_size s \<noteq> 0" using room by auto
  have len: "length (slots s) = 2 * unat (hta_size s)" using I nz by simp
  have ucnt: "unat (hta_count s) = length ps" using I by simp
  have pn: "p \<notin> set ps"
  proof
    assume "p \<in> set ps"
    then obtain as bs where "ps = as @ p # bs" by (meson split_list)
    then show False using hta_inv_node[of hash s as p bs] inv p by auto
  qed
  let ?n = "n0\<lparr>nd_index := hta_count s\<rparr>"
  let ?sA = "s\<lparr>slots := (slots s)[length ps := Some p], hta_nodes := (hta_nodes s)(p \<mapsto> ?n), hta_count := hta_count s + 1\<rparr>"
  have pl: "place (hta_count s) p (s\<lparr>hta_nodes := (hta_nodes s)(p \<mapsto> n0)\<rparr>) = Some (?sA\<lparr>hta_count := hta_count s\<rparr>)"
    using len room ucnt by (simp add: place_def set_node_def)
  have rd: "rd ?sA = (rd s)(Next p := Some (next_hash n0))"
  proof
    fix w show "read_slot w ?sA = ((rd s)(Next p := Some (next_hash n0))) w"
      using room len by (cases w) (auto simp: load_def)
  qed
  have dA: "dat ?sA = (dat s)(p \<mapsto> node_data ?n)" by (auto simp: dat_def)
  have bl: "bucket_list ?sA ps = bucket_list s ps" by (rule bucket_list_cong) (use pn dA in auto)
  have ch: "chains (rd ?sA) (hta_size ?sA) (bucket_list ?sA (ps @ []))"
    unfolding rd bl append_Nil2 using I pn bucket_list_subset[of s ps] by (subst chains_other) auto
  have "indices P ?sA ps = indices P s ps" for P by (rule indices_cong) (use pn dA in auto)
  then have ix: "indices (\<lambda>j. j < nd_index ?n) ?sA ps"
    using hta_inv_indices(1)[of hash s ps "[]" "[]" "length ps"] inv cnt by simp
  obtain s' where s': "insert_in_hash hash p ?sA = Some s'" "same_table ?sA s'" "chains (rd s') (hta_size s') (bucket_list s' (ps @ p # []))"
      "dat s' = (dat ?sA)(p \<mapsto> (nd_index ?n, hash (nd_key ?n), hash (nd_key ?n) mod hta_size s, nd_key ?n, nd_value ?n))"
    using insert_in_hash_ok[OF ch, of p ?n hash] ix nz pn I by (auto simp: indices_def)
  have d': "dat s' = (dat s)(p \<mapsto> (word_of_nat (length ps), hash k, hash k mod hta_size s, k, v))"
    using s'(4) dA cnt n0 by simp
  then have "dat s' p = Some (word_of_nat (length ps), hash k, hash k mod hta_size s, k, v)" by simp
  then obtain n' where n': "hta_nodes s' p = Some n'" "nd_index n' = word_of_nat (length ps)"
    by (auto simp: dat_def node_data_def)
  have ah: "array_holds ?sA (ps @ [p])"
    by (rule array_holdsI) (use room len I nth_slots[of s ps] in \<open>auto simp: nth_append nth_list_update\<close>)
  have sz: "hta_size s' = hta_size s" "hta_count s' = hta_count s + 1" "length (slots s') = length (slots s)" using s'(2) by (simp_all add: same_table_def)
  have "unat (hta_count s + 1) = length ps + 1" using room ucnt unat_next[of "hta_count s" "hta_size s"] by (simp add: word_less_nat_alt)
  moreover have "good_data hash (hta_size s) (dat s' ((ps @ [p]) ! i)) i" if "i < length (ps @ [p])" for i
    using that I pn d' by (cases "i = length ps") (auto simp: nth_append good_data_def)
  ultimately have "hta_inv hash s' (ps @ [p])"
    unfolding hta_inv_def using s'(3) ah same_table_holds[OF s'(2)] sz I pn len by simp
  moreover have "items s' (ps @ [p]) = items s ps @ [(k, v)]" using pn d' by (auto simp: items_def)
  moreover have "dom (hta_nodes s') = insert p (dom (hta_nodes s))" using arg_cong[OF d', of dom] by (simp add: dom_dat)
  moreover have "table_insert hash p (s\<lparr>hta_nodes := (hta_nodes s)(p \<mapsto> n0)\<rparr>) = Some (word_of_nat (length ps), s')"
    using room ucnt pl s'(1) n' by (simp add: table_insert_def word_less_nat_alt)
  ultimately show ?thesis using sz(1) by blast
qed

text \<open>The reallocation loop, with the nodes from \<open>i\<close> on in place.\<close>

definition rehashed :: "('k \<Rightarrow> uint32) \<Rightarrow> ('k, 'v) hta \<Rightarrow> ptr list \<Rightarrow> nat \<Rightarrow> bool" where
  "rehashed hash s ps i \<longleftrightarrow> length ps \<le> unat (hta_size s) \<and> length (slots s) = 2 * unat (hta_size s) \<and> unat (hta_size s) < 2 ^ 31 \<and> hta_size s \<noteq> 0
     \<and> (\<forall>j < length ps. i \<le> j \<longrightarrow> slots s ! j = Some (ps ! j) \<and> good_data hash (hta_size s) (dat s (ps ! j)) j)
     \<and> (\<forall>j < i. \<exists>hi k v. dat s (ps ! j) = Some (word_of_nat j, hash k, hi, k, v))
     \<and> chains (rd s) (hta_size s) (bucket_list s (drop i ps))"

lemma rehash_nodes_ok:
  assumes "rehashed hash s ps i" "i \<le> length ps" "distinct ps" "take (length ps) old = map Some ps"
  shows "\<exists>s'. rehash_nodes i old s = Some s' \<and> rehashed hash s' ps 0 \<and> items s' ps = items s ps \<and> dom (hta_nodes s') = dom (hta_nodes s)
     \<and> hta_size s' = hta_size s \<and> hta_count s' = hta_count s"
  using assms(1,2)
proof (induction i arbitrary: s)
  case (Suc i)
  note R = Suc.prems(1)[unfolded rehashed_def]
  let ?p = "ps ! i"
  have i: "i < length ps" "i < unat (hta_size s)" using Suc.prems R by simp_all
  obtain hi k v where d: "dat s ?p = Some (word_of_nat i, hash k, hi, k, v)" using R by blast
  then obtain n where n: "hta_nodes s ?p = Some n" "nd_hash n = hash k" "nd_key n = k" "nd_value n = v" "nd_index n = word_of_nat i"
    by (auto simp: dat_def node_data_def)
  let ?b = "hash k mod hta_size s"
  let ?B = "unat (hta_size s) + unat ?b"
  have b: "?b < hta_size s" using R by (simp add: word_mod_less_divisor word_gt_0)
  then have B: "?B < length (slots s)" using R by (simp add: word_less_nat_alt)
  let ?n = "n\<lparr>hash_index := ?b, next_hash := slots s ! ?B\<rparr>"
  let ?s = "s\<lparr>slots := (slots s)[?B := Some ?p, i := Some ?p], hta_nodes := (hta_nodes s)(?p \<mapsto> ?n)\<rparr>"
  have o: "load old i = Some (Some ?p)"
    using arg_cong[OF assms(4), of length] arg_cong[OF assms(4), of "\<lambda>xs. xs ! i"] i(1) by simp
  have step: "rehash_nodes (Suc i) old s = rehash_nodes i old ?s"
    using o n(1,2) B i(2) R by (simp add: Let_def)
  have rd: "rd ?s = (rd s)(Next ?p := read_slot (Bucket ?b) s, Bucket ?b := Some (Some ?p))"
  proof
    fix w show "read_slot w ?s = ((rd s)(Next ?p := read_slot (Bucket ?b) s, Bucket ?b := Some (Some ?p))) w"
    proof (cases w)
      case (Bucket b')
      have "unat b' \<noteq> unat ?b" if "b' \<noteq> ?b" using that word_unat_eq_iff by blast
      then show ?thesis using B i(2) Bucket by (auto simp: load_def nth_list_update)
    qed (use B in auto)
  qed
  have dA: "dat ?s = (dat s)(?p \<mapsto> (word_of_nat i, hash k, ?b, k, v))" using n by (auto simp: dat_def node_data_def)
  have pn: "?p \<notin> set (drop (Suc i) ps)" using assms(3) i(1) by (metis Cons_nth_drop_Suc distinct.simps(2) distinct_drop)
  have bl: "bucket_list ?s (drop i ps) = (bucket_list s (drop (Suc i) ps))(?b := [] @ ?p # bucket_list s (drop (Suc i) ps) ?b)"
  proof -
    have "bucket_list ?s (drop (Suc i) ps) = bucket_list s (drop (Suc i) ps)" by (rule bucket_list_cong) (use pn dA in auto)
    then show ?thesis using bucket_list_Cons[of ?s ?p ?n] i(1) by (auto simp: Cons_nth_drop_Suc[symmetric])
  qed
  have ch: "chains (rd ?s) (hta_size s) (bucket_list ?s (drop i ps))"
    unfolding rd bl by (rule chains_splice[of _ _ "bucket_list s (drop (Suc i) ps)"])
      (use R b pn bucket_list_separate[OF distinct_drop[OF assms(3)]] bucket_list_subset[of s "drop (Suc i) ps"] in auto)
  have "rehashed hash ?s ps i"
  proof -
    have "slots ?s ! j = Some (ps ! j)" if "j < length ps" "i \<le> j" for j
      using that R i B by (cases "j = i") (auto simp: nth_list_update)
    moreover have "good_data hash (hta_size s) (dat ?s (ps ! j)) j" if "j < length ps" "i \<le> j" for j
      using that R assms(3) i(1) unfolding dA by (cases "j = i") (auto simp: good_data_def nth_eq_iff_index_eq)
    moreover have "\<exists>hi k v. dat ?s (ps ! j) = Some (word_of_nat j, hash k, hi, k, v)" if "j < i" for j
      using that R assms(3) i(1) unfolding dA by (auto simp: nth_eq_iff_index_eq)
    ultimately show ?thesis using R ch by (simp add: rehashed_def)
  qed
  note IH = Suc.IH[OF this less_imp_le[OF i(1)]]
  have same: "items ?s ps = items s ps" "dom (hta_nodes ?s) = dom (hta_nodes s)" "hta_size ?s = hta_size s" "hta_count ?s = hta_count s"
    using dA d n(1) by (auto simp: items_def)
  show ?case using IH by (simp only: step same)
qed auto

lemma rehashed_inv:
  "rehashed hash s ps 0 \<Longrightarrow> distinct ps \<Longrightarrow> unat (hta_count s) = length ps \<Longrightarrow> hta_inv hash s ps"
  by (auto simp: rehashed_def hta_inv_def intro: array_holdsI)

lemma check_size_ok:
  assumes inv: "hta_inv hash s ps" and r: "unat reserve_size < 1610612741"
  shows "\<exists>s'. check_size reserve_size s = Some s' \<and> hta_inv hash s' ps \<and> items s' ps = items s ps \<and> dom (hta_nodes s') = dom (hta_nodes s)
     \<and> hta_count s' = hta_count s \<and> reserve_size < hta_size s'"
proof (cases "hta_size s \<le> reserve_size")
  case True
  note I = inv[unfolded hta_inv_def]
  obtain q where q: "next_larger_hash_prime reserve_size = Some q" "reserve_size < q" "unat q < 2 ^ 31" using next_larger_hash_prime_small[OF r] by blast
  let ?s = "s\<lparr>hta_size := q, slots := replicate (unat (q * 2)) None\<rparr>"
  have uq: "unat (q * 2) = 2 * unat q" using q(3) by (simp add: unat_word_ariths)
  have len: "length ps \<le> unat q" using I True q(2) by (simp add: array_holds_def word_le_nat_alt word_less_nat_alt)
  have cnt: "nat (sint (hta_count s)) = length ps"
  proof -
    have c: "unat (hta_count s) = length ps" "length ps < 2 ^ 31" using I hta_inv_small[OF inv] by simp_all
    then have u: "uint (hta_count s) = int (length ps)" by (metis of_nat_unat)
    have "sint (hta_count s) = uint (hta_count s)"
      unfolding sint_uint u by (rule signed_take_bit_int_eq_self) (use c(2) in simp_all)
    then show ?thesis using u by simp
  qed
  have "rehashed hash ?s ps (length ps)"
  proof -
    have "read_slot (Bucket b) ?s = Some None" if "b < q" for b using that uq by (simp add: load_def word_less_nat_alt)
    then have "chains (rd ?s) q (bucket_list ?s (drop (length ps) ps))" by (simp add: chains_def bucket_list_def)
    moreover have "\<exists>hi k v. dat ?s (ps ! j) = Some (word_of_nat j, hash k, hi, k, v)" if "j < length ps" for j
      using that I by (auto simp: good_data_def dat_def)
    ultimately show ?thesis using len uq q by (auto simp: rehashed_def)
  qed
  then obtain s' where s': "rehash_nodes (length ps) (slots s) ?s = Some s'" "rehashed hash s' ps 0" "items s' ps = items ?s ps"
      "dom (hta_nodes s') = dom (hta_nodes ?s)" "hta_size s' = q" "hta_count s' = hta_count s"
    using rehash_nodes_ok[of hash ?s ps "length ps" "slots s"] I by (auto simp: array_holds_def)
  moreover have "items ?s ps = items s ps" by (simp add: items_def dat_def)
  ultimately show ?thesis using True q(1,2) cnt rehashed_inv[of hash s' ps] I by (simp add: check_size_def)
qed (use inv in \<open>auto simp: check_size_def\<close>)

lemma hta_insert_ok:
  assumes inv: "hta_inv hash s ps" and p: "hta_nodes s p = None" and room: "length ps + 1 < 1610612741"
  shows "\<exists>s'. hta_insert hash p k v (- 1) s = Some (word_of_nat (length ps), s') \<and> hta_inv hash s' (ps @ [p])
     \<and> items s' (ps @ [p]) = items s ps @ [(k, v)] \<and> dom (hta_nodes s') = insert p (dom (hta_nodes s))"
proof -
  have cnt: "unat (hta_count s) = length ps" using inv by (simp add: hta_inv_def)
  then have uc: "unat (hta_count s + 1) = length ps + 1" using room by (simp add: unat_word_ariths)
  then obtain s1 where s1: "check_size (hta_count s + 1) s = Some s1" "hta_inv hash s1 ps" "items s1 ps = items s ps" "dom (hta_nodes s1) = dom (hta_nodes s)"
      "hta_count s + 1 < hta_size s1"
    using check_size_ok[OF inv, of "hta_count s + 1"] room by auto
  let ?n = "\<lparr>next_hash = None, nd_index = 0, nd_hash = 0, hash_index = 0, nd_key = k, nd_value = v\<rparr>"
  have "hta_nodes s1 p = None" using s1(4) p by (metis domIff)
  moreover have "length ps < unat (hta_size s1)" using s1(5) uc by (simp add: word_less_nat_alt)
  ultimately obtain s2 where s2: "table_insert hash p (s1\<lparr>hta_nodes := (hta_nodes s1)(p \<mapsto> ?n)\<rparr>) = Some (word_of_nat (length ps), s2)"
      "hta_inv hash s2 (ps @ [p])" "items s2 (ps @ [p]) = items s1 ps @ [(k, v)]" "dom (hta_nodes s2) = insert p (dom (hta_nodes s1))"
    using table_insert_ok[OF s1(2), of p ?n k v] by auto
  have "\<not> - 1 < hta_count s2" by (simp add: not_less)
  then show ?thesis using s1(1,3,4) s2 by (simp add: hta_insert_def Let_def)
qed

subsection \<open>Removal and reordering\<close>

text \<open>Chains and items do not depend on the indices.\<close>

lemma rest_cong:
  assumes "\<And>p. p \<in> set ps \<Longrightarrow> map_option snd (dat s' p) = map_option snd (dat s p)"
  shows "bucket_list s' ps = bucket_list s ps" "items s' ps = items s ps"
proof -
  have *: "map_option (\<lambda>(i, h, hi, k, v). hi) d = map_option (\<lambda>(h, hi, k, v). hi) (map_option snd d)"
    "(case the d of (i, h, hi, k, v) \<Rightarrow> (k, v)) = (case the (map_option snd d) of (h, hi, k, v) \<Rightarrow> (k, v))" if "d \<noteq> None"
    for d :: "(uint32 \<times> uint32 \<times> uint32 \<times> 'a \<times> 'b) option" using that by (auto split: prod.splits)
  have N: "dat s' p = None \<longleftrightarrow> dat s p = None" if "p \<in> set ps" for p using assms[OF that] by (metis map_option_is_None)
  have "map_option (\<lambda>(i, h, hi, k, v). hi) (dat s' p) = map_option (\<lambda>(i, h, hi, k, v). hi) (dat s p)" if "p \<in> set ps" for p
    using *(1)[of "dat s p"] *(1)[of "dat s' p"] N[OF that] assms[OF that] by (cases "dat s p = None") simp_all
  then show "bucket_list s' ps = bucket_list s ps" unfolding bucket_list_def by (intro ext filter_cong) simp_all
  have "(case the (dat s' p) of (i, h, hi, k, v) \<Rightarrow> (k, v)) = (case the (dat s p) of (i, h, hi, k, v) \<Rightarrow> (k, v))" if "p \<in> set ps" for p
    using *(2)[of "dat s p"] *(2)[of "dat s' p"] N[OF that] assms[OF that] by (cases "dat s p = None") simp_all
  then show "items s' ps = items s ps" by (simp add: items_def)
qed

lemma good_data_index:
  "map_option snd d' = map_option snd d \<Longrightarrow> map_option fst d' = Some (word_of_nat j) \<Longrightarrow> good_data hash n d i \<Longrightarrow> good_data hash n d' j"
  by (auto simp: good_data_def)

lemma array_holds_slots: "array_holds s ps \<Longrightarrow> \<exists>post. slots s = map Some ps @ post"
  unfolding array_holds_def by (metis append_take_drop_id)

lemma shift_phase:
  assumes ah: "array_holds s (as @ p # cs @ bs)" and d: "distinct cs" and len: "length (slots s) = 2 * unat (hta_size s)" and sz: "unat (hta_size s) < 2 ^ 31"
    and ix: "\<And>j. j < length cs \<Longrightarrow> map_option fst (dat s (cs ! j)) = Some (word_of_nat (length as + 1 + j))"
  shows "\<exists>s'. shift_down check (word_of_nat (length as + length cs)) (word_of_nat (length as)) s = Some s' \<and> rd s' = rd s
     \<and> hta_size s' = hta_size s \<and> hta_count s' = hta_count s \<and> length (slots s') = length (slots s)
     \<and> (\<exists>y. take (length as + 1 + length cs + length bs) (slots s') = map Some as @ map Some cs @ y # map Some bs)
     \<and> (\<forall>x. map_option snd (dat s' x) = map_option snd (dat s x)) \<and> (\<forall>x. x \<notin> set cs \<longrightarrow> dat s' x = dat s x)
     \<and> (\<forall>j < length cs. map_option fst (dat s' (cs ! j)) = Some (word_of_nat (length as + j)))"
proof -
  obtain post where sl: "slots s = map Some as @ Some p # map Some cs @ (map Some bs @ post)" using array_holds_slots[OF ah] by auto
  have fit: "length as + 1 + length cs + length bs \<le> unat (hta_size s)" using ah by (simp add: array_holds_def)
  have "\<exists>n. hta_nodes s (cs ! j) = Some n \<and> nd_index n = word_of_nat (length as + 1 + j)" if "j < length cs" for j
    using ix[OF that] by (auto simp: dat_def node_data_def)
  from shift_down_ok[OF sl, of "length as" check] this fit sz d obtain y where
    run: "shift_down check (word_of_nat (length as + length cs)) (word_of_nat (length as)) s =
       Some (s\<lparr>slots := map Some as @ map Some cs @ y # (map Some bs @ post), hta_nodes := reindex (length as) cs (hta_nodes s)\<rparr>)" by auto
  let ?s = "s\<lparr>slots := map Some as @ map Some cs @ y # (map Some bs @ post), hta_nodes := reindex (length as) cs (hta_nodes s)\<rparr>"
  have rd: "rd ?s = rd s"
  proof
    fix w show "read_slot w ?s = read_slot w s"
      using fit sl by (cases w) (auto simp: reindex_link load_def nth_append)
  qed
  have D: "dat ?s x = map_option node_data (reindex (length as) cs (hta_nodes s) x)" for x by (simp add: dat_def)
  have in_cs: "dat ?s (cs ! j) = map_option (\<lambda>d. (word_of_nat (length as + j), snd d)) (dat s (cs ! j))" if "j < length cs" for j
    unfolding D reindex_nth[OF d that] by (auto simp: dat_def node_data_def option.map_comp comp_def)
  have out: "dat ?s x = dat s x" if "x \<notin> set cs" for x using that by (simp add: D reindex_other dat_def)
  have "map_option snd (dat ?s x) = map_option snd (dat s x)" for x
  proof (cases "x \<in> set cs")
    case True
    then obtain j where "j < length cs" "x = cs ! j" by (auto simp: in_set_conv_nth)
    then show ?thesis using in_cs by (simp add: option.map_comp comp_def)
  qed (use out in simp)
  moreover have "map_option fst (dat ?s (cs ! j)) = Some (word_of_nat (length as + j))" if "j < length cs" for j
    unfolding in_cs[OF that] using ix[OF that] by (auto simp: option.map_comp comp_def)
  moreover have "take (length as + 1 + length cs + length bs) (slots ?s) = map Some as @ map Some cs @ y # map Some bs" by simp
  moreover have "length (slots ?s) = length (slots s)" "hta_size ?s = hta_size s" "hta_count ?s = hta_count s" by (simp_all add: sl)
  ultimately show ?thesis using run rd out by blast
qed

text \<open>The data after the nodes \<open>cs\<close> have moved down by one over \<open>p\<close>.\<close>

lemma good_moved:
  assumes d: "distinct (as @ p # cs @ bs)" and gd: "\<And>j. j < length (as @ p # cs @ bs) \<Longrightarrow> good_data hash m (f ((as @ p # cs @ bs) ! j)) j"
    and cs: "\<And>j. j < length cs \<Longrightarrow> map_option fst (f' (cs ! j)) = Some (word_of_nat (length as + j))"
      "\<And>x. x \<in> set cs \<Longrightarrow> map_option snd (f' x) = map_option snd (f x)"
    and out: "\<And>x. x \<noteq> p \<Longrightarrow> x \<notin> set cs \<Longrightarrow> f' x = f x" and j: "j < length (as @ cs @ p # bs)" "j \<noteq> length as + length cs"
  shows "good_data hash m (f' ((as @ cs @ p # bs) ! j)) j"
proof -
  consider "j < length as" | "length as \<le> j" "j < length as + length cs" | "length as + length cs < j" using j(2) by linarith
  then show ?thesis
  proof cases
    case 1
    then have "as ! j \<in> set as" by simp
    then have "as ! j \<noteq> p" "as ! j \<notin> set cs" using d by auto
    then show ?thesis using 1 gd[of j] out by (simp add: nth_append)
  next
    case 2
    let ?k = "j - length as"
    have k: "?k < length cs" using 2 by auto
    then show ?thesis using 2 gd[of "j + 1"] cs(1)[OF k] cs(2)[of "cs ! ?k"] j good_data_index[of "f' (cs ! ?k)" "f (cs ! ?k)" j hash m "j + 1"]
      by (simp add: nth_append Suc_diff_le)
  next
    case 3
    let ?k = "j - (length as + length cs) - 1"
    have k: "(as @ cs @ p # bs) ! j = bs ! ?k" "(as @ p # cs @ bs) ! j = bs ! ?k" "?k < length bs" using 3 j by (auto simp: nth_append nth_Cons')
    then have "bs ! ?k \<noteq> p" "bs ! ?k \<notin> set cs" using d nth_mem[OF k(3)] by auto
    then show ?thesis using k gd[of j] j out by simp
  qed
qed

lemma hta_remove_ok:
  assumes inv: "hta_inv hash s (as @ p # bs)"
  shows "\<exists>s'. hta_remove (word_of_nat (length as)) s = Some s' \<and> hta_inv hash s' (as @ bs) \<and> items s' (as @ bs) = items s (as @ bs)
     \<and> dom (hta_nodes s') = dom (hta_nodes s) - {p}"
proof -
  note I = inv[unfolded hta_inv_def]
  obtain n where n: "hta_nodes s p = Some n" "hash_index n < hta_size s" using hta_inv_node[OF inv] by blast
  have nz: "hta_size s \<noteq> 0" using n(2) by auto
  obtain s1 where s1: "remove_from_hash p s = Some s1" "same_data s s1" "chains (rd s1) (hta_size s1) (bucket_list s1 (as @ bs))"
    using remove_from_hash_ok[OF _ _ n] I by blast
  have st1: "same_table s s1" "dat s1 = dat s" using s1(2) by (simp_all add: same_data_def)
  have f1: "hta_size s1 = hta_size s" "hta_count s1 = hta_count s" "length (slots s1) = 2 * unat (hta_size s)"
    using st1(1) I nz by (simp_all add: same_table_def)
  have ah1: "array_holds s1 (as @ p # bs @ [])" using same_table_holds[OF st1(1)] I by simp
  have gd: "good_data hash (hta_size s) (dat s ((as @ p # bs) ! i)) i" if "i < length (as @ p # bs)" for i using I that by blast
  have "map_option fst (dat s1 (bs ! j)) = Some (word_of_nat (length as + 1 + j))" if "j < length bs" for j
    using gd[of "length as + 1 + j"] that by (auto simp: good_data_def st1(2) nth_append)
  then obtain s2 where s2: "shift_down False (word_of_nat (length as + length bs)) (word_of_nat (length as)) s1 = Some s2" "rd s2 = rd s1"
      "hta_size s2 = hta_size s" "hta_count s2 = hta_count s" "length (slots s2) = 2 * unat (hta_size s)"
      "\<exists>y. take (length as + 1 + length bs) (slots s2) = map Some as @ map Some bs @ [y]"
      "\<And>x. map_option snd (dat s2 x) = map_option snd (dat s x)" "\<And>x. x \<notin> set bs \<Longrightarrow> dat s2 x = dat s x"
      "\<And>j. j < length bs \<Longrightarrow> map_option fst (dat s2 (bs ! j)) = Some (word_of_nat (length as + j))"
    using shift_phase[OF ah1, of False] I f1 st1(2) by auto
  let ?s = "s2\<lparr>hta_count := hta_count s2 - 1, hta_nodes := (hta_nodes s2)(p := None)\<rparr>"
  have cnt: "unat (hta_count s) = length as + 1 + length bs" using I by simp
  have lim: "hta_count s1 - 1 = word_of_nat (length as + length bs)" "unat (hta_count s2 - 1) = length as + length bs"
  proof -
    have c: "unat (hta_count s - 1) = length as + length bs" using cnt by (simp add: unat_diff_32)
    show "hta_count s1 - 1 = word_of_nat (length as + length bs)" "unat (hta_count s2 - 1) = length as + length bs"
      using c word_eq_of_nat[OF c] f1(2) s2(4) by (simp_all del: of_nat_add)
  qed
  have "word_of_nat (length as) < hta_count s" using cnt hta_inv_small[OF inv] by (simp add: word_less_nat_alt unat_of_nat_small)
  then have run: "hta_remove (word_of_nat (length as)) s = Some ?s"
    using array_node_ok[of s as p bs] I hta_inv_small[OF inv] s1(1) s2(1) lim(1) by (simp add: hta_remove_def)
  have dat': "dat ?s x = dat s2 x" if "x \<noteq> p" for x using that by (simp add: dat_def)
  have pn: "p \<notin> set (as @ bs)" using I by simp
  have rest: "map_option snd (dat ?s x) = map_option snd (dat s x)" if "x \<in> set (as @ bs)" for x
  proof -
    have "x \<noteq> p" using that pn by auto
    then show ?thesis using dat' s2(7) by simp
  qed
  have bl: "bucket_list ?s (as @ bs) = bucket_list s (as @ bs)" "items ?s (as @ bs) = items s (as @ bs)"
    by (rule rest_cong; rule rest; assumption)+
  have rd': "rd ?s = (rd s2)(Next p := None)"
  proof
    fix w show "read_slot w ?s = ((rd s2)(Next p := None)) w" by (cases w) auto
  qed
  have ch: "chains (rd ?s) (hta_size s) (bucket_list ?s (as @ bs))"
    unfolding rd' bl(1) using s1(3) same_data_bucket_list[OF s1(2)] f1(1) s2(2) pn bucket_list_subset[of s "as @ bs"] by (subst chains_other) auto
  have "good_data hash (hta_size s) (dat ?s ((as @ bs) ! i)) i" if i: "i < length (as @ bs)" for i
  proof -
    have "(as @ bs @ p # []) ! i = (as @ bs) ! i" using i nth_append[of "as @ bs" "[p]" i] by simp
    moreover have "good_data hash (hta_size s) (dat ?s ((as @ bs @ p # []) ! i)) i"
    proof (rule good_moved[of as p bs "[]" hash "hta_size s" "dat s" "dat ?s"])
      show "map_option fst (dat ?s (bs ! j)) = Some (word_of_nat (length as + j))" if "j < length bs" for j
        using that s2(9)[OF that] dat'[of "bs ! j"] pn by (metis UnCI nth_mem set_append)
      show "map_option snd (dat ?s x) = map_option snd (dat s x)" if "x \<in> set bs" for x using rest that by simp
      show "dat ?s x = dat s x" if "x \<noteq> p" "x \<notin> set bs" for x using that dat' s2(8) by simp
    qed (use I gd i in auto)
    ultimately show ?thesis by simp
  qed
  moreover have "array_holds ?s (as @ bs)"
  proof -
    obtain y where y: "take (length as + 1 + length bs) (slots s2) = map Some as @ map Some bs @ [y]" using s2(6) by blast
    have "take (length (as @ bs)) (slots s2) = take (length (as @ bs)) (take (length as + 1 + length bs) (slots s2))" by simp
    also have "\<dots> = map Some (as @ bs)" unfolding y by simp
    finally show ?thesis using I s2(3) by (simp add: array_holds_def)
  qed
  ultimately have "hta_inv hash ?s (as @ bs)"
    unfolding hta_inv_def using ch s2(3,5) I lim(2) by simp
  moreover have "dom (hta_nodes s2) = dom (hta_nodes s)"
    unfolding dom_rest s2(7) ..
  ultimately show ?thesis using run bl(2) by auto
qed

lemma set_item_key_ok:
  assumes inv: "hta_inv hash s (as @ p # bs)"
  shows "\<exists>s'. set_item_key hash (word_of_nat (length as)) new_key s = Some s' \<and> hta_inv hash s' (as @ p # bs)
     \<and> items s' (as @ p # bs) = items s as @ (new_key, snd (items s (as @ p # bs) ! length as)) # items s bs \<and> dom (hta_nodes s') = dom (hta_nodes s)"
proof -
  note I = inv[unfolded hta_inv_def]
  obtain n where n: "hta_nodes s p = Some n" "nd_index n = word_of_nat (length as)" "hash_index n < hta_size s" using hta_inv_node[OF inv] by blast
  have nz: "hta_size s \<noteq> 0" using n(3) by auto
  have pn: "p \<notin> set (as @ bs)" using I by simp
  obtain s1 where s1: "remove_from_hash p s = Some s1" "same_data s s1" "chains (rd s1) (hta_size s1) (bucket_list s1 (as @ bs))"
    using remove_from_hash_ok[OF _ _ n(1,3)] I by blast
  then have d1: "same_table s s1" "dat s1 = dat s" by (simp_all add: same_data_def)
  then have "dat s1 p = Some (node_data n)" using n(1) by (simp add: dat_def)
  then obtain n1 where n1: "hta_nodes s1 p = Some n1" "node_data n1 = node_data n" by (auto simp: dat_def)
  then obtain s2 where s2: "set_node p (\<lambda>n. n\<lparr>nd_key := new_key\<rparr>) s1 = Some s2" "rd s2 = rd s1" "same_table s1 s2" "dat s2 = (dat s1)(p \<mapsto> node_data (n1\<lparr>nd_key := new_key\<rparr>))"
    using set_node_ok[OF n1(1), of "\<lambda>n. n\<lparr>nd_key := new_key\<rparr>"] by auto
  have n2: "hta_nodes s2 p = Some (n1\<lparr>nd_key := new_key\<rparr>)" using s2(1) n1(1) by (auto simp: set_node_def)
  have nx: "nd_index n1 = word_of_nat (length as)" "nd_value n1 = nd_value n" using n1(2) n(2) by (simp_all add: node_data_def)
  have sz: "hta_size s2 = hta_size s" "hta_size s1 = hta_size s" using d1(1) s2(3) by (simp_all add: same_table_def)
  have "bucket_list s2 (as @ bs) = bucket_list s1 (as @ bs)" by (rule bucket_list_cong) (use pn s2(4) in auto)
  then have ch2: "chains (rd s2) (hta_size s2) (bucket_list s2 (as @ bs))" using s1(3) s2(2) sz by simp
  have eq: "indices P s2 xs = indices P s xs" if "p \<notin> set xs" for P xs by (rule indices_cong) (use that s2(4) d1(2) in auto)
  have "indices (\<lambda>j. j < word_of_nat (length as)) s as" "indices (\<lambda>j. \<not> j < word_of_nat (length as)) s bs"
    using hta_inv_indices(1,3)[of hash s as "[]" "p # bs"] inv by (simp_all add: indices_def)
  then have ix: "indices (\<lambda>j. j < nd_index (n1\<lparr>nd_key := new_key\<rparr>)) s2 as" "indices (\<lambda>j. \<not> j < nd_index (n1\<lparr>nd_key := new_key\<rparr>)) s2 bs"
    using eq pn nx(1) by simp_all
  obtain s' where s': "insert_in_hash hash p s2 = Some s'" "same_table s2 s'" "chains (rd s') (hta_size s') (bucket_list s' (as @ p # bs))"
      "dat s' = (dat s2)(p \<mapsto> (word_of_nat (length as), hash new_key, hash new_key mod hta_size s, new_key, nd_value n))"
    using insert_in_hash_ok[OF ch2 _ n2 _ ix, of hash] I nz sz nx by auto
  have d': "dat s' = (dat s)(p \<mapsto> (word_of_nat (length as), hash new_key, hash new_key mod hta_size s, new_key, nd_value n))"
    using s'(4) s2(4) d1(2) by simp
  have st: "same_table s s'" using d1(1) s2(3) s'(2) by (simp add: same_table_def)
  have "good_data hash (hta_size s) (dat s' ((as @ p # bs) ! i)) i" if "i < length (as @ p # bs)" for i
  proof (cases "i = length as")
    case False
    have "(as @ p # bs) ! i \<noteq> (as @ p # bs) ! length as"
      using False that I nth_eq_iff_index_eq[of "as @ p # bs" i "length as"] by simp
    then show ?thesis using d' I that by simp
  qed (simp add: d' good_data_def)
  then have "hta_inv hash s' (as @ p # bs)"
    unfolding hta_inv_def using s'(3) I st same_table_holds[OF st] by (simp add: same_table_def)
  moreover have "word_of_nat (length as) < hta_count s" using I hta_inv_small[OF inv] by (simp add: word_less_nat_alt unat_of_nat_small)
  then have "set_item_key hash (word_of_nat (length as)) new_key s = Some s'"
    using array_node_ok[of s as p bs] I hta_inv_small[OF inv] s1(1) s2(1) s'(1) by (simp add: set_item_key_def)
  moreover have "items s' xs = items s xs" if "p \<notin> set xs" for xs using that d' by (auto simp: items_def)
  moreover have "items s' (p # bs) = (new_key, nd_value n) # items s' bs" "items s (p # bs) = (nd_key n, nd_value n) # items s bs"
    using d' n(1) by (simp_all add: items_def dat_def node_data_def)
  moreover have "dom (hta_nodes s') = dom (hta_nodes s)" using arg_cong[OF d', of dom] n(1) by (auto simp: dom_dat)
  ultimately show ?thesis using pn by (simp add: nth_append)
qed

text \<open>The second half of \<^verbatim>\<open>move_item_back\<close>: the node moves in its chain behind the nodes it moved over in the array.\<close>

lemma move_in_chain:
  assumes ch: "chains (rd s) (hta_size s) (bucket_list s (as @ p # cs @ bs))" and d: "distinct (as @ p # cs @ bs)"
    and n: "hta_nodes s p = Some n" "hash_index n < hta_size s" and ix: "indices (\<lambda>j. j < i) s cs" "indices (\<lambda>j. \<not> j < i) s bs"
  shows "\<exists>s'. reorder_chain p i s = Some s' \<and> same_data s s' \<and> chains (rd s') (hta_size s') (bucket_list s' (as @ cs @ p # bs))"
proof -
  let ?b = "hash_index n"
  let ?C = "bucket_list s cs ?b" and ?B = "bucket_list s bs ?b" and ?A = "bucket_list s as ?b"
  have "schain (rd s) (Bucket ?b) (?A @ p # ?C @ ?B)" using ch n by (auto simp: chains_def bucket_list_append bucket_list_Cons)
  from this[unfolded schain_append] have "schain (rd s) (Next p) (?C @ ?B)" by (simp add: schain_append)
  from schain_read[of _ _ "[]", simplified, OF this] have nx: "next_hash n = (case ?C @ ?B of [] \<Rightarrow> None | y # _ \<Rightarrow> Some y)" using n(1) by simp
  have sub: "set ?C \<subseteq> set cs" "set ?B \<subseteq> set bs" by (rule bucket_list_subset)+
  show ?thesis
  proof (cases ?C)
    case Nil
    have "bucket_list s (as @ cs @ p # bs) = bucket_list s (as @ p # cs @ bs)"
    proof
      fix b show "bucket_list s (as @ cs @ p # bs) b = bucket_list s (as @ p # cs @ bs) b"
        using Nil n(1) by (cases "b = ?b") (auto simp: bucket_list_append bucket_list_Cons)
    qed
    moreover have "case next_hash n of None \<Rightarrow> True | Some q \<Rightarrow> \<exists>nq. hta_nodes s q = Some nq \<and> \<not> nd_index nq < i"
      using nx Nil ix(2) sub(2) by (cases ?B) (auto simp: indices_def)
    moreover have "same_data s s" by (simp add: same_data_def same_table_def)
    ultimately show ?thesis using ch n(1) by (auto simp: reorder_chain_def split: option.splits)
  next
    case (Cons q zs)
    have q: "next_hash n = Some q" using nx Cons by simp
    have "q \<in> set cs" "set zs \<subseteq> set cs" using sub(1) Cons by auto
    obtain nq where nq: "hta_nodes s q = Some nq" "nd_index nq < i" using ix(1) \<open>q \<in> set cs\<close> by (auto simp: indices_def)
    obtain w s3 where s3: "seek (at_node p) (Bucket ?b) (rd s) = Some w" "write_slot w (Some q) s = Some s3" "same_data s s3"
        "chains (rd s3) (hta_size s3) (bucket_list s3 (as @ cs @ bs))"
      using unlink_chains[OF ch d n] q by auto
    have dat3: "dat s3 = dat s" and bl3: "bucket_list s3 = bucket_list s" and sz3: "hta_size s3 = hta_size s"
      using s3(3) same_data_bucket_list same_data_size by (auto simp: same_data_def)
    have "dat s3 p = Some (node_data n)" using dat3 n(1) by (simp add: dat_def)
    then obtain n3 where n3: "hta_nodes s3 p = Some n3" "hash_index n3 = ?b" by (auto simp: dat_def node_data_def)
    have "schain (rd s3) (Bucket ?b) ((?A @ [q]) @ zs @ ?B)" using chainsD[OF s3(4), of ?b] n(2) Cons by (simp add: bl3 sz3 bucket_list_append)
    then have sq: "schain (rd s3) (Next q) (zs @ ?B)" by (subst (asm) schain_append) (simp add: after_def)
    have eq: "indices P s3 xs = indices P s xs" for P xs by (rule indices_cong) (simp add: dat3)
    have sk: "seek (at_index i s3) (Next q) (rd s3) = Some (after (Next q) zs)"
      by (rule seek_index[OF sq]) (simp_all add: eq indices_subset[OF ix(1) \<open>set zs \<subseteq> set cs\<close>] indices_subset[OF ix(2) sub(2)])
    have "after (Next q) zs = after (Bucket ?b) (bucket_list s3 (as @ cs) ?b)" using Cons by (simp add: bl3 bucket_list_append after_def)
    then obtain s' where "splice (after (Next q) zs) p s3 = Some s'" "same_data s3 s'" "chains (rd s') (hta_size s') (bucket_list s' ((as @ cs) @ p # bs))"
      using splice_chains[of s3 "as @ cs" bs p n3] s3(4) d n3 n(2) sz3 by auto
    then show ?thesis using n(1) q nq s3 sk same_data_trans[OF s3(3)] by (auto simp: reorder_chain_def)
  qed
qed

lemma place_ok:
  assumes "i < unat (hta_size s)" "length (slots s) = 2 * unat (hta_size s)" "hta_nodes s p = Some n" "i < 2 ^ 32"
  shows "\<exists>s'. place (word_of_nat i) p s = Some s' \<and> rd s' = rd s \<and> slots s' = (slots s)[i := Some p] \<and> hta_size s' = hta_size s \<and> hta_count s' = hta_count s
     \<and> dat s' = (dat s)(p \<mapsto> (word_of_nat i, snd (node_data n))) \<and> hta_nodes s' p = Some (n\<lparr>nd_index := word_of_nat i\<rparr>)"
proof -
  let ?s = "s\<lparr>slots := (slots s)[i := Some p], hta_nodes := (hta_nodes s)(p \<mapsto> n\<lparr>nd_index := word_of_nat i\<rparr>)\<rparr>"
  have "read_slot w ?s = read_slot w s" for w using assms by (cases w) (auto simp: load_def)
  moreover have "dat ?s = (dat s)(p \<mapsto> (word_of_nat i, snd (node_data n)))" by (auto simp: dat_def node_data_def)
  moreover have "place (word_of_nat i) p s = Some ?s" using assms by (simp add: place_def set_node_def unat_of_nat_small)
  ultimately show ?thesis by auto
qed

lemma move_item_back_ok:
  assumes inv: "hta_inv hash s (as @ p # cs @ bs)"
  shows "\<exists>s'. move_item_back (word_of_nat (length as)) (word_of_nat (length cs)) s = Some s' \<and> hta_inv hash s' (as @ cs @ p # bs)
     \<and> items s' (as @ cs @ p # bs) = items s (as @ cs @ p # bs) \<and> dom (hta_nodes s') = dom (hta_nodes s)"
proof -
  note I = inv[unfolded hta_inv_def]
  let ?i = "length as + length cs" and ?old = "as @ p # cs @ bs" and ?new = "as @ cs @ p # bs"
  obtain n where n: "hta_nodes s p = Some n" "hash_index n < hta_size s" using hta_inv_node[OF inv] by blast
  have nz: "hta_size s \<noteq> 0" using n(2) by auto
  have small: "length ?old < 2 ^ 31" using hta_inv_small[OF inv] .
  have gd: "good_data hash (hta_size s) (dat s (?old ! j)) j" if "j < length ?old" for j using I that by blast
  have "map_option fst (dat s (cs ! j)) = Some (word_of_nat (length as + 1 + j))" if "j < length cs" for j
    using gd[of "length as + 1 + j"] that by (auto simp: good_data_def nth_append)
  then obtain s1 y where s1: "shift_down True (word_of_nat ?i) (word_of_nat (length as)) s = Some s1" "rd s1 = rd s" "hta_size s1 = hta_size s" "hta_count s1 = hta_count s"
      "length (slots s1) = 2 * unat (hta_size s)" "take (length as + 1 + length cs + length bs) (slots s1) = map Some as @ map Some cs @ y # map Some bs"
      "\<And>x. map_option snd (dat s1 x) = map_option snd (dat s x)" "\<And>x. x \<notin> set cs \<Longrightarrow> dat s1 x = dat s x"
      "\<And>j. j < length cs \<Longrightarrow> map_option fst (dat s1 (cs ! j)) = Some (word_of_nat (length as + j))"
    using shift_phase[of s as p cs bs True] I nz by auto
  have pcs: "p \<notin> set cs" using I by simp
  then have "dat s1 p = Some (node_data n)" using s1(8) n(1) by (simp add: dat_def)
  then obtain n1 where n1: "hta_nodes s1 p = Some n1" "node_data n1 = node_data n" by (auto simp: dat_def)
  have fit: "?i < unat (hta_size s)" using I by (simp add: array_holds_def)
  obtain s2 where s2: "place (word_of_nat ?i) p s1 = Some s2" "rd s2 = rd s" "slots s2 = (slots s1)[?i := Some p]" "hta_size s2 = hta_size s" "hta_count s2 = hta_count s"
      "dat s2 = (dat s1)(p \<mapsto> (word_of_nat ?i, snd (node_data n)))" "hta_nodes s2 p = Some (n1\<lparr>nd_index := word_of_nat ?i\<rparr>)"
    using place_ok[of ?i s1 p n1] s1(2,3,4,5) n1 fit small by auto
  have rest: "map_option snd (dat s2 x) = map_option snd (dat s x)" for x using s2(6) s1(7) n(1) by (simp add: dat_def)
  note cong = rest_cong[of _ s2 s, OF rest]
  have h2: "hash_index (n1\<lparr>nd_index := word_of_nat ?i\<rparr>) < hta_size s2" using n1(2) n(2) s2(4) by (simp add: node_data_def)
  have gd2: "good_data hash (hta_size s) (dat s2 (?new ! j)) j" if j: "j < length ?new" for j
  proof (cases "j = ?i")
    case True
    have "good_data hash (hta_size s) (dat s p) (length as)" using gd[of "length as"] by simp
    then show ?thesis using True s2(6) n(1) by (auto simp: nth_append good_data_def dat_def)
  next
    case False
    have "map_option fst (dat s2 (cs ! j)) = Some (word_of_nat (length as + j))" if "j < length cs" for j
      using s1(9)[OF that] s2(6) pcs nth_mem[OF that] by (metis fun_upd_apply)
    then show ?thesis using good_moved[of as p cs bs hash "hta_size s" "dat s" "dat s2" j] I gd rest s2(6) s1(8) j False by simp
  qed
  have ix: "indices (\<lambda>j. j < word_of_nat ?i) s2 cs" "indices (\<lambda>j. \<not> j < word_of_nat ?i) s2 (p # bs)"
    using good_indices[of as cs "p # bs" hash "hta_size s" s2 ?i] gd2 small by auto
  obtain s' where s': "reorder_chain p (word_of_nat ?i) s2 = Some s'" "same_data s2 s'" "chains (rd s') (hta_size s') (bucket_list s' ?new)"
    using move_in_chain[of s2 as p cs bs, OF _ _ s2(7) h2 ix(1)] ix(2) I s2(2,4) cong(1) by (auto simp: indices_def)
  have st: "same_table s2 s'" "dat s' = dat s2" using s'(2) by (simp_all add: same_data_def)
  have "take (length ?new) (slots s2) = (take (length ?new) (slots s1))[?i := Some p]" using s2(3) by (simp add: take_update_swap)
  also have "take (length ?new) (slots s1) = map Some as @ map Some cs @ y # map Some bs" using s1(6) by (simp add: add.assoc)
  finally have "array_holds s2 ?new" using I s2(4) by (simp add: array_holds_def list_update_append)
  then have "hta_inv hash s' ?new"
    unfolding hta_inv_def using same_table_holds[OF st(1)] st s'(3) gd2 I s2(3,4,5) s1(5) by (auto simp: same_table_def)
  moreover have "items s' ?new = items s ?new"
  proof -
    have "items s' ?new = items s2 ?new" by (rule rest_cong(2)) (simp add: st(2))
    then show ?thesis using cong(2) by metis
  qed
  moreover have "dom (hta_nodes s') = dom (hta_nodes s)" unfolding dom_rest st(2) rest ..
  moreover have "move_item_back (word_of_nat (length as)) (word_of_nat (length cs)) s = Some s'"
  proof -
    have "word_of_nat (length as) < hta_count s" "\<not> hta_count s \<le> word_of_nat ?i"
      using I small by (simp_all add: word_less_nat_alt word_le_nat_alt unat_of_nat_small del: of_nat_add)
    then show ?thesis using array_node_ok[of s as p "cs @ bs"] I small s1(1) s2(1,7) s'(1)
      by (simp add: move_item_back_def Let_def)
  qed
  ultimately show ?thesis by blast
qed

subsection \<open>Sequences of operations\<close>

datatype ('k, 'v) hta_op = Hta_Insert ptr 'k 'v | Hta_Remove uint32 | Hta_Set_Key uint32 'k | Hta_Move_Back uint32 uint32 | Hta_Reserve uint32

fun hta_exec :: "('k \<Rightarrow> uint32) \<Rightarrow> ('k, 'v) hta_op \<Rightarrow> ('k, 'v) hta \<Rightarrow> ('k, 'v) hta option" where
  "hta_exec hash (Hta_Insert p k v) s = map_option snd (hta_insert hash p k v (- 1) s)"
| "hta_exec hash (Hta_Remove i) s = hta_remove i s"
| "hta_exec hash (Hta_Set_Key i k) s = set_item_key hash i k s"
| "hta_exec hash (Hta_Move_Back i n) s = move_item_back i n s"
| "hta_exec hash (Hta_Reserve n) s = hta_reserve n s"

text \<open>What a client must keep: nodes at fresh addresses, indices in range and sizes below the third largest prime.\<close>

fun hta_legal :: "('k, 'v) hta_op \<Rightarrow> ('k, 'v) hta \<Rightarrow> bool" where
  "hta_legal (Hta_Insert p k v) s \<longleftrightarrow> hta_nodes s p = None \<and> unat (hta_count s) + 1 < 1610612741"
| "hta_legal (Hta_Remove i) s \<longleftrightarrow> i < hta_count s"
| "hta_legal (Hta_Set_Key i k) s \<longleftrightarrow> i < hta_count s"
| "hta_legal (Hta_Move_Back i n) s \<longleftrightarrow> i < hta_count s \<and> unat i + unat n < 2 ^ 32"
| "hta_legal (Hta_Reserve n) s \<longleftrightarrow> unat n < 1610612741"

abbreviation hta_run :: "('k \<Rightarrow> uint32) \<Rightarrow> ('k, 'v) hta_op list \<Rightarrow> ('k, 'v) hta \<Rightarrow> ('k, 'v) hta option" where
  "hta_run hash \<equiv> run_ops (hta_exec hash)"

abbreviation hta_legal_run :: "('k \<Rightarrow> uint32) \<Rightarrow> ('k, 'v) hta_op list \<Rightarrow> ('k, 'v) hta \<Rightarrow> bool" where
  "hta_legal_run hash \<equiv> legal_ops hta_legal (hta_exec hash)"

text \<open>The specification: a list of pairs.\<close>

fun list_exec :: "('k, 'v) hta_op \<Rightarrow> ('k \<times> 'v) list \<Rightarrow> ('k \<times> 'v) list" where
  "list_exec (Hta_Insert p k v) xs = xs @ [(k, v)]"
| "list_exec (Hta_Remove i) xs = take (unat i) xs @ drop (unat i + 1) xs"
| "list_exec (Hta_Set_Key i k) xs = xs[unat i := (k, snd (xs ! unat i))]"
| "list_exec (Hta_Move_Back i n) xs = (if unat i + unat n < length xs
     then take (unat i) xs @ take (unat n) (drop (unat i + 1) xs) @ xs ! unat i # drop (unat i + 1 + unat n) xs else xs)"
| "list_exec (Hta_Reserve n) xs = xs"

lemma split_at: "i < length ps \<Longrightarrow> \<exists>as p bs. ps = as @ p # bs \<and> length as = i"
  by (metis id_take_nth_drop length_take min.absorb4)

lemma items_Cons: "items s (p # ps) = hd (items s [p]) # items s ps"
  by (simp add: items_def)

lemma hta_step:
  assumes inv: "hta_inv hash s ps" and legal: "hta_legal op s"
  shows "\<exists>s' ps'. hta_exec hash op s = Some s' \<and> hta_inv hash s' ps' \<and> items s' ps' = list_exec op (items s ps)"
proof -
  have cnt: "unat (hta_count s) = length ps" using inv by (simp add: hta_inv_def)
  have at: "\<exists>as p bs. ps = as @ p # bs \<and> i = word_of_nat (length as) \<and> unat i = length as" if "i < hta_count s" for i
    using split_at[of "unat i" ps] that cnt by (metis word_eq_of_nat word_less_nat_alt)
  show ?thesis
  proof (cases op)
    case (Hta_Insert p k v)
    then obtain s' where "hta_insert hash p k v (- 1) s = Some (word_of_nat (length ps), s')" "hta_inv hash s' (ps @ [p])" "items s' (ps @ [p]) = items s ps @ [(k, v)]"
      using hta_insert_ok[OF inv, of p k v] legal cnt by auto
    then show ?thesis using Hta_Insert by (metis hta_exec.simps(1) list_exec.simps(1) option.simps(9) snd_conv)
  next
    case (Hta_Remove i)
    then obtain as p bs where ps: "ps = as @ p # bs" "i = word_of_nat (length as)" "unat i = length as" using at[of i] legal by auto
    then show ?thesis using hta_remove_ok[of hash s as p bs] inv Hta_Remove items_Cons[of s p bs] by (auto intro!: exI[of _ "as @ bs"])
  next
    case (Hta_Set_Key i k)
    then obtain as p bs where ps: "ps = as @ p # bs" "i = word_of_nat (length as)" "unat i = length as" using at[of i] legal by auto
    then show ?thesis using set_item_key_ok[of hash s as p bs k] inv Hta_Set_Key items_Cons[of s p bs]
      by (auto simp: list_update_append intro!: exI[of _ "as @ p # bs"])
  next
    case (Hta_Move_Back i n)
    then obtain as p ds where ps: "ps = as @ p # ds" "i = word_of_nat (length as)" "unat i = length as" using at[of i] legal by auto
    have un: "unat (i + n) = unat i + unat n" using legal Hta_Move_Back by (simp add: unat_word_ariths)
    show ?thesis
    proof (cases "unat i + unat n < length ps")
      case True
      let ?cs = "take (unat n) ds" and ?bs = "drop (unat n) ds"
      have n: "n = word_of_nat (length ?cs)" "length ?cs = unat n" using True ps by simp_all
      obtain s' where "move_item_back i n s = Some s'" "hta_inv hash s' (as @ ?cs @ p # ?bs)" "items s' (as @ ?cs @ p # ?bs) = items s (as @ ?cs @ p # ?bs)"
        using move_item_back_ok[of hash s as p ?cs ?bs] inv ps n by auto
      moreover have "items s ?cs = take (unat n) (items s ds)" "items s ?bs = drop (unat n) (items s ds)" by (simp_all add: items_def take_map drop_map)
      ultimately show ?thesis using Hta_Move_Back True ps items_Cons[of s p ds] items_Cons[of s p ?bs]
        by (auto simp: nth_append intro!: exI[of _ "as @ ?cs @ p # ?bs"])
    next
      case False
      then have "hta_count s \<le> i + n" using un cnt by (simp add: word_le_nat_alt)
      then show ?thesis using Hta_Move_Back False legal inv by (auto simp: move_item_back_def Let_def)
    qed
  next
    case (Hta_Reserve n)
    then show ?thesis using check_size_ok[OF inv, of n] legal by (auto simp: hta_reserve_def)
  qed
qed

interpretation hta_sim: simulation "hta_exec hash" hta_legal "\<lambda>s xs. \<exists>ps. hta_inv hash s ps \<and> items s ps = xs" list_exec for hash
  by unfold_locales (use hta_step in blast)

lemma hta_new_holds: "\<exists>ps. hta_inv hash hta_new ps \<and> items hta_new ps = []"
  using hta_new_inv by (auto simp: items_def)

lemma hta_read:
  assumes inv: "hta_inv hash s ps" and i: "i < length ps"
  shows "hta_value s (word_of_nat i) = Some (Some (snd (items s ps ! i)))" "hta_key s (word_of_nat i) = Some (Some (fst (items s ps ! i)))"
proof -
  obtain as p bs where ps: "ps = as @ p # bs" "length as = i" using split_at[OF i] by blast
  have "word_of_nat i < hta_count s" using inv i hta_inv_small[OF inv] by (simp add: hta_inv_def word_less_nat_alt unat_of_nat_small)
  moreover have "array_node (word_of_nat i) s = Some p" using array_node_ok[of s as p bs] inv ps hta_inv_small[OF inv] by (simp add: hta_inv_def)
  moreover obtain n where "hta_nodes s p = Some n" "items s ps ! i = (nd_key n, nd_value n)" using items_nth[OF inv i] ps by auto
  ultimately show "hta_value s (word_of_nat i) = Some (Some (snd (items s ps ! i)))" "hta_key s (word_of_nat i) = Some (Some (fst (items s ps ! i)))"
    by (simp_all add: hta_value_def hta_key_def)
qed

lemma map_of_takeWhile: "map_of xs k = (if length (takeWhile (\<lambda>x. fst x \<noteq> k) xs) < length xs then Some (snd (xs ! length (takeWhile (\<lambda>x. fst x \<noteq> k) xs))) else None)"
  by (induction xs) auto

lemma hta_lookup:
  assumes inv: "hta_inv hash s ps"
  shows "\<exists>r. hta_find hash k s = Some r \<and> hta_value s r = Some (map_of (items s ps) k)"
proof -
  let ?i = "length (takeWhile (\<lambda>x. fst x \<noteq> k) (items s ps))"
  have "\<not> hta_size s < hta_count s" using inv by (simp add: hta_inv_def array_holds_def word_less_nat_alt)
  then have "hta_value s (hta_size s) = Some None" by (simp add: hta_value_def)
  then show ?thesis using hta_find_ok[OF inv, of k] hta_read(1)[OF inv, of ?i] by (simp add: map_of_takeWhile)
qed

text \<open>C24. The array with hash chains implements a list of key and value pairs.  Every legal sequence of insertions, removals by index, key changes,
  moves towards the end and reservations runs without a trap; the items at the indices are then those of the list, a search for a key finds its first
  item in the order of the list or an invalid pointer, and \<^verbatim>\<open>next_match\<close> goes to the next item with the same key or to the end.\<close>
theorem hash_table_array_refines_list:
  fixes ops :: "('k, 'v) hta_op list"
  assumes "hta_legal_run hash ops hta_new"
  shows "\<exists>s. hta_run hash ops hta_new = Some s \<and> (let xs = fold list_exec ops [] in unat (hta_count s) = length xs
     \<and> (\<forall>i < length xs. hta_key s (word_of_nat i) = Some (Some (fst (xs ! i))) \<and> hta_value s (word_of_nat i) = Some (Some (snd (xs ! i))))
     \<and> (\<forall>k. \<exists>r. hta_find hash k s = Some r \<and> hta_value s r = Some (map_of xs k))
     \<and> (\<forall>i < length xs. hta_next_match (word_of_nat i) s
           = Some (word_of_nat (i + 1 + length (takeWhile (\<lambda>x. fst x \<noteq> fst (xs ! i)) (drop (i + 1) xs))))))"
proof -
  obtain s ps where s: "hta_run hash ops hta_new = Some s" "hta_inv hash s ps" "items s ps = fold list_exec ops []"
    using hta_sim.runs[OF hta_new_holds assms] by blast
  have "hta_next_match (word_of_nat i) s = Some (word_of_nat (i + 1 + length (takeWhile (\<lambda>x. fst x \<noteq> fst (items s ps ! i)) (drop (i + 1) (items s ps)))))"
    if i: "i < length ps" for i
  proof -
    obtain as p bs where ps: "ps = as @ p # bs" "length as = i" using split_at[OF i] by blast
    then show ?thesis using hta_next_match_ok[of hash s as p bs] s(2) items_Cons[of s p bs] by simp
  qed
  moreover have "unat (hta_count s) = length ps" using s(2) by (simp add: hta_inv_def)
  ultimately show ?thesis using s(1) hta_read[OF s(2)] hta_lookup[OF s(2)] by (auto simp: Let_def s(3)[symmetric])
qed

definition demo_hta_ops :: "(nat, string) hta_op list" where
  "demo_hta_ops = [Hta_Insert 10 1 ''a'', Hta_Insert 11 6 ''b'', Hta_Insert 12 1 ''c'', Hta_Move_Back 0 1, Hta_Set_Key 2 6, Hta_Remove 1]"

lemmas hta_eval = demo_hta_ops_def hta_new_def hta_insert_def check_size_def table_insert_def place_def insert_in_hash_def splice_def set_node_def
  move_item_back_def reorder_chain_def array_node_def set_item_key_def remove_from_hash_def hta_remove_def renumber_def at_node_def at_index_def
  next_larger_hash_prime_def hash_primes_def Let_def load_def store_def

lemma shift_down_eval:
  "\<not> i < limit \<Longrightarrow> shift_down check limit i s = Some s"
  "i < limit \<Longrightarrow> shift_down check limit i s = do { s' \<leftarrow> renumber check i s; shift_down check limit (i + 1) s' }"
  by (simp_all add: shift_down.simps[of check limit i s])

lemma list_eval:
  "\<not> (3 :: uint32) \<le> 1"
  "(x # xs)[numeral n := y] = x # xs[pred_numeral n := y]" "replicate 10 None = [None, None, None, None, None, None, None, None, None, None]"
  by (simp add: word_le_nat_alt) (simp_all add: numeral_eq_Suc)

lemma demo_hta_legal: "hta_legal_run word_of_nat demo_hta_ops hta_new"
  by (simp add: hta_eval seek_eval shift_down_eval list_eval)

theorem hash_table_array_refines_list_witness:
  "hta_legal_run word_of_nat demo_hta_ops hta_new \<and> (\<exists>s. hta_run word_of_nat demo_hta_ops hta_new = Some s
     \<and> fold list_exec demo_hta_ops [] = [(6, ''b''), (6, ''c'')] \<and> unat (hta_count s) = 2)"
proof -
  have xs: "fold list_exec demo_hta_ops [] = [(6, ''b''), (6, ''c'')]" by (simp add: demo_hta_ops_def)
  then show ?thesis using hash_table_array_refines_list[OF demo_hta_legal] demo_hta_legal by (auto simp: Let_def xs)
qed

subsection \<open>Moving items towards the front\<close>

lemma move_item_forward_traps:
  assumes inv: "hta_inv hash s ps" and i: "index < hta_count s" and size: "unat (hta_size s) \<le> 2 ^ 30"
  shows "move_item_forward index forward_count s = None"
proof -
  have cnt: "unat (hta_count s) = length ps" "length ps \<le> unat (hta_size s)" using inv by (simp_all add: hta_inv_def array_holds_def)
  have "0 < length ps" using i cnt by (cases ps) (auto simp: word_less_nat_alt)
  then have len: "length (slots s) = 2 * unat (hta_size s)" using inv by (auto simp: hta_inv_def array_holds_def)
  have "unat (index - hta_count s) = 2 ^ 32 + unat index - length ps"
    using i cnt by (simp add: unat_sub_if' word_le_nat_alt word_less_nat_alt)
  then have big: "length (slots s) \<le> unat (index - hta_count s)" "\<not> index - hta_count s < index"
    using len size cnt i by (simp_all add: word_less_nat_alt)
  then have "place (index - hta_count s) p s = None" for p by (simp add: place_def store_def)
  then show ?thesis using i big(2) by (cases "array_node index s") (simp_all add: move_item_forward_def shift_up.simps Let_def)
qed

text \<open>Moving an item towards the front does not work: for any item and distance the code writes far outside the array.  Inserting an item at an
  index that is in use, which inserts at the end and moves it to the front, fails the same way.\<close>
theorem move_forward_traps:
  assumes run: "hta_legal_run hash ops hta_new" "hta_run hash ops hta_new = Some s" and i: "index < hta_count s" and size: "unat (hta_size s) \<le> 2 ^ 30"
  shows "move_item_forward index forward_count s = None
    \<and> (hta_nodes s p = None \<longrightarrow> hta_count s + 1 < hta_size s \<longrightarrow> hta_insert hash p k v index s = None)"
proof (intro conjI impI)
  obtain ps where inv: "hta_inv hash s ps" using hta_sim.runs[OF hta_new_holds run(1)] run(2) by auto
  show "move_item_forward index forward_count s = None" by (rule move_item_forward_traps[OF inv i size])
  assume p: "hta_nodes s p = None" and room: "hta_count s + 1 < hta_size s"
  let ?n = "\<lparr>next_hash = None, nd_index = 0, nd_hash = 0, hash_index = 0, nd_key = k, nd_value = v\<rparr>"
  have cnt: "unat (hta_count s) = length ps" "hta_count s = word_of_nat (length ps)"
    using inv word_eq_of_nat[of "hta_count s" "length ps"] by (simp_all add: hta_inv_def)
  have small: "length ps < 2 ^ 31" using hta_inv_small[OF inv] .
  then have "unat (hta_count s + 1) = length ps + 1" using cnt(1) by (simp add: unat_word_ariths)
  then have "length ps < unat (hta_size s)" using room by (simp add: word_less_nat_alt)
  then obtain s2 where s2: "table_insert hash p (s\<lparr>hta_nodes := (hta_nodes s)(p \<mapsto> ?n)\<rparr>) = Some (word_of_nat (length ps), s2)"
      "hta_inv hash s2 (ps @ [p])" "hta_size s2 = hta_size s"
    using table_insert_ok[OF inv p, of ?n k v] by auto
  have c2: "unat (hta_count s2) = length ps + 1" using s2(2) by (simp add: hta_inv_def)
  have lt: "index < hta_count s2" "word_of_nat (length ps) < hta_count s2" "index < word_of_nat (length ps)" "\<not> word_of_nat (length ps) < index"
    using i c2 cnt(1) small by (simp_all add: word_less_nat_alt unat_of_nat_small)
  have "move_item_forward (word_of_nat (length ps)) (word_of_nat (length ps) - index) s2 = None"
    by (rule move_item_forward_traps[OF s2(2) lt(2)]) (use s2(3) size in simp)
  moreover have "\<not> hta_size s \<le> hta_count s + 1" using room by simp
  ultimately show "hta_insert hash p k v index s = None"
    using s2(1) lt by (simp add: hta_insert_def check_size_def set_item_index_def Let_def)
qed

theorem move_forward_traps_witness:
  "\<exists>s. hta_run word_of_nat demo_hta_ops hta_new = Some s \<and> hta_insert word_of_nat 13 7 ''d'' 0 s = None"
proof -
  obtain s where "hta_run word_of_nat demo_hta_ops hta_new = Some s" "hta_count s = 2" "hta_size s = 5" "hta_nodes s 13 = None"
    by (simp add: hta_eval seek_eval shift_down_eval list_eval)
  then show ?thesis using move_forward_traps[OF demo_hta_legal, of s 0 1 13 7 "''d''"] by simp
qed

end
