(* ===== verification/Counted.thy ===== *)
theory Counted
  imports Linked_List
begin

text \<open>
  Reference counts: variables \<open>X\<close> point to records \<open>D\<close> whose first component counts the variables that point to them.  One
  record, at the address \<open>n0\<close>, is a static one for empty values, whose count starts at half the range so that it is never freed.
  Both string classes of \<^verbatim>\<open>core\<close> count this way.
\<close>

definition counted :: "ptr \<Rightarrow> (ptr \<rightharpoonup> uint32 \<times> 'r) \<Rightarrow> (ptr \<rightharpoonup> ptr) \<Rightarrow> bool" where
  "counted n0 D X \<longleftrightarrow> finite (dom X) \<and> card (dom X) < 2 ^ 31 \<and> (\<forall>x p. X x = Some p \<longrightarrow> D p \<noteq> None)
     \<and> (\<forall>p r z. D p = Some (r, z) \<longrightarrow> unat r = (if p = n0 then 2 ^ 31 - 1 else 0) + card {x. X x = Some p})"

lemma counted_finite: "counted n0 D X \<Longrightarrow> finite {x. X x = Some p}"
  by (rule finite_subset[of _ "dom X"]) (auto simp: counted_def)

lemma counted_live: "counted n0 D X \<Longrightarrow> X x = Some p \<Longrightarrow> D p \<noteq> None"
  unfolding counted_def by blast

lemma counted_count: "counted n0 D X \<Longrightarrow> D p = Some (r, z) \<Longrightarrow> unat r = (if p = n0 then 2 ^ 31 - 1 else 0) + card {x. X x = Some p}"
  unfolding counted_def by blast

lemma counted_room:
  assumes "counted n0 D X" "X x = Some q"
  shows "card (dom (X(x := None))) + 1 < 2 ^ 31"
proof -
  have "finite (dom X)" "x \<in> dom X" "card (dom X) < 2 ^ 31" using assms by (auto simp: counted_def)
  then show ?thesis using card_Suc_Diff1[of "dom X" x] by simp
qed

lemma counted_new:
  assumes "counted n0 D X" "D p = None" "p \<noteq> n0"
  shows "counted n0 (D(p \<mapsto> (0, z))) X"
proof -
  have "X x \<noteq> Some p" for x using counted_live[OF assms(1)] assms(2) by metis
  then show ?thesis using assms unfolding counted_def by (auto split: if_splits)
qed

text \<open>A change of what is not counted.\<close>

lemma counted_cong: "counted n0 D X \<Longrightarrow> (\<And>p. map_option fst (D' p) = map_option fst (D p)) \<Longrightarrow> counted n0 D' X"
proof -
  assume ok: "counted n0 D X" and eq: "\<And>p. map_option fst (D' p) = map_option fst (D p)"
  have "unat r = (if p = n0 then 2 ^ 31 - 1 else 0) + card {x. X x = Some p}" if d: "D' p = Some (r, z)" for p r z
  proof -
    obtain z' where "D p = Some (r, z')" using eq[of p] d by (cases "D p") auto
    then show ?thesis using counted_count[OF ok] by blast
  qed
  moreover have "D' p \<noteq> None" if "X x = Some p" for x p using counted_live[OF ok that] eq[of p] by (cases "D' p") auto
  ultimately show ?thesis using ok unfolding counted_def by blast
qed

text \<open>One more variable points to a record.\<close>

lemma counted_take:
  assumes ok: "counted n0 D X" and p: "D p = Some (r, z)" and x: "X x = None" and n: "card (dom X) + 1 < 2 ^ 31"
  shows "counted n0 (D(p \<mapsto> (r + 1, z))) (X(x \<mapsto> p))"
proof -
  let ?X' = "X(x \<mapsto> p)" and ?D' = "D(p \<mapsto> (r + 1, z))"
  have fin: "finite (dom X)" using ok by (simp add: counted_def)
  have set: "{y. ?X' y = Some q} = (if q = p then insert x {y. X y = Some q} else {y. X y = Some q})" for q using x by auto
  have xn: "x \<notin> {y. X y = Some p}" using x by simp
  have "{y. X y = Some p} \<subseteq> dom X" by auto
  from card_mono[OF fin this] n have "card {y. X y = Some p} + 1 < 2 ^ 31" by simp
  then have "unat (r + 1) = (if p = n0 then 2 ^ 31 - 1 else 0) + card {y. X y = Some p} + 1"
    using counted_count[OF ok p] by (cases "p = n0") (simp_all add: unat_word_ariths)
  then have "unat r' = (if q = n0 then 2 ^ 31 - 1 else 0) + card {y. ?X' y = Some q}" if "?D' q = Some (r', z')" for q r' z'
    using that counted_finite[OF ok, of p] xn counted_count[OF ok, of q] unfolding set by (auto split: if_splits)
  moreover have "card (dom ?X') < 2 ^ 31" using n fin x by (simp add: card_insert_disjoint domIff)
  moreover have "?D' q \<noteq> None" if "?X' y = Some q" for y q using that counted_live[OF ok] by (auto split: if_splits)
  ultimately show ?thesis using fin unfolding counted_def by simp
qed

text \<open>A variable lets go of its record: the last one may free it, which is never the static one.\<close>

lemma counted_drop:
  assumes ok: "counted n0 D X" and x: "X x = Some p" and p: "D p = Some (r, z)"
  shows "counted n0 (D(p \<mapsto> (r - 1, z))) (X(x := None))" "r = 1 \<longleftrightarrow> p \<noteq> n0 \<and> {y. X y = Some p} = {x}"
    "r = 1 \<Longrightarrow> counted n0 (D(p := None)) (X(x := None))"
proof -
  note fin = counted_finite[OF ok]
  have xin: "x \<in> {y. X y = Some p}" using x by simp
  then have pos: "0 < card {y. X y = Some p}" using fin card_gt_0_iff by blast
  have set: "{y. (X(x := None)) y = Some q} = (if q = p then {y. X y = Some q} - {x} else {y. X y = Some q})" for q using x by auto
  note rc = counted_count[OF ok p]
  then have r1: "unat (r - 1) = unat r - 1" using pos by (simp add: unat_sub word_le_nat_alt)
  have dom: "finite (dom (X(x := None)))" "card (dom (X(x := None))) < 2 ^ 31" using ok card_Diff1_le[of "dom X" x] by (auto simp: counted_def)
  note rest = counted_count[OF ok]
  show one: "r = 1 \<longleftrightarrow> p \<noteq> n0 \<and> {y. X y = Some p} = {x}"
  proof -
    have "r = 1 \<longleftrightarrow> unat r = 1" by (metis unat_1 word_unat_eq_iff)
    also have "\<dots> \<longleftrightarrow> p \<noteq> n0 \<and> card {y. X y = Some p} = 1" using rc pos by auto
    also have "card {y. X y = Some p} = 1 \<longleftrightarrow> {y. X y = Some p} = {x}" using xin by (metis card_1_singletonE is_singletonI is_singleton_altdef singletonD)
    finally show ?thesis .
  qed
  have "unat r' = (if q = n0 then 2 ^ 31 - 1 else 0) + card {y. (X(x := None)) y = Some q}" if q: "(D(p \<mapsto> (r - 1, z))) q = Some (r', z')" for q r' z'
  proof (cases "q = p")
    case True
    then show ?thesis using q rc r1 pos fin[of p] xin unfolding set by (simp add: card_Diff_singleton)
  next
    case False
    then show ?thesis using q rest[of q r' z'] unfolding set by simp
  qed
  moreover have "(D(p \<mapsto> (r - 1, z))) q \<noteq> None" if "(X(x := None)) y = Some q" for y q using that counted_live[OF ok] by (auto split: if_splits)
  ultimately show "counted n0 (D(p \<mapsto> (r - 1, z))) (X(x := None))" unfolding counted_def using dom by blast
  show "counted n0 (D(p := None)) (X(x := None))" if "r = 1"
  proof -
    have "X y \<noteq> Some p" if "y \<noteq> x" for y using one \<open>r = 1\<close> that by auto
    then have "(D(p := None)) q \<noteq> None" if "(X(x := None)) y = Some q" for y q using that counted_live[OF ok] by (auto split: if_splits)
    moreover have "unat r' = (if q = n0 then 2 ^ 31 - 1 else 0) + card {y. (X(x := None)) y = Some q}" if q: "(D(p := None)) q = Some (r', z')" for q r' z'
    proof -
      have "q \<noteq> p" "D q = Some (r', z')" using q by (auto split: if_splits)
      then show ?thesis using rest[of q r' z'] unfolding set by simp
    qed
    ultimately show ?thesis unfolding counted_def using dom by blast
  qed
qed

end
