(* ===== verification/Indexed_String.thy ===== *)
theory Indexed_String
  imports Slot_Chain Counted Hash_Table_Flat
begin

text \<open>
  \<^verbatim>\<open>core/indexed_string.h\<close>: strings that are stored once in a table and compared by the address of their node or by an identifier that
  strings share when they differ in case only.  Nodes and string objects live in stores; the small block allocator is a source of fresh
  addresses for nodes.  Characters are bytes, \<^verbatim>\<open>tolower\<close> is the one of the C locale, and a \<^verbatim>\<open>char8\<close> is signed where it becomes a \<^verbatim>\<open>uint32\<close>.
\<close>

subsection \<open>The source\<close>

record str_node =
  sn_ref_count :: uint32
  sn_id :: uint32
  sn_next :: "ptr option"
  sn_hash :: uint32
  sn_len :: uint16
  sn_data :: "byte list"

record str_table =
  heads :: "ptr option list"
  st_size :: uint32
  st_entries :: uint32
  st_threshold :: uint32
  st_current_id :: uint32
  str_nodes :: "ptr \<rightharpoonup> str_node"
  str_vars :: "ptr \<rightharpoonup> ptr"

text \<open>The largest block less the size of a node on a machine with 32-bit pointers.\<close>

definition max_string_length :: nat where
  "max_string_length = 1536 - 20"

definition null_node :: str_node where
  "null_node = \<lparr>sn_ref_count = drop_bit 1 (- 1), sn_id = 0, sn_next = None, sn_hash = 0, sn_len = 0, sn_data = [0]\<rparr>"

text \<open>The static null node is at address 0 of the store.\<close>

definition null_addr :: ptr where
  "null_addr = 0"

definition str_init :: "str_table option" where
  "str_init = do {
     size \<leftarrow> next_larger_hash_prime 3;
     Some \<lparr>heads = replicate (unat size) None, st_size = size, st_entries = 0, st_threshold = drop_bit 1 size, st_current_id = 1,
       str_nodes = [null_addr \<mapsto> null_node], str_vars = Map.empty\<rparr> }"

definition tolower :: "byte \<Rightarrow> byte" where
  "tolower c = (if 65 \<le> c \<and> c \<le> 90 then c + 32 else c)"

datatype string_compare_result = Not_at_all_equal | Equal_in_the_case_insensitive_way | Totally_equal

fun compare_strings :: "string_compare_result \<Rightarrow> byte list \<Rightarrow> byte list \<Rightarrow> string_compare_result option" where
  "compare_strings result buffer [] = None"
| "compare_strings result [] (c2 # stored) = Some (if c2 \<noteq> 0 then Not_at_all_equal else result)"
| "compare_strings result (c1 # buffer) (c2 # stored) =
     (if c2 = 0 then Some Not_at_all_equal
      else if c1 = c2 then compare_strings result buffer stored
      else if tolower c1 \<noteq> tolower c2 then Some Not_at_all_equal
      else compare_strings Equal_in_the_case_insensitive_way buffer stored)"

definition hash_string_no_case :: "byte list \<Rightarrow> uint32" where
  "hash_string_no_case buffer = foldl (\<lambda>result c. (push_bit 4 result OR drop_bit 28 result) XOR scast (tolower c)) 0 buffer"

partial_function (option) find_walk :: "byte list \<Rightarrow> uint32 \<Rightarrow> bool \<Rightarrow> ptr option \<Rightarrow> (ptr \<rightharpoonup> str_node) \<Rightarrow> ptr option option" where
  "find_walk buffer hash full_match walk h = (case walk of None \<Rightarrow> Some None
     | Some p \<Rightarrow> do {
         n \<leftarrow> h p;
         if sn_hash n = hash then do {
           val \<leftarrow> compare_strings Totally_equal buffer (sn_data n);
           if val = Not_at_all_equal then find_walk buffer hash full_match (sn_next n) h
           else if full_match \<and> val = Totally_equal \<or> \<not> full_match then Some (Some p)
           else find_walk buffer hash full_match (sn_next n) h }
         else find_walk buffer hash full_match (sn_next n) h })"

definition str_find :: "byte list \<Rightarrow> bool \<Rightarrow> str_table \<Rightarrow> ptr option option" where
  "str_find buffer full_match t = do {
     let buf = take max_string_length buffer;
     let hash = hash_string_no_case buf;
     start \<leftarrow> load (heads t) (unat (hash mod st_size t));
     find_walk buf hash full_match start (str_nodes t) }"

text \<open>The links of the hash chains.\<close>

fun read_link :: "slot \<Rightarrow> str_table \<Rightarrow> ptr option option" where
  "read_link (Bucket b) t = load (heads t) (unat b)"
| "read_link (Next p) t = map_option sn_next (str_nodes t p)"

fun write_link :: "slot \<Rightarrow> ptr option \<Rightarrow> str_table \<Rightarrow> str_table option" where
  "write_link (Bucket b) v t = do {
     m \<leftarrow> store (heads t) (unat b) v;
     Some (t\<lparr>heads := m\<rparr>) }"
| "write_link (Next p) v t = do {
     n \<leftarrow> str_nodes t p;
     Some (t\<lparr>str_nodes := (str_nodes t)(p \<mapsto> n\<lparr>sn_next := v\<rparr>)\<rparr>) }"

text \<open>The loop of \<^verbatim>\<open>remove\<close> ends at the node or at the end of its chain.\<close>

definition str_remove :: "ptr \<Rightarrow> str_table \<Rightarrow> str_table option" where
  "str_remove p t = do {
     n \<leftarrow> str_nodes t p;
     walk \<leftarrow> seek (\<lambda>v. Some (v = None \<or> v = Some p)) (Bucket (sn_hash n mod st_size t)) (\<lambda>w. read_link w t);
     v \<leftarrow> read_link walk t;
     t1 \<leftarrow> (if v = Some p then write_link walk (sn_next n) t else Some t);
     Some (t1\<lparr>str_nodes := (str_nodes t1)(p := None), st_entries := st_entries t1 - 1\<rparr>) }"

definition node_reference_to_zero :: "ptr \<Rightarrow> str_table \<Rightarrow> str_table option" where
  "node_reference_to_zero p t = do {
     n \<leftarrow> str_nodes t p;
     assert (sn_ref_count n = 0);
     str_remove p t }"

text \<open>The search of \<^verbatim>\<open>insert\<close>: the node of the same text, or the identifier of a text that differs in case only.\<close>

partial_function (option) insert_walk :: "byte list \<Rightarrow> uint32 \<Rightarrow> ptr option \<Rightarrow> uint32 \<Rightarrow> (ptr \<rightharpoonup> str_node) \<Rightarrow> (ptr + uint32) option" where
  "insert_walk buffer hash walk string_id h = (case walk of None \<Rightarrow> Some (Inr string_id)
     | Some p \<Rightarrow> do {
         n \<leftarrow> h p;
         if sn_hash n = hash then do {
           val \<leftarrow> compare_strings Totally_equal buffer (sn_data n);
           (case val of
             Not_at_all_equal \<Rightarrow> insert_walk buffer hash (sn_next n) string_id h
           | Equal_in_the_case_insensitive_way \<Rightarrow> insert_walk buffer hash (sn_next n) (sn_id n) h
           | Totally_equal \<Rightarrow> Some (Inl p)) }
         else insert_walk buffer hash (sn_next n) string_id h })"

partial_function (option) move_chain :: "uint32 \<Rightarrow> ptr option \<Rightarrow> ptr option list \<Rightarrow> (ptr \<rightharpoonup> str_node) \<Rightarrow> (ptr option list \<times> (ptr \<rightharpoonup> str_node)) option" where
  "move_chain new_size chn new_heads h = (case chn of None \<Rightarrow> Some (new_heads, h)
     | Some p \<Rightarrow> do {
         n \<leftarrow> h p;
         let new_index = unat (sn_hash n mod new_size);
         v \<leftarrow> load new_heads new_index;
         new_heads' \<leftarrow> store new_heads new_index (Some p);
         move_chain new_size (sn_next n) new_heads' (h(p \<mapsto> n\<lparr>sn_next := v\<rparr>)) })"

primrec move_chains :: "uint32 \<Rightarrow> ptr option list \<Rightarrow> ptr option list \<Rightarrow> (ptr \<rightharpoonup> str_node) \<Rightarrow> (ptr option list \<times> (ptr \<rightharpoonup> str_node)) option" where
  "move_chains new_size [] new_heads h = Some (new_heads, h)"
| "move_chains new_size (c # cs) new_heads h = do {
     (new_heads', h') \<leftarrow> move_chain new_size c new_heads h;
     move_chains new_size cs new_heads' h' }"

definition str_resize :: "str_table \<Rightarrow> str_table option" where
  "str_resize t = do {
     new_size \<leftarrow> next_larger_hash_prime (st_size t);
     (new_heads, h) \<leftarrow> move_chains new_size (heads t) (replicate (unat new_size) None) (str_nodes t);
     Some (t\<lparr>st_size := new_size, st_threshold := drop_bit 1 new_size, heads := new_heads, str_nodes := h\<rparr>) }"

text \<open>\<^verbatim>\<open>insert\<close>, with a new node at the fresh address \<open>p\<close>.\<close>

definition str_insert :: "ptr \<Rightarrow> byte list \<Rightarrow> str_table \<Rightarrow> (ptr \<times> str_table) option" where
  "str_insert p buffer t =
     (if buffer = [] then Some (null_addr, t)
      else do {
        let buf = take max_string_length buffer;
        let hash = hash_string_no_case buf;
        start \<leftarrow> load (heads t) (unat (hash mod st_size t));
        found \<leftarrow> insert_walk buf hash start 0 (str_nodes t);
        (case found of Inl q \<Rightarrow> Some (q, t)
         | Inr string_id \<Rightarrow> do {
             let t1 = t\<lparr>st_entries := st_entries t + 1\<rparr>;
             t2 \<leftarrow> (if st_threshold t1 < st_entries t1 then str_resize t1 else Some t1);
             let t3 = (if string_id = 0 then t2\<lparr>st_current_id := st_current_id t2 + 1\<rparr> else t2);
             let new_id = (if string_id = 0 then st_current_id t2 else string_id);
             v \<leftarrow> load (heads t3) (unat (hash mod st_size t3));
             m \<leftarrow> store (heads t3) (unat (hash mod st_size t3)) (Some p);
             let new_node = \<lparr>sn_ref_count = 0, sn_id = new_id, sn_next = v, sn_hash = hash, sn_len = word_of_nat (length buf), sn_data = buf @ [0]\<rparr>;
             Some (p, t3\<lparr>heads := m, str_nodes := (str_nodes t3)(p \<mapsto> new_node)\<rparr>) }) })"

text \<open>The string objects.\<close>

definition take_node :: "ptr \<Rightarrow> ptr \<Rightarrow> str_table \<Rightarrow> str_table option" where
  "take_node x p t = do {
     n \<leftarrow> str_nodes t p;
     Some (t\<lparr>str_nodes := (str_nodes t)(p \<mapsto> n\<lparr>sn_ref_count := sn_ref_count n + 1\<rparr>), str_vars := (str_vars t)(x \<mapsto> p)\<rparr>) }"

definition drop_node :: "ptr \<Rightarrow> str_table \<Rightarrow> str_table option" where
  "drop_node p t = do {
     n \<leftarrow> str_nodes t p;
     let n1 = n\<lparr>sn_ref_count := sn_ref_count n - 1\<rparr>;
     let t1 = t\<lparr>str_nodes := (str_nodes t)(p \<mapsto> n1)\<rparr>;
     if sn_ref_count n1 = 0 then node_reference_to_zero p t1 else Some t1 }"

definition new_empty :: "ptr \<Rightarrow> str_table \<Rightarrow> str_table option" where
  "new_empty x t = take_node x null_addr t"

definition new_string :: "ptr \<Rightarrow> ptr \<Rightarrow> byte list \<Rightarrow> str_table \<Rightarrow> str_table option" where
  "new_string x p buffer t = do {
     (q, t1) \<leftarrow> str_insert p buffer t;
     take_node x q t1 }"

definition copy_string :: "ptr \<Rightarrow> ptr \<Rightarrow> str_table \<Rightarrow> str_table option" where
  "copy_string x y t = do { q \<leftarrow> str_vars t y; take_node x q t }"

definition delete_string :: "ptr \<Rightarrow> str_table \<Rightarrow> str_table option" where
  "delete_string x t = do {
     p \<leftarrow> str_vars t x;
     t1 \<leftarrow> drop_node p t;
     Some (t1\<lparr>str_vars := (str_vars t1)(x := None)\<rparr>) }"

definition assign_string :: "ptr \<Rightarrow> ptr \<Rightarrow> str_table \<Rightarrow> str_table option" where
  "assign_string x y t = do {
     p \<leftarrow> str_vars t x;
     t1 \<leftarrow> drop_node p t;
     q \<leftarrow> str_vars t1 y;
     take_node x q t1 }"

definition string_compare :: "ptr \<Rightarrow> ptr \<Rightarrow> bool \<Rightarrow> str_table \<Rightarrow> bool option" where
  "string_compare x y case_sensitive t = do {
     p \<leftarrow> str_vars t x;
     q \<leftarrow> str_vars t y;
     if q = p then Some True
     else if case_sensitive then Some False
     else do { np \<leftarrow> str_nodes t p; nq \<leftarrow> str_nodes t q; Some (sn_id nq = sn_id np) } }"

definition c_str :: "ptr \<Rightarrow> str_table \<Rightarrow> byte list option" where
  "c_str x t = do { p \<leftarrow> str_vars t x; map_option sn_data (str_nodes t p) }"

definition string_hash :: "ptr \<Rightarrow> str_table \<Rightarrow> uint32 option" where
  "string_hash x t = do { p \<leftarrow> str_vars t x; map_option sn_id (str_nodes t p) }"

subsection \<open>Texts\<close>

abbreviation lower :: "byte list \<Rightarrow> byte list" where
  "lower \<equiv> map tolower"

lemma tolower_0 [simp]: "tolower c = 0 \<longleftrightarrow> c = 0"
proof -
  have "c + 32 \<noteq> 0" if "65 \<le> c" "c \<le> 90"
  proof -
    have "unat c \<le> 90" using that by (simp add: word_le_nat_alt)
    then have "unat (c + 32) = unat c + 32" by (simp add: unat_word_ariths)
    then show ?thesis by (metis add_is_0 unat_0 zero_neq_numeral)
  qed
  then show ?thesis by (auto simp: tolower_def)
qed

lemma tolower_zero [simp]: "tolower 0 = 0"
  by simp

lemma hash_lower: "lower a = lower b \<Longrightarrow> hash_string_no_case a = hash_string_no_case b"
proof -
  have "hash_string_no_case x = foldl (\<lambda>result c. (push_bit 4 result OR drop_bit 28 result) XOR scast c) 0 (lower x)" for x
    unfolding hash_string_no_case_def foldl_map ..
  then show "lower a = lower b \<Longrightarrow> ?thesis" by simp
qed

lemma compare_strings_text:
  "0 \<notin> set s \<Longrightarrow> compare_strings result buf (s @ [0])
     = Some (if buf = s then result else if lower buf = lower s then Equal_in_the_case_insensitive_way else Not_at_all_equal)"
proof (induction buf arbitrary: s result)
  case Nil
  then show ?case by (cases s) auto
next
  case (Cons c buf)
  then show ?case by (cases s) auto
qed

subsection \<open>The invariant\<close>

text \<open>A node without its link.\<close>

type_synonym str_data = "uint32 \<times> uint32 \<times> uint32 \<times> byte list"

definition sdat :: "(ptr \<rightharpoonup> str_node) \<Rightarrow> ptr \<rightharpoonup> str_data" where
  "sdat h p = map_option (\<lambda>n. (sn_ref_count n, sn_id n, sn_hash n, sn_data n)) (h p)"

text \<open>Each text has one node, and identifiers are equal exactly for texts that differ in case only.\<close>

definition data_ok :: "uint32 \<Rightarrow> (ptr \<rightharpoonup> str_data) \<Rightarrow> bool" where
  "data_ok cur D \<longleftrightarrow> D null_addr \<noteq> None
     \<and> (\<forall>p r i h d. D p = Some (r, i, h, d) \<longrightarrow>
         (\<exists>s. d = s @ [0] \<and> 0 \<notin> set s \<and> h = hash_string_no_case s \<and> (p = null_addr \<longleftrightarrow> s = []) \<and> (i = 0 \<longleftrightarrow> p = null_addr) \<and> i < cur))
     \<and> (\<forall>p r i h d q r' j h' e. D p = Some (r, i, h, d) \<longrightarrow> D q = Some (r', j, h', e) \<longrightarrow> (d = e \<longrightarrow> p = q) \<and> (i = j \<longleftrightarrow> lower d = lower e))"

abbreviation links :: "str_table \<Rightarrow> slot \<Rightarrow> ptr option option" where
  "links t \<equiv> \<lambda>w. read_link w t"

definition in_bucket :: "(ptr \<rightharpoonup> str_data) \<Rightarrow> uint32 \<Rightarrow> uint32 \<Rightarrow> ptr \<Rightarrow> bool" where
  "in_bucket D m b p \<longleftrightarrow> p \<noteq> null_addr \<and> map_option (\<lambda>(r, i, h, d). h mod m) (D p) = Some b"

definition chains_ok :: "str_table \<Rightarrow> (uint32 \<Rightarrow> ptr list) \<Rightarrow> bool" where
  "chains_ok t F \<longleftrightarrow> st_size t \<noteq> 0 \<and> length (heads t) = unat (st_size t) \<and> chains (links t) (st_size t) F \<and> separate F
     \<and> (\<forall>b p. p \<in> set (F b) \<longleftrightarrow> in_bucket (sdat (str_nodes t)) (st_size t) b p)"

abbreviation refs_ok :: "(ptr \<rightharpoonup> str_data) \<Rightarrow> (ptr \<rightharpoonup> ptr) \<Rightarrow> bool" where
  "refs_ok \<equiv> counted null_addr"

definition str_inv :: "str_table \<Rightarrow> bool" where
  "str_inv t \<longleftrightarrow> data_ok (st_current_id t) (sdat (str_nodes t)) \<and> (\<exists>F. chains_ok t F) \<and> refs_ok (sdat (str_nodes t)) (str_vars t)
     \<and> finite (dom (str_nodes t)) \<and> card (dom (str_nodes t)) = unat (st_entries t) + 1"

text \<open>Every node of the table is in use.\<close>

definition all_used :: "str_table \<Rightarrow> bool" where
  "all_used t \<longleftrightarrow> (\<forall>p. p \<noteq> null_addr \<longrightarrow> str_nodes t p \<noteq> None \<longrightarrow> (\<exists>x. str_vars t x = Some p))"

lemma data_okD:
  assumes "data_ok cur D" "D p = Some (r, i, h, d)"
  obtains s where "d = s @ [0]" "0 \<notin> set s" "h = hash_string_no_case s" "p = null_addr \<longleftrightarrow> s = []" "i = 0 \<longleftrightarrow> p = null_addr" "i < cur"
  using assms unfolding data_ok_def by blast

lemma sdat_upd: "sdat (h(p \<mapsto> n)) = (sdat h)(p \<mapsto> (sn_ref_count n, sn_id n, sn_hash n, sn_data n))"
  by (auto simp: sdat_def)

lemma dom_sdat [simp]: "dom (sdat h) = dom h"
  by (auto simp: sdat_def)

lemma sdat_Some: "sdat h p = Some (r, i, hs, d) \<longleftrightarrow> (\<exists>n. h p = Some n \<and> sn_ref_count n = r \<and> sn_id n = i \<and> sn_hash n = hs \<and> sn_data n = d)"
  by (auto simp: sdat_def)

subsection \<open>The search of an insertion\<close>

lemma insert_walk_ok:
  assumes "chain sn_next h start ps"
    and "\<And>p. p \<in> set ps \<Longrightarrow> \<exists>n s. h p = Some n \<and> sn_data n = s @ [0] \<and> 0 \<notin> set s \<and> sn_hash n = hash_string_no_case s"
  shows "\<exists>r. insert_walk buf (hash_string_no_case buf) start i h = Some r
     \<and> (\<forall>p. r = Inl p \<longrightarrow> p \<in> set ps \<and> sn_data (the (h p)) = buf @ [0])
     \<and> (\<forall>j. r = Inr j \<longrightarrow> (\<forall>p \<in> set ps. sn_data (the (h p)) \<noteq> buf @ [0])
          \<and> (j = i \<and> (\<forall>p \<in> set ps. lower (sn_data (the (h p))) \<noteq> lower (buf @ [0]))
             \<or> (\<exists>p \<in> set ps. lower (sn_data (the (h p))) = lower (buf @ [0]) \<and> j = sn_id (the (h p)))))"
  using assms
proof (induction ps arbitrary: start i)
  case Nil
  then show ?case by (subst insert_walk.simps) auto
next
  case (Cons p ps)
  then obtain n where n: "start = Some p" "h p = Some n" "chain sn_next h (sn_next n) ps" by (auto simp: chain_Cons)
  obtain s where s: "sn_data n = s @ [0]" "0 \<notin> set s" "sn_hash n = hash_string_no_case s" using Cons.prems(2)[of p] n(2) by auto
  note IH = Cons.IH[OF n(3) Cons.prems(2)]
  have cmp: "compare_strings Totally_equal buf (sn_data n)
      = Some (if buf = s then Totally_equal else if lower buf = lower s then Equal_in_the_case_insensitive_way else Not_at_all_equal)"
    using compare_strings_text[OF s(2)] s(1) by simp
  consider "buf = s" | "buf \<noteq> s" "lower buf = lower s" | "lower buf \<noteq> lower s" by blast
  then show ?case
  proof cases
    case 1
    then show ?thesis using n s cmp by (subst insert_walk.simps) auto
  next
    case 2
    then have "insert_walk buf (hash_string_no_case buf) start i h = insert_walk buf (hash_string_no_case buf) (sn_next n) (sn_id n) h"
      using n s cmp hash_lower[OF 2(2)] by (subst insert_walk.simps) simp
    with IH[of "sn_id n"] show ?thesis using n(2) s(1) 2 by fastforce
  next
    case 3
    then have "insert_walk buf (hash_string_no_case buf) start i h = insert_walk buf (hash_string_no_case buf) (sn_next n) i h"
      using n s cmp by (subst insert_walk.simps) auto
    with IH[of i] show ?thesis using n(2) s(1) 3 by fastforce
  qed
qed

subsection \<open>Chains\<close>

definition same_strings :: "str_table \<Rightarrow> str_table \<Rightarrow> bool" where
  "same_strings t t' \<longleftrightarrow> sdat (str_nodes t') = sdat (str_nodes t) \<and> st_size t' = st_size t \<and> length (heads t') = length (heads t)
     \<and> st_entries t' = st_entries t \<and> st_threshold t' = st_threshold t \<and> st_current_id t' = st_current_id t \<and> str_vars t' = str_vars t"

lemma write_link_ok:
  assumes "read_link w t \<noteq> None"
  shows "\<exists>t'. write_link w v t = Some t' \<and> links t' = (links t)(w := Some v) \<and> same_strings t t'"
proof (cases w)
  case (Bucket b)
  have i: "unat b < length (heads t)" using assms Bucket by (auto simp: load_def split: if_splits)
  let ?t = "t\<lparr>heads := (heads t)[unat b := v]\<rparr>"
  have "read_link x ?t = ((links t)(w := Some v)) x" for x
  proof (cases x)
    case (Bucket b')
    then show ?thesis using i \<open>w = Bucket b\<close> by (cases "b' = b") (auto simp: load_def nth_list_update dest: word_unat_eq_iff[THEN iffD2])
  qed (use Bucket in simp)
  then show ?thesis using Bucket i by (auto simp: same_strings_def)
next
  case (Next p)
  then obtain n where n: "str_nodes t p = Some n" using assms by auto
  let ?t = "t\<lparr>str_nodes := (str_nodes t)(p \<mapsto> n\<lparr>sn_next := v\<rparr>)\<rparr>"
  have "read_link x ?t = ((links t)(w := Some v)) x" for x by (cases x) (auto simp: Next)
  moreover have "sdat (str_nodes ?t) = sdat (str_nodes t)" using n by (auto simp: sdat_def)
  ultimately show ?thesis using Next n by (auto simp: same_strings_def)
qed

interpretation str_slots: slot_store "\<lambda>t w. read_link w t" write_link same_strings
  by unfold_locales (rule write_link_ok)

lemma link_chain:
  "schain (links t) w ps \<Longrightarrow> \<exists>v. read_link w t = Some v \<and> chain sn_next (str_nodes t) v ps"
proof (induction ps arbitrary: w)
  case (Cons p ps)
  from Cons.IH[of "Next p"] Cons.prems show ?case by (auto simp: chain_Cons)
qed simp

text \<open>The links of a table given by its heads and nodes.\<close>

fun hlinks :: "ptr option list \<Rightarrow> (ptr \<rightharpoonup> str_node) \<Rightarrow> slot \<Rightarrow> ptr option option" where
  "hlinks hs h (Bucket b) = load hs (unat b)"
| "hlinks hs h (Next p) = map_option sn_next (h p)"

lemma links_hlinks: "links t = hlinks (heads t) (str_nodes t)"
proof
  fix w show "read_link w t = hlinks (heads t) (str_nodes t) w" by (cases w) auto
qed

text \<open>Pushing a node to the front of its chain.\<close>

lemma push_front:
  assumes ch: "chains (hlinks hs h) m F" and sep: "separate F" and p: "\<And>b. p \<notin> set (F b)" and b: "b < m" "unat b < length hs" and v: "hs ! unat b = v" and n: "sn_next n = v"
  shows "chains (hlinks (hs[unat b := Some p]) (h(p \<mapsto> n))) m (F(b := p # F b))" "separate (F(b := p # F b))"
proof -
  have "hlinks (hs[unat b := Some p]) (h(p \<mapsto> n)) = (hlinks hs h)(Next p := hlinks hs h (Bucket b), Bucket b := Some (Some p))"
  proof
    fix w show "hlinks (hs[unat b := Some p]) (h(p \<mapsto> n)) w = ((hlinks hs h)(Next p := hlinks hs h (Bucket b), Bucket b := Some (Some p))) w"
    proof (cases w)
      case (Bucket b')
      then show ?thesis using b by (cases "b' = b") (auto simp: load_def nth_list_update dest: word_unat_eq_iff[THEN iffD2])
    qed (use b n v in auto)
  qed
  then show "chains (hlinks (hs[unat b := Some p]) (h(p \<mapsto> n))) m (F(b := p # F b))"
    using chains_splice[OF ch sep, of b "[]" "F b" p] p b by simp
  show "separate (F(b := p # F b))" using sep p by (fastforce simp: separate_def disjoint_iff)
qed

lemma move_chain_ok:
  assumes "chain sn_next h chn ps" "distinct ps" "chains (hlinks hs h) m F" "separate F" "\<And>b. set ps \<inter> set (F b) = {}" "length hs = unat m" "m \<noteq> 0"
  shows "\<exists>hs' h' F'. move_chain m chn hs h = Some (hs', h') \<and> chains (hlinks hs' h') m F' \<and> separate F' \<and> length hs' = unat m
     \<and> sdat h' = sdat h \<and> (\<forall>p. p \<notin> set ps \<longrightarrow> h' p = h p)
     \<and> (\<forall>b p. p \<in> set (F' b) \<longleftrightarrow> p \<in> set (F b) \<or> p \<in> set ps \<and> map_option (\<lambda>(r, i, h, d). h mod m) (sdat h p) = Some b)"
  using assms
proof (induction ps arbitrary: chn hs h F)
  case Nil
  then show ?case by (subst move_chain.simps) (auto intro!: exI[of _ F])
next
  case (Cons p ps)
  then obtain n where n: "chn = Some p" "h p = Some n" "chain sn_next h (sn_next n) ps" by (auto simp: chain_Cons)
  let ?b = "sn_hash n mod m"
  have b: "?b < m" using Cons.prems(7) by (simp add: word_mod_less_divisor word_gt_0)
  then have bl: "unat ?b < length hs" using Cons.prems(6) by (simp add: word_less_nat_alt)
  let ?hs = "hs[unat ?b := Some p]" and ?h = "h(p \<mapsto> n\<lparr>sn_next := hs ! unat ?b\<rparr>)" and ?F = "F(?b := p # F ?b)"
  have pF: "p \<notin> set (F b)" for b using Cons.prems(5)[of b] by auto
  note pf = push_front[OF Cons.prems(3,4) pF b bl refl, of "n\<lparr>sn_next := hs ! unat ?b\<rparr>", simplified]
  have sd: "sdat ?h = sdat h" using n(2) by (auto simp: sdat_def)
  have c: "chain sn_next ?h (sn_next n) ps" using n(3) Cons.prems(2) by simp
  have dj: "set ps \<inter> set (?F b) = {}" for b using Cons.prems(2) Cons.prems(5)[of b] by auto
  have len: "length ?hs = unat m" "distinct ps" using Cons.prems(2,6) by simp_all
  obtain hs' h' F' where r: "move_chain m (sn_next n) ?hs ?h = Some (hs', h')" "chains (hlinks hs' h') m F'" "separate F'" "length hs' = unat m"
      "sdat h' = sdat h" "\<forall>q. q \<notin> set ps \<longrightarrow> h' q = ?h q"
      "\<forall>b q. q \<in> set (F' b) \<longleftrightarrow> q \<in> set (?F b) \<or> q \<in> set ps \<and> map_option (\<lambda>(r, i, h, d). h mod m) (sdat h q) = Some b"
    using Cons.IH[OF c len(2) pf dj len(1) Cons.prems(7)] unfolding sd by blast
  have "move_chain m chn hs h = Some (hs', h')" using n(1,2) bl r(1) by (subst move_chain.simps) (simp add: Let_def)
  moreover have "map_option (\<lambda>(r, i, h, d). h mod m) (sdat h p) = Some ?b" using n(2) by (simp add: sdat_def)
  then have "q \<in> set (F' b) \<longleftrightarrow> q \<in> set (F b) \<or> q \<in> set (p # ps) \<and> map_option (\<lambda>(r, i, h, d). h mod m) (sdat h q) = Some b" for b q
    using r(7) by (cases "q = p") auto
  moreover have "q \<notin> set (p # ps) \<Longrightarrow> h' q = h q" for q using r(6) by simp
  ultimately show ?case using r(2-5) by blast
qed

lemma move_chains_ok:
  assumes "length pss = length cs" "\<And>k. k < length cs \<Longrightarrow> chain sn_next h (cs ! k) (pss ! k)" "distinct (concat pss)"
    "chains (hlinks hs h) m F" "separate F" "\<And>b. set (concat pss) \<inter> set (F b) = {}" "length hs = unat m" "m \<noteq> 0"
  shows "\<exists>hs' h' F'. move_chains m cs hs h = Some (hs', h') \<and> chains (hlinks hs' h') m F' \<and> separate F' \<and> length hs' = unat m \<and> sdat h' = sdat h
     \<and> (\<forall>b p. p \<in> set (F' b) \<longleftrightarrow> p \<in> set (F b) \<or> p \<in> set (concat pss) \<and> map_option (\<lambda>(r, i, h, d). h mod m) (sdat h p) = Some b)"
  using assms
proof (induction cs arbitrary: pss hs h F)
  case Nil
  then show ?case by (auto intro!: exI[of _ F])
next
  case (Cons c cs)
  then obtain ps qss where pss: "pss = ps # qss" "length qss = length cs" by (cases pss) auto
  have c: "chain sn_next h c ps" using Cons.prems(2)[of 0] pss by simp
  have d: "distinct ps" "distinct (concat qss)" "set ps \<inter> set (concat qss) = {}" using Cons.prems(3) pss by simp_all
  have dj: "set ps \<inter> set (F b) = {}" for b using Cons.prems(6)[of b] pss by auto
  obtain hs1 h1 F1 where r1: "move_chain m c hs h = Some (hs1, h1)" "chains (hlinks hs1 h1) m F1" "separate F1" "length hs1 = unat m" "sdat h1 = sdat h"
      "\<forall>p. p \<notin> set ps \<longrightarrow> h1 p = h p" "\<forall>b p. p \<in> set (F1 b) \<longleftrightarrow> p \<in> set (F b) \<or> p \<in> set ps \<and> map_option (\<lambda>(r, i, h, d). h mod m) (sdat h p) = Some b"
    using move_chain_ok[OF c d(1) Cons.prems(4,5) dj Cons.prems(7,8)] by blast
  have ch1: "chain sn_next h1 (cs ! k) (qss ! k)" if k: "k < length cs" for k
  proof (rule chain_cong)
    show "chain sn_next h (cs ! k) (qss ! k)" using Cons.prems(2)[of "Suc k"] k pss by simp
    show "map_option sn_next (h1 p) = map_option sn_next (h p)" if "p \<in> set (qss ! k)" for p
    proof -
      have "p \<in> set (concat qss)" using that k pss(2) nth_mem[of k qss] by auto
      then have "p \<notin> set ps" using d(3) by auto
      then show ?thesis using r1(6) by simp
    qed
  qed
  have dj1: "set (concat qss) \<inter> set (F1 b) = {}" for b
  proof -
    have "set (F1 b) \<subseteq> set (F b) \<union> set ps" using r1(7) by blast
    moreover have "set (concat qss) \<inter> set (F b) = {}" using Cons.prems(6)[of b] pss by auto
    ultimately show ?thesis using d(3) by blast
  qed
  obtain hs' h' F' where r2: "move_chains m cs hs1 h1 = Some (hs', h')" "chains (hlinks hs' h') m F'" "separate F'" "length hs' = unat m" "sdat h' = sdat h1"
      "\<forall>b p. p \<in> set (F' b) \<longleftrightarrow> p \<in> set (F1 b) \<or> p \<in> set (concat qss) \<and> map_option (\<lambda>(r, i, h, d). h mod m) (sdat h1 p) = Some b"
    using Cons.IH[OF pss(2) ch1 d(2) r1(2,3) dj1 r1(4) Cons.prems(8)] by blast
  have "p \<in> set (F' b) \<longleftrightarrow> p \<in> set (F b) \<or> p \<in> set (concat pss) \<and> map_option (\<lambda>(r, i, h, d). h mod m) (sdat h p) = Some b" for b p
    unfolding r2(6)[rule_format] r1(7)[rule_format] r1(5) using pss(1) by auto
  moreover have "move_chains m (c # cs) hs h = Some (hs', h')" using r1(1) r2(1) by simp
  ultimately show ?case using r2(2-4) r2(5)[unfolded r1(5)] by blast
qed

lemma separate_concat: "separate F \<Longrightarrow> distinct bs \<Longrightarrow> distinct (concat (map F bs))"
proof (induction bs)
  case (Cons b bs)
  have "set (F b) \<inter> set (F c) = {}" if "c \<in> set bs" for c using Cons.prems that unfolding separate_def by (metis distinct.simps(2))
  then have "set (F b) \<inter> set (concat (map F bs)) = {}" by fastforce
  then show ?case using Cons by (simp add: separate_def)
qed simp

lemma str_resize_ok:
  assumes ok: "chains_ok t F" and sz: "unat (st_size t) < 1610612741"
  shows "\<exists>t' F'. str_resize t = Some t' \<and> chains_ok t' F' \<and> sdat (str_nodes t') = sdat (str_nodes t) \<and> st_entries t' = st_entries t
     \<and> st_current_id t' = st_current_id t \<and> str_vars t' = str_vars t"
proof -
  note C = ok[unfolded chains_ok_def]
  obtain m where m: "next_larger_hash_prime (st_size t) = Some m" "st_size t < m" using next_larger_hash_prime_small[OF sz] by blast
  have nz: "m \<noteq> 0" using m(2) by auto
  let ?n = "unat (st_size t)"
  let ?bs = "map word_of_nat [0..<?n] :: uint32 list"
  have small: "?n < 2 ^ 32" using unat_less_32[of "st_size t"] by simp
  have u: "unat (word_of_nat k :: uint32) = k" if "k < ?n" for k using that small by (simp add: unat_of_nat_small)
  have bs: "set ?bs = {b. b < st_size t}"
  proof -
    have "b \<in> set ?bs" if "b < st_size t" for b using that by (auto simp: word_less_nat_alt intro!: image_eqI[of _ _ "unat b"])
    moreover have "b < st_size t" if "b \<in> set ?bs" for b using that u by (auto simp: word_less_nat_alt)
    ultimately show ?thesis by blast
  qed
  have "distinct ?bs" unfolding distinct_map by (auto intro!: inj_onI dest!: arg_cong[of _ _ unat] simp: u)
  then have dist: "distinct (concat (map F ?bs))" using separate_concat C by blast
  have ch: "chain sn_next (str_nodes t) (heads t ! k) (map F ?bs ! k)" if k: "k < length (heads t)" for k
  proof -
    have k': "k < ?n" using k C by simp
    then have lt: "word_of_nat k < st_size t" by (simp add: word_less_nat_alt u)
    obtain v where "read_link (Bucket (word_of_nat k)) t = Some v" "chain sn_next (str_nodes t) v (F (word_of_nat k))"
      using link_chain[OF chainsD[of "links t" "st_size t" F "word_of_nat k"]] C lt by blast
    then show ?thesis using k k' by (simp add: u)
  qed
  have emp: "chains (hlinks (replicate (unat m) None) (str_nodes t)) m (\<lambda>b. [])" by (simp add: chains_def load_def word_less_nat_alt)
  have len: "length (map F ?bs) = length (heads t)" using C by simp
  obtain hs' h' F' where r: "move_chains m (heads t) (replicate (unat m) None) (str_nodes t) = Some (hs', h')"
      "chains (hlinks hs' h') m F'" "separate F'" "length hs' = unat m" "sdat h' = sdat (str_nodes t)"
      "\<forall>b p. p \<in> set (F' b) \<longleftrightarrow> p \<in> set (concat (map F ?bs)) \<and> map_option (\<lambda>(r, i, h, d). h mod m) (sdat (str_nodes t) p) = Some b"
    using move_chains_ok[OF len ch dist emp _ _ _ nz] by (auto simp: separate_def)
  have "p \<in> set (concat (map F ?bs)) \<longleftrightarrow> p \<noteq> null_addr \<and> sdat (str_nodes t) p \<noteq> None" for p
  proof -
    have "p \<in> set (concat (map F ?bs)) \<longleftrightarrow> (\<exists>b < st_size t. in_bucket (sdat (str_nodes t)) (st_size t) b p)"
    proof -
      have "set (concat (map F ?bs)) = (\<Union>b \<in> set ?bs. set (F b))" by (simp only: set_concat set_map image_image)
      then show ?thesis unfolding bs using C by simp
    qed
    moreover have "h mod st_size t < st_size t" for h using C by (simp add: word_mod_less_divisor word_gt_0)
    ultimately show ?thesis by (auto simp: in_bucket_def)
  qed
  then have "p \<in> set (F' b) \<longleftrightarrow> in_bucket (sdat (str_nodes t)) m b p" for b p unfolding r(6)[rule_format] by (auto simp: in_bucket_def)
  then have "chains_ok (t\<lparr>st_size := m, st_threshold := drop_bit 1 m, heads := hs', str_nodes := h'\<rparr>) F'"
    using r(2,3,4,5) nz by (simp add: chains_ok_def links_hlinks)
  then show ?thesis using m(1) r(1,5) by (auto simp: str_resize_def)
qed

subsection \<open>Insertion\<close>

lemma data_ok_insert:
  assumes ok: "data_ok cur D" and p: "D p = None" and s: "0 \<notin> set s" "s \<noteq> []" and new: "\<And>q r i h d. D q = Some (r, i, h, d) \<Longrightarrow> d \<noteq> s @ [0]"
    and i: "i \<noteq> 0" "i < cur'" "cur \<le> cur'" "\<And>q r j h d. D q = Some (r, j, h, d) \<Longrightarrow> (i = j \<longleftrightarrow> lower (s @ [0]) = lower d)"
  shows "data_ok cur' (D(p \<mapsto> (r, i, hash_string_no_case s, s @ [0])))"
proof -
  let ?D = "D(p \<mapsto> (r, i, hash_string_no_case s, s @ [0]))"
  have p0: "p \<noteq> null_addr" using ok p unfolding data_ok_def by metis
  have "?D null_addr \<noteq> None" using ok by (simp add: data_ok_def)
  moreover have "\<exists>s. d = s @ [0] \<and> 0 \<notin> set s \<and> h = hash_string_no_case s \<and> (q = null_addr \<longleftrightarrow> s = []) \<and> (j = 0 \<longleftrightarrow> q = null_addr) \<and> j < cur'"
    if d: "?D q = Some (r', j, h, d)" for q r' j h d
  proof (cases "q = p")
    case True
    then show ?thesis using d s i(1,2) p0 by auto
  next
    case False
    then have "D q = Some (r', j, h, d)" using d by simp
    from data_okD[OF ok this] show ?thesis using i(3) by (metis less_le_trans)
  qed
  moreover have "(d = e \<longrightarrow> q = q') \<and> (j = k \<longleftrightarrow> lower d = lower e)" if d: "?D q = Some (r1, j, h, d)" "?D q' = Some (r2, k, h', e)" for q q' r1 r2 j k h h' d e
  proof (cases "q = p"; cases "q' = p")
    assume "q = p" "q' \<noteq> p"
    then show ?thesis using d new[of q' r2 k h' e] i(4)[of q' r2 k h' e] by auto
  next
    assume "q \<noteq> p" "q' = p"
    then show ?thesis using d new[of q r1 j h d] i(4)[of q r1 j h d] by auto
  next
    assume "q \<noteq> p" "q' \<noteq> p"
    then show ?thesis using d ok unfolding data_ok_def by (simp split: if_splits)
  qed (use d in auto)
  ultimately show ?thesis unfolding data_ok_def by blast
qed

text \<open>What the walk over one bucket sees decides for the whole table, since texts that differ in case only share their bucket.\<close>

lemma walk_decides:
  assumes ok: "data_ok cur (sdat (str_nodes t))" and ch: "chains_ok t F" and s: "s \<noteq> []"
  defines "hash \<equiv> hash_string_no_case s"
  shows "\<exists>start r. load (heads t) (unat (hash mod st_size t)) = Some start \<and> insert_walk s hash start 0 (str_nodes t) = Some r
     \<and> (\<forall>q. r = Inl q \<longrightarrow> (\<exists>rc i h. sdat (str_nodes t) q = Some (rc, i, h, s @ [0])))
     \<and> (\<forall>j. r = Inr j \<longrightarrow> (\<forall>q rc i h d. sdat (str_nodes t) q = Some (rc, i, h, d) \<longrightarrow>
           d \<noteq> s @ [0] \<and> (j = 0 \<longrightarrow> lower d \<noteq> lower (s @ [0])) \<and> (j \<noteq> 0 \<longrightarrow> (j = i \<longleftrightarrow> lower d = lower (s @ [0])))))
     \<and> (\<forall>j. r = Inr j \<longrightarrow> j \<noteq> 0 \<longrightarrow> (\<exists>q rc h d. sdat (str_nodes t) q = Some (rc, j, h, d)))"
proof -
  note C = ch[unfolded chains_ok_def]
  let ?b = "hash mod st_size t" and ?D = "sdat (str_nodes t)"
  have b: "?b < st_size t" using C by (simp add: word_mod_less_divisor word_gt_0)
  obtain start where st: "read_link (Bucket ?b) t = Some start" "chain sn_next (str_nodes t) start (F ?b)"
    using link_chain[OF chainsD[of "links t" "st_size t" F ?b]] C b by blast
  have node: "\<exists>n s. str_nodes t q = Some n \<and> sn_data n = s @ [0] \<and> 0 \<notin> set s \<and> sn_hash n = hash_string_no_case s" if "q \<in> set (F ?b)" for q
  proof -
    have "in_bucket ?D (st_size t) ?b q" using that C by blast
    then obtain n where n: "str_nodes t q = Some n" by (auto simp: in_bucket_def sdat_def)
    then have "?D q = Some (sn_ref_count n, sn_id n, sn_hash n, sn_data n)" by (simp add: sdat_def)
    from data_okD[OF ok this] n show ?thesis by metis
  qed
  obtain r where r: "insert_walk s hash start 0 (str_nodes t) = Some r"
      "\<forall>p. r = Inl p \<longrightarrow> p \<in> set (F ?b) \<and> sn_data (the (str_nodes t p)) = s @ [0]"
      "\<forall>j. r = Inr j \<longrightarrow> (\<forall>p \<in> set (F ?b). sn_data (the (str_nodes t p)) \<noteq> s @ [0])
          \<and> (j = 0 \<and> (\<forall>p \<in> set (F ?b). lower (sn_data (the (str_nodes t p))) \<noteq> lower (s @ [0]))
             \<or> (\<exists>p \<in> set (F ?b). lower (sn_data (the (str_nodes t p))) = lower (s @ [0]) \<and> j = sn_id (the (str_nodes t p))))"
    using insert_walk_ok[OF st(2) node, of s 0] unfolding hash_def by blast
  have inb: "q \<in> set (F ?b)" if q: "?D q = Some (rc, i, h, d)" "lower d = lower (s @ [0])" for q rc i h d
  proof -
    obtain u where u: "d = u @ [0]" "h = hash_string_no_case u" "q = null_addr \<longleftrightarrow> u = []" using data_okD[OF ok q(1)] by metis
    then have "lower u = lower s" using q(2) by simp
    then have "u \<noteq> []" "h = hash" using s u(2) hash_lower[of u s] unfolding hash_def by auto
    then have "in_bucket ?D (st_size t) ?b q" using q(1) u(3) by (simp add: in_bucket_def)
    then show ?thesis using C by blast
  qed
  have D: "sn_data (the (str_nodes t q)) = d" "sn_id (the (str_nodes t q)) = i" if "?D q = Some (rc, i, h, d)" for q rc i h d
    using that by (auto simp: sdat_Some)
  have pair: "i = i' \<longleftrightarrow> lower d = lower d'" if "?D q = Some (rc, i, h, d)" "?D q' = Some (rc', i', h', d')" for q rc i h d q' rc' i' h' d'
    using ok that unfolding data_ok_def by blast
  have Inl: "\<exists>rc i h. ?D q = Some (rc, i, h, s @ [0])" if "r = Inl q" for q
  proof -
    have "q \<in> set (F ?b)" "sn_data (the (str_nodes t q)) = s @ [0]" using r(2) that by auto
    with node[OF this(1)] show ?thesis by (auto simp: sdat_Some)
  qed
  have Inr: "d \<noteq> s @ [0] \<and> (j = 0 \<longrightarrow> lower d \<noteq> lower (s @ [0])) \<and> (j \<noteq> 0 \<longrightarrow> (j = i \<longleftrightarrow> lower d = lower (s @ [0])))"
    if j: "r = Inr j" and q: "?D q = Some (rc, i, h, d)" for j q rc i h d
  proof -
    have none: "d \<noteq> s @ [0]"
    proof
      assume e: "d = s @ [0]"
      then have "q \<in> set (F ?b)" using inb[OF q] by simp
      then show False using r(3) j D(1)[OF q] e by blast
    qed
    from r(3) j consider "j = 0" "\<forall>p \<in> set (F ?b). lower (sn_data (the (str_nodes t p))) \<noteq> lower (s @ [0])"
      | q' where "q' \<in> set (F ?b)" "lower (sn_data (the (str_nodes t q'))) = lower (s @ [0])" "j = sn_id (the (str_nodes t q'))" by blast
    then show ?thesis
    proof cases
      case 1
      then show ?thesis using none inb[OF q] D(1)[OF q] by auto
    next
      case 2
      obtain n where n: "str_nodes t q' = Some n" using node[OF 2(1)] by blast
      then have D': "?D q' = Some (sn_ref_count n, sn_id n, sn_hash n, sn_data n)" by (simp add: sdat_def)
      have "q' \<noteq> null_addr" using 2(1) C by (auto simp: in_bucket_def)
      then have "sn_id n \<noteq> 0" using data_okD[OF ok D'] by metis
      then show ?thesis using none pair[OF D' q] 2 n by auto
    qed
  qed
  have "\<exists>q rc h d. ?D q = Some (rc, j, h, d)" if j: "r = Inr j" "j \<noteq> 0" for j
  proof -
    obtain q where q: "q \<in> set (F ?b)" "j = sn_id (the (str_nodes t q))" using r(3) j by blast
    obtain n where "str_nodes t q = Some n" using node[OF q(1)] by blast
    then have "?D q = Some (sn_ref_count n, j, sn_hash n, sn_data n)" using q(2) by (simp add: sdat_def)
    then show ?thesis by blast
  qed
  then show ?thesis using st(1) r(1) Inl Inr by auto
qed

lemma chains_ok_bucket:
  assumes "chains_ok t F"
  shows "h mod st_size t < st_size t" "unat (h mod st_size t) < length (heads t)"
proof -
  show lt: "h mod st_size t < st_size t" using assms by (intro word_mod_less_divisor) (simp add: chains_ok_def word_gt_0)
  then show "unat (h mod st_size t) < length (heads t)" using assms by (simp add: chains_ok_def word_less_nat_alt)
qed

lemma chains_ok_push:
  assumes ch: "chains_ok t F" and p: "str_nodes t p = None" "p \<noteq> null_addr" and n: "sn_next n = heads t ! unat (sn_hash n mod st_size t)"
  shows "\<exists>F'. chains_ok (t\<lparr>heads := (heads t)[unat (sn_hash n mod st_size t) := Some p], str_nodes := (str_nodes t)(p \<mapsto> n)\<rparr>) F'"
proof -
  note C = ch[unfolded chains_ok_def]
  let ?b = "sn_hash n mod st_size t" and ?D = "sdat (str_nodes t)"
  note b = chains_ok_bucket[OF ch, of "sn_hash n"]
  have pF: "p \<notin> set (F b)" for b using C p(1) by (auto simp: in_bucket_def sdat_def)
  have "chains (hlinks (heads t) (str_nodes t)) (st_size t) F" "separate F" using C links_hlinks by auto
  note pf = push_front[OF this pF b refl n]
  have "q \<in> set ((F(?b := p # F ?b)) b') \<longleftrightarrow> in_bucket (?D(p \<mapsto> (sn_ref_count n, sn_id n, sn_hash n, sn_data n))) (st_size t) b' q" for b' q
  proof (cases "q = p")
    case True
    then show ?thesis using pF p(2) by (auto simp: in_bucket_def)
  next
    case False
    then have "q \<in> set ((F(?b := p # F ?b)) b') \<longleftrightarrow> q \<in> set (F b')" by auto
    also have "\<dots> \<longleftrightarrow> in_bucket ?D (st_size t) b' q" using C by blast
    finally show ?thesis using False by (simp add: in_bucket_def)
  qed
  then show ?thesis using C pf by (intro exI[of _ "F(?b := p # F ?b)"]) (simp add: chains_ok_def links_hlinks sdat_upd)
qed

text \<open>The node of a new text: it shares the number of the texts that differ in case only, or gets the next one.\<close>

lemma new_id_ok:
  assumes ok: "data_ok cur D" "D p = None" and s: "0 \<notin> set s" "s \<noteq> []" and room: "unat cur + 1 < 2 ^ 32"
    and walk: "\<And>q rc i h d. D q = Some (rc, i, h, d) \<Longrightarrow>
           d \<noteq> s @ [0] \<and> (j = 0 \<longrightarrow> lower d \<noteq> lower (s @ [0])) \<and> (j \<noteq> 0 \<longrightarrow> (j = i \<longleftrightarrow> lower d = lower (s @ [0])))"
      "j \<noteq> 0 \<Longrightarrow> \<exists>q rc h d. D q = Some (rc, j, h, d)"
  defines "cur' \<equiv> if j = 0 then cur + 1 else cur" and "i \<equiv> if j = 0 then cur else j"
  shows "data_ok cur' (D(p \<mapsto> (0, i, hash_string_no_case s, s @ [0])))"
proof (rule data_ok_insert[OF ok s])
  have cur: "cur < cur + 1" using room by (simp add: word_less_nat_alt unat_word_ariths)
  show "d \<noteq> s @ [0]" if "D q = Some (r', i', h, d)" for q r' i' h d using walk(1)[OF that] by blast
  show "i \<noteq> 0"
  proof -
    obtain rc k h d where D0: "D null_addr = Some (rc, k, h, d)" using ok(1) unfolding data_ok_def by (metis option.exhaust_sel prod_cases4)
    then have "k < cur" using data_okD[OF ok(1) D0] by metis
    then show ?thesis by (auto simp: i_def)
  qed
  show "i < cur'"
  proof (cases "j = 0")
    case False
    then obtain q rc h d where q: "D q = Some (rc, j, h, d)" using walk(2) by blast
    then show ?thesis using False data_okD[OF ok(1) q] by (simp add: i_def cur'_def) metis
  qed (use cur in \<open>simp add: i_def cur'_def\<close>)
  show "cur \<le> cur'" using less_imp_le[OF cur] by (simp add: cur'_def)
  show "i = j' \<longleftrightarrow> lower (s @ [0]) = lower d" if q: "D q = Some (r', j', h, d)" for q r' j' h d
  proof -
    have "j' < cur" using data_okD[OF ok(1) q] by metis
    then show ?thesis using walk(1)[OF q] by (cases "j = 0") (auto simp: i_def)
  qed
qed

lemma str_insert_ok:
  assumes inv: "str_inv t" and p: "str_nodes t p = None" and buf: "0 \<notin> set buffer"
    and room: "unat (st_size t) < 1610612741" "unat (st_current_id t) + 1 < 2 ^ 32" "unat (st_entries t) + 1 < 2 ^ 32"
  shows "\<exists>q t'. str_insert p buffer t = Some (q, t') \<and> str_inv t' \<and> str_vars t' = str_vars t
     \<and> (\<exists>rc i h. sdat (str_nodes t') q = Some (rc, i, h, take max_string_length buffer @ [0]))
     \<and> (t' = t \<or> q = p \<and> (\<forall>q'. q' \<noteq> p \<longrightarrow> sdat (str_nodes t') q' = sdat (str_nodes t) q'))"
proof (cases "buffer = []")
  case True
  have ok: "data_ok (st_current_id t) (sdat (str_nodes t))" using inv by (simp add: str_inv_def)
  then obtain rc i h d where D: "sdat (str_nodes t) null_addr = Some (rc, i, h, d)" unfolding data_ok_def by (metis option.exhaust_sel prod_cases4)
  then have "d = [0]" using data_okD[OF ok D] by (metis append_Nil)
  then show ?thesis using True inv D by (simp add: str_insert_def)
next
  case False
  let ?s = "take max_string_length buffer"
  let ?D = "sdat (str_nodes t)" and ?hash = "hash_string_no_case ?s"
  have s: "?s \<noteq> []" "0 \<notin> set ?s" using False buf by (auto simp: max_string_length_def dest: in_set_takeD)
  obtain F where I: "data_ok (st_current_id t) ?D" "chains_ok t F" "refs_ok ?D (str_vars t)" "finite (dom (str_nodes t))" "card (dom (str_nodes t)) = unat (st_entries t) + 1"
    using inv by (auto simp: str_inv_def)
  obtain start r where w: "load (heads t) (unat (?hash mod st_size t)) = Some start" "insert_walk ?s ?hash start 0 (str_nodes t) = Some r"
      "\<And>q. r = Inl q \<Longrightarrow> \<exists>rc i h. ?D q = Some (rc, i, h, ?s @ [0])"
      "\<And>j q rc i h d. r = Inr j \<Longrightarrow> ?D q = Some (rc, i, h, d) \<Longrightarrow>
           d \<noteq> ?s @ [0] \<and> (j = 0 \<longrightarrow> lower d \<noteq> lower (?s @ [0])) \<and> (j \<noteq> 0 \<longrightarrow> (j = i \<longleftrightarrow> lower d = lower (?s @ [0])))"
      "\<And>j. r = Inr j \<Longrightarrow> j \<noteq> 0 \<Longrightarrow> \<exists>q rc h d. ?D q = Some (rc, j, h, d)"
    using walk_decides[OF I(1,2) s(1)] by blast
  show ?thesis
  proof (cases r)
    case (Inl q)
    then show ?thesis using False w inv by (auto simp: str_insert_def Let_def)
  next
    case (Inr j)
    let ?t1 = "t\<lparr>st_entries := st_entries t + 1\<rparr>"
    have "chains_ok ?t1 F" using I(2) by (simp add: chains_ok_def links_hlinks)
    then obtain t2 F2 where t2: "(if st_threshold ?t1 < st_entries ?t1 then str_resize ?t1 else Some ?t1) = Some t2" "chains_ok t2 F2" "sdat (str_nodes t2) = ?D"
        "st_entries t2 = st_entries t + 1" "st_current_id t2 = st_current_id t" "str_vars t2 = str_vars t"
      using str_resize_ok[of ?t1 F] room(1) by (cases "st_threshold ?t1 < st_entries ?t1") auto
    define cur where "cur = (if j = 0 then st_current_id t + 1 else st_current_id t)"
    define i where "i = (if j = 0 then st_current_id t else j)"
    let ?t3 = "t2\<lparr>st_current_id := cur\<rparr>"
    have "chains_ok ?t3 F2" using t2(2) by (simp add: chains_ok_def links_hlinks)
    let ?B = "unat (?hash mod st_size t2)"
    have B: "?B < length (heads t2)" by (rule chains_ok_bucket(2)[OF t2(2)])
    let ?n = "\<lparr>sn_ref_count = 0, sn_id = i, sn_next = heads t2 ! ?B, sn_hash = ?hash, sn_len = word_of_nat (length ?s), sn_data = ?s @ [0]\<rparr>"
    let ?t' = "?t3\<lparr>heads := (heads t2)[?B := Some p], str_nodes := (str_nodes t2)(p \<mapsto> ?n)\<rparr>"
    have run: "str_insert p buffer t = Some (p, ?t')"
      using False w(1,2) Inr t2(1,5) B by (simp add: str_insert_def Let_def cur_def i_def)
    have Dp: "?D p = None" "p \<noteq> null_addr"
    proof -
      show "?D p = None" using p by (simp add: sdat_def)
      moreover have "?D null_addr \<noteq> None" using I(1) by (simp add: data_ok_def)
      ultimately show "p \<noteq> null_addr" by metis
    qed
    have "sdat (str_nodes t2) p = None" using t2(3) Dp(1) by simp
    then have p2: "str_nodes t2 p = None" by (simp add: sdat_def)
    have D': "sdat (str_nodes ?t') = ?D(p \<mapsto> (0, i, ?hash, ?s @ [0]))" using t2(3) by (simp add: sdat_upd)
    have "data_ok cur (?D(p \<mapsto> (0, i, ?hash, ?s @ [0])))"
      unfolding cur_def i_def by (rule new_id_ok[OF I(1) Dp(1) s(2,1) room(2)]) (erule w(4)[OF Inr], erule w(5)[OF Inr])
    moreover have "\<exists>F'. chains_ok ?t' F'"
      using chains_ok_push[OF \<open>chains_ok ?t3 F2\<close>, of p ?n] p2 Dp(2) by simp
    moreover have "refs_ok (?D(p \<mapsto> (0, i, ?hash, ?s @ [0]))) (str_vars t)" by (rule counted_new[OF I(3) Dp])
    moreover have "dom (str_nodes ?t') = insert p (dom (str_nodes t))" using arg_cong[OF D', of dom] by simp
    moreover have "unat (st_entries t + 1) = unat (st_entries t) + 1" using room(3) by (simp add: unat_word_ariths)
    ultimately have "str_inv ?t'" unfolding str_inv_def D' using I(4,5) t2(4,6) p by (simp add: domIff)
    moreover have "sdat (str_nodes ?t') q' = ?D q'" if "q' \<noteq> p" for q' unfolding D' using that by simp
    moreover have "\<exists>rc i h. sdat (str_nodes ?t') p = Some (rc, i, h, ?s @ [0])" unfolding D' by simp
    ultimately show ?thesis using run t2(6) by (intro exI[of _ p] exI[of _ ?t']) simp
  qed
qed

end
