(* ===== verification/Interning.thy ===== *)
theory Interning
  imports Simulation Indexed_String
begin

text \<open>
  Indexed strings behave as texts: counting of the string objects on a node, the effect of every operation on the texts of the
  objects, and the theorem on all sequences of operations.
\<close>

subsection \<open>String objects\<close>

text \<open>A change of counts only.\<close>

lemma rest_data_ok:
  assumes "\<And>p. map_option snd (D' p) = map_option snd (D p)" "data_ok cur D"
  shows "data_ok cur D'"
proof -
  have *: "\<exists>r. D p = Some (r, i, h, d)" if "D' p = Some (r', i, h, d)" for p r' i h d
    using assms(1)[of p] that by (cases "D p") auto
  have "D' null_addr \<noteq> None" using assms(2) assms(1)[of null_addr] unfolding data_ok_def by (metis map_option_is_None)
  moreover have "\<exists>s. d = s @ [0] \<and> 0 \<notin> set s \<and> h = hash_string_no_case s \<and> (p = null_addr \<longleftrightarrow> s = []) \<and> (i = 0 \<longleftrightarrow> p = null_addr) \<and> i < cur"
    if "D' p = Some (r, i, h, d)" for p r i h d using *[OF that] data_okD[OF assms(2)] by metis
  moreover have "(d = e \<longrightarrow> p = q) \<and> (i = j \<longleftrightarrow> lower d = lower e)" if "D' p = Some (r, i, h, d)" "D' q = Some (r', j, h', e)" for p r i h d q r' j h' e
    using *[OF that(1)] *[OF that(2)] assms(2) unfolding data_ok_def by blast
  ultimately show ?thesis unfolding data_ok_def by blast
qed

lemma rest_chains_ok:
  assumes "chains_ok t F" "\<And>p. map_option snd (sdat (str_nodes t') p) = map_option snd (sdat (str_nodes t) p)"
    "heads t' = heads t" "st_size t' = st_size t" "\<And>p. map_option sn_next (str_nodes t' p) = map_option sn_next (str_nodes t p)"
  shows "chains_ok t' F"
proof -
  have "links t' = links t"
  proof
    fix w show "read_link w t' = read_link w t" by (cases w) (simp_all add: assms(3,5))
  qed
  moreover have "in_bucket (sdat (str_nodes t')) m b p = in_bucket (sdat (str_nodes t)) m b p" for m b p
  proof -
    have "map_option (\<lambda>(r, i, h, d). h mod m) x = map_option (\<lambda>(i, h, d). h mod m) (map_option snd x)" for x :: "str_data option"
      by (auto simp: option.map_comp comp_def split_def)
    then show ?thesis using assms(2)[of p] by (simp add: in_bucket_def)
  qed
  ultimately show ?thesis using assms(1,3,4) by (simp add: chains_ok_def)
qed

lemma take_node_ok:
  assumes inv: "str_inv t" and p: "str_nodes t p \<noteq> None" and x: "str_vars t x = None" and n: "card (dom (str_vars t)) + 1 < 2 ^ 31"
  shows "\<exists>t'. take_node x p t = Some t' \<and> str_inv t' \<and> str_vars t' = (str_vars t)(x \<mapsto> p)
     \<and> (\<forall>q. map_option snd (sdat (str_nodes t') q) = map_option snd (sdat (str_nodes t) q))"
proof -
  obtain nd where nd: "str_nodes t p = Some nd" using p by auto
  let ?nd = "nd\<lparr>sn_ref_count := sn_ref_count nd + 1\<rparr>"
  let ?t = "t\<lparr>str_nodes := (str_nodes t)(p \<mapsto> ?nd), str_vars := (str_vars t)(x \<mapsto> p)\<rparr>"
  let ?D = "sdat (str_nodes t)"
  obtain F where I: "data_ok (st_current_id t) ?D" "chains_ok t F" "refs_ok ?D (str_vars t)" "finite (dom (str_nodes t))" "card (dom (str_nodes t)) = unat (st_entries t) + 1"
    using inv by (auto simp: str_inv_def)
  have D': "sdat (str_nodes ?t) = ?D(p \<mapsto> (sn_ref_count nd + 1, sn_id nd, sn_hash nd, sn_data nd))" by (simp add: sdat_upd)
  have Dp: "?D p = Some (sn_ref_count nd, sn_id nd, sn_hash nd, sn_data nd)" using nd by (simp add: sdat_def)
  have rest: "map_option snd (sdat (str_nodes ?t) q) = map_option snd (?D q)" for q unfolding D' using Dp by simp
  have "data_ok (st_current_id t) (sdat (str_nodes ?t))" using rest_data_ok[OF rest I(1)] .
  moreover have "chains_ok ?t F" by (rule rest_chains_ok[OF I(2) rest]) (use nd in auto)
  moreover have "refs_ok (sdat (str_nodes ?t)) (str_vars ?t)" unfolding D' using counted_take[OF I(3) Dp x n] by simp
  moreover have "dom (str_nodes ?t) = dom (str_nodes t)" using nd by auto
  ultimately have "str_inv ?t" using I(4,5) unfolding str_inv_def by auto
  then show ?thesis using nd rest by (simp add: take_node_def)
qed

lemma separate_shrink:
  assumes "separate F" "F b = xs @ p # ys"
  shows "separate (F(b := xs @ ys))" "q \<in> set ((F(b := xs @ ys)) b') \<longleftrightarrow> q \<in> set (F b') \<and> q \<noteq> p"
proof -
  have d: "distinct (xs @ p # ys)" "\<And>b'. b' \<noteq> b \<Longrightarrow> set (F b') \<inter> set (xs @ p # ys) = {}" using assms unfolding separate_def by metis+
  have "set (xs @ ys) \<subseteq> set (F b)" using assms(2) by auto
  moreover have "distinct (xs @ ys)" using d(1) by auto
  ultimately show "separate (F(b := xs @ ys))" using assms(1) unfolding separate_def by (auto simp: disjoint_iff)
  show "q \<in> set ((F(b := xs @ ys)) b') \<longleftrightarrow> q \<in> set (F b') \<and> q \<noteq> p" using d(1) d(2)[of b'] assms(2) by (cases "b' = b") auto
qed

lemma str_remove_ok:
  assumes ch: "chains_ok t F" and p: "str_nodes t p = Some n" "p \<noteq> null_addr"
  shows "\<exists>t' F'. str_remove p t = Some t' \<and> chains_ok t' F' \<and> sdat (str_nodes t') = (sdat (str_nodes t))(p := None) \<and> st_entries t' = st_entries t - 1
     \<and> st_current_id t' = st_current_id t \<and> str_vars t' = str_vars t"
proof -
  note C = ch[unfolded chains_ok_def]
  let ?b = "sn_hash n mod st_size t" and ?D = "sdat (str_nodes t)"
  have "in_bucket ?D (st_size t) ?b p" using p by (simp add: in_bucket_def sdat_def)
  then have "p \<in> set (F ?b)" using C by blast
  then obtain xs ys where F: "F ?b = xs @ p # ys" by (meson split_list)
  have v: "read_link (Next p) t = Some (sn_next n)" using p(1) by simp
  let ?stop = "\<lambda>v. Some (v = None \<or> v = Some p)"
  obtain w t1 where t1: "seek ?stop (Bucket ?b) (links t) = Some w" "w = after (Bucket ?b) xs" "write_link w (sn_next n) t = Some t1"
      "links t1 = (links t)(w := Some (sn_next n))" "same_strings t t1" "chains (links t1) (st_size t) (F(?b := xs @ ys))"
    using str_slots.unlink[of t "st_size t" F ?b xs p ys "sn_next n" ?stop] C F v chains_ok_bucket(1)[OF ch] by auto
  have rw: "read_link w t = Some (Some p)"
    using schain_read[of "links t" "Bucket ?b" xs "p # ys"] chainsD[of "links t" "st_size t" F ?b] C F chains_ok_bucket(1)[OF ch] t1(2) by simp
  let ?t = "t1\<lparr>str_nodes := (str_nodes t1)(p := None), st_entries := st_entries t1 - 1\<rparr>"
  have run: "str_remove p t = Some ?t" using p(1) t1(1,3) rw by (simp add: str_remove_def)
  have S: "sdat (str_nodes t1) = ?D" "st_size t1 = st_size t" "length (heads t1) = length (heads t)" "st_entries t1 = st_entries t" "st_current_id t1 = st_current_id t" "str_vars t1 = str_vars t"
    using t1(5) by (simp_all add: same_strings_def)
  have D': "sdat (str_nodes ?t) = ?D(p := None)"
  proof
    fix q show "sdat (str_nodes ?t) q = (?D(p := None)) q" using fun_cong[OF S(1), of q] by (simp add: sdat_def)
  qed
  have lk: "links ?t = (links t1)(Next p := None)"
  proof
    fix x show "read_link x ?t = ((links t1)(Next p := None)) x" by (cases x) auto
  qed
  have sep: "separate (F(?b := xs @ ys))" "\<And>q b'. q \<in> set ((F(?b := xs @ ys)) b') \<longleftrightarrow> q \<in> set (F b') \<and> q \<noteq> p"
    using separate_shrink[of F ?b xs p ys] C F by blast+
  have "chains (links ?t) (st_size t) (F(?b := xs @ ys))" unfolding lk by (subst chains_other) (use sep(2) t1(6) in auto)
  moreover have "q \<in> set ((F(?b := xs @ ys)) b') \<longleftrightarrow> in_bucket (?D(p := None)) (st_size t) b' q" for b' q
    unfolding sep(2) using C by (auto simp: in_bucket_def)
  ultimately have "chains_ok ?t (F(?b := xs @ ys))" unfolding chains_ok_def D' using C S sep(1) by simp
  then show ?thesis using run D' S by (intro exI[of _ ?t]) auto
qed

lemma null_live: "str_inv t \<Longrightarrow> str_nodes t null_addr \<noteq> None"
proof -
  assume "str_inv t"
  then have "sdat (str_nodes t) null_addr \<noteq> None" by (simp add: str_inv_def data_ok_def)
  then show ?thesis by (simp add: sdat_def)
qed

text \<open>Giving up a node: the last string object takes the node with it.\<close>

lemma drop_node_ok:
  assumes inv: "str_inv t" and x: "str_vars t x = Some p"
  shows "\<exists>t'. drop_node p t = Some t' \<and> str_inv (t'\<lparr>str_vars := (str_vars t)(x := None)\<rparr>) \<and> str_vars t' = str_vars t
     \<and> (\<forall>q. map_option snd (sdat (str_nodes t') q)
          = (if q = p \<and> p \<noteq> null_addr \<and> {y. str_vars t y = Some p} = {x} then None else map_option snd (sdat (str_nodes t) q)))"
proof -
  let ?D = "sdat (str_nodes t)" and ?X' = "(str_vars t)(x := None)"
  obtain F where I: "data_ok (st_current_id t) ?D" "chains_ok t F" "refs_ok ?D (str_vars t)" "finite (dom (str_nodes t))" "card (dom (str_nodes t)) = unat (st_entries t) + 1"
    using inv by (auto simp: str_inv_def)
  have "?D p \<noteq> None" using I(3) x unfolding counted_def by blast
  then obtain nd where nd: "str_nodes t p = Some nd" by (auto simp: sdat_def)
  then have Dp: "?D p = Some (sn_ref_count nd, sn_id nd, sn_hash nd, sn_data nd)" by (simp add: sdat_def)
  note rd = counted_drop[OF I(3) x Dp]
  let ?nd = "nd\<lparr>sn_ref_count := sn_ref_count nd - 1\<rparr>"
  let ?t1 = "t\<lparr>str_nodes := (str_nodes t)(p \<mapsto> ?nd)\<rparr>"
  have D1: "sdat (str_nodes ?t1) = ?D(p \<mapsto> (sn_ref_count nd - 1, sn_id nd, sn_hash nd, sn_data nd))" by (simp add: sdat_upd)
  have rest1: "map_option snd (sdat (str_nodes ?t1) q) = map_option snd (?D q)" for q unfolding D1 using Dp by simp
  have ch1: "chains_ok ?t1 F" by (rule rest_chains_ok[OF I(2) rest1]) (use nd in auto)
  have ok1: "data_ok (st_current_id t) (sdat (str_nodes ?t1))" by (rule rest_data_ok[OF rest1 I(1)])
  show ?thesis
  proof (cases "sn_ref_count nd = 1")
    case False
    let ?t = "?t1\<lparr>str_vars := ?X'\<rparr>"
    have run: "drop_node p t = Some ?t1" using nd False by (simp add: drop_node_def Let_def eq_diff_eq)
    have "chains_ok ?t F" using ch1 by (simp add: chains_ok_def links_hlinks)
    moreover have "refs_ok (sdat (str_nodes ?t1)) ?X'" unfolding D1 by (rule rd(1))
    moreover have "dom (str_nodes ?t1) = dom (str_nodes t)" using nd by auto
    ultimately have "str_inv ?t" unfolding str_inv_def using ok1 I(4,5) by auto
    moreover have "\<not> (p \<noteq> null_addr \<and> {y. str_vars t y = Some p} = {x})" using rd(2) False by blast
    ultimately show ?thesis using run rest1 by (intro exI[of _ ?t1]) auto
  next
    case True
    then have p0: "p \<noteq> null_addr" "{y. str_vars t y = Some p} = {x}" using rd(2) by blast+
    obtain t2 F2 where t2: "str_remove p ?t1 = Some t2" "chains_ok t2 F2" "sdat (str_nodes t2) = (sdat (str_nodes ?t1))(p := None)" "st_entries t2 = st_entries t - 1"
        "st_current_id t2 = st_current_id t" "str_vars t2 = str_vars t"
      using str_remove_ok[OF ch1, of p ?nd] p0(1) by auto
    have run: "drop_node p t = Some t2" using nd True t2(1) by (simp add: drop_node_def node_reference_to_zero_def Let_def)
    have D2: "sdat (str_nodes t2) = ?D(p := None)" unfolding t2(3) D1 by simp
    have dom2: "dom (str_nodes t2) = dom (str_nodes t) - {p}" using arg_cong[OF D2, of dom] by simp
    let ?t = "t2\<lparr>str_vars := ?X'\<rparr>"
    have "chains_ok ?t F2" using t2(2) by (simp add: chains_ok_def links_hlinks)
    moreover have "data_ok (st_current_id t) (?D(p := None))"
      using I(1) p0(1) unfolding data_ok_def by (simp split: if_splits)
    moreover have "refs_ok (?D(p := None)) ?X'" by (rule rd(3)[OF True])
    moreover have "card (dom (str_nodes t) - {p}) = unat (st_entries t - 1) + 1"
    proof -
      have two: "{null_addr, p} \<subseteq> dom (str_nodes t)" using null_live[OF inv] nd by auto
      then have "card {null_addr, p} \<le> card (dom (str_nodes t))" using I(4) card_mono by blast
      then have "0 < unat (st_entries t)" using I(5) p0(1) by simp
      then have "unat (st_entries t - 1) = unat (st_entries t) - 1" by (simp add: unat_sub word_le_nat_alt)
      then show ?thesis using I(4,5) nd \<open>0 < unat (st_entries t)\<close> by (simp add: card_Diff_singleton domI)
    qed
    ultimately have "str_inv ?t" unfolding str_inv_def using D2 dom2 I(4) t2(4,5) by auto
    then show ?thesis using run D2 p0 t2(6) by auto
  qed
qed

subsection \<open>Sequences of operations\<close>

datatype str_op = New_Empty ptr | New_String ptr ptr "byte list" | Copy_String ptr ptr | Delete_String ptr | Assign_String ptr ptr

fun str_exec :: "str_op \<Rightarrow> str_table \<Rightarrow> str_table option" where
  "str_exec (New_Empty x) t = new_empty x t"
| "str_exec (New_String x p buffer) t = new_string x p buffer t"
| "str_exec (Copy_String x y) t = copy_string x y t"
| "str_exec (Delete_String x) t = delete_string x t"
| "str_exec (Assign_String x y) t = assign_string x y t"

text \<open>What a client must keep: new objects and nodes have fresh addresses, texts hold no zero byte, the last object of a text is not assigned
  to itself, and counts stay below the limits of their types.\<close>

fun str_legal :: "str_op \<Rightarrow> str_table \<Rightarrow> bool" where
  "str_legal (New_Empty x) t \<longleftrightarrow> str_vars t x = None \<and> card (dom (str_vars t)) + 1 < 2 ^ 31"
| "str_legal (New_String x p buffer) t \<longleftrightarrow> str_vars t x = None \<and> card (dom (str_vars t)) + 1 < 2 ^ 31 \<and> str_nodes t p = None \<and> 0 \<notin> set buffer
     \<and> unat (st_size t) < 1610612741 \<and> unat (st_current_id t) + 1 < 2 ^ 32"
| "str_legal (Copy_String x y) t \<longleftrightarrow> str_vars t x = None \<and> card (dom (str_vars t)) + 1 < 2 ^ 31 \<and> str_vars t y \<noteq> None"
| "str_legal (Delete_String x) t \<longleftrightarrow> str_vars t x \<noteq> None"
| "str_legal (Assign_String x y) t \<longleftrightarrow> str_vars t x \<noteq> None \<and> str_vars t y \<noteq> None
     \<and> \<not> (x = y \<and> str_vars t x \<noteq> Some null_addr \<and> {z. str_vars t z = str_vars t x} = {x})"

text \<open>The specification: a map from objects to texts.\<close>

fun text_exec :: "str_op \<Rightarrow> (ptr \<rightharpoonup> byte list) \<Rightarrow> ptr \<rightharpoonup> byte list" where
  "text_exec (New_Empty x) T = T(x \<mapsto> [])"
| "text_exec (New_String x p buffer) T = T(x \<mapsto> take max_string_length buffer)"
| "text_exec (Copy_String x y) T = T(x := T y)"
| "text_exec (Delete_String x) T = T(x := None)"
| "text_exec (Assign_String x y) T = T(x := T y)"

definition node_text :: "(uint32 \<times> uint32 \<times> byte list) option \<Rightarrow> byte list option" where
  "node_text d = map_option (\<lambda>(i, h, d). butlast d) d"

definition texts :: "str_table \<Rightarrow> ptr \<rightharpoonup> byte list" where
  "texts t x = do { p \<leftarrow> str_vars t x; node_text (map_option snd (sdat (str_nodes t) p)) }"

lemma str_inv_var: "str_inv t \<Longrightarrow> str_vars t x = Some p \<Longrightarrow> str_nodes t p \<noteq> None"
  unfolding str_inv_def by (metis counted_live domIff dom_sdat)

lemma used_bound:
  assumes inv: "str_inv t" and used: "all_used t"
  shows "unat (st_entries t) \<le> card (dom (str_vars t))"
proof -
  have fin: "finite (dom (str_vars t))" using inv by (simp add: str_inv_def counted_def)
  have "null_addr \<in> dom (str_nodes t)" using null_live[OF inv] by (simp add: domIff)
  then have "card (dom (str_nodes t) - {null_addr}) = unat (st_entries t)" using inv by (simp add: str_inv_def card_Diff_singleton)
  moreover have "dom (str_nodes t) - {null_addr} \<subseteq> (\<lambda>x. the (str_vars t x)) ` dom (str_vars t)"
  proof
    fix p assume "p \<in> dom (str_nodes t) - {null_addr}"
    then obtain x where "str_vars t x = Some p" using used by (auto simp: all_used_def)
    then show "p \<in> (\<lambda>x. the (str_vars t x)) ` dom (str_vars t)" by force
  qed
  then have "card (dom (str_nodes t) - {null_addr}) \<le> card (dom (str_vars t))" using surj_card_le[OF fin] by blast
  ultimately show ?thesis by simp
qed

lemma rest_None: "map_option snd (sdat h q) = None \<longleftrightarrow> h q = None"
  by (simp add: sdat_def)

text \<open>Each step changes the texts as specified, from the effect on nodes and objects.\<close>

lemma take_step:
  assumes inv: "str_inv t" and x: "str_vars t x = None" "card (dom (str_vars t)) + 1 < 2 ^ 31" and p: "str_nodes t p \<noteq> None"
    and used: "\<forall>q. q \<noteq> null_addr \<longrightarrow> q \<noteq> p \<longrightarrow> str_nodes t q \<noteq> None \<longrightarrow> (\<exists>y. str_vars t y = Some q)"
  shows "\<exists>t'. take_node x p t = Some t' \<and> str_inv t' \<and> all_used t' \<and> texts t' = (texts t)(x := node_text (map_option snd (sdat (str_nodes t) p)))"
proof -
  obtain t' where t': "take_node x p t = Some t'" "str_inv t'" "str_vars t' = (str_vars t)(x \<mapsto> p)" "\<And>q. map_option snd (sdat (str_nodes t') q) = map_option snd (sdat (str_nodes t) q)"
    using take_node_ok[OF inv p x] by blast
  have N: "str_nodes t' q = None \<longleftrightarrow> str_nodes t q = None" for q using rest_None[of "str_nodes t'" q] rest_None[of "str_nodes t" q] t'(4)[of q] by simp
  have "\<exists>y. str_vars t' y = Some q" if q: "q \<noteq> null_addr" "str_nodes t' q \<noteq> None" for q
  proof (cases "q = p")
    case False
    then obtain y where "str_vars t y = Some q" using used q N[of q] by metis
    moreover from this have "y \<noteq> x" using x(1) by auto
    ultimately show ?thesis unfolding t'(3) by auto
  qed (auto simp: t'(3))
  then have "all_used t'" by (simp add: all_used_def)
  moreover have "texts t' = (texts t)(x := node_text (map_option snd (sdat (str_nodes t) p)))"
    by (rule ext) (simp add: texts_def t'(3,4))
  ultimately show ?thesis using t'(1,2) by blast
qed

lemma drop_step:
  assumes inv: "str_inv t" and used: "all_used t" and x: "str_vars t x = Some p"
  shows "\<exists>t'. drop_node p t = Some t' \<and> str_inv (t'\<lparr>str_vars := (str_vars t)(x := None)\<rparr>) \<and> str_vars t' = str_vars t \<and> all_used (t'\<lparr>str_vars := (str_vars t)(x := None)\<rparr>)
     \<and> (\<forall>y q. y \<noteq> x \<longrightarrow> str_vars t y = Some q \<longrightarrow> map_option snd (sdat (str_nodes t') q) = map_option snd (sdat (str_nodes t) q))
     \<and> (p = null_addr \<or> {y. str_vars t y = Some p} \<noteq> {x} \<longrightarrow> map_option snd (sdat (str_nodes t') p) = map_option snd (sdat (str_nodes t) p))"
proof -
  obtain t' where t': "drop_node p t = Some t'" "str_inv (t'\<lparr>str_vars := (str_vars t)(x := None)\<rparr>)" "str_vars t' = str_vars t"
      "\<And>q. map_option snd (sdat (str_nodes t') q) = (if q = p \<and> p \<noteq> null_addr \<and> {y. str_vars t y = Some p} = {x} then None else map_option snd (sdat (str_nodes t) q))"
    using drop_node_ok[OF inv x] by blast
  have N: "str_nodes t' q = None \<longleftrightarrow> q = p \<and> p \<noteq> null_addr \<and> {y. str_vars t y = Some p} = {x} \<or> str_nodes t q = None" for q
    using t'(4)[of q] rest_None[of "str_nodes t'" q] rest_None[of "str_nodes t" q] by (auto split: if_splits)
  have "\<exists>y. ((str_vars t)(x := None)) y = Some q" if q: "q \<noteq> null_addr" "str_nodes t' q \<noteq> None" for q
  proof -
    obtain y where y: "str_vars t y = Some q" using used q N unfolding all_used_def by metis
    show ?thesis
    proof (cases "q = p")
      case True
      then have "{y. str_vars t y = Some p} \<noteq> {x}" using N[of q] q by auto
      then obtain z where "str_vars t z = Some p" "z \<noteq> x" using x by auto
      then show ?thesis using True by auto
    next
      case False
      then have "y \<noteq> x" using x y by auto
      then show ?thesis using y by auto
    qed
  qed
  then have "all_used (t'\<lparr>str_vars := (str_vars t)(x := None)\<rparr>)" by (auto simp: all_used_def)
  moreover have "map_option snd (sdat (str_nodes t') q) = map_option snd (sdat (str_nodes t) q)" if "y \<noteq> x" "str_vars t y = Some q" for y q
    using t'(4)[of q] that by auto
  ultimately show ?thesis using t' by auto
qed

lemma texts_other:
  assumes "str_vars t' = (str_vars t)(x := v)" "\<And>y q. y \<noteq> x \<Longrightarrow> str_vars t y = Some q \<Longrightarrow> map_option snd (sdat (str_nodes t') q) = map_option snd (sdat (str_nodes t) q)"
  shows "texts t' = (texts t)(x := texts t' x)"
proof
  fix y show "texts t' y = ((texts t)(x := texts t' x)) y"
    using assms(2)[of y] by (cases "str_vars t y") (auto simp: texts_def assms(1))
qed

lemma null_node_text:
  assumes "str_inv t"
  shows "node_text (map_option snd (sdat (str_nodes t) null_addr)) = Some []"
proof -
  have ok: "data_ok (st_current_id t) (sdat (str_nodes t))" using assms by (simp add: str_inv_def)
  obtain n where "str_nodes t null_addr = Some n" using null_live[OF assms] by blast
  then have D: "sdat (str_nodes t) null_addr = Some (sn_ref_count n, sn_id n, sn_hash n, sn_data n)" by (simp add: sdat_def)
  then have "sn_data n = [0]" using data_okD[OF ok D] by (metis append_Nil)
  then show ?thesis using D by (simp add: node_text_def)
qed

lemma new_string_step:
  assumes inv: "str_inv t" "all_used t" and legal: "str_legal (New_String x p buffer) t"
  shows "\<exists>t'. str_exec (New_String x p buffer) t = Some t' \<and> str_inv t' \<and> all_used t' \<and> texts t' = text_exec (New_String x p buffer) (texts t)"
proof -
  have used: "\<forall>q. q \<noteq> null_addr \<longrightarrow> q \<noteq> p \<longrightarrow> str_nodes t q \<noteq> None \<longrightarrow> (\<exists>y. str_vars t y = Some q)" for p using inv(2) by (simp add: all_used_def)
  have e: "unat (st_entries t) + 1 < 2 ^ 32" using used_bound[OF inv] legal by simp
  obtain q t1 rc i h where t1: "str_insert p buffer t = Some (q, t1)" "str_inv t1" "str_vars t1 = str_vars t"
      "sdat (str_nodes t1) q = Some (rc, i, h, take max_string_length buffer @ [0])"
      "t1 = t \<or> q = p \<and> (\<forall>q'. q' \<noteq> p \<longrightarrow> sdat (str_nodes t1) q' = sdat (str_nodes t) q')"
    using str_insert_ok[OF inv(1), of p buffer] legal e by auto
  have p0: "str_nodes t p = None" using legal by simp
  have same: "sdat (str_nodes t1) q' = sdat (str_nodes t) q'" if "q' \<noteq> q \<or> t1 = t" for q' using t1(5) that by auto
  have q1: "str_nodes t1 q \<noteq> None" using t1(4) by (auto simp: sdat_def)
  have u1: "\<forall>q'. q' \<noteq> null_addr \<longrightarrow> q' \<noteq> q \<longrightarrow> str_nodes t1 q' \<noteq> None \<longrightarrow> (\<exists>y. str_vars t1 y = Some q')"
  proof (intro allI impI)
    fix q' assume a: "q' \<noteq> null_addr" "q' \<noteq> q" "str_nodes t1 q' \<noteq> None"
    then have "str_nodes t q' \<noteq> None" using same[of q'] rest_None[of "str_nodes t" q'] rest_None[of "str_nodes t1" q'] by simp
    then show "\<exists>y. str_vars t1 y = Some q'" using used a t1(3) by metis
  qed
  have "texts t1 = texts t"
  proof
    fix y show "texts t1 y = texts t y"
    proof (cases "str_vars t y")
      case (Some z)
      then have "z \<noteq> p" using str_inv_var[OF inv(1) Some] p0 by auto
      then have "sdat (str_nodes t1) z = sdat (str_nodes t) z" using t1(5) by auto
      then show ?thesis using Some t1(3) by (simp add: texts_def)
    qed (simp add: texts_def t1(3))
  qed
  moreover have "node_text (map_option snd (sdat (str_nodes t1) q)) = Some (take max_string_length buffer)" using t1(4) by (simp add: node_text_def)
  ultimately show ?thesis using take_step[OF t1(2) _ _ q1 u1, of x] legal t1(1,3) by (auto simp: new_string_def)
qed

lemma assign_string_step:
  assumes inv: "str_inv t" "all_used t" and legal: "str_legal (Assign_String x y) t"
  shows "\<exists>t'. str_exec (Assign_String x y) t = Some t' \<and> str_inv t' \<and> all_used t' \<and> texts t' = text_exec (Assign_String x y) (texts t)"
proof -
  obtain p q where xy: "str_vars t x = Some p" "str_vars t y = Some q" using legal by auto
  obtain t1 where t1: "drop_node p t = Some t1" "str_inv (t1\<lparr>str_vars := (str_vars t)(x := None)\<rparr>)" "str_vars t1 = str_vars t" "all_used (t1\<lparr>str_vars := (str_vars t)(x := None)\<rparr>)"
      "\<And>y q. y \<noteq> x \<Longrightarrow> str_vars t y = Some q \<Longrightarrow> map_option snd (sdat (str_nodes t1) q) = map_option snd (sdat (str_nodes t) q)"
      "p = null_addr \<or> {y. str_vars t y = Some p} \<noteq> {x} \<Longrightarrow> map_option snd (sdat (str_nodes t1) p) = map_option snd (sdat (str_nodes t) p)"
    using drop_step[OF inv xy(1)] by blast
  let ?t = "t1\<lparr>str_vars := (str_vars t)(x := None)\<rparr>"
  have q: "map_option snd (sdat (str_nodes t1) q) = map_option snd (sdat (str_nodes t) q)"
  proof (cases "x = y")
    case True
    then have "p = null_addr \<or> {y. str_vars t y = Some p} \<noteq> {x}" using legal xy by auto
    then show ?thesis using t1(6) True xy by simp
  next
    case False
    then show ?thesis using t1(5)[OF _ xy(2)] by simp
  qed
  have "str_nodes t1 q \<noteq> None" using q str_inv_var[OF inv(1) xy(2)] by (metis rest_None)
  then have qn: "str_nodes ?t q \<noteq> None" by simp
  have fin: "finite (dom (str_vars t))" "card (dom (str_vars t)) < 2 ^ 31" using inv(1) by (auto simp: str_inv_def counted_def)
  have "card (dom (str_vars ?t)) + 1 < 2 ^ 31" using fin xy(1) card_Suc_Diff1[of "dom (str_vars t)" x] by (simp add: domI)
  moreover have "\<forall>q'. q' \<noteq> null_addr \<longrightarrow> q' \<noteq> q \<longrightarrow> str_nodes ?t q' \<noteq> None \<longrightarrow> (\<exists>y. str_vars ?t y = Some q')" using t1(4) by (simp add: all_used_def)
  ultimately obtain t' where t': "take_node x q ?t = Some t'" "str_inv t'" "all_used t'" "texts t' = (texts ?t)(x := node_text (map_option snd (sdat (str_nodes t1) q)))"
    using take_step[OF t1(2) _ _ qn, of x] by auto
  have "take_node x q t1 = Some t'" using t'(1) t1(3) by (simp add: take_node_def)
  moreover have "texts ?t = (texts t)(x := texts ?t x)" using texts_other[of ?t t x None] t1(5) by simp
  then have "texts t' = (texts t)(x := texts t y)" unfolding t'(4) q using xy(2) by (simp add: texts_def fun_upd_upd)
  ultimately show ?thesis using xy t1(1,3) t'(2,3) by (simp add: assign_string_def)
qed

lemma str_step:
  assumes inv: "str_inv t" "all_used t" and legal: "str_legal op t"
  shows "\<exists>t'. str_exec op t = Some t' \<and> str_inv t' \<and> all_used t' \<and> texts t' = text_exec op (texts t)"
proof -
  note null = null_node_text[OF inv(1)]
  have used: "\<forall>q. q \<noteq> null_addr \<longrightarrow> q \<noteq> p \<longrightarrow> str_nodes t q \<noteq> None \<longrightarrow> (\<exists>y. str_vars t y = Some q)" for p using inv(2) by (simp add: all_used_def)
  show ?thesis
  proof (cases op)
    case (New_Empty x)
    then show ?thesis using take_step[OF inv(1) _ _ null_live[OF inv(1)] used, of x] legal null by (auto simp: new_empty_def)
  next
    case (New_String x p buffer)
    show ?thesis using new_string_step[OF inv legal[unfolded New_String]] unfolding New_String .
  next
    case (Copy_String x y)
    then obtain q where q: "str_vars t y = Some q" using legal by auto
    then have "texts t y = node_text (map_option snd (sdat (str_nodes t) q))" by (simp add: texts_def)
    then show ?thesis using take_step[OF inv(1) _ _ str_inv_var[OF inv(1) q] used, of x] legal Copy_String q by (auto simp: copy_string_def)
  next
    case (Delete_String x)
    then obtain p where x: "str_vars t x = Some p" using legal by auto
    obtain t1 where t1: "drop_node p t = Some t1" "str_inv (t1\<lparr>str_vars := (str_vars t)(x := None)\<rparr>)" "str_vars t1 = str_vars t" "all_used (t1\<lparr>str_vars := (str_vars t)(x := None)\<rparr>)"
        "\<And>y q. y \<noteq> x \<Longrightarrow> str_vars t y = Some q \<Longrightarrow> map_option snd (sdat (str_nodes t1) q) = map_option snd (sdat (str_nodes t) q)"
      using drop_step[OF inv x] by blast
    have "texts (t1\<lparr>str_vars := (str_vars t)(x := None)\<rparr>) = (texts t)(x := None)"
      using texts_other[of "t1\<lparr>str_vars := (str_vars t)(x := None)\<rparr>" t x None] t1(5) by (simp add: texts_def)
    then show ?thesis using Delete_String x t1(1-4) by (simp add: delete_string_def)
  next
    case (Assign_String x y)
    show ?thesis using assign_string_step[OF inv legal[unfolded Assign_String]] unfolding Assign_String .
  qed
qed

abbreviation str_run :: "str_op list \<Rightarrow> str_table \<Rightarrow> str_table option" where
  "str_run \<equiv> run_ops str_exec"

abbreviation str_legal_run :: "str_op list \<Rightarrow> str_table \<Rightarrow> bool" where
  "str_legal_run \<equiv> legal_ops str_legal str_exec"

interpretation str_sim: simulation str_exec str_legal "\<lambda>t T. str_inv t \<and> all_used t \<and> texts t = T" text_exec
  by unfold_locales (use str_step in blast)

definition empty_strings :: str_table where
  "empty_strings = \<lparr>heads = replicate 5 None, st_size = 5, st_entries = 0, st_threshold = 2, st_current_id = 1, str_nodes = [null_addr \<mapsto> null_node], str_vars = Map.empty\<rparr>"

lemma str_init_empty: "str_init = Some empty_strings"
  by (simp add: str_init_def empty_strings_def next_larger_hash_prime_def hash_primes_def drop_bit_eq_div)

lemma empty_strings_ok: "str_inv empty_strings" "all_used empty_strings" "texts empty_strings = Map.empty"
proof -
  have D: "sdat (str_nodes empty_strings) = [null_addr \<mapsto> (drop_bit 1 (- 1), 0, 0, [0])]" by (auto simp: empty_strings_def sdat_def null_node_def)
  have "data_ok 1 [null_addr \<mapsto> (drop_bit 1 (- 1), 0, 0, [0])]"
    unfolding data_ok_def by (auto simp: hash_string_no_case_def split: if_splits)
  moreover have "chains_ok empty_strings (\<lambda>b. [])"
  proof -
    have "\<not> in_bucket [null_addr \<mapsto> (drop_bit 1 (- 1), 0, 0, [0])] m b p" for m b p by (simp add: in_bucket_def)
    moreover have "read_link (Bucket b) empty_strings = Some None" if "b < 5" for b using that by (simp add: empty_strings_def load_def word_less_nat_alt)
    ultimately show ?thesis unfolding chains_ok_def D by (simp add: empty_strings_def chains_def separate_def)
  qed
  moreover have "(drop_bit 1 (- 1) :: uint32) = 2147483647" by code_simp
  then have "unat (drop_bit 1 (- 1) :: uint32) = 2 ^ 31 - 1" by simp
  then have "refs_ok [null_addr \<mapsto> (drop_bit 1 (- 1), 0, 0, [0])] Map.empty" by (auto simp: counted_def split: if_splits)
  ultimately show "str_inv empty_strings" unfolding str_inv_def D by (auto simp: empty_strings_def)
  show "all_used empty_strings" by (simp add: all_used_def empty_strings_def)
  show "texts empty_strings = Map.empty" by (auto simp: texts_def empty_strings_def)
qed

lemma texts_node:
  assumes inv: "str_inv t" and x: "texts t x = Some a"
  shows "\<exists>p n. str_vars t x = Some p \<and> str_nodes t p = Some n \<and> sn_data n = a @ [0] \<and> sdat (str_nodes t) p = Some (sn_ref_count n, sn_id n, sn_hash n, sn_data n)"
proof -
  obtain p n where p: "str_vars t x = Some p" "str_nodes t p = Some n" "a = butlast (sn_data n)"
    using x by (auto simp: texts_def node_text_def sdat_def split: Option.bind_splits)
  have ok: "data_ok (st_current_id t) (sdat (str_nodes t))" using inv by (simp add: str_inv_def)
  have D: "sdat (str_nodes t) p = Some (sn_ref_count n, sn_id n, sn_hash n, sn_data n)" using p(2) by (simp add: sdat_def)
  then have "sn_data n = a @ [0]" using data_okD[OF ok D] p(3) by (metis butlast_snoc)
  then show ?thesis using p D by blast
qed

text \<open>Nodes in use and texts correspond one to one.\<close>

lemma entries_count:
  assumes inv: "str_inv t" and used: "all_used t"
  shows "unat (st_entries t) = card (ran (texts t) - {[]})"
proof -
  let ?N = "dom (str_nodes t) - {null_addr}" and ?f = "\<lambda>p. butlast (sn_data (the (str_nodes t p)))"
  have ok: "data_ok (st_current_id t) (sdat (str_nodes t))" using inv by (simp add: str_inv_def)
  have D: "sdat (str_nodes t) p = Some (sn_ref_count n, sn_id n, sn_hash n, sn_data n)" if "str_nodes t p = Some n" for p n using that by (simp add: sdat_def)
  have S: "\<exists>s. sn_data n = s @ [0] \<and> (p = null_addr \<longleftrightarrow> s = [])" if "str_nodes t p = Some n" for p n using data_okD[OF ok D[OF that]] by metis
  have "inj_on ?f ?N"
  proof (rule inj_onI)
    fix p q assume a: "p \<in> ?N" "q \<in> ?N" "?f p = ?f q"
    then obtain n m where nm: "str_nodes t p = Some n" "str_nodes t q = Some m" by auto
    then have "sn_data n = sn_data m" using a(3) S[OF nm(1)] S[OF nm(2)] by auto
    then show "p = q" using ok D[OF nm(1)] D[OF nm(2)] unfolding data_ok_def by blast
  qed
  moreover have "?f ` ?N = ran (texts t) - {[]}"
  proof (intro set_eqI iffI)
    fix a assume "a \<in> ?f ` ?N"
    then obtain p where "p \<in> ?N" "a = ?f p" by blast
    moreover from this obtain n where "str_nodes t p = Some n" by auto
    ultimately have p: "str_nodes t p = Some n" "p \<noteq> null_addr" "a = butlast (sn_data n)" by simp_all
    then obtain x where "str_vars t x = Some p" using used unfolding all_used_def by blast
    then have "texts t x = Some a" using p(3) D[OF p(1)] by (simp add: texts_def node_text_def)
    then show "a \<in> ran (texts t) - {[]}" using S[OF p(1)] p(2,3) by (auto simp: ran_def)
  next
    fix a assume "a \<in> ran (texts t) - {[]}"
    then obtain x where x: "texts t x = Some a" "a \<noteq> []" by (auto simp: ran_def)
    then obtain p n where p: "str_nodes t p = Some n" "sn_data n = a @ [0]" using texts_node[OF inv] by blast
    then have "p \<noteq> null_addr" using S[OF p(1)] x(2) by auto
    then show "a \<in> ?f ` ?N" using p by (intro image_eqI[of _ _ p]) auto
  qed
  moreover have "card ?N = unat (st_entries t)"
    using inv null_live[OF inv] by (simp add: str_inv_def card_Diff_singleton domIff)
  ultimately show ?thesis using card_image by metis
qed

text \<open>C29. Indexed strings behave as texts.  Every legal sequence of creations, copies, assignments and deletions of string objects on a new table runs
  without a trap and leaves each object with its text; comparing two objects decides equality of their texts, or equality up to case; and the table
  holds one entry for each different text in use and no other.\<close>
theorem string_interning:
  assumes "str_legal_run ops empty_strings"
  defines "T \<equiv> fold text_exec ops Map.empty"
  shows "\<exists>t. str_init = Some empty_strings \<and> str_run ops empty_strings = Some t
     \<and> (\<forall>x a. T x = Some a \<longrightarrow> c_str x t = Some (a @ [0]))
     \<and> (\<forall>x y a b. T x = Some a \<longrightarrow> T y = Some b \<longrightarrow>
          string_compare x y True t = Some (a = b) \<and> string_compare x y False t = Some (lower a = lower b))
     \<and> unat (st_entries t) = card (ran T - {[]})"
proof -
  obtain t where t: "str_run ops empty_strings = Some t" "str_inv t" "all_used t" "texts t = T"
    using str_sim.runs[OF _ assms(1), of Map.empty] empty_strings_ok unfolding T_def by auto
  have ok: "data_ok (st_current_id t) (sdat (str_nodes t))" using t(2) by (simp add: str_inv_def)
  have "c_str x t = Some (a @ [0])" if "T x = Some a" for x a
    using texts_node[OF t(2), of x a] that t(4) by (auto simp: c_str_def)
  moreover have "string_compare x y True t = Some (a = b) \<and> string_compare x y False t = Some (lower a = lower b)" if ab: "T x = Some a" "T y = Some b" for x y a b
  proof -
    have tx: "texts t x = Some a" "texts t y = Some b" using ab t(4) by simp_all
    obtain p n where p: "str_vars t x = Some p" "str_nodes t p = Some n" "sn_data n = a @ [0]" "sdat (str_nodes t) p = Some (sn_ref_count n, sn_id n, sn_hash n, sn_data n)"
      using texts_node[OF t(2) tx(1)] by blast
    obtain q m where q: "str_vars t y = Some q" "str_nodes t q = Some m" "sn_data m = b @ [0]" "sdat (str_nodes t) q = Some (sn_ref_count m, sn_id m, sn_hash m, sn_data m)"
      using texts_node[OF t(2) tx(2)] by blast
    have "sn_data n = sn_data m \<longrightarrow> p = q" "sn_id n = sn_id m \<longleftrightarrow> lower (sn_data n) = lower (sn_data m)" using ok p(4) q(4) unfolding data_ok_def by blast+
    then have "p = q \<longleftrightarrow> a = b" "sn_id m = sn_id n \<longleftrightarrow> lower a = lower b" using p(2,3) q(2,3) by auto
    then show ?thesis using p(1,2) q(1,2) by (auto simp: string_compare_def)
  qed
  moreover have "unat (st_entries t) = card (ran T - {[]})" using entries_count[OF t(2,3)] t(4) by simp
  ultimately show ?thesis using t(1) str_init_empty by blast
qed

text \<open>Three objects for ``Ab'', ``aB'' and ``Ab'' again, a reassignment, and a deletion.\<close>

definition demo_str_ops :: "str_op list" where
  "demo_str_ops = [New_String 10 1 [65, 98], New_String 11 2 [97, 66], New_String 12 3 [65, 98], New_Empty 13, Assign_String 13 11, Delete_String 11]"

lemma insert_walk_eval:
  "insert_walk buf hash None i h = Some (Inr i)"
  "h p = Some n \<Longrightarrow> insert_walk buf hash (Some p) i h = (if sn_hash n = hash then do {
     val \<leftarrow> compare_strings Totally_equal buf (sn_data n);
     (case val of Not_at_all_equal \<Rightarrow> insert_walk buf hash (sn_next n) i h
      | Equal_in_the_case_insensitive_way \<Rightarrow> insert_walk buf hash (sn_next n) (sn_id n) h
      | Totally_equal \<Rightarrow> Some (Inl p)) }
   else insert_walk buf hash (sn_next n) i h)"
  by (simp_all add: insert_walk.simps[of buf hash _ i h])

lemma hash_ab: "hash_string_no_case [65, 98] = 1650" "hash_string_no_case [97, 66] = 1650"
  by code_simp+

lemma demo_compare: "compare_strings Totally_equal [97, 66] [65, 98, 0] = Some Equal_in_the_case_insensitive_way"
  "compare_strings Totally_equal [65, 98] [65, 98, 0] = Some Totally_equal" "compare_strings Totally_equal [65, 98] [97, 66, 0] = Some Equal_in_the_case_insensitive_way"
  by code_simp+

lemma replicate_5: "replicate 5 None = [None, None, None, None, None]"
  by (simp add: numeral_eq_Suc)

lemmas str_eval = demo_str_ops_def empty_strings_def null_node_def null_addr_def new_string_def new_empty_def str_insert_def take_node_def assign_string_def
  delete_string_def drop_node_def max_string_length_def hash_ab insert_walk_eval demo_compare Let_def load_def store_def list_update_numeral replicate_5

lemma demo_str_legal: "str_legal_run demo_str_ops empty_strings"
  by (simp add: str_eval)

lemma demo_texts: "fold text_exec demo_str_ops Map.empty = [10 \<mapsto> [65, 98], 12 \<mapsto> [65, 98], 13 \<mapsto> [97, 66]]"
  by (rule ext) (simp add: demo_str_ops_def max_string_length_def)

theorem string_interning_witness:
  "\<exists>t. str_run demo_str_ops empty_strings = Some t \<and> string_compare 10 12 True t = Some True \<and> string_compare 10 13 True t = Some False
     \<and> string_compare 10 13 False t = Some True \<and> unat (st_entries t) = 2"
proof -
  let ?T = "[10 :: ptr \<mapsto> [65, 98], 12 \<mapsto> [65, 98], 13 \<mapsto> [97, 66 :: byte]]"
  have low: "lower [65, 98] = lower [97, 66]" by (simp add: tolower_def)
  have T: "?T 10 = Some [65, 98]" "?T 12 = Some [65, 98]" "?T 13 = Some [97, 66]" by simp_all
  have "ran ?T = {[65, 98], [97, 66]}" by (auto simp: ran_map_upd)
  then have c: "card (ran ?T - {[]}) = 2" by simp
  obtain t where t: "str_run demo_str_ops empty_strings = Some t" "unat (st_entries t) = card (ran ?T - {[]})"
      "\<And>x y a b. ?T x = Some a \<Longrightarrow> ?T y = Some b \<Longrightarrow> string_compare x y True t = Some (a = b) \<and> string_compare x y False t = Some (lower a = lower b)"
    using string_interning[OF demo_str_legal, unfolded demo_texts] by blast
  show ?thesis using t(1,2) c t(3)[OF T(1,2)] t(3)[OF T(1,3)] low by (intro exI[of _ t]) simp
qed

end
