(* ===== verification/String_Class.thy ===== *)
theory String_Class
  imports Counted Simulation
begin

text \<open>
  \<^verbatim>\<open>core/string.h\<close>: strings that share a counted record.  Records and string objects live in stores; a pointer to characters points to memory
  outside of the records or into one, and following it once the record is freed traps.  The result of \<^verbatim>\<open>malloc\<close> is an argument, \<open>None\<close> a
  null pointer.  \<^verbatim>\<open>size_t\<close> has 32 bits, and the header of a record 12.
\<close>

subsection \<open>The source\<close>

record string_record =
  sr_ref_count :: uint32
  sr_len :: uint32
  sr_data :: "byte list"

record string_heap =
  sh_records :: "ptr \<rightharpoonup> string_record"
  sh_objects :: "ptr \<rightharpoonup> ptr"

datatype char_ptr = Outside "byte list" | Inside ptr nat

fun chars_at :: "char_ptr \<Rightarrow> string_heap \<Rightarrow> byte list option" where
  "chars_at (Outside bs) h = Some bs"
| "chars_at (Inside q k) h = do {
     r \<leftarrow> sh_records h q;
     assert (k \<le> length (sr_data r));
     Some (drop k (sr_data r)) }"

fun strlen :: "byte list \<Rightarrow> nat option" where
  "strlen [] = None"
| "strlen (c # cs) = (if c = 0 then Some 0 else map_option Suc (strlen cs))"

text \<open>The static record for empty strings is at address 0 of the store.\<close>

definition null_string_record :: string_record where
  "null_string_record = \<lparr>sr_ref_count = 0x7FFFFFFF, sr_len = 0, sr_data = [0]\<rparr>"

definition get_null_string_record :: ptr where
  "get_null_string_record = 0"

definition dec_record :: "ptr \<Rightarrow> string_heap \<Rightarrow> string_heap option" where
  "dec_record p h = do {
     r \<leftarrow> sh_records h p;
     let r1 = r\<lparr>sr_ref_count := sr_ref_count r - 1\<rparr>;
     if sr_ref_count r1 = 0 \<and> p \<noteq> get_null_string_record then Some (h\<lparr>sh_records := (sh_records h)(p := None)\<rparr>)
     else Some (h\<lparr>sh_records := (sh_records h)(p \<mapsto> r1)\<rparr>) }"

definition point_to :: "ptr \<Rightarrow> ptr \<Rightarrow> string_heap \<Rightarrow> string_heap option" where
  "point_to x p h = do {
     r \<leftarrow> sh_records h p;
     Some (h\<lparr>sh_records := (sh_records h)(p \<mapsto> r\<lparr>sr_ref_count := sr_ref_count r + 1\<rparr>), sh_objects := (sh_objects h)(x \<mapsto> p)\<rparr>) }"

definition string_default :: "ptr \<Rightarrow> string_heap \<Rightarrow> string_heap option" where
  "string_default x h = point_to x get_null_string_record h"

definition string_destroy :: "ptr \<Rightarrow> string_heap \<Rightarrow> string_heap option" where
  "string_destroy x h = do {
     p \<leftarrow> sh_objects h x;
     h1 \<leftarrow> dec_record p h;
     Some (h1\<lparr>sh_objects := (sh_objects h1)(x := None)\<rparr>) }"

definition string_set_len :: "ptr \<Rightarrow> ptr option \<Rightarrow> char_ptr \<Rightarrow> uint32 \<Rightarrow> string_heap \<Rightarrow> string_heap option" where
  "string_set_len x m src len h = do {
     q \<leftarrow> sh_objects h x;
     h1 \<leftarrow> dec_record q h;
     p \<leftarrow> m;
     assert (unat len + 12 < 2 ^ 32);
     chars \<leftarrow> chars_at src h1;
     data \<leftarrow> mem_copy (replicate (unat len + 1) 0) 0 chars (unat len);
     data' \<leftarrow> store data (unat len) 0;
     Some (h1\<lparr>sh_records := (sh_records h1)(p \<mapsto> \<lparr>sr_ref_count = 1, sr_len = len, sr_data = data'\<rparr>), sh_objects := (sh_objects h1)(x \<mapsto> p)\<rparr>) }"

definition string_set :: "ptr \<Rightarrow> ptr option \<Rightarrow> char_ptr \<Rightarrow> string_heap \<Rightarrow> string_heap option" where
  "string_set x m src h = do {
     chars \<leftarrow> chars_at src h;
     n \<leftarrow> strlen chars;
     string_set_len x m src (word_of_nat n) h }"

definition string_of_chars :: "ptr \<Rightarrow> ptr option \<Rightarrow> char_ptr \<Rightarrow> string_heap \<Rightarrow> string_heap option" where
  "string_of_chars x m src h = do {
     h1 \<leftarrow> point_to x get_null_string_record h;
     string_set x m src h1 }"

definition string_of_data :: "ptr \<Rightarrow> ptr option \<Rightarrow> char_ptr \<Rightarrow> uint32 \<Rightarrow> string_heap \<Rightarrow> string_heap option" where
  "string_of_data x m src len h = do {
     h1 \<leftarrow> point_to x get_null_string_record h;
     string_set_len x m src len h1 }"

definition string_copy :: "ptr \<Rightarrow> ptr \<Rightarrow> string_heap \<Rightarrow> string_heap option" where
  "string_copy x y h = do { p \<leftarrow> sh_objects h y; point_to x p h }"

definition string_assign :: "ptr \<Rightarrow> ptr \<Rightarrow> string_heap \<Rightarrow> string_heap option" where
  "string_assign x y h = do {
     q \<leftarrow> sh_objects h x;
     h1 \<leftarrow> dec_record q h;
     p \<leftarrow> sh_objects h1 y;
     point_to x p h1 }"

definition string_data :: "ptr \<Rightarrow> string_heap \<Rightarrow> byte list option" where
  "string_data x h = do { p \<leftarrow> sh_objects h x; r \<leftarrow> sh_records h p; Some (sr_data r) }"

definition string_len :: "ptr \<Rightarrow> string_heap \<Rightarrow> uint32 option" where
  "string_len x h = do { p \<leftarrow> sh_objects h x; r \<leftarrow> sh_records h p; Some (sr_len r) }"

subsection \<open>The invariant\<close>

abbreviation null_rec :: ptr where
  "null_rec \<equiv> get_null_string_record"

definition rdat :: "(ptr \<rightharpoonup> string_record) \<Rightarrow> ptr \<rightharpoonup> uint32 \<times> byte list" where
  "rdat R p = map_option (\<lambda>r. (sr_ref_count r, sr_data r)) (R p)"

definition record_ok :: "string_record \<Rightarrow> bool" where
  "record_ok r \<longleftrightarrow> (\<exists>s. sr_data r = s @ [0] \<and> length s = unat (sr_len r))"

text \<open>Counts are right, records hold a length and that many characters, and no record but the static one is without an object.\<close>

definition strings_ok :: "(ptr \<rightharpoonup> string_record) \<Rightarrow> (ptr \<rightharpoonup> ptr) \<Rightarrow> bool" where
  "strings_ok R X \<longleftrightarrow> counted null_rec (rdat R) X \<and> (\<forall>p r. R p = Some r \<longrightarrow> record_ok r)
     \<and> (\<exists>r. R null_rec = Some r \<and> sr_data r = [0]) \<and> (\<forall>p. R p \<noteq> None \<longrightarrow> p \<noteq> null_rec \<longrightarrow> (\<exists>x. X x = Some p))"

definition text_at :: "(ptr \<rightharpoonup> string_record) \<Rightarrow> ptr \<rightharpoonup> byte list" where
  "text_at R p = map_option (\<lambda>r. butlast (sr_data r)) (R p)"

definition string_values :: "(ptr \<rightharpoonup> string_record) \<Rightarrow> (ptr \<rightharpoonup> ptr) \<Rightarrow> ptr \<rightharpoonup> byte list" where
  "string_values R X x = do { p \<leftarrow> X x; text_at R p }"

lemma rdat_simps [simp]: "rdat (R(p := None)) = (rdat R)(p := None)" "rdat (R(p \<mapsto> r)) = (rdat R)(p \<mapsto> (sr_ref_count r, sr_data r))"
  "rdat R p = None \<longleftrightarrow> R p = None"
  by (auto simp: rdat_def fun_eq_iff)

lemma strings_okD:
  assumes "strings_ok R X"
  shows "counted null_rec (rdat R) X" "R p = Some r \<Longrightarrow> record_ok r" "\<exists>r. R null_rec = Some r \<and> sr_data r = [0]"
    "R p \<noteq> None \<Longrightarrow> p \<noteq> null_rec \<Longrightarrow> \<exists>x. X x = Some p" "X x = Some p \<Longrightarrow> R p \<noteq> None"
  using assms counted_live[of null_rec "rdat R" X x p] unfolding strings_ok_def by auto

lemma values_new: "string_values R (X(x \<mapsto> p)) = (string_values R X)(x := text_at R p)"
  by (auto simp: string_values_def fun_eq_iff)

lemma values_cong: "(\<And>y p. X y = Some p \<Longrightarrow> text_at R' p = text_at R p) \<Longrightarrow> string_values R' X = string_values R X"
  by (rule ext, rename_tac y, case_tac "X y") (simp_all add: string_values_def)

text \<open>One more object points to a record.\<close>

lemma point_ok:
  assumes ok: "strings_ok R X" and p: "R p = Some r" and x: "X x = None" and n: "card (dom X) + 1 < 2 ^ 31"
  defines "R' \<equiv> R(p \<mapsto> r\<lparr>sr_ref_count := sr_ref_count r + 1\<rparr>)"
  shows "strings_ok R' (X(x \<mapsto> p))" "string_values R' (X(x \<mapsto> p)) = (string_values R X)(x := text_at R p)"
proof -
  note S = strings_okD[OF ok]
  have "rdat R p = Some (sr_ref_count r, sr_data r)" using p by (simp add: rdat_def)
  then have "counted null_rec (rdat R') (X(x \<mapsto> p))" using counted_take[OF S(1) _ x n] by (simp add: R'_def)
  moreover have "record_ok r'" if "R' q = Some r'" for q r' using that S(2)[of q] S(2)[OF p] by (auto simp: R'_def record_ok_def split: if_splits)
  moreover have "\<exists>r. R' null_rec = Some r \<and> sr_data r = [0]" using S(3) p by (auto simp: R'_def)
  moreover have "\<exists>y. (X(x \<mapsto> p)) y = Some q" if q: "R' q \<noteq> None" "q \<noteq> null_rec" for q
  proof -
    have "R q \<noteq> None" using q(1) p by (auto simp: R'_def split: if_splits)
    then obtain y where "X y = Some q" using S(4) q(2) by blast
    then show ?thesis using x by (intro exI[of _ y]) auto
  qed
  ultimately show "strings_ok R' (X(x \<mapsto> p))" unfolding strings_ok_def by blast
  have "text_at R' = text_at R" using p by (auto simp: text_at_def R'_def fun_eq_iff)
  then show "string_values R' (X(x \<mapsto> p)) = (string_values R X)(x := text_at R p)" using values_new[of R'] by (simp add: string_values_def fun_eq_iff)
qed

text \<open>An object gives up its record, which is freed if no other object shares it.\<close>

definition sole :: "ptr \<Rightarrow> (ptr \<rightharpoonup> ptr) \<Rightarrow> bool" where
  "sole x X \<longleftrightarrow> X x \<noteq> Some null_rec \<and> (\<forall>y. X y = X x \<longrightarrow> y = x)"

lemma dec_record_ok:
  assumes ok: "strings_ok (sh_records h) X" and X: "sh_objects h = X" and x: "X x = Some q"
  shows "\<exists>h1. dec_record q h = Some h1 \<and> sh_objects h1 = X \<and> strings_ok (sh_records h1) (X(x := None))
     \<and> string_values (sh_records h1) (X(x := None)) = (string_values (sh_records h) X)(x := None)
     \<and> (\<forall>p. text_at (sh_records h1) p = (if p = q \<and> sole x X then None else text_at (sh_records h) p))"
proof -
  let ?R = "sh_records h"
  note S = strings_okD[OF ok]
  obtain r where r: "?R q = Some r" using S(5)[OF x] by auto
  then have D: "rdat ?R q = Some (sr_ref_count r, sr_data r)" by (simp add: rdat_def)
  note C = counted_drop[OF S(1) x D]
  have sole: "sr_ref_count r = 1 \<longleftrightarrow> sole x X" using C(2) x by (auto simp: sole_def)
  let ?R' = "if sole x X then ?R(q := None) else ?R(q \<mapsto> r\<lparr>sr_ref_count := sr_ref_count r - 1\<rparr>)"
  have run: "dec_record q h = Some (h\<lparr>sh_records := ?R'\<rparr>)"
    using r C(2) sole x by (auto simp: dec_record_def Let_def sole_def)
  have tx: "text_at ?R' p = (if p = q \<and> sole x X then None else text_at ?R p)" for p using r by (simp add: text_at_def)
  have "counted null_rec (rdat ?R') (X(x := None))" using C(1,3) sole by simp
  moreover have "record_ok r'" if "?R' p = Some r'" for p r' using that S(2)[of p] S(2)[OF r] by (auto simp: record_ok_def split: if_splits)
  moreover have "\<exists>r. ?R' null_rec = Some r \<and> sr_data r = [0]" using S(3) r x by (auto simp: sole_def)
  moreover have "\<exists>y. (X(x := None)) y = Some p" if p: "?R' p \<noteq> None" "p \<noteq> null_rec" for p
  proof (cases "p = q")
    case True
    then have "\<not> sole x X" using p(1) by auto
    then show ?thesis using True p(2) x by (auto simp: sole_def)
  next
    case False
    then have "?R p \<noteq> None" using p(1) by (auto split: if_splits)
    then obtain y where "X y = Some p" using S(4) p(2) by blast
    then show ?thesis using False x by (intro exI[of _ y]) auto
  qed
  ultimately have "strings_ok ?R' (X(x := None))" unfolding strings_ok_def by blast
  moreover have "string_values ?R' (X(x := None)) = string_values ?R (X(x := None))"
    by (rule values_cong) (use x tx in \<open>auto simp: sole_def split: if_splits\<close>)
  moreover have "string_values ?R (X(x := None)) = (string_values ?R X)(x := None)" by (auto simp: string_values_def fun_eq_iff)
  ultimately show ?thesis using run X tx by simp
qed

text \<open>An object without a record gets a new one.\<close>

lemma new_record_ok:
  assumes ok: "strings_ok R X" and p: "R p = None" and x: "X x = None" and n: "card (dom X) + 1 < 2 ^ 31" and s: "length s = unat len"
  defines "R' \<equiv> R(p \<mapsto> \<lparr>sr_ref_count = 1, sr_len = len, sr_data = s @ [0]\<rparr>)"
  shows "strings_ok R' (X(x \<mapsto> p))" "string_values R' (X(x \<mapsto> p)) = (string_values R X)(x \<mapsto> s)"
proof -
  note S = strings_okD[OF ok]
  have p0: "p \<noteq> null_rec" using S(3) p by auto
  have "counted null_rec ((rdat R)(p \<mapsto> (0, s @ [0]))) X" using counted_new[OF S(1) _ p0] p by simp
  from counted_take[OF this _ x n, of p 0 "s @ [0]"] have "counted null_rec (rdat R') (X(x \<mapsto> p))" by (simp add: R'_def)
  moreover have "record_ok r" if "R' q = Some r" for q r using that S(2)[of q] s by (auto simp: R'_def record_ok_def split: if_splits)
  moreover have "\<exists>r. R' null_rec = Some r \<and> sr_data r = [0]" using S(3) p0 by (auto simp: R'_def)
  moreover have "\<exists>y. (X(x \<mapsto> p)) y = Some q" if q: "R' q \<noteq> None" "q \<noteq> null_rec" for q
  proof (cases "q = p")
    case False
    then obtain y where "X y = Some q" using S(4)[of q] q by (auto simp: R'_def)
    then show ?thesis using x by (intro exI[of _ y]) auto
  qed auto
  ultimately show "strings_ok R' (X(x \<mapsto> p))" unfolding strings_ok_def by blast
  have "text_at R' q = text_at R q" if "X y = Some q" for y q using S(5)[OF that] p by (auto simp: text_at_def R'_def)
  then have "string_values R' X = string_values R X" by (rule values_cong)
  moreover have "text_at R' p = Some s" by (simp add: text_at_def R'_def)
  ultimately show "string_values R' (X(x \<mapsto> p)) = (string_values R X)(x \<mapsto> s)" using values_new[of R'] by simp
qed

subsection \<open>Operations on values\<close>

abbreviation string_inv :: "string_heap \<Rightarrow> bool" where
  "string_inv h \<equiv> strings_ok (sh_records h) (sh_objects h)"

abbreviation values_of :: "string_heap \<Rightarrow> ptr \<rightharpoonup> byte list" where
  "values_of h \<equiv> string_values (sh_records h) (sh_objects h)"

lemma text_data: "strings_ok R X \<Longrightarrow> R p = Some r \<Longrightarrow> text_at R p = Some s \<Longrightarrow> sr_data r = s @ [0] \<and> length s = unat (sr_len r)"
  using strings_okD(2)[of R X p r] by (auto simp: text_at_def record_ok_def)

lemma null_text: "strings_ok R X \<Longrightarrow> text_at R null_rec = Some []"
  using strings_okD(3)[of R X] by (auto simp: text_at_def)

lemma point_to_ok:
  assumes ok: "strings_ok (sh_records h) X" and X: "sh_objects h = X \<or> X = (sh_objects h)(x := None)"
    and t: "text_at (sh_records h) p = Some s" and x: "X x = None" and n: "card (dom X) + 1 < 2 ^ 31"
  shows "\<exists>h'. point_to x p h = Some h' \<and> string_inv h' \<and> sh_objects h' = X(x \<mapsto> p) \<and> values_of h' = (string_values (sh_records h) X)(x \<mapsto> s)
     \<and> text_at (sh_records h') = text_at (sh_records h)"
proof -
  obtain r where r: "sh_records h p = Some r" using t by (auto simp: text_at_def)
  let ?h = "h\<lparr>sh_records := (sh_records h)(p \<mapsto> r\<lparr>sr_ref_count := sr_ref_count r + 1\<rparr>), sh_objects := (sh_objects h)(x \<mapsto> p)\<rparr>"
  have X': "sh_objects ?h = X(x \<mapsto> p)" using X by auto
  have "text_at (sh_records ?h) = text_at (sh_records h)" using r by (auto simp: text_at_def fun_eq_iff)
  moreover have "string_inv ?h" "values_of ?h = (string_values (sh_records h) X)(x \<mapsto> s)"
    using point_ok[OF ok r x n] t unfolding X' by simp_all
  moreover have "point_to x p h = Some ?h" using r by (simp add: point_to_def)
  ultimately show ?thesis using X' by blast
qed

text \<open>What the characters at a pointer are, by the values of the objects.\<close>

datatype chars = Buffer "byte list" | Text_Of ptr nat

fun pointer_of :: "chars \<Rightarrow> string_heap \<Rightarrow> char_ptr option" where
  "pointer_of (Buffer bs) h = Some (Outside bs)"
| "pointer_of (Text_Of y k) h = do { p \<leftarrow> sh_objects h y; Some (Inside p k) }"

fun chars_of :: "chars \<Rightarrow> (ptr \<rightharpoonup> byte list) \<Rightarrow> byte list option" where
  "chars_of (Buffer bs) V = Some bs"
| "chars_of (Text_Of y k) V = (case V y of None \<Rightarrow> None | Some s \<Rightarrow> if k \<le> length s then Some (drop k (s @ [0])) else None)"

lemma pointer_chars:
  assumes ok: "string_inv h" and c: "chars_of c (values_of h) = Some bs"
  shows "\<exists>src. pointer_of c h = Some src \<and> chars_at src h = Some bs"
proof (cases c)
  case (Text_Of y k)
  then obtain s where s: "values_of h y = Some s" "k \<le> length s" "bs = drop k (s @ [0])" using c by (auto split: option.splits if_splits)
  then obtain p r where p: "sh_objects h y = Some p" "text_at (sh_records h) p = Some s" "sh_records h p = Some r"
    by (auto simp: string_values_def text_at_def split: Option.bind_splits)
  then show ?thesis using text_data[OF ok p(3,2)] s Text_Of by auto
qed (use c in auto)

lemma last_char: "drop n (0 # replicate n 0) = [0 :: byte]"
  by (simp flip: replicate_append_same)

lemma string_set_len_ok:
  assumes ok: "string_inv h" and x: "sh_objects h x = Some q" and c: "chars_of c (values_of h) = Some bs" "pointer_of c h = Some src"
    and own: "\<not> (sole x (sh_objects h) \<and> (\<exists>k. c = Text_Of x k))" and fresh: "\<And>h1. dec_record q h = Some h1 \<Longrightarrow> sh_records h1 p = None"
    and len: "unat len \<le> length bs" "unat len + 12 < 2 ^ 32"
  shows "\<exists>h'. string_set_len x (Some p) src len h = Some h' \<and> string_inv h' \<and> sh_objects h' = (sh_objects h)(x \<mapsto> p)
     \<and> values_of h' = (values_of h)(x \<mapsto> take (unat len) bs)"
proof -
  let ?X = "sh_objects h" and ?s = "take (unat len) bs"
  obtain h1 where h1: "dec_record q h = Some h1" "sh_objects h1 = ?X" "strings_ok (sh_records h1) (?X(x := None))"
      "string_values (sh_records h1) (?X(x := None)) = (values_of h)(x := None)"
      "\<And>p. text_at (sh_records h1) p = (if p = q \<and> sole x ?X then None else text_at (sh_records h) p)"
    using dec_record_ok[OF ok refl x] by blast
  have "chars_at src h1 = Some bs"
  proof (cases c)
    case (Text_Of y k)
    obtain s where s: "values_of h y = Some s" "k \<le> length s" "bs = drop k (s @ [0])" using c(1) Text_Of by (auto split: option.splits if_splits)
    then obtain p' where p': "?X y = Some p'" "text_at (sh_records h) p' = Some s" by (auto simp: string_values_def split: Option.bind_splits)
    have "\<not> (p' = q \<and> sole x ?X)" using own Text_Of p'(1) x by (auto simp: sole_def)
    then have t: "text_at (sh_records h1) p' = Some s" using h1(5)[of p'] p'(2) by auto
    then obtain r where r: "sh_records h1 p' = Some r" by (auto simp: text_at_def)
    show ?thesis using text_data[OF h1(3) r t] r s c(2) Text_Of p'(1) by auto
  qed (use c in auto)
  moreover have "length ?s = unat len" using len(1) by simp
  ultimately have run: "string_set_len x (Some p) src len h
      = Some (h1\<lparr>sh_records := (sh_records h1)(p \<mapsto> \<lparr>sr_ref_count = 1, sr_len = len, sr_data = ?s @ [0]\<rparr>), sh_objects := (?X(x := None))(x \<mapsto> p)\<rparr>)"
    using x h1(1,2) len by (simp add: string_set_len_def mem_copy_def list_update_append last_char)
  have "card (dom (?X(x := None))) + 1 < 2 ^ 31"
    using counted_room[OF strings_okD(1)[OF ok] x] .
  from new_record_ok[OF h1(3) fresh[OF h1(1)] _ this \<open>length ?s = unat len\<close>, of x]
  show ?thesis using run h1(4) by simp
qed

text \<open>The operations as data, and what a client must keep: new objects and records have fresh addresses (a record may get the address of the one
  that was just freed), characters lie in their buffer, an object is not assigned or set from its own record if no other object
  shares it, and lengths and the number of objects stay below the limits of their types.\<close>

datatype string_op = Default ptr | Of_Chars ptr ptr chars | Of_Data ptr ptr chars uint32 | Copy ptr ptr | Assign ptr ptr
  | Set ptr ptr chars | Set_Len ptr ptr chars uint32 | Destroy ptr

fun string_exec :: "string_op \<Rightarrow> string_heap \<Rightarrow> string_heap option" where
  "string_exec (Default x) h = string_default x h"
| "string_exec (Of_Chars x p c) h = do { src \<leftarrow> pointer_of c h; string_of_chars x (Some p) src h }"
| "string_exec (Of_Data x p c len) h = do { src \<leftarrow> pointer_of c h; string_of_data x (Some p) src len h }"
| "string_exec (Copy x y) h = string_copy x y h"
| "string_exec (Assign x y) h = string_assign x y h"
| "string_exec (Set x p c) h = do { src \<leftarrow> pointer_of c h; string_set x (Some p) src h }"
| "string_exec (Set_Len x p c len) h = do { src \<leftarrow> pointer_of c h; string_set_len x (Some p) src len h }"
| "string_exec (Destroy x) h = string_destroy x h"

definition new_object :: "ptr \<Rightarrow> string_heap \<Rightarrow> bool" where
  "new_object x h \<longleftrightarrow> sh_objects h x = None \<and> card (dom (sh_objects h)) + 1 < 2 ^ 31"

definition free_address :: "ptr \<Rightarrow> ptr \<Rightarrow> string_heap \<Rightarrow> bool" where
  "free_address x p h \<longleftrightarrow> sh_records h p = None \<or> sh_objects h x = Some p \<and> sole x (sh_objects h)"

definition no_self :: "ptr \<Rightarrow> chars \<Rightarrow> string_heap \<Rightarrow> bool" where
  "no_self x c h \<longleftrightarrow> \<not> (sole x (sh_objects h) \<and> (case c of Buffer bs \<Rightarrow> False | Text_Of y k \<Rightarrow> y = x))"

definition has_chars :: "chars \<Rightarrow> string_heap \<Rightarrow> bool" where
  "has_chars c h \<longleftrightarrow> (case chars_of c (values_of h) of None \<Rightarrow> False | Some bs \<Rightarrow> 0 \<in> set bs \<and> length bs + 12 < 2 ^ 32)"

definition has_data :: "chars \<Rightarrow> uint32 \<Rightarrow> string_heap \<Rightarrow> bool" where
  "has_data c len h \<longleftrightarrow> (case chars_of c (values_of h) of None \<Rightarrow> False | Some bs \<Rightarrow> unat len \<le> length bs \<and> unat len + 12 < 2 ^ 32)"

fun string_legal :: "string_op \<Rightarrow> string_heap \<Rightarrow> bool" where
  "string_legal (Default x) h \<longleftrightarrow> new_object x h"
| "string_legal (Of_Chars x p c) h \<longleftrightarrow> new_object x h \<and> sh_records h p = None \<and> has_chars c h"
| "string_legal (Of_Data x p c len) h \<longleftrightarrow> new_object x h \<and> sh_records h p = None \<and> has_data c len h"
| "string_legal (Copy x y) h \<longleftrightarrow> new_object x h \<and> sh_objects h y \<noteq> None"
| "string_legal (Assign x y) h \<longleftrightarrow> sh_objects h x \<noteq> None \<and> sh_objects h y \<noteq> None \<and> \<not> (x = y \<and> sole x (sh_objects h))"
| "string_legal (Set x p c) h \<longleftrightarrow> sh_objects h x \<noteq> None \<and> free_address x p h \<and> no_self x c h \<and> has_chars c h"
| "string_legal (Set_Len x p c len) h \<longleftrightarrow> sh_objects h x \<noteq> None \<and> free_address x p h \<and> no_self x c h \<and> has_data c len h"
| "string_legal (Destroy x) h \<longleftrightarrow> sh_objects h x \<noteq> None"

text \<open>The specification: a map from objects to their values.\<close>

definition c_text :: "byte list \<Rightarrow> byte list" where
  "c_text bs = takeWhile (\<lambda>b. b \<noteq> 0) bs"

fun value_exec :: "string_op \<Rightarrow> (ptr \<rightharpoonup> byte list) \<Rightarrow> ptr \<rightharpoonup> byte list" where
  "value_exec (Default x) V = V(x \<mapsto> [])"
| "value_exec (Of_Chars x p c) V = V(x := map_option c_text (chars_of c V))"
| "value_exec (Of_Data x p c len) V = V(x := map_option (take (unat len)) (chars_of c V))"
| "value_exec (Copy x y) V = V(x := V y)"
| "value_exec (Assign x y) V = V(x := V y)"
| "value_exec (Set x p c) V = V(x := map_option c_text (chars_of c V))"
| "value_exec (Set_Len x p c len) V = V(x := map_option (take (unat len)) (chars_of c V))"
| "value_exec (Destroy x) V = V(x := None)"

lemma strlen_text: "0 \<in> set bs \<Longrightarrow> strlen bs = Some (length (c_text bs)) \<and> length (c_text bs) \<le> length bs \<and> take (length (c_text bs)) bs = c_text bs"
  by (induction bs) (auto simp: c_text_def)

lemma free_address_dec:
  assumes ok: "string_inv h" and x: "sh_objects h x = Some q" and f: "free_address x p h" and d: "dec_record q h = Some h1"
  shows "sh_records h1 p = None"
proof -
  have "text_at (sh_records h1) p = (if p = q \<and> sole x (sh_objects h) then None else text_at (sh_records h) p)"
    using dec_record_ok[OF ok refl x] d by auto
  then show ?thesis using f x by (auto simp: free_address_def text_at_def split: if_splits)
qed

lemma object_value: "string_inv h \<Longrightarrow> sh_objects h x = Some p \<Longrightarrow> \<exists>s. text_at (sh_records h) p = Some s \<and> values_of h x = Some s"
  using strings_okD(5)[of "sh_records h" "sh_objects h" x p] by (auto simp: text_at_def string_values_def)

lemma set_len_step:
  assumes ok: "string_inv h" and L: "string_legal (Set_Len x p c len) h" and src: "pointer_of c h = Some src"
  shows "\<exists>h'. string_set_len x (Some p) src len h = Some h' \<and> string_inv h' \<and> values_of h' = value_exec (Set_Len x p c len) (values_of h)"
proof -
  obtain q where q: "sh_objects h x = Some q" using L by auto
  obtain bs where bs: "chars_of c (values_of h) = Some bs" "unat len \<le> length bs" "unat len + 12 < 2 ^ 32" using L by (auto simp: has_data_def split: option.splits)
  have "\<not> (sole x (sh_objects h) \<and> (\<exists>k. c = Text_Of x k))" using L by (auto simp: no_self_def)
  from string_set_len_ok[OF ok q bs(1) src this free_address_dec[OF ok q] bs(2,3)]
  show ?thesis using L bs(1) by auto
qed

lemma set_step:
  assumes ok: "string_inv h" and L: "string_legal (Set x p c) h" and src: "pointer_of c h = Some src"
  shows "\<exists>h'. string_set x (Some p) src h = Some h' \<and> string_inv h' \<and> values_of h' = value_exec (Set x p c) (values_of h)"
proof -
  obtain bs where bs: "chars_of c (values_of h) = Some bs" "0 \<in> set bs" "length bs + 12 < 2 ^ 32" using L by (auto simp: has_chars_def split: option.splits)
  note T = strlen_text[OF bs(2)]
  let ?len = "word_of_nat (length (c_text bs)) :: uint32"
  have u: "unat ?len = length (c_text bs)" using T bs(3) by (intro unat_of_nat_small) simp
  have "string_legal (Set_Len x p c ?len) h" using L T bs(1,3) u by (auto simp: has_data_def)
  from set_len_step[OF ok this src] have "\<exists>h'. string_set_len x (Some p) src ?len h = Some h' \<and> string_inv h' \<and> values_of h' = value_exec (Set x p c) (values_of h)"
    using bs(1) T u by auto
  moreover have "chars_at src h = Some bs" using pointer_chars[OF ok bs(1)] src by auto
  ultimately show ?thesis using T by (simp add: string_set_def)
qed

lemma default_step:
  assumes ok: "string_inv h" and L: "new_object x h"
  shows "\<exists>h'. point_to x null_rec h = Some h' \<and> string_inv h' \<and> values_of h' = (values_of h)(x \<mapsto> []) \<and> sh_objects h' = (sh_objects h)(x \<mapsto> null_rec)
     \<and> text_at (sh_records h') = text_at (sh_records h)"
  using point_to_ok[OF ok _ null_text[OF ok], of x] L by (auto simp: new_object_def)

text \<open>A constructor that sets the new object: the characters are not the object's own.\<close>

lemma constructed:
  assumes ok: "string_inv h" and x: "new_object x h" and p: "sh_records h p = None" and c: "chars_of c (values_of h) = Some bs"
  shows "\<exists>h1 src. point_to x null_rec h = Some h1 \<and> string_inv h1 \<and> pointer_of c h = Some src \<and> pointer_of c h1 = Some src \<and> sh_objects h1 x \<noteq> None
     \<and> free_address x p h1 \<and> no_self x c h1 \<and> values_of h1 = (values_of h)(x \<mapsto> []) \<and> chars_of c (values_of h1) = Some bs"
proof -
  obtain h1 where h1: "point_to x null_rec h = Some h1" "string_inv h1" "values_of h1 = (values_of h)(x \<mapsto> [])" "sh_objects h1 = (sh_objects h)(x \<mapsto> null_rec)"
      "text_at (sh_records h1) = text_at (sh_records h)"
    using default_step[OF ok x] by blast
  obtain src where src: "pointer_of c h = Some src" using pointer_chars[OF ok c] by blast
  have "values_of h x = None" using x by (simp add: new_object_def string_values_def)
  then have cx: "c \<noteq> Text_Of x k" for k using c by auto
  have "pointer_of c h1 = Some src" using src cx h1(4) by (cases c) auto
  moreover have "chars_of c (values_of h1) = Some bs" using c cx h1(3) by (cases c) (auto split: option.splits)
  moreover have "sh_records h1 p = None" using fun_cong[OF h1(5), of p] p by (simp add: text_at_def)
  moreover have "no_self x c h1" by (simp add: no_self_def sole_def h1(4))
  ultimately show ?thesis using h1 src by (auto simp: free_address_def)
qed

lemma of_chars_step:
  assumes ok: "string_inv h" and L: "string_legal (Of_Chars x p c) h"
  shows "\<exists>h'. string_exec (Of_Chars x p c) h = Some h' \<and> string_inv h' \<and> values_of h' = value_exec (Of_Chars x p c) (values_of h)"
proof -
  have new: "new_object x h" "sh_records h p = None" using L by auto
  obtain bs where bs: "chars_of c (values_of h) = Some bs" using L by (auto simp: has_chars_def split: option.splits)
  obtain h1 src where h1: "point_to x null_rec h = Some h1" "string_inv h1" "pointer_of c h = Some src" "pointer_of c h1 = Some src" "sh_objects h1 x \<noteq> None"
      "free_address x p h1" "no_self x c h1" "values_of h1 = (values_of h)(x \<mapsto> [])" "chars_of c (values_of h1) = Some bs"
    using constructed[OF ok new bs] by blast
  have "string_legal (Set x p c) h1" using h1(5-7,9) L bs by (simp add: has_chars_def)
  from set_step[OF h1(2) this h1(4)] show ?thesis using h1(1,3,8,9) bs by (simp add: string_of_chars_def)
qed

lemma of_data_step:
  assumes ok: "string_inv h" and L: "string_legal (Of_Data x p c len) h"
  shows "\<exists>h'. string_exec (Of_Data x p c len) h = Some h' \<and> string_inv h' \<and> values_of h' = value_exec (Of_Data x p c len) (values_of h)"
proof -
  have new: "new_object x h" "sh_records h p = None" using L by auto
  obtain bs where bs: "chars_of c (values_of h) = Some bs" using L by (auto simp: has_data_def split: option.splits)
  obtain h1 src where h1: "point_to x null_rec h = Some h1" "string_inv h1" "pointer_of c h = Some src" "pointer_of c h1 = Some src" "sh_objects h1 x \<noteq> None"
      "free_address x p h1" "no_self x c h1" "values_of h1 = (values_of h)(x \<mapsto> [])" "chars_of c (values_of h1) = Some bs"
    using constructed[OF ok new bs] by blast
  have "string_legal (Set_Len x p c len) h1" using h1(5-7,9) L bs by (simp add: has_data_def)
  from set_len_step[OF h1(2) this h1(4)] show ?thesis using h1(1,3,8,9) bs by (simp add: string_of_data_def)
qed

lemma assign_step:
  assumes ok: "string_inv h" and L: "string_legal (Assign x y) h"
  shows "\<exists>h'. string_assign x y h = Some h' \<and> string_inv h' \<and> values_of h' = (values_of h)(x := values_of h y)"
proof -
  let ?X = "sh_objects h"
  obtain q p where q: "?X x = Some q" and p: "?X y = Some p" using L by auto
  obtain s where s: "text_at (sh_records h) p = Some s" "values_of h y = Some s" using object_value[OF ok p] by blast
  obtain h1 where h1: "dec_record q h = Some h1" "sh_objects h1 = ?X" "strings_ok (sh_records h1) (?X(x := None))"
      "string_values (sh_records h1) (?X(x := None)) = (values_of h)(x := None)"
      "\<And>p. text_at (sh_records h1) p = (if p = q \<and> sole x ?X then None else text_at (sh_records h) p)"
    using dec_record_ok[OF ok refl q] by blast
  have "\<not> (p = q \<and> sole x ?X)" using L p q by (auto simp: sole_def)
  then have t: "text_at (sh_records h1) p = Some s" using h1(5)[of p] s(1) by auto
  have "\<exists>h'. point_to x p h1 = Some h' \<and> string_inv h' \<and> values_of h' = (values_of h)(x \<mapsto> s)"
    using point_to_ok[OF h1(3) _ t, of x] counted_room[OF strings_okD(1)[OF ok] q] h1(2,4) by auto
  then show ?thesis using q p h1(1,2) s(2) by (simp add: string_assign_def)
qed

lemma string_step:
  assumes ok: "string_inv h" and L: "string_legal op h"
  shows "\<exists>h'. string_exec op h = Some h' \<and> string_inv h' \<and> values_of h' = value_exec op (values_of h)"
proof (cases op)
  case (Default x)
  then show ?thesis using default_step[OF ok] L by (fastforce simp: string_default_def)
next
  case (Of_Chars x p c)
  then show ?thesis using of_chars_step[OF ok] L by blast
next
  case (Of_Data x p c len)
  then show ?thesis using of_data_step[OF ok] L by blast
next
  case (Copy x y)
  then obtain p where p: "sh_objects h y = Some p" using L by auto
  obtain s where s: "text_at (sh_records h) p = Some s" "values_of h y = Some s" using object_value[OF ok p] by blast
  show ?thesis using point_to_ok[OF ok _ s(1), of x] L Copy p s(2) by (auto simp: string_copy_def new_object_def)
next
  case (Assign x y)
  then show ?thesis using assign_step[OF ok] L by simp
next
  case (Set x p c)
  then obtain src where "pointer_of c h = Some src" using pointer_chars[OF ok] L by (auto simp: has_chars_def split: option.splits)
  then show ?thesis using set_step[OF ok] L Set by fastforce
next
  case (Set_Len x p c len)
  then obtain src where "pointer_of c h = Some src" using pointer_chars[OF ok] L by (auto simp: has_data_def split: option.splits)
  then show ?thesis using set_len_step[OF ok] L Set_Len by fastforce
next
  case (Destroy x)
  then obtain q where q: "sh_objects h x = Some q" using L by auto
  show ?thesis using dec_record_ok[OF ok refl q] q Destroy by (auto simp: string_destroy_def)
qed

subsection \<open>Sequences of operations\<close>

interpretation strings: simulation string_exec string_legal "\<lambda>h V. string_inv h \<and> values_of h = V" value_exec
  by unfold_locales (use string_step in blast)

abbreviation string_run :: "string_op list \<Rightarrow> string_heap \<Rightarrow> string_heap option" where
  "string_run \<equiv> run_ops string_exec"

abbreviation string_legal_run :: "string_op list \<Rightarrow> string_heap \<Rightarrow> bool" where
  "string_legal_run \<equiv> legal_ops string_legal string_exec"

definition no_strings :: string_heap where
  "no_strings = \<lparr>sh_records = [null_rec \<mapsto> null_string_record], sh_objects = Map.empty\<rparr>"

lemma no_strings_ok: "string_inv no_strings \<and> values_of no_strings = Map.empty"
proof -
  have D: "rdat (sh_records no_strings) = [null_rec \<mapsto> (0x7FFFFFFF, [0])]"
    by (rule ext) (simp add: no_strings_def rdat_def null_string_record_def)
  have "counted null_rec [null_rec \<mapsto> (0x7FFFFFFF, [0 :: byte])] Map.empty" by (auto simp: counted_def split: if_splits)
  then have "counted null_rec (rdat (sh_records no_strings)) (sh_objects no_strings)" unfolding D by (simp add: no_strings_def)
  then show ?thesis unfolding strings_ok_def by (auto simp: no_strings_def record_ok_def null_string_record_def string_values_def split: if_splits)
qed

lemma object_text:
  assumes "string_inv h" "values_of h x = Some s"
  shows "string_data x h = Some (s @ [0]) \<and> map_option unat (string_len x h) = Some (length s)"
proof -
  obtain p r where "sh_objects h x = Some p" "text_at (sh_records h) p = Some s" "sh_records h p = Some r"
    using assms(2) by (auto simp: string_values_def text_at_def split: Option.bind_splits)
  then show ?thesis using text_data[OF assms(1)] by (simp add: string_data_def string_len_def)
qed

text \<open>C30. Strings behave as values although they share records.  Every legal sequence of constructions, copies, assignments, settings and destructions of
  string objects runs without following a pointer to freed memory and without writing outside of a record; each object then has its own value, with
  a zero byte behind it, and its length; and the records that are allocated are those of the objects, so that none is leaked.\<close>
theorem strings_are_values:
  assumes "string_legal_run ops no_strings"
  defines "V \<equiv> fold value_exec ops Map.empty"
  shows "\<exists>h. string_run ops no_strings = Some h \<and> dom (sh_objects h) = dom V
     \<and> (\<forall>x s. V x = Some s \<longrightarrow> string_data x h = Some (s @ [0]) \<and> map_option unat (string_len x h) = Some (length s))
     \<and> dom (sh_records h) = insert null_rec (ran (sh_objects h))"
proof -
  obtain h where h: "string_run ops no_strings = Some h" "string_inv h" "values_of h = V"
    using strings.runs[OF no_strings_ok assms(1)] unfolding V_def by auto
  note S = strings_okD[OF h(2)]
  have "p \<in> dom (sh_records h) \<longleftrightarrow> p \<in> insert null_rec (ran (sh_objects h))" for p
    using S(3) S(4)[of p] S(5)[of _ p] by (auto simp: ran_def)
  moreover have "x \<in> dom (sh_objects h) \<longleftrightarrow> x \<in> dom V" for x
    using object_value[OF h(2), of x] unfolding h(3)[symmetric] by (cases "sh_objects h x") (auto simp: string_values_def)
  moreover have "string_data x h = Some (s @ [0]) \<and> map_option unat (string_len x h) = Some (length s)" if "V x = Some s" for x s
    using object_text[OF h(2)] that unfolding h(3) by blast
  ultimately show ?thesis using h(1) by blast
qed

text \<open>Two objects share a record; one is set anew from the other's text, and the other is assigned.\<close>

definition demo_string_ops :: "string_op list" where
  "demo_string_ops = [Of_Chars 10 1 (Buffer [65, 66, 0, 67]), Copy 11 10, Set 10 2 (Text_Of 11 1), Default 12, Assign 12 11, Destroy 11]"

lemmas string_eval = demo_string_ops_def no_strings_def null_string_record_def get_null_string_record_def string_of_chars_def string_set_def string_set_len_def
  point_to_def dec_record_def string_copy_def string_default_def string_assign_def string_destroy_def mem_copy_def store_def
  new_object_def has_chars_def no_self_def free_address_def sole_def string_values_def text_at_def c_text_def Let_def

lemma demo_string_legal: "string_legal_run demo_string_ops no_strings"
  by (simp add: string_eval)

lemma demo_string_values: "fold value_exec demo_string_ops Map.empty = [10 \<mapsto> [66], 12 \<mapsto> [65, 66]]"
  by (rule ext) (simp add: demo_string_ops_def c_text_def)

theorem strings_are_values_witness:
  "\<exists>h. string_run demo_string_ops no_strings = Some h \<and> string_data 10 h = Some [66, 0] \<and> string_data 12 h = Some [65, 66, 0] \<and> sh_objects h 11 = None"
proof -
  let ?V = "[10 :: ptr \<mapsto> [66], 12 \<mapsto> [65, 66 :: byte]]"
  obtain h where h: "string_run demo_string_ops no_strings = Some h" "dom (sh_objects h) = dom ?V" "\<And>x s. ?V x = Some s \<Longrightarrow> string_data x h = Some (s @ [0])"
    using strings_are_values[OF demo_string_legal, unfolded demo_string_values] by metis
  have "(11 :: ptr) \<notin> dom ?V" by simp
  then have "sh_objects h 11 = None" unfolding h(2)[symmetric] by blast
  moreover have "?V 10 = Some [66]" "?V 12 = Some [65, 66]" by simp_all
  ultimately show ?thesis using h(1) h(3)[of 10] h(3)[of 12] by (intro exI[of _ h]) simp
qed

text \<open>What the condition on an object's own record excludes: assigning an object whose record nobody shares to itself, or setting it from its own
  characters, follows a pointer to the freed record.\<close>

lemma own_record_traps:
  assumes ok: "string_inv h" and x: "sh_objects h x = Some q" and sole: "sole x (sh_objects h)"
  shows "string_assign x x h = None \<and> string_set_len x m (Inside q k) len h = None"
proof -
  obtain h1 where h1: "dec_record q h = Some h1" "sh_objects h1 = sh_objects h"
      "\<forall>p. text_at (sh_records h1) p = (if p = q \<and> sole x (sh_objects h) then None else text_at (sh_records h) p)"
    using dec_record_ok[OF ok refl x] by blast
  then have "sh_records h1 q = None" using sole by (auto simp: text_at_def split: if_splits)
  then show ?thesis using h1(1,2) x by (simp add: string_assign_def string_set_len_def point_to_def split: bind_splits option.splits)
qed

end
