(* ===== verification/Formatted_Buffer.thy ===== *)
theory Formatted_Buffer
  imports String_Class
begin

text \<open>
  \<^verbatim>\<open>core/formatted_string_buffer.h\<close> with the allocation functions of \<^verbatim>\<open>core/memory_functions.h\<close>, and \<^verbatim>\<open>format_string\<close> of \<^verbatim>\<open>core/string.h\<close>.
  \<^verbatim>\<open>vsnprintf\<close> at one format and one argument list is the parameter \<open>vsn\<close>: from the number of times the list has been read before and the
  size of the buffer to the bytes it writes and the number it returns.  Only the first reading, \<open>vsn 0\<close>, is a promise of the library: the loop
  passes the same list on without \<^verbatim>\<open>va_copy\<close>, and what a list holds after a reading is indeterminate.  \<open>malloc\<close> and \<open>realloc\<close> answer with an
  address, or \<open>None\<close> for a failure; \<open>junk\<close> fills what they do not initialise.  \<^verbatim>\<open>realloc\<close> may move a block, also when it shrinks it.
\<close>

type_synonym memory = "ptr \<rightharpoonup> byte list"

record allocator =
  malloc_at :: "memory \<Rightarrow> nat \<Rightarrow> ptr option"
  realloc_at :: "memory \<Rightarrow> ptr \<Rightarrow> nat \<Rightarrow> ptr option"
  junk :: byte

subsection \<open>The source\<close>

definition memory_allocate :: "allocator \<Rightarrow> nat \<Rightarrow> memory \<Rightarrow> ptr option \<times> memory" where
  "memory_allocate al n m = (case malloc_at al m n of None \<Rightarrow> (None, m) | Some p \<Rightarrow> (Some p, m(p \<mapsto> replicate n (junk al))))"

definition memory_deallocate :: "ptr option \<Rightarrow> memory \<Rightarrow> memory option" where
  "memory_deallocate po m = (case po of None \<Rightarrow> Some m | Some p \<Rightarrow> do { bs \<leftarrow> m p; Some (m(p := None)) })"

definition memory_reallocate :: "allocator \<Rightarrow> ptr option \<Rightarrow> nat \<Rightarrow> bool \<Rightarrow> memory \<Rightarrow> (ptr option \<times> memory) option" where
  "memory_reallocate al po n keep_contents m =
     (if \<not> keep_contents \<or> po = None then do {
        m1 \<leftarrow> memory_deallocate po m;
        Some (memory_allocate al n m1) }
      else do {
        p \<leftarrow> po;
        bs \<leftarrow> m p;
        (case realloc_at al m p n of None \<Rightarrow> Some (None, m)
         | Some p' \<Rightarrow> Some (Some p', (m(p := None))(p' \<mapsto> take n bs @ replicate (n - length bs) (junk al)))) })"

record formatted_string_buffer =
  fb_fixed :: "byte list"
  fb_dynamic :: "ptr option"
  fb_dynamic_size :: uint32
  fb_len :: uint32

definition fixed_size :: uint32 where
  "fixed_size = 2048"

text \<open>The default constructor in memory that holds \<open>b\<close>.\<close>

definition new_formatted_buffer :: "formatted_string_buffer \<Rightarrow> formatted_string_buffer" where
  "new_formatted_buffer b = b\<lparr>fb_dynamic := None, fb_len := 0\<rparr>"

definition put_bytes :: "ptr option \<Rightarrow> byte list \<Rightarrow> memory \<Rightarrow> memory option" where
  "put_bytes po bs m = (if bs = [] then Some m else do {
     p \<leftarrow> po;
     old \<leftarrow> m p;
     new \<leftarrow> mem_copy old 0 bs (length bs);
     Some (m(p \<mapsto> new)) })"

type_synonym formatter = "nat \<Rightarrow> nat \<Rightarrow> byte list \<times> int"

text \<open>The rounds of the loop: the argument list has been read \<open>k\<close> times.  The address the last \<^verbatim>\<open>realloc\<close> answers with is dropped.\<close>

partial_function (option) format_loop :: "allocator \<Rightarrow> formatter \<Rightarrow> nat \<Rightarrow> formatted_string_buffer \<Rightarrow> memory
    \<Rightarrow> (uint32 \<times> formatted_string_buffer \<times> memory) option" where
  "format_loop al vsn k b m = do {
     let size = fb_dynamic_size b * 2;
     (p, m1) \<leftarrow> memory_reallocate al (fb_dynamic b) (unat size) False m;
     let (bs, result) = vsn k (unat size);
     m2 \<leftarrow> put_bytes p bs m1;
     let len = word_of_int result;
     let b1 = b\<lparr>fb_dynamic := p, fb_dynamic_size := size, fb_len := len\<rparr>;
     if len < size then do {
       (_, m3) \<leftarrow> memory_reallocate al p (unat (len + 1)) True m2;
       Some (len, b1, m3) }
     else format_loop al vsn (Suc k) b1 m2 }"

definition format_args :: "allocator \<Rightarrow> formatter \<Rightarrow> formatted_string_buffer \<Rightarrow> memory
    \<Rightarrow> (uint32 \<times> formatted_string_buffer \<times> memory) option" where
  "format_args al vsn b m = do {
     m1 \<leftarrow> memory_deallocate (fb_dynamic b) m;
     let (bs, result) = vsn 0 (unat fixed_size);
     fixed \<leftarrow> mem_copy (fb_fixed b) 0 bs (length bs);
     let b1 = b\<lparr>fb_dynamic := None, fb_fixed := fixed, fb_len := word_of_int result\<rparr>;
     if fb_len b1 < fixed_size then Some (fb_len b1, b1, m1)
     else format_loop al vsn 1 (b1\<lparr>fb_dynamic_size := fixed_size\<rparr>) m1 }"

text \<open>The variadic \<^verbatim>\<open>format\<close> forgets the dynamic buffer instead of freeing it.\<close>

definition format_variadic :: "allocator \<Rightarrow> formatter \<Rightarrow> formatted_string_buffer \<Rightarrow> memory
    \<Rightarrow> (uint32 \<times> formatted_string_buffer \<times> memory) option" where
  "format_variadic al vsn b m = format_args al vsn (b\<lparr>fb_dynamic := None\<rparr>) m"

definition formatted_buffer_of :: "allocator \<Rightarrow> formatter \<Rightarrow> formatted_string_buffer \<Rightarrow> memory
    \<Rightarrow> (formatted_string_buffer \<times> memory) option" where
  "formatted_buffer_of al vsn b m = map_option snd (format_args al vsn (b\<lparr>fb_dynamic := None\<rparr>) m)"

definition destroy_formatted_buffer :: "formatted_string_buffer \<Rightarrow> memory \<Rightarrow> memory option" where
  "destroy_formatted_buffer b m = memory_deallocate (fb_dynamic b) m"

definition buffer_c_str :: "formatted_string_buffer \<Rightarrow> memory \<Rightarrow> byte list option" where
  "buffer_c_str b m = (case fb_dynamic b of None \<Rightarrow> Some (fb_fixed b) | Some p \<Rightarrow> m p)"

definition buffer_size :: "formatted_string_buffer \<Rightarrow> uint32" where
  "buffer_size b = fb_len b + 1"

definition buffer_copy :: "byte list \<Rightarrow> uint32 \<Rightarrow> formatted_string_buffer \<Rightarrow> memory \<Rightarrow> (bool \<times> byte list) option" where
  "buffer_copy buffer n b m = do {
     assert (0 < n);
     chars \<leftarrow> buffer_c_str b m;
     if buffer_size b \<le> n then do {
       r \<leftarrow> mem_copy buffer 0 chars (unat (buffer_size b));
       Some (True, r) }
     else do {
       r \<leftarrow> mem_copy buffer 0 chars (unat (n - 1));
       r' \<leftarrow> store r (unat (n - 1)) 0;
       Some (False, r') } }"

definition format_buffer :: "(nat \<Rightarrow> byte list \<times> int) \<Rightarrow> byte list \<Rightarrow> uint32 \<Rightarrow> (int \<times> byte list) option" where
  "format_buffer vsn buffer n = do {
     assert (0 < n);
     let (bs, len) = vsn (unat n);
     r \<leftarrow> mem_copy buffer 0 bs (length bs);
     r' \<leftarrow> store r (unat (n - 1)) 0;
     Some (len, r') }"

text \<open>\<^verbatim>\<open>format_string\<close>: a local buffer in memory that holds \<open>b\<close>, and the string object \<open>x\<close> that is returned, with a record at \<open>p\<close>.\<close>

definition format_string :: "allocator \<Rightarrow> formatter \<Rightarrow> formatted_string_buffer \<Rightarrow> ptr \<Rightarrow> ptr option \<Rightarrow> string_heap \<times> memory
    \<Rightarrow> (string_heap \<times> memory) option" where
  "format_string al vsn b x p = (\<lambda>(h, m). do {
     (len, b1, m1) \<leftarrow> format_args al vsn (new_formatted_buffer b) m;
     h1 \<leftarrow> string_default x h;
     chars \<leftarrow> buffer_c_str b1 m1;
     h2 \<leftarrow> string_set_len x p (Outside chars) len h1;
     m2 \<leftarrow> destroy_formatted_buffer b1 m1;
     Some (h2, m2) })"

subsection \<open>What the libraries promise\<close>

text \<open>One reading of the argument list that formats the text \<open>t\<close>: it writes what fits with a zero byte behind it, and returns the length of the text.\<close>

definition vsn_law :: "(nat \<Rightarrow> byte list \<times> int) \<Rightarrow> byte list \<Rightarrow> bool" where
  "vsn_law vsn t \<longleftrightarrow> (\<forall>n. vsn n = (if n = 0 then [] else take (n - 1) t @ [0], int (length t)))"

text \<open>The case that reading the list again, for the \<open>k\<close>-th time, formats some text \<open>ts k\<close>, whatever it is; and that there is memory for the
  doubled buffers.\<close>

definition later_texts :: "formatter \<Rightarrow> (nat \<Rightarrow> byte list) \<Rightarrow> bool" where
  "later_texts vsn ts \<longleftrightarrow> (\<forall>k>0. vsn_law (vsn k) (ts k) \<and> length (ts k) < 2 ^ 31)"

definition memory_at_hand :: "allocator \<Rightarrow> memory \<Rightarrow> bool" where
  "memory_at_hand al m \<longleftrightarrow> (\<forall>j<32. \<exists>q. malloc_at al m (2 ^ j) = Some q \<and> m q = None)"

definition holds_text :: "formatted_string_buffer \<Rightarrow> memory \<Rightarrow> byte list \<Rightarrow> bool" where
  "holds_text b m t \<longleftrightarrow> unat (fb_len b) = length t \<and> length (fb_fixed b) = 2048 \<and> (\<exists>bs. buffer_c_str b m = Some bs \<and> length t < length bs \<and> take (length t + 1) bs = t @ [0])"

subsection \<open>The loop\<close>

lemma unat_two_power_small: "k < 32 \<Longrightarrow> unat (2 ^ k :: uint32) = 2 ^ k"
  using unat_of_nat_small[of "2 ^ k", where 'a = 32] power_strict_increasing[of k 32 "2 :: nat"] by simp

lemma mem_copy_whole: "length bs \<le> length d \<Longrightarrow> mem_copy d 0 bs (length bs) = Some (bs @ drop (length bs) d)"
  by (simp add: mem_copy_def)

lemma deallocate_base:
  assumes "case po of None \<Rightarrow> m0 = m | Some q \<Rightarrow> m q \<noteq> None \<and> m0 = m(q := None)"
  shows "memory_deallocate po m = Some m0"
  using assms by (cases po) (auto simp: memory_deallocate_def)

lemma vsn_fits: "vsn_law vsn t \<Longrightarrow> 0 < n \<Longrightarrow> vsn n = (take (n - 1) t @ [0], int (length t))"
  by (simp add: vsn_law_def)

lemma put_fresh:
  assumes "length bs \<le> n" "0 < n" "bs \<noteq> []"
  shows "put_bytes (Some p) bs (m(p \<mapsto> replicate n u)) = Some (m(p \<mapsto> bs @ replicate (n - length bs) u))"
  using assms by (simp add: put_bytes_def mem_copy_def)

lemma unat_len: "length t < 2 ^ 31 \<Longrightarrow> unat (word_of_int (int (length t)) :: uint32) = length t"
  by (simp add: unat_of_nat_small)

text \<open>One round: the buffer is doubled, and either holds the text or is given up for a larger one.\<close>

text \<open>The memory after the buffer \<open>q\<close> with the bytes \<open>X\<close>, which begin with the text \<open>t\<close>, was trimmed.\<close>

definition trimmed :: "allocator \<Rightarrow> byte list \<Rightarrow> memory \<Rightarrow> ptr \<Rightarrow> byte list \<Rightarrow> memory" where
  "trimmed al t m0 q X = (case realloc_at al (m0(q \<mapsto> X)) q (length t + 1) of None \<Rightarrow> m0(q \<mapsto> X) | Some q' \<Rightarrow> m0(q' \<mapsto> t @ [0]))"

lemma format_round:
  assumes vsn: "vsn_law (vsn k) t" and t: "length t < 2 ^ 31" and j: "fb_dynamic_size b = 2 ^ j" "j < 31"
    and base: "case fb_dynamic b of None \<Rightarrow> m0 = m | Some q \<Rightarrow> m q \<noteq> None \<and> m0 = m(q := None)"
    and p: "malloc_at al m0 (2 ^ Suc j) = Some p" "m0 p = None"
  shows "\<exists>X. (length t < 2 ^ Suc j \<longrightarrow> take (length t + 1) X = t @ [0] \<and> length t < length X) \<and> format_loop al vsn k b m
     = (let b1 = b\<lparr>fb_dynamic := Some p, fb_dynamic_size := 2 ^ Suc j, fb_len := word_of_nat (length t)\<rparr> in
        if length t < 2 ^ Suc j then Some (word_of_nat (length t), b1,
            trimmed al t m0 p X)
        else format_loop al vsn (Suc k) b1 (m0(p \<mapsto> X)))"
proof -
  let ?n = "2 ^ Suc j :: nat" and ?len = "word_of_nat (length t) :: uint32"
  have n: "unat (2 ^ Suc j :: uint32) = ?n" by (rule unat_two_power_small) (use j(2) in simp)
  have pos: "0 < ?n" by simp
  define bs where "bs = take (?n - 1) t @ [0]"
  define X where "X = bs @ replicate (?n - length bs) (junk al)"
  have len: "length bs \<le> ?n" using pos unfolding bs_def length_append length_take by (simp only: list.size)
  have put: "put_bytes (Some p) bs (m0(p \<mapsto> replicate ?n (junk al))) = Some (m0(p \<mapsto> X))" unfolding X_def by (rule put_fresh[OF len pos]) (simp add: bs_def)
  have v: "vsn k ?n = (bs, int (length t))" unfolding bs_def by (rule vsn_fits[OF vsn pos])
  have ul: "unat ?len = length t" using t by (simp add: unat_of_nat_small)
  have less: "?len < 2 ^ Suc j \<longleftrightarrow> length t < ?n" unfolding word_less_nat_alt n ul ..
  have l1: "unat (?len + 1) = length t + 1" using ul t by (simp add: unat_word_ariths)
  have exact: "take (length t + 1) X = t @ [0] \<and> length t < length X" if "length t < ?n" using that by (simp add: X_def bs_def del: power_Suc)
  have trim: "memory_reallocate al (Some p) (unat (?len + 1)) True (m0(p \<mapsto> X))
      = Some (case realloc_at al (m0(p \<mapsto> X)) p (length t + 1) of None \<Rightarrow> (None, m0(p \<mapsto> X)) | Some p' \<Rightarrow> (Some p', m0(p' \<mapsto> t @ [0])))"
    if fit: "length t < ?n"
  proof -
    have "(m0(p \<mapsto> X))(p := None) = m0" using p(2) by auto
    then show ?thesis using exact[OF fit] unfolding l1 by (simp add: memory_reallocate_def split: option.split)
  qed
  have re: "memory_reallocate al (fb_dynamic b) ?n False m = Some (Some p, m0(p \<mapsto> replicate ?n (junk al)))"
    using deallocate_base[OF base] p(1) by (simp add: memory_reallocate_def memory_allocate_def del: power_Suc)
  have size: "fb_dynamic_size b * 2 = 2 ^ Suc j" using j(1) by simp
  show ?thesis
    apply (intro exI[of _ X] conjI impI)
    using exact apply (simp_all del: power_Suc)
    apply (subst format_loop.simps)
    using trim by (simp add: size n re v put less Let_def trimmed_def del: power_Suc split: option.split)
qed

text \<open>The loop ends in the first round whose reading fits into its buffer; \<open>q\<close> is the buffer and \<open>X\<close> what it holds before it is trimmed.\<close>

definition loop_ends :: "nat \<Rightarrow> (nat \<Rightarrow> byte list) \<Rightarrow> nat \<Rightarrow> memory \<Rightarrow> ptr \<Rightarrow> byte list \<Rightarrow> bool" where
  "loop_ends k ts i m0 q X \<longleftrightarrow> k \<le> i \<and> length (ts i) < 2 ^ (11 + i) \<and> (\<forall>l. k \<le> l \<longrightarrow> l < i \<longrightarrow> 2 ^ (11 + l) \<le> length (ts l)) \<and> m0 q = None
     \<and> take (length (ts i) + 1) X = ts i @ [0] \<and> length (ts i) < length X"

lemma at_hand: "memory_at_hand al m \<Longrightarrow> k \<le> 20 \<Longrightarrow> \<exists>q. malloc_at al m (2 ^ Suc (10 + k)) = Some q \<and> m q = None"
  unfolding memory_at_hand_def by (elim allE[of _ "Suc (10 + k)"]) simp

lemma format_loop_round:
  assumes "later_texts vsn ts" "memory_at_hand al m0" "fb_dynamic_size b = 2 ^ (10 + k)" "0 < k" "k \<le> 20"
    and "case fb_dynamic b of None \<Rightarrow> m0 = m | Some q \<Rightarrow> m q \<noteq> None \<and> m0 = m(q := None)"
  shows "\<exists>q X. m0 q = None \<and> (length (ts k) < 2 ^ (11 + k) \<longrightarrow> loop_ends k ts k m0 q X) \<and> format_loop al vsn k b m
     = (let b1 = b\<lparr>fb_dynamic := Some q, fb_dynamic_size := 2 ^ (11 + k), fb_len := word_of_nat (length (ts k))\<rparr> in
        if length (ts k) < 2 ^ (11 + k) then Some (word_of_nat (length (ts k)), b1, trimmed al (ts k) m0 q X)
        else format_loop al vsn (Suc k) b1 (m0(q \<mapsto> X)))"
proof -
  have law: "vsn_law (vsn k) (ts k)" "length (ts k) < 2 ^ 31" using assms(1,4) by (simp_all add: later_texts_def)
  have k: "10 + k < 31" "Suc (10 + k) = 11 + k" using assms(5) by simp_all
  obtain q where q: "malloc_at al m0 (2 ^ Suc (10 + k)) = Some q" "m0 q = None" using at_hand[OF assms(2,5)] by blast
  from format_round[where vsn = vsn and k = k, OF law assms(3) k(1) assms(6) q, unfolded k(2)]
  obtain X where X: "length (ts k) < 2 ^ (11 + k) \<longrightarrow> take (length (ts k) + 1) X = ts k @ [0] \<and> length (ts k) < length X"
    "format_loop al vsn k b m = (let b1 = b\<lparr>fb_dynamic := Some q, fb_dynamic_size := 2 ^ (11 + k), fb_len := word_of_nat (length (ts k))\<rparr> in
        if length (ts k) < 2 ^ (11 + k) then Some (word_of_nat (length (ts k)), b1, trimmed al (ts k) m0 q X)
        else format_loop al vsn (Suc k) b1 (m0(q \<mapsto> X)))"
    by blast
  show ?thesis
    by (intro exI[of _ q] exI[of _ X] conjI X(2) q(2)) (use X(1) q(2) in \<open>simp add: loop_ends_def\<close>)
qed

lemma format_loop_ok:
  assumes "later_texts vsn ts" "memory_at_hand al m0" "fb_dynamic_size b = 2 ^ (10 + k)" "0 < k" "k \<le> 20"
    and "case fb_dynamic b of None \<Rightarrow> m0 = m | Some q \<Rightarrow> m q \<noteq> None \<and> m0 = m(q := None)"
  shows "\<exists>i q X n. loop_ends k ts i m0 q X \<and> format_loop al vsn k b m
     = Some (word_of_nat (length (ts i)), b\<lparr>fb_dynamic := Some q, fb_dynamic_size := n, fb_len := word_of_nat (length (ts i))\<rparr>, trimmed al (ts i) m0 q X)"
  using assms(3-6)
proof (induction "20 - k" arbitrary: b k m rule: less_induct)
  case (less k b m)
  obtain q X where X: "m0 q = None" "length (ts k) < 2 ^ (11 + k) \<longrightarrow> loop_ends k ts k m0 q X"
    "format_loop al vsn k b m = (let b1 = b\<lparr>fb_dynamic := Some q, fb_dynamic_size := 2 ^ (11 + k), fb_len := word_of_nat (length (ts k))\<rparr> in
        if length (ts k) < 2 ^ (11 + k) then Some (word_of_nat (length (ts k)), b1, trimmed al (ts k) m0 q X)
        else format_loop al vsn (Suc k) b1 (m0(q \<mapsto> X)))"
    using format_loop_round[OF assms(1,2) less.prems] by blast
  show ?case
  proof (cases "length (ts k) < 2 ^ (11 + k)")
    case True
    then have "loop_ends k ts k m0 q X" using X(2) by simp
    moreover have "format_loop al vsn k b m = Some (word_of_nat (length (ts k)), b\<lparr>fb_dynamic := Some q, fb_dynamic_size := 2 ^ (11 + k), fb_len := word_of_nat (length (ts k))\<rparr>,
       trimmed al (ts k) m0 q X)" unfolding X(3) Let_def using True by (simp only: if_True)
    ultimately show ?thesis by blast
  next
    case False
    let ?b = "b\<lparr>fb_dynamic := Some q, fb_dynamic_size := 2 ^ (11 + k), fb_len := word_of_nat (length (ts k))\<rparr>"
    have base: "case fb_dynamic ?b of None \<Rightarrow> m0 = m0(q \<mapsto> X) | Some r \<Rightarrow> (m0(q \<mapsto> X)) r \<noteq> None \<and> m0 = (m0(q \<mapsto> X))(r := None)"
      using X(1) by (auto simp: fun_upd_idem)
    have "length (ts k) < 2 ^ 31" using assms(1) less.prems(2) by (simp add: later_texts_def)
    then have "k \<noteq> 20" using False by auto
    then have k: "20 - Suc k < 20 - k" "fb_dynamic_size ?b = 2 ^ (10 + Suc k)" "0 < Suc k" "Suc k \<le> 20" using less.prems(3) by simp_all
    from less.hyps[OF k base] obtain i r Y n where i: "loop_ends (Suc k) ts i m0 r Y" "format_loop al vsn (Suc k) ?b (m0(q \<mapsto> X))
       = Some (word_of_nat (length (ts i)), ?b\<lparr>fb_dynamic := Some r, fb_dynamic_size := n, fb_len := word_of_nat (length (ts i))\<rparr>, trimmed al (ts i) m0 r Y)"
      by auto
    have "2 ^ (11 + l) \<le> length (ts l)" if "k \<le> l" "l < i" for l using that i(1) False by (cases "l = k") (auto simp: loop_ends_def)
    then have "loop_ends k ts i m0 r Y" using i(1) by (simp add: loop_ends_def)
    moreover have "format_loop al vsn k b m = format_loop al vsn (Suc k) ?b (m0(q \<mapsto> X))" unfolding X(3) Let_def using False by (simp only: if_False)
    ultimately show ?thesis using i(2) by auto
  qed
qed

lemma format_args_first:
  assumes vsn: "vsn_law (vsn 0) t" and t: "length t < 2 ^ 31" and fixed: "length (fb_fixed b) = 2048"
    and base: "case fb_dynamic b of None \<Rightarrow> m0 = m | Some q \<Rightarrow> m q \<noteq> None \<and> m0 = m(q := None)"
  shows "\<exists>b1. length (fb_fixed b1) = 2048 \<and> fb_dynamic b1 = None \<and> (length t < 2048 \<longrightarrow> holds_text b1 m0 t) \<and> format_args al vsn b m
     = (if length t < 2048 then Some (word_of_nat (length t), b1, m0) else format_loop al vsn 1 (b1\<lparr>fb_dynamic_size := 2048\<rparr>) m0)"
proof -
  let ?bs = "take 2047 t @ [0]"
  have v: "vsn 0 2048 = (?bs, int (length t))" using vsn_fits[OF vsn, of 2048] by simp
  let ?fixed = "?bs @ drop (length ?bs) (fb_fixed b)"
  have copy: "mem_copy (fb_fixed b) 0 ?bs (length ?bs) = Some ?fixed" by (rule mem_copy_whole) (use fixed in simp)
  have ul: "unat (word_of_nat (length t) :: uint32) = length t" using t by (simp add: unat_of_nat_small)
  have less: "word_of_nat (length t) < (2048 :: uint32) \<longleftrightarrow> length t < 2048" unfolding word_less_nat_alt ul by simp
  let ?b = "b\<lparr>fb_dynamic := None, fb_fixed := ?fixed, fb_len := word_of_nat (length t)\<rparr>"
  have lf: "length ?fixed = 2048" using fixed by simp
  have "holds_text ?b m0 t" if "length t < 2048" using that lf ul by (auto simp: holds_text_def buffer_c_str_def)
  then show ?thesis using deallocate_base[OF base] v copy less lf
    by (intro exI[of _ ?b]) (simp add: format_args_def fixed_size_def Let_def)
qed

lemma format_args_short:
  assumes "vsn_law (vsn 0) t" "length t < 2048" "length (fb_fixed b) = 2048"
    and "case fb_dynamic b of None \<Rightarrow> m0 = m | Some q \<Rightarrow> m q \<noteq> None \<and> m0 = m(q := None)"
  shows "\<exists>b1. format_args al vsn b m = Some (word_of_nat (length t), b1, m0) \<and> holds_text b1 m0 t \<and> destroy_formatted_buffer b1 m0 = Some m0"
  using format_args_first[where vsn = vsn, OF assms(1) _ assms(3,4), of al] assms(2) by (auto simp: destroy_formatted_buffer_def memory_deallocate_def)

lemma format_args_long:
  assumes "vsn_law (vsn 0) t" "length t < 2 ^ 31" "2048 \<le> length t" "length (fb_fixed b) = 2048" "later_texts vsn ts" "memory_at_hand al m0"
    and "case fb_dynamic b of None \<Rightarrow> m0 = m | Some q \<Rightarrow> m q \<noteq> None \<and> m0 = m(q := None)"
  shows "\<exists>i q X b1. loop_ends 1 ts i m0 q X \<and> format_args al vsn b m = Some (word_of_nat (length (ts i)), b1, trimmed al (ts i) m0 q X)
     \<and> fb_dynamic b1 = Some q \<and> fb_len b1 = word_of_nat (length (ts i)) \<and> length (fb_fixed b1) = 2048"
proof -
  obtain b1 where b1: "length (fb_fixed b1) = 2048" "fb_dynamic b1 = None" "format_args al vsn b m = format_loop al vsn 1 (b1\<lparr>fb_dynamic_size := 2048\<rparr>) m0"
    using format_args_first[where vsn = vsn, OF assms(1,2,4,7), of al] assms(3) by auto
  then show ?thesis using format_loop_ok[OF assms(5,6), of "b1\<lparr>fb_dynamic_size := 2048\<rparr>" 1 m0] by fastforce
qed

text \<open>A string object \<open>x\<close> is returned that holds the text \<open>t\<close>; every other object keeps its value, and no memory of the buffer is left.\<close>

definition returns_text :: "(string_heap \<times> memory) option \<Rightarrow> ptr \<Rightarrow> string_heap \<Rightarrow> memory \<Rightarrow> byte list \<Rightarrow> bool" where
  "returns_text r x h m t \<longleftrightarrow> (\<exists>h'. r = Some (h', m) \<and> string_inv h' \<and> values_of h' = (values_of h)(x \<mapsto> t) \<and> string_data x h' = Some (t @ [0]))"

lemma format_string_returns:
  assumes "format_args al vsn (new_formatted_buffer b) m = Some (word_of_nat (length t), b1, m1)" "holds_text b1 m1 t" "destroy_formatted_buffer b1 m1 = Some m"
    and "length t < 2 ^ 31" "string_inv h" "new_object x h" "sh_records h p = None"
  shows "returns_text (format_string al vsn b x (Some p) (h, m)) x h m t"
proof -
  let ?len = "word_of_nat (length t) :: uint32"
  obtain bs where bs: "buffer_c_str b1 m1 = Some bs" "length t < length bs" "take (length t + 1) bs = t @ [0]" using assms(2) by (auto simp: holds_text_def)
  have ul: "unat ?len = length t" using assms(4) by (simp add: unat_of_nat_small)
  have "take (length t) bs = t" using arg_cong[OF bs(3), of "take (length t)"] by simp
  moreover have "string_legal (Of_Data x p (Buffer bs) ?len) h" using assms(4,6,7) bs(2) ul by (simp add: has_data_def)
  ultimately obtain h' where h': "string_of_data x (Some p) (Outside bs) ?len h = Some h'" "string_inv h'" "values_of h' = (values_of h)(x \<mapsto> t)"
    using of_data_step[OF assms(5)] ul by fastforce
  have "format_string al vsn b x (Some p) (h, m) = Some (h', m)"
    using assms(1,3) bs(1) h'(1) by (auto simp: format_string_def string_of_data_def string_default_def split: bind_splits)
  then show ?thesis using h' object_text[OF h'(2), of x t] by (simp add: returns_text_def)
qed

text \<open>C31. Formatting.  A text of less than 2048 bytes, read from the argument list once, is returned exactly as a string object; every other
  object keeps its value, and the memory is as before, whatever the allocator does.  A longer text is not returned: the list is read again, without
  having been copied, for every doubling of the buffer.  In the case that these readings give texts \<open>ts 1\<close>, \<open>ts 2\<close>, \<dots> and that there is memory, the loop
  ends with the first of them that fits into its buffer.  If the \<^verbatim>\<open>realloc\<close> that trims the buffer to it leaves the block where it is or fails, this
  text is returned in the same way; if it moves the block, the buffer's pointer dangles and reading it traps.\<close>
theorem format_string_exact:
  assumes "vsn_law (vsn 0) t" "length t < 2 ^ 31" "length (fb_fixed b) = 2048" "string_inv h" "new_object x h" "sh_records h p = None"
  shows "(length t < 2048 \<longrightarrow> returns_text (format_string al vsn b x (Some p) (h, m)) x h m t)
     \<and> (2048 \<le> length t \<longrightarrow> later_texts vsn ts \<longrightarrow> memory_at_hand al m \<longrightarrow>
          (\<exists>i q X. loop_ends 1 ts i m q X
             \<and> (if realloc_at al (m(q \<mapsto> X)) q (length (ts i) + 1) \<in> {None, Some q}
                then returns_text (format_string al vsn b x (Some p) (h, m)) x h m (ts i)
                else format_string al vsn b x (Some p) (h, m) = None)))"
proof (intro conjI impI)
  let ?b = "new_formatted_buffer b"
  have b: "length (fb_fixed ?b) = 2048" "case fb_dynamic ?b of None \<Rightarrow> m = m | Some q \<Rightarrow> m q \<noteq> None \<and> m = m(q := None)"
    using assms(3) by (simp_all add: new_formatted_buffer_def)
  show "returns_text (format_string al vsn b x (Some p) (h, m)) x h m t" if "length t < 2048"
    using format_args_short[where vsn = vsn, OF assms(1) that b] format_string_returns[OF _ _ _ assms(2,4-6)] by blast
  assume long: "2048 \<le> length t" "later_texts vsn ts" "memory_at_hand al m"
  obtain i q X b1 where i: "loop_ends 1 ts i m q X" "format_args al vsn ?b m = Some (word_of_nat (length (ts i)), b1, trimmed al (ts i) m q X)"
      "fb_dynamic b1 = Some q" "fb_len b1 = word_of_nat (length (ts i))" "length (fb_fixed b1) = 2048"
    using format_args_long[where vsn = vsn, OF assms(1,2) long(1) b(1) long(2,3) b(2)] by blast
  have t: "length (ts i) < 2 ^ 31" using i(1) long(2) by (simp add: loop_ends_def later_texts_def)
  have e: "m q = None" "take (length (ts i) + 1) X = ts i @ [0]" "length (ts i) < length X" using i(1) by (simp_all add: loop_ends_def)
  have "returns_text (format_string al vsn b x (Some p) (h, m)) x h m (ts i)" if re: "realloc_at al (m(q \<mapsto> X)) q (length (ts i) + 1) \<in> {None, Some q}"
  proof (rule format_string_returns[OF i(2) _ _ t assms(4-6)])
    have ul: "unat (word_of_nat (length (ts i)) :: uint32) = length (ts i)" using t by (simp add: unat_of_nat_small)
    show "holds_text b1 (trimmed al (ts i) m q X) (ts i)" using re e i(3-5) ul by (auto simp: holds_text_def buffer_c_str_def trimmed_def)
    show "destroy_formatted_buffer b1 (trimmed al (ts i) m q X) = Some m"
      using re e(1) i(3) by (auto simp: destroy_formatted_buffer_def memory_deallocate_def trimmed_def fun_upd_idem)
  qed
  moreover have "format_string al vsn b x (Some p) (h, m) = None" if re: "realloc_at al (m(q \<mapsto> X)) q (length (ts i) + 1) \<notin> {None, Some q}"
  proof -
    obtain q' where "realloc_at al (m(q \<mapsto> X)) q (length (ts i) + 1) = Some q'" "q' \<noteq> q" using re by (cases "realloc_at al (m(q \<mapsto> X)) q (length (ts i) + 1)") auto
    then have "buffer_c_str b1 (trimmed al (ts i) m q X) = None" using i(3) e(1) by (simp add: buffer_c_str_def trimmed_def)
    then show ?thesis using i(2) by (simp add: format_string_def split: bind_splits)
  qed
  ultimately show "\<exists>i q X. loop_ends 1 ts i m q X \<and> (if realloc_at al (m(q \<mapsto> X)) q (length (ts i) + 1) \<in> {None, Some q}
       then returns_text (format_string al vsn b x (Some p) (h, m)) x h m (ts i) else format_string al vsn b x (Some p) (h, m) = None)"
    using i(1) by auto
qed

text \<open>An argument list whose first reading formats \<open>t\<close> and whose later readings format nothing but one letter, and an allocator that takes the first
  free address and moves a block when it shrinks it.\<close>

definition demo_vsn :: "byte list \<Rightarrow> formatter" where
  "demo_vsn t k n = (let s = (if k = 0 then t else [66]) in (if n = 0 then [] else take (n - 1) s @ [0], int (length s)))"

definition demo_allocator :: allocator where
  "demo_allocator = \<lparr>malloc_at = (\<lambda>m n. Some (LEAST p. m p = None)), realloc_at = (\<lambda>m p n. Some (p + 1)), junk = 7\<rparr>"

lemma demo_libraries: "vsn_law (demo_vsn t 0) t" "later_texts (demo_vsn t) (\<lambda>_. [66])" "memory_at_hand demo_allocator Map.empty"
  by (simp_all add: vsn_law_def later_texts_def demo_vsn_def memory_at_hand_def demo_allocator_def)

definition demo_buffer :: formatted_string_buffer where
  "demo_buffer = \<lparr>fb_fixed = replicate 2048 9, fb_dynamic = Some 99, fb_dynamic_size = 3, fb_len = 4\<rparr>"

theorem format_string_exact_witness:
  "returns_text (format_string demo_allocator (demo_vsn (replicate 2000 65)) demo_buffer 10 (Some 1) (no_strings, Map.empty)) 10 no_strings Map.empty (replicate 2000 65)
   \<and> format_string demo_allocator (demo_vsn (replicate 5000 65)) demo_buffer 10 (Some 1) (no_strings, Map.empty) = None"
proof -
  have "new_object 10 no_strings" "sh_records no_strings 1 = None" by (simp_all add: new_object_def no_strings_def get_null_string_record_def)
  moreover have "length (replicate n (65 :: byte)) < 2 ^ 31" if "n \<le> 5000" for n using that by simp
  moreover have "length (fb_fixed demo_buffer) = 2048" by (simp add: demo_buffer_def)
  ultimately have "(n < 2048 \<longrightarrow> returns_text (format_string demo_allocator (demo_vsn (replicate n 65)) demo_buffer 10 (Some 1) (no_strings, Map.empty)) 10 no_strings Map.empty (replicate n 65))
     \<and> (2048 \<le> n \<longrightarrow> format_string demo_allocator (demo_vsn (replicate n 65)) demo_buffer 10 (Some 1) (no_strings, Map.empty) = None)" if "n \<le> 5000" for n
    using format_string_exact[where vsn = "demo_vsn (replicate n 65)", OF demo_libraries(1)[of "replicate n 65"] _ _ conjunct1[OF no_strings_ok], of demo_buffer 10 1 demo_allocator Map.empty "\<lambda>_. [66]"]
      demo_libraries(2,3) that by (auto simp: demo_allocator_def)
  then show ?thesis by simp
qed

text \<open>\<^verbatim>\<open>copy\<close> delivers the text when it fits and its beginning otherwise, always with a zero byte behind it and inside of the destination.\<close>

lemma buffer_copy_ok:
  assumes h: "holds_text b m t" and n: "0 < n" "length buffer = unat n" and t: "length t < 2 ^ 31"
  shows "\<exists>r. buffer_copy buffer n b m = Some (length t < unat n, r) \<and> length r = unat n
     \<and> take (min (unat n) (length t + 1)) r = take (unat n - 1) t @ [0]"
proof -
  obtain bs where bs: "unat (fb_len b) = length t" "buffer_c_str b m = Some bs" "length t < length bs" "take (length t + 1) bs = t @ [0]" using h by (auto simp: holds_text_def)
  have sz: "unat (buffer_size b) = length t + 1" using bs(1) t by (simp add: buffer_size_def unat_word_ariths)
  have n1: "unat (n - 1) = unat n - 1" "0 < unat n" using n(1) by (simp_all add: unat_sub word_less_nat_alt word_le_nat_alt Suc_leI)
  have tk: "take k bs = take k t" if "k \<le> length t" for k using arg_cong[OF bs(4), of "take k"] that by simp
  show ?thesis
  proof (cases "length t < unat n")
    case True
    then have "buffer_size b \<le> n" using sz by (simp add: word_le_nat_alt)
    then show ?thesis using True n bs sz by (simp add: buffer_copy_def mem_copy_def)
  next
    case False
    then have "\<not> buffer_size b \<le> n" using sz by (simp add: word_le_nat_alt)
    then have "buffer_copy buffer n b m = Some (False, (take (unat n - 1) t @ drop (unat n - 1) buffer)[unat n - 1 := 0])"
      using False n bs(2,3) n1 tk[of "unat n - 1"] by (simp add: buffer_copy_def mem_copy_def)
    moreover have "(take (unat n - 1) t @ drop (unat n - 1) buffer)[unat n - 1 := 0] = take (unat n - 1) t @ [0]"
      using False n(2) n1(2) by (simp add: list_update_append Cons_nth_drop_Suc[symmetric])
    ultimately show ?thesis using False n1(2) by simp
  qed
qed

text \<open>The variadic \<^verbatim>\<open>format\<close> on a buffer that holds a long text leaks it: the block stays allocated and nothing points to it any more.\<close>

lemma variadic_leaks:
  assumes vsn: "vsn_law (vsn 0) t" and t: "length t < 2048" and fixed: "length (fb_fixed b) = 2048"
    and q: "fb_dynamic b = Some q" "m q = Some bs"
  shows "\<exists>b' m'. format_variadic al vsn b m = Some (word_of_nat (length t), b', m') \<and> holds_text b' m' t
     \<and> (\<exists>m''. destroy_formatted_buffer b' m' = Some m'' \<and> m'' q = Some bs)"
  using format_args_short[where vsn = vsn, OF vsn t, of "b\<lparr>fb_dynamic := None\<rparr>" m m al] fixed q by (auto simp: format_variadic_def)

text \<open>When \<^verbatim>\<open>vsnprintf\<close> reports an error, its \<open>- 1\<close> is the largest \<^verbatim>\<open>uint32\<close> and never smaller than the size: the loop does not end.\<close>

lemma format_error_no_end:
  assumes "\<forall>k n. snd (vsn k n) = - 1"
  shows "format_loop al vsn k b m = None"
proof (rule ccontr)
  assume "format_loop al vsn k b m \<noteq> None"
  then obtain r where "format_loop al vsn k b m = Some r" by blast
  moreover have "\<not> (- 1 :: uint32) < x" for x by (simp add: word_order.extremum_strict)
  ultimately have "\<exists>k n. snd (vsn k n) \<noteq> - 1"
    by (elim format_loop.raw_induct[where P = "\<lambda>al vsn k b m r. \<exists>k n. snd (vsn k n) \<noteq> - 1", rotated])
      (rule ccontr, auto simp: Let_def split_def split: bind_splits if_splits, fastforce+)
  then show False using assms by blast
qed

end
