(* ===== verification/Small_Block.thy ===== *)
theory Small_Block
  imports Page_Allocator Simulation
begin

text \<open>
  \<^verbatim>\<open>core/small_block_allocator.h\<close>: blocks of up to 1536 bytes, cut in multiples of 16 bytes from pages of a zone.  A status byte for each cache line of
  a page lies in a page of its own, shared by 16 pages; freed blocks are kept in lists by size.  Pointers have 32 bits, so that the header of a page
  fills one cache line.  The headers of pages, the status bytes and the headers of freed blocks are stores by address; the
  null pointer to status bytes is the address 0.  A page's pointer to the lists is the allocator itself.
\<close>

subsection \<open>The source\<close>

record 'r sb_page =
  sp_status_block :: ptr
  sp_prev :: "ptr option"
  sp_reference :: 'r

record free_memory_block =
  fm_next :: "ptr option"
  fm_status_byte :: ptr

record 'r small_block_allocator =
  sb_reference :: 'r
  sb_status_page :: ptr
  sb_status_used :: uint32
  sb_top_page :: "ptr option"
  sb_lines_used :: uint32
  sb_free :: "ptr option list"
  sb_pages :: "ptr \<rightharpoonup> 'r sb_page"
  sb_status :: "ptr \<rightharpoonup> byte"
  sb_blocks :: "ptr \<rightharpoonup> free_memory_block"

definition bucket_sizes :: "uint32 list" where
  "bucket_sizes = [1, 2, 3, 4, 5, 6, 8, 10, 12, 16, 20, 24, 32, 40, 48, 64, 80, 96, - 1]"

fun find_bucket_from :: "uint32 list \<Rightarrow> uint32 \<Rightarrow> uint32 \<Rightarrow> (uint32 \<times> uint32) option" where
  "find_bucket_from [] i cache_line_count = None"
| "find_bucket_from (b # bs) i cache_line_count = (if b < cache_line_count then find_bucket_from bs (i + 1) cache_line_count else Some (i, b))"

definition find_bucket :: "uint32 \<Rightarrow> (uint32 \<times> uint32) option" where
  "find_bucket cache_line_count = find_bucket_from bucket_sizes 0 cache_line_count"

definition sb_init :: "'r small_block_allocator \<Rightarrow> 'r small_block_allocator" where
  "sb_init s = s\<lparr>sb_status_page := 0, sb_top_page := None, sb_status_used := 16, sb_lines_used := 256, sb_free := replicate 18 None\<rparr>"

definition new_small_block_allocator :: "'r \<Rightarrow> 'r small_block_allocator" where
  "new_small_block_allocator reference = sb_init \<lparr>sb_reference = reference, sb_status_page = 0, sb_status_used = 0, sb_top_page = None, sb_lines_used = 0,
     sb_free = [], sb_pages = Map.empty, sb_status = Map.empty, sb_blocks = Map.empty\<rparr>"

definition set_reference_pointer :: "'r \<Rightarrow> 'r small_block_allocator \<Rightarrow> 'r small_block_allocator" where
  "set_reference_pointer p s = s\<lparr>sb_reference := p\<rparr>"

definition is_page_aligned :: "ptr \<Rightarrow> bool" where
  "is_page_aligned memory \<longleftrightarrow> memory mod 4096 = 0"

definition find_page :: "ptr \<Rightarrow> ptr" where
  "find_page memory = memory - memory mod 4096"

definition get_reference_pointer :: "ptr \<Rightarrow> 'r small_block_allocator \<Rightarrow> 'r option" where
  "get_reference_pointer memory s = do { pg \<leftarrow> sb_pages s (find_page memory); Some (sp_reference pg) }"

text \<open>\<^verbatim>\<open>memset\<close> of a page of status bytes to the invalid flag.\<close>

definition clear_status :: "ptr \<Rightarrow> (ptr \<rightharpoonup> byte) \<Rightarrow> ptr \<rightharpoonup> byte" where
  "clear_status q st = (\<lambda>a. if q \<le> a \<and> a < q + 4096 then Some 64 else st a)"

text \<open>When there is no memory for status bytes the new page is given back, but the count of used status blocks has been reset.\<close>

definition alloc_new_top_page :: "platform \<Rightarrow> (nat \<Rightarrow> block list \<Rightarrow> nat option) \<Rightarrow> 'r small_block_allocator \<times> zone_allocator
    \<Rightarrow> (bool \<times> 'r small_block_allocator \<times> zone_allocator) option" where
  "alloc_new_top_page pf os = (\<lambda>(s, z). do {
     (new_page, z1) \<leftarrow> allocate_pages pf os 1 z;
     (case new_page of None \<Rightarrow> Some (False, s, z1)
      | Some p \<Rightarrow> do {
          (ok, s2, z2) \<leftarrow> (if sb_status_used s = 16 then do {
             (q, z2) \<leftarrow> allocate_pages pf os 1 z1;
             (case q of
                None \<Rightarrow> do {
                  z3 \<leftarrow> deallocate_pages pf p 1 z2;
                  Some (False, s\<lparr>sb_status_used := 0, sb_status_page := 0\<rparr>, z3) }
              | Some q \<Rightarrow> Some (True, s\<lparr>sb_status_used := 0, sb_status_page := q, sb_status := clear_status q (sb_status s)\<rparr>, z2)) }
           else Some (True, s, z1));
          if \<not> ok then Some (False, s2, z2)
          else Some (True, s2\<lparr>
            sb_pages := (sb_pages s2)(p \<mapsto> \<lparr>sp_status_block = sb_status_page s2, sp_prev = sb_top_page s2, sp_reference = sb_reference s2\<rparr>),
            sb_top_page := Some p, sb_status_page := sb_status_page s2 + 256, sb_status_used := sb_status_used s2 + 1, sb_lines_used := 1\<rparr>, z2) }) })"

text \<open>Status bytes: the index of the bucket and a flag.\<close>

definition set_status :: "ptr \<Rightarrow> byte \<Rightarrow> 'r small_block_allocator \<Rightarrow> 'r small_block_allocator option" where
  "set_status a v s = do { old \<leftarrow> sb_status s a; Some (s\<lparr>sb_status := (sb_status s)(a \<mapsto> v)\<rparr>) }"

text \<open>The block at the head of a list of freed blocks becomes the client's.\<close>

definition reuse_block :: "ptr \<Rightarrow> uint32 \<Rightarrow> 'r small_block_allocator \<Rightarrow> 'r small_block_allocator option" where
  "reuse_block ret bucket_index s = do {
     fm \<leftarrow> sb_blocks s ret;
     buckets \<leftarrow> store (sb_free s) (unat bucket_index) (fm_next fm);
     status \<leftarrow> sb_status s (fm_status_byte fm);
     assert (status AND 128 \<noteq> 0);
     set_status (fm_status_byte fm) ((status AND 31) OR 32) (s\<lparr>sb_free := buckets, sb_blocks := (sb_blocks s)(ret := None)\<rparr>) }"

definition cut_block :: "uint32 \<Rightarrow> uint32 \<Rightarrow> 'r small_block_allocator \<Rightarrow> (ptr \<times> 'r small_block_allocator) option" where
  "cut_block bucket_index bucket_size s = do {
     top \<leftarrow> sb_top_page s;
     pg \<leftarrow> sb_pages s top;
     s1 \<leftarrow> set_status (sp_status_block pg + unat (sb_lines_used s)) (ucast (bucket_index OR 32)) s;
     Some (top + unat (push_bit 4 (sb_lines_used s)), s1\<lparr>sb_lines_used := sb_lines_used s + bucket_size\<rparr>) }"

definition sb_allocate :: "platform \<Rightarrow> (nat \<Rightarrow> block list \<Rightarrow> nat option) \<Rightarrow> uint32 \<Rightarrow> 'r small_block_allocator \<times> zone_allocator
    \<Rightarrow> (ptr option \<times> 'r small_block_allocator \<times> zone_allocator) option" where
  "sb_allocate pf os num_bytes = (\<lambda>(s, z). do {
     assert (num_bytes \<le> 1536);
     (bucket_index, bucket_size) \<leftarrow> find_bucket (drop_bit 4 (num_bytes + 15));
     assert (bucket_index < 18);
     first \<leftarrow> load (sb_free s) (unat bucket_index);
     (case first of
        Some ret \<Rightarrow> do { s1 \<leftarrow> reuse_block ret bucket_index s; Some (Some ret, s1, z) }
      | None \<Rightarrow> do {
          (ok, s1, z1) \<leftarrow> (if 256 < sb_lines_used s + bucket_size then alloc_new_top_page pf os (s, z) else Some (True, s, z));
          if \<not> ok then Some (None, s1, z1)
          else do { (r, s2) \<leftarrow> cut_block bucket_index bucket_size s1; Some (Some r, s2, z1) } }) })"

definition sb_deallocate :: "ptr \<Rightarrow> 'r small_block_allocator \<Rightarrow> 'r small_block_allocator option" where
  "sb_deallocate memory s = do {
     let the_page = find_page memory;
     pg \<leftarrow> sb_pages s the_page;
     let status_byte = sp_status_block pg + (memory - the_page) div 16;
     status \<leftarrow> sb_status s status_byte;
     assert (status AND 32 \<noteq> 0);
     let bucket_index = status AND 31;
     first \<leftarrow> load (sb_free s) (unat bucket_index);
     buckets \<leftarrow> store (sb_free s) (unat bucket_index) (Some memory);
     set_status status_byte (bucket_index OR 128)
       (s\<lparr>sb_free := buckets, sb_blocks := (sb_blocks s)(memory \<mapsto> \<lparr>fm_next = first, fm_status_byte = status_byte\<rparr>)\<rparr>) }"

partial_function (option) sb_destroy :: "platform \<Rightarrow> 'r small_block_allocator \<Rightarrow> zone_allocator \<Rightarrow> ('r small_block_allocator \<times> zone_allocator) option" where
  "sb_destroy pf s z = (case sb_top_page s of None \<Rightarrow> Some (s, z)
     | Some p \<Rightarrow> do {
         pg \<leftarrow> sb_pages s p;
         z1 \<leftarrow> (if is_page_aligned (sp_status_block pg) then deallocate_pages pf (sp_status_block pg) 1 z else Some z);
         z2 \<leftarrow> deallocate_pages pf p 1 z1;
         sb_destroy pf (s\<lparr>sb_top_page := sp_prev pg, sb_pages := (sb_pages s)(p := None)\<rparr>) z2 })"

definition sb_clear :: "platform \<Rightarrow> 'r small_block_allocator \<times> zone_allocator \<Rightarrow> ('r small_block_allocator \<times> zone_allocator) option" where
  "sb_clear pf = (\<lambda>(s, z). do { (s1, z1) \<leftarrow> sb_destroy pf s z; Some (sb_init s1, z1) })"

subsection \<open>Sizes and status bytes\<close>

definition bsz :: "nat \<Rightarrow> nat" where
  "bsz i = unat (bucket_sizes ! i)"

definition status_code :: "nat \<Rightarrow> bool \<Rightarrow> byte" where
  "status_code i used = word_of_nat i OR (if used then 32 else 128)"

lemma small_index: "(i :: nat) < 18 \<Longrightarrow> i \<in> {0, 1, 2, 3, 4, 5, 6, 7, 8, 9, 10, 11, 12, 13, 14, 15, 16, 17}"
  by (simp add: numeral_eq_Suc less_Suc_eq)

lemma bsz_bounds: "i < 18 \<Longrightarrow> 1 \<le> bsz i \<and> bsz i \<le> 96 \<and> bucket_sizes ! i = word_of_nat (bsz i)"
  using small_index[of i] by (auto simp: bsz_def bucket_sizes_def)

lemma status_code_simps:
  assumes "i < 18"
  shows "status_code i u AND 31 = word_of_nat i" "status_code i True AND 32 \<noteq> 0" "status_code i False AND 128 \<noteq> 0"
    "word_of_nat i OR 32 = status_code i True" "word_of_nat i OR 128 = status_code i False" "ucast (word_of_nat i OR 32 :: uint32) = status_code i True"
  using small_index[OF assms] by (cases u; auto simp: status_code_def)+

lemma find_bucket_from_ok:
  "k < length bs \<Longrightarrow> n \<le> bs ! k \<Longrightarrow> \<exists>j \<le> k. find_bucket_from bs i n = Some (i + word_of_nat j, bs ! j) \<and> n \<le> bs ! j"
proof (induction bs arbitrary: i k)
  case (Cons b bs)
  show ?case
  proof (cases "b < n")
    case True
    then obtain k' where k: "k = Suc k'" using Cons.prems by (cases k) (auto simp: not_le[symmetric])
    then obtain j where j: "j \<le> k'" "find_bucket_from bs (i + 1) n = Some (i + 1 + word_of_nat j, bs ! j)" "n \<le> bs ! j"
      using Cons.IH[of k' "i + 1"] Cons.prems by auto
    then show ?thesis using True k by (intro exI[of _ "Suc j"]) (simp add: add.assoc)
  next
    case False
    then show ?thesis by (intro exI[of _ 0]) auto
  qed
qed simp

lemma find_bucket_ok:
  assumes "n \<le> 1536"
  shows "\<exists>i < 18. find_bucket (drop_bit 4 (n + 15)) = Some (word_of_nat i, word_of_nat (bsz i)) \<and> unat n \<le> 16 * bsz i"
proof -
  let ?c = "drop_bit 4 (n + 15)"
  have "unat n \<le> 1536" using assms by (simp add: word_le_nat_alt)
  then have "unat (n + 15) = unat n + 15" by (simp add: unat_word_ariths)
  then have c: "unat ?c = (unat n + 15) div 16" by (simp add: unat_div drop_bit_eq_div)
  then have "?c \<le> bucket_sizes ! 17" using \<open>unat n \<le> 1536\<close> by (simp add: bucket_sizes_def word_le_nat_alt)
  then obtain j where j: "j \<le> 17" "find_bucket ?c = Some (word_of_nat j, bucket_sizes ! j)" "?c \<le> bucket_sizes ! j"
    using find_bucket_from_ok[of 17 bucket_sizes ?c 0] by (auto simp: find_bucket_def bucket_sizes_def)
  have "unat n \<le> 16 * unat ?c" unfolding c by linarith
  moreover have "unat ?c \<le> bsz j" using j(3) by (simp add: bsz_def word_le_nat_alt)
  ultimately show ?thesis using j(1,2) bsz_bounds[of j] by (intro exI[of _ j]) simp
qed

subsection \<open>The invariant\<close>

definition stat :: "'r small_block_allocator \<Rightarrow> ptr \<Rightarrow> ptr" where
  "stat s p = sp_status_block (the (sb_pages s p))"

definition line :: "ptr \<Rightarrow> nat" where
  "line a = a mod 4096 div 16"

definition status_byte :: "'r small_block_allocator \<Rightarrow> ptr \<Rightarrow> ptr" where
  "status_byte s a = stat s (find_page a) + line a"

definition used_lines :: "'r small_block_allocator \<Rightarrow> ptr \<Rightarrow> nat" where
  "used_lines s p = (if sb_top_page s = Some p then unat (sb_lines_used s) else 256)"

text \<open>\<open>ps\<close> are the pages, newest first; \<open>rest\<close> is the other live memory of the zone.  Status pages are live as long as the page whose status block
  they start with.\<close>

definition pages_ok :: "block list \<Rightarrow> ptr list \<Rightarrow> 'r small_block_allocator \<Rightarrow> zone_allocator \<Rightarrow> bool" where
  "pages_ok rest ps s z \<longleftrightarrow> chain sp_prev (sb_pages s) (sb_top_page s) ps
     \<and> mset (za_live z) = mset (map (\<lambda>p. (p, 4096)) ps) + mset (map (\<lambda>q. (q, 4096)) (filter is_page_aligned (map (stat s) ps))) + mset rest
     \<and> separate (za_live z) \<and> za_quota z = 0 \<and> (\<forall>p \<in> set ps. is_page_aligned p)
     \<and> 1 \<le> unat (sb_lines_used s) \<and> unat (sb_lines_used s) \<le> 256 \<and> (ps = [] \<longrightarrow> sb_lines_used s = 256)"

definition status_ok :: "ptr list \<Rightarrow> 'r small_block_allocator \<Rightarrow> zone_allocator \<Rightarrow> bool" where
  "status_ok ps s z \<longleftrightarrow> (\<forall>p \<in> set ps. (\<forall>k < 256. sb_status s (stat s p + k) \<noteq> None) \<and> (\<exists>q. (q, 4096) \<in> set (za_live z) \<and> q \<le> stat s p \<and> stat s p + 256 \<le> q + 4096))
     \<and> (\<forall>p \<in> set ps. \<forall>p' \<in> set ps. p \<noteq> p' \<longrightarrow> apart (stat s p, 256) (stat s p', 256))
     \<and> (sb_status_used s = 16 \<or> (\<exists>q u. (q, 4096) \<in> set (za_live z) \<and> is_page_aligned q \<and> unat (sb_status_used s) = u \<and> 0 < u \<and> u < 16
          \<and> sb_status_page s = q + 256 * u \<and> (\<forall>k < 4096. sb_status s (q + k) \<noteq> None) \<and> (\<forall>p \<in> set ps. apart (q + 256 * u, 4096 - 256 * u) (stat s p, 256))))"

text \<open>\<open>B\<close> maps the address of every block that was cut to its bucket; \<open>A\<close> are the blocks of the client.\<close>

definition slots_ok :: "ptr list \<Rightarrow> (ptr \<rightharpoonup> nat) \<Rightarrow> ptr set \<Rightarrow> 'r small_block_allocator \<Rightarrow> bool" where
  "slots_ok ps B A s \<longleftrightarrow> A \<subseteq> dom B
     \<and> (\<forall>a i. B a = Some i \<longrightarrow> i < 18 \<and> 16 dvd a \<and> find_page a \<in> set ps \<and> 1 \<le> line a \<and> line a + bsz i \<le> used_lines s (find_page a)
          \<and> sb_status s (status_byte s a) = Some (status_code i (a \<in> A)))
     \<and> (\<forall>a i b j. B a = Some i \<longrightarrow> B b = Some j \<longrightarrow> a \<noteq> b \<longrightarrow> apart (a, 16 * bsz i) (b, 16 * bsz j))"

definition lists_ok :: "(ptr \<rightharpoonup> nat) \<Rightarrow> ptr set \<Rightarrow> 'r small_block_allocator \<Rightarrow> bool" where
  "lists_ok B A s \<longleftrightarrow> length (sb_free s) = 18 \<and> (\<exists>F. \<forall>i < 18. chain fm_next (sb_blocks s) (sb_free s ! i) (F i)
     \<and> set (F i) = {a. B a = Some i \<and> a \<notin> A} \<and> (\<forall>a \<in> set (F i). map_option fm_status_byte (sb_blocks s a) = Some (status_byte s a)))"

definition sb_inv :: "block list \<Rightarrow> ptr list \<Rightarrow> (ptr \<rightharpoonup> nat) \<Rightarrow> ptr set \<Rightarrow> 'r small_block_allocator \<times> zone_allocator \<Rightarrow> bool" where
  "sb_inv rest ps B A = (\<lambda>(s, z). pages_ok rest ps s z \<and> status_ok ps s z \<and> slots_ok ps B A s \<and> lists_ok B A s)"

lemma line_less: "line a < 256"
  by (simp add: line_def less_mult_imp_div_less)

lemma page_line: "16 dvd a \<Longrightarrow> a = find_page a + 16 * line a"
proof -
  assume "16 dvd a"
  moreover have "(16 :: nat) dvd 4096" by (simp add: dvd_def)
  ultimately have "16 dvd a mod 4096" by (meson dvd_mod)
  then show ?thesis by (simp add: find_page_def line_def)
qed

lemma page_line_of:
  assumes "is_page_aligned p" "l < 256"
  shows "find_page (p + 16 * l) = p" "line (p + 16 * l) = l"
proof -
  obtain k where p: "p = 4096 * k" using assms(1) by (auto simp: is_page_aligned_def)
  have "(p + 16 * l) mod 4096 = 16 * l" using assms(2) unfolding p by simp
  then show "find_page (p + 16 * l) = p" "line (p + 16 * l) = l" by (simp_all add: find_page_def line_def)
qed

lemma page_live: "pages_ok rest ps s z \<Longrightarrow> p \<in> set ps \<Longrightarrow> (p, 4096) \<in> set (za_live z)"
proof -
  assume p: "pages_ok rest ps s z" "p \<in> set ps"
  then have "set (za_live z) = set (map (\<lambda>p. (p, 4096)) ps @ map (\<lambda>q. (q, 4096)) (filter is_page_aligned (map (stat s) ps)) @ rest)"
    by (intro mset_eq_setD) (simp add: pages_ok_def)
  then show ?thesis using p(2) by auto
qed

lemma page_found: "pages_ok rest ps s z \<Longrightarrow> p \<in> set ps \<Longrightarrow> \<exists>pg. sb_pages s p = Some pg \<and> sp_status_block pg = stat s p"
  using chain_dom[of sp_prev "sb_pages s" "sb_top_page s" ps] by (fastforce simp: pages_ok_def stat_def)

text \<open>Blocks have status bytes of their own.\<close>

lemma status_byte_inj:
  assumes st: "status_ok ps s z" and "find_page a \<in> set ps" "find_page b \<in> set ps" "16 dvd a" "16 dvd b" "status_byte s a = status_byte s b"
  shows "a = b"
proof (cases "find_page a = find_page b")
  case True
  then show ?thesis using assms(6) page_line[OF assms(4)] page_line[OF assms(5)] by (simp add: status_byte_def)
next
  case False
  then have "apart (stat s (find_page a), 256) (stat s (find_page b), 256)" using st assms(2,3) by (simp add: status_ok_def)
  then show ?thesis using assms(6) line_less[of a] line_less[of b] by (auto simp: apart_def status_byte_def)
qed

lemma slotD:
  assumes "slots_ok ps B A s" "B a = Some i"
  shows "i < 18" "16 dvd a" "find_page a \<in> set ps" "1 \<le> line a" "line a + bsz i \<le> used_lines s (find_page a)"
    "sb_status s (status_byte s a) = Some (status_code i (a \<in> A))"
  using assms unfolding slots_ok_def by blast+

lemma used_lines_le: "pages_ok rest ps s z \<Longrightarrow> used_lines s p \<le> 256"
  by (simp add: used_lines_def pages_ok_def)

lemma slot_inside:
  assumes "pages_ok rest ps s z" "slots_ok ps B A s" "B a = Some i"
  shows "find_page a + 16 \<le> a" "a + 16 * bsz i \<le> find_page a + 16 * used_lines s (find_page a)" "a + 16 * bsz i \<le> find_page a + 4096"
  using slotD[OF assms(2,3)] page_line[of a] used_lines_le[OF assms(1), of "find_page a"] by linarith+

lemma pages_apart_4096:
  assumes "pages_ok rest ps s z" "p \<in> set ps" "q \<in> set ps" "p \<noteq> q"
  shows "apart (p, 4096) (q, 4096)"
proof -
  have "separate (za_live z)" using assms(1) by (simp add: pages_ok_def)
  then show ?thesis using page_live[OF assms(1,2)] page_live[OF assms(1,3)] assms(4) by (force simp: separate_def)
qed

text \<open>The lines behind those in use are apart from all blocks.\<close>

lemma slot_below:
  assumes "pages_ok rest ps s z" "slots_ok ps B A s" "sb_top_page s = Some p" "B b = Some j" "find_page b = p"
  shows "b + 16 * bsz j \<le> p + 16 * unat (sb_lines_used s)"
  using slot_inside(2)[OF assms(1,2,4)] assms(3,5) by (simp add: used_lines_def)

lemma room_apart:
  assumes P: "pages_ok rest ps s z" and S: "slots_ok ps B A s" and p: "sb_top_page s = Some p" "p \<in> set ps" and room: "unat (sb_lines_used s) + k \<le> 256" and b: "B b = Some j"
  shows "apart (p + 16 * unat (sb_lines_used s), 16 * k) (b, 16 * bsz j)"
proof (cases "find_page b = p")
  case True
  then show ?thesis using slot_below[OF P S p(1) b] by (simp add: apart_def)
next
  case False
  then have "apart (p, 4096) (find_page b, 4096)" using pages_apart_4096[OF P p(2) slotD(3)[OF S b]] by simp
  then show ?thesis using slot_inside[OF P S b] room by (auto simp: apart_def)
qed

definition cut_lines :: "ptr \<Rightarrow> nat \<Rightarrow> 'r small_block_allocator \<Rightarrow> 'r small_block_allocator" where
  "cut_lines p i s = s\<lparr>sb_status := (sb_status s)(stat s p + unat (sb_lines_used s) \<mapsto> status_code i True),
     sb_lines_used := sb_lines_used s + word_of_nat (bsz i)\<rparr>"

lemma cut_lines_simps [simp]: "stat (cut_lines p i s) = stat s" "status_byte (cut_lines p i s) = status_byte s" "sb_top_page (cut_lines p i s) = sb_top_page s"
  "sb_pages (cut_lines p i s) = sb_pages s" "sb_free (cut_lines p i s) = sb_free s" "sb_blocks (cut_lines p i s) = sb_blocks s" "sb_reference (cut_lines p i s) = sb_reference s"
  "sb_status_page (cut_lines p i s) = sb_status_page s" "sb_status_used (cut_lines p i s) = sb_status_used s"
  "sb_status (cut_lines p i s) = (sb_status s)(stat s p + unat (sb_lines_used s) \<mapsto> status_code i True)"
  by (simp_all add: cut_lines_def stat_def status_byte_def fun_eq_iff)

lemma cut_lines_used: "i < 18 \<Longrightarrow> unat (sb_lines_used s) + bsz i \<le> 256 \<Longrightarrow> unat (sb_lines_used (cut_lines p i s)) = unat (sb_lines_used s) + bsz i"
  using bsz_bounds[of i] by (simp add: cut_lines_def unat_word_ariths unat_of_nat_small)

lemma cut_slots_ok:
  assumes P: "pages_ok rest ps s z" and T: "status_ok ps s z" and S: "slots_ok ps B A s" and p: "sb_top_page s = Some p" "p \<in> set ps" "is_page_aligned p"
    and i: "i < 18" and l: "1 \<le> unat (sb_lines_used s)" "unat (sb_lines_used s) + bsz i \<le> 256"
  defines "a \<equiv> p + 16 * unat (sb_lines_used s)"
  shows "B a = None" "slots_ok ps (B(a \<mapsto> i)) (insert a A) (cut_lines p i s)"
proof -
  let ?l = "unat (sb_lines_used s)" and ?s = "cut_lines p i s"
  have "?l < 256" using l bsz_bounds[OF i] by simp
  from page_line_of[OF p(3) this] have a: "find_page a = p" "line a = ?l" by (simp_all add: a_def)
  have "16 dvd p" using p(3) dvd_trans[of 16 4096 p] by (simp add: is_page_aligned_def mod_eq_0_iff_dvd dvd_def)
  then have al: "16 dvd a" by (simp add: a_def)
  have sa: "status_byte s a = stat s p + ?l" by (simp add: status_byte_def a)
  have ul: "used_lines s q \<le> used_lines ?s q" "used_lines ?s p = ?l + bsz i" for q using cut_lines_used[OF i l(2), of p] p(1) by (auto simp: used_lines_def)
  show new: "B a = None"
  proof (rule ccontr)
    assume "B a \<noteq> None"
    then obtain j where j: "B a = Some j" by blast
    from slot_below[OF P S p(1) j a(1)] show False using bsz_bounds[OF slotD(1)[OF S j]] by (simp add: a_def)
  qed
  have "j < 18 \<and> 16 dvd b \<and> find_page b \<in> set ps \<and> 1 \<le> line b \<and> line b + bsz j \<le> used_lines ?s (find_page b)
      \<and> sb_status ?s (status_byte ?s b) = Some (status_code j (b \<in> insert a A))" if b: "(B(a \<mapsto> i)) b = Some j" for b j
  proof (cases "b = a")
    case True
    then show ?thesis using b i al a l(1) ul(2) p(2) sa by simp
  next
    case False
    then have b': "B b = Some j" using b by simp
    note D = slotD[OF S b']
    have "status_byte s b \<noteq> stat s p + ?l" using status_byte_inj[OF T D(3) _ D(2) al] False a(1) p(2) sa by auto
    then show ?thesis using D ul(1)[of "find_page b"] False by auto
  qed
  moreover have "apart (a, 16 * bsz i) (b, 16 * bsz j)" if "B b = Some j" for b j unfolding a_def by (rule room_apart[OF P S p(1,2) l(2) that])
  ultimately show "slots_ok ps (B(a \<mapsto> i)) (insert a A) ?s" using S apart_sym unfolding slots_ok_def by auto
qed

lemma status_ok_mono:
  assumes T: "status_ok ps s z" and eq: "stat s' = stat s" "sb_status_used s' = sb_status_used s" "sb_status_page s' = sb_status_page s"
    and m: "\<And>a. sb_status s a \<noteq> None \<Longrightarrow> sb_status s' a \<noteq> None"
  shows "status_ok ps s' z"
  unfolding status_ok_def eq
proof (intro conjI)
  show "\<forall>p \<in> set ps. (\<forall>k < 256. sb_status s' (stat s p + k) \<noteq> None) \<and> (\<exists>q. (q, 4096) \<in> set (za_live z) \<and> q \<le> stat s p \<and> stat s p + 256 \<le> q + 4096)"
    using T m unfolding status_ok_def by blast
  show "\<forall>p \<in> set ps. \<forall>p' \<in> set ps. p \<noteq> p' \<longrightarrow> apart (stat s p, 256) (stat s p', 256)" using T unfolding status_ok_def by blast
  have m': "(\<forall>k < 4096. sb_status s (q + k) \<noteq> None) \<Longrightarrow> \<forall>k < 4096. sb_status s' (q + k) \<noteq> None" for q using m by blast
  show "sb_status_used s = 16 \<or> (\<exists>q u. (q, 4096) \<in> set (za_live z) \<and> is_page_aligned q \<and> unat (sb_status_used s) = u \<and> 0 < u \<and> u < 16
      \<and> sb_status_page s = q + 256 * u \<and> (\<forall>k < 4096. sb_status s' (q + k) \<noteq> None) \<and> (\<forall>p \<in> set ps. apart (q + 256 * u, 4096 - 256 * u) (stat s p, 256)))"
    using T[unfolded status_ok_def, THEN conjunct2, THEN conjunct2] m' by (elim disjE exE conjE) blast+
qed

lemma cut_block_ok:
  assumes inv: "sb_inv rest ps B A (s, z)" and i: "i < 18" and room: "unat (sb_lines_used s) + bsz i \<le> 256"
  shows "\<exists>a s1. cut_block (word_of_nat i) (word_of_nat (bsz i)) s = Some (a, s1) \<and> B a = None \<and> sb_inv rest ps (B(a \<mapsto> i)) (insert a A) (s1, z)
     \<and> sb_pages s1 = sb_pages s \<and> sb_reference s1 = sb_reference s"
proof -
  note I = inv[unfolded sb_inv_def, simplified]
  note P = I[THEN conjunct1] and T = I[THEN conjunct2, THEN conjunct1] and S = I[THEN conjunct2, THEN conjunct2, THEN conjunct1]
  let ?l = "unat (sb_lines_used s)"
  have l: "1 \<le> ?l" "?l < 256" using P room bsz_bounds[OF i] by (auto simp: pages_ok_def)
  then have "ps \<noteq> []" using P by (auto simp: pages_ok_def)
  then obtain p ps' where ps: "ps = p # ps'" by (cases ps) auto
  then have top: "sb_top_page s = Some p" "p \<in> set ps" "is_page_aligned p" using P by (auto simp: pages_ok_def chain_Cons)
  obtain pg where pg: "sb_pages s p = Some pg" "sp_status_block pg = stat s p" using page_found[OF P top(2)] by blast
  let ?a = "p + 16 * ?l" and ?s = "cut_lines p i s"
  note C = cut_slots_ok[OF P T S top i l(1) room]
  have old: "sb_status s (stat s p + ?l) \<noteq> None" using T top(2) l(2) by (simp add: status_ok_def)
  have "unat (push_bit 4 (sb_lines_used s)) = 16 * ?l" using l(2) by (simp add: push_bit_eq_mult unat_word_ariths mult.commute)
  then have run: "cut_block (word_of_nat i) (word_of_nat (bsz i)) s = Some (?a, ?s)"
    using top(1) pg old status_code_simps(6)[OF i] by (auto simp: cut_block_def set_status_def cut_lines_def)
  have "pages_ok rest ps ?s z" using P cut_lines_used[OF i room, of p] room ps unfolding pages_ok_def by simp
  moreover have "status_ok ps ?s z" by (rule status_ok_mono[OF T]) simp_all
  moreover have "lists_ok (B(?a \<mapsto> i)) (insert ?a A) ?s"
  proof -
    have "{b. (B(?a \<mapsto> i)) b = Some k \<and> b \<notin> insert ?a A} = {b. B b = Some k \<and> b \<notin> A}" for k using C(1) by auto
    then show ?thesis using I unfolding lists_ok_def by simp
  qed
  ultimately have "sb_inv rest ps (B(?a \<mapsto> i)) (insert ?a A) (?s, z)" using C(2) by (simp add: sb_inv_def)
  then show ?thesis using run C(1) by (intro exI[of _ ?a] exI[of _ ?s]) simp
qed

subsection \<open>A new page\<close>

text \<open>What the operating system promises: as long as it has memory, pages at their natural alignment that do not overlap live blocks.\<close>

definition page_os_law :: "(nat \<Rightarrow> block list \<Rightarrow> nat option) \<Rightarrow> bool" where
  "page_os_law os \<longleftrightarrow> (\<forall>n live. 0 < n \<longrightarrow> (\<exists>a. os n live = Some a \<and> is_page_aligned a \<and> 0 < a \<and> (\<forall>b \<in> set live. apart (a, n) b)))"

lemma allocate_page_ok:
  assumes "page_os_law os" "za_quota z = 0" "separate (za_live z)"
  shows "\<exists>a z1. allocate_pages pf os 1 z = Some (Some a, z1) \<and> is_page_aligned a \<and> (\<forall>b \<in> set (za_live z). apart (a, 4096) b)
     \<and> za_live z1 = (a, 4096) # za_live z \<and> za_quota z1 = 0 \<and> separate (za_live z1)"
proof -
  obtain a where a: "os 4096 (za_live z) = Some a" "is_page_aligned a" "\<forall>b \<in> set (za_live z). apart (a, 4096) b"
    using assms(1) unfolding page_os_law_def by (metis zero_less_numeral)
  then show ?thesis using assms(2,3) separate_Cons[of "za_live z" 4096 a] by (simp add: allocate_pages_def Let_def)
qed

text \<open>The state from which a page is installed: \<open>u\<close> status blocks of the status page \<open>q\<close> are in use.\<close>

definition ready :: "ptr list \<Rightarrow> ptr \<Rightarrow> nat \<Rightarrow> 'r small_block_allocator \<Rightarrow> zone_allocator \<Rightarrow> bool" where
  "ready ps q u s z \<longleftrightarrow> u < 16 \<and> unat (sb_status_used s) = u \<and> sb_status_page s = q + 256 * u \<and> is_page_aligned q \<and> (q, 4096) \<in> set (za_live z)
     \<and> (\<forall>k < 4096. sb_status s (q + k) \<noteq> None) \<and> (\<forall>p \<in> set ps. apart (q + 256 * u, 4096 - 256 * u) (stat s p, 256))"

definition install_page :: "ptr \<Rightarrow> 'r small_block_allocator \<Rightarrow> 'r small_block_allocator" where
  "install_page p s = s\<lparr>
     sb_pages := (sb_pages s)(p \<mapsto> \<lparr>sp_status_block = sb_status_page s, sp_prev = sb_top_page s, sp_reference = sb_reference s\<rparr>),
     sb_top_page := Some p, sb_status_page := sb_status_page s + 256, sb_status_used := sb_status_used s + 1, sb_lines_used := 1\<rparr>"

lemma aligned_part: "is_page_aligned q \<Longrightarrow> u < 16 \<Longrightarrow> is_page_aligned (q + 256 * u) \<longleftrightarrow> u = 0"
  by (auto simp: is_page_aligned_def mod_add_eq[symmetric])

lemma install_pages_ok:
  assumes P: "pages_ok rest ps s z" and R: "ready ps q u s z'" and p: "p \<notin> set ps" "is_page_aligned p"
    and live: "mset (za_live z') = add_mset (p, 4096) (mset (za_live z) + (if u = 0 then {#(q, 4096)#} else {#}))" "separate (za_live z')" "za_quota z' = 0"
  shows "pages_ok rest (p # ps) (install_page p s) z'"
proof -
  let ?s = "install_page p s"
  have st: "stat ?s p = q + 256 * u" "\<And>x. x \<in> set ps \<Longrightarrow> stat ?s x = stat s x"
    using R p(1) by (auto simp: install_page_def stat_def ready_def)
  have "is_page_aligned (stat ?s p) \<longleftrightarrow> u = 0" unfolding st(1) using aligned_part[of q u] R by (simp add: ready_def)
  then have "mset (map (\<lambda>q. (q, 4096 :: nat)) (filter is_page_aligned (map (stat ?s) (p # ps))))
      = (if u = 0 then {#(q, 4096)#} else {#}) + mset (map (\<lambda>q. (q, 4096)) (filter is_page_aligned (map (stat s) ps)))"
    using st by (simp cong: map_cong)
  moreover have "chain sp_prev (sb_pages ?s) (sb_top_page ?s) (p # ps)" using P p(1) by (simp add: install_page_def pages_ok_def chain_Cons)
  ultimately show ?thesis using P p(2) live unfolding pages_ok_def by (simp add: install_page_def)
qed

lemma install_status_ok:
  assumes T: "(\<forall>x \<in> set ps. (\<forall>k < 256. sb_status s (stat s x + k) \<noteq> None) \<and> (\<exists>q. (q, 4096) \<in> set (za_live z) \<and> q \<le> stat s x \<and> stat s x + 256 \<le> q + 4096))
      \<and> (\<forall>x \<in> set ps. \<forall>y \<in> set ps. x \<noteq> y \<longrightarrow> apart (stat s x, 256) (stat s y, 256))" and R: "ready ps q u s z'" and p: "p \<notin> set ps" and live: "set (za_live z) \<subseteq> set (za_live z')"
  shows "status_ok (p # ps) (install_page p s) z'"
proof -
  let ?s = "install_page p s"
  have st: "stat ?s p = q + 256 * u" "\<And>x. x \<in> set ps \<Longrightarrow> stat ?s x = stat s x"
    using R p by (auto simp: install_page_def stat_def ready_def)
  have status: "sb_status ?s = sb_status s" by (simp add: install_page_def)
  have u: "u < 16" "unat (sb_status_used s) = u" using R by (simp_all add: ready_def)
  have R': "\<forall>k < 4096. sb_status s (q + k) \<noteq> None" "(q, 4096) \<in> set (za_live z')" "is_page_aligned q"
    "\<And>x. x \<in> set ps \<Longrightarrow> apart (q + 256 * u, 4096 - 256 * u) (stat s x, 256)" using R by (simp_all add: ready_def)
  have "(\<forall>k < 256. sb_status ?s (stat ?s x + k) \<noteq> None) \<and> (\<exists>q. (q, 4096) \<in> set (za_live z') \<and> q \<le> stat ?s x \<and> stat ?s x + 256 \<le> q + 4096)" if x: "x \<in> set (p # ps)" for x
  proof (cases "x = p")
    case True
    have "sb_status s (q + 256 * u + k) \<noteq> None" if "k < 256" for k using R'(1)[rule_format, of "256 * u + k"] that u(1) by (simp add: add.assoc)
    then show ?thesis using R'(2) u(1) unfolding True status st(1) by (auto intro!: exI[of _ q])
  next
    case False
    then have "x \<in> set ps" using x by simp
    then show ?thesis using T live unfolding status st(2)[OF \<open>x \<in> set ps\<close>] by blast
  qed
  moreover have ap: "apart (stat ?s p, 256) (stat ?s x, 256)" if "x \<in> set ps" for x
    using R'(4)[OF that] u(1) unfolding st(1) st(2)[OF that] by (auto simp: apart_def)
  moreover have "apart (stat ?s x, 256) (stat ?s y, 256)" if "x \<in> set ps" "y \<in> set ps" "x \<noteq> y" for x y
    using T that st(2) by simp
  moreover have "sb_status_used ?s = 16 \<or> (\<exists>q u. (q, 4096) \<in> set (za_live z') \<and> is_page_aligned q \<and> unat (sb_status_used ?s) = u \<and> 0 < u \<and> u < 16
          \<and> sb_status_page ?s = q + 256 * u \<and> (\<forall>k < 4096. sb_status ?s (q + k) \<noteq> None) \<and> (\<forall>x \<in> set (p # ps). apart (q + 256 * u, 4096 - 256 * u) (stat ?s x, 256)))"
  proof (cases "u = 15")
    case True
    then have "sb_status_used s = 15" using word_eq_of_nat[OF u(2)] by simp
    then show ?thesis by (simp add: install_page_def)
  next
    case False
    then have u1: "u + 1 < 16" using u(1) by simp
    then have "unat (sb_status_used ?s) = u + 1" using u(2) by (simp add: install_page_def unat_word_ariths)
    moreover have "sb_status_page ?s = q + 256 * (u + 1)" using R by (simp add: install_page_def ready_def)
    moreover have "apart (q + 256 * (u + 1), 4096 - 256 * (u + 1)) (stat ?s x, 256)" if x: "x \<in> set (p # ps)" for x
    proof (cases "x = p")
      case False
      then have xs: "x \<in> set ps" using x by simp
      show ?thesis using R'(4)[OF xs] u1 unfolding st(2)[OF xs] by (auto simp: apart_def)
    qed (simp add: st(1) apart_def)
    ultimately show ?thesis using R'(1-3) u1 unfolding status by (intro disjI2 exI[of _ q] exI[of _ "u + 1"]) (simp del: set_simps)
  qed
  ultimately show ?thesis unfolding status_ok_def using apart_sym by auto
qed

lemma install_slots_ok:
  assumes P: "pages_ok rest ps s z" and S: "slots_ok ps B A s" and L: "lists_ok B A s" and p: "p \<notin> set ps"
  shows "slots_ok (p # ps) B A (install_page p s)" "lists_ok B A (install_page p s)"
proof -
  let ?s = "install_page p s"
  have st: "stat ?s x = stat s x" if "x \<in> set ps" for x using that p by (auto simp: install_page_def stat_def)
  have sb: "status_byte ?s a = status_byte s a" if "B a = Some i" for a i using st[OF slotD(3)[OF S that]] by (simp add: status_byte_def)
  have ul: "used_lines s x \<le> used_lines ?s x" if "x \<in> set ps" for x
  proof -
    have "sb_top_page ?s = Some p" by (simp add: install_page_def)
    then have "used_lines ?s x = 256" using that p by (auto simp: used_lines_def)
    then show ?thesis using used_lines_le[OF P, of x] by simp
  qed
  have "line a + bsz i \<le> used_lines ?s (find_page a)" if "B a = Some i" for a i using ul[of "find_page a"] slotD(3,5)[OF S that] by simp
  moreover have "sb_status ?s = sb_status s" by (simp add: install_page_def)
  ultimately show "slots_ok (p # ps) B A ?s" using S sb unfolding slots_ok_def by simp
  obtain F where F: "\<And>i. i < 18 \<Longrightarrow> chain fm_next (sb_blocks s) (sb_free s ! i) (F i) \<and> set (F i) = {a. B a = Some i \<and> a \<notin> A}
      \<and> (\<forall>a \<in> set (F i). map_option fm_status_byte (sb_blocks s a) = Some (status_byte s a))" "length (sb_free s) = 18" using L by (auto simp: lists_ok_def)
  have eqs: "sb_free ?s = sb_free s" "sb_blocks ?s = sb_blocks s" by (simp_all add: install_page_def)
  have "map_option fm_status_byte (sb_blocks s a) = Some (status_byte ?s a)" if "i < 18" "a \<in> set (F i)" for i a
    using F(1)[OF that(1)] that(2) sb[of a i] by auto
  then show "lists_ok B A ?s" unfolding lists_ok_def eqs using F by blast
qed

text \<open>A fresh status page changes no status byte in use.\<close>

lemma fresh_status:
  assumes T: "status_ok ps s z" and q: "\<forall>b \<in> set (za_live z). apart (q, 4096) b" and x: "x \<in> set ps" and k: "k < 256"
  shows "clear_status q (sb_status s) (stat s x + k) = sb_status s (stat s x + k)" "apart (q, 4096) (stat s x, 256)"
proof -
  obtain q' where q': "(q', 4096) \<in> set (za_live z)" "q' \<le> stat s x" "stat s x + 256 \<le> q' + 4096" using T x unfolding status_ok_def by blast
  then have "apart (q, 4096) (q', 4096)" using q by blast
  then show "clear_status q (sb_status s) (stat s x + k) = sb_status s (stat s x + k)" "apart (q, 4096) (stat s x, 256)"
    using q'(2,3) k by (auto simp: apart_def clear_status_def)
qed

lemma clear_status_inv:
  assumes inv: "sb_inv rest ps B A (s, z)" and used: "sb_status_used s = 16" and q: "\<forall>b \<in> set (za_live z). apart (q, 4096) b"
  shows "pages_ok rest ps (s\<lparr>sb_status_used := 0, sb_status_page := q, sb_status := clear_status q (sb_status s)\<rparr>) z"
    "slots_ok ps B A (s\<lparr>sb_status_used := 0, sb_status_page := q, sb_status := clear_status q (sb_status s)\<rparr>)"
    "lists_ok B A (s\<lparr>sb_status_used := 0, sb_status_page := q, sb_status := clear_status q (sb_status s)\<rparr>)"
    "status_ok ps (s\<lparr>sb_status_used := 16, sb_status_page := q, sb_status := clear_status q (sb_status s)\<rparr>) z"
proof -
  let ?s = "s\<lparr>sb_status_used := 0, sb_status_page := q, sb_status := clear_status q (sb_status s)\<rparr>"
  note I = inv[unfolded sb_inv_def, simplified]
  note P = I[THEN conjunct1] and T = I[THEN conjunct2, THEN conjunct1] and S = I[THEN conjunct2, THEN conjunct2, THEN conjunct1]
  have st: "stat (s\<lparr>sb_status_used := u, sb_status_page := q, sb_status := c\<rparr>) = stat s" "status_byte (s\<lparr>sb_status_used := u, sb_status_page := q, sb_status := c\<rparr>) = status_byte s"
    "used_lines (s\<lparr>sb_status_used := u, sb_status_page := q, sb_status := c\<rparr>) = used_lines s" for u c
    by (simp_all add: stat_def status_byte_def used_lines_def fun_eq_iff)
  show "pages_ok rest ps ?s z" using P unfolding pages_ok_def st by simp
  show "lists_ok B A ?s" using I unfolding lists_ok_def st by simp
  have "clear_status q (sb_status s) (status_byte s a) = sb_status s (status_byte s a)" if "B a = Some i" for a i
    using fresh_status(1)[OF T q slotD(3)[OF S that] line_less] by (simp add: status_byte_def)
  then show "slots_ok ps B A ?s" using S unfolding slots_ok_def st by simp
  show "status_ok ps (s\<lparr>sb_status_used := 16, sb_status_page := q, sb_status := clear_status q (sb_status s)\<rparr>) z"
    using T fresh_status(1)[OF T q] unfolding status_ok_def st by simp
qed

lemma new_page_eq:
  "alloc_new_top_page pf os (s, z) = do {
     (new_page, z1) \<leftarrow> allocate_pages pf os 1 z;
     (case new_page of None \<Rightarrow> Some (False, s, z1)
      | Some p \<Rightarrow> if sb_status_used s = 16 then do {
           (q, z2) \<leftarrow> allocate_pages pf os 1 z1;
           (case q of
              None \<Rightarrow> do { z3 \<leftarrow> deallocate_pages pf p 1 z2; Some (False, s\<lparr>sb_status_used := 0, sb_status_page := 0\<rparr>, z3) }
            | Some q \<Rightarrow> Some (True, install_page p (s\<lparr>sb_status_used := 0, sb_status_page := q, sb_status := clear_status q (sb_status s)\<rparr>), z2)) }
         else Some (True, install_page p s, z1)) }"
  by (auto simp: alloc_new_top_page_def install_page_def split: bind_splits option.splits)

lemma fresh_page_new:
  assumes "pages_ok rest ps s z" "\<forall>b \<in> set (za_live z). apart (p, 4096) b"
  shows "p \<notin> set ps"
proof
  assume "p \<in> set ps"
  then have "apart (p, 4096) (p, 4096)" using page_live[OF assms(1)] assms(2) by blast
  then show False by (simp add: apart_def)
qed

lemma alloc_new_top_page_ok:
  assumes inv: "sb_inv rest ps B A (s, z)" and os: "page_os_law os"
  shows "\<exists>p s1 z1. alloc_new_top_page pf os (s, z) = Some (True, s1, z1) \<and> sb_inv rest (p # ps) B A (s1, z1) \<and> sb_lines_used s1 = 1 \<and> sb_reference s1 = sb_reference s
     \<and> sb_free s1 = sb_free s \<and> map_option sp_reference (sb_pages s1 p) = Some (sb_reference s) \<and> p \<notin> set ps \<and> (\<forall>x. x \<noteq> p \<longrightarrow> sb_pages s1 x = sb_pages s x)"
proof -
  note I = inv[unfolded sb_inv_def, simplified]
  note P = I[THEN conjunct1] and T = I[THEN conjunct2, THEN conjunct1] and S = I[THEN conjunct2, THEN conjunct2, THEN conjunct1] and L = I[THEN conjunct2, THEN conjunct2, THEN conjunct2]
  obtain p z1 where p: "allocate_pages pf os 1 z = Some (Some p, z1)" "is_page_aligned p" "\<forall>b \<in> set (za_live z). apart (p, 4096) b"
      "za_live z1 = (p, 4096) # za_live z" "za_quota z1 = 0" "separate (za_live z1)"
    using allocate_page_ok[OF os, of z pf] P by (auto simp: pages_ok_def)
  note new = fresh_page_new[OF P p(3)]
  show ?thesis
  proof (cases "sb_status_used s = 16")
    case True
    obtain q z2 where q: "allocate_pages pf os 1 z1 = Some (Some q, z2)" "is_page_aligned q" "\<forall>b \<in> set (za_live z1). apart (q, 4096) b"
        "za_live z2 = (q, 4096) # za_live z1" "za_quota z2 = 0" "separate (za_live z2)"
      using allocate_page_ok[OF os p(5,6), of pf] by blast
    let ?s = "s\<lparr>sb_status_used := 0, sb_status_page := q, sb_status := clear_status q (sb_status s)\<rparr>"
    have qz: "\<forall>b \<in> set (za_live z). apart (q, 4096) b" using q(3) p(4) by simp
    note C = clear_status_inv[OF inv True qz]
    have st: "stat ?s = stat s" by (simp add: stat_def fun_eq_iff)
    have R: "ready ps q 0 ?s z2" using q(2,4) fresh_status(2)[OF T qz, of _ 0] unfolding ready_def st by (simp add: clear_status_def)
    have "pages_ok rest (p # ps) (install_page p ?s) z2"
      by (rule install_pages_ok[OF C(1) R new p(2)]) (use q(4-6) p(4) in \<open>simp_all add: add_mset_commute\<close>)
    moreover have "status_ok (p # ps) (install_page p ?s) z2"
    proof -
      have "status_ok ps (s\<lparr>sb_status_used := 16, sb_status_page := q, sb_status := clear_status q (sb_status s)\<rparr>) z" by (rule C(4))
      then have "(\<forall>x \<in> set ps. (\<forall>k < 256. sb_status ?s (stat ?s x + k) \<noteq> None) \<and> (\<exists>q. (q, 4096) \<in> set (za_live z) \<and> q \<le> stat ?s x \<and> stat ?s x + 256 \<le> q + 4096))
          \<and> (\<forall>x \<in> set ps. \<forall>y \<in> set ps. x \<noteq> y \<longrightarrow> apart (stat ?s x, 256) (stat ?s y, 256))" by (simp add: status_ok_def stat_def)
      from install_status_ok[OF this R new] show ?thesis using q(4) p(4) by auto
    qed
    ultimately have "sb_inv rest (p # ps) B A (install_page p ?s, z2)"
      using install_slots_ok[OF C(1-3) new] by (simp add: sb_inv_def)
    then show ?thesis using p(1) q(1) True new by (intro exI[of _ p] exI[of _ "install_page p ?s"] exI[of _ z2]) (simp add: new_page_eq, simp add: install_page_def)
  next
    case False
    then obtain q u where R: "ready ps q u s z" "0 < u" using T by (auto simp: status_ok_def ready_def)
    then have R1: "ready ps q u s z1" using p(4) by (simp add: ready_def)
    have "pages_ok rest (p # ps) (install_page p s) z1"
      by (rule install_pages_ok[OF P R1 new p(2)]) (use R(2) p(4-6) in simp_all)
    moreover have "status_ok (p # ps) (install_page p s) z1"
      by (rule install_status_ok[OF _ R1 new]) (use T p(4) in \<open>auto simp: status_ok_def\<close>)
    ultimately have "sb_inv rest (p # ps) B A (install_page p s, z1)"
      using install_slots_ok[OF P S L new] by (simp add: sb_inv_def)
    then show ?thesis using p(1) False new by (intro exI[of _ p] exI[of _ "install_page p s"] exI[of _ z1]) (simp add: new_page_eq, simp add: install_page_def)
  qed
qed

end
