(* ===== verification/Small_Block_Sound.thy ===== *)
theory Small_Block_Sound
  imports Small_Block
begin

text \<open>
  The small block allocator keeps its invariant under requests and releases, gives all pages back, and two ways in which the code fails:
  a status page that cannot be allocated, and pages that are not aligned.
\<close>

subsection \<open>Freed blocks\<close>

text \<open>A change of hands of the block \<open>r\<close>: its status byte and the lists change.\<close>

definition flip :: "ptr \<Rightarrow> byte \<Rightarrow> ptr option list \<Rightarrow> (ptr \<rightharpoonup> free_memory_block) \<Rightarrow> 'r small_block_allocator \<Rightarrow> 'r small_block_allocator" where
  "flip r v free blocks s = s\<lparr>sb_free := free, sb_blocks := blocks, sb_status := (sb_status s)(status_byte s r \<mapsto> v)\<rparr>"

lemma flip_simps [simp]: "stat (flip r v free blocks s) = stat s" "status_byte (flip r v free blocks s) = status_byte s" "used_lines (flip r v free blocks s) = used_lines s"
  "sb_free (flip r v free blocks s) = free" "sb_blocks (flip r v free blocks s) = blocks" "sb_pages (flip r v free blocks s) = sb_pages s"
  "sb_reference (flip r v free blocks s) = sb_reference s" "sb_status (flip r v free blocks s) = (sb_status s)(status_byte s r \<mapsto> v)"
  "sb_top_page (flip r v free blocks s) = sb_top_page s" "sb_lines_used (flip r v free blocks s) = sb_lines_used s"
  "sb_status_page (flip r v free blocks s) = sb_status_page s" "sb_status_used (flip r v free blocks s) = sb_status_used s"
  by (simp_all add: flip_def stat_def status_byte_def used_lines_def fun_eq_iff)

lemma flip_ok:
  assumes inv: "sb_inv rest ps B A (s, z)" and r: "B r = Some i" and A': "A' \<subseteq> dom B" "\<And>b. b \<noteq> r \<Longrightarrow> b \<in> A' \<longleftrightarrow> b \<in> A"
    and L: "lists_ok B A' (flip r (status_code i (r \<in> A')) free blocks s)"
  shows "sb_inv rest ps B A' (flip r (status_code i (r \<in> A')) free blocks s, z)"
proof -
  let ?s = "flip r (status_code i (r \<in> A')) free blocks s"
  note I = inv[unfolded sb_inv_def, simplified]
  note P = I[THEN conjunct1] and T = I[THEN conjunct2, THEN conjunct1] and S = I[THEN conjunct2, THEN conjunct2, THEN conjunct1]
  have "pages_ok rest ps ?s z" using P unfolding pages_ok_def flip_simps .
  moreover have "status_ok ps ?s z"
  proof -
    have "sb_status s a \<noteq> None \<Longrightarrow> sb_status ?s a \<noteq> None" for a by simp
    then show ?thesis by (intro status_ok_mono[OF T]) simp_all
  qed
  moreover have "slots_ok ps B A' ?s"
  proof -
    have "sb_status ?s (status_byte s b) = Some (status_code j (b \<in> A'))" if b: "B b = Some j" for b j
    proof (cases "b = r")
      case False
      then have "status_byte s b \<noteq> status_byte s r" using status_byte_inj[OF T slotD(3)[OF S b] slotD(3)[OF S r] slotD(2)[OF S b] slotD(2)[OF S r]] by blast
      then show ?thesis using slotD(6)[OF S b] A'(2)[OF False] by simp
    qed (use r b in simp)
    then show ?thesis using S A'(1) unfolding slots_ok_def by simp
  qed
  ultimately show ?thesis using L by (simp add: sb_inv_def)
qed

lemma listsD:
  assumes "lists_ok B A s"
  obtains F where "length (sb_free s) = 18" "\<And>i. i < 18 \<Longrightarrow> chain fm_next (sb_blocks s) (sb_free s ! i) (F i)"
    "\<And>i. i < 18 \<Longrightarrow> set (F i) = {a. B a = Some i \<and> a \<notin> A}"
    "\<And>i a. i < 18 \<Longrightarrow> a \<in> set (F i) \<Longrightarrow> map_option fm_status_byte (sb_blocks s a) = Some (status_byte s a)"
  using assms unfolding lists_ok_def by blast

lemma reuse_block_ok:
  assumes inv: "sb_inv rest ps B A (s, z)" and i: "i < 18" and r: "sb_free s ! i = Some r"
  shows "\<exists>s1. reuse_block r (word_of_nat i) s = Some s1 \<and> B r = Some i \<and> r \<notin> A \<and> sb_inv rest ps B (insert r A) (s1, z) \<and> sb_pages s1 = sb_pages s
     \<and> sb_reference s1 = sb_reference s"
proof -
  note I = inv[unfolded sb_inv_def, simplified]
  note S = I[THEN conjunct2, THEN conjunct2, THEN conjunct1]
  obtain F where F: "length (sb_free s) = 18" "\<And>i. i < 18 \<Longrightarrow> chain fm_next (sb_blocks s) (sb_free s ! i) (F i)"
      "\<And>i. i < 18 \<Longrightarrow> set (F i) = {a. B a = Some i \<and> a \<notin> A}"
      "\<And>i a. i < 18 \<Longrightarrow> a \<in> set (F i) \<Longrightarrow> map_option fm_status_byte (sb_blocks s a) = Some (status_byte s a)"
    using I[THEN conjunct2, THEN conjunct2, THEN conjunct2] by (rule listsD) blast
  obtain rs where rs: "F i = r # rs" using F(2)[OF i] r by (cases "F i") auto
  then obtain fm where fm: "sb_blocks s r = Some fm" "chain fm_next (sb_blocks s) (fm_next fm) rs" using F(2)[OF i] r by (auto simp: chain_Cons)
  have Br: "B r = Some i" "r \<notin> A" using F(3)[OF i] rs by auto
  have sb: "fm_status_byte fm = status_byte s r" using F(4)[OF i, of r] rs fm(1) by simp
  have np: "r \<notin> set rs" using chain_distinct[OF F(2)[OF i]] rs by simp
  let ?A = "insert r A" and ?free = "(sb_free s)[i := fm_next fm]" and ?blocks = "(sb_blocks s)(r := None)"
  let ?s = "flip r (status_code i (r \<in> ?A)) ?free ?blocks s"
  let ?F = "F(i := rs)"
  have "lists_ok B ?A ?s"
  proof -
    have nr: "r \<notin> set (F k)" if "k < 18" "k \<noteq> i" for k using F(3)[OF that(1)] Br that(2) by auto
    have "chain fm_next ?blocks (?free ! k) (?F k)" if k: "k < 18" for k
      using F(2)[OF k] fm(2) F(1) k np nr[OF k] by (cases "k = i") simp_all
    moreover have "set (?F k) = {a. B a = Some k \<and> a \<notin> ?A}" if "k < 18" for k using F(3)[OF that] F(3)[OF i] rs np Br(1) by (cases "k = i") auto
    moreover have "map_option fm_status_byte (?blocks a) = Some (status_byte s a)" if k: "k < 18" "a \<in> set (?F k)" for k a
    proof -
      have "a \<noteq> r" using k F(3)[OF k(1)] Br np by (auto split: if_splits)
      moreover have "a \<in> set (F k)" using k(2) rs by (auto split: if_splits)
      ultimately show ?thesis using F(4)[OF k(1)] by simp
    qed
    moreover have "length ?free = 18" using F(1) by simp
    ultimately show ?thesis unfolding lists_ok_def flip_simps by blast
  qed
  from flip_ok[OF inv Br(1) _ _ this] Br(1) S have "sb_inv rest ps B ?A (?s, z)" by (auto simp: slots_ok_def)
  moreover have "reuse_block r (word_of_nat i) s = Some ?s"
  proof -
    have "sb_status s (status_byte s r) = Some (status_code i False)" using slotD(6)[OF S Br(1)] Br(2) by simp
    moreover have "unat (word_of_nat i :: uint32) = i" using i by (simp add: unat_of_nat_small)
    ultimately show ?thesis using fm(1) sb F(1) i status_code_simps(1)[OF i, of False] status_code_simps(2-)[OF i] by (simp add: reuse_block_def set_status_def flip_def)
  qed
  ultimately show ?thesis using Br by (intro exI[of _ ?s]) simp
qed

lemma sb_deallocate_ok:
  assumes inv: "sb_inv rest ps B A (s, z)" and r: "r \<in> A"
  shows "\<exists>s1. sb_deallocate r s = Some s1 \<and> sb_inv rest ps B (A - {r}) (s1, z) \<and> sb_pages s1 = sb_pages s \<and> sb_reference s1 = sb_reference s"
proof -
  note I = inv[unfolded sb_inv_def, simplified]
  note P = I[THEN conjunct1] and S = I[THEN conjunct2, THEN conjunct2, THEN conjunct1]
  obtain i where Br: "B r = Some i" using S r by (auto simp: slots_ok_def)
  note D = slotD[OF S Br]
  obtain F where F: "length (sb_free s) = 18" "\<And>i. i < 18 \<Longrightarrow> chain fm_next (sb_blocks s) (sb_free s ! i) (F i)"
      "\<And>i. i < 18 \<Longrightarrow> set (F i) = {a. B a = Some i \<and> a \<notin> A}"
      "\<And>i a. i < 18 \<Longrightarrow> a \<in> set (F i) \<Longrightarrow> map_option fm_status_byte (sb_blocks s a) = Some (status_byte s a)"
    using I[THEN conjunct2, THEN conjunct2, THEN conjunct2] by (rule listsD) blast
  let ?A = "A - {r}" and ?free = "(sb_free s)[i := Some r]" and ?blocks = "(sb_blocks s)(r \<mapsto> \<lparr>fm_next = sb_free s ! i, fm_status_byte = status_byte s r\<rparr>)"
  let ?s = "flip r (status_code i (r \<in> ?A)) ?free ?blocks s"
  let ?F = "F(i := r # F i)"
  have nr: "r \<notin> set (F k)" if "k < 18" for k using F(3)[OF that] r by simp
  have "lists_ok B ?A ?s"
  proof -
    have "chain fm_next ?blocks (?free ! k) (?F k)" if "k < 18" for k
      using F(2)[OF that] F(1) that nr[OF that] by (cases "k = i") (simp_all add: chain_Cons)
    moreover have "set (?F k) = {a. B a = Some k \<and> a \<notin> ?A}" if k: "k < 18" for k
    proof -
      have "{a. B a = Some k \<and> a \<notin> ?A} = (if k = i then insert r {a. B a = Some k \<and> a \<notin> A} else {a. B a = Some k \<and> a \<notin> A})"
        using Br by (cases "k = i") auto
      then show ?thesis using F(3)[OF k] by (cases "k = i") simp_all
    qed
    moreover have "map_option fm_status_byte (?blocks a) = Some (status_byte s a)" if k: "k < 18" "a \<in> set (?F k)" for k a
      using F(4)[OF k(1), of a] k(2) by (auto split: if_splits)
    moreover have "length ?free = 18" using F(1) by simp
    ultimately show ?thesis unfolding lists_ok_def flip_simps by blast
  qed
  from flip_ok[OF inv Br _ _ this] S have "sb_inv rest ps B ?A (?s, z)" by (auto simp: slots_ok_def)
  moreover have "sb_deallocate r s = Some ?s"
  proof -
    obtain pg where pg: "sb_pages s (find_page r) = Some pg" "sp_status_block pg = stat s (find_page r)" using page_found[OF P D(3)] by blast
    have "(r - find_page r) div 16 = line r" using page_line[OF D(2)] by (metis add_diff_cancel_left' nonzero_mult_div_cancel_left zero_neq_numeral)
    then have "sp_status_block pg + (r - find_page r) div 16 = status_byte s r" using pg(2) by (simp add: status_byte_def)
    moreover have "sb_status s (status_byte s r) = Some (status_code i True)" using D(6) r by simp
    moreover have "unat (word_of_nat i :: byte) = i" using D(1) by (simp add: unat_of_nat_small)
    ultimately show ?thesis using pg(1) F(1) D(1) status_code_simps(1)[OF D(1), of True] status_code_simps(2-)[OF D(1)] by (simp add: sb_deallocate_def set_status_def flip_def Let_def)
  qed
  ultimately show ?thesis by (intro exI[of _ ?s]) simp
qed

subsection \<open>Requests\<close>

text \<open>All pages carry the reference of the allocator.\<close>

definition refs_ok :: "ptr list \<Rightarrow> 'r small_block_allocator \<Rightarrow> bool" where
  "refs_ok ps s \<longleftrightarrow> (\<forall>p \<in> set ps. map_option sp_reference (sb_pages s p) = Some (sb_reference s))"

lemma sb_allocate_ok:
  assumes inv: "sb_inv rest ps B A (s, z)" and os: "page_os_law os" and n: "n \<le> 1536" and refs: "refs_ok ps s"
  shows "\<exists>a s1 z1 ps' B' i. sb_allocate pf os n (s, z) = Some (Some a, s1, z1) \<and> sb_inv rest ps' B' (insert a A) (s1, z1) \<and> refs_ok ps' s1 \<and> a \<notin> A
     \<and> B' a = Some i \<and> unat n \<le> 16 * bsz i \<and> (\<forall>b \<in> A. B' b = B b) \<and> sb_reference s1 = sb_reference s"
proof -
  obtain i where i: "i < 18" "find_bucket (drop_bit 4 (n + 15)) = Some (word_of_nat i, word_of_nat (bsz i))" "unat n \<le> 16 * bsz i"
    using find_bucket_ok[OF n] by blast
  note bi = bsz_bounds[OF i(1)]
  have ui: "unat (word_of_nat i :: uint32) = i" "unat (word_of_nat (bsz i) :: uint32) = bsz i" using i(1) bi by (simp_all add: unat_of_nat_small)
  have iw: "(word_of_nat i :: uint32) < 18" using i(1) ui by (simp add: word_less_nat_alt)
  have len: "length (sb_free s) = 18" using inv by (simp add: sb_inv_def lists_ok_def)
  note run0 = sb_allocate_def n i(1,2) iw ui(1) len
  have A: "b \<in> dom B" if "b \<in> A" for b using inv that by (auto simp: sb_inv_def slots_ok_def)
  show ?thesis
  proof (cases "sb_free s ! i")
    case (Some r)
    obtain s1 where s1: "reuse_block r (word_of_nat i) s = Some s1" "B r = Some i" "r \<notin> A" "sb_inv rest ps B (insert r A) (s1, z)" "sb_pages s1 = sb_pages s"
        "sb_reference s1 = sb_reference s"
      using reuse_block_ok[OF inv i(1) Some] by blast
    then have "sb_allocate pf os n (s, z) = Some (Some r, s1, z)" using Some by (simp add: run0)
    moreover have "refs_ok ps s1" using refs s1(5,6) by (simp add: refs_ok_def)
    ultimately show ?thesis using s1 i(3) by blast
  next
    case None
    have "\<exists>ps1 s1 z1. (if 256 < sb_lines_used s + word_of_nat (bsz i) then alloc_new_top_page pf os (s, z) else Some (True, s, z)) = Some (True, s1, z1)
        \<and> sb_inv rest ps1 B A (s1, z1) \<and> refs_ok ps1 s1 \<and> unat (sb_lines_used s1) + bsz i \<le> 256 \<and> sb_reference s1 = sb_reference s"
    proof (cases "256 < sb_lines_used s + word_of_nat (bsz i)")
      case True
      obtain p s1 z1 where p: "alloc_new_top_page pf os (s, z) = Some (True, s1, z1)" "sb_inv rest (p # ps) B A (s1, z1)" "sb_lines_used s1 = 1"
          "sb_reference s1 = sb_reference s" "map_option sp_reference (sb_pages s1 p) = Some (sb_reference s)" "p \<notin> set ps" "\<forall>x. x \<noteq> p \<longrightarrow> sb_pages s1 x = sb_pages s x"
        using alloc_new_top_page_ok[OF inv os, of pf] by blast
      have "map_option sp_reference (sb_pages s1 x) = Some (sb_reference s1)" if "x \<in> set (p # ps)" for x
        using that p(4-7) refs by (cases "x = p") (simp_all add: refs_ok_def)
      then have "refs_ok (p # ps) s1" by (simp add: refs_ok_def)
      then show ?thesis using True p(1-4) bi by (intro exI[of _ "p # ps"] exI[of _ s1] exI[of _ z1]) simp
    next
      case False
      have "unat (sb_lines_used s) \<le> 256" using inv by (simp add: sb_inv_def pages_ok_def)
      then have "unat (sb_lines_used s + word_of_nat (bsz i)) = unat (sb_lines_used s) + bsz i" using bi ui(2) by (simp add: unat_word_ariths)
      then show ?thesis using False inv refs by (intro exI[of _ ps] exI[of _ s] exI[of _ z]) (simp add: word_less_nat_alt)
    qed
    then obtain ps1 s1 z1 where s1: "(if 256 < sb_lines_used s + word_of_nat (bsz i) then alloc_new_top_page pf os (s, z) else Some (True, s, z)) = Some (True, s1, z1)"
        "sb_inv rest ps1 B A (s1, z1)" "refs_ok ps1 s1" "unat (sb_lines_used s1) + bsz i \<le> 256" "sb_reference s1 = sb_reference s" by blast
    obtain a s2 where s2: "cut_block (word_of_nat i) (word_of_nat (bsz i)) s1 = Some (a, s2)" "B a = None" "sb_inv rest ps1 (B(a \<mapsto> i)) (insert a A) (s2, z1)"
        "sb_pages s2 = sb_pages s1" "sb_reference s2 = sb_reference s1"
      using cut_block_ok[OF s1(2) i(1) s1(4)] by blast
    have "sb_allocate pf os n (s, z) = Some (Some a, s2, z1)" using None s1(1) s2(1) by (simp add: run0 del: bind_eq_Some_conv split del: if_split)
    moreover have "a \<notin> A" using A s2(2) by blast
    moreover have "refs_ok ps1 s2" using s1(3) s2(4,5) by (simp add: refs_ok_def)
    moreover have "\<forall>b \<in> A. (B(a \<mapsto> i)) b = B b" using \<open>a \<notin> A\<close> by auto
    ultimately show ?thesis using s2(3,5) s1(5) i(3) by (metis fun_upd_same)
  qed
qed

subsection \<open>All pages are given back\<close>

lemma deallocate_page_ok:
  assumes "separate (za_live z)" "mset (za_live z) = add_mset (p, 4096) M"
  shows "\<exists>z1. deallocate_pages pf p 1 z = Some z1 \<and> mset (za_live z1) = M \<and> separate (za_live z1)"
proof -
  have "(p, 4096) \<in># mset (za_live z)" using assms(2) by simp
  then have "map_of (za_live z) p = Some 4096" using separate_lookup[OF assms(1)] by simp
  then show ?thesis using assms separate_remove1[OF assms(1), of "(p, 4096)"] by (cases pf) (simp_all add: deallocate_pages_def Let_def)
qed

lemma sb_destroy_ok:
  assumes "chain sp_prev (sb_pages s) (sb_top_page s) ps" "separate (za_live z)"
    and "mset (za_live z) = mset (map (\<lambda>p. (p, 4096)) ps) + mset (map (\<lambda>q. (q, 4096)) (filter is_page_aligned (map (stat s) ps))) + mset rest"
  shows "\<exists>s' z'. sb_destroy pf s z = Some (s', z') \<and> sb_top_page s' = None \<and> mset (za_live z') = mset rest"
  using assms
proof (induction ps arbitrary: s z)
  case Nil
  then show ?case by (subst sb_destroy.simps) simp
next
  case (Cons p ps)
  obtain pg where pg: "sb_top_page s = Some p" "sb_pages s p = Some pg" "chain sp_prev (sb_pages s) (sp_prev pg) ps" using Cons.prems(1) by (auto simp: chain_Cons)
  have np: "p \<notin> set ps" using chain_distinct[OF Cons.prems(1)] by simp
  have st: "sp_status_block pg = stat s p" using pg(2) by (simp add: stat_def)
  let ?s = "s\<lparr>sb_top_page := sp_prev pg, sb_pages := (sb_pages s)(p := None)\<rparr>"
  let ?M = "mset (map (\<lambda>p. (p, 4096)) ps) + mset (map (\<lambda>q. (q, 4096)) (filter is_page_aligned (map (stat s) ps))) + mset rest"
  have "map (stat ?s) ps = map (stat s) ps" using np by (auto simp: stat_def)
  then have M: "?M = mset (map (\<lambda>p. (p, 4096)) ps) + mset (map (\<lambda>q. (q, 4096)) (filter is_page_aligned (map (stat ?s) ps))) + mset rest" by (simp only:)
  obtain z1 where z1: "(if is_page_aligned (sp_status_block pg) then deallocate_pages pf (sp_status_block pg) 1 z else Some z) = Some z1"
      "mset (za_live z1) = add_mset (p, 4096) ?M" "separate (za_live z1)"
  proof (cases "is_page_aligned (sp_status_block pg)")
    case True
    then have "mset (za_live z) = add_mset (stat s p, 4096) (add_mset (p, 4096) ?M)" using Cons.prems(3) st by simp
    from deallocate_page_ok[OF Cons.prems(2) this, of pf] show ?thesis using True st that by auto
  next
    case False
    then show ?thesis using Cons.prems(2,3) st that[of z] by simp
  qed
  obtain z2 where z2: "deallocate_pages pf p 1 z1 = Some z2" "mset (za_live z2) = ?M" "separate (za_live z2)" using deallocate_page_ok[OF z1(3,2)] by blast
  have "chain sp_prev (sb_pages ?s) (sb_top_page ?s) ps" using pg(3) np by simp
  from Cons.IH[OF this z2(3)] obtain s' z' where "sb_destroy pf ?s z2 = Some (s', z')" "sb_top_page s' = None" "mset (za_live z') = mset rest" using z2(2) M by auto
  moreover have "sb_destroy pf s z = sb_destroy pf ?s z2" by (subst sb_destroy.simps) (simp add: pg(1,2) z1(1) z2(1))
  ultimately show ?case by auto
qed

subsection \<open>Sequences of requests\<close>

text \<open>The client keeps the addresses and sizes of its blocks.\<close>

datatype sb_op = Sb_Allocate uint32 | Sb_Deallocate ptr

type_synonym 'r sb_state = "('r small_block_allocator \<times> zone_allocator) \<times> (ptr \<times> nat) list"

fun sb_exec :: "platform \<Rightarrow> (nat \<Rightarrow> block list \<Rightarrow> nat option) \<Rightarrow> sb_op \<Rightarrow> 'r sb_state \<Rightarrow> 'r sb_state option" where
  "sb_exec pf os (Sb_Allocate n) (st, bs) = do { (r, st') \<leftarrow> sb_allocate pf os n st; a \<leftarrow> r; Some (st', (a, unat n) # bs) }"
| "sb_exec pf os (Sb_Deallocate a) (st, bs) = do { s' \<leftarrow> sb_deallocate a (fst st); Some ((s', snd st), filter (\<lambda>b. fst b \<noteq> a) bs) }"

fun sb_legal :: "sb_op \<Rightarrow> 'r sb_state \<Rightarrow> bool" where
  "sb_legal (Sb_Allocate n) (st, bs) \<longleftrightarrow> n \<le> 1536"
| "sb_legal (Sb_Deallocate a) (st, bs) \<longleftrightarrow> a \<in> fst ` set bs"

definition sb_holds :: "block list \<Rightarrow> 'r \<Rightarrow> 'r sb_state \<Rightarrow> bool" where
  "sb_holds rest r = (\<lambda>((s, z), bs). \<exists>ps B. sb_inv rest ps B (fst ` set bs) (s, z) \<and> refs_ok ps s \<and> sb_reference s = r \<and> distinct (map fst bs)
     \<and> (\<forall>b \<in> set bs. \<exists>i. B (fst b) = Some i \<and> snd b \<le> 16 * bsz i))"

lemma sb_holdsI:
  assumes "sb_inv rest ps B (fst ` set bs) (s, z)" "refs_ok ps s" "sb_reference s = r" "distinct (map fst bs)"
    "\<And>b. b \<in> set bs \<Longrightarrow> \<exists>i. B (fst b) = Some i \<and> snd b \<le> 16 * bsz i"
  shows "sb_holds rest r ((s, z), bs)"
  unfolding sb_holds_def using assms by (simp only: prod.case) blast

lemma sb_step:
  assumes os: "page_os_law os" and h: "sb_holds rest r st" and L: "sb_legal op st"
  shows "\<exists>st'. sb_exec pf os op st = Some st' \<and> sb_holds rest r st'"
proof -
  obtain s z bs where st: "st = ((s, z), bs)" by (metis prod.collapse)
  obtain ps B where I: "sb_inv rest ps B (fst ` set bs) (s, z)" "refs_ok ps s" "sb_reference s = r" "distinct (map fst bs)"
      "\<forall>b \<in> set bs. \<exists>i. B (fst b) = Some i \<and> snd b \<le> 16 * bsz i"
    using h unfolding st sb_holds_def by auto
  show ?thesis
  proof (cases op)
    case (Sb_Allocate n)
    then obtain a s1 z1 ps' B' i where a: "sb_allocate pf os n (s, z) = Some (Some a, s1, z1)" "sb_inv rest ps' B' (insert a (fst ` set bs)) (s1, z1)" "refs_ok ps' s1"
        "a \<notin> fst ` set bs" "B' a = Some i" "unat n \<le> 16 * bsz i" "\<forall>b \<in> fst ` set bs. B' b = B b" "sb_reference s1 = sb_reference s"
      using sb_allocate_ok[OF I(1) os _ I(2)] L st by (metis sb_legal.simps(1))
    have "\<forall>b \<in> set ((a, unat n) # bs). \<exists>i. B' (fst b) = Some i \<and> snd b \<le> 16 * bsz i" using I(5) a(5-7) by simp
    then have "sb_holds rest r ((s1, z1), (a, unat n) # bs)" by (intro sb_holdsI) (use I(3,4) a(2-4,8) in auto)
    then show ?thesis using Sb_Allocate a(1) st by simp
  next
    case (Sb_Deallocate a)
    then have "a \<in> fst ` set bs" using L st by simp
    from sb_deallocate_ok[OF I(1) this] obtain s1 where s1: "sb_deallocate a s = Some s1" "sb_inv rest ps B (fst ` set bs - {a}) (s1, z)" "sb_pages s1 = sb_pages s"
        "sb_reference s1 = sb_reference s" by blast
    let ?bs = "filter (\<lambda>b. fst b \<noteq> a) bs"
    have "fst ` set ?bs = fst ` set bs - {a}" by auto
    moreover have "distinct (map fst ?bs)" using I(4) distinct_map_filter by blast
    moreover have "refs_ok ps s1" using I(2) s1(3,4) by (simp add: refs_ok_def)
    ultimately have "sb_holds rest r ((s1, z), ?bs)" by (intro sb_holdsI) (use s1(2,4) I(3,5) in auto)
    then show ?thesis using Sb_Deallocate s1(1) st by simp
  qed
qed

interpretation small_blocks: simulation "sb_exec pf os" sb_legal "\<lambda>st u. page_os_law os \<and> sb_holds rest r st" "\<lambda>op u. ()" for pf os rest r
proof unfold_locales
  fix s :: "'a sb_state" and op assume "page_os_law os \<and> sb_holds rest r s" "sb_legal op s"
  then show "\<exists>s'. sb_exec pf os op s = Some s' \<and> page_os_law os \<and> sb_holds rest r s'" using sb_step[of os rest r s op pf] by blast
qed

lemma new_allocator_holds:
  assumes "separate (za_live z)" "za_quota z = 0"
  shows "sb_holds (za_live z) r ((new_small_block_allocator r, z), [])"
proof -
  let ?s = "new_small_block_allocator r"
  have "pages_ok (za_live z) [] ?s z" using assms by (simp add: pages_ok_def new_small_block_allocator_def sb_init_def)
  moreover have "status_ok [] ?s z" by (simp add: status_ok_def new_small_block_allocator_def sb_init_def)
  moreover have "slots_ok [] Map.empty {} ?s" by (simp add: slots_ok_def)
  moreover have "lists_ok Map.empty {} ?s" by (auto simp: lists_ok_def new_small_block_allocator_def sb_init_def intro!: exI[of _ "\<lambda>_. []"])
  ultimately have "sb_inv (za_live z) [] Map.empty {} (?s, z)" by (simp add: sb_inv_def)
  then show ?thesis by (auto simp: sb_holds_def refs_ok_def new_small_block_allocator_def sb_init_def intro!: exI[of _ "[]"] exI[of _ Map.empty])
qed

lemma held_blocks:
  assumes h: "sb_holds rest r ((s, z), bs)"
  shows "distinct (map fst bs)" "\<forall>b \<in> set bs. \<forall>b' \<in> set bs. fst b \<noteq> fst b' \<longrightarrow> apart b b'"
    "\<forall>b \<in> set bs. 16 dvd fst b \<and> get_reference_pointer (fst b) s = Some r \<and> (\<exists>x \<in> set (za_live z). fst x \<le> fst b \<and> fst b + snd b \<le> fst x + snd x)"
proof -
  obtain ps B where I: "sb_inv rest ps B (fst ` set bs) (s, z)" "refs_ok ps s" "sb_reference s = r" "distinct (map fst bs)"
      "\<forall>b \<in> set bs. \<exists>i. B (fst b) = Some i \<and> snd b \<le> 16 * bsz i"
    using h unfolding sb_holds_def by auto
  have P: "pages_ok rest ps s z" and S: "slots_ok ps B (fst ` set bs) s" using I(1) by (simp_all add: sb_inv_def)
  show "distinct (map fst bs)" by (rule I(4))
  show "\<forall>b \<in> set bs. \<forall>b' \<in> set bs. fst b \<noteq> fst b' \<longrightarrow> apart b b'"
  proof (intro ballI impI)
    fix b b' assume b: "b \<in> set bs" "b' \<in> set bs" "fst b \<noteq> fst b'"
    then obtain i j where ij: "B (fst b) = Some i" "snd b \<le> 16 * bsz i" "B (fst b') = Some j" "snd b' \<le> 16 * bsz j" using I(5) by blast
    then have "apart (fst b, 16 * bsz i) (fst b', 16 * bsz j)" using S b(3) unfolding slots_ok_def by blast
    then show "apart b b'" using ij(2,4) by (auto simp: apart_def)
  qed
  show "\<forall>b \<in> set bs. 16 dvd fst b \<and> get_reference_pointer (fst b) s = Some r \<and> (\<exists>x \<in> set (za_live z). fst x \<le> fst b \<and> fst b + snd b \<le> fst x + snd x)"
  proof
    fix b assume "b \<in> set bs"
    then obtain i where i: "B (fst b) = Some i" "snd b \<le> 16 * bsz i" using I(5) by blast
    note D = slotD[OF S i(1)] and N = slot_inside[OF P S i(1)]
    have "map_option sp_reference (sb_pages s (find_page (fst b))) = Some r" using I(2,3) D(3) by (simp add: refs_ok_def)
    then have "get_reference_pointer (fst b) s = Some r" by (auto simp: get_reference_pointer_def)
    moreover have "(find_page (fst b), 4096) \<in> set (za_live z)" by (rule page_live[OF P D(3)])
    ultimately show "16 dvd fst b \<and> get_reference_pointer (fst b) s = Some r \<and> (\<exists>x \<in> set (za_live z). fst x \<le> fst b \<and> fst b + snd b \<le> fst x + snd x)"
      using D(2) N i(2) by (auto intro!: bexI[of _ "(find_page (fst b), 4096)"])
  qed
qed

text \<open>C27. Small blocks are the client's own.  Over page-aligned memory, without a quota and as long as the operating system has memory, every sequence of requests of up to 1536 bytes and of
  releases of blocks that are held runs without a trap: the blocks held never overlap, lie at multiples of 16 in live memory of the zone and lead to
  the allocator's reference pointer; destroying the allocator gives every page back exactly once.\<close>
theorem small_blocks_sound:
  assumes "page_os_law os" "separate (za_live z)" "za_quota z = 0" "legal_ops sb_legal (sb_exec pf os) ops ((new_small_block_allocator r, z), [])"
  shows "\<exists>s z1 bs s2 z2. run_ops (sb_exec pf os) ops ((new_small_block_allocator r, z), []) = Some ((s, z1), bs)
     \<and> distinct (map fst bs) \<and> (\<forall>b \<in> set bs. \<forall>b' \<in> set bs. fst b \<noteq> fst b' \<longrightarrow> apart b b')
     \<and> (\<forall>b \<in> set bs. 16 dvd fst b \<and> get_reference_pointer (fst b) s = Some r \<and> (\<exists>x \<in> set (za_live z1). fst x \<le> fst b \<and> fst b + snd b \<le> fst x + snd x))
     \<and> sb_clear pf (s, z1) = Some (s2, z2) \<and> mset (za_live z2) = mset (za_live z)"
proof -
  obtain st where "run_ops (sb_exec pf os) ops ((new_small_block_allocator r, z), []) = Some st" "sb_holds (za_live z) r st"
    using small_blocks.runs[OF conjI[OF assms(1) new_allocator_holds[OF assms(2,3)]] assms(4)] by blast
  then obtain s z1 bs where run: "run_ops (sb_exec pf os) ops ((new_small_block_allocator r, z), []) = Some ((s, z1), bs)" "sb_holds (za_live z) r ((s, z1), bs)"
    by (metis prod.collapse)
  obtain ps where "pages_ok (za_live z) ps s z1" using run(2) by (auto simp: sb_holds_def sb_inv_def)
  then obtain s' z2 where "sb_destroy pf s z1 = Some (s', z2)" "mset (za_live z2) = mset (za_live z)"
    using sb_destroy_ok[of s ps z1 "za_live z" pf] by (auto simp: pages_ok_def)
  then show ?thesis using run(1) held_blocks[OF run(2)] by (simp add: sb_clear_def)
qed

text \<open>Four requests and two releases; the operating system places every block behind all live ones.\<close>

definition bump_pages :: "nat \<Rightarrow> block list \<Rightarrow> nat option" where
  "bump_pages n live = Some ((fold (\<lambda>b m. m + fst b + snd b) live 0 + 1) * 4096)"

lemma bump_pages_law: "page_os_law bump_pages"
proof -
  have "apart ((fold (\<lambda>b m. m + fst b + snd b) live 0 + 1) * 4096, n) b" if "b \<in> set live" for b live n
    using fold_sum_ge(1)[OF that, of 0] by (auto simp: apart_def)
  then show ?thesis by (auto simp: page_os_law_def bump_pages_def is_page_aligned_def)
qed

definition demo_sb_ops :: "sb_op list" where
  "demo_sb_ops = [Sb_Allocate 100, Sb_Allocate 1536, Sb_Deallocate 4112, Sb_Allocate 97, Sb_Deallocate 4240, Sb_Allocate 0]"

lemma empty_buckets: "replicate 18 None = [None, None, None, None, None, None, None, None, None, None, None, None, None, None, None, None, None, None]"
  by (simp add: numeral_eq_Suc)

lemma demo_buckets: "find_bucket 7 = Some (6, 8)" "find_bucket 96 = Some (17, 96)" "find_bucket 0 = Some (0, 1)"
  by (simp_all add: find_bucket_def bucket_sizes_def)

lemma demo_lines: "drop_bit 4 (115 :: uint32) = 7" "drop_bit 4 (1551 :: uint32) = 96" "drop_bit 4 (112 :: uint32) = 7" "drop_bit 4 (15 :: uint32) = 0"
  by (simp_all add: drop_bit_eq_div)

lemmas sb_eval = demo_sb_ops_def new_small_block_allocator_def sb_init_def new_zone_allocator_def sb_allocate_def new_page_eq install_page_def cut_block_def
  reuse_block_def sb_deallocate_def set_status_def allocate_pages_def bump_pages_def zone_page_size_def clear_status_def find_page_def empty_buckets
  demo_buckets demo_lines Let_def load_def store_def list_update_numeral

lemma demo_sb_legal: "legal_ops sb_legal (sb_exec mac_osx bump_pages) demo_sb_ops ((new_small_block_allocator (), new_zone_allocator 0 []), [])"
  by (simp add: sb_eval)

theorem small_blocks_sound_witness:
  "\<exists>s z1 bs s2 z2. run_ops (sb_exec mac_osx bump_pages) demo_sb_ops ((new_small_block_allocator (), new_zone_allocator 0 []), []) = Some ((s, z1), bs)
     \<and> distinct (map fst bs) \<and> sb_clear mac_osx (s, z1) = Some (s2, z2) \<and> za_live z2 = []"
  using small_blocks_sound[OF bump_pages_law _ _ demo_sb_legal] by (auto simp: new_zone_allocator_def)

subsection \<open>Where the code departs from its purpose\<close>

lemma first_request:
  assumes "n \<le> 1536"
  shows "\<exists>i < 18. find_bucket (drop_bit 4 (n + 15)) = Some (word_of_nat i, word_of_nat (bsz i)) \<and> (word_of_nat i :: uint32) < 18
     \<and> unat (word_of_nat i :: uint32) = i \<and> (256 :: uint32) < 256 + word_of_nat (bsz i)"
proof -
  obtain i where i: "i < 18" "find_bucket (drop_bit 4 (n + 15)) = Some (word_of_nat i, word_of_nat (bsz i))" using find_bucket_ok[OF assms] by blast
  have "unat (word_of_nat i :: uint32) = i" "unat (word_of_nat (bsz i) :: uint32) = bsz i" using i(1) bsz_bounds[OF i(1)] by (simp_all add: unat_of_nat_small)
  moreover from this(2) have "unat (256 + word_of_nat (bsz i) :: uint32) = 256 + bsz i" using bsz_bounds[OF i(1)] by (simp add: unat_word_ariths)
  ultimately show ?thesis using i bsz_bounds[OF i(1)] by (intro exI[of _ i]) (simp add: word_less_nat_alt)
qed

text \<open>A request for which the zone has a page but no page for its status bytes is answered with a null pointer; the next request then takes the null
  pointer for a status page with blocks left in it and writes through it.\<close>
theorem status_page_failure_traps:
  assumes os: "os 4096 [] = Some p" and q: "4096 \<le> q" "q < 8192" and n: "n \<le> 1536" "m \<le> 1536"
  shows "\<exists>s z. sb_allocate mac_osx os n (new_small_block_allocator r, new_zone_allocator q []) = Some (None, s, z) \<and> sb_allocate mac_osx os m (s, z) = None"
proof -
  let ?z = "new_zone_allocator q []" and ?s = "new_small_block_allocator r"
  obtain i where i: "i < 18" "find_bucket (drop_bit 4 (n + 15)) = Some (word_of_nat i, word_of_nat (bsz i))" "(word_of_nat i :: uint32) < 18"
      "unat (word_of_nat i :: uint32) = i" "(256 :: uint32) < 256 + word_of_nat (bsz i)" using first_request[OF n(1)] by blast
  obtain j where j: "j < 18" "find_bucket (drop_bit 4 (m + 15)) = Some (word_of_nat j, word_of_nat (bsz j))" "(word_of_nat j :: uint32) < 18"
      "unat (word_of_nat j :: uint32) = j" "(256 :: uint32) < 256 + word_of_nat (bsz j)" using first_request[OF n(2)] by blast
  have q0: "q \<noteq> 0" "\<not> q < 4096" "q < 4096 + 4096" using q by auto
  let ?z1 = "\<lparr>za_quota = q, za_memory_used = 4096, za_live = [(p, 4096)]\<rparr>"
  have page: "allocate_pages mac_osx os 1 ?z = Some (Some p, ?z1)" "allocate_pages mac_osx os 1 ?z1 = Some (None, ?z1)" "deallocate_pages mac_osx p 1 ?z1 = Some ?z"
    using os q0 by (simp_all add: allocate_pages_def deallocate_pages_def new_zone_allocator_def zone_page_size_def Let_def)
  let ?s1 = "?s\<lparr>sb_status_used := 0, sb_status_page := 0\<rparr>"
  have f: "sb_free ?s = replicate 18 None" "sb_lines_used ?s = 256" "sb_status_used ?s = 16" "sb_status ?s = Map.empty" by (simp_all add: new_small_block_allocator_def sb_init_def)
  have "sb_allocate mac_osx os n (?s, ?z) = Some (None, ?s1, ?z)" using i n(1) page f by (simp add: sb_allocate_def new_page_eq)
  moreover have "sb_allocate mac_osx os m (?s1, ?z) = None"
    using j n(2) page f by (simp add: sb_allocate_def new_page_eq install_page_def cut_block_def set_status_def)
  ultimately show ?thesis by blast
qed

theorem status_page_failure_traps_witness:
  "\<exists>s z. sb_allocate mac_osx bump_pages 100 (new_small_block_allocator (), new_zone_allocator 4096 []) = Some (None, s, z) \<and> sb_allocate mac_osx bump_pages 8 (s, z) = None"
  using status_page_failure_traps[of bump_pages 4096 4096 100 8] by (simp add: bump_pages_def)

text \<open>Except on Mac OS X the pages come from \<^verbatim>\<open>malloc\<close>, which does not align them to their size: releasing a block looks for the header of its page where none is.\<close>

lemma unaligned_page_traps:
  assumes os: "os 4096 [] = Some p" "os 4096 [(p, 4096)] = Some q" and p: "\<not> is_page_aligned p" and n: "n \<le> 1536"
  shows "\<exists>a s z. sb_allocate other_platform os n (new_small_block_allocator r, new_zone_allocator 0 []) = Some (Some a, s, z) \<and> sb_deallocate a s = None"
proof -
  let ?z = "new_zone_allocator 0 []" and ?s = "new_small_block_allocator r"
  obtain i where i: "i < 18" "find_bucket (drop_bit 4 (n + 15)) = Some (word_of_nat i, word_of_nat (bsz i))" "(word_of_nat i :: uint32) < 18"
      "unat (word_of_nat i :: uint32) = i" "(256 :: uint32) < 256 + word_of_nat (bsz i)" using first_request[OF n] by blast
  have page: "\<exists>z1 z2. allocate_pages other_platform os 1 ?z = Some (Some p, z1) \<and> allocate_pages other_platform os 1 z1 = Some (Some q, z2)"
    using os by (simp add: allocate_pages_def new_zone_allocator_def zone_page_size_def Let_def)
  have f: "sb_free ?s = replicate 18 None" "sb_lines_used ?s = 256" "sb_status_used ?s = 16" "sb_pages ?s = Map.empty" "sb_top_page ?s = None"
    by (simp_all add: new_small_block_allocator_def sb_init_def)
  obtain s z where s: "sb_allocate other_platform os n (?s, ?z) = Some (Some (p + 16), s, z)" "dom (sb_pages s) = {p}"
    using page i n f by (auto simp: sb_allocate_def new_page_eq install_page_def cut_block_def set_status_def clear_status_def)
  have "find_page (p + 16) \<noteq> p"
  proof
    assume "find_page (p + 16) = p"
    moreover have "is_page_aligned (find_page (p + 16))" by (simp add: find_page_def is_page_aligned_def minus_mod_eq_mult_div)
    ultimately show False using p by simp
  qed
  then have "sb_pages s (find_page (p + 16)) = None" using s(2) by (metis domIff singletonD)
  then have "sb_deallocate (p + 16) s = None" by (simp add: sb_deallocate_def)
  then show ?thesis using s(1) by blast
qed

end
