(* ===== verification/Udp_Socket.thy ===== *)
theory Udp_Socket
  imports Torque_Connection
begin

text \<open>
  \<^verbatim>\<open>udp_socket.h\<close>, with \<^verbatim>\<open>sockets_init\<close> of \<^verbatim>\<open>sockets.h\<close>, the receiving side of \<^verbatim>\<open>packet_stream.h\<close> and \<^verbatim>\<open>torque_socket::bind\<close>.  The operating system's answers are
  a parameter; its open handles and the options set on a handle are part of the state.  What an uninitialised \<^verbatim>\<open>bind_result\<close> holds is an argument.
\<close>

subsection \<open>The source\<close>

datatype socket_platform = win32 | unix

datatype bind_result = bind_success | address_in_use | address_invalid | initialization_failure | socket_allocation_failure | generic_failure

datatype wsa_error = WSAEADDRINUSE | WSAEADDRNOTAVAIL | WSAENOBUFS | Other_WSA_Error

datatype socket_option = SO_RCVBUF uint32 | SO_SNDBUF uint32 | FIONBIO bool | SO_BROADCAST bool | SO_RCVTIMEO uint32 uint32

text \<open>Answers: no socket, the error of a failed \<^verbatim>\<open>bind\<close>, and whether setting an option succeeds.\<close>

record os_answers =
  os_startup :: bool
  os_socket :: "nat option"
  os_bind :: "sockaddr_in \<Rightarrow> wsa_error option"
  os_option :: "socket_option \<Rightarrow> bool"

record udp_socket =
  us_socket :: "nat option"
  us_open :: "nat set"
  us_options :: "socket_option list"

definition sockets_init :: "socket_platform \<Rightarrow> os_answers \<Rightarrow> bool" where
  "sockets_init pf os \<longleftrightarrow> (if pf = win32 then os_startup os else True)"

definition new_udp_socket :: "nat set \<Rightarrow> udp_socket" where
  "new_udp_socket opened = \<lparr>us_socket = None, us_open = opened, us_options = []\<rparr>"

definition unbind :: "udp_socket \<Rightarrow> udp_socket" where
  "unbind u = (case us_socket u of None \<Rightarrow> u | Some h \<Rightarrow> u\<lparr>us_open := us_open u - {h}, us_socket := None, us_options := []\<rparr>)"

definition is_bound :: "udp_socket \<Rightarrow> bool" where
  "is_bound u \<longleftrightarrow> us_socket u \<noteq> None"

text \<open>The name of the socket is the operating system's answer.\<close>

definition get_bound_address :: "sockaddr_in \<Rightarrow> address" where
  "get_bound_address name = from_sockaddr name (address_of_name addr_any 0)"

definition bind_failure :: "socket_platform \<Rightarrow> bind_result \<Rightarrow> wsa_error \<Rightarrow> bind_result" where
  "bind_failure pf uninit0 e = (if pf = win32 then
       (case e of WSAEADDRINUSE \<Rightarrow> address_in_use | WSAEADDRNOTAVAIL \<Rightarrow> address_invalid | WSAENOBUFS \<Rightarrow> socket_allocation_failure | Other_WSA_Error \<Rightarrow> generic_failure)
     else uninit0)"

text \<open>The timeout: milliseconds on Windows, seconds and microseconds elsewhere.  Its result is not tested.\<close>

definition timeout_option :: "socket_platform \<Rightarrow> time \<Rightarrow> socket_option" where
  "timeout_option pf recv_timeout = (let ms_delay = word_of_int recv_timeout :: uint32 in
     if pf = win32 then SO_RCVTIMEO 0 ms_delay else SO_RCVTIMEO (ms_delay div 1000) (ms_delay mod 1000 * 1000))"

definition apply_option :: "socket_option \<Rightarrow> udp_socket \<Rightarrow> udp_socket" where
  "apply_option opt u = u\<lparr>us_options := us_options u @ [opt]\<rparr>"

definition udp_bind :: "socket_platform \<Rightarrow> os_answers \<Rightarrow> bind_result \<Rightarrow> address \<Rightarrow> bool \<Rightarrow> time \<Rightarrow> bool \<Rightarrow> uint32 \<Rightarrow> uint32 \<Rightarrow> udp_socket
    \<Rightarrow> bind_result \<times> udp_socket" where
  "udp_bind pf os uninit0 bind_address non_blocking_io recv_timeout accepts_broadcast send_size recv_size u =
     (if \<not> sockets_init pf os then (initialization_failure, u)
      else case os_socket os of None \<Rightarrow> (socket_allocation_failure, u\<lparr>us_socket := None\<rparr>)
      | Some h \<Rightarrow>
          let u1 = u\<lparr>us_socket := Some h, us_open := insert h (us_open u), us_options := []\<rparr> in
          (case os_bind os (to_sockaddr bind_address) of
             Some e \<Rightarrow> (bind_failure pf uninit0 e, unbind u1)
           | None \<Rightarrow>
               if \<not> os_option os (SO_RCVBUF recv_size) \<or> \<not> os_option os (SO_SNDBUF send_size) then (socket_allocation_failure, unbind u1)
               else let u2 = apply_option (SO_SNDBUF send_size) (apply_option (SO_RCVBUF recv_size) u1) in
                 if \<not> os_option os (FIONBIO non_blocking_io) \<or> \<not> os_option os (SO_BROADCAST accepts_broadcast) then (generic_failure, unbind u2)
                 else let u3 = apply_option (SO_BROADCAST accepts_broadcast) (apply_option (FIONBIO non_blocking_io) u2) in
                   (bind_success, if recv_timeout \<noteq> 0 \<and> os_option os (timeout_option pf recv_timeout)
                                  then apply_option (timeout_option pf recv_timeout) u3 else u3)))"

datatype send_to_result = send_to_success | send_to_failure

text \<open>The datagram that leaves, when the operating system takes it.\<close>

definition udp_send_to :: "bool \<Rightarrow> address \<Rightarrow> byte list \<Rightarrow> uint32 \<Rightarrow> (send_to_result \<times> (sockaddr_in \<times> byte list) option) option" where
  "udp_send_to takes the_address buffer buffer_size = do {
     assert (unat buffer_size \<le> length buffer \<and> unat buffer_size < 2 ^ 31);
     Some (if takes then (send_to_success, Some (to_sockaddr the_address, take (unat buffer_size) buffer)) else (send_to_failure, None)) }"

datatype recv_errno = EAGAIN | EBADF | Other_Errno

datatype recv_from_result = packet_received | would_block_or_timeout | invalid_socket | unknown_error

text \<open>The sender's address is tested for null before it is set, but the log message behind it reads it in any case.\<close>

definition udp_recv_from :: "(recv_errno + sockaddr_in \<times> byte list) \<Rightarrow> address option \<Rightarrow> byte list \<Rightarrow> uint32 \<Rightarrow> uint32
    \<Rightarrow> (recv_from_result \<times> address option \<times> byte list \<times> uint32) option" where
  "udp_recv_from answer sender buffer buffer_size size0 = (case answer of
     Inl e \<Rightarrow> Some (case e of EAGAIN \<Rightarrow> would_block_or_timeout | EBADF \<Rightarrow> invalid_socket | Other_Errno \<Rightarrow> unknown_error, sender, buffer, size0)
   | Inr (sa, bytes) \<Rightarrow> do {
       let got = take (unat buffer_size) bytes;
       buf \<leftarrow> mem_copy buffer 0 got (length got);
       a \<leftarrow> sender;
       Some (packet_received, Some (from_sockaddr sa a), buf, word_of_nat (length got)) })"

definition packet_send_to :: "bool \<Rightarrow> address \<Rightarrow> bit_stream \<Rightarrow> (send_to_result \<times> (sockaddr_in \<times> byte list) option) option" where
  "packet_send_to takes the_address st = udp_send_to takes the_address (base_ptr st) (get_next_byte_position st)"

definition packet_recv_from :: "(recv_errno + sockaddr_in \<times> byte list) \<Rightarrow> uint32 \<Rightarrow> address option \<Rightarrow> bit_stream
    \<Rightarrow> (recv_from_result \<times> address option \<times> bit_stream) option" where
  "packet_recv_from answer data_size0 recv_address st = do {
     (the_result, sender, buf, data_size) \<leftarrow> udp_recv_from answer recv_address (base_ptr st) udp_max_datagram_size data_size0;
     Some (the_result, sender, init_stream buf 0 (data_size * 8)) }"

text \<open>\<^verbatim>\<open>torque_socket::bind\<close>: with a background reader the socket blocks for half a second at a time, and the reader is started once.\<close>

definition socket_bind :: "socket_platform \<Rightarrow> os_answers \<Rightarrow> bind_result \<Rightarrow> address \<Rightarrow> bool \<Rightarrow> bool \<times> udp_socket \<Rightarrow> bind_result \<times> bool \<times> udp_socket" where
  "socket_bind pf os uninit0 bind_address threaded = (\<lambda>(running, u).
     let block_timeout = (if threaded then 500 else 0);
         (the_result, u1) = udp_bind pf os uninit0 bind_address (\<not> threaded) block_timeout True 32768 32768 u
     in (the_result, running \<or> threaded \<and> the_result = bind_success, u1))"

text \<open>The exported function; what the address holds before it is set is an argument.\<close>

definition torque_socket_bind :: "socket_platform \<Rightarrow> os_answers \<Rightarrow> bind_result \<Rightarrow> address \<Rightarrow> sockaddr_in \<Rightarrow> bool \<Rightarrow> bool \<times> udp_socket \<Rightarrow> bind_result \<times> bool \<times> udp_socket" where
  "torque_socket_bind pf os uninit0 a0 bound_interface_address threaded = socket_bind pf os uninit0 (from_sockaddr bound_interface_address a0) threaded"

subsection \<open>Handles and results\<close>

text \<open>The calls whose results \<^verbatim>\<open>bind\<close> tests.  The call that sets the receive timeout is not one of them.\<close>

definition tested_calls_succeed :: "socket_platform \<Rightarrow> os_answers \<Rightarrow> address \<Rightarrow> bool \<Rightarrow> bool \<Rightarrow> bool" where
  "tested_calls_succeed pf os a non_blocking broadcast \<longleftrightarrow> sockets_init pf os \<and> os_socket os \<noteq> None \<and> os_bind os (to_sockaddr a) = None
     \<and> os_option os (SO_RCVBUF 32768) \<and> os_option os (SO_SNDBUF 32768) \<and> os_option os (FIONBIO non_blocking) \<and> os_option os (SO_BROADCAST broadcast)"

lemmas udp_bind_eval = socket_bind_def udp_bind_def apply_option_def unbind_def Let_def timeout_option_def tested_calls_succeed_def is_bound_def

text \<open>C19. Binding a socket accounts for its handle.  On an unbound socket \<^verbatim>\<open>torque_socket::bind\<close> leaves the socket bound exactly if every call
  of the operating system whose result it tests succeeds: startup, socket, bind, the buffer sizes, the blocking mode and broadcast.  It then reports success, these options
  are set, and with a background reader the reader runs.  The receive timeout of half a second that such a reader needs is set only if its call succeeds, which is not
  tested: success is reported and the reader runs in either case.  In every other case the handle that was opened is closed again and no other is touched, and on Windows a failure is
  reported.\<close>
theorem bind_accounts_for_handle:
  assumes "us_socket u = None" and "\<forall>h. os_socket os = Some h \<longrightarrow> h \<notin> us_open u"
  shows "\<exists>result running' u'. socket_bind pf os uninit0 a threaded (running, u) = (result, running', u') \<and> (is_bound u' \<longleftrightarrow> tested_calls_succeed pf os a (\<not> threaded) True)
     \<and> us_open u' = us_open u \<union> set_option (us_socket u') \<and> (running \<longrightarrow> running')
     \<and> (is_bound u' \<longrightarrow> result = bind_success \<and> (threaded \<longrightarrow> running')
          \<and> us_options u' = [SO_RCVBUF 32768, SO_SNDBUF 32768, FIONBIO (\<not> threaded), SO_BROADCAST True]
             @ (if threaded \<and> os_option os (timeout_option pf 500) then [timeout_option pf 500] else []))
     \<and> (\<not> is_bound u' \<longrightarrow> pf = win32 \<longrightarrow> result \<noteq> bind_success \<and> running' = running)"
proof (cases "sockets_init pf os")
  case False
  then show ?thesis using assms(1) by (auto simp: udp_bind_eval)
next
  case init: True
  show ?thesis
  proof (cases "os_socket os")
    case None
    then show ?thesis using init assms(1) by (auto simp: udp_bind_eval)
  next
    case (Some h)
    then have h: "h \<notin> us_open u" using assms(2) by simp
    show ?thesis
    proof (cases "os_bind os (to_sockaddr a)")
      case None
      then show ?thesis using init Some h by (auto simp: udp_bind_eval)
    next
      case (Some e)
      then show ?thesis using init \<open>os_socket os = Some h\<close> h by (auto simp: udp_bind_eval bind_failure_def split: wsa_error.splits)
    qed
  qed
qed

text \<open>A platform on which every call succeeds, one that cannot set a timeout, and a socket with a background reader.\<close>

definition willing_os :: "bool \<Rightarrow> os_answers" where
  "willing_os timeouts = \<lparr>os_startup = True, os_socket = Some 7, os_bind = (\<lambda>_. None), os_option = (\<lambda>opt. timeouts \<or> opt \<noteq> timeout_option unix 500)\<rparr>"

theorem bind_accounts_for_handle_witness:
  "\<exists>u' u''. socket_bind unix (willing_os True) generic_failure \<lparr>host = 0, port = 28000\<rparr> True (False, new_udp_socket {3}) = (bind_success, True, u')
     \<and> socket_bind unix (willing_os False) generic_failure \<lparr>host = 0, port = 28000\<rparr> True (False, new_udp_socket {3}) = (bind_success, True, u'')
     \<and> us_open u' = {3, 7} \<and> us_open u'' = {3, 7} \<and> SO_RCVTIMEO 0 500000 \<in> set (us_options u') \<and> SO_RCVTIMEO 0 500000 \<notin> set (us_options u'')"
proof -
  let ?a = "\<lparr>host = 0, port = 28000\<rparr>"
  have t: "timeout_option unix 500 = SO_RCVTIMEO 0 500000" by (simp add: timeout_option_def)
  have "\<exists>u'. socket_bind unix (willing_os w) generic_failure ?a True (False, new_udp_socket {3}) = (bind_success, True, u') \<and> us_open u' = {3, 7}
     \<and> (SO_RCVTIMEO 0 500000 \<in> set (us_options u') \<longleftrightarrow> w)" for w
  proof -
    obtain result running' u' where u': "socket_bind unix (willing_os w) generic_failure ?a True (False, new_udp_socket {3}) = (result, running', u')"
        "is_bound u' \<longleftrightarrow> tested_calls_succeed unix (willing_os w) ?a (\<not> True) True" "us_open u' = us_open (new_udp_socket {3}) \<union> set_option (us_socket u')"
        "is_bound u' \<longrightarrow> result = bind_success \<and> (True \<longrightarrow> running')
          \<and> us_options u' = [SO_RCVBUF 32768, SO_SNDBUF 32768, FIONBIO (\<not> True), SO_BROADCAST True]
              @ (if True \<and> os_option (willing_os w) (timeout_option unix 500) then [timeout_option unix 500] else [])"
      using bind_accounts_for_handle[of "new_udp_socket {3}" "willing_os w" unix generic_failure ?a True False] by (auto simp: new_udp_socket_def willing_os_def)
    have "is_bound u'" using u'(2) by (simp add: tested_calls_succeed_def willing_os_def sockets_init_def t)
    moreover have "us_socket u' = Some 7" using u'(1) by (auto simp: udp_bind_eval willing_os_def sockets_init_def)
    ultimately show ?thesis using u'(1,3,4) t by (auto simp: new_udp_socket_def willing_os_def)
  qed
  from this[of True] this[of False] show ?thesis by blast
qed

text \<open>Except on Windows a failed \<^verbatim>\<open>bind\<close> call reports what the uninitialised variable holds, which may be success: the reader is then started on a closed socket.\<close>

lemma failed_bind_reports_success:
  assumes "os_socket os = Some h" "os_bind os (to_sockaddr a) = Some e"
  shows "\<exists>u'. socket_bind unix os bind_success a True (running, u) = (bind_success, True, u') \<and> \<not> is_bound u'"
  using assms by (simp add: udp_bind_eval sockets_init_def bind_failure_def)

text \<open>Binding a bound socket again overwrites the handle, which stays open.\<close>

lemma rebind_leaks:
  assumes "us_socket u = Some h" "h \<in> us_open u" "tested_calls_succeed pf os a (\<not> threaded) True" "os_socket os \<noteq> Some h"
  shows "\<exists>result running' u'. socket_bind pf os uninit0 a threaded (running, u) = (result, running', u') \<and> h \<in> us_open (unbind u') \<and> us_socket u' \<noteq> Some h"
  using assms by (auto simp: udp_bind_eval)

subsection \<open>Datagrams\<close>

text \<open>C20. A datagram arrives as it was sent.  What a packet stream hands to the operating system, delivered under the sender's socket address to a
  packet stream that receives, is read there from the first bit on: the same bytes, the number of bits that fit them, and the address of the
  sender; an error of the operating system leaves the buffer as it was.\<close>
theorem datagram_round_trip:
  assumes "length (base_ptr out) = 1536" "bit_num out \<le> 1536 * 8" "length (base_ptr inp) = 1536"
  shows "\<exists>bytes st. packet_send_to True dest out = Some (send_to_success, Some (to_sockaddr dest, bytes)) \<and> datagram out = Some bytes
     \<and> packet_recv_from (Inr (to_sockaddr source, bytes)) size0 (Some a0) inp = Some (packet_received, Some source, st)
     \<and> take (length bytes) (base_ptr st) = bytes \<and> length (base_ptr st) = 1536 \<and> bit_num st = 0 \<and> unat (bit_end st) = 8 * length bytes \<and> \<not> error_detected st
     \<and> (\<forall>e. \<exists>r st'. packet_recv_from (Inl e) size0 (Some a0) inp = Some (r, Some a0, st') \<and> r \<noteq> packet_received \<and> base_ptr st' = base_ptr inp)"
proof -
  let ?n = "get_next_byte_position out"
  have "unat (bit_num out) \<le> 12288" using assms(2) by (simp add: word_le_nat_alt)
  then have "unat (bit_num out + 7) = unat (bit_num out) + 7" by (simp add: unat_word_ariths)
  then have n: "unat ?n = (unat (bit_num out) + 7) div 8" by (simp add: get_next_byte_position_def drop_bit_eq_div unat_div)
  then have le: "unat ?n \<le> 1536" using \<open>unat (bit_num out) \<le> 12288\<close> by simp
  let ?bytes = "take (unat ?n) (base_ptr out)"
  have len: "length ?bytes = unat ?n" using le assms(1) by simp
  have send: "packet_send_to True dest out = Some (send_to_success, Some (to_sockaddr dest, ?bytes))" "datagram out = Some ?bytes"
    using le assms(1) by (simp_all add: packet_send_to_def udp_send_to_def datagram_def Let_def)
  have addr: "from_sockaddr (to_sockaddr source) a0 = source"
    by (simp add: from_sockaddr_def to_sockaddr_def endian_swap32_involution endian_swap16_involution)
  let ?buf = "?bytes @ drop (unat ?n) (base_ptr inp)"
  have "mem_copy (base_ptr inp) 0 ?bytes (unat ?n) = Some ?buf" using le assms(1,3) by (simp add: mem_copy_def)
  then have recv: "packet_recv_from (Inr (to_sockaddr source, ?bytes)) size0 (Some a0) inp = Some (packet_received, Some source, init_stream ?buf 0 (?n * 8))"
    using le len addr by (simp add: packet_recv_from_def udp_recv_from_def udp_max_datagram_size_def Let_def)
  have "unat (?n * 8) = 8 * unat ?n" using le by (simp add: unat_word_ariths)
  moreover have "\<exists>r st'. packet_recv_from (Inl e) size0 (Some a0) inp = Some (r, Some a0, st') \<and> r \<noteq> packet_received \<and> base_ptr st' = base_ptr inp" for e
    by (cases e) (simp_all add: packet_recv_from_def udp_recv_from_def init_stream_def)
  ultimately show ?thesis using send recv len assms(3) le by (intro exI[of _ ?bytes] exI[of _ "init_stream ?buf 0 (?n * 8)"]) (simp add: init_stream_def)
qed

theorem datagram_round_trip_witness:
  "\<exists>bytes st. packet_send_to True \<lparr>host = 1, port = 2\<rparr> ((packet_stream (\<lambda>_. 9))\<lparr>bit_num := 20\<rparr>) = Some (send_to_success, Some (to_sockaddr \<lparr>host = 1, port = 2\<rparr>, bytes))
     \<and> packet_recv_from (Inr (to_sockaddr \<lparr>host = 3, port = 4\<rparr>, bytes)) 5 (Some \<lparr>host = 0, port = 0\<rparr>) (packet_stream (\<lambda>_. 0)) = Some (packet_received, Some \<lparr>host = 3, port = 4\<rparr>, st)
     \<and> bit_num st = 0"
proof -
  let ?out = "(packet_stream (\<lambda>_. 9))\<lparr>bit_num := 20\<rparr>"
  have "length (base_ptr ?out) = 1536" "bit_num ?out \<le> 1536 * 8" "length (base_ptr (packet_stream (\<lambda>_. 0))) = 1536"
    by (simp_all add: packet_stream_def make_stream_def init_stream_def udp_max_datagram_size_def word_le_nat_alt)
  from datagram_round_trip[OF this, of "\<lparr>host = 1, port = 2\<rparr>" "\<lparr>host = 3, port = 4\<rparr>" 5 "\<lparr>host = 0, port = 0\<rparr>"] show ?thesis by blast
qed

text \<open>A caller that does not want the sender's address traps on the first datagram.\<close>

lemma null_sender_traps: "udp_recv_from (Inr d) None buffer n size0 = None"
  by (cases d) (simp add: udp_recv_from_def Let_def split: bind_splits)

end
