(* ===== verification/Base64.thy ===== *)
theory Base64
  imports Base_Type_IO
begin

text \<open>
  Base 64 text: \<^verbatim>\<open>buffer_encode_base_64\<close> and \<^verbatim>\<open>buffer_decode_base_64\<close> of \<^verbatim>\<open>torque_sockets/buffer_utils.h\<close>, over \<^verbatim>\<open>base64_encode\<close> and \<^verbatim>\<open>base64_decode\<close> of the vendored
  libtomcrypt, which are modelled from their source, and \<^verbatim>\<open>buffer_compute_md5_hash\<close>.  An \<^verbatim>\<open>unsigned long\<close> that holds a size does not overflow; characters become 32-bit integers.
\<close>

subsection \<open>The encoder\<close>

datatype crypt_result = CRYPT_OK | CRYPT_BUFFER_OVERFLOW | CRYPT_INVALID_PACKET

definition codes :: "byte list" where
  "codes = map word_of_nat ([65..<91] @ [97..<123] @ [48..<58] @ [43, 47])"

definition code_of :: "uint32 \<Rightarrow> byte" where
  "code_of v = codes ! unat (v AND 0x3F)"

definition pad :: byte where
  "pad = 61"

fun encode_groups :: "byte list \<Rightarrow> byte list" where
  "encode_groups (x # y # z # rest) =
     (let a = ucast x; b = ucast y; c = ucast z in
      [code_of (drop_bit 2 a), code_of (push_bit 4 (a AND 3) + drop_bit 4 b), code_of (push_bit 2 (b AND 0xF) + drop_bit 6 c), code_of c]) @ encode_groups rest"
| "encode_groups [x, y] =
     (let a = ucast x; b = ucast y in
      [code_of (drop_bit 2 a), code_of (push_bit 4 (a AND 3) + drop_bit 4 b), code_of (push_bit 2 (b AND 0xF)), pad])"
| "encode_groups [x] = (let a = ucast x; b = 0 in [code_of (drop_bit 2 a), code_of (push_bit 4 (a AND 3) + drop_bit 4 b), pad, pad])"
| "encode_groups [] = []"

text \<open>The result, the destination and the length.\<close>

definition base64_encode :: "byte list \<Rightarrow> byte list \<Rightarrow> nat \<Rightarrow> (crypt_result \<times> byte list \<times> nat) option" where
  "base64_encode inp out outlen = (let len2 = 4 * ((length inp + 2) div 3) in
     if outlen < len2 + 1 then Some (CRYPT_BUFFER_OVERFLOW, out, len2 + 1)
     else do {
       let text = encode_groups inp;
       out' \<leftarrow> mem_copy out 0 (text @ [0]) (length text + 1);
       Some (CRYPT_OK, out', length text) })"

definition buffer_encode_base_64 :: "(nat \<Rightarrow> byte) \<Rightarrow> byte list \<Rightarrow> uint32 \<Rightarrow> byte_buffer option" where
  "buffer_encode_base_64 uninit buffer buffer_size = do {
     assert (unat buffer_size \<le> length buffer);
     let out_len = ((buffer_size div 3) + 1) * 4 + 4 + 1;
     let ret = buffer_of_size uninit out_len;
     (_, d, n) \<leftarrow> base64_encode (take (unat buffer_size) buffer) (data_ptr ret) (unat out_len);
     let ret1 = buffer_resize uninit (word_of_nat (n + 1)) (ret\<lparr>data_ptr := d\<rparr>);
     d1 \<leftarrow> store (data_ptr ret1) n 0;
     Some (ret1\<lparr>data_ptr := d1\<rparr>) }"

subsection \<open>The decoder\<close>

definition b64_map :: "byte list" where
  "b64_map = replicate 43 255 @ [62] @ replicate 3 255 @ [63] @ map word_of_nat [52..<62] @ replicate 3 255 @ [254] @ replicate 3 255
     @ map word_of_nat [0..<26] @ replicate 6 255 @ map word_of_nat [26..<52] @ replicate 133 255"

definition shift_in :: "uint32 \<Rightarrow> uint32 \<Rightarrow> uint32" where
  "shift_in t c = push_bit 6 t OR c"

text \<open>Four characters are complete: \<open>g\<close> bytes of them are written, but at least one.\<close>

definition put_group :: "uint32 \<Rightarrow> int \<Rightarrow> nat \<Rightarrow> byte list \<Rightarrow> (nat \<times> byte list) option" where
  "put_group t g z out = do {
     out1 \<leftarrow> store out z (ucast (drop_bit 16 t AND 255));
     out2 \<leftarrow> (if 1 < g then store out1 (z + 1) (ucast (drop_bit 8 t AND 255)) else Some out1);
     out3 \<leftarrow> (if 2 < g then store out2 (z + 2) (ucast (t AND 255)) else Some out2);
     Some (z + (if 2 < g then 3 else if 1 < g then 2 else 1), out3) }"

fun decode_loop :: "byte list \<Rightarrow> nat \<Rightarrow> int \<Rightarrow> nat \<Rightarrow> uint32 \<Rightarrow> nat \<Rightarrow> byte list \<Rightarrow> (crypt_result \<times> byte list \<times> nat) option" where
  "decode_loop [] outlen g y t z out = Some (if y \<noteq> 0 then (CRYPT_INVALID_PACKET, out, outlen) else (CRYPT_OK, out, z))"
| "decode_loop (x # xs) outlen g y t z out = (let c = b64_map ! unat x in
     if c = 255 then decode_loop xs outlen g y t z out
     else if c = 254 \<and> g - 1 < 0 \<or> c \<noteq> 254 \<and> g \<noteq> 3 then Some (CRYPT_INVALID_PACKET, out, outlen)
     else let g' = (if c = 254 then g - 1 else g);
              t' = shift_in t (if c = 254 then 0 else ucast c)
       in if y + 1 = 4 then
            (if int outlen < int z + g' then Some (CRYPT_BUFFER_OVERFLOW, out, outlen)
             else do {
               (z', out') \<leftarrow> put_group t' g' z out;
               decode_loop xs outlen g' 0 0 z' out' })
          else decode_loop xs outlen g' (y + 1) t' z out)"

definition base64_decode :: "byte list \<Rightarrow> byte list \<Rightarrow> nat \<Rightarrow> (crypt_result \<times> byte list \<times> nat) option" where
  "base64_decode inp out outlen = decode_loop inp outlen 3 0 0 0 out"

text \<open>The result of the decoder is not tested.\<close>

definition buffer_decode_base_64 :: "(nat \<Rightarrow> byte) \<Rightarrow> byte list \<Rightarrow> uint32 \<Rightarrow> byte_buffer option" where
  "buffer_decode_base_64 uninit buffer buffer_size = do {
     assert (unat buffer_size \<le> length buffer);
     let ret = buffer_of_size uninit buffer_size;
     (_, d, n) \<leftarrow> base64_decode (take (unat buffer_size) buffer) (data_ptr ret) (unat buffer_size);
     Some (buffer_resize uninit (word_of_nat n) (ret\<lparr>data_ptr := d\<rparr>)) }"

text \<open>\<^verbatim>\<open>buffer_compute_md5_hash\<close>; the hash function is a parameter.\<close>

definition buffer_compute_md5_hash :: "(byte list \<Rightarrow> byte list) \<Rightarrow> (nat \<Rightarrow> byte) \<Rightarrow> byte list \<Rightarrow> uint32 \<Rightarrow> byte_buffer option" where
  "buffer_compute_md5_hash md5 uninit buffer len = do {
     assert (unat len \<le> length buffer);
     let ret = buffer_of_size uninit 16;
     let digest = md5 (take (unat len) buffer);
     d \<leftarrow> mem_copy (data_ptr ret) 0 digest (length digest);
     Some (ret\<lparr>data_ptr := d\<rparr>) }"

lemma md5_hash_contents:
  assumes "unat len \<le> length buffer" "length (md5 (take (unat len) buffer)) = 16"
  shows "\<exists>b. buffer_compute_md5_hash md5 uninit buffer len = Some b \<and> contents b = md5 (take (unat len) buffer)"
  using assms by (simp add: buffer_compute_md5_hash_def buffer_of_size_def mem_copy_def contents_def Let_def)

subsection \<open>Groups as numbers\<close>

lemma unat_and_mask: "unat (w AND mask k) = unat (w :: uint32) mod 2 ^ k"
  unfolding take_bit_eq_mask[symmetric] unsigned_take_bit_eq by (rule take_bit_eq_mod)

lemma unat_low_bits: "unat (w AND 0x3F :: uint32) = unat w mod 64" "unat (w AND 3 :: uint32) = unat w mod 4" "unat (w AND 0xF :: uint32) = unat w mod 16"
    "unat (w AND 255 :: uint32) = unat w mod 256"
  using unat_and_mask[of w 6] unat_and_mask[of w 2] unat_and_mask[of w 4] unat_and_mask[of w 8] by (simp_all add: mask_eq_exp_minus_1)

lemma unat_drop_bits: "unat (drop_bit k w :: uint32) = unat w div 2 ^ k"
  unfolding unat_drop_bit_eq by (rule drop_bit_eq_div)

lemma unat_push_bits:
  "unat w * 4 < 2 ^ 32 \<Longrightarrow> unat (push_bit 2 w :: uint32) = unat w * 4" "unat w * 16 < 2 ^ 32 \<Longrightarrow> unat (push_bit 4 w :: uint32) = unat w * 16"
  "unat w * 64 < 2 ^ 32 \<Longrightarrow> unat (push_bit 6 w :: uint32) = unat w * 64"
  by (simp_all add: push_bit_eq_mult unat_word_ariths)

lemma unat_push_or:
  assumes "unat t < 2 ^ 26" "unat c < 64"
  shows "unat (shift_in t c) = unat t * 64 + unat c"
proof -
  have "unat (take_bit 6 c) = unat c" unfolding unsigned_take_bit_eq using assms(2) by (simp add: take_bit_eq_mod)
  then have c: "take_bit 6 c = c" by (simp only: word_unat_eq_iff)
  have "push_bit 6 t + take_bit 6 c = push_bit 6 t OR take_bit 6 c"
    by (subst disjunctive_add_eq_or) (auto intro!: bit_word_eqI simp: bit_simps)
  then have "push_bit 6 t OR c = push_bit 6 t + c" unfolding c by simp
  moreover have "unat (push_bit 6 t) = unat t * 64" using unat_push_bits(3)[of t] assms(1) by simp
  ultimately show ?thesis using assms by (simp add: shift_in_def unat_word_ariths)
qed

lemma unat_widen: "unat (ucast (x :: byte) :: uint32) = unat x"
proof -
  have "unat x < 256" by (rule order.strict_trans2[OF unsigned_less]) simp
  then show ?thesis by (simp add: unsigned_ucast_eq take_bit_eq_mod)
qed

lemma code_of_map:
  assumes "unat v < 64"
  shows "b64_map ! unat (code_of v) \<noteq> 255" "b64_map ! unat (code_of v) \<noteq> 254" "ucast (b64_map ! unat (code_of v)) = v"
proof -
  have "list_all (\<lambda>n. unat (b64_map ! unat (codes ! n)) = n \<and> b64_map ! unat (codes ! n) \<noteq> 255 \<and> b64_map ! unat (codes ! n) \<noteq> 254) [0..<64]"
    by code_simp
  then have all: "unat (b64_map ! unat (codes ! n)) = n" "b64_map ! unat (codes ! n) \<noteq> 255" "b64_map ! unat (codes ! n) \<noteq> 254" if "n < 64" for n
    using that by (simp_all add: list_all_iff)
  have "unat (v AND 0x3F) = unat v" using assms by (simp add: unat_low_bits)
  then have c: "code_of v = codes ! unat v" by (simp add: code_of_def)
  show "b64_map ! unat (code_of v) \<noteq> 255" "b64_map ! unat (code_of v) \<noteq> 254" unfolding c using all(2,3)[OF assms] .
  show "ucast (b64_map ! unat (code_of v)) = v" unfolding c word_unat_eq_iff unat_widen using all(1)[OF assms] .
qed

lemma special_chars: "b64_map ! unat pad = 254" "b64_map ! 0 = 255"
  by code_simp+

text \<open>One character of the alphabet.\<close>

lemma decode_code:
  assumes "unat v < 64" "y < 3"
  shows "decode_loop (code_of v # xs) outlen 3 y t z out = decode_loop xs outlen 3 (y + 1) (shift_in t v) z out"
  using code_of_map[OF assms(1)] assms(2) by (simp add: Let_def)

lemma decode_last_code:
  assumes "unat v < 64"
  shows "decode_loop (code_of v # xs) outlen 3 3 t z out = (if outlen < z + 3 then Some (CRYPT_BUFFER_OVERFLOW, out, outlen)
     else do { (z', out') \<leftarrow> put_group (shift_in t v) 3 z out; decode_loop xs outlen 3 0 0 z' out' })"
  using code_of_map[OF assms(1)] by (simp add: Let_def)

text \<open>What four values are as one number.\<close>

lemma four_codes:
  assumes "unat u < 64" "unat v < 64" "unat w < 64" "unat x < 64"
  shows "unat (shift_in (shift_in (shift_in (shift_in 0 u) v) w) x) = ((unat u * 64 + unat v) * 64 + unat w) * 64 + unat x"
  using assms by (simp add: unat_push_or)

text \<open>The values of a group of three bytes, and the bytes of a number of three bytes.\<close>

lemma group_values:
  fixes a b c :: uint32
  assumes "unat a < 256" "unat b < 256" "unat c < 256"
  shows "unat (drop_bit 2 a) = unat a div 4" "unat (push_bit 4 (a AND 3) + drop_bit 4 b) = unat a mod 4 * 16 + unat b div 16"
    "unat (push_bit 2 (b AND 0xF) + drop_bit 6 c) = unat b mod 16 * 4 + unat c div 64" "unat (push_bit 2 (b AND 0xF)) = unat b mod 16 * 4"
proof -
  have p: "unat (push_bit 4 (a AND 3)) = unat a mod 4 * 16" using unat_push_bits(2)[of "a AND 3"] unfolding unat_low_bits by simp
  have q: "unat (push_bit 2 (b AND 0xF)) = unat b mod 16 * 4" using unat_push_bits(1)[of "b AND 0xF"] unfolding unat_low_bits by simp
  show "unat (drop_bit 2 a) = unat a div 4" by (simp add: unat_drop_bits)
  show "unat (push_bit 4 (a AND 3) + drop_bit 4 b) = unat a mod 4 * 16 + unat b div 16"
    using assms(2) unfolding unat_word_ariths p unat_drop_bits by simp
  show "unat (push_bit 2 (b AND 0xF) + drop_bit 6 c) = unat b mod 16 * 4 + unat c div 64"
    using assms(3) unfolding unat_word_ariths q unat_drop_bits by simp
  show "unat (push_bit 2 (b AND 0xF)) = unat b mod 16 * 4" by (rule q)
qed

lemma group_number:
  fixes a b c :: nat
  shows "((a div 4 * 64 + (a mod 4 * 16 + b div 16)) * 64 + (b mod 16 * 4 + c div 64)) * 64 + c mod 64 = a * 65536 + b * 256 + c"
proof -
  have "((q * 64 + (r * 16 + s)) * 64 + (t * 4 + u)) * 64 + v = (q * 4 + r) * 65536 + (s * 16 + t) * 256 + (u * 64 + v)" for q r s t u v :: nat
    by (simp add: algebra_simps)
  then show ?thesis by (simp only: div_mult_mod_eq)
qed

lemma three_bytes:
  fixes a b c :: nat
  assumes "a < 256" "b < 256" "c < 256"
  shows "(a * 65536 + b * 256 + c) div 65536 mod 256 = a" "(a * 65536 + b * 256 + c) div 256 mod 256 = b" "(a * 65536 + b * 256 + c) mod 256 = c"
proof -
  have n: "a * 65536 + b * 256 + c = (a * 256 + b) * 256 + c" by simp
  have 1: "(a * 65536 + b * 256 + c) div 256 = a * 256 + b" unfolding n using assms(3) by simp
  have 2: "(a * 65536 + b * 256 + c) mod 256 = c" unfolding n mod_mult_self3 using assms(3) by simp
  have "(a * 65536 + b * 256 + c) div 65536 = (a * 65536 + b * 256 + c) div 256 div 256" by (simp add: div_mult2_eq[symmetric])
  then show "(a * 65536 + b * 256 + c) div 65536 mod 256 = a" using 1 assms by simp
  show "(a * 65536 + b * 256 + c) div 256 mod 256 = b" unfolding 1 mod_mult_self3 using assms by simp
  show "(a * 65536 + b * 256 + c) mod 256 = c" by (rule 2)
qed

lemma put_group_bytes:
  fixes x y z :: byte
  assumes t: "unat t = unat x * 65536 + unat y * 256 + unat z" and g: "g \<in> {1, 2, 3}" and room: "n + nat g \<le> length out"
  shows "put_group t g n out = Some (n + nat g, take n out @ take (nat g) [x, y, z] @ drop (n + nat g) out)"
proof -
  have b: "unat x < 256" "unat y < 256" "unat z < 256" by (rule order.strict_trans2[OF unsigned_less], simp)+
  have "unat (ucast (v AND 255 :: uint32) :: byte) = unat v mod 256" for v
    by (simp add: unsigned_ucast_eq unat_low_bits take_bit_eq_mod)
  then have w: "ucast (drop_bit 16 t AND 255) = x" "ucast (drop_bit 8 t AND 255) = y" "ucast (t AND 255) = z"
    using three_bytes[OF b] t by (simp_all add: word_unat_eq_iff unat_drop_bits)
  have upd: "xs[k := v] = take k xs @ [v] @ drop (Suc k) xs" if "k < length xs" for k v and xs :: "byte list" using that by (simp add: upd_conv_take_nth_drop)
  consider "g = 1" | "g = 2" | "g = 3" using g by blast
  then show ?thesis
  proof cases
    case 1
    then show ?thesis using room w by (simp add: put_group_def upd)
  next
    case 2
    then show ?thesis using room w by (simp add: put_group_def upd take_Suc_conv_app_nth)
  next
    case 3
    then show ?thesis using room w by (simp add: put_group_def upd numeral_3_eq_3)
  qed
qed

subsection \<open>Round trip\<close>

lemma byte_values: "unat (ucast (x :: byte) :: uint32) < 256"
  unfolding unat_widen by (rule order.strict_trans2[OF unsigned_less]) simp

text \<open>The value of the characters of a group.\<close>

lemma decode_pad:
  "decode_loop (pad # xs) outlen 3 2 t z out = decode_loop xs outlen 2 3 (shift_in t 0) z out"
  "decode_loop (pad # xs) outlen 3 3 t z out = (if outlen < z + 2 then Some (CRYPT_BUFFER_OVERFLOW, out, outlen)
     else do { (z', out') \<leftarrow> put_group (shift_in t 0) 2 z out; decode_loop xs outlen 2 0 0 z' out' })"
  "decode_loop (pad # xs) outlen 2 3 t z out = (if outlen < z + 1 then Some (CRYPT_BUFFER_OVERFLOW, out, outlen)
     else do { (z', out') \<leftarrow> put_group (shift_in t 0) 1 z out; decode_loop xs outlen 1 0 0 z' out' })"
  using special_chars(1) by (simp_all add: Let_def)

lemma decode_group:
  fixes p q r s :: uint32
  defines "t2 \<equiv> shift_in (shift_in 0 p) q"
  assumes "unat p < 64" "unat q < 64"
  shows "decode_loop (code_of p # code_of q # xs) outlen 3 0 0 z out = decode_loop xs outlen 3 2 t2 z out"
    and "unat r < 64 \<Longrightarrow> decode_loop (code_of r # xs) outlen 3 2 t2 z out = decode_loop xs outlen 3 3 (shift_in t2 r) z out"
proof -
  show "decode_loop (code_of p # code_of q # xs) outlen 3 0 0 z out = decode_loop xs outlen 3 2 t2 z out"
    unfolding t2_def using decode_code[OF assms(2), of 0] decode_code[OF assms(3), of 1] by (simp del: decode_loop.simps add: numeral_2_eq_2[symmetric])
  show "decode_loop (code_of r # xs) outlen 3 2 t2 z out = decode_loop xs outlen 3 3 (shift_in t2 r) z out" if "unat r < 64"
    using decode_code[OF that, of 2] by (simp del: decode_loop.simps add: numeral_3_eq_3[symmetric])
qed

text \<open>The four values of a group of three bytes.\<close>

definition group_codes :: "byte \<Rightarrow> byte \<Rightarrow> byte \<Rightarrow> uint32 \<times> uint32 \<times> uint32 \<times> uint32" where
  "group_codes x y z = (let a = ucast x; b = ucast y; c = ucast z in
     (drop_bit 2 a, push_bit 4 (a AND 3) + drop_bit 4 b, push_bit 2 (b AND 0xF) + drop_bit 6 c, c AND 0x3F))"

lemma group_bounds:
  assumes "group_codes x y z = (p, q, r, s)"
  shows "unat p < 64" "unat q < 64" "unat r < 64" "unat s < 64"
    "unat (shift_in (shift_in (shift_in (shift_in 0 p) q) r) s) = unat x * 65536 + unat y * 256 + unat z"
proof -
  note v = group_values[OF byte_values[of x] byte_values[of y] byte_values[of z], unfolded unat_widen]
  have v': "unat p = unat x div 4" "unat q = unat x mod 4 * 16 + unat y div 16" "unat r = unat y mod 16 * 4 + unat z div 64" "unat s = unat z mod 64"
    using assms v by (auto simp: group_codes_def Let_def unat_low_bits unat_widen)
  have b: "unat x < 256" "unat y < 256" "unat z < 256" using byte_values by (simp_all only: unat_widen)
  show "unat p < 64" using b v' by simp
  show "unat q < 64" using b(2) mod_less_divisor[of 4 "unat x"] v'(2) by linarith
  show "unat r < 64" using b(3) mod_less_divisor[of 16 "unat y"] v'(3) by linarith
  show "unat s < 64" using v' by simp
  show "unat (shift_in (shift_in (shift_in (shift_in 0 p) q) r) s) = unat x * 65536 + unat y * 256 + unat z"
    unfolding four_codes[OF \<open>unat p < 64\<close> \<open>unat q < 64\<close> \<open>unat r < 64\<close> \<open>unat s < 64\<close>] v' by (rule group_number)
qed

lemma encode_as_groups:
  "encode_groups (x # y # z # rest) = (case group_codes x y z of (p, q, r, s) \<Rightarrow> code_of p # code_of q # code_of r # code_of s # encode_groups rest)"
  "encode_groups [x, y] = (case group_codes x y 0 of (p, q, r, s) \<Rightarrow> [code_of p, code_of q, code_of r, pad])"
  "encode_groups [x] = (case group_codes x 0 0 of (p, q, r, s) \<Rightarrow> [code_of p, code_of q, pad, pad])"
  by (simp_all add: group_codes_def Let_def code_of_def and.assoc)

lemma decode_full_group:
  assumes "n + 3 \<le> outlen" "outlen \<le> length out"
  shows "decode_loop (encode_groups (x # y # z # rest) @ xs) outlen 3 0 0 n out
    = decode_loop (encode_groups rest @ xs) outlen 3 0 0 (n + 3) (take n out @ [x, y, z] @ drop (n + 3) out)"
proof -
  obtain p q r s where g: "group_codes x y z = (p, q, r, s)" by (cases "group_codes x y z")
  note b = group_bounds[OF g]
  show ?thesis using assms put_group_bytes[OF b(5), of 3 n out] 
    by (simp add: encode_as_groups(1) g decode_group[OF b(1,2)] b(3) decode_last_code[OF b(4)] del: decode_loop.simps encode_groups.simps)
qed

lemma decode_two_bytes:
  assumes "n + 2 \<le> outlen" "outlen \<le> length out"
  shows "decode_loop (encode_groups [x, y] @ xs) outlen 3 0 0 n out = decode_loop xs outlen 2 0 0 (n + 2) (take n out @ [x, y] @ drop (n + 2) out)"
proof -
  obtain p q r s where g: "group_codes x y 0 = (p, q, r, s)" by (cases "group_codes x y 0")
  note b = group_bounds[OF g]
  have "s = 0" using g by (simp add: group_codes_def Let_def)
  then show ?thesis using assms put_group_bytes[OF b(5), of 2 n out]
    by (simp add: encode_as_groups(2) g decode_group[OF b(1,2)] b(3) decode_pad(2) del: decode_loop.simps encode_groups.simps)
qed

lemma decode_one_byte:
  assumes "n + 1 \<le> outlen" "outlen \<le> length out"
  shows "decode_loop (encode_groups [x] @ xs) outlen 3 0 0 n out = decode_loop xs outlen 1 0 0 (n + 1) (take n out @ [x] @ drop (n + 1) out)"
proof -
  obtain p q r s where g: "group_codes x 0 0 = (p, q, r, s)" by (cases "group_codes x 0 0")
  note b = group_bounds[OF g]
  have "s = 0" "r = 0" using g by (simp_all add: group_codes_def Let_def)
  then show ?thesis using assms put_group_bytes[OF b(5), of 1 n out]
    by (simp add: encode_as_groups(3) g decode_group[OF b(1,2)] decode_pad(1,3) del: decode_loop.simps encode_groups.simps)
qed

lemma decode_encoded:
  assumes "n + length bytes \<le> outlen" "outlen \<le> length out"
  shows "\<exists>g. decode_loop (encode_groups bytes @ xs) outlen 3 0 0 n out = decode_loop xs outlen g 0 0 (n + length bytes) (take n out @ bytes @ drop (n + length bytes) out)"
  using assms
proof (induction bytes arbitrary: n out rule: encode_groups.induct)
  case (1 x y z rest)
  let ?out = "take n out @ [x, y, z] @ drop (n + 3) out"
  have len: "length ?out = length out" using 1 by simp
  have "\<exists>g. decode_loop (encode_groups rest @ xs) outlen 3 0 0 (n + 3) ?out
    = decode_loop xs outlen g 0 0 (n + 3 + length rest) (take (n + 3) ?out @ rest @ drop (n + 3 + length rest) ?out)"
    using 1 len by (intro 1(1)) simp_all
  moreover have "take (n + 3) ?out = take n out @ [x, y, z]" "drop (n + 3 + length rest) ?out = drop (n + 3 + length rest) out" using 1
    by (simp_all add: numeral_3_eq_3 add.commute)
  moreover have "decode_loop (encode_groups (x # y # z # rest) @ xs) outlen 3 0 0 n out = decode_loop (encode_groups rest @ xs) outlen 3 0 0 (n + 3) ?out"
    using 1 by (intro decode_full_group) simp_all
  ultimately show ?case by (simp add: add.assoc numeral_3_eq_3 del: decode_loop.simps encode_groups.simps)
next
  case (2 x y)
  then show ?case using decode_two_bytes[of n outlen out x y xs] by (intro exI[of _ 2]) simp
next
  case (3 x)
  then show ?case using decode_one_byte[of n outlen out x xs] by (intro exI[of _ 1]) simp
next
  case 4
  then show ?case by (intro exI[of _ 3]) simp
qed

lemma length_encode_groups: "length (encode_groups bytes) = 4 * ((length bytes + 2) div 3)"
proof (induction bytes rule: encode_groups.induct)
  case (1 x y z rest)
  have "(3 + (length rest + 2)) div 3 = 1 + (length rest + 2) div 3" by simp
  then show ?case using 1 by (simp add: Let_def)
qed (simp_all add: Let_def)

text \<open>The decoder stays in an output of the size of its input: every four characters leave room for the bytes they stand for.\<close>

lemma put_group_ok:
  assumes "n + 3 \<le> length out"
  shows "\<exists>n' out'. put_group t g n out = Some (n', out') \<and> n' \<le> n + 3 \<and> length out' = length out"
  using assms by (auto simp: put_group_def)

lemma decode_total:
  assumes "y < 4" "z + y + length xs \<le> outlen" "outlen \<le> length out" "g \<le> 3"
  shows "\<exists>r out' n. decode_loop xs outlen g y t z out = Some (r, out', n) \<and> length out' = length out \<and> n \<le> outlen \<and> r \<noteq> CRYPT_BUFFER_OVERFLOW"
  using assms
proof (induction xs arbitrary: g y t z out)
  case Nil
  then show ?case by simp
next
  case (Cons x xs)
  let ?c = "b64_map ! unat x"
  let ?g = "if ?c = 254 then g - 1 else g"
  let ?t = "shift_in t (if ?c = 254 then 0 else ucast ?c)"
  have g: "?g \<le> 3" using Cons.prems by simp
  consider (skip) "?c = 255" | (stop) "?c \<noteq> 255" "?c = 254 \<and> g - 1 < 0 \<or> ?c \<noteq> 254 \<and> g \<noteq> 3"
    | (more) "?c \<noteq> 255" "\<not> (?c = 254 \<and> g - 1 < 0 \<or> ?c \<noteq> 254 \<and> g \<noteq> 3)" "y + 1 < 4" | (full) "?c \<noteq> 255" "\<not> (?c = 254 \<and> g - 1 < 0 \<or> ?c \<noteq> 254 \<and> g \<noteq> 3)" "y = 3"
    using Cons.prems(1) by linarith
  then show ?case
  proof cases
    case skip
    then show ?thesis using Cons.IH[of y z out g t] Cons.prems by simp
  next
    case stop
    then show ?thesis using Cons.prems by simp
  next
    case more
    have "decode_loop (x # xs) outlen g y t z out = decode_loop xs outlen ?g (y + 1) ?t z out"
      unfolding decode_loop.simps Let_def if_not_P[OF more(1)] if_not_P[OF more(2)] using more(3) by simp
    then show ?thesis using Cons.IH[of "y + 1" z out ?g ?t] Cons.prems more(3) g by simp
  next
    case full
    obtain n' out' where p: "put_group ?t ?g z out = Some (n', out')" "n' \<le> z + 3" "length out' = length out"
      using put_group_ok[of z out ?t ?g] Cons.prems full(3) by auto
    have "\<not> int outlen < int z + ?g" using Cons.prems(2) full(3) g by simp
    then have "decode_loop (x # xs) outlen g y t z out = decode_loop xs outlen ?g 0 0 n' out'"
      unfolding decode_loop.simps Let_def if_not_P[OF full(1)] if_not_P[OF full(2)] using full(3) p(1) by simp
    then show ?thesis using Cons.IH[of 0 n' out' ?g 0] Cons.prems full(3) g p(2,3) by simp
  qed
qed

subsection \<open>Buffers\<close>

lemma buffer_encode_ok:
  assumes "unat n \<le> length buffer" "n < 2 ^ 31"
  shows "\<exists>b. buffer_encode_base_64 uninit buffer n = Some b \<and> contents b = encode_groups (take (unat n) buffer) @ [0] \<and> unat (buf_size b) = 4 * ((unat n + 2) div 3) + 1
     \<and> unat (buf_size b) \<le> length (data_ptr b)"
proof -
  let ?out_len = "((n div 3) + 1) * 4 + 4 + 1" and ?chars = "encode_groups (take (unat n) buffer)"
  let ?len = "4 * ((unat n + 2) div 3)"
  have n: "unat n < 2 ^ 31" using assms(2) by (simp add: word_less_nat_alt)
  have "unat (n div 3) = unat n div 3" by (simp add: unat_div)
  then have out: "unat ?out_len = (unat n div 3 + 1) * 4 + 5" using n by (simp add: unat_word_ariths)
  have chars: "length ?chars = ?len" using assms(1) by (simp add: length_encode_groups min_def)
  have room: "?len + 1 \<le> unat ?out_len" unfolding out
  proof -
    have "(unat n + 2) div 3 \<le> (unat n + 3) div 3" by (rule div_le_mono) simp
    then show "4 * ((unat n + 2) div 3) + 1 \<le> (unat n div 3 + 1) * 4 + 5" by simp
  qed
  let ?d = "?chars @ [0] @ drop (?len + 1) (map uninit [0..<unat ?out_len])"
  have enc: "base64_encode (take (unat n) buffer) (map uninit [0..<unat ?out_len]) (unat ?out_len) = Some (CRYPT_OK, ?d, ?len)"
    using room chars assms(1) unfolding base64_encode_def Let_def by (simp add: mem_copy_def min_def)
  have "?len + 1 < 2 ^ LENGTH(32)" using room out n by simp
  then have size: "unat (word_of_nat (?len + 1) :: uint32) = ?len + 1" by (rule unat_of_nat_small)
  then have le: "(word_of_nat (?len + 1) :: uint32) \<le> ?out_len" using room by (simp only: word_le_nat_alt)
  have d0: "?d[?len := 0] = ?d" using chars by (simp add: list_update_append)
  have "buffer_encode_base_64 uninit buffer n = Some \<lparr>data_ptr = ?d, buf_size = word_of_nat (?len + 1)\<rparr>"
    unfolding buffer_encode_base_64_def using assms(1) enc le d0 chars by (simp add: Let_def buffer_of_size_def buffer_resize_def del: list_update_append)
  then show ?thesis using size chars room by (simp add: contents_def)
qed

text \<open>C16. Base 64 text decodes to what was encoded.  Below two gigabytes encoding ends with a buffer of four characters per three bytes and a final zero byte, and decoding
  that buffer gives back exactly the bytes; decoding any other bytes also ends, never writes outside the buffer it allocates, never runs out of room in it and
  yields a buffer no longer than the text.\<close>
theorem base64_round_trip:
  assumes "unat n \<le> length buffer" and "n < 2 ^ 31" and "unat m \<le> length any"
  shows "\<exists>coded b. buffer_encode_base_64 uninit buffer n = Some coded \<and> unat (buf_size coded) = 4 * ((unat n + 2) div 3) + 1
     \<and> buffer_decode_base_64 uninit (data_ptr coded) (buf_size coded) = Some b \<and> contents b = take (unat n) buffer
     \<and> (\<exists>b'. buffer_decode_base_64 uninit any m = Some b' \<and> buf_size b' \<le> m \<and> unat (buf_size b') \<le> length (data_ptr b'))"
proof -
  obtain coded where t: "buffer_encode_base_64 uninit buffer n = Some coded" "contents coded = encode_groups (take (unat n) buffer) @ [0]"
      "unat (buf_size coded) = 4 * ((unat n + 2) div 3) + 1" "unat (buf_size coded) \<le> length (data_ptr coded)"
    using buffer_encode_ok[OF assms(1,2)] by blast
  let ?N = "unat (buf_size coded)" and ?bytes = "take (unat n) buffer"
  let ?out = "map uninit [0..<?N]"
  have fit: "unat n \<le> ?N" using t(3) by linarith
  have len: "length ?bytes = unat n" using assms(1) by simp
  obtain g where "decode_loop (encode_groups ?bytes @ [0]) ?N 3 0 0 0 ?out = decode_loop [0] ?N g 0 0 (unat n) (?bytes @ drop (unat n) ?out)"
    using decode_encoded[of 0 ?bytes ?N ?out "[0]"] fit unfolding len by (auto simp del: decode_loop.simps)
  then have "base64_decode (contents coded) ?out ?N = Some (CRYPT_OK, ?bytes @ drop (unat n) ?out, unat n)"
    unfolding base64_decode_def t(2) using special_chars(2) by simp
  then have dec: "buffer_decode_base_64 uninit (data_ptr coded) (buf_size coded) = Some \<lparr>data_ptr = ?bytes @ drop (unat n) ?out, buf_size = n\<rparr>"
    using t(4) fit by (simp add: buffer_decode_base_64_def buffer_of_size_def buffer_resize_def contents_def Let_def word_le_nat_alt)
  obtain r out' k where k: "decode_loop (take (unat m) any) (unat m) 3 0 0 0 (map uninit [0..<unat m]) = Some (r, out', k)" "length out' = unat m" "k \<le> unat m"
    using decode_total[of 0 0 "take (unat m) any" "unat m" "map uninit [0..<unat m]" 3 0] assms(3) by auto
  have "unat (word_of_nat k :: uint32) = k" using k(3) order.strict_trans1[OF k(3) unsigned_less] by (simp add: unsigned_of_nat take_bit_eq_mod)
  then have "\<exists>b'. buffer_decode_base_64 uninit any m = Some b' \<and> buf_size b' \<le> m \<and> unat (buf_size b') \<le> length (data_ptr b')"
    using k assms(3) by (simp add: buffer_decode_base_64_def base64_decode_def buffer_of_size_def buffer_resize_def Let_def word_le_nat_alt)
  then show ?thesis using t(1,3) dec len by (simp add: contents_def)
qed

theorem base64_round_trip_witness:
  "\<exists>coded b. buffer_encode_base_64 (\<lambda>_. 9) [77, 97, 110, 255] 4 = Some coded \<and> buf_size coded = 9
     \<and> buffer_decode_base_64 (\<lambda>_. 9) (data_ptr coded) (buf_size coded) = Some b \<and> contents b = [77, 97, 110, 255]"
  using base64_round_trip[of 4 "[77, 97, 110, 255]" 2 "[61, 61]" "\<lambda>_. 9"] by (auto simp: word_unat_eq_iff)

text \<open>An error of the decoder is lost: text of one character yields a buffer of the bytes that happened to be there.\<close>

lemma decode_error_lost:
  "buffer_decode_base_64 uninit [65] 1 = Some \<lparr>data_ptr = [uninit 0], buf_size = 1\<rparr>"
proof -
  have "b64_map ! 65 = 0" by code_simp
  then show ?thesis by (simp add: buffer_decode_base_64_def base64_decode_def buffer_of_size_def buffer_resize_def Let_def)
qed

text \<open>With three padding characters the decoder writes one byte past an output without room.\<close>

lemma padding_overruns:
  "base64_decode [65, 61, 61, 61] [] 0 = None"
proof -
  have "b64_map ! 65 = 0" "b64_map ! 61 = 254" by code_simp+
  then show ?thesis by (simp add: base64_decode_def Let_def put_group_def store_def)
qed

end
