(* ===== verification/Fixed_Stream.thy ===== *)
theory Fixed_Stream
  imports Base_Type_IO
begin

text \<open>
  \<^verbatim>\<open>core/byte_stream_fixed.h\<close>, a cursor over a byte buffer, and the reads and writes of \<^verbatim>\<open>core/base_type_io.h\<close> for \<^verbatim>\<open>enumeration\<close> and \<^verbatim>\<open>int_ranged\<close> values with the two types of
  \<^verbatim>\<open>core/base_type_declarations.h\<close>.  The template arguments are arguments.
\<close>

subsection \<open>The source\<close>

type_synonym int32 = "32 word"

record byte_stream_fixed =
  bf_position :: uint32
  bf_buffer_size :: uint32
  bf_buffer :: "byte list"

definition fixed_set_buffer :: "byte list \<Rightarrow> uint32 \<Rightarrow> byte_stream_fixed" where
  "fixed_set_buffer buffer buffer_size = \<lparr>bf_position = 0, bf_buffer_size = buffer_size, bf_buffer = buffer\<rparr>"

definition fixed_set_position :: "uint32 \<Rightarrow> byte_stream_fixed \<Rightarrow> byte_stream_fixed" where
  "fixed_set_position byte_pos st = st\<lparr>bf_position := if bf_buffer_size st < byte_pos then bf_buffer_size st else byte_pos\<rparr>"

definition fixed_count :: "uint32 \<Rightarrow> byte_stream_fixed \<Rightarrow> uint32" where
  "fixed_count count st = (if bf_buffer_size st < count + bf_position st then bf_buffer_size st - bf_position st else count)"

definition fixed_read_bytes :: "byte list \<Rightarrow> uint32 \<Rightarrow> byte_stream_fixed \<Rightarrow> (uint32 \<times> byte list \<times> byte_stream_fixed) option" where
  "fixed_read_bytes dest read_byte_count st = do {
     let n = fixed_count read_byte_count st;
     dest' \<leftarrow> mem_copy dest 0 (drop (unat (bf_position st)) (bf_buffer st)) (unat n);
     Some (n, dest', st\<lparr>bf_position := bf_position st + n\<rparr>) }"

definition fixed_write_bytes :: "byte list \<Rightarrow> uint32 \<Rightarrow> byte_stream_fixed \<Rightarrow> (uint32 \<times> byte_stream_fixed) option" where
  "fixed_write_bytes src write_byte_count st = do {
     let n = fixed_count write_byte_count st;
     buffer' \<leftarrow> mem_copy (bf_buffer st) (unat (bf_position st)) src (unat n);
     Some (n, st\<lparr>bf_buffer := buffer', bf_position := bf_position st + n\<rparr>) }"

text \<open>An enumeration is checked against its number of values when it is made, also from a value read; a ranged integer when it is made from an integer, but not when it is read.  The
  member that the stream functions of the ranged integer name is spelled as the class spells it.\<close>

definition make_enumeration :: "uint32 \<Rightarrow> uint32 \<Rightarrow> uint32 option" where
  "make_enumeration enum_count enum_value = do { assert (enum_value < enum_count); Some enum_value }"

definition write_enumeration :: "uint32 \<Rightarrow> uint32 \<Rightarrow> bit_stream \<Rightarrow> (bool \<times> bit_stream) option" where
  "write_enumeration enum_count value st = do { st' \<leftarrow> write_ranged_uint32 value 0 (enum_count - 1) st; Some (True, st') }"

definition read_enumeration :: "uint32 \<Rightarrow> bit_stream \<Rightarrow> (bool \<times> uint32 \<times> bit_stream) option" where
  "read_enumeration enum_count st = do {
     (v, st') \<leftarrow> read_ranged_uint32 0 (enum_count - 1) st;
     value \<leftarrow> make_enumeration enum_count v;
     Some (True, value, st') }"

definition make_int_ranged :: "int32 \<Rightarrow> int32 \<Rightarrow> int32 \<Rightarrow> uint32 option" where
  "make_int_ranged range_min range_max value = do {
     let offset_value = value - range_min;
     assert (offset_value \<le> range_max - range_min);
     Some offset_value }"

definition int_ranged_value :: "int32 \<Rightarrow> uint32 \<Rightarrow> int32" where
  "int_ranged_value range_min offset_value = offset_value + range_min"

definition write_int_ranged :: "int32 \<Rightarrow> int32 \<Rightarrow> uint32 \<Rightarrow> bit_stream \<Rightarrow> (bool \<times> bit_stream) option" where
  "write_int_ranged range_min range_max offset_value st = do {
     st' \<leftarrow> write_ranged_uint32 offset_value 0 (range_max - range_min + 1) st;
     Some (True, st') }"

definition read_int_ranged :: "int32 \<Rightarrow> int32 \<Rightarrow> bit_stream \<Rightarrow> (bool \<times> uint32 \<times> bit_stream) option" where
  "read_int_ranged range_min range_max st = do {
     (v, st') \<leftarrow> read_ranged_uint32 0 (range_max - range_min + 1) st;
     Some (True, v, st') }"

subsection \<open>The fixed stream\<close>

definition fixed_wf :: "byte_stream_fixed \<Rightarrow> bool" where
  "fixed_wf st \<longleftrightarrow> bf_position st \<le> bf_buffer_size st \<and> unat (bf_buffer_size st) \<le> length (bf_buffer st)"

definition fixed_left :: "byte_stream_fixed \<Rightarrow> nat" where
  "fixed_left st = unat (bf_buffer_size st) - unat (bf_position st)"

lemma fixed_count_min:
  assumes "fixed_wf st" "unat n + unat (bf_position st) < 2 ^ 32"
  shows "unat (fixed_count n st) = min (unat n) (fixed_left st)" "unat (bf_position st + fixed_count n st) = unat (bf_position st) + unat (fixed_count n st)"
    "unat (bf_position st) + unat (fixed_count n st) \<le> unat (bf_buffer_size st)"
proof -
  have sum: "unat (n + bf_position st) = unat n + unat (bf_position st)" using assms(2) by (subst unat_add_lem[THEN iffD1]) simp_all
  have le: "unat (bf_position st) \<le> unat (bf_buffer_size st)" using assms(1) by (simp add: fixed_wf_def word_le_nat_alt)
  then show c: "unat (fixed_count n st) = min (unat n) (fixed_left st)"
    using sum by (auto simp: fixed_count_def fixed_left_def unat_diff_32 word_less_nat_alt min_def)
  then show b: "unat (bf_position st) + unat (fixed_count n st) \<le> unat (bf_buffer_size st)" using le by (simp add: fixed_left_def)
  show "unat (bf_position st + fixed_count n st) = unat (bf_position st) + unat (fixed_count n st)"
    using b unat_less_32[of "bf_buffer_size st"] by (subst unat_add_lem[THEN iffD1]) simp_all
qed

text \<open>What fits is transferred, and the cursor stays in the buffer.\<close>

lemma fixed_write_ok:
  assumes "fixed_wf st" "unat n + unat (bf_position st) < 2 ^ 32" "unat n \<le> length src"
  shows "\<exists>k st'. fixed_write_bytes src n st = Some (k, st') \<and> unat k = min (unat n) (fixed_left st) \<and> fixed_wf st' \<and> bf_buffer_size st' = bf_buffer_size st
     \<and> unat (bf_position st') = unat (bf_position st) + unat k
     \<and> bf_buffer st' = take (unat (bf_position st)) (bf_buffer st) @ take (unat k) src @ drop (unat (bf_position st) + unat k) (bf_buffer st)"
proof -
  note c = fixed_count_min[OF assms(1,2)]
  have "unat (bf_position st) + unat (fixed_count n st) \<le> length (bf_buffer st)" "unat (fixed_count n st) \<le> length src"
    using c(1,3) assms(1,3) by (simp_all add: fixed_wf_def)
  then show ?thesis using c assms(1) by (simp add: fixed_write_bytes_def mem_copy_def Let_def fixed_wf_def word_le_nat_alt)
qed

lemma fixed_read_ok:
  assumes "fixed_wf st" "unat n + unat (bf_position st) < 2 ^ 32" "unat n \<le> length dest"
  shows "\<exists>k st'. fixed_read_bytes dest n st = Some (k, take (unat k) (drop (unat (bf_position st)) (bf_buffer st)) @ drop (unat k) dest, st')
     \<and> unat k = min (unat n) (fixed_left st) \<and> fixed_wf st' \<and> bf_buffer st' = bf_buffer st \<and> unat (bf_position st') = unat (bf_position st) + unat k"
proof -
  note c = fixed_count_min[OF assms(1,2)]
  have "unat (bf_position st) + unat (fixed_count n st) \<le> length (bf_buffer st)" "unat (fixed_count n st) \<le> length dest"
    using c(1,3) assms(1,3) by (simp_all add: fixed_wf_def)
  then show ?thesis using c assms(1) by (simp add: fixed_read_bytes_def mem_copy_def Let_def fixed_wf_def word_le_nat_alt)
qed

text \<open>What was written is read back from the position where it was written.\<close>

lemma fixed_round_trip:
  assumes "fixed_wf st" "unat n = length src" "length src \<le> fixed_left st" "length dest = length src"
  shows "\<exists>st' st''. fixed_write_bytes src n st = Some (n, st') \<and> fixed_read_bytes dest n (fixed_set_position (bf_position st) st') = Some (n, src, st'')
     \<and> bf_position st'' = bf_position st'"
proof -
  let ?p = "unat (bf_position st)"
  have p: "?p \<le> unat (bf_buffer_size st)" using assms(1) by (simp add: fixed_wf_def word_le_nat_alt)
  have "unat n + ?p \<le> unat (bf_buffer_size st)" using assms(2,3) p by (simp add: fixed_left_def)
  then have lt: "unat n + ?p < 2 ^ 32" using unat_less_32[of "bf_buffer_size st"] by simp
  obtain k st' where w: "fixed_write_bytes src n st = Some (k, st')" "unat k = min (unat n) (fixed_left st)" "fixed_wf st'" "bf_buffer_size st' = bf_buffer_size st"
      "unat (bf_position st') = ?p + unat k" "bf_buffer st' = take ?p (bf_buffer st) @ take (unat k) src @ drop (?p + unat k) (bf_buffer st)"
    using fixed_write_ok[OF assms(1) lt, of src] assms(2) by auto
  have k: "k = n" using w(2) assms(2,3) by (simp add: word_unat_eq_iff)
  let ?s = "fixed_set_position (bf_position st) st'"
  have s: "?s = st'\<lparr>bf_position := bf_position st\<rparr>" using w(4) p by (simp add: fixed_set_position_def word_less_nat_alt)
  then have wf: "fixed_wf ?s" "fixed_left ?s = fixed_left st" using w(3,4) assms(1) by (simp_all add: fixed_wf_def fixed_left_def)
  have "?p \<le> length (bf_buffer st)" using p assms(1) by (simp add: fixed_wf_def)
  then have got: "take (length src) (drop ?p (bf_buffer st')) = src" using w(6) k assms(2) by (simp add: min_def)
  obtain k' st'' where r: "fixed_read_bytes dest n ?s = Some (k', take (unat k') (drop ?p (bf_buffer st')) @ drop (unat k') dest, st'')"
      "unat k' = min (unat n) (fixed_left st)" "unat (bf_position st'') = ?p + unat k'"
    using fixed_read_ok[OF wf(1), of n dest] lt assms(2,4) wf(2) unfolding s by auto
  have k': "k' = n" using r(2) assms(2,3) by (simp add: word_unat_eq_iff)
  then show ?thesis using w(1,5) r(1,3) k got assms(2,4) by (auto simp: word_unat_eq_iff)
qed

text \<open>The comparison wraps: from a position behind the start, a count that adds up to \<open>2 ^ 32\<close> passes it and is copied in full.\<close>

lemma fixed_count_wraps:
  assumes "bf_position st \<noteq> 0" "length (bf_buffer st) < 2 ^ 32"
  shows "fixed_read_bytes dest (- bf_position st) st = None" "fixed_write_bytes src (- bf_position st) st = None"
proof -
  have "0 < unat (bf_position st)" using assms(1) by (simp add: unat_gt_0)
  moreover have "(unat (bf_position st) + unat (- bf_position st)) mod 2 ^ 32 = 0"
    using unat_word_ariths(1)[of "bf_position st" "- bf_position st"] by simp
  ultimately have "2 ^ 32 \<le> unat (bf_position st) + unat (- bf_position st)" by (metis add_gr_0 mod_less not_less not_less_zero)
  then have "length (bf_buffer st) < unat (bf_position st) + unat (- bf_position st)" using assms(2) by simp
  moreover have "0 < unat (- bf_position st)" using assms(1) by (simp add: unat_gt_0)
  ultimately show "fixed_read_bytes dest (- bf_position st) st = None" "fixed_write_bytes src (- bf_position st) st = None"
    by (auto simp: fixed_read_bytes_def fixed_write_bytes_def fixed_count_def mem_copy_def Let_def)
qed

subsection \<open>Enumerations and ranged integers\<close>

lemma enumeration_round_trip:
  assumes "stream_wf st" "24 \<le> room st" "v < enum_count" "unat enum_count < 2 ^ 24"
  shows "\<exists>st' st''. write_enumeration enum_count v st = Some (True, st') \<and> read_enumeration enum_count (st'\<lparr>bit_num := bit_num st\<rparr>) = Some (True, v, st'')
     \<and> bit_num st'' = bit_num st'"
proof -
  have lt: "unat v < unat enum_count" using assms(3) by (simp add: word_less_nat_alt)
  then have m: "unat (enum_count - 1) = unat enum_count - 1" by (subst unat_diff_32) simp_all
  have "0 \<le> v" "v \<le> enum_count - 1" "unat (enum_count - 1) - unat (0 :: uint32) + 1 < 2 ^ 24" using m lt assms(4) by (simp_all add: word_le_nat_alt)
  from ranged_round_trip[OF assms(1,2) this] assms(3) show ?thesis
    by (auto simp: write_enumeration_def read_enumeration_def make_enumeration_def)
qed

text \<open>A value that fits the bits but not the enumeration stops the reader.\<close>

lemma enumeration_out_of_range: "read_enumeration 3 (make_stream [3] 1) = None"
proof -
  have "get_next_binary_log 3 = 2"
    by (simp add: get_next_binary_log_def get_binary_log_exact ilog2_unique[of 1 3] is_power_of_2_def)
  moreover have "read_integer 2 (make_stream [3] 1) = Some (3, (make_stream [3] 1)\<lparr>bit_num := 2\<rparr>)" by code_simp
  ultimately show ?thesis by (simp add: read_enumeration_def read_ranged_uint32_def make_enumeration_def Let_def)
qed

lemma int_ranged_round_trip:
  assumes "stream_wf st" "24 \<le> room st" "unat (hi - lo) + 2 < 2 ^ 24" "make_int_ranged lo hi value = Some v"
  shows "\<exists>st' st''. write_int_ranged lo hi v st = Some (True, st') \<and> read_int_ranged lo hi (st'\<lparr>bit_num := bit_num st\<rparr>) = Some (True, v, st'')
     \<and> bit_num st'' = bit_num st' \<and> int_ranged_value lo v = value"
proof -
  have v: "v = value - lo" "v \<le> hi - lo" using assms(4) by (auto simp: make_int_ranged_def Let_def split: Option.bind_splits)
  have n: "unat (hi - lo + 1) = unat (hi - lo) + 1" using assms(3) by (subst unat_add_lem[THEN iffD1]) simp_all
  have "0 \<le> v" "v \<le> hi - lo + 1" "unat (hi - lo + 1) - unat (0 :: uint32) + 1 < 2 ^ 24" using v(2) n assms(3) by (simp_all add: word_le_nat_alt)
  from ranged_round_trip[OF assms(1,2) this] v(1) show ?thesis
    by (auto simp: write_int_ranged_def read_int_ranged_def int_ranged_value_def)
qed

end
