(* ===== verification/Spec2Isabelle.thy ===== *)
theory Spec2Isabelle
  imports Socket_Safety Disconnect Dynamic_Array Page_Allocator Calendar Ref_Object Hash_Array_List Interning Formatted_Buffer Small_Block_Sound Udp_Socket Base64 Fixed_Stream
begin

text \<open>
  \<^bold>\<open>Torque Sockets: a verification development.\<close>

  Torque Sockets is a connection-oriented datagram library: a socket opens connections to other sockets over UDP,
  with a handshake that proves the client's address and makes it solve a puzzle, an exchange of keys, and a notify protocol that tells
  the sender of each packet whether it arrived.  The library's own code is under \<^verbatim>\<open>src/torque_sockets\<close>; it stands on the small template
  library under \<^verbatim>\<open>src/core\<close> and on the vendored libtomcrypt.  All of it is headers that
  \<^verbatim>\<open>src/products/libtorquesockets/libtorquesockets.cpp\<close> includes into one translation unit.

  \<^bold>\<open>How the parts fit together.\<close>  A \<^verbatim>\<open>torque_socket\<close> owns a UDP socket, a list of pending connections (handshakes in progress), a list
  of established \<^verbatim>\<open>torque_connection\<close>s with two hash tables over it (by index and by address), a puzzle manager, a
  queue of worker threads that solves puzzles, and the queue of events for its client.  Datagrams enter
  through \<^verbatim>\<open>_process_packet\<close>: a set high bit of the first byte means a connection's packet, anything else is a handshake
  packet that goes to its handler.  Packets are written to and read from \<^verbatim>\<open>bit_stream\<close>s; parts of them are hashed and encrypted.  The
  client calls \<^verbatim>\<open>connect\<close>, \<^verbatim>\<open>accept_connection\<close> and the like, and polls \<^verbatim>\<open>get_next_event\<close>, which also does the periodic work.

  \<^bold>\<open>The theories\<close>, each over those it imports, with the source they model:

  \<^item> \<open>Prelude\<close>: the integer types of \<^verbatim>\<open>core/base_type_declarations.h\<close> as words, checked memory access, byte images of integers, runs of a
    step relation, and the lemmas on words and lists that the components share.
  \<^item> \<open>Copy_Bits\<close>, \<open>Power_Two\<close>, \<open>Bit_Stream\<close>: \<^verbatim>\<open>core/bit_stream.h\<close> and \<^verbatim>\<open>core/power_two_functions.h\<close>.  The byte-wise loops of the
    bit copy are equivalent to copying bit by bit and stay in their buffers; integers, ranged integers and byte runs written to a
    stream are read back; a read past the end delivers what is there and raises the error flag.
  \<^item> \<open>Base_Type_IO\<close>: \<^verbatim>\<open>core/base_type_io.h\<close>, \<^verbatim>\<open>core/byte_buffer.h\<close>.  The locale \<open>wire_codec\<close> is the contract of a type's \<^verbatim>\<open>write\<close> and
    \<^verbatim>\<open>read\<close>; it is interpreted on the four integer types, byte buffers and addresses.
  \<^item> \<open>Fixed_Stream\<close>: \<^verbatim>\<open>core/byte_stream_fixed.h\<close>, with enumerations and ranged integers on bit streams; round trips, what fits is transferred, and the count for which the check wraps.
  \<^item> \<open>Buffer_Utils\<close>, \<open>Symmetric_Cipher\<close>: \<^verbatim>\<open>buffer_utils.h\<close>, \<^verbatim>\<open>symmetric_cipher.h\<close>, \<^verbatim>\<open>core/cpu_endian.h\<close>: hexadecimal text, the table-driven CRC against
    its bitwise definition, stream encryption and its inverse, packet protection accepted by the receiver.
  \<^item> \<open>Base64\<close>: the base 64 text of \<^verbatim>\<open>buffer_utils.h\<close> with \<^verbatim>\<open>base64_encode.c\<close> and \<^verbatim>\<open>base64_decode.c\<close> of libtomcrypt; the round trip, and that decoding any text
    stays in its buffer.
  \<^item> \<open>Linked_List\<close>, \<open>Event_Queue\<close>: pointer-linked lists in a store, and \<^verbatim>\<open>socket_event_queue.h\<close> as a refinement of a first-in first-out list
    (locale \<open>event_fifo\<close>).
  \<^item> \<open>Address\<close>: \<^verbatim>\<open>address.h\<close>; text, \<^verbatim>\<open>SOCKADDR\<close> and wire forms.
  \<^item> \<open>Torque_Connection\<close>, \<open>Connection_Header\<close>: \<^verbatim>\<open>torque_connection.h\<close>, the notify protocol.  The first theory holds the operations and the theorems on
    windows, acknowledgement words, notifications and sequence numbers; the second the bit-level contents of a packet
    and the delivery of data packets.
  \<^item> \<open>Random_Generator\<close>, \<open>Client_Puzzle\<close>, \<open>Asymmetric_Key\<close>: \<^verbatim>\<open>random_generator.h\<close>, \<^verbatim>\<open>client_puzzle.h\<close>, \<^verbatim>\<open>asymmetric_key.h\<close>.  No solution of a puzzle counts twice, in any
    interleaving of checks and ticks; the solver finds the least solution and the manager accepts it; both ends of a key exchange
    compute one secret.
  \<^item> \<open>Hash_Table_Flat\<close>, \<open>Dynamic_Array\<close>, \<open>Thread_Queue\<close>: \<^verbatim>\<open>core/hash_table_flat.h\<close> with \<^verbatim>\<open>core/hash.h\<close>, \<^verbatim>\<open>core/array.h\<close>, \<^verbatim>\<open>core/thread_queue.h\<close>.  The table refines a map under
    insertion (locale \<open>keyed_table\<close>), the array a list (locale \<open>growing_sequence\<close>); where the code departs from that - removal in the
    middle of a run, insertion into a full array - the departure is a theorem.  The thread queue is a step relation over all
    interleavings of client and workers.
  \<^item> \<open>Simulation\<close>: sequences of operations and their specification.  The locale \<open>simulation\<close> is the contract of one operation; it is interpreted on
    the arrays with hash chains, counted references, both kinds of strings and the small block allocator.
  \<^item> \<open>Slot_Chain\<close>, \<open>Hash_Table_Array\<close>, \<open>Hash_Array_List\<close>: \<^verbatim>\<open>core/hash_table_array.h\<close>, which \<^verbatim>\<open>core/dictionary.h\<close> instantiates.  Chains whose links lie in buckets and in
    nodes are the locale \<open>slot_store\<close>, shared with the indexed strings.  The array with hash chains refines a list of pairs; moving an item
    forwards is shown to trap.
  \<^item> \<open>Page_Allocator\<close>, \<open>Small_Block\<close>, \<open>Small_Block_Sound\<close>: \<^verbatim>\<open>core/zone_allocator.h\<close>, \<^verbatim>\<open>core/page_allocator.h\<close>, \<^verbatim>\<open>core/small_block_allocator.h\<close>.  Blocks never overlap and
    lie in live memory of the zone, and all pages are given back.
  \<^item> \<open>Ref_Object\<close>, \<open>Counted\<close>, \<open>Indexed_String\<close>, \<open>Interning\<close>, \<open>String_Class\<close>, \<open>Formatted_Buffer\<close>: \<^verbatim>\<open>core/ref_object.h\<close>, \<^verbatim>\<open>core/indexed_string.h\<close>, \<^verbatim>\<open>core/string.h\<close>,
    \<^verbatim>\<open>core/formatted_string_buffer.h\<close> and \<^verbatim>\<open>core/memory_functions.h\<close>.  Counts are exact and no pointer dangles; strings that share records behave as
    values, interned strings as texts with one node each, and formatting delivers exactly the texts that fit into the buffer's fixed part; for a longer text the argument list is read again,
    which has no defined outcome, and what follows from each outcome is shown.
  \<^item> \<open>Calendar\<close>: \<^verbatim>\<open>time.h\<close>; dates and their conversion to milliseconds and back.
  \<^item> \<open>Udp_Socket\<close>: \<^verbatim>\<open>udp_socket.h\<close>, \<^verbatim>\<open>sockets.h\<close>, \<^verbatim>\<open>packet_stream.h\<close> and \<^verbatim>\<open>torque_socket::bind\<close>, with the operating system's answers as a parameter: handles are accounted for,
    datagrams arrive as they were sent.
  \<^item> \<open>Socket_State\<close>, \<open>Socket_Handlers\<close>, \<open>Socket_Api\<close>: \<^verbatim>\<open>pending_connection.h\<close>, \<^verbatim>\<open>torque_socket.h\<close> and \<^verbatim>\<open>torque_sockets_c_implementation.h\<close>: the state with its
    linked lists in stores, every function that sends a handshake packet and every handler, the periodic work, the receive
    loop, the calls of the client.
  \<^item> \<open>Packet_Bytes\<close>, \<open>Handshake\<close>, \<open>Conversation\<close>, \<open>Disconnect\<close>, \<open>Socket_Safety\<close>: packets as byte lists (locale \<open>byte_codec\<close>, an extension of \<open>wire_codec\<close>), the handshake of two sockets
    from \<^verbatim>\<open>connect\<close> to the established event on both sides, the data packets over it and its end, and what the socket does with forged packets and
    with passing time.  The host of a handshake has a challenge response that fits into a packet with its key; the one a new socket has is uninitialised and does
    not fit, and what is then sent is the lemma \<open>new_socket_leaks\<close>.

  \<^bold>\<open>Conventions.\<close>  A computation that may trap - a failed assertion, an access outside a buffer, a null or dangling pointer, a loop that
  does not end - has an \<open>option\<close> type, and \<open>None\<close> is the trap; the theorems that say what code does prove \<open>Some\<close>.
  Integers keep their width.  Loops that end for a reason of their own are total functions; loops whose end depends on the shape of a
  linked list or table, and the search for a puzzle solution, are \<open>partial_function\<close>s, with theorems that they end.  No fuel is used.

  \<^bold>\<open>Parameters.\<close>  Code that is not the repository's own is an argument (the base 64 routines excepted, which are modelled from their source): the record \<open>crypto\<close> bundles SHA-256, the block cipher, the Yarrow generator
  and the elliptic-curve operations of libtomcrypt; \<open>digest_law\<close> (a digest has 32 bytes), \<open>yarrow_law\<close> (random buffers have the requested length) and \<open>ecc_law\<close> (the exported public
  half of a private key imports, and two private keys of one size compute one secret) are what theorems assume of them, and the witnesses instantiate them with concrete
  functions.  The record \<open>uninit\<close> holds what uninitialised memory contains, so that no theorem depends on it.  Times and received datagrams are
  arguments; sent datagrams are recorded in the state.

  \<^bold>\<open>Not modelled.\<close>  The operating system's threads (\<^verbatim>\<open>core/thread.h\<close>) and log output; the run-time type database,
  functors and function records of \<^verbatim>\<open>core\<close>, which serve a scripting interface the sockets library does not use; the browser plug-in and its
  generated bindings; the vendored libtomcrypt (but for base 64) and libtommath; \<^verbatim>\<open>old_arranged_connection_logic.h\<close>, which nothing includes.
\<close>

end
